(* ===== verification/RT_Prelude.thy ===== *)
theory RT_Prelude
  imports Main "HOL-Library.Word" "HOL-Library.Monad_Syntax"
begin

section \<open>Prelude: words, assertions and the partial-operation calculus\<close>

text \<open>
  Shared vocabulary of the development.

  \<^item> The integer types of \<^verbatim>\<open>rt-thread/include/rtdef.h\<close> on a 32-bit CPU, as words of their
    width; \<^verbatim>\<open>rt_err_t\<close> is an \<open>int\<close> that holds one of the error codes or its negation.
  \<^item> \<^verbatim>\<open>RT_ASSERT\<close>: an operation of the kernel is a function into \<open>option\<close>; \<open>None\<close> stands
    for a failed assertion (\<^verbatim>\<open>rt_assert_handler\<close> spins forever) or for an access that the C code
    must never make (a null dereference, a list node linked twice).
  \<^item> \<open>wp\<close>: total correctness of such an operation, \<open>wp m P\<close> holding when \<open>m\<close> does return and its
    result satisfies \<open>P\<close>. Its rules are in the collection \<open>wp_simps\<close>.
  \<^item> Bit-level facts about the alignment macros and about status bytes.
\<close>

unbundle bit_operations_syntax

named_theorems wp_simps \<open>rewrite rules of the weakest precondition of partial operations\<close>
named_theorems kernel_defs \<open>definitions of the model that proofs unfold together\<close>

type_synonym u8 = "8 word"
type_synonym u16 = "16 word"
type_synonym u32 = "32 word"
type_synonym rt_err = int

subsection \<open>Error codes and limits\<close>

abbreviation (input) RT_EOK :: rt_err where "RT_EOK \<equiv> 0"
abbreviation (input) RT_ERROR :: rt_err where "RT_ERROR \<equiv> 1"
abbreviation (input) RT_ETIMEOUT :: rt_err where "RT_ETIMEOUT \<equiv> 2"
abbreviation (input) RT_EFULL :: rt_err where "RT_EFULL \<equiv> 3"
abbreviation (input) RT_EEMPTY :: rt_err where "RT_EEMPTY \<equiv> 4"
abbreviation (input) RT_ENOMEM :: rt_err where "RT_ENOMEM \<equiv> 5"
abbreviation (input) RT_ENOSYS :: rt_err where "RT_ENOSYS \<equiv> 6"
abbreviation (input) RT_EINVAL :: rt_err where "RT_EINVAL \<equiv> 10"

abbreviation (input) RT_THREAD_PRIORITY_MAX :: nat where "RT_THREAD_PRIORITY_MAX \<equiv> 32"
abbreviation (input) RT_NAME_MAX :: nat where "RT_NAME_MAX \<equiv> 8"
abbreviation (input) RT_TICK_MAX :: u32 where "RT_TICK_MAX \<equiv> 0xffffffff"
abbreviation (input) RT_TICK_HALF :: u32 where "RT_TICK_HALF \<equiv> 0x7fffffff"
abbreviation (input) RT_ALIGN_SIZE :: u32 where "RT_ALIGN_SIZE \<equiv> 4"

subsection \<open>Assertions and weakest preconditions\<close>

definition RT_ASSERT :: "bool \<Rightarrow> unit option" where
  "RT_ASSERT b = (if b then Some () else None)"

definition wp :: "'a option \<Rightarrow> ('a \<Rightarrow> bool) \<Rightarrow> bool" where
  "wp m P = (case m of None \<Rightarrow> False | Some x \<Rightarrow> P x)"

lemma wp_Some [wp_simps]: "wp (Some x) P = P x"
  by (simp add: wp_def)

lemma wp_None [wp_simps]: "wp None P = False"
  by (simp add: wp_def)

lemma wp_bind [wp_simps]: "wp (Option.bind m f) P = wp m (\<lambda>x. wp (f x) P)"
  by (cases m) (simp_all add: wp_def)

lemma wp_assert [wp_simps]: "wp (RT_ASSERT b) P = (b \<and> P ())"
  by (simp add: wp_def RT_ASSERT_def)

lemma wp_if [wp_simps]: "wp (if b then m else n) P = (if b then wp m P else wp n P)"
  by simp

lemma wp_Let [wp_simps]: "wp (let x = v in f x) P = wp (f v) P"
  by simp

lemma wp_case_option [wp_simps]:
  "wp (case x of None \<Rightarrow> m | Some y \<Rightarrow> f y) P =
     (case x of None \<Rightarrow> wp m P | Some y \<Rightarrow> wp (f y) P)"
  by (cases x) simp_all

lemma wp_case_prod [wp_simps]:
  "wp (case x of (a, b) \<Rightarrow> f a b) P = (case x of (a, b) \<Rightarrow> wp (f a b) P)"
  by (cases x) simp

lemma wp_mono: "wp m P \<Longrightarrow> (\<And>x. P x \<Longrightarrow> Q x) \<Longrightarrow> wp m Q"
  by (cases m) (auto simp: wp_def)

lemma wp_iff: "wp m P \<longleftrightarrow> (\<exists>x. m = Some x \<and> P x)"
  by (cases m) (auto simp: wp_def)

lemma wp_pair: "wp m P \<longleftrightarrow> (\<exists>r s. m = Some (r, s) \<and> P (r, s))"
  by (auto simp: wp_iff)

lemma wpD: "wp m P \<Longrightarrow> m = Some x \<Longrightarrow> P x"
  by (simp add: wp_def)

lemma wp_conj: "wp m P \<Longrightarrow> wp m Q \<Longrightarrow> wp m (\<lambda>x. P x \<and> Q x)"
  by (cases m) (auto simp: wp_def)

lemma RT_ASSERT_Some [simp]: "RT_ASSERT b = Some u \<longleftrightarrow> b"
  by (simp add: RT_ASSERT_def)

lemma RT_ASSERT_True [simp]: "RT_ASSERT True = Some ()"
  by (simp add: RT_ASSERT_def)

subsection \<open>Alignment macros\<close>

definition RT_ALIGN :: "'a::len word \<Rightarrow> 'a word \<Rightarrow> 'a word" where
  "RT_ALIGN sz align = (sz + align - 1) AND NOT (align - 1)"

definition RT_ALIGN_DOWN :: "'a::len word \<Rightarrow> 'a word \<Rightarrow> 'a word" where
  "RT_ALIGN_DOWN sz align = sz AND NOT (align - 1)"

lemma align_eq: "RT_ALIGN (x :: u32) RT_ALIGN_SIZE = push_bit 2 (drop_bit 2 (x + 3))"
proof -
  have up: "Suc (Suc (n - 2)) = n" if "2 \<le> n" for n :: nat using that by simp
  have "(x + 4 - 1) AND NOT (4 - 1) = (x + 3) AND NOT (mask 2)" by (simp add: mask_eq_exp_minus_1 add.commute)
  also have "\<dots> = push_bit 2 (drop_bit 2 (x + 3))"
    by (rule bit_word_eqI) (auto simp: bit_simps up not_less)
  finally show ?thesis by (simp only: RT_ALIGN_def)
qed

lemma unat_align:
  assumes "(x :: u32) \<le> 0xfffffffc"
  shows "unat (RT_ALIGN x RT_ALIGN_SIZE) = 4 * ((unat x + 3) div 4)"
proof -
  have "unat (x + 3) = unat x + 3" using assms by (simp add: word_le_nat_alt unat_word_ariths)
  then have d: "unat (drop_bit 2 (x + 3)) = (unat x + 3) div 4"
    unfolding unat_drop_bit_eq by (simp add: drop_bit_eq_div)
  moreover have "4 * ((unat x + 3) div 4) < 4294967296" using assms by (simp add: word_le_nat_alt)
  ultimately have "unat (drop_bit 2 (x + 3) * 2 ^ 2) = unat (drop_bit 2 (x + 3)) * 4"
    by (simp add: unat_word_ariths mult.commute)
  then show ?thesis unfolding align_eq push_bit_eq_mult d by simp
qed

lemma unat_align_down: "unat (RT_ALIGN_DOWN (x :: 'a::len word) 4) = 4 * (unat x div 4)"
proof -
  have up: "Suc (Suc (n - 2)) = n" if "2 \<le> n" for n :: nat using that by simp
  have "x AND NOT (4 - 1) = x AND NOT (mask 2)" by (simp add: mask_eq_exp_minus_1)
  also have "\<dots> = push_bit 2 (drop_bit 2 x)" by (rule bit_word_eqI) (auto simp: bit_simps up not_less)
  finally have eq: "RT_ALIGN_DOWN x 4 = push_bit 2 (drop_bit 2 x)" by (simp only: RT_ALIGN_DOWN_def)
  have "unat x < 2 ^ LENGTH('a)" by (rule unsigned_less)
  then have "unat x div 4 * 4 < 2 ^ LENGTH('a)" using div_times_less_eq_dividend [of "unat x" 4] by linarith
  then show ?thesis
    unfolding eq unsigned_push_bit_eq unat_drop_bit_eq
    by (simp add: push_bit_eq_mult drop_bit_eq_div take_bit_nat_eq_self_iff mult.commute)
qed

subsection \<open>Loops that write an array\<close>

lemma fold_upd_other: "a \<notin> f ` set ks \<Longrightarrow> fold (\<lambda>k mem. mem(f k := g k)) ks mem a = mem a"
  by (induction ks arbitrary: mem) auto

lemma fold_upd_at: "inj_on f (set ks) \<Longrightarrow> k \<in> set ks \<Longrightarrow> fold (\<lambda>k mem. mem(f k := g k)) ks mem (f k) = g k"
proof (induction ks arbitrary: mem rule: rev_induct)
  case (snoc j ks)
  show ?case
  proof (cases "k = j")
    case False
    then have "f k \<noteq> f j" using inj_onD [OF snoc.prems(1), of k j] snoc.prems(2) by auto
    then show ?thesis using snoc False by (simp add: inj_on_def)
  qed simp
qed simp

subsection \<open>Single bits\<close>

lemma and_exp_zero_iff: "w AND 2 ^ n = 0 \<longleftrightarrow> \<not> bit (w :: 'a::len word) n"
  by (auto simp: bit_eq_iff [of _ 0] bit_simps dest: bit_imp_le_length)

lemma flag_bits [simp]:
  "w AND 1 = 0 \<longleftrightarrow> \<not> bit (w :: u8) 0" "w AND 2 = 0 \<longleftrightarrow> \<not> bit w 1" "w AND 4 = 0 \<longleftrightarrow> \<not> bit w 2"
  using and_exp_zero_iff [of w 0] and_exp_zero_iff [of w 1] and_exp_zero_iff [of w 2] by simp_all

lemma bit_flag_upd [simp]:
  "bit (w AND NOT 1) 0 = False" "bit (w AND NOT 1) 1 = bit (w :: u8) 1" "bit (w AND NOT 1) 2 = bit w 2"
  "bit (w OR 1) 0 = True" "bit (w OR 1) 1 = bit (w :: u8) 1" "bit (w OR 1) 2 = bit w 2"
  by (simp_all add: bit_simps)

end
