(* ===== verification/RT_List.thy ===== *)
theory RT_List
  imports RT_Prelude
begin

section \<open>Doubly linked lists of \<^verbatim>\<open>include/rtservice.h\<close>\<close>

text \<open>
  Two levels.

  \<^item> The pointer level is the code: a heap maps every list node to its \<^verbatim>\<open>next\<close> and \<^verbatim>\<open>prev\<close>
    pointers, and \<open>rt_list_init\<close>, \<open>rt_list_insert_after\<close>, \<open>rt_list_insert_before\<close>,
    \<open>rt_list_remove\<close>, \<open>rt_list_isempty\<close> and \<open>rt_list_len\<close> perform the assignments of the
    inline functions in their order.
  \<^item> The abstract level is what the kernel relies on: a family of rings, one per list head,
    with for every node the ring it is linked into (\<open>home\<close>). Linking a node that is already linked
    has no abstract result: in C it would corrupt two lists.

  The refinement lemmas show that the pointer operations implement the abstract ones on all
  rings of the heap at once. The rest of the kernel is modelled on the abstract rings. The locale
  \<open>linked_rings\<close> is the interface between the two; it is interpreted on both levels.
\<close>

subsection \<open>The pointer level\<close>

record 'p list_heap =
  nxt :: "'p \<Rightarrow> 'p"
  prv :: "'p \<Rightarrow> 'p"

definition rt_list_init :: "'p \<Rightarrow> 'p list_heap \<Rightarrow> 'p list_heap" where
  "rt_list_init l H = H\<lparr>nxt := (nxt H)(l := l), prv := (prv H)(l := l)\<rparr>"

definition rt_list_insert_after :: "'p \<Rightarrow> 'p \<Rightarrow> 'p list_heap \<Rightarrow> 'p list_heap" where
  "rt_list_insert_after l n H =
     (let H = H\<lparr>prv := (prv H)(nxt H l := n)\<rparr>;
          H = H\<lparr>nxt := (nxt H)(n := nxt H l)\<rparr>;
          H = H\<lparr>nxt := (nxt H)(l := n)\<rparr>;
          H = H\<lparr>prv := (prv H)(n := l)\<rparr>
      in H)"

definition rt_list_insert_before :: "'p \<Rightarrow> 'p \<Rightarrow> 'p list_heap \<Rightarrow> 'p list_heap" where
  "rt_list_insert_before l n H =
     (let H = H\<lparr>nxt := (nxt H)(prv H l := n)\<rparr>;
          H = H\<lparr>prv := (prv H)(n := prv H l)\<rparr>;
          H = H\<lparr>prv := (prv H)(l := n)\<rparr>;
          H = H\<lparr>nxt := (nxt H)(n := l)\<rparr>
      in H)"

definition rt_list_remove :: "'p \<Rightarrow> 'p list_heap \<Rightarrow> 'p list_heap" where
  "rt_list_remove n H =
     (let H = H\<lparr>prv := (prv H)(nxt H n := prv H n)\<rparr>;
          H = H\<lparr>nxt := (nxt H)(prv H n := nxt H n)\<rparr>;
          H = H\<lparr>prv := (prv H)(n := n)\<rparr>;
          H = H\<lparr>nxt := (nxt H)(n := prv H n)\<rparr>
      in H)"

definition rt_list_isempty :: "'p \<Rightarrow> 'p list_heap \<Rightarrow> bool" where
  "rt_list_isempty l H = (nxt H l = l)"

text \<open>The loop of \<open>rt_list_len\<close>: the pointer walk starting at \<open>p\<close>, \<open>len\<close> steps counted so far.\<close>

partial_function (option) rt_list_len_loop :: "'p \<Rightarrow> 'p list_heap \<Rightarrow> 'p \<Rightarrow> u32 \<Rightarrow> u32 option" where
  "rt_list_len_loop l H p len =
     (if nxt H p \<noteq> l then rt_list_len_loop l H (nxt H p) (len + 1) else Some len)"

definition rt_list_len :: "'p \<Rightarrow> 'p list_heap \<Rightarrow> u32 option" where
  "rt_list_len l H = rt_list_len_loop l H l 0"

subsection \<open>The abstract level\<close>

datatype ('h, 'n) list_ref = Head 'h | Node 'n

record ('h, 'n) rings =
  ring :: "'h \<Rightarrow> 'n list"
  home :: "'n \<Rightarrow> 'h option"

definition empty_rings :: "('h, 'n) rings" where
  "empty_rings = \<lparr>ring = (\<lambda>_. []), home = (\<lambda>_. None)\<rparr>"

definition ring_remove :: "'n \<Rightarrow> ('h, 'n) rings \<Rightarrow> ('h, 'n) rings" where
  "ring_remove n R =
     (case home R n of
        None \<Rightarrow> R
      | Some h \<Rightarrow> R\<lparr>ring := (ring R)(h := remove1 n (ring R h)), home := (home R)(n := None)\<rparr>)"

definition ring_insert_head :: "'h \<Rightarrow> 'n \<Rightarrow> ('h, 'n) rings \<Rightarrow> ('h, 'n) rings option" where
  "ring_insert_head h n R =
     (if home R n = None
      then Some (R\<lparr>ring := (ring R)(h := n # ring R h), home := (home R)(n := Some h)\<rparr>)
      else None)"

definition ring_insert_tail :: "'h \<Rightarrow> 'n \<Rightarrow> ('h, 'n) rings \<Rightarrow> ('h, 'n) rings option" where
  "ring_insert_tail h n R =
     (if home R n = None
      then Some (R\<lparr>ring := (ring R)(h := ring R h @ [n]), home := (home R)(n := Some h)\<rparr>)
      else None)"

fun list_insert_before :: "'n \<Rightarrow> 'n \<Rightarrow> 'n list \<Rightarrow> 'n list" where
  "list_insert_before m n [] = []"
| "list_insert_before m n (x # xs) = (if x = m then n # x # xs else x # list_insert_before m n xs)"

definition ring_insert_before :: "'n \<Rightarrow> 'n \<Rightarrow> ('h, 'n) rings \<Rightarrow> ('h, 'n) rings option" where
  "ring_insert_before m n R =
     (case home R m of
        None \<Rightarrow> None
      | Some h \<Rightarrow>
          (if home R n = None
           then Some (R\<lparr>ring := (ring R)(h := list_insert_before m n (ring R h)),
                        home := (home R)(n := Some h)\<rparr>)
           else None))"

fun list_insert_after :: "'n \<Rightarrow> 'n \<Rightarrow> 'n list \<Rightarrow> 'n list" where
  "list_insert_after m n [] = []"
| "list_insert_after m n (x # xs) = (if x = m then x # n # xs else x # list_insert_after m n xs)"

definition ring_insert_after :: "'n \<Rightarrow> 'n \<Rightarrow> ('h, 'n) rings \<Rightarrow> ('h, 'n) rings option" where
  "ring_insert_after m n R =
     (case home R m of
        None \<Rightarrow> None
      | Some h \<Rightarrow>
          (if home R n = None
           then Some (R\<lparr>ring := (ring R)(h := list_insert_after m n (ring R h)),
                        home := (home R)(n := Some h)\<rparr>)
           else None))"

definition ring_init_node :: "'n \<Rightarrow> ('h, 'n) rings \<Rightarrow> ('h, 'n) rings option" where
  "ring_init_node n R = (if home R n = None then Some R else None)"

definition rings_ok :: "('h, 'n) rings \<Rightarrow> bool" where
  "rings_ok R \<longleftrightarrow> (\<forall>n h. home R n = Some h \<longleftrightarrow> n \<in> set (ring R h)) \<and> (\<forall>h. distinct (ring R h))"

text \<open>
  The refinement relation: every ring is threaded through the heap in both directions, from its
  head back to its head, and a node outside every ring points to itself.
\<close>

fun path :: "'p list_heap \<Rightarrow> 'p list \<Rightarrow> bool" where
  "path H (a # b # xs) = (nxt H a = b \<and> prv H b = a \<and> path H (b # xs))"
| "path H xs = True"

definition cycle :: "'h \<Rightarrow> 'n list \<Rightarrow> ('h, 'n) list_ref list" where
  "cycle h xs = Head h # map Node xs @ [Head h]"

definition ring_rep :: "('h, 'n) list_ref list_heap \<Rightarrow> ('h, 'n) rings \<Rightarrow> bool" where
  "ring_rep H R \<longleftrightarrow> rings_ok R \<and> (\<forall>h. path H (cycle h (ring R h))) \<and>
     (\<forall>n. home R n = None \<longrightarrow> nxt H (Node n) = Node n \<and> prv H (Node n) = Node n)"

definition link_between :: "'p \<Rightarrow> 'p \<Rightarrow> 'p \<Rightarrow> 'p list_heap \<Rightarrow> 'p list_heap" where
  "link_between a n b H =
     H\<lparr>nxt := (nxt H)(a := n, n := b), prv := (prv H)(b := n, n := a)\<rparr>"

subsection \<open>Facts about the abstract rings\<close>

lemma rings_ok_home: "rings_ok R \<Longrightarrow> home R n = Some h \<longleftrightarrow> n \<in> set (ring R h)"
  by (simp add: rings_ok_def)

lemma rings_ok_distinct: "rings_ok R \<Longrightarrow> distinct (ring R h)"
  by (simp add: rings_ok_def)

lemma rings_ok_unlinked: "rings_ok R \<Longrightarrow> home R n = None \<Longrightarrow> n \<notin> set (ring R h)"
  by (metis option.distinct(1) rings_ok_home)

lemma rings_ok_unique:
  "rings_ok R \<Longrightarrow> n \<in> set (ring R h) \<Longrightarrow> n \<in> set (ring R g) \<Longrightarrow> g = h"
  by (metis option.inject rings_ok_home)

lemma rings_ok_empty [simp]: "rings_ok empty_rings"
  by (simp add: rings_ok_def empty_rings_def)

lemma home_ring_remove [simp]: "home (ring_remove n R) = (home R)(n := None)"
  by (auto simp: ring_remove_def fun_eq_iff split: option.splits)

lemma ring_ring_remove: "rings_ok R \<Longrightarrow> ring (ring_remove n R) h = remove1 n (ring R h)"
  by (auto simp: ring_remove_def rings_ok_unlinked remove1_idem split: option.splits)
    (metis option.inject remove1_idem rings_ok_home)

lemma rings_ok_remove [intro]: "rings_ok R \<Longrightarrow> rings_ok (ring_remove n R)"
  by (auto simp: rings_ok_def [of "ring_remove n R"] ring_ring_remove rings_ok_home rings_ok_distinct
      set_remove1_eq)

lemma ring_remove_unlinked: "home R n = None \<Longrightarrow> ring_remove n R = R"
  by (simp add: ring_remove_def)

lemma ring_insert_tail_Some:
  "ring_insert_tail h n R = Some R' \<longleftrightarrow> home R n = None \<and>
     R' = R\<lparr>ring := (ring R)(h := ring R h @ [n]), home := (home R)(n := Some h)\<rparr>"
  by (auto simp: ring_insert_tail_def)

lemma ring_insert_head_Some:
  "ring_insert_head h n R = Some R' \<longleftrightarrow> home R n = None \<and>
     R' = R\<lparr>ring := (ring R)(h := n # ring R h), home := (home R)(n := Some h)\<rparr>"
  by (auto simp: ring_insert_head_def)

lemma set_list_insert_before:
  "m \<in> set xs \<Longrightarrow> set (list_insert_before m n xs) = insert n (set xs)"
  by (induction xs) auto

lemma distinct_list_insert_before:
  "distinct xs \<Longrightarrow> n \<notin> set xs \<Longrightarrow> distinct (list_insert_before m n xs)"
proof (induction xs)
  case (Cons x xs)
  have "set (list_insert_before m n xs) \<subseteq> insert n (set xs)"
    by (induction xs) auto
  with Cons show ?case by auto
qed simp

lemma list_insert_before_split:
  "m \<notin> set xs \<Longrightarrow> list_insert_before m n (xs @ m # ys) = xs @ n # m # ys"
  by (induction xs) auto

lemma set_list_insert_after:
  "m \<in> set xs \<Longrightarrow> set (list_insert_after m n xs) = insert n (set xs)"
  by (induction xs) auto

lemma distinct_list_insert_after:
  "distinct xs \<Longrightarrow> n \<notin> set xs \<Longrightarrow> distinct (list_insert_after m n xs)"
proof (induction xs)
  case (Cons x xs)
  have "set (list_insert_after m n xs) \<subseteq> insert n (set xs)"
    by (induction xs) auto
  with Cons show ?case by auto
qed simp

lemma list_insert_after_split:
  "m \<notin> set xs \<Longrightarrow> list_insert_after m n (xs @ m # ys) = xs @ m # n # ys"
  by (induction xs) auto

lemma rings_ok_insert_tail: "rings_ok R \<Longrightarrow> ring_insert_tail h n R = Some R' \<Longrightarrow> rings_ok R'"
  by (auto simp: ring_insert_tail_Some rings_ok_def) (metis option.distinct(1))+

lemma rings_ok_insert_head: "rings_ok R \<Longrightarrow> ring_insert_head h n R = Some R' \<Longrightarrow> rings_ok R'"
  by (auto simp: ring_insert_head_Some rings_ok_def) (metis option.distinct(1))+

lemma rings_ok_insert_before:
  assumes ok: "rings_ok R" and ins: "ring_insert_before m n R = Some R'"
  shows "rings_ok R'"
proof -
  from ins obtain h where h: "home R m = Some h" and n: "home R n = None"
    and R': "R' = R\<lparr>ring := (ring R)(h := list_insert_before m n (ring R h)), home := (home R)(n := Some h)\<rparr>"
    by (auto simp: ring_insert_before_def split: option.splits if_splits)
  have "m \<in> set (ring R h)" using ok h by (simp add: rings_ok_home)
  then show ?thesis
    using ok n rings_ok_unlinked [OF ok n]
    by (auto simp: R' rings_ok_def set_list_insert_before distinct_list_insert_before)
qed

lemma rings_ok_insert_after:
  assumes ok: "rings_ok R" and ins: "ring_insert_after m n R = Some R'"
  shows "rings_ok R'"
proof -
  from ins obtain h where h: "home R m = Some h" and n: "home R n = None"
    and R': "R' = R\<lparr>ring := (ring R)(h := list_insert_after m n (ring R h)), home := (home R)(n := Some h)\<rparr>"
    by (auto simp: ring_insert_after_def split: option.splits if_splits)
  have "m \<in> set (ring R h)" using ok h by (simp add: rings_ok_home)
  then show ?thesis
    using ok n rings_ok_unlinked [OF ok n]
    by (auto simp: R' rings_ok_def set_list_insert_after distinct_list_insert_after)
qed

subsection \<open>Threads through the heap\<close>

lemma path_append: "path H (xs @ a # ys) \<longleftrightarrow> path H (xs @ [a]) \<and> path H (a # ys)"
proof (induction xs)
  case (Cons x xs)
  then show ?case by (cases xs) auto
qed simp

lemma path_cong:
  "(\<And>a. a \<in> set (butlast L) \<Longrightarrow> nxt K a = nxt H a) \<Longrightarrow>
   (\<And>a. a \<in> set (tl L) \<Longrightarrow> prv K a = prv H a) \<Longrightarrow> path K L = path H L"
proof (induction H L rule: path.induct)
  case (1 H a b xs)
  show ?case using "1.IH" "1.prems" by (cases xs) auto
qed simp_all

lemma path_link_between:
  assumes p: "path H (xs @ a # b # ys)"
    and src: "distinct (butlast (xs @ a # b # ys))" and tgt: "distinct (tl (xs @ a # b # ys))"
    and new: "n \<notin> set (xs @ a # b # ys)"
  shows "path (link_between a n b H) (xs @ a # n # b # ys)"
proof -
  let ?K = "link_between a n b H"
  have a: "a \<notin> set xs" "a \<notin> set (butlast (b # ys))"
    using src by (simp_all add: butlast_append)
  have b: "b \<notin> set (tl (xs @ [a])) \<and> b \<notin> set ys \<and> n \<notin> set (tl (xs @ [a]))"
    using tgt new by (cases xs) auto
  from p have "path H (xs @ [a])" "path H (b # ys)" "nxt H a = b" "prv H b = a"
    using path_append [THEN iffD1, OF p] by simp_all
  moreover have "path ?K (xs @ [a]) = path H (xs @ [a])"
    using a b new by (intro path_cong) (auto simp: link_between_def dest: in_set_butlastD)
  moreover have "path ?K (b # ys) = path H (b # ys)"
    using a b new by (intro path_cong) (auto simp: link_between_def dest: in_set_butlastD split: if_splits)
  ultimately show ?thesis
    using new path_append [of ?K xs a "n # b # ys"] by (auto simp: link_between_def)
qed

lemma path_unlink:
  assumes p: "path H (xs @ a # n # b # ys)"
    and src: "distinct (butlast (xs @ a # n # b # ys))" and tgt: "distinct (tl (xs @ a # n # b # ys))"
  shows "path (H\<lparr>nxt := (nxt H)(a := b, n := n), prv := (prv H)(b := a, n := n)\<rparr>) (xs @ a # b # ys)"
    (is "path ?K _")
proof -
  have a: "a \<notin> set xs" "a \<notin> set (butlast (b # ys))" "n \<notin> set xs" "n \<noteq> a" "n \<notin> set (butlast (b # ys))"
    using src by (auto simp: butlast_append)
  have b: "b \<notin> set (tl (xs @ [a])) \<and> b \<notin> set ys \<and> n \<notin> set (tl (xs @ [a])) \<and> n \<noteq> b \<and> n \<notin> set ys"
    using tgt by (cases xs) auto
  from p have "path H (xs @ [a])" "path H (b # ys)"
    using path_append [THEN iffD1, OF p] by simp_all
  moreover have "path ?K (xs @ [a]) = path H (xs @ [a])"
    using a b by (intro path_cong) (auto dest: in_set_butlastD)
  moreover have "path ?K (b # ys) = path H (b # ys)"
    using a b by (intro path_cong) auto
  ultimately show ?thesis
    using a b path_append [of ?K xs a "b # ys"] by auto
qed

subsection \<open>Cycles\<close>

lemma cycle_distinct:
  "distinct xs \<Longrightarrow> distinct (butlast (cycle h xs)) \<and> distinct (tl (cycle h xs))"
  by (auto simp: cycle_def distinct_map inj_on_def butlast_append)

lemma cycle_snoc: "cycle h (xs @ [n]) = (Head h # map Node xs) @ Node n # Head h # []"
  by (simp add: cycle_def)

lemma set_cycle [simp]: "set (cycle h xs) = insert (Head h) (Node ` set xs)"
  by (auto simp: cycle_def)

lemma butlast_cycle [simp]: "butlast (cycle h xs) = Head h # map Node xs"
  by (simp add: cycle_def butlast_append)

lemma tl_cycle [simp]: "tl (cycle h xs) = map Node xs @ [Head h]"
  by (simp add: cycle_def)

subsection \<open>The pointer operations implement the ring operations\<close>

lemma ring_rep_ok: "ring_rep H R \<Longrightarrow> rings_ok R"
  by (simp add: ring_rep_def)

lemma ring_rep_path: "ring_rep H R \<Longrightarrow> path H (cycle h (ring R h))"
  by (simp add: ring_rep_def)

lemma ring_rep_next: "ring_rep H R \<Longrightarrow> nxt H (Head h) = hd (map Node (ring R h) @ [Head h])"
  using ring_rep_path [of H R h] by (cases "ring R h") (auto simp: cycle_def)

lemma ring_rep_prev: "ring_rep H R \<Longrightarrow> prv H (Head h) = last (Head h # map Node (ring R h))"
  using ring_rep_path [of H R h]
  by (cases "ring R h" rule: rev_cases)
    (auto simp: cycle_def path_append [of H "Head h # map Node _" "Node _" "[Head h]", simplified])

text \<open>
  Relinking around one ring leaves the other rings alone: their nodes and heads are not among the
  two neighbours and the new node.
\<close>

lemma ring_rep_link:
  assumes rep: "ring_rep H R" and free: "home R n = None"
    and split: "cycle h (ring R h) = xs @ a # b # ys" and new: "cycle h zs = xs @ a # Node n # b # ys"
    and R': "R' = R\<lparr>ring := (ring R)(h := zs), home := (home R)(n := Some h)\<rparr>" and ok: "rings_ok R'"
  shows "ring_rep (link_between a (Node n) b H) R'"
proof -
  let ?K = "link_between a (Node n) b H"
  have okR: "rings_ok R" using rep by (rule ring_rep_ok)
  have ab: "a \<in> set (cycle h (ring R h))" "b \<in> set (cycle h (ring R h))"
    by (simp_all only: split) auto
  have n: "Node n \<notin> set (cycle h (ring R h))"
    using rings_ok_unlinked [OF okR free] by auto
  have d: "distinct (butlast (cycle h (ring R h)))" "distinct (tl (cycle h (ring R h)))"
    using cycle_distinct [OF rings_ok_distinct [OF okR, of h], of h] by (blast, blast)
  have "path ?K (cycle h zs)"
    unfolding new
    by (rule path_link_between [OF ring_rep_path [OF rep, of h, unfolded split] d [unfolded split]
          n [unfolded split]])
  moreover have "path ?K (cycle g (ring R g)) = path H (cycle g (ring R g))" if "g \<noteq> h" for g
  proof -
    have "set (cycle g (ring R g)) \<inter> set (cycle h (ring R h)) = {}"
      using rings_ok_unique [OF okR] that by auto
    moreover have "Node n \<notin> set (cycle g (ring R g))"
      using rings_ok_unlinked [OF okR free] by auto
    ultimately show ?thesis
      using ab by (intro path_cong) (auto simp: link_between_def)
  qed
  moreover have "nxt ?K (Node m) = Node m \<and> prv ?K (Node m) = Node m"
    if "home R m = None" "m \<noteq> n" for m
    using that rep ab rings_ok_unlinked [OF okR that(1)] by (auto simp: link_between_def ring_rep_def)
  ultimately show ?thesis
    using rep ok by (auto simp: ring_rep_def R')
qed

lemma insert_before_link:
  "n \<noteq> l \<Longrightarrow> n \<noteq> prv H l \<Longrightarrow>
   rt_list_insert_before l n H = link_between (prv H l) n l H"
  by (cases H) (auto simp: rt_list_insert_before_def link_between_def Let_def fun_eq_iff)

lemma insert_after_link:
  "n \<noteq> l \<Longrightarrow> n \<noteq> nxt H l \<Longrightarrow>
   rt_list_insert_after l n H = link_between l n (nxt H l) H"
  by (cases H) (auto simp: rt_list_insert_after_def link_between_def Let_def fun_eq_iff)

lemma rep_insert_tail:
  assumes rep: "ring_rep H R" and ins: "ring_insert_tail h n R = Some R'"
  shows "ring_rep (rt_list_insert_before (Head h) (Node n) H) R'"
proof -
  let ?L = "Head h # map Node (ring R h)"
  have free: "home R n = None" using ins by (simp add: ring_insert_tail_Some)
  have n: "n \<notin> set (ring R h)" using rings_ok_unlinked [OF ring_rep_ok [OF rep] free] .
  have prv: "prv H (Head h) = last ?L" using rep by (rule ring_rep_prev)
  have "Node n \<noteq> last ?L" using n by (cases "ring R h" rule: rev_cases) auto
  then have eq: "rt_list_insert_before (Head h) (Node n) H = link_between (last ?L) (Node n) (Head h) H"
    using insert_before_link [of "Node n" "Head h" H] prv by simp
  have split: "?L = butlast ?L @ [last ?L]" by simp
  show ?thesis unfolding eq
  proof (rule ring_rep_link [OF rep free _ _ _ rings_ok_insert_tail [OF ring_rep_ok [OF rep] ins]])
    show "cycle h (ring R h) = butlast ?L @ last ?L # Head h # []"
      using split unfolding cycle_def by (metis append.assoc append_Cons append_Nil)
    show "cycle h (ring R h @ [n]) = butlast ?L @ last ?L # Node n # Head h # []"
      using split unfolding cycle_snoc by (metis append.assoc append_Cons append_Nil)
    show "R' = R\<lparr>ring := (ring R)(h := ring R h @ [n]), home := (home R)(n := Some h)\<rparr>"
      using ins by (simp add: ring_insert_tail_Some)
  qed
qed

lemma rep_insert_head:
  assumes rep: "ring_rep H R" and ins: "ring_insert_head h n R = Some R'"
  shows "ring_rep (rt_list_insert_after (Head h) (Node n) H) R'"
proof -
  let ?M = "map Node (ring R h) @ [Head h]"
  have free: "home R n = None" using ins by (simp add: ring_insert_head_Some)
  have n: "n \<notin> set (ring R h)" using rings_ok_unlinked [OF ring_rep_ok [OF rep] free] .
  have nxt: "nxt H (Head h) = hd ?M" using rep by (rule ring_rep_next)
  have "Node n \<noteq> hd ?M" using n by (cases "ring R h") auto
  then have eq: "rt_list_insert_after (Head h) (Node n) H = link_between (Head h) (Node n) (hd ?M) H"
    using insert_after_link [of "Node n" "Head h" H] nxt by simp
  show ?thesis unfolding eq
  proof (rule ring_rep_link [OF rep free _ _ _ rings_ok_insert_head [OF ring_rep_ok [OF rep] ins]])
    show "cycle h (ring R h) = [] @ Head h # hd ?M # tl ?M"
      by (cases "ring R h") (auto simp: cycle_def)
    show "cycle h (n # ring R h) = [] @ Head h # Node n # hd ?M # tl ?M"
      by (cases "ring R h") (auto simp: cycle_def)
    show "R' = R\<lparr>ring := (ring R)(h := n # ring R h), home := (home R)(n := Some h)\<rparr>"
      using ins by (simp add: ring_insert_head_Some)
  qed
qed

lemma ring_split:
  assumes "rings_ok R" and "home R m = Some h"
  obtains us vs where "ring R h = us @ m # vs" "m \<notin> set us" "m \<notin> set vs"
proof -
  have "m \<in> set (ring R h)" using assms by (simp add: rings_ok_home)
  then obtain us vs where s: "ring R h = us @ m # vs" by (meson split_list)
  have "m \<notin> set us" "m \<notin> set vs" using rings_ok_distinct [OF assms(1), of h] by (auto simp: s)
  with s show thesis by (rule that)
qed

lemma last_map_Node: "last (Head h # map Node us) = (if us = [] then Head h else Node (last us))"
  by (simp add: last_map)

text \<open>The neighbours of a linked node in the heap are its neighbours in the cycle.\<close>

lemma ring_rep_neighbours:
  assumes rep: "ring_rep H R" and s: "ring R h = us @ m # vs"
  shows "prv H (Node m) = last (Head h # map Node us)" "nxt H (Node m) = hd (map Node vs @ [Head h])"
proof -
  have p: "path H ((Head h # map Node us) @ Node m # (map Node vs @ [Head h]))"
    using ring_rep_path [OF rep, of h] by (simp add: s cycle_def)
  from path_append [THEN iffD1, OF p]
  have p1: "path H ((Head h # map Node us) @ [Node m])" and p2: "path H (Node m # (map Node vs @ [Head h]))"
    by (blast, blast)
  show "nxt H (Node m) = hd (map Node vs @ [Head h])" using p2 by (cases vs) auto
  have "path H (butlast (Head h # map Node us) @ last (Head h # map Node us) # [Node m])"
    using p1 by (metis append.assoc append_Cons append_Nil append_butlast_last_id list.distinct(1))
  from path_append [THEN iffD1, OF this] show "prv H (Node m) = last (Head h # map Node us)" by simp
qed

lemma rep_insert_before:
  assumes rep: "ring_rep H R" and ins: "ring_insert_before m n R = Some R'"
  shows "ring_rep (rt_list_insert_before (Node m) (Node n) H) R'"
proof -
  from ins obtain h where h: "home R m = Some h" and free: "home R n = None"
    and R': "R' = R\<lparr>ring := (ring R)(h := list_insert_before m n (ring R h)), home := (home R)(n := Some h)\<rparr>"
    by (auto simp: ring_insert_before_def split: option.splits if_splits)
  obtain us vs where s: "ring R h = us @ m # vs" "m \<notin> set us"
    using ring_split [OF ring_rep_ok [OF rep] h] .
  let ?L = "Head h # map Node us"
  have n: "n \<notin> set us" "n \<noteq> m"
    using rings_ok_unlinked [OF ring_rep_ok [OF rep] free, of h] by (auto simp: s)
  have "Node n \<noteq> last ?L" using n by (cases us rule: rev_cases) auto
  then have eq: "rt_list_insert_before (Node m) (Node n) H = link_between (last ?L) (Node n) (Node m) H"
    using insert_before_link [of "Node n" "Node m" H] ring_rep_neighbours(1) [OF rep s(1)] n by simp
  have L: "?L = butlast ?L @ [last ?L]" by simp
  show ?thesis unfolding eq
  proof (rule ring_rep_link [OF rep free _ _ _ rings_ok_insert_before [OF ring_rep_ok [OF rep] ins]])
    show "cycle h (ring R h) = butlast ?L @ last ?L # Node m # (map Node vs @ [Head h])"
      using L unfolding cycle_def s(1) by (simp del: last.simps butlast.simps)
    show "cycle h (us @ n # m # vs) = butlast ?L @ last ?L # Node n # Node m # (map Node vs @ [Head h])"
      using L unfolding cycle_def by (simp del: last.simps butlast.simps)
    show "R' = R\<lparr>ring := (ring R)(h := us @ n # m # vs), home := (home R)(n := Some h)\<rparr>"
      by (simp add: R' s list_insert_before_split)
  qed
qed

lemma rep_insert_after:
  assumes rep: "ring_rep H R" and ins: "ring_insert_after m n R = Some R'"
  shows "ring_rep (rt_list_insert_after (Node m) (Node n) H) R'"
proof -
  from ins obtain h where h: "home R m = Some h" and free: "home R n = None"
    and R': "R' = R\<lparr>ring := (ring R)(h := list_insert_after m n (ring R h)), home := (home R)(n := Some h)\<rparr>"
    by (auto simp: ring_insert_after_def split: option.splits if_splits)
  obtain us vs where s: "ring R h = us @ m # vs" "m \<notin> set us"
    using ring_split [OF ring_rep_ok [OF rep] h] .
  let ?M = "map Node vs @ [Head h]"
  have n: "n \<notin> set vs" "n \<noteq> m"
    using rings_ok_unlinked [OF ring_rep_ok [OF rep] free, of h] by (auto simp: s)
  have "Node n \<noteq> hd ?M" using n by (cases vs) auto
  then have eq: "rt_list_insert_after (Node m) (Node n) H = link_between (Node m) (Node n) (hd ?M) H"
    using insert_after_link [of "Node n" "Node m" H] ring_rep_neighbours(2) [OF rep s(1)] n by simp
  have M: "?M = hd ?M # tl ?M" by (cases vs) auto
  show ?thesis unfolding eq
  proof (rule ring_rep_link [OF rep free _ _ _ rings_ok_insert_after [OF ring_rep_ok [OF rep] ins]])
    show "cycle h (ring R h) = (Head h # map Node us) @ Node m # hd ?M # tl ?M"
      using M unfolding cycle_def s(1) by simp
    show "cycle h (us @ m # n # vs) = (Head h # map Node us) @ Node m # Node n # hd ?M # tl ?M"
      using M unfolding cycle_def by simp
    show "R' = R\<lparr>ring := (ring R)(h := us @ m # n # vs), home := (home R)(n := Some h)\<rparr>"
      by (simp add: R' s list_insert_after_split)
  qed
qed

lemma remove_self: "nxt H n = n \<Longrightarrow> prv H n = n \<Longrightarrow> rt_list_remove n H = H"
  by (cases H) (auto simp: rt_list_remove_def Let_def fun_eq_iff)

lemma remove_unlink:
  "nxt H n \<noteq> n \<Longrightarrow> prv H n \<noteq> n \<Longrightarrow> rt_list_remove n H =
     H\<lparr>nxt := (nxt H)(prv H n := nxt H n, n := n), prv := (prv H)(nxt H n := prv H n, n := n)\<rparr>"
  by (cases H) (auto simp: rt_list_remove_def Let_def fun_eq_iff)

lemma rep_remove:
  assumes rep: "ring_rep H R"
  shows "ring_rep (rt_list_remove (Node n) H) (ring_remove n R)"
proof (cases "home R n")
  case None
  then show ?thesis
    using rep remove_self [of H "Node n"] by (simp add: ring_remove_unlinked ring_rep_def)
next
  case (Some h)
  have okR: "rings_ok R" using rep by (rule ring_rep_ok)
  obtain us vs where s: "ring R h = us @ n # vs" and n: "n \<notin> set us" "n \<notin> set vs"
    using ring_split [OF okR Some] .
  let ?L = "Head h # map Node us" and ?M = "map Node vs @ [Head h]"
  define K where "K = H\<lparr>nxt := (nxt H)(last ?L := hd ?M, Node n := Node n), prv := (prv H)(hd ?M := last ?L, Node n := Node n)\<rparr>"
  have nb: "Node n \<noteq> last ?L" "Node n \<noteq> hd ?M"
    using n by (cases us rule: rev_cases; simp) (use n in \<open>cases vs; auto\<close>)
  have eq: "rt_list_remove (Node n) H = K"
    using remove_unlink [of H "Node n"] ring_rep_neighbours [OF rep s] nb by (simp add: K_def)
  have L: "?L = butlast ?L @ [last ?L]" by simp
  have M: "?M = hd ?M # tl ?M" by (cases vs) auto
  have cyc: "cycle h (ring R h) = butlast ?L @ last ?L # Node n # hd ?M # tl ?M"
    unfolding cycle_def s using L M by (simp del: last.simps butlast.simps)
  have rem: "ring (ring_remove n R) h = us @ vs"
    using n by (simp add: ring_ring_remove [OF okR] s remove1_append)
  have cyc': "cycle h (us @ vs) = butlast ?L @ last ?L # hd ?M # tl ?M"
    unfolding cycle_def using L M by (simp del: last.simps butlast.simps)
  have d: "distinct (butlast (cycle h (ring R h)))" "distinct (tl (cycle h (ring R h)))"
    using cycle_distinct [OF rings_ok_distinct [OF okR, of h], of h] by (blast, blast)
  have own: "path K (cycle h (us @ vs))"
    unfolding cyc' unfolding K_def by (rule path_unlink [OF ring_rep_path [OF rep, of h, unfolded cyc] d [unfolded cyc]])
  have ab: "last ?L \<in> set (cycle h (ring R h))" "hd ?M \<in> set (cycle h (ring R h))"
    by (simp_all add: s last_map hd_append hd_map)
  have other: "path K (cycle g (ring R g)) = path H (cycle g (ring R g))" if "g \<noteq> h" for g
  proof -
    have "set (cycle g (ring R g)) \<inter> set (cycle h (ring R h)) = {}"
      using rings_ok_unique [OF okR] that by auto
    moreover have "Node n \<in> set (cycle h (ring R h))" using s by auto
    ultimately show ?thesis using ab by (intro path_cong) (auto simp: K_def)
  qed
  have out: "nxt K (Node m) = Node m \<and> prv K (Node m) = Node m" if "home R m = None" for m
    using that rep ab rings_ok_unlinked [OF okR that, of h] by (auto simp: ring_rep_def K_def)
  have rem': "ring (ring_remove n R) g = ring R g" if "g \<noteq> h" for g
    using Some that by (simp add: ring_remove_def)
  have "path K (cycle g (ring (ring_remove n R) g))" for g
    using own other [of g] rem rem' [of g] ring_rep_path [OF rep, of g] by (cases "g = h") simp_all
  moreover have "nxt K (Node n) = Node n \<and> prv K (Node n) = Node n" by (simp add: K_def)
  ultimately show ?thesis
    unfolding eq ring_rep_def using rings_ok_remove [OF okR] out by simp
qed

lemma rep_init_node:
  "ring_rep H R \<Longrightarrow> ring_init_node n R = Some R' \<Longrightarrow> ring_rep (rt_list_init (Node n) H) R'"
  by (cases H) (auto simp: ring_init_node_def rt_list_init_def ring_rep_def fun_upd_idem split: if_splits)

lemma rep_isempty: "ring_rep H R \<Longrightarrow> rt_list_isempty (Head h) H \<longleftrightarrow> ring R h = []"
  using ring_rep_next [of H R h] by (cases "ring R h") (simp_all add: rt_list_isempty_def)

lemma rt_list_len_path:
  "path H (p # map Node ns @ [Head h]) \<Longrightarrow>
   rt_list_len_loop (Head h) H p k = Some (k + of_nat (length ns))"
proof (induction ns arbitrary: p k)
  case Nil
  then show ?case by (subst rt_list_len_loop.simps) simp
next
  case (Cons m ns)
  then show ?case by (subst rt_list_len_loop.simps) (simp add: algebra_simps)
qed

lemma rep_len: "ring_rep H R \<Longrightarrow> rt_list_len (Head h) H = Some (of_nat (length (ring R h)))"
  using rt_list_len_path [of H "Head h" "ring R h" h 0] ring_rep_path [of H R h]
  by (simp add: rt_list_len_def cycle_def)

subsection \<open>The list interface\<close>

text \<open>
  What the kernel asks of its lists. A state of the provider contains every list at once; \<open>inv\<close>
  is the provider's invariant, \<open>items\<close> the content of a list, \<open>linked\<close> whether a node is in some
  list.
\<close>

locale linked_rings =
  fixes inv :: "'s \<Rightarrow> bool"
    and items :: "'h \<Rightarrow> 's \<Rightarrow> 'n list"
    and linked :: "'n \<Rightarrow> 's \<Rightarrow> bool"
    and push_back :: "'h \<Rightarrow> 'n \<Rightarrow> 's \<Rightarrow> 's"
    and unlink :: "'n \<Rightarrow> 's \<Rightarrow> 's"
    and is_empty :: "'h \<Rightarrow> 's \<Rightarrow> bool"
  assumes inv_push: "inv s \<Longrightarrow> \<not> linked n s \<Longrightarrow> inv (push_back h n s)"
    and items_push: "inv s \<Longrightarrow> \<not> linked n s \<Longrightarrow>
          items g (push_back h n s) = (if g = h then items h s @ [n] else items g s)"
    and inv_unlink: "inv s \<Longrightarrow> inv (unlink n s)"
    and items_unlink: "inv s \<Longrightarrow> items h (unlink n s) = remove1 n (items h s)"
    and linked_iff: "inv s \<Longrightarrow> linked n s \<longleftrightarrow> (\<exists>h. n \<in> set (items h s))"
    and items_disjoint: "inv s \<Longrightarrow> n \<in> set (items h s) \<Longrightarrow> n \<in> set (items g s) \<Longrightarrow> g = h"
    and empty_iff: "inv s \<Longrightarrow> is_empty h s \<longleftrightarrow> items h s = []"
begin

lemma linked_push:
  "inv s \<Longrightarrow> \<not> linked n s \<Longrightarrow> linked m (push_back h n s) \<longleftrightarrow> m = n \<or> linked m s"
  by (auto simp: linked_iff inv_push items_push split: if_splits)

text \<open>Nodes pushed one after the other are found in the order of their arrival.\<close>

lemma push_all:
  "inv s \<Longrightarrow> distinct ns \<Longrightarrow> (\<And>n. n \<in> set ns \<Longrightarrow> \<not> linked n s) \<Longrightarrow>
   inv (fold (push_back h) ns s) \<and>
   items h (fold (push_back h) ns s) = items h s @ ns \<and>
   (\<forall>g. g \<noteq> h \<longrightarrow> items g (fold (push_back h) ns s) = items g s)"
proof (induction ns arbitrary: s)
  case (Cons n ns)
  have "\<not> linked n s" using Cons.prems by simp
  moreover have "\<not> linked m (push_back h n s)" if "m \<in> set ns" for m
    using that Cons.prems by (auto simp: linked_push)
  ultimately show ?case
    using Cons.IH [of "push_back h n s"] Cons.prems by (simp add: inv_push items_push)
qed simp

lemma pop_first:
  "inv s \<Longrightarrow> items h s = n # ns \<Longrightarrow>
   items h (unlink n s) = ns \<and> (\<forall>g. g \<noteq> h \<longrightarrow> items g (unlink n s) = items g s)"
  using items_disjoint [of s n h] by (simp add: items_unlink) (metis list.set_intros(1) remove1_idem)

lemma pop_all:
  "inv s \<Longrightarrow> items h s = ns \<Longrightarrow> inv (fold unlink ns s) \<and> is_empty h (fold unlink ns s)"
proof (induction ns arbitrary: s)
  case (Cons n ns)
  then show ?case using pop_first [of s h n ns] by (simp add: inv_unlink)
qed (simp add: empty_iff)

end

text \<open>The abstract rings provide the interface; so does the pointer heap, paired with the rings it represents.\<close>

definition rings_push :: "'h \<Rightarrow> 'n \<Rightarrow> ('h, 'n) rings \<Rightarrow> ('h, 'n) rings" where
  "rings_push h n R = (case ring_insert_tail h n R of Some R' \<Rightarrow> R' | None \<Rightarrow> R)"

lemma ring_rings_push:
  "home R n = None \<Longrightarrow> ring (rings_push h n R) g = (if g = h then ring R h @ [n] else ring R g)"
  by (simp add: rings_push_def ring_insert_tail_def)

lemma linked_home:
  "rings_ok R \<Longrightarrow> (\<exists>h. home R n = Some h) \<longleftrightarrow> (\<exists>h. n \<in> set (ring R h))"
  "ring_rep H R \<Longrightarrow> (\<exists>h. home R n = Some h) \<longleftrightarrow> (\<exists>h. n \<in> set (ring R h))"
  by (auto simp: rings_ok_home ring_rep_ok)

interpretation rings: linked_rings rings_ok "\<lambda>h R. ring R h" "\<lambda>n R. home R n \<noteq> None" rings_push
    ring_remove "\<lambda>h R. ring R h = []"
proof unfold_locales
  fix R :: "('h, 'n) rings" and n h
  assume "rings_ok R" "\<not> home R n \<noteq> None"
  then show "rings_ok (rings_push h n R)"
    using rings_ok_insert_tail [of R h n] by (simp add: rings_push_def split: option.splits)
qed (auto simp: ring_rings_push ring_ring_remove linked_home(1) [symmetric] dest: rings_ok_unique)

interpretation heap: linked_rings "\<lambda>(H, R). ring_rep H R" "\<lambda>h (H, R). ring R h" "\<lambda>n (H, R). home R n \<noteq> None"
    "\<lambda>h n (H, R). (rt_list_insert_before (Head h) (Node n) H, rings_push h n R)"
    "\<lambda>n (H, R). (rt_list_remove (Node n) H, ring_remove n R)" "\<lambda>h (H, R). rt_list_isempty (Head h) H"
proof unfold_locales
  fix s :: "('h, 'n) list_ref list_heap \<times> ('h, 'n) rings" and n h
  assume "case s of (H, R) \<Rightarrow> ring_rep H R" "\<not> (case s of (H, R) \<Rightarrow> home R n \<noteq> None)"
  then show "case case s of (H, R) \<Rightarrow> (rt_list_insert_before (Head h) (Node n) H, rings_push h n R) of
      (H, R) \<Rightarrow> ring_rep H R"
    using rep_insert_tail [of "fst s" "snd s" h n]
    by (cases s) (simp add: rings_push_def ring_insert_tail_def)
qed (auto simp: ring_rings_push ring_ring_remove ring_rep_ok linked_home(2) [symmetric] rep_remove rep_isempty
    dest: ring_rep_ok rings_ok_unique, metis linked_home(2))

subsection \<open>The pointer operations implement the rings\<close>

text \<open>
  C19. The pointer code of the lists implements sequences: in a heap whose \<^verbatim>\<open>next\<close> and \<^verbatim>\<open>prev\<close> pointers represent a family of
  disjoint circular lists, every insertion of an unlinked node (at the end, at the front, before or after a given
  node), every removal, the emptiness test and the length computation have exactly the effect of the corresponding
  operation on sequences, and the heap represents the new lists again.
\<close>

theorem rt_list_refines_rings:
  assumes "ring_rep H R"
  shows "(\<forall>h n R'. ring_insert_tail h n R = Some R' \<longrightarrow> ring_rep (rt_list_insert_before (Head h) (Node n) H) R') \<and>
    (\<forall>h n R'. ring_insert_head h n R = Some R' \<longrightarrow> ring_rep (rt_list_insert_after (Head h) (Node n) H) R') \<and>
    (\<forall>m n R'. ring_insert_before m n R = Some R' \<longrightarrow> ring_rep (rt_list_insert_before (Node m) (Node n) H) R') \<and>
    (\<forall>m n R'. ring_insert_after m n R = Some R' \<longrightarrow> ring_rep (rt_list_insert_after (Node m) (Node n) H) R') \<and>
    (\<forall>n. ring_rep (rt_list_remove (Node n) H) (ring_remove n R)) \<and>
    (\<forall>h. rt_list_isempty (Head h) H \<longleftrightarrow> ring R h = []) \<and>
    (\<forall>h. rt_list_len (Head h) H = Some (of_nat (length (ring R h))))"
  using rep_insert_tail [OF assms] rep_insert_head [OF assms] rep_insert_before [OF assms] rep_insert_after [OF assms]
    rep_remove [OF assms] rep_isempty [OF assms] rep_len [OF assms] by blast

theorem rt_list_refines_rings_witness:
  "ring_rep (rt_list_insert_before (Head (0::nat)) (Node (1::nat)) \<lparr>nxt = (\<lambda>p. p), prv = (\<lambda>p. p)\<rparr>)
     \<lparr>ring = (\<lambda>_. [])(0 := [1]), home = (\<lambda>_. None)(1 := Some 0)\<rparr> \<and>
   rt_list_len (Head (0::nat)) (\<lparr>nxt = (\<lambda>p. p), prv = (\<lambda>p. p)\<rparr> :: (nat, nat) list_ref list_heap) = Some 0"
proof -
  have rep: "ring_rep \<lparr>nxt = (\<lambda>p. p), prv = (\<lambda>p. p)\<rparr> (empty_rings :: (nat, nat) rings)"
    by (simp add: ring_rep_def empty_rings_def cycle_def rings_ok_def)
  have ins: "ring_insert_tail 0 1 (empty_rings :: (nat, nat) rings) =
      Some \<lparr>ring = (\<lambda>_. [])(0 := [1]), home = (\<lambda>_. None)(1 := Some 0)\<rparr>"
    by (simp add: ring_insert_tail_def empty_rings_def)
  show ?thesis using rt_list_refines_rings [OF rep] ins by (simp add: empty_rings_def)
qed

end
