(* ===== verification/RT_KService.thy ===== *)
theory RT_KService
  imports RT_Prelude
begin

section \<open>Kernel services: \<^verbatim>\<open>src/kservice.c\<close>\<close>

text \<open>
  The services the kernel objects and the scheduler rest on: the string functions used for object
  names and the two implementations of \<^verbatim>\<open>__rt_ffs\<close>.

  A \<^verbatim>\<open>char *\<close> argument is the list of the bytes that may be read from it on; a read or a write
  past the end of the list has no result (\<open>None\<close>).
\<close>

subsection \<open>Strings\<close>

fun strncpy_pad :: "u8 list \<Rightarrow> nat \<Rightarrow> u8 list option" where
  "strncpy_pad d 0 = Some d"
| "strncpy_pad (x # d) (Suc n) = map_option ((#) 0) (strncpy_pad d n)"
| "strncpy_pad [] (Suc n) = None"

fun rt_strncpy :: "u8 list \<Rightarrow> u8 list \<Rightarrow> nat \<Rightarrow> u8 list option" where
  "rt_strncpy d s 0 = Some d"
| "rt_strncpy (x # d) (c # s) (Suc n) =
     (if c = 0 then map_option ((#) 0) (strncpy_pad d n)
      else map_option ((#) c) (rt_strncpy d s n))"
| "rt_strncpy d s (Suc n) = None"

text \<open>\<open>rt_strncmp\<close> keeps the difference of the two bytes in a \<^verbatim>\<open>signed char\<close>.\<close>

fun rt_strncmp_loop :: "8 word \<Rightarrow> u8 list \<Rightarrow> u8 list \<Rightarrow> nat \<Rightarrow> 8 word option" where
  "rt_strncmp_loop res cs ct 0 = Some res"
| "rt_strncmp_loop res (c # cs) (d # ct) (Suc n) =
     (if c - d \<noteq> 0 \<or> c = 0 then Some (c - d) else rt_strncmp_loop (c - d) cs ct n)"
| "rt_strncmp_loop res cs ct (Suc n) = None"

definition rt_strncmp :: "u8 list \<Rightarrow> u8 list \<Rightarrow> nat \<Rightarrow> int option" where
  "rt_strncmp cs ct n = map_option sint (rt_strncmp_loop 0 cs ct n)"

fun rt_strlen :: "u8 list \<Rightarrow> nat option" where
  "rt_strlen [] = None"
| "rt_strlen (c # s) = (if c \<noteq> 0 then map_option Suc (rt_strlen s) else Some 0)"

fun rt_strnlen_loop :: "u8 list \<Rightarrow> nat \<Rightarrow> nat \<Rightarrow> nat option" where
  "rt_strnlen_loop [] k maxlen = None"
| "rt_strnlen_loop (c # s) k maxlen =
     (if c \<noteq> 0 \<and> k < maxlen then rt_strnlen_loop s (Suc k) maxlen else Some k)"

definition rt_strnlen :: "u8 list \<Rightarrow> nat \<Rightarrow> nat option" where
  "rt_strnlen s maxlen = rt_strnlen_loop s 0 maxlen"

fun rt_strcmp :: "u8 list \<Rightarrow> u8 list \<Rightarrow> int option" where
  "rt_strcmp (c # cs) (d # ct) =
     (if c \<noteq> 0 \<and> c = d then rt_strcmp cs ct else Some (uint c - uint d))"
| "rt_strcmp cs ct = None"

text \<open>The string a byte sequence holds, cut at \<open>n\<close> bytes and at the first NUL.\<close>

definition cstr :: "nat \<Rightarrow> u8 list \<Rightarrow> u8 list" where
  "cstr n s = takeWhile (\<lambda>c. c \<noteq> 0) (take n s)"

definition readable :: "nat \<Rightarrow> u8 list \<Rightarrow> bool" where
  "readable n s \<longleftrightarrow> n \<le> length s \<or> 0 \<in> set s"

subsection \<open>Find first set\<close>

definition lowest_bit_bitmap :: "nat list" where
  "lowest_bit_bitmap =
    [0, 0, 1, 0, 2, 0, 1, 0, 3, 0, 1, 0, 2, 0, 1, 0,
     4, 0, 1, 0, 2, 0, 1, 0, 3, 0, 1, 0, 2, 0, 1, 0,
     5, 0, 1, 0, 2, 0, 1, 0, 3, 0, 1, 0, 2, 0, 1, 0,
     4, 0, 1, 0, 2, 0, 1, 0, 3, 0, 1, 0, 2, 0, 1, 0,
     6, 0, 1, 0, 2, 0, 1, 0, 3, 0, 1, 0, 2, 0, 1, 0,
     4, 0, 1, 0, 2, 0, 1, 0, 3, 0, 1, 0, 2, 0, 1, 0,
     5, 0, 1, 0, 2, 0, 1, 0, 3, 0, 1, 0, 2, 0, 1, 0,
     4, 0, 1, 0, 2, 0, 1, 0, 3, 0, 1, 0, 2, 0, 1, 0,
     7, 0, 1, 0, 2, 0, 1, 0, 3, 0, 1, 0, 2, 0, 1, 0,
     4, 0, 1, 0, 2, 0, 1, 0, 3, 0, 1, 0, 2, 0, 1, 0,
     5, 0, 1, 0, 2, 0, 1, 0, 3, 0, 1, 0, 2, 0, 1, 0,
     4, 0, 1, 0, 2, 0, 1, 0, 3, 0, 1, 0, 2, 0, 1, 0,
     6, 0, 1, 0, 2, 0, 1, 0, 3, 0, 1, 0, 2, 0, 1, 0,
     4, 0, 1, 0, 2, 0, 1, 0, 3, 0, 1, 0, 2, 0, 1, 0,
     5, 0, 1, 0, 2, 0, 1, 0, 3, 0, 1, 0, 2, 0, 1, 0,
     4, 0, 1, 0, 2, 0, 1, 0, 3, 0, 1, 0, 2, 0, 1, 0]"

definition rt_ffs :: "u32 \<Rightarrow> nat" where
  "rt_ffs v =
     (if v = 0 then 0
      else if v AND 0xff \<noteq> 0 then lowest_bit_bitmap ! unat (v AND 0xff) + 1
      else if v AND 0xff00 \<noteq> 0
        then lowest_bit_bitmap ! unat (drop_bit 8 (v AND 0xff00)) + 9
      else if v AND 0xff0000 \<noteq> 0
        then lowest_bit_bitmap ! unat (drop_bit 16 (v AND 0xff0000)) + 17
      else lowest_bit_bitmap ! unat (drop_bit 24 (v AND 0xff000000)) + 25)"

definition lowest_bit_bitmap_tiny :: "nat list" where
  "lowest_bit_bitmap_tiny =
    [0,  1,  2, 27,  3, 24, 28, 32,
     4, 17, 25, 31, 29, 12, 32, 14,
     5,  8, 18, 32, 26, 23, 32, 16,
     30, 11, 13,  7, 32, 22, 15, 10,
     6, 21,  9, 20, 19]"

definition rt_ffs_tiny :: "u32 \<Rightarrow> nat" where
  "rt_ffs_tiny v =
     lowest_bit_bitmap_tiny ! (unat ((v AND (v - 1)) XOR v) mod 37)"

subsection \<open>String lemmas\<close>

lemma strncpy_pad_eq: "strncpy_pad d n = (if n \<le> length d then Some (replicate n 0 @ drop n d) else None)"
  by (induction d n rule: strncpy_pad.induct) auto

lemma readable_Cons [simp]: "readable (Suc n) (c # s) \<longleftrightarrow> c = 0 \<or> readable n s"
  by (auto simp: readable_def)

lemma readable_simps [simp]: "readable 0 s" "\<not> readable (Suc n) []"
  by (simp_all add: readable_def)

lemma cstr_simps [simp]:
  "cstr 0 s = []" "cstr n [] = []"
  "cstr (Suc n) (c # s) = (if c = 0 then [] else c # cstr n s)"
  by (simp_all add: cstr_def)

lemma length_cstr: "length (cstr n s) \<le> n"
  by (simp add: cstr_def length_takeWhile_le [THEN order_trans])

text \<open>
  The buffer after \<open>rt_strncpy\<close>: the string, cut at \<open>n\<close> bytes, and NUL bytes up to the \<open>n\<close>-th.
\<close>

lemma rt_strncpy_eq:
  "n \<le> length d \<Longrightarrow> readable n s \<Longrightarrow>
   rt_strncpy d s n = Some (cstr n s @ replicate (n - length (cstr n s)) 0 @ drop n d)"
  by (induction d s n rule: rt_strncpy.induct) (auto simp: strncpy_pad_eq Suc_diff_le length_cstr)

lemma cstr_pad: "n = length xs + k \<Longrightarrow> 0 \<notin> set xs \<Longrightarrow> cstr n (xs @ replicate k 0) = xs"
  by (induction xs arbitrary: n) (cases k; auto)+

lemma zero_notin_cstr: "0 \<notin> set (cstr n s)"
  by (auto simp: cstr_def dest: set_takeWhileD)

lemma cstr_strncpy:
  assumes "n \<le> length d" "readable n s" "rt_strncpy d s n = Some d'"
  shows "cstr n d' = cstr n s \<and> length d' = length d"
proof -
  have d': "d' = (cstr n s @ replicate (n - length (cstr n s)) 0) @ drop n d"
    using assms by (simp add: rt_strncpy_eq)
  have "cstr n d' = cstr n (cstr n s @ replicate (n - length (cstr n s)) 0)"
    using length_cstr [of n s] by (simp add: d' cstr_def)
  also have "\<dots> = cstr n s"
    using length_cstr [of n s] zero_notin_cstr by (intro cstr_pad) auto
  finally show ?thesis using assms(1) length_cstr [of n s] by (simp add: d')
qed

lemma rt_strncmp_loop_zero:
  "readable n s \<Longrightarrow> readable n t \<Longrightarrow>
   \<exists>r. rt_strncmp_loop 0 s t n = Some r \<and> (r = 0 \<longleftrightarrow> cstr n s = cstr n t)"
  by (induction "0::8 word" s t n rule: rt_strncmp_loop.induct) auto

text \<open>Two strings compare equal exactly when their first \<open>n\<close> bytes hold the same string.\<close>

lemma rt_strncmp_zero:
  assumes "readable n s" "readable n t"
  shows "\<exists>r. rt_strncmp s t n = Some r \<and> (r = 0 \<longleftrightarrow> cstr n s = cstr n t)"
  using rt_strncmp_loop_zero [OF assms] by (auto simp: rt_strncmp_def signed_eq_0_iff)

subsection \<open>Both versions of \<^verbatim>\<open>__rt_ffs\<close> find the lowest set bit\<close>

text \<open>\<open>lowest v p\<close>: bit \<open>p\<close> is the lowest bit set in \<open>v\<close>.\<close>

definition lowest :: "'a::len word \<Rightarrow> nat \<Rightarrow> bool" where
  "lowest v p \<longleftrightarrow> bit v p \<and> (\<forall>q<p. \<not> bit v q)"

lemma lowest_exists: "v \<noteq> 0 \<Longrightarrow> \<exists>p. lowest v p"
  unfolding lowest_def by (metis bit_eqI exists_least_iff bit_0_eq bot_apply bot_bool_def)

lemma lowest_less: "lowest (v :: 'a::len word) p \<Longrightarrow> p < LENGTH('a)"
  by (auto simp: lowest_def dest: bit_imp_le_length)

lemma lowest_unique: "lowest v p \<Longrightarrow> lowest v q \<Longrightarrow> p = q"
  unfolding lowest_def by (metis linorder_neqE_nat)

lemma lowest_bit_bitmap_ok:
  "i < 256 \<Longrightarrow> i \<noteq> 0 \<Longrightarrow> lowest_bit_bitmap ! i < 8 \<and> odd (i div 2 ^ (lowest_bit_bitmap ! i)) \<and>
     2 ^ (lowest_bit_bitmap ! i) dvd i"
proof -
  have "\<forall>i\<in>set [1..<256]. lowest_bit_bitmap ! i < 8 \<and> odd (i div 2 ^ (lowest_bit_bitmap ! i)) \<and>
     2 ^ (lowest_bit_bitmap ! i) dvd i"
    by code_simp
  then show "i < 256 \<Longrightarrow> i \<noteq> 0 \<Longrightarrow> ?thesis" by simp
qed

lemma even_div_power: "2 ^ p dvd (n::nat) \<Longrightarrow> q < p \<Longrightarrow> even (n div 2 ^ q)"
  by (auto elim!: dvdE dest!: less_imp_Suc_add simp: power_add)

lemma lowest_byte:
  assumes nz: "v AND push_bit k (mask 8) \<noteq> (0 :: u32)" and below: "\<forall>q<k. \<not> bit v q"
  shows "lowest v (k + lowest_bit_bitmap ! unat (drop_bit k (v AND push_bit k (mask 8))))"
proof -
  let ?b = "drop_bit k (v AND push_bit k (mask 8))"
  let ?p = "lowest_bit_bitmap ! unat ?b"
  have bit_b: "bit ?b q \<longleftrightarrow> q < 8 \<and> bit v (k + q)" for q
    using bit_imp_le_length [of v "k + q"] by (auto simp: bit_simps)
  have "take_bit 8 ?b = ?b" by (rule bit_word_eqI) (auto simp: bit_simps)
  then have "unat ?b = take_bit 8 (unat ?b)" by (metis unsigned_take_bit_eq)
  then have lt: "unat ?b < 256" using take_bit_nat_less_exp [of 8 "unat ?b"] by simp
  have nz': "unat ?b \<noteq> 0"
  proof
    assume "unat ?b = 0"
    then have "?b = 0" by (simp add: unat_eq_0)
    then have "\<not> bit v (k + q)" if "q < 8" for q using that bit_b [of q] by (metis bit_0_eq bot_apply bot_bool_def)
    then have "v AND push_bit k (mask 8) = 0"
      by (intro bit_word_eqI) (auto simp: bit_simps le_iff_add)
    with nz show False by simp
  qed
  have bit_nat: "bit ?b q \<longleftrightarrow> odd (unat ?b div 2 ^ q)" for q
    by (metis bit_iff_odd bit_unsigned_iff possible_bit_nat)
  have p: "?p < 8" "odd (unat ?b div 2 ^ ?p)" "2 ^ ?p dvd unat ?b"
    using lowest_bit_bitmap_ok [OF lt nz'] by auto
  have "\<not> bit ?b q" if "q < ?p" for q
    unfolding bit_nat using even_div_power [OF p(3) that] by simp
  then have "\<not> bit v (k + q)" if "q < ?p" for q using that bit_b [of q] p(1) by auto
  moreover have "bit v (k + ?p)" using bit_b [of ?p] p(2) bit_nat by simp
  moreover have "\<not> bit v q" if "q < k + ?p" "\<And>r. r < ?p \<Longrightarrow> \<not> bit v (k + r)" for q
    using that below by (metis add_less_cancel_left le_iff_add not_le)
  ultimately show ?thesis unfolding lowest_def by blast
qed

lemma and_byte_zero:
  assumes z: "v AND push_bit k (mask 8) = (0 :: u32)" and k: "k + 8 \<le> 32" and below: "\<forall>q<k. \<not> bit v q"
  shows "\<forall>q<k + 8. \<not> bit v q"
proof (intro allI impI)
  fix q assume q: "q < k + 8"
  show "\<not> bit v q"
  proof (cases "q < k")
    case False
    have "\<not> bit (v AND push_bit k (mask 8)) q" by (simp add: z)
    moreover have "q - k < 8" using False q by arith
    ultimately show ?thesis using False q k by (auto simp: bit_simps)
  qed (use below in simp)
qed

lemma byte_masks:
  "0xff = (push_bit 0 (mask 8) :: u32)" "0xff00 = (push_bit 8 (mask 8) :: u32)"
  "0xff0000 = (push_bit 16 (mask 8) :: u32)" "0xff000000 = (push_bit 24 (mask 8) :: u32)"
  by (simp_all add: mask_eq_exp_minus_1)

lemma rt_ffs_lowest: "v \<noteq> 0 \<Longrightarrow> \<exists>p. rt_ffs v = p + 1 \<and> lowest v p"
proof -
  assume v: "v \<noteq> 0"
  obtain p where p: "lowest v p" using lowest_exists [OF v] ..
  have w: "\<exists>p. n = p + 1 \<and> lowest v p" if "lowest v m" "n = m + 1" for m n using that by blast
  let ?B = "\<lambda>k. v AND push_bit k (mask 8)"
  have z0: "\<forall>q<0. \<not> bit v q" by simp
  show ?thesis
  proof (cases "?B 0 = 0")
    case False
    show ?thesis
      by (rule w [OF lowest_byte [OF False z0]]) (use v False in \<open>simp add: rt_ffs_def byte_masks\<close>)
  next
    case b0: True
    note z8 = and_byte_zero [OF b0 _ z0, simplified]
    show ?thesis
    proof (cases "?B 8 = 0")
      case False
      show ?thesis
        by (rule w [OF lowest_byte [OF False z8]]) (use v b0 False in \<open>simp add: rt_ffs_def byte_masks\<close>)
    next
      case b8: True
      note z16 = and_byte_zero [OF b8 _ z8, simplified]
      show ?thesis
      proof (cases "?B 16 = 0")
        case False
        show ?thesis
          by (rule w [OF lowest_byte [OF False z16]]) (use v b0 b8 False in \<open>simp add: rt_ffs_def byte_masks\<close>)
      next
        case b16: True
        note z24 = and_byte_zero [OF b16 _ z16, simplified]
        have "?B 24 \<noteq> 0"
          using p z24 and_byte_zero [of v 24] lowest_less [OF p] by (auto simp: lowest_def)
        from lowest_byte [OF this z24] show ?thesis
          by (rule w) (use v b0 b8 b16 in \<open>simp add: rt_ffs_def byte_masks\<close>)
      qed
    qed
  qed
qed

text \<open>The tiny version isolates the lowest set bit and reads its position from a table of 37 entries.\<close>

lemma isolate_lowest:
  assumes "lowest (v :: 'a::len word) p"
  shows "(v AND (v - 1)) XOR v = 2 ^ p"
proof -
  have p: "p < LENGTH('a)" using assms by (rule lowest_less)
  define w where "w = drop_bit p v"
  have v: "v = push_bit p w"
  proof (rule bit_word_eqI)
    show "bit v n \<longleftrightarrow> bit (push_bit p w) n" if "n < LENGTH('a)" for n
      using assms that by (cases "n < p") (auto simp: w_def lowest_def bit_simps)
  qed
  have "bit w 0" using assms by (simp add: w_def lowest_def bit_simps)
  then have w1: "w = (w - 1) + 1" "even (w - 1)" by (simp_all add: bit_0)
  have pw: "v - 1 = push_bit p (w - 1) + mask p"
    by (simp add: v push_bit_eq_mult mask_eq_exp_minus_1 algebra_simps)
  have disj: "push_bit p (w - 1) AND mask p = 0" by (rule bit_word_eqI) (auto simp: bit_simps)
  have or: "v - 1 = push_bit p (w - 1) OR mask p"
    using pw disjunctive_add_eq_or [OF disj] by simp
  have bw: "bit (w - 1) i \<longleftrightarrow> i \<noteq> 0 \<and> bit w i" for i
    using odd_bit_iff_bit_pred [of w i] \<open>bit w 0\<close> w1(2) by (cases "i = 0") (auto simp: bit_0)
  show ?thesis
  proof (rule bit_word_eqI)
    fix n assume n: "n < LENGTH('a)"
    have "bit v n \<longleftrightarrow> p \<le> n \<and> bit w (n - p)" using n by (simp add: v bit_simps)
    then show "bit ((v AND (v - 1)) XOR v) n = bit (2 ^ p :: 'a word) n"
      unfolding or using n \<open>bit w 0\<close> by (auto simp: bit_simps bw)
  qed
qed

lemma rt_ffs_tiny_lowest: "v \<noteq> 0 \<Longrightarrow> \<exists>p. rt_ffs_tiny v = p + 1 \<and> lowest v p"
proof -
  assume "v \<noteq> 0"
  then obtain p where p: "lowest v p" using lowest_exists by blast
  have "p < 32" using lowest_less [OF p] by simp
  then have "unat (2 ^ p :: u32) = 2 ^ p" 
    using unat_of_nat [of "2 ^ p", where 'a=32] power_strict_increasing [of p 32 "2::nat"] by simp
  then have "rt_ffs_tiny v = lowest_bit_bitmap_tiny ! (2 ^ p mod 37)"
    by (simp add: rt_ffs_tiny_def isolate_lowest [OF p])
  moreover have "(2::nat) ^ p mod 37 = nat (2 ^ p mod 37)"
    by (simp add: nat_mod_distrib nat_power_eq)
  moreover have "\<forall>p\<in>set [0..<32]. lowest_bit_bitmap_tiny ! nat (2 ^ p mod 37) = p + 1"
    by code_simp
  ultimately show ?thesis using p \<open>p < 32\<close> by auto
qed

text \<open>A reference definition of the bit search: try the bits one after the other.\<close>

definition ffs_spec :: "u32 \<Rightarrow> nat" where
  "ffs_spec v = (case find (bit v) [0..<32] of None \<Rightarrow> 0 | Some p \<Rightarrow> p + 1)"

lemma ffs_spec_lowest:
  assumes "lowest v p"
  shows "ffs_spec v = p + 1"
proof -
  have "p < 32" using lowest_less [OF assms] by simp
  then have "find (bit v) [0..<32] = Some p"
    using assms unfolding find_Some_iff lowest_def by (intro exI [of _ p]) simp
  then show ?thesis by (simp add: ffs_spec_def)
qed

lemma ffs_spec_zero: "ffs_spec 0 = 0"
  by code_simp

text \<open>
  C37. Both implementations of \<^verbatim>\<open>__rt_ffs\<close>, the one that searches a table of 256 entries byte by byte and the small one that
  isolates the lowest bit and looks up its residue modulo 37, compute the position of the lowest set bit counted
  from one, and 0 for the word 0.
\<close>

theorem rt_ffs_correct: "rt_ffs v = ffs_spec v \<and> rt_ffs_tiny v = ffs_spec v"
proof (cases "v = 0")
  case True
  have "rt_ffs_tiny 0 = 0" by code_simp
  then show ?thesis using True ffs_spec_zero by (simp add: rt_ffs_def)
next
  case False
  then show ?thesis using rt_ffs_lowest [OF False] rt_ffs_tiny_lowest [OF False] ffs_spec_lowest [of v] by metis
qed

end
