(* ===== verification/RT_Kernel.thy ===== *)
theory RT_Kernel
  imports RT_List RT_KService
begin

section \<open>The state of the kernel\<close>

text \<open>
  The data of \<^verbatim>\<open>include/rtdef.h\<close> and the static variables of \<^verbatim>\<open>scheduler.c\<close>, \<^verbatim>\<open>clock.c\<close>,
  \<^verbatim>\<open>irq.c\<close>, \<^verbatim>\<open>timer.c\<close>, \<^verbatim>\<open>idle.c\<close> and \<^verbatim>\<open>object.c\<close>, in the configuration of a uniprocessor
  32-bit kernel with 32 priorities.

  \<^item> A pointer to a kernel object is a number with the class of the object (\<open>obj_ref\<close>). The embedded
    \<^verbatim>\<open>struct rt_object\<close> of an object is found in the store \<open>objs\<close> under its reference, the rest
    of the structure in the store of its class. A thread contains its timer: \<open>ThreadTimer t\<close>.
  \<^item> List nodes (\<^verbatim>\<open>tlist\<close>, \<^verbatim>\<open>row\<close>, \<^verbatim>\<open>list\<close>) are linked in three families of rings, one per
    kind of node; the heads are the lists of the code.
  \<^item> \<open>heap\<close> is a ghost variable: the blocks obtained from \<^verbatim>\<open>RT_KERNEL_MALLOC\<close> and not freed yet.
\<close>

type_synonym tid = nat

datatype timer_ref = ThreadTimer tid | UserTimer nat

datatype obj_ref =
    OThread tid
  | OSem nat
  | OMutex nat
  | OEvent nat
  | OMailbox nat
  | OMq nat
  | OMemPool nat
  | OMemory nat
  | OMemHeap nat
  | ODevice nat
  | OTimer timer_ref

datatype heap_block = BObject obj_ref | BStack nat | BPool nat

subsection \<open>Constants of \<^verbatim>\<open>rtdef.h\<close>\<close>

abbreviation (input) RT_Object_Class_Null :: u8 where "RT_Object_Class_Null \<equiv> 0"
abbreviation (input) RT_Object_Class_Thread :: u8 where "RT_Object_Class_Thread \<equiv> 1"
abbreviation (input) RT_Object_Class_Semaphore :: u8 where "RT_Object_Class_Semaphore \<equiv> 2"
abbreviation (input) RT_Object_Class_Mutex :: u8 where "RT_Object_Class_Mutex \<equiv> 3"
abbreviation (input) RT_Object_Class_Event :: u8 where "RT_Object_Class_Event \<equiv> 4"
abbreviation (input) RT_Object_Class_MailBox :: u8 where "RT_Object_Class_MailBox \<equiv> 5"
abbreviation (input) RT_Object_Class_MessageQueue :: u8 where "RT_Object_Class_MessageQueue \<equiv> 6"
abbreviation (input) RT_Object_Class_MemHeap :: u8 where "RT_Object_Class_MemHeap \<equiv> 7"
abbreviation (input) RT_Object_Class_MemPool :: u8 where "RT_Object_Class_MemPool \<equiv> 8"
abbreviation (input) RT_Object_Class_Device :: u8 where "RT_Object_Class_Device \<equiv> 9"
abbreviation (input) RT_Object_Class_Timer :: u8 where "RT_Object_Class_Timer \<equiv> 10"
abbreviation (input) RT_Object_Class_Memory :: u8 where "RT_Object_Class_Memory \<equiv> 12"
abbreviation (input) RT_Object_Class_Static :: u8 where "RT_Object_Class_Static \<equiv> 0x80"

abbreviation (input) RT_TIMER_FLAG_ACTIVATED :: u8 where "RT_TIMER_FLAG_ACTIVATED \<equiv> 1"
abbreviation (input) RT_TIMER_FLAG_ONE_SHOT :: u8 where "RT_TIMER_FLAG_ONE_SHOT \<equiv> 0"
abbreviation (input) RT_TIMER_FLAG_PERIODIC :: u8 where "RT_TIMER_FLAG_PERIODIC \<equiv> 2"
abbreviation (input) RT_TIMER_FLAG_SOFT_TIMER :: u8 where "RT_TIMER_FLAG_SOFT_TIMER \<equiv> 4"

abbreviation (input) RT_THREAD_INIT :: u8 where "RT_THREAD_INIT \<equiv> 0"
abbreviation (input) RT_THREAD_READY :: u8 where "RT_THREAD_READY \<equiv> 1"
abbreviation (input) RT_THREAD_SUSPEND :: u8 where "RT_THREAD_SUSPEND \<equiv> 2"
abbreviation (input) RT_THREAD_RUNNING :: u8 where "RT_THREAD_RUNNING \<equiv> 3"
abbreviation (input) RT_THREAD_CLOSE :: u8 where "RT_THREAD_CLOSE \<equiv> 4"
abbreviation (input) RT_THREAD_STAT_MASK :: u8 where "RT_THREAD_STAT_MASK \<equiv> 7"
abbreviation (input) RT_THREAD_STAT_YIELD :: u8 where "RT_THREAD_STAT_YIELD \<equiv> 8"

abbreviation (input) RT_IPC_FLAG_FIFO :: u8 where "RT_IPC_FLAG_FIFO \<equiv> 0"
abbreviation (input) RT_IPC_FLAG_PRIO :: u8 where "RT_IPC_FLAG_PRIO \<equiv> 1"
abbreviation (input) RT_IPC_CMD_RESET :: int where "RT_IPC_CMD_RESET \<equiv> 1"

subsection \<open>Structures\<close>

record rt_object =
  ob_name :: "u8 list"
  ob_type :: u8
  ob_flag :: u8

record rt_thread =
  th_sp :: nat
  th_entry :: nat
  th_parameter :: nat
  th_stack_addr :: nat
  th_stack_size :: u32
  th_error :: rt_err
  th_stat :: u8
  th_current_priority :: u8
  th_number_mask :: u32
  th_event_set :: u32
  th_event_info :: u8
  th_init_tick :: u32
  th_remaining_tick :: u32
  th_cleanup :: "nat option"
  th_user_data :: u32

text \<open>The timeout function of a timer: \<^verbatim>\<open>_thread_timeout\<close>, or a function of the application.\<close>

datatype timeout_func = Thread_timeout | User_timeout nat

record rt_timer =
  tm_timeout_func :: timeout_func
  tm_parameter :: nat
  tm_init_tick :: u32
  tm_timeout_tick :: u32

record rt_semaphore =
  sem_value :: u16

record rt_mutex =
  mtx_value :: u16
  mtx_original_priority :: u8
  mtx_hold :: u8
  mtx_owner :: "tid option"

record rt_event =
  ev_set :: u32

record rt_mailbox =
  mb_msg_pool :: "u32 list"
  mb_pool_addr :: nat
  mb_size :: u16
  mb_entry :: u16
  mb_in_offset :: u16
  mb_out_offset :: u16

text \<open>
  A message queue carves its pool into \<^verbatim>\<open>max_msgs\<close> slots, each a \<^verbatim>\<open>struct rt_mq_message\<close>
  (a \<^verbatim>\<open>next\<close> pointer) followed by the bytes of the message; a slot is named by its index.
\<close>

record rt_messagequeue =
  mq_next :: "nat \<Rightarrow> nat option"
  mq_data :: "nat \<Rightarrow> u8 list"
  mq_pool_addr :: nat
  mq_msg_size :: u16
  mq_max_msgs :: u16
  mq_entry :: u16
  mq_queue_head :: "nat option"
  mq_queue_tail :: "nat option"
  mq_queue_free :: "nat option"

text \<open>
  A memory pool is a piece of memory at \<^verbatim>\<open>start_address\<close> that holds equal blocks, each preceded by one word. In a free
  block the word is the pointer to the next free block, in an allocated block the pointer to the pool. Only
  these words are modelled: \<open>mp_mem\<close> maps the address of the word to its content.
\<close>

record rt_mempool =
  mp_start_address :: nat
  mp_size :: u32
  mp_block_size :: u32
  mp_block_list :: "nat option"
  mp_block_total_count :: u32
  mp_block_free_count :: u32

datatype mp_word = MNext "nat option" | MOwner nat

text \<open>
  A memory heap of \<^verbatim>\<open>mem.c\<close> is named by the address of its \<^verbatim>\<open>struct rt_small_mem\<close>. Its memory is cut into
  items, each headed by a \<^verbatim>\<open>struct rt_small_mem_item\<close>; \<open>sm_items\<close> maps the address of a header to its content, \<open>sm_bytes\<close>
  holds the bytes of the application. The record starts with the fields of \<^verbatim>\<open>struct rt_memory\<close> after the embedded object.
\<close>

record rt_small_mem_item =
  smi_pool_ptr :: u32
  smi_next :: u32
  smi_prev :: u32

record rt_small_mem =
  sm_address :: nat
  sm_total :: u32
  sm_used :: u32
  sm_max :: u32
  sm_heap_ptr :: nat
  sm_heap_end :: nat
  sm_lfree :: nat
  sm_mem_size_aligned :: u32

text \<open>
  A heap of \<^verbatim>\<open>memheap.c\<close> is named by the address of its \<^verbatim>\<open>struct rt_memheap\<close>; \<open>mh_items\<close> maps the address of an item header to its
  content. Pointers are addresses, 0 is the null pointer. \<open>mh_lock\<close> names the embedded semaphore.
\<close>

record rt_memheap_item =
  mhi_magic :: u32
  mhi_pool_ptr :: nat
  mhi_next :: nat
  mhi_prev :: nat
  mhi_next_free :: nat
  mhi_prev_free :: nat

record rt_memheap =
  mh_start_addr :: nat
  mh_pool_size :: u32
  mh_available_size :: u32
  mh_max_used_size :: u32
  mh_block_list :: nat
  mh_free_list :: nat
  mh_lock :: nat
  mh_locked :: bool

record rt_device =
  dev_type :: int
  dev_flag :: u16
  dev_open_flag :: u16
  dev_ref_count :: u8
  dev_rx_indicate :: "nat option"
  dev_tx_complete :: "nat option"

subsection \<open>Lists and the global state\<close>

datatype thread_list = Ready nat | Suspended obj_ref | SenderSuspended obj_ref | Defunct

datatype timer_list = HardTimers | SoftTimers | HardLocal | SoftLocal

record kernel =
  threads :: "tid \<Rightarrow> rt_thread"
  timers :: "timer_ref \<Rightarrow> rt_timer"
  objs :: "obj_ref \<Rightarrow> rt_object"
  thread_rings :: "(thread_list, tid) rings"
  timer_rings :: "(timer_list, timer_ref) rings"
  object_rings :: "(u8, obj_ref) rings"
  rt_thread_ready_priority_group :: u32
  rt_current_thread :: "tid option"
  rt_current_priority :: u8
  rt_scheduler_lock_nest :: u16
  rt_interrupt_nest :: u8
  rt_tick :: u32
  soft_timer_busy :: bool
  timer_thread :: tid
  idle_thread :: tid
  idle_hook_list :: "nat option list"
  sems :: "nat \<Rightarrow> rt_semaphore"
  mutexes :: "nat \<Rightarrow> rt_mutex"
  events :: "nat \<Rightarrow> rt_event"
  mailboxes :: "nat \<Rightarrow> rt_mailbox"
  msgqueues :: "nat \<Rightarrow> rt_messagequeue"
  mempools :: "nat \<Rightarrow> rt_mempool"
  mp_mem :: "nat \<Rightarrow> mp_word"
  small_mems :: "nat \<Rightarrow> rt_small_mem"
  sm_items :: "nat \<Rightarrow> rt_small_mem_item"
  sm_bytes :: "nat \<Rightarrow> u8"
  system_heap :: "nat option"
  memheaps :: "nat \<Rightarrow> rt_memheap"
  mh_items :: "nat \<Rightarrow> rt_memheap_item"
  devices :: "nat \<Rightarrow> rt_device"
  rt_errno :: rt_err
  heap :: "heap_block set"

text \<open>Updates of one entry of a store.\<close>

definition upd_thread :: "tid \<Rightarrow> (rt_thread \<Rightarrow> rt_thread) \<Rightarrow> kernel \<Rightarrow> kernel" where
  "upd_thread t f s = s\<lparr>threads := (threads s)(t := f (threads s t))\<rparr>"

definition upd_timer :: "timer_ref \<Rightarrow> (rt_timer \<Rightarrow> rt_timer) \<Rightarrow> kernel \<Rightarrow> kernel" where
  "upd_timer r f s = s\<lparr>timers := (timers s)(r := f (timers s r))\<rparr>"

definition upd_obj :: "obj_ref \<Rightarrow> (rt_object \<Rightarrow> rt_object) \<Rightarrow> kernel \<Rightarrow> kernel" where
  "upd_obj o' f s = s\<lparr>objs := (objs s)(o' := f (objs s o'))\<rparr>"

definition status :: "kernel \<Rightarrow> tid \<Rightarrow> u8" where
  "status s t = th_stat (threads s t) AND RT_THREAD_STAT_MASK"

definition thread_prio :: "kernel \<Rightarrow> tid \<Rightarrow> nat" where
  "thread_prio s t = unat (th_current_priority (threads s t))"

definition timer_flag :: "kernel \<Rightarrow> timer_ref \<Rightarrow> u8" where
  "timer_flag s r = ob_flag (objs s (OTimer r))"

definition class_of :: "obj_ref \<Rightarrow> u8" where
  "class_of o' = (case o' of
      OThread _ \<Rightarrow> RT_Object_Class_Thread
    | OSem _ \<Rightarrow> RT_Object_Class_Semaphore
    | OMutex _ \<Rightarrow> RT_Object_Class_Mutex
    | OEvent _ \<Rightarrow> RT_Object_Class_Event
    | OMailbox _ \<Rightarrow> RT_Object_Class_MailBox
    | OMq _ \<Rightarrow> RT_Object_Class_MessageQueue
    | OMemPool _ \<Rightarrow> RT_Object_Class_MemPool
    | OMemory _ \<Rightarrow> RT_Object_Class_Memory
    | OMemHeap _ \<Rightarrow> RT_Object_Class_MemHeap
    | ODevice _ \<Rightarrow> RT_Object_Class_Device
    | OTimer _ \<Rightarrow> RT_Object_Class_Timer)"

text \<open>Zeroed structures, as \<^verbatim>\<open>.bss\<close> and \<^verbatim>\<open>rt_memset\<close> leave them.\<close>

definition zero_obj :: rt_object where
  "zero_obj = \<lparr>ob_name = replicate RT_NAME_MAX 0, ob_type = 0, ob_flag = 0\<rparr>"

definition zero_thread :: rt_thread where
  "zero_thread = \<lparr>th_sp = 0, th_entry = 0, th_parameter = 0, th_stack_addr = 0, th_stack_size = 0,
     th_error = 0, th_stat = 0, th_current_priority = 0, th_number_mask = 0, th_event_set = 0,
     th_event_info = 0, th_init_tick = 0, th_remaining_tick = 0, th_cleanup = None, th_user_data = 0\<rparr>"

definition zero_timer :: rt_timer where
  "zero_timer = \<lparr>tm_timeout_func = User_timeout 0, tm_parameter = 0, tm_init_tick = 0, tm_timeout_tick = 0\<rparr>"

definition zero_sem :: rt_semaphore where "zero_sem = \<lparr>sem_value = 0\<rparr>"

definition zero_mutex :: rt_mutex where
  "zero_mutex = \<lparr>mtx_value = 0, mtx_original_priority = 0, mtx_hold = 0, mtx_owner = None\<rparr>"

definition zero_event :: rt_event where "zero_event = \<lparr>ev_set = 0\<rparr>"

definition zero_mailbox :: rt_mailbox where
  "zero_mailbox = \<lparr>mb_msg_pool = [], mb_pool_addr = 0, mb_size = 0, mb_entry = 0, mb_in_offset = 0,
     mb_out_offset = 0\<rparr>"

definition zero_mq :: rt_messagequeue where
  "zero_mq = \<lparr>mq_next = (\<lambda>_. None), mq_data = (\<lambda>_. []), mq_pool_addr = 0, mq_msg_size = 0,
     mq_max_msgs = 0, mq_entry = 0, mq_queue_head = None, mq_queue_tail = None, mq_queue_free = None\<rparr>"

definition zero_mempool :: rt_mempool where
  "zero_mempool = \<lparr>mp_start_address = 0, mp_size = 0, mp_block_size = 0, mp_block_list = None,
     mp_block_total_count = 0, mp_block_free_count = 0\<rparr>"

definition zero_small_mem :: rt_small_mem where
  "zero_small_mem = \<lparr>sm_address = 0, sm_total = 0, sm_used = 0, sm_max = 0, sm_heap_ptr = 0, sm_heap_end = 0,
     sm_lfree = 0, sm_mem_size_aligned = 0\<rparr>"

definition zero_item :: rt_small_mem_item where
  "zero_item = \<lparr>smi_pool_ptr = 0, smi_next = 0, smi_prev = 0\<rparr>"

definition zero_memheap :: rt_memheap where
  "zero_memheap = \<lparr>mh_start_addr = 0, mh_pool_size = 0, mh_available_size = 0, mh_max_used_size = 0, mh_block_list = 0, mh_free_list = 0,
     mh_lock = 0, mh_locked = False\<rparr>"

definition zero_mh_item :: rt_memheap_item where
  "zero_mh_item = \<lparr>mhi_magic = 0, mhi_pool_ptr = 0, mhi_next = 0, mhi_prev = 0, mhi_next_free = 0, mhi_prev_free = 0\<rparr>"

definition zero_device :: rt_device where
  "zero_device = \<lparr>dev_type = 0, dev_flag = 0, dev_open_flag = 0, dev_ref_count = 0, dev_rx_indicate = None, dev_tx_complete = None\<rparr>"

text \<open>The state at reset, with the addresses of the two static threads of the kernel.\<close>

definition boot :: "tid \<Rightarrow> tid \<Rightarrow> kernel" where
  "boot tmr idl = \<lparr>threads = (\<lambda>_. zero_thread), timers = (\<lambda>_. zero_timer), objs = (\<lambda>_. zero_obj),
     thread_rings = empty_rings, timer_rings = empty_rings, object_rings = empty_rings,
     rt_thread_ready_priority_group = 0, rt_current_thread = None, rt_current_priority = 0,
     rt_scheduler_lock_nest = 0, rt_interrupt_nest = 0, rt_tick = 0, soft_timer_busy = False,
     timer_thread = tmr, idle_thread = idl, idle_hook_list = replicate 4 None,
     sems = (\<lambda>_. zero_sem), mutexes = (\<lambda>_. zero_mutex), events = (\<lambda>_. zero_event),
     mailboxes = (\<lambda>_. zero_mailbox), msgqueues = (\<lambda>_. zero_mq),
     mempools = (\<lambda>_. zero_mempool), mp_mem = (\<lambda>_. MNext None), small_mems = (\<lambda>_. zero_small_mem),
     sm_items = (\<lambda>_. zero_item), sm_bytes = (\<lambda>_. 0), system_heap = None, memheaps = (\<lambda>_. zero_memheap),
     mh_items = (\<lambda>_. zero_mh_item), devices = (\<lambda>_. zero_device), rt_errno = 0, heap = {}\<rparr>"

end
