(* ===== verification/RT_Invariant.thy ===== *)
theory RT_Invariant
  imports RT_Kernel
begin

section \<open>The invariant of the kernel\<close>

text \<open>
  What holds of the kernel state whenever interrupts are enabled. It is split by the entity it
  speaks of, so that an operation on one thread or one timer only has to look at that entity:

  \<^item> \<open>obj_ok\<close>: an object is in the list of its class with that class as its type, or in no list with
    type 0;
  \<^item> \<open>thread_ok\<close>: the status of a thread determines the list its \<^verbatim>\<open>tlist\<close> node may be in; a thread
    that takes part in scheduling has a priority below 32, the matching mask and a live timer; the
    timer is live only while the thread is and until it is closed;
  \<^item> \<open>timer_ok\<close>: a timer is active exactly when it is linked, in the list its flags select; the timer
    of a thread runs only while the thread is suspended;
  \<^item> \<open>group_ok\<close>: bit \<open>p\<close> of \<^verbatim>\<open>rt_thread_ready_priority_group\<close> says that a thread of priority
    \<open>p\<close> is ready;
  \<^item> \<open>cur_ok\<close>: the current thread is not in a ready list, and no other thread is running;
  \<^item> \<open>lock_ok\<close>: the nesting depth of the scheduler lock is not negative.
\<close>

definition live :: "kernel \<Rightarrow> obj_ref \<Rightarrow> bool" where
  "live s o' \<longleftrightarrow> home (object_rings s) o' \<noteq> None"

definition is_static :: "kernel \<Rightarrow> obj_ref \<Rightarrow> bool" where
  "is_static s o' \<longleftrightarrow> ob_type (objs s o') AND RT_Object_Class_Static \<noteq> 0"

definition obj_ok :: "kernel \<Rightarrow> obj_ref \<Rightarrow> bool" where
  "obj_ok s o' \<longleftrightarrow> length (ob_name (objs s o')) = RT_NAME_MAX \<and>
     (case home (object_rings s) o' of
       None \<Rightarrow> ob_type (objs s o') = 0
     | Some c \<Rightarrow> c = class_of o' \<and>
         (ob_type (objs s o') = class_of o' \<and> BObject o' \<in> heap s \<or>
          ob_type (objs s o') = class_of o' OR RT_Object_Class_Static))"

definition thread_timer_alive :: "kernel \<Rightarrow> tid \<Rightarrow> bool" where
  "thread_timer_alive s t \<longleftrightarrow> live s (OThread t) \<and> status s t \<noteq> RT_THREAD_CLOSE"

text \<open>Objects with a second list, of threads that wait to send.\<close>

definition has_senders :: "obj_ref \<Rightarrow> bool" where
  "has_senders x \<longleftrightarrow> (case x of OMailbox _ \<Rightarrow> True | OMq _ \<Rightarrow> True | _ \<Rightarrow> False)"

lemma has_senders_simps [simp]:
  "\<not> has_senders (OSem i)" "\<not> has_senders (OMutex i)" "\<not> has_senders (OEvent i)" "has_senders (OMailbox i)" "has_senders (OMq i)"
  "\<not> has_senders (OMemPool i)" "\<not> has_senders (OMemory i)" "\<not> has_senders (OMemHeap i)" "\<not> has_senders (ODevice i)"
  by (simp_all add: has_senders_def)

definition place_ok :: "u8 \<Rightarrow> nat \<Rightarrow> thread_list option \<Rightarrow> bool" where
  "place_ok st p h \<longleftrightarrow> (case h of
       None \<Rightarrow> st \<noteq> RT_THREAD_READY
     | Some (Ready q) \<Rightarrow> st = RT_THREAD_READY \<and> q = p
     | Some (Suspended _) \<Rightarrow> st = RT_THREAD_SUSPEND
     | Some (SenderSuspended x) \<Rightarrow> st = RT_THREAD_SUSPEND \<and> has_senders x
     | Some Defunct \<Rightarrow> st = RT_THREAD_CLOSE)"

definition waits_on :: "thread_list option \<Rightarrow> obj_ref option" where
  "waits_on h = (case h of Some (Suspended o') \<Rightarrow> Some o' | Some (SenderSuspended o') \<Rightarrow> Some o' | _ \<Rightarrow> None)"

text \<open>The status of a thread that has been started and not closed.\<close>

definition active :: "u8 \<Rightarrow> bool" where
  "active st \<longleftrightarrow> st \<in> {RT_THREAD_READY, RT_THREAD_SUSPEND, RT_THREAD_RUNNING}"

text \<open>Objects a thread can wait for: all but threads and timers.\<close>

definition is_ipc :: "obj_ref \<Rightarrow> bool" where
  "is_ipc x \<longleftrightarrow> (case x of OThread _ \<Rightarrow> False | OTimer _ \<Rightarrow> False | _ \<Rightarrow> True)"

lemma is_ipc_simps [simp]:
  "is_ipc (OSem i)" "is_ipc (OMutex i)" "is_ipc (OEvent i)" "is_ipc (OMailbox i)" "is_ipc (OMq i)" "is_ipc (OMemPool i)"
  "is_ipc (OMemory i)" "is_ipc (OMemHeap i)" "is_ipc (ODevice i)"
  "\<not> is_ipc (OThread t)" "\<not> is_ipc (OTimer r)"
  by (simp_all add: is_ipc_def)

definition thread_ok :: "kernel \<Rightarrow> tid \<Rightarrow> bool" where
  "thread_ok s t \<longleftrightarrow>
     place_ok (status s t) (thread_prio s t) (home (thread_rings s) t) \<and>
     status s t \<le> RT_THREAD_CLOSE \<and>
     (live s (OTimer (ThreadTimer t)) \<longrightarrow> thread_prio s t < RT_THREAD_PRIORITY_MAX) \<and>
     (active (status s t) \<longrightarrow>
        live s (OThread t) \<and> th_number_mask (threads s t) = 2 ^ thread_prio s t) \<and>
     (home (thread_rings s) t = Some Defunct \<longrightarrow> live s (OThread t)) \<and>
     (\<forall>o'. waits_on (home (thread_rings s) t) = Some o' \<longrightarrow> live s o' \<and> is_ipc o') \<and>
     (live s (OTimer (ThreadTimer t)) \<longrightarrow> thread_timer_alive s t) \<and>
     (active (status s t) \<longrightarrow> live s (OTimer (ThreadTimer t)))"

definition timer_place_ok :: "u8 \<Rightarrow> timer_list option \<Rightarrow> bool" where
  "timer_place_ok flag h \<longleftrightarrow> (case h of
       None \<Rightarrow> \<not> bit flag 0
     | Some HardTimers \<Rightarrow> bit flag 0 \<and> \<not> bit flag 2
     | Some SoftTimers \<Rightarrow> bit flag 0 \<and> bit flag 2
     | Some HardLocal \<Rightarrow> \<not> bit flag 2
     | Some SoftLocal \<Rightarrow> bit flag 2)"

definition timer_ok :: "kernel \<Rightarrow> timer_ref \<Rightarrow> bool" where
  "timer_ok s r \<longleftrightarrow>
     (live s (OTimer r) \<longrightarrow>
        timer_place_ok (timer_flag s r) (home (timer_rings s) r) \<and>
        tm_init_tick (timers s r) < RT_TICK_HALF) \<and>
     (home (timer_rings s) r \<noteq> None \<longrightarrow> live s (OTimer r)) \<and>
     (\<forall>t. r = ThreadTimer t \<longrightarrow>
        (live s (OTimer r) \<longrightarrow>
           \<not> bit (timer_flag s r) 1 \<and> \<not> bit (timer_flag s r) 2 \<and>
           is_static s (OTimer r) \<and>
           tm_timeout_func (timers s r) = Thread_timeout \<and> tm_parameter (timers s r) = t) \<and>
        (home (timer_rings s) r = Some HardTimers \<longrightarrow> status s t = RT_THREAD_SUSPEND)) \<and>
     (\<forall>n. r = UserTimer n \<longrightarrow> live s (OTimer r) \<longrightarrow> tm_timeout_func (timers s r) \<noteq> Thread_timeout)"

definition group_ok :: "kernel \<Rightarrow> bool" where
  "group_ok s \<longleftrightarrow> (\<forall>p<RT_THREAD_PRIORITY_MAX.
     bit (rt_thread_ready_priority_group s) p \<longleftrightarrow> ring (thread_rings s) (Ready p) \<noteq> [])"

definition cur_ok :: "kernel \<Rightarrow> bool" where
  "cur_ok s \<longleftrightarrow>
     (\<forall>t. rt_current_thread s = Some t \<longrightarrow>
        status s t \<noteq> RT_THREAD_READY \<and> status s t \<noteq> RT_THREAD_INIT) \<and>
     (\<forall>t. status s t = RT_THREAD_RUNNING \<longrightarrow> rt_current_thread s = Some t)"

definition lock_ok :: "kernel \<Rightarrow> bool" where
  "lock_ok s \<longleftrightarrow> 0 \<le> sint (rt_scheduler_lock_nest s)"

definition rings_all_ok :: "kernel \<Rightarrow> bool" where
  "rings_all_ok s \<longleftrightarrow> rings_ok (thread_rings s) \<and> rings_ok (timer_rings s) \<and> rings_ok (object_rings s)"

definition kinv :: "kernel \<Rightarrow> bool" where
  "kinv s \<longleftrightarrow> rings_all_ok s \<and> (\<forall>o'. obj_ok s o') \<and> (\<forall>t. thread_ok s t) \<and> (\<forall>r. timer_ok s r) \<and>
     group_ok s \<and> cur_ok s \<and> lock_ok s"

subsection \<open>Using the invariant\<close>

lemma kinvD:
  assumes "kinv s"
  shows "rings_ok (thread_rings s)" "rings_ok (timer_rings s)" "rings_ok (object_rings s)"
    "obj_ok s x" "thread_ok s t" "timer_ok s r" "group_ok s" "cur_ok s" "lock_ok s"
  using assms by (simp_all add: kinv_def rings_all_ok_def)

lemma kinv_place: "kinv s \<Longrightarrow> place_ok (status s t) (thread_prio s t) (home (thread_rings s) t)"
  using kinvD(5) [of s t] by (simp add: thread_ok_def)

lemma place_ok_ready: "place_ok st p h \<Longrightarrow> st = RT_THREAD_READY \<longleftrightarrow> h = Some (Ready p)"
  by (auto simp: place_ok_def split: option.splits thread_list.splits)

text \<open>The ready lists hold exactly the ready threads, each in the list of its priority.\<close>

lemma kinv_ready_iff:
  assumes "kinv s"
  shows "t \<in> set (ring (thread_rings s) (Ready p)) \<longleftrightarrow> status s t = RT_THREAD_READY \<and> thread_prio s t = p"
proof -
  have "t \<in> set (ring (thread_rings s) (Ready p)) \<longleftrightarrow> home (thread_rings s) t = Some (Ready p)"
    using rings_ok_home [OF kinvD(1) [OF assms]] by blast
  then show ?thesis
    using kinv_place [OF assms, of t] by (auto simp: place_ok_def split: option.splits thread_list.splits)
qed

lemma kinv_prio: "kinv s \<Longrightarrow> live s (OTimer (ThreadTimer t)) \<Longrightarrow> thread_prio s t < 32"
  using kinvD(5) [of s t] by (simp add: thread_ok_def)

lemma active_simps [simp]: "active 1" "active 2" "active 3" "\<not> active 0" "\<not> active 4"
  by (simp_all add: active_def)

lemma kinv_active:
  assumes "kinv s" "active (status s t)"
  shows "live s (OThread t)" "th_number_mask (threads s t) = 2 ^ thread_prio s t"
    "thread_prio s t < 32" "live s (OTimer (ThreadTimer t))"
proof -
  have ok: "thread_ok s t" using assms(1) by (rule kinvD)
  show live: "live s (OThread t)" and "th_number_mask (threads s t) = 2 ^ thread_prio s t"
    using ok assms(2) by (simp_all add: thread_ok_def)
  show tm: "live s (OTimer (ThreadTimer t))"
    using ok assms(2) live by (auto simp: thread_ok_def)
  show "thread_prio s t < 32" using assms(1) tm by (rule kinv_prio)
qed

lemma kinv_ready_prio: "kinv s \<Longrightarrow> ring (thread_rings s) (Ready p) \<noteq> [] \<Longrightarrow> p < 32"
  using kinv_ready_iff [of s "hd (ring (thread_rings s) (Ready p))" p]
    kinv_active(3) [of s "hd (ring (thread_rings s) (Ready p))"] by auto

lemma kinv_not_ready: "kinv s \<Longrightarrow> home (thread_rings s) t \<noteq> Some (Ready p) \<or> status s t = RT_THREAD_READY"
  using kinv_place [of s t] by (auto simp: place_ok_def split: option.splits)

lemma kinv_running: "kinv s \<Longrightarrow> status s t = RT_THREAD_RUNNING \<Longrightarrow> rt_current_thread s = Some t"
  using kinvD(8) [of s] by (simp add: cur_ok_def)

lemma kinv_cur: "kinv s \<Longrightarrow> rt_current_thread s = Some t \<Longrightarrow>
    status s t \<noteq> RT_THREAD_READY \<and> status s t \<noteq> RT_THREAD_INIT"
  using kinvD(8) [of s] by (simp add: cur_ok_def)

lemma kinv_running_unlinked:
  "kinv s \<Longrightarrow> status s t = RT_THREAD_RUNNING \<Longrightarrow> home (thread_rings s) t = None"
  using kinv_place [of s t] by (auto simp: place_ok_def split: option.splits thread_list.splits)

lemma obj_type_live:
  assumes "kinv s"
  shows "ob_type (objs s x) AND NOT RT_Object_Class_Static = class_of x \<longleftrightarrow> live s x"
proof -
  have "class_of x \<noteq> 0" "class_of x AND NOT 0x80 = class_of x"
    by (cases x; simp add: class_of_def)+
  then show ?thesis
    using kinvD(4) [OF assms, of x]
    by (auto simp: obj_ok_def live_def bit.conj_disj_distrib2 split: option.splits)
qed

text \<open>
  An operation that changes the threads of a set \<open>T\<close> and the lists they are in keeps the
  invariant when it keeps the part of it that speaks of these threads.
\<close>

lemma kinv_threads_cong:
  assumes inv: "kinv s"
    and same: "timers s' = timers s" "objs s' = objs s" "timer_rings s' = timer_rings s"
      "object_rings s' = object_rings s" "heap s' = heap s" "rt_scheduler_lock_nest s' = rt_scheduler_lock_nest s"
    and rings: "rings_ok (thread_rings s')"
    and out: "\<And>u. u \<notin> T \<Longrightarrow> threads s' u = threads s u \<and> home (thread_rings s') u = home (thread_rings s) u"
    and ok: "\<And>t. t \<in> T \<Longrightarrow> thread_ok s' t"
    and tm: "\<And>t. t \<in> T \<Longrightarrow> home (timer_rings s) (ThreadTimer t) = Some HardTimers \<Longrightarrow>
        status s' t = RT_THREAD_SUSPEND"
    and grp: "group_ok s'" and cur: "cur_ok s'"
  shows "kinv s'"
proof -
  have live: "live s' = live s" by (simp add: live_def fun_eq_iff same)
  have "thread_ok s' t" for t
  proof (cases "t \<in> T")
    case False
    have "status s' t = status s t" "thread_prio s' t = thread_prio s t"
      using out [OF False] by (simp_all add: status_def thread_prio_def)
    then show ?thesis
      using kinvD(5) [OF inv, of t] out [OF False] by (simp add: thread_ok_def thread_timer_alive_def live)
  qed (rule ok)
  moreover have "timer_ok s' r" for r
  proof -
    have "status s' t = RT_THREAD_SUSPEND"
      if "r = ThreadTimer t" "home (timer_rings s) r = Some HardTimers" for t
    proof (cases "t \<in> T")
      case False
      then have "status s' t = status s t" using out [OF False] by (simp add: status_def)
      then show ?thesis using that kinvD(6) [OF inv, of r] by (simp add: timer_ok_def)
    qed (use tm that in simp)
    then show ?thesis
      using kinvD(6) [OF inv, of r] by (simp add: timer_ok_def timer_flag_def is_static_def live same)
  qed
  moreover have "obj_ok s' x" for x
    using kinvD(4) [OF inv, of x] unfolding obj_ok_def same .
  ultimately show ?thesis
    using kinvD(2,3,9) [OF inv] rings grp cur by (simp add: kinv_def rings_all_ok_def lock_ok_def same)
qed

end
