(* ===== verification/RT_Demo.thy ===== *)
theory RT_Demo
  imports RT_Invariant
begin

section \<open>An example state\<close>

text \<open>
  A concrete state of a running system, used to apply theorems to concrete inputs. Thread 1 runs
  at priority 5 (with status byte \<open>st\<close>: \<^verbatim>\<open>RUNNING\<close>, possibly with the yield flag), thread 2 is
  ready at priority 5, thread 3 (the idle thread) is ready at priority 31, thread 4 has priority 4
  and waits for semaphore 0. Semaphores 0 and 1, mutex 0, event 0, mailbox 0, message queue 0, memory pool 0,
  the small-memory heap 4096, the memory heap 8192 and the one-shot hard timer \<open>UserTimer 0\<close> are initialised and idle.
\<close>

definition demo_thread :: "u8 \<Rightarrow> u8 \<Rightarrow> rt_thread" where
  "demo_thread st p = zero_thread\<lparr>th_stat := st, th_current_priority := p,
     th_number_mask := push_bit (unat p) 1, th_init_tick := 10, th_remaining_tick := 10\<rparr>"

definition demo_threads :: "u8 \<Rightarrow> tid \<Rightarrow> rt_thread" where
  "demo_threads st t =
     (if t = 1 then demo_thread st 5 else if t = 2 then demo_thread 1 5
      else if t = 3 then demo_thread 1 31 else if t = 4 then demo_thread 2 4 else zero_thread)"

definition demo_live :: "obj_ref list" where
  "demo_live = [OThread 1, OThread 2, OThread 3, OThread 4, OSem 0, OSem 1, OMutex 0, OEvent 0, OMailbox 0, OMq 0, OMemPool 0, OMemory 4096, OMemHeap 8192,
     OTimer (ThreadTimer 1), OTimer (ThreadTimer 2), OTimer (ThreadTimer 3), OTimer (ThreadTimer 4),
     OTimer (UserTimer 0)]"

definition demo_timers :: "timer_ref \<Rightarrow> rt_timer" where
  "demo_timers r = (case r of
      ThreadTimer t \<Rightarrow> zero_timer\<lparr>tm_timeout_func := Thread_timeout, tm_parameter := t\<rparr>
    | UserTimer n \<Rightarrow> zero_timer\<lparr>tm_init_tick := 7\<rparr>)"

definition demo :: "u8 \<Rightarrow> kernel" where
  "demo st = (boot 0 3)
     \<lparr>threads := demo_threads st, timers := demo_timers,
      objs := (\<lambda>x. if x \<in> set demo_live then zero_obj\<lparr>ob_type := class_of x OR RT_Object_Class_Static\<rparr> else zero_obj),
      thread_rings :=
        \<lparr>ring = (\<lambda>l. if l = Ready 5 then [2] else if l = Ready 31 then [3] else if l = Suspended (OSem 0) then [4] else []),
         home = (\<lambda>t. if t = 2 then Some (Ready 5) else if t = 3 then Some (Ready 31)
                     else if t = 4 then Some (Suspended (OSem 0)) else None)\<rparr>,
      object_rings :=
        \<lparr>ring = (\<lambda>c. filter (\<lambda>x. class_of x = c) demo_live),
         home = (\<lambda>x. if x \<in> set demo_live then Some (class_of x) else None)\<rparr>,
      rt_thread_ready_priority_group := 0x80000020,
      rt_current_thread := Some 1, rt_current_priority := 5,
      mutexes := (\<lambda>_. zero_mutex\<lparr>mtx_value := 1, mtx_original_priority := 0xff\<rparr>),
      mailboxes := (\<lambda>_. zero_mailbox\<lparr>mb_msg_pool := [0, 0], mb_size := 2\<rparr>)\<rparr>"

lemma demo_simps [simp]:
  "timers (demo st) = demo_timers"
  "timer_rings (demo st) = empty_rings"
  "home (thread_rings (demo st)) t = (if t = 2 then Some (Ready 5) else if t = 3 then Some (Ready 31)
     else if t = 4 then Some (Suspended (OSem 0)) else None)"
  "ring (thread_rings (demo st)) l = (if l = Ready 5 then [2] else if l = Ready 31 then [3]
     else if l = Suspended (OSem 0) then [4] else [])"
  "home (object_rings (demo st)) x = (if x \<in> set demo_live then Some (class_of x) else None)"
  "ring (object_rings (demo st)) c = filter (\<lambda>x. class_of x = c) demo_live"
  "threads (demo st) t = demo_threads st t"
  "objs (demo st) x = (if x \<in> set demo_live then zero_obj\<lparr>ob_type := class_of x OR RT_Object_Class_Static\<rparr> else zero_obj)"
  "rt_thread_ready_priority_group (demo st) = 0x80000020"
  "rt_current_thread (demo st) = Some 1" "rt_scheduler_lock_nest (demo st) = 0"
  "rt_interrupt_nest (demo st) = 0" "rt_tick (demo st) = 0" "heap (demo st) = {}"
  "timer_thread (demo st) = 0" "idle_thread (demo st) = 3" "soft_timer_busy (demo st) = False"
  "sems (demo st) i = zero_sem" "events (demo st) i = zero_event" "msgqueues (demo st) i = zero_mq"
  "mempools (demo st) i = zero_mempool" "mp_mem (demo st) = (\<lambda>_. MNext None)"
  "small_mems (demo st) i = zero_small_mem" "sm_items (demo st) = (\<lambda>_. zero_item)" "sm_bytes (demo st) = (\<lambda>_. 0)" "system_heap (demo st) = None"
  "mutexes (demo st) i = zero_mutex\<lparr>mtx_value := 1, mtx_original_priority := 0xff\<rparr>"
  "mailboxes (demo st) i = zero_mailbox\<lparr>mb_msg_pool := [0, 0], mb_size := 2\<rparr>"
  by (simp_all add: demo_def boot_def)

lemma demo_status:
  "status (demo st) t = (if t = 1 then st AND 7 else if t = 2 then 1 else if t = 3 then 1 else if t = 4 then 2 else 0)"
  by (simp add: status_def demo_threads_def demo_thread_def zero_thread_def)

lemma demo_prio:
  "thread_prio (demo st) t = (if t = 1 then 5 else if t = 2 then 5 else if t = 3 then 31 else if t = 4 then 4 else 0)"
  by (simp add: thread_prio_def demo_threads_def demo_thread_def zero_thread_def)

lemma demo_live_iff: "live (demo st) x \<longleftrightarrow> x \<in> set demo_live"
  by (simp add: live_def)

lemma demo_class: "x \<in> set demo_live \<Longrightarrow> (class_of x OR 0x80) AND 0x80 \<noteq> 0"
  by (simp add: class_of_def split: obj_ref.split)

lemma demo_rings: "rings_all_ok (demo st)"
  unfolding rings_all_ok_def rings_ok_def
  by (auto simp: demo_live_def empty_rings_def class_of_def split: if_splits)

lemma demo_threads_ok: "st AND 7 = 3 \<Longrightarrow> thread_ok (demo st) t"
  by (simp add: thread_ok_def place_ok_def waits_on_def demo_status demo_prio demo_live_iff thread_timer_alive_def)
    (simp add: demo_live_def demo_threads_def demo_thread_def active_def)

lemma demo_timers_ok: "timer_ok (demo st) r"
  by (cases r) (auto simp: timer_ok_def timer_flag_def is_static_def demo_live_iff empty_rings_def timer_place_ok_def demo_timers_def
      zero_timer_def zero_obj_def class_of_def)

lemma demo_group: "group_ok (demo st)"
proof -
  have "bit (0x80000020 :: u32) p \<longleftrightarrow> p = 5 \<or> p = 31" if "p < 32" for p
  proof -
    have "\<forall>p\<in>set [0..<32]. bit (0x80000020 :: u32) p \<longleftrightarrow> p = 5 \<or> p = 31" by code_simp
    then show ?thesis using that by simp
  qed
  then show ?thesis by (simp add: group_ok_def)
qed

lemma demo_kinv: "st AND 7 = 3 \<Longrightarrow> kinv (demo st)"
  unfolding kinv_def
  by (auto simp: demo_rings demo_threads_ok demo_timers_ok demo_group obj_ok_def cur_ok_def lock_ok_def demo_status zero_obj_def)

text \<open>The same system with thread 4 waiting in list \<open>l\<close>.\<close>

definition demo_in :: "thread_list \<Rightarrow> kernel" where
  "demo_in l = (demo 3)\<lparr>thread_rings :=
     \<lparr>ring = (\<lambda>m. if m = Ready 5 then [2] else if m = Ready 31 then [3] else if m = l then [4] else []),
      home = (\<lambda>t. if t = 2 then Some (Ready 5) else if t = 3 then Some (Ready 31) else if t = 4 then Some l else None)\<rparr>\<rparr>"

lemma demo_in_simps [simp]:
  "thread_rings (demo_in l) =
     \<lparr>ring = (\<lambda>m. if m = Ready 5 then [2] else if m = Ready 31 then [3] else if m = l then [4] else []),
      home = (\<lambda>t. if t = 2 then Some (Ready 5) else if t = 3 then Some (Ready 31) else if t = 4 then Some l else None)\<rparr>"
  "threads (demo_in l) = threads (demo 3)" "timers (demo_in l) = timers (demo 3)" "objs (demo_in l) = objs (demo 3)"
  "timer_rings (demo_in l) = timer_rings (demo 3)" "object_rings (demo_in l) = object_rings (demo 3)"
  "rt_current_thread (demo_in l) = Some 1" "mailboxes (demo_in l) = mailboxes (demo 3)" "msgqueues (demo_in l) = msgqueues (demo 3)"
  "mempools (demo_in l) = mempools (demo 3)" "mp_mem (demo_in l) = mp_mem (demo 3)"
  "events (demo_in l) = events (demo 3)" "mutexes (demo_in l) = mutexes (demo 3)" "rt_scheduler_lock_nest (demo_in l) = 0"
  "rt_interrupt_nest (demo_in l) = 0" "live (demo_in l) x \<longleftrightarrow> x \<in> set demo_live" "status (demo_in l) = status (demo 3)"
  by (simp_all add: demo_in_def live_def status_def fun_eq_iff)

lemma demo_in_kinv:
  assumes "l = Suspended x \<or> l = SenderSuspended x \<and> has_senders x" "x \<in> set demo_live" "is_ipc x"
  shows "kinv (demo_in l)"
proof -
  have l: "l \<noteq> Ready p" "Ready p \<noteq> l" "l \<noteq> Defunct" for p using assms(1) by auto
  have "rings_all_ok (demo_in l)"
    using demo_rings [of 3] l unfolding rings_all_ok_def by (auto simp: rings_ok_def)
  moreover have "thread_ok (demo_in l) t" for t
    using demo_threads_ok [of 3 t] assms l
    by (auto simp: thread_ok_def place_ok_def waits_on_def demo_status demo_live_iff thread_timer_alive_def thread_prio_def)
  moreover have "group_ok (demo_in l)" using demo_group [of 3] l by (simp add: group_ok_def demo_in_def)
  moreover have "timer_ok (demo_in l) r" for r
    using demo_timers_ok [of 3 r] by (simp add: timer_ok_def timer_flag_def is_static_def demo_live_iff demo_in_def live_def timer_place_ok_def thread_prio_def status_def)
  moreover have "obj_ok (demo_in l) y" for y by (simp add: obj_ok_def zero_obj_def)
  moreover have "cur_ok (demo_in l)" "lock_ok (demo_in l)" using demo_kinv [of 3] by (simp_all add: kinv_def cur_ok_def lock_ok_def)
  ultimately show ?thesis by (simp add: kinv_def)
qed
end
