(* ===== verification/RT_Scheduler.thy ===== *)
theory RT_Scheduler
  imports RT_Demo
begin

section \<open>The scheduler: \<^verbatim>\<open>src/scheduler.c\<close>, and the nesting counter of \<^verbatim>\<open>src/irq.c\<close>\<close>

text \<open>
  The uniprocessor scheduler. \<open>rt_schedule\<close> chooses the next current thread; the register switch
  itself (\<^verbatim>\<open>rt_hw_context_switch\<close>) has no further effect on the kernel state. An access to
  \<^verbatim>\<open>rt_thread_priority_table\<close> outside its 32 entries, or to the first entry of an empty list, has
  no result.
\<close>

subsection \<open>Operations\<close>

definition set_stat :: "u8 \<Rightarrow> rt_thread \<Rightarrow> rt_thread" where
  "set_stat v th = th\<lparr>th_stat := v OR (th_stat th AND NOT RT_THREAD_STAT_MASK)\<rparr>"

definition scheduler_get_highest_priority_thread :: "kernel \<Rightarrow> (tid \<times> nat) option" where
  "scheduler_get_highest_priority_thread s =
     (let n = rt_ffs (rt_thread_ready_priority_group s) in
      if n = 0 then None
      else (case ring (thread_rings s) (Ready (n - 1)) of [] \<Rightarrow> None | t # _ \<Rightarrow> Some (t, n - 1)))"

definition rt_schedule_insert_thread :: "tid \<Rightarrow> kernel \<Rightarrow> kernel option" where
  "rt_schedule_insert_thread t s =
     (if rt_current_thread s = Some t then Some (upd_thread t (set_stat RT_THREAD_RUNNING) s)
      else do {
        let s = upd_thread t (set_stat RT_THREAD_READY) s;
        RT_ASSERT (thread_prio s t < RT_THREAD_PRIORITY_MAX);
        R \<leftarrow> ring_insert_tail (Ready (thread_prio s t)) t (thread_rings s);
        Some (s\<lparr>thread_rings := R,
                rt_thread_ready_priority_group :=
                  rt_thread_ready_priority_group s OR th_number_mask (threads s t)\<rparr>)
      })"

definition rt_schedule_remove_thread :: "tid \<Rightarrow> kernel \<Rightarrow> kernel option" where
  "rt_schedule_remove_thread t s = do {
     let s = s\<lparr>thread_rings := ring_remove t (thread_rings s)\<rparr>;
     RT_ASSERT (thread_prio s t < RT_THREAD_PRIORITY_MAX);
     Some (if ring (thread_rings s) (Ready (thread_prio s t)) = []
           then s\<lparr>rt_thread_ready_priority_group :=
                    rt_thread_ready_priority_group s AND NOT (th_number_mask (threads s t))\<rparr>
           else s)
   }"

definition clear_yield :: "rt_thread \<Rightarrow> rt_thread" where
  "clear_yield th = th\<lparr>th_stat := th_stat th AND NOT RT_THREAD_STAT_YIELD\<rparr>"

definition rt_schedule :: "kernel \<Rightarrow> kernel option" where
  "rt_schedule s =
     (if rt_scheduler_lock_nest s = 0 \<and> rt_thread_ready_priority_group s \<noteq> 0
      then do {
        (highest, hp) \<leftarrow> scheduler_get_highest_priority_thread s;
        cur \<leftarrow> rt_current_thread s;
        let running = (status s cur = RT_THREAD_RUNNING);
        let stay = (running \<and> (thread_prio s cur < hp \<or>
              thread_prio s cur = hp \<and> th_stat (threads s cur) AND RT_THREAD_STAT_YIELD = 0));
        let to_thread = (if stay then cur else highest);
        let need_insert_from_thread = (running \<and> \<not> stay);
        let s = (if running then upd_thread cur clear_yield s else s);
        if to_thread \<noteq> cur then do {
          let s = s\<lparr>rt_current_priority := of_nat hp, rt_current_thread := Some to_thread\<rparr>;
          s \<leftarrow> (if need_insert_from_thread then rt_schedule_insert_thread cur s else Some s);
          s \<leftarrow> rt_schedule_remove_thread to_thread s;
          Some (upd_thread to_thread (set_stat RT_THREAD_RUNNING) s)
        } else do {
          s \<leftarrow> rt_schedule_remove_thread cur s;
          Some (upd_thread cur (set_stat RT_THREAD_RUNNING) s)
        }
      }
      else Some s)"

definition rt_system_scheduler_init :: "kernel \<Rightarrow> kernel option" where
  "rt_system_scheduler_init s = do {
     let s = s\<lparr>rt_scheduler_lock_nest := 0\<rparr>;
     RT_ASSERT (\<forall>offset \<in> set [0..<RT_THREAD_PRIORITY_MAX]. ring (thread_rings s) (Ready offset) = []);
     Some (s\<lparr>rt_thread_ready_priority_group := 0\<rparr>)
   }"

definition rt_system_scheduler_start :: "kernel \<Rightarrow> kernel option" where
  "rt_system_scheduler_start s = do {
     (to_thread, hp) \<leftarrow> scheduler_get_highest_priority_thread s;
     let s = s\<lparr>rt_current_thread := Some to_thread\<rparr>;
     s \<leftarrow> rt_schedule_remove_thread to_thread s;
     Some (upd_thread to_thread (\<lambda>th. th\<lparr>th_stat := RT_THREAD_RUNNING\<rparr>) s)
   }"

definition rt_enter_critical :: "kernel \<Rightarrow> kernel" where
  "rt_enter_critical s = s\<lparr>rt_scheduler_lock_nest := rt_scheduler_lock_nest s + 1\<rparr>"

definition rt_exit_critical :: "kernel \<Rightarrow> kernel option" where
  "rt_exit_critical s =
     (let s = s\<lparr>rt_scheduler_lock_nest := rt_scheduler_lock_nest s - 1\<rparr> in
      if sint (rt_scheduler_lock_nest s) \<le> 0 then
        let s = s\<lparr>rt_scheduler_lock_nest := 0\<rparr> in
        if rt_current_thread s \<noteq> None then rt_schedule s else Some s
      else Some s)"

definition rt_critical_level :: "kernel \<Rightarrow> u16" where
  "rt_critical_level s = rt_scheduler_lock_nest s"

definition rt_interrupt_enter :: "kernel \<Rightarrow> kernel" where
  "rt_interrupt_enter s = s\<lparr>rt_interrupt_nest := rt_interrupt_nest s + 1\<rparr>"

definition rt_interrupt_leave :: "kernel \<Rightarrow> kernel" where
  "rt_interrupt_leave s = s\<lparr>rt_interrupt_nest := rt_interrupt_nest s - 1\<rparr>"

definition rt_interrupt_get_nest :: "kernel \<Rightarrow> u8" where
  "rt_interrupt_get_nest s = rt_interrupt_nest s"

text \<open>The context checks of \<^verbatim>\<open>rtdebug.h\<close>.\<close>

definition RT_DEBUG_NOT_IN_INTERRUPT :: "kernel \<Rightarrow> unit option" where
  "RT_DEBUG_NOT_IN_INTERRUPT s = RT_ASSERT (rt_interrupt_get_nest s = 0)"

definition RT_DEBUG_IN_THREAD_CONTEXT :: "kernel \<Rightarrow> unit option" where
  "RT_DEBUG_IN_THREAD_CONTEXT s = do {
     RT_ASSERT (rt_current_thread s \<noteq> None);
     RT_DEBUG_NOT_IN_INTERRUPT s
   }"

definition RT_DEBUG_SCHEDULER_AVAILABLE :: "bool \<Rightarrow> kernel \<Rightarrow> unit option" where
  "RT_DEBUG_SCHEDULER_AVAILABLE need_check s =
     (if need_check then do {
        RT_ASSERT (rt_critical_level s = 0);
        RT_DEBUG_IN_THREAD_CONTEXT s
      } else Some ())"

subsection \<open>Status bits\<close>

lemma status_set_stat [simp]:
  "v AND 7 = v \<Longrightarrow> th_stat (set_stat v th) AND 7 = (v :: u8)"
  by (simp add: set_stat_def bit.conj_disj_distrib2 and.assoc)

lemma status_clear_yield [simp]: "th_stat (clear_yield th) AND 7 = th_stat th AND 7"
  by (simp add: clear_yield_def and.assoc)

lemma status_set_yield [simp]: "(st OR 8) AND 7 = (st AND 7 :: u8)"
  by (simp add: bit.conj_disj_distrib2)

lemma set_stat_fields [simp]:
  "th_current_priority (set_stat v th) = th_current_priority th"
  "th_number_mask (set_stat v th) = th_number_mask th"
  "th_error (set_stat v th) = th_error th"
  "th_remaining_tick (set_stat v th) = th_remaining_tick th"
  "th_init_tick (set_stat v th) = th_init_tick th"
  by (simp_all add: set_stat_def)

lemma clear_yield_fields [simp]:
  "th_current_priority (clear_yield th) = th_current_priority th"
  "th_number_mask (clear_yield th) = th_number_mask th"
  "th_error (clear_yield th) = th_error th"
  "th_remaining_tick (clear_yield th) = th_remaining_tick th"
  "th_init_tick (clear_yield th) = th_init_tick th"
  by (simp_all add: clear_yield_def)

subsection \<open>Frames\<close>

text \<open>
  The scheduler and the thread and timer operations below change only these components of the state.
\<close>

definition core_step :: "kernel \<Rightarrow> kernel \<Rightarrow> bool" where
  "core_step s s' \<longleftrightarrow> object_rings s' = object_rings s \<and> heap s' = heap s \<and>
     rt_scheduler_lock_nest s' = rt_scheduler_lock_nest s \<and> rt_interrupt_nest s' = rt_interrupt_nest s \<and>
     rt_tick s' = rt_tick s \<and> soft_timer_busy s' = soft_timer_busy s \<and> timer_thread s' = timer_thread s \<and>
     idle_thread s' = idle_thread s \<and> idle_hook_list s' = idle_hook_list s \<and>
     sems s' = sems s \<and> mutexes s' = mutexes s \<and> events s' = events s \<and> mailboxes s' = mailboxes s \<and>
     msgqueues s' = msgqueues s \<and> mempools s' = mempools s \<and> mp_mem s' = mp_mem s \<and>
     small_mems s' = small_mems s \<and> sm_items s' = sm_items s \<and> sm_bytes s' = sm_bytes s \<and> system_heap s' = system_heap s \<and> rt_errno s' = rt_errno s \<and>
     memheaps s' = memheaps s \<and> mh_items s' = mh_items s \<and> devices s' = devices s \<and>
     (\<forall>x. ob_type (objs s' x) = ob_type (objs s x)) \<and>
     (\<forall>x. (\<forall>r. x \<noteq> OTimer r) \<longrightarrow> objs s' x = objs s x)"

lemma core_step_refl [simp]: "core_step s s"
  by (simp add: core_step_def)

lemma core_step_trans [trans]: "core_step s s' \<Longrightarrow> core_step s' s'' \<Longrightarrow> core_step s s''"
  by (simp add: core_step_def)

lemma core_step_live: "core_step s s' \<Longrightarrow> live s' = live s"
  by (simp add: core_step_def live_def fun_eq_iff)

text \<open>The scheduler proper also leaves all timers alone, and of a thread it changes only the status.\<close>

definition sched_step :: "kernel \<Rightarrow> kernel \<Rightarrow> bool" where
  "sched_step s s' \<longleftrightarrow> core_step s s' \<and> timers s' = timers s \<and> objs s' = objs s \<and>
     timer_rings s' = timer_rings s \<and>
     (\<forall>t. (threads s' t)\<lparr>th_stat := 0\<rparr> = (threads s t)\<lparr>th_stat := 0\<rparr>)"

lemma sched_step_refl [simp]: "sched_step s s"
  by (simp add: sched_step_def)

lemma sched_step_trans [trans]: "sched_step s s' \<Longrightarrow> sched_step s' s'' \<Longrightarrow> sched_step s s''"
  by (auto simp: sched_step_def intro: core_step_trans)

lemma sched_step_core: "sched_step s s' \<Longrightarrow> core_step s s'"
  by (simp add: sched_step_def)

lemma sched_step_thread:
  assumes "sched_step s s'"
  shows "th_current_priority (threads s' t) = th_current_priority (threads s t)"
    "th_number_mask (threads s' t) = th_number_mask (threads s t)"
    "th_error (threads s' t) = th_error (threads s t)" "thread_prio s' t = thread_prio s t"
    "th_remaining_tick (threads s' t) = th_remaining_tick (threads s t)"
    "th_init_tick (threads s' t) = th_init_tick (threads s t)"
    "th_event_set (threads s' t) = th_event_set (threads s t)"
    "th_event_info (threads s' t) = th_event_info (threads s t)"
  using assms unfolding sched_step_def thread_prio_def by (auto dest!: spec [of _ t] simp: rt_thread.defs
      intro: rt_thread.cases [of "threads s t", OF rt_thread.cases [of "threads s' t"]])

lemma set_stat_other [simp]: "(set_stat v th)\<lparr>th_stat := x\<rparr> = th\<lparr>th_stat := x\<rparr>"
  "(clear_yield th)\<lparr>th_stat := x\<rparr> = th\<lparr>th_stat := x\<rparr>"
  by (simp_all add: set_stat_def clear_yield_def)

subsection \<open>The ready table\<close>

lemma insert_thread_eq:
  assumes "rt_current_thread s \<noteq> Some t" "thread_prio s t < 32" "home (thread_rings s) t = None"
  shows "rt_schedule_insert_thread t s =
    Some (s\<lparr>threads := (threads s)(t := set_stat RT_THREAD_READY (threads s t)),
            thread_rings := (thread_rings s)\<lparr>ring := (ring (thread_rings s))(Ready (thread_prio s t) :=
                ring (thread_rings s) (Ready (thread_prio s t)) @ [t]),
              home := (home (thread_rings s))(t := Some (Ready (thread_prio s t)))\<rparr>,
            rt_thread_ready_priority_group :=
              rt_thread_ready_priority_group s OR th_number_mask (threads s t)\<rparr>)"
  using assms by (simp add: rt_schedule_insert_thread_def upd_thread_def thread_prio_def ring_insert_tail_def Let_def)

lemma remove_thread_eq:
  assumes "thread_prio s t < 32"
  shows "rt_schedule_remove_thread t s =
    Some (s\<lparr>thread_rings := ring_remove t (thread_rings s),
            rt_thread_ready_priority_group :=
              (if ring (ring_remove t (thread_rings s)) (Ready (thread_prio s t)) = []
               then rt_thread_ready_priority_group s AND NOT (th_number_mask (threads s t))
               else rt_thread_ready_priority_group s)\<rparr>)"
  using assms by (simp add: rt_schedule_remove_thread_def thread_prio_def Let_def)

lemma group_ok_insert:
  assumes "group_ok s" "rt_schedule_insert_thread t s = Some s'"
    and mask: "th_number_mask (threads s t) = 2 ^ thread_prio s t"
  shows "group_ok s'"
  using assms
  by (auto simp: rt_schedule_insert_thread_def upd_thread_def group_ok_def Let_def ring_insert_tail_Some
      thread_prio_def bit_simps split: if_splits bind_splits)

lemma group_ok_remove:
  assumes grp: "group_ok s" and rm: "rt_schedule_remove_thread t s = Some s'"
    and mask: "th_number_mask (threads s t) = 2 ^ thread_prio s t" and ok: "rings_ok (thread_rings s)"
    and home: "\<And>p. home (thread_rings s) t = Some (Ready p) \<Longrightarrow> p = thread_prio s t"
  shows "group_ok s'"
proof -
  have lt: "thread_prio s t < 32"
    using rm by (auto simp: rt_schedule_remove_thread_def thread_prio_def Let_def split: bind_splits)
  have same: "ring (ring_remove t (thread_rings s)) (Ready p) = ring (thread_rings s) (Ready p)"
    if "p \<noteq> thread_prio s t" for p
    using home [of p] that by (auto simp: ring_remove_def split: option.splits)
  have "ring (thread_rings s) (Ready (thread_prio s t)) \<noteq> []"
    if "ring (ring_remove t (thread_rings s)) (Ready (thread_prio s t)) \<noteq> []"
    using that by (auto simp: ring_ring_remove [OF ok])
  then have own: "bit (rt_thread_ready_priority_group s') (thread_prio s t) \<longleftrightarrow>
      ring (thread_rings s') (Ready (thread_prio s t)) \<noteq> []"
    using grp rm lt by (auto simp: remove_thread_eq [OF lt] group_ok_def mask bit_simps)
  have "bit (rt_thread_ready_priority_group s') p \<longleftrightarrow> ring (thread_rings s') (Ready p) \<noteq> []"
    if "p < 32" "p \<noteq> thread_prio s t" for p
    using grp rm that same [OF that(2)]
    by (auto simp: remove_thread_eq [OF lt] group_ok_def mask bit_simps split: if_splits)
  with own show ?thesis unfolding group_ok_def by metis
qed

lemma remove_unlinked_eq:
  assumes "home (thread_rings s) t = None" "group_ok s" "thread_prio s t < 32"
    "th_number_mask (threads s t) = 2 ^ thread_prio s t"
  shows "rt_schedule_remove_thread t s = Some s"
proof -
  have "rt_thread_ready_priority_group s AND NOT (2 ^ thread_prio s t) = rt_thread_ready_priority_group s"
    if "ring (thread_rings s) (Ready (thread_prio s t)) = []"
    using assms that by (intro bit_word_eqI) (auto simp: group_ok_def bit_simps)
  then show ?thesis using assms by (simp add: remove_thread_eq ring_remove_unlinked)
qed

text \<open>The bit map leads to a thread of the numerically lowest ready priority, the first of its list.\<close>

lemma highest_thread:
  assumes inv: "kinv s" and grp: "rt_thread_ready_priority_group s \<noteq> 0"
  obtains t hp ts where "scheduler_get_highest_priority_thread s = Some (t, hp)"
    "ring (thread_rings s) (Ready hp) = t # ts" "status s t = RT_THREAD_READY" "thread_prio s t = hp" "hp < 32"
    "\<And>u. status s u = RT_THREAD_READY \<Longrightarrow> hp \<le> thread_prio s u"
proof -
  obtain hp where ffs: "rt_ffs (rt_thread_ready_priority_group s) = hp + 1"
    and low: "lowest (rt_thread_ready_priority_group s) hp"
    using rt_ffs_lowest [OF grp] by blast
  have hp: "hp < 32" using lowest_less [OF low] by simp
  have grp_ok: "group_ok s" using inv by (rule kinvD)
  then have "ring (thread_rings s) (Ready hp) \<noteq> []"
    using low hp by (auto simp: group_ok_def lowest_def)
  then obtain t ts where ring: "ring (thread_rings s) (Ready hp) = t # ts" by (meson neq_Nil_conv)
  have t: "status s t = RT_THREAD_READY \<and> thread_prio s t = hp"
    using kinv_ready_iff [OF inv, of t hp] by (simp add: ring)
  have min: "hp \<le> thread_prio s u" if "status s u = RT_THREAD_READY" for u
  proof (rule ccontr)
    assume less: "\<not> hp \<le> thread_prio s u"
    have "u \<in> set (ring (thread_rings s) (Ready (thread_prio s u)))"
      using kinv_ready_iff [OF inv] that by simp
    then have "bit (rt_thread_ready_priority_group s) (thread_prio s u)"
      using grp_ok less hp by (auto simp: group_ok_def)
    with low less show False by (simp add: lowest_def)
  qed
  show thesis
    using that [of t hp ts] ffs ring t hp min by (simp add: scheduler_get_highest_priority_thread_def Let_def)
qed

lemma group_zero_iff: "kinv s \<Longrightarrow> rt_thread_ready_priority_group s = 0 \<longleftrightarrow> (\<forall>t. status s t \<noteq> RT_THREAD_READY)"
proof
  assume inv: "kinv s" and z: "rt_thread_ready_priority_group s = 0"
  show "\<forall>t. status s t \<noteq> RT_THREAD_READY"
  proof (intro allI notI)
    fix t assume t: "status s t = RT_THREAD_READY"
    have "ring (thread_rings s) (Ready (thread_prio s t)) \<noteq> []"
      using kinv_ready_iff [OF inv, of t "thread_prio s t"] t by auto
    then show False
      using kinvD(7) [OF inv] kinv_ready_prio [OF inv] z by (auto simp: group_ok_def)
  qed
next
  assume "kinv s" "\<forall>t. status s t \<noteq> RT_THREAD_READY"
  then show "rt_thread_ready_priority_group s = 0" by (metis highest_thread)
qed

subsection \<open>One scheduling decision\<close>

text \<open>The thread \<open>rt_schedule\<close> keeps running: the current one unless a ready thread must take over.\<close>

definition keeps_running :: "kernel \<Rightarrow> tid \<Rightarrow> nat \<Rightarrow> bool" where
  "keeps_running s cur hp \<longleftrightarrow> status s cur = RT_THREAD_RUNNING \<and>
     (thread_prio s cur < hp \<or> thread_prio s cur = hp \<and> th_stat (threads s cur) AND RT_THREAD_STAT_YIELD = 0)"

lemma rt_schedule_idle:
  "rt_scheduler_lock_nest s \<noteq> 0 \<or> rt_thread_ready_priority_group s = 0 \<Longrightarrow> rt_schedule s = Some s"
  by (auto simp: rt_schedule_def)

lemma rt_schedule_stay:
  assumes inv: "kinv s" and cur: "rt_current_thread s = Some c" and lock: "rt_scheduler_lock_nest s = 0"
    and high: "scheduler_get_highest_priority_thread s = Some (t, hp)" and grp: "rt_thread_ready_priority_group s \<noteq> 0"
    and stay: "keeps_running s c hp"
  shows "rt_schedule s = Some (upd_thread c (\<lambda>th. set_stat RT_THREAD_RUNNING (clear_yield th)) s)"
proof -
  have run: "status s c = RT_THREAD_RUNNING" using stay by (simp add: keeps_running_def)
  let ?s = "upd_thread c clear_yield s"
  have "rt_schedule_remove_thread c ?s = Some ?s"
    by (rule remove_unlinked_eq)
      (use kinv_running_unlinked [OF inv run] kinvD(7) [OF inv] kinv_active [OF inv, of c] run
        in \<open>auto simp: upd_thread_def thread_prio_def group_ok_def\<close>)
  then show ?thesis
    using cur lock high grp stay
    by (auto simp: rt_schedule_def Let_def keeps_running_def upd_thread_def)
qed

lemma rt_schedule_switch:
  assumes cur: "rt_current_thread s = Some c" and lock: "rt_scheduler_lock_nest s = 0"
    and high: "scheduler_get_highest_priority_thread s = Some (t, hp)" and grp: "rt_thread_ready_priority_group s \<noteq> 0"
    and go: "\<not> keeps_running s c hp" and ne: "t \<noteq> c"
  shows "rt_schedule s = do {
      let s = (if status s c = RT_THREAD_RUNNING then upd_thread c clear_yield s else s);
      let s1 = s\<lparr>rt_current_priority := of_nat hp, rt_current_thread := Some t\<rparr>;
      s2 \<leftarrow> (if status s c = RT_THREAD_RUNNING then rt_schedule_insert_thread c s1 else Some s1);
      s3 \<leftarrow> rt_schedule_remove_thread t s2;
      Some (upd_thread t (set_stat RT_THREAD_RUNNING) s3)
    }"
  using assms by (auto simp: rt_schedule_def keeps_running_def Let_def status_def upd_thread_def)

lemma insert_thread_result:
  assumes "rt_current_thread s \<noteq> Some t" "thread_prio s t < 32" "home (thread_rings s) t = None"
    "th_number_mask (threads s t) = 2 ^ thread_prio s t" "group_ok s" "rings_ok (thread_rings s)"
  obtains s' where "rt_schedule_insert_thread t s = Some s'"
    "threads s' = (threads s)(t := set_stat RT_THREAD_READY (threads s t))"
    "home (thread_rings s') = (home (thread_rings s))(t := Some (Ready (thread_prio s t)))"
    "ring (thread_rings s') = (ring (thread_rings s))(Ready (thread_prio s t) :=
       ring (thread_rings s) (Ready (thread_prio s t)) @ [t])"
    "group_ok s'" "rings_ok (thread_rings s')" "sched_step s s'" "rt_current_thread s' = rt_current_thread s"
    "thread_prio s' = thread_prio s"
proof -
  obtain s' where s': "rt_schedule_insert_thread t s = Some s'"
    using insert_thread_eq [OF assms(1-3)] by blast
  have "rings_ok (thread_rings s')"
    using rings_ok_insert_tail [OF assms(6), of "Ready (thread_prio s t)" t] s' insert_thread_eq [OF assms(1-3)] assms(3)
    by (auto simp: ring_insert_tail_def)
  then show thesis
    using that [OF s'] group_ok_insert [OF assms(5) s' assms(4)] s' insert_thread_eq [OF assms(1-3)]
    by (auto simp: sched_step_def core_step_def thread_prio_def fun_eq_iff)
qed

text \<open>The ready lists after a switch from \<open>c\<close> to \<open>t\<close>, the first thread of list \<open>hp\<close>.\<close>

definition requeue :: "bool \<Rightarrow> tid \<Rightarrow> nat \<Rightarrow> nat \<Rightarrow> (nat \<Rightarrow> tid list) \<Rightarrow> nat \<Rightarrow> tid list" where
  "requeue run c cp hp q =
     (let q = (if run then q(cp := q cp @ [c]) else q) in q(hp := tl (q hp)))"

lemma remove1_hd: "xs = t # ys \<Longrightarrow> remove1 t xs = tl xs" "xs = t # ys \<Longrightarrow> remove1 t (xs @ zs) = tl (xs @ zs)"
  by auto

lemma rt_schedule_switch_result:
  assumes inv: "kinv s" and cur: "rt_current_thread s = Some c" and lock: "rt_scheduler_lock_nest s = 0"
    and high: "scheduler_get_highest_priority_thread s = Some (t, hp)" and grp: "rt_thread_ready_priority_group s \<noteq> 0"
    and go: "\<not> keeps_running s c hp"
    and t: "ring (thread_rings s) (Ready hp) = t # ts" "status s t = RT_THREAD_READY" "thread_prio s t = hp" "hp < 32"
  obtains s' where "rt_schedule s = Some s'"
    "threads s' = (threads s)(c := (if status s c = RT_THREAD_RUNNING
        then set_stat RT_THREAD_READY (clear_yield (threads s c)) else threads s c),
      t := set_stat RT_THREAD_RUNNING (threads s t))"
    "home (thread_rings s') = (home (thread_rings s))(c := (if status s c = RT_THREAD_RUNNING
        then Some (Ready (thread_prio s c)) else home (thread_rings s) c), t := None)"
    "\<And>p. ring (thread_rings s') (Ready p) = requeue (status s c = RT_THREAD_RUNNING) c (thread_prio s c) hp
        (\<lambda>p. ring (thread_rings s) (Ready p)) p"
    "\<And>l. (\<And>p. l \<noteq> Ready p) \<Longrightarrow> ring (thread_rings s') l = ring (thread_rings s) l"
    "rings_ok (thread_rings s')" "group_ok s'" "rt_current_thread s' = Some t" "sched_step s s'"
proof -
  have ne: "t \<noteq> c" using kinv_cur [OF inv cur] t(2) by auto
  let ?run = "status s c = RT_THREAD_RUNNING"
  define s1 where "s1 = (if ?run then upd_thread c clear_yield s else s)
      \<lparr>rt_current_priority := of_nat hp, rt_current_thread := Some t\<rparr>"
  have st: "status (upd_thread c clear_yield s) c = status s c"
    by (simp add: upd_thread_def status_def)
  have s1: "thread_rings s1 = thread_rings s" "rt_current_thread s1 = Some t"
    "rt_thread_ready_priority_group s1 = rt_thread_ready_priority_group s" "group_ok s1"
    "threads s1 = (threads s)(c := (if ?run then clear_yield (threads s c) else threads s c))"
    "sched_step s s1" "thread_prio s1 = thread_prio s"
    using kinvD(7) [OF inv]
    by (auto simp: s1_def upd_thread_def group_ok_def sched_step_def core_step_def thread_prio_def fun_eq_iff)
  obtain s2 where ins: "(if ?run then rt_schedule_insert_thread c s1 else Some s1) = Some s2"
    and g2: "group_ok s2" and c2: "rt_current_thread s2 = Some t" and p2: "thread_prio s2 = thread_prio s"
    and th2: "threads s2 = (threads s)(c := (if ?run then set_stat RT_THREAD_READY (clear_yield (threads s c)) else threads s c))"
    and h2: "home (thread_rings s2) = (home (thread_rings s))(c := (if ?run then Some (Ready (thread_prio s c)) else home (thread_rings s) c))"
    and r2: "ring (thread_rings s2) = (ring (thread_rings s))(Ready (thread_prio s c) :=
        (if ?run then ring (thread_rings s) (Ready (thread_prio s c)) @ [c] else ring (thread_rings s) (Ready (thread_prio s c))))"
    and o2: "rings_ok (thread_rings s2)" and f2: "sched_step s s2"
  proof (cases ?run)
    case True
    have c: "rt_current_thread s1 \<noteq> Some c" "thread_prio s1 c < 32" "home (thread_rings s1) c = None"
      "th_number_mask (threads s1 c) = 2 ^ thread_prio s1 c"
      using ne s1 kinv_active(2,3) [OF inv, of c] kinv_running_unlinked [OF inv True] True by auto
    obtain s2 where s2: "rt_schedule_insert_thread c s1 = Some s2"
      "threads s2 = (threads s1)(c := set_stat RT_THREAD_READY (threads s1 c))"
      "home (thread_rings s2) = (home (thread_rings s1))(c := Some (Ready (thread_prio s1 c)))"
      "ring (thread_rings s2) = (ring (thread_rings s1))(Ready (thread_prio s1 c) :=
         ring (thread_rings s1) (Ready (thread_prio s1 c)) @ [c])"
      "group_ok s2" "rings_ok (thread_rings s2)" "sched_step s1 s2" "rt_current_thread s2 = rt_current_thread s1"
      "thread_prio s2 = thread_prio s1"
      using insert_thread_result [OF c s1(4)] kinvD(1) [OF inv] s1(1) by metis
    show thesis
      using that [of s2] True s2 s1 sched_step_trans [OF s1(6) s2(7)] by simp
  next
    case False
    show thesis using that [of s1] False s1 kinvD(1) [OF inv] by simp
  qed
  have mask2: "th_number_mask (threads s2 t) = 2 ^ thread_prio s2 t" "thread_prio s2 t < 32"
    using kinv_active(2) [OF inv, of t] t ne th2 p2 by auto
  have home2: "home (thread_rings s2) t = Some (Ready hp)"
    using rings_ok_home [OF kinvD(1) [OF inv], of t "Ready hp"] t(1) ne h2 by simp
  obtain s3 where s3: "rt_schedule_remove_thread t s2 = Some s3" using remove_thread_eq [OF mask2(2)] by blast
  have g3: "group_ok s3"
    using group_ok_remove [OF g2 s3 mask2(1) o2] home2 p2 t(3) by auto
  have eq: "rt_schedule s = Some (upd_thread t (set_stat RT_THREAD_RUNNING) s3)"
    using rt_schedule_switch [OF cur lock high grp go ne] ins s3 st
    by (auto simp: s1_def Let_def)
  let ?s4 = "upd_thread t (set_stat RT_THREAD_RUNNING) s3"
  have r3: "thread_rings s3 = ring_remove t (thread_rings s2)" "threads s3 = threads s2"
    "rt_current_thread s3 = Some t" "sched_step s s3"
    using s3 remove_thread_eq [OF mask2(2)] c2 f2 by (auto simp: sched_step_def core_step_def)
  show thesis
  proof (rule that [OF eq])
    show "ring (thread_rings ?s4) (Ready p) = requeue ?run c (thread_prio s c) hp (\<lambda>p. ring (thread_rings s) (Ready p)) p" for p
      using home2 t(1) r2 by (auto simp: upd_thread_def r3 ring_remove_def requeue_def Let_def)
    show "ring (thread_rings ?s4) l = ring (thread_rings s) l" if "\<And>p. l \<noteq> Ready p" for l
      using home2 r2 that by (auto simp: upd_thread_def r3 ring_remove_def)
    show "sched_step s ?s4"
      using r3(4) by (auto simp: sched_step_def core_step_def upd_thread_def)
  qed (use r3 g3 ne th2 h2 o2 in \<open>auto simp: upd_thread_def group_ok_def fun_eq_iff\<close>)
qed

lemma kinv_stay:
  assumes inv: "kinv s" and cur: "rt_current_thread s = Some c" and run: "status s c = RT_THREAD_RUNNING"
  shows "kinv (upd_thread c (\<lambda>th. set_stat RT_THREAD_RUNNING (clear_yield th)) s)" (is "kinv ?s")
proof -
  have st: "status ?s u = status s u" "thread_prio ?s u = thread_prio s u" "live ?s x = live s x" for u x
    using run by (auto simp: status_def upd_thread_def thread_prio_def live_def)
  show ?thesis
  proof (rule kinv_threads_cong [OF inv, where T = "{c}"])
    show "thread_ok ?s t" if "t \<in> {c}" for t
      using kinvD(5) [OF inv, of t] that
      by (simp add: thread_ok_def thread_timer_alive_def st) (simp add: upd_thread_def)
    show "status ?s t = RT_THREAD_SUSPEND"
      if "t \<in> {c}" "home (timer_rings s) (ThreadTimer t) = Some HardTimers" for t
      using kinvD(6) [OF inv, of "ThreadTimer t"] that by (simp add: st timer_ok_def)
    show "cur_ok ?s" using kinvD(8) [OF inv] by (simp add: cur_ok_def st) (simp add: upd_thread_def)
  qed (use kinvD [OF inv] in \<open>auto simp: upd_thread_def group_ok_def\<close>)
qed

text \<open>
  What a call of \<open>rt_schedule\<close> does, for its clients: \<open>c\<close> is the current thread before and \<open>n\<close> after.
\<close>

definition schedules :: "kernel \<Rightarrow> kernel \<Rightarrow> bool" where
  "schedules s s' \<longleftrightarrow> kinv s' \<and> sched_step s s' \<and>
     rt_current_thread s \<noteq> None \<and> rt_current_thread s' \<noteq> None \<and>
     (rt_current_thread s' = rt_current_thread s \<or>
        (\<exists>n. rt_current_thread s' = Some n \<and> status s n = RT_THREAD_READY)) \<and>
     (\<forall>u. status s' u = status s u \<and> home (thread_rings s') u = home (thread_rings s) u \<or>
        rt_current_thread s = Some u \<and> rt_current_thread s' \<noteq> Some u \<and>
          status s u = RT_THREAD_RUNNING \<and> status s' u = RT_THREAD_READY \<or>
        status s u = RT_THREAD_READY \<and> status s' u = RT_THREAD_RUNNING \<and> rt_current_thread s' = Some u) \<and>
     (\<forall>u. rt_current_thread s \<noteq> Some u \<and> rt_current_thread s' \<noteq> Some u \<longrightarrow> threads s' u = threads s u) \<and>
     (\<forall>u. status s u \<noteq> RT_THREAD_RUNNING \<and> status s u \<noteq> RT_THREAD_READY \<longrightarrow> threads s' u = threads s u) \<and>
     (\<forall>l. (\<forall>p. l \<noteq> Ready p) \<longrightarrow> ring (thread_rings s') l = ring (thread_rings s) l)"

lemma schedules_refl: "kinv s \<Longrightarrow> rt_current_thread s \<noteq> None \<Longrightarrow> schedules s s"
  by (simp add: schedules_def)

lemma schedulesD:
  assumes "schedules s s'"
  shows "kinv s'" "sched_step s s'" "core_step s s'" "rt_current_thread s' \<noteq> None"
    "status s' u = status s u \<and> home (thread_rings s') u = home (thread_rings s) u \<or>
        rt_current_thread s = Some u \<and> rt_current_thread s' \<noteq> Some u \<and>
          status s u = RT_THREAD_RUNNING \<and> status s' u = RT_THREAD_READY \<or>
        status s u = RT_THREAD_READY \<and> status s' u = RT_THREAD_RUNNING \<and> rt_current_thread s' = Some u"
    "(\<And>p. l \<noteq> Ready p) \<Longrightarrow> ring (thread_rings s') l = ring (thread_rings s) l"
    "thread_prio s' u = thread_prio s u" "live s' = live s"
    "status s u \<noteq> RT_THREAD_RUNNING \<Longrightarrow> status s u \<noteq> RT_THREAD_READY \<Longrightarrow> threads s' u = threads s u"
    "rt_current_thread s' = rt_current_thread s \<or>
        (\<exists>n. rt_current_thread s' = Some n \<and> status s n = RT_THREAD_READY)"
    "rt_current_thread s \<noteq> None"
  using assms sched_step_thread(4) by (simp_all add: schedules_def sched_step_core core_step_live)

lemma schedules_switch:
  assumes inv: "kinv s" and cur: "rt_current_thread s = Some c"
    and t: "status s t = RT_THREAD_READY" and ne: "t \<noteq> c"
    and s': "threads s' = (threads s)(c := (if status s c = RT_THREAD_RUNNING
        then set_stat RT_THREAD_READY (clear_yield (threads s c)) else threads s c),
      t := set_stat RT_THREAD_RUNNING (threads s t))"
    "home (thread_rings s') = (home (thread_rings s))(c := (if status s c = RT_THREAD_RUNNING
        then Some (Ready (thread_prio s c)) else home (thread_rings s) c), t := None)"
    "\<And>l. (\<And>p. l \<noteq> Ready p) \<Longrightarrow> ring (thread_rings s') l = ring (thread_rings s) l"
    "rings_ok (thread_rings s')" "group_ok s'" "rt_current_thread s' = Some t" "sched_step s s'"
  shows "schedules s s'"
proof -
  have st: "status s' u = (if u = t then RT_THREAD_RUNNING else if u = c \<and> status s c = RT_THREAD_RUNNING
      then RT_THREAD_READY else status s u)" for u
    using ne by (simp add: status_def s'(1))
  have mask: "th_number_mask (threads s' u) = th_number_mask (threads s u)" and prio: "thread_prio s' u = thread_prio s u" for u
    using sched_step_thread [OF s'(7)] by simp_all
  have live: "live s' = live s" using s'(7) by (simp add: core_step_live sched_step_core)
  have t_none: "rt_current_thread s \<noteq> Some t" using ne cur by simp
  have "kinv s'"
  proof (rule kinv_threads_cong [OF inv, where T = "{c, t}"])
    show "thread_ok s' u" if "u \<in> {c, t}" for u
      using that kinvD(5) [OF inv, of u] t ne
      by (auto simp: thread_ok_def thread_timer_alive_def st prio mask live s'(2) place_ok_def waits_on_def)
    show "status s' u = RT_THREAD_SUSPEND"
      if "u \<in> {c, t}" "home (timer_rings s) (ThreadTimer u) = Some HardTimers" for u
      using kinvD(6) [OF inv, of "ThreadTimer u"] that t ne by (auto simp: st timer_ok_def)
    show "cur_ok s'" using kinvD(8) [OF inv] cur ne by (auto simp: cur_ok_def st s'(6))
  qed (use s' ne in \<open>auto simp: sched_step_def core_step_def\<close>)
  then show ?thesis using s' cur t ne by (auto simp: schedules_def st)
qed

lemma rt_schedule_ok:
  assumes inv: "kinv s" and cur: "rt_current_thread s = Some c"
  obtains s' where "rt_schedule s = Some s'" "schedules s s'"
proof (cases "rt_scheduler_lock_nest s \<noteq> 0 \<or> rt_thread_ready_priority_group s = 0")
  case True
  then show thesis using that [of s] rt_schedule_idle inv cur by (simp add: schedules_refl)
next
  case False
  then have lock: "rt_scheduler_lock_nest s = 0" and grp: "rt_thread_ready_priority_group s \<noteq> 0" by simp_all
  obtain t hp ts where high: "scheduler_get_highest_priority_thread s = Some (t, hp)"
    and t: "ring (thread_rings s) (Ready hp) = t # ts" "status s t = RT_THREAD_READY" "thread_prio s t = hp" "hp < 32"
    using highest_thread [OF inv grp] by metis
  show thesis
  proof (cases "keeps_running s c hp")
    case True
    have run: "status s c = RT_THREAD_RUNNING" using True by (simp add: keeps_running_def)
    let ?s = "upd_thread c (\<lambda>th. set_stat RT_THREAD_RUNNING (clear_yield th)) s"
    have "schedules s ?s"
      using kinv_stay [OF inv cur run] cur run
      by (auto simp: schedules_def sched_step_def core_step_def upd_thread_def status_def)
    then show thesis using that rt_schedule_stay [OF inv cur lock high grp True] by simp
  next
    case go: False
    have "t \<noteq> c" using kinv_cur [OF inv cur] t(2) by auto
    then show thesis
      using rt_schedule_switch_result [OF inv cur lock high grp go t]
        schedules_switch [OF inv cur t(2)] that by (metis (no_types, lifting))
  qed
qed

subsection \<open>Correctness of the scheduling decision\<close>

lemma and_not_8: "(x OR y AND NOT 7) AND 8 = y AND (8::u8)" if "x AND 8 = 0" for x y :: u8
  using that by (simp add: bit.conj_disj_distrib2 and.assoc)

lemma rt_schedule_decision:
  assumes inv: "kinv s" and cur: "rt_current_thread s = Some c" and lock: "rt_scheduler_lock_nest s = 0"
    and ready: "status s u = RT_THREAD_READY"
  obtains t hp ts s' where "ring (thread_rings s) (Ready hp) = t # ts" "thread_prio s t = hp" "t \<noteq> c"
    "\<And>u. status s u = RT_THREAD_READY \<Longrightarrow> hp \<le> thread_prio s u"
    "rt_schedule s = Some s'" "schedules s s'"
    "if keeps_running s c hp
     then s' = upd_thread c (\<lambda>th. set_stat RT_THREAD_RUNNING (clear_yield th)) s
     else rt_current_thread s' = Some t \<and> status s' t = RT_THREAD_RUNNING \<and>
       (\<forall>p. ring (thread_rings s') (Ready p) = requeue (status s c = RT_THREAD_RUNNING) c (thread_prio s c) hp
          (\<lambda>p. ring (thread_rings s) (Ready p)) p)"
proof -
  have grp: "rt_thread_ready_priority_group s \<noteq> 0" using ready group_zero_iff [OF inv] by blast
  obtain t hp ts where high: "scheduler_get_highest_priority_thread s = Some (t, hp)"
    and t: "ring (thread_rings s) (Ready hp) = t # ts" "status s t = RT_THREAD_READY" "thread_prio s t = hp" "hp < 32"
    and min: "\<And>u. status s u = RT_THREAD_READY \<Longrightarrow> hp \<le> thread_prio s u"
    using highest_thread [OF inv grp] by metis
  obtain s' where s': "rt_schedule s = Some s'" "schedules s s'" using rt_schedule_ok [OF inv cur] .
  have ne: "t \<noteq> c" using kinv_cur [OF inv cur] t(2) by auto
  show thesis
  proof (cases "keeps_running s c hp")
    case True
    then show thesis using that [OF t(1,3) ne min s'] rt_schedule_stay [OF inv cur lock high grp True] s'(1) by simp
  next
    case False
    obtain s2 where s2: "rt_schedule s = Some s2" "rt_current_thread s2 = Some t"
      "threads s2 = (threads s)(c := (if status s c = RT_THREAD_RUNNING
        then set_stat RT_THREAD_READY (clear_yield (threads s c)) else threads s c),
        t := set_stat RT_THREAD_RUNNING (threads s t))"
      "\<And>p. ring (thread_rings s2) (Ready p) = requeue (status s c = RT_THREAD_RUNNING) c (thread_prio s c) hp
        (\<lambda>p. ring (thread_rings s) (Ready p)) p"
      by (rule rt_schedule_switch_result [OF inv cur lock high grp False t], rule that)
    have "s2 = s'" using s2(1) s'(1) by simp
    then show thesis
      using that [OF t(1,3) ne min s'] False s2 by (simp add: status_def)
  qed
qed

text \<open>
  C1. With the scheduler unlocked, \<open>rt_schedule\<close> always returns, keeps the kernel invariant, and leaves
  as current a running thread with which no ready thread competes at a higher priority (a smaller
  number), whenever there was a thread to run at all. Only that thread and the thread that was current
  before change their status, and no waiting list changes.
\<close>

theorem rt_schedule_runs_highest:
  assumes "kinv s" "rt_current_thread s = Some c" "rt_scheduler_lock_nest s = 0"
    and "status s c = RT_THREAD_RUNNING \<or> (\<exists>u. status s u = RT_THREAD_READY)"
  shows "\<exists>s' n. rt_schedule s = Some s' \<and> kinv s' \<and> rt_current_thread s' = Some n \<and>
    status s' n = RT_THREAD_RUNNING \<and>
    (\<forall>u. status s' u = RT_THREAD_READY \<longrightarrow> thread_prio s' n \<le> thread_prio s' u) \<and>
    (\<forall>u. u \<noteq> n \<and> u \<noteq> c \<longrightarrow> threads s' u = threads s u) \<and>
    (\<forall>o'. ring (thread_rings s') (Suspended o') = ring (thread_rings s) (Suspended o'))"
proof (cases "\<exists>u. status s u = RT_THREAD_READY")
  case False
  then have "rt_thread_ready_priority_group s = 0" using group_zero_iff [OF assms(1)] by simp
  then show ?thesis using assms False by (auto simp: rt_schedule_idle)
next
  case True
  then obtain u where "status s u = RT_THREAD_READY" ..
  then obtain t hp ts s' where t: "thread_prio s t = hp" "t \<noteq> c"
    and min: "\<And>u. status s u = RT_THREAD_READY \<Longrightarrow> hp \<le> thread_prio s u"
    and s': "rt_schedule s = Some s'" "schedules s s'"
    and result: "if keeps_running s c hp
       then s' = upd_thread c (\<lambda>th. set_stat RT_THREAD_RUNNING (clear_yield th)) s
       else rt_current_thread s' = Some t \<and> status s' t = RT_THREAD_RUNNING \<and>
         (\<forall>p. ring (thread_rings s') (Ready p) = requeue (status s c = RT_THREAD_RUNNING) c (thread_prio s c) hp
            (\<lambda>p. ring (thread_rings s) (Ready p)) p)"
    by (rule rt_schedule_decision [OF assms(1-3)], blast)
  have prio: "thread_prio s' v = thread_prio s v" for v
    using s'(2) sched_step_thread(4) by (auto simp: schedules_def)
  let ?n = "if keeps_running s c hp then c else t"
  have n: "rt_current_thread s' = Some ?n" "status s' ?n = RT_THREAD_RUNNING"
    using result assms(2) by (auto simp: upd_thread_def status_def split: if_splits)
  have "thread_prio s ?n \<le> thread_prio s v" if "status s' v = RT_THREAD_READY" for v
  proof (cases "status s v = RT_THREAD_READY")
    case True
    then show ?thesis using min [of v] t by (auto simp: keeps_running_def)
  next
    case False
    then have "v = c" "status s c = RT_THREAD_RUNNING" "rt_current_thread s' \<noteq> Some c"
      using that schedulesD(5) [OF s'(2), of v] assms(2) by auto
    then show ?thesis using n t by (auto simp: keeps_running_def split: if_splits)
  qed
  then show ?thesis using s' n assms(2) by (auto simp: prio schedules_def intro!: exI [of _ ?n])
qed

text \<open>The theorem applied to the example state.\<close>

theorem rt_schedule_runs_highest_witness:
  "\<exists>s' n. rt_schedule (demo 3) = Some s' \<and> kinv s' \<and> rt_current_thread s' = Some n \<and>
    status s' n = RT_THREAD_RUNNING \<and>
    (\<forall>u. status s' u = RT_THREAD_READY \<longrightarrow> thread_prio s' n \<le> thread_prio s' u) \<and>
    (\<forall>u. u \<noteq> n \<and> u \<noteq> 1 \<longrightarrow> threads s' u = threads (demo 3) u) \<and>
    (\<forall>o'. ring (thread_rings s') (Suspended o') = ring (thread_rings (demo 3)) (Suspended o'))"
  by (rule rt_schedule_runs_highest [of "demo 3" 1]) (simp_all add: demo_kinv demo_status)

text \<open>
  Time slicing is round robin: when the running thread has used up its time slice (its yield flag
  is set) and no thread of a higher priority is ready, \<open>rt_schedule\<close> hands the processor to the
  first ready thread of the same priority and puts the preempted one at the end of that ready list.
\<close>

theorem rt_schedule_round_robin:
  assumes "kinv s" "rt_current_thread s = Some c" "rt_scheduler_lock_nest s = 0"
    and "status s c = RT_THREAD_RUNNING" "th_stat (threads s c) AND RT_THREAD_STAT_YIELD \<noteq> 0"
    and "ring (thread_rings s) (Ready (thread_prio s c)) = n # ts"
    and "\<forall>u. status s u = RT_THREAD_READY \<longrightarrow> thread_prio s c \<le> thread_prio s u"
  shows "\<exists>s'. rt_schedule s = Some s' \<and> kinv s' \<and> rt_current_thread s' = Some n \<and>
    status s' n = RT_THREAD_RUNNING \<and> status s' c = RT_THREAD_READY \<and>
    ring (thread_rings s') (Ready (thread_prio s c)) = ts @ [c]"
proof -
  have n: "status s n = RT_THREAD_READY" "thread_prio s n = thread_prio s c"
    using kinv_ready_iff [OF assms(1), of n "thread_prio s c"] assms(6) by simp_all
  obtain t hp us s' where t: "ring (thread_rings s) (Ready hp) = t # us" "thread_prio s t = hp" "t \<noteq> c"
    and min: "\<And>u. status s u = RT_THREAD_READY \<Longrightarrow> hp \<le> thread_prio s u"
    and s': "rt_schedule s = Some s'" "schedules s s'"
    and result: "if keeps_running s c hp
       then s' = upd_thread c (\<lambda>th. set_stat RT_THREAD_RUNNING (clear_yield th)) s
       else rt_current_thread s' = Some t \<and> status s' t = RT_THREAD_RUNNING \<and>
         (\<forall>p. ring (thread_rings s') (Ready p) = requeue (status s c = RT_THREAD_RUNNING) c (thread_prio s c) hp
            (\<lambda>p. ring (thread_rings s) (Ready p)) p)"
    by (rule rt_schedule_decision [OF assms(1-3) n(1)], blast)
  have "status s t = RT_THREAD_READY" using kinv_ready_iff [OF assms(1), of t hp] t(1) by simp
  then have hp: "hp = thread_prio s c" using min [OF n(1)] n(2) assms(7) t(2) by force
  then have "\<not> keeps_running s c hp" using assms(5) by (simp add: keeps_running_def)
  with result have r: "rt_current_thread s' = Some t" "status s' t = RT_THREAD_RUNNING"
    "ring (thread_rings s') (Ready (thread_prio s c)) = us @ [c]"
    using hp t(1) assms(4) by (auto simp: requeue_def)
  have "c \<in> set (ring (thread_rings s') (Ready (thread_prio s c)))" using r(3) by simp
  then have "status s' c = RT_THREAD_READY"
    using kinv_ready_iff [of s' c] s'(2) by (simp add: schedules_def)
  then show ?thesis using r s' t(1) hp assms(6) by (auto simp: schedules_def)
qed


theorem rt_schedule_round_robin_witness:
  "\<exists>s'. rt_schedule (demo 11) = Some s' \<and> kinv s' \<and> rt_current_thread s' = Some 2 \<and>
    status s' 2 = RT_THREAD_RUNNING \<and> status s' 1 = RT_THREAD_READY \<and>
    ring (thread_rings s') (Ready 5) = [] @ [1]"
  using rt_schedule_round_robin [of "demo 11" 1 2 "[]"]
  by (simp add: demo_kinv demo_status demo_prio demo_threads_def demo_thread_def)

subsection \<open>Critical sections\<close>

lemma rt_critical_pair:
  assumes inv: "kinv s"
  obtains s' where "rt_exit_critical (rt_enter_critical s) = Some s'" "s' = s \<or> schedules s s'" "core_step s s'"
proof -
  have lock: "0 \<le> sint (rt_scheduler_lock_nest s)" using kinvD(9) [OF inv] by (simp add: lock_ok_def)
  show thesis
  proof (cases "sint (rt_scheduler_lock_nest s) \<le> 0")
    case True
    then have z: "rt_scheduler_lock_nest s = 0" using lock by (simp add: signed_eq_0_iff)
    then have same: "s\<lparr>rt_scheduler_lock_nest := 0\<rparr> = s" by (cases s) simp
    show thesis
    proof (cases "rt_current_thread s")
      case None
      then show thesis using that [of s] z by (simp add: rt_exit_critical_def rt_enter_critical_def Let_def)
    next
      case (Some c)
      obtain s' where s': "rt_schedule s = Some s'" "schedules s s'" using rt_schedule_ok [OF inv Some] .
      then show thesis
        using that [of s'] z Some same schedulesD(3) by (simp add: rt_exit_critical_def rt_enter_critical_def Let_def)
    qed
  next
    case False
    then show thesis using that [of s] by (simp add: rt_exit_critical_def rt_enter_critical_def Let_def)
  qed
qed

text \<open>
  A state is settled when a scheduling decision would change nothing: the scheduler is locked, or the
  running thread has no ready competitor. \<open>rt_schedule\<close> establishes it.
\<close>

definition settled :: "kernel \<Rightarrow> bool" where
  "settled s \<longleftrightarrow> rt_scheduler_lock_nest s \<noteq> 0 \<or>
     (\<exists>c. rt_current_thread s = Some c \<and>
       (\<forall>u. status s u = RT_THREAD_READY \<longrightarrow> status s c = RT_THREAD_RUNNING \<and>
          (thread_prio s c < thread_prio s u \<or>
           thread_prio s c = thread_prio s u \<and> th_stat (threads s c) AND RT_THREAD_STAT_YIELD = 0)))"

lemma settled_no_switch:
  assumes inv: "kinv s" and cur: "rt_current_thread s = Some c" and "settled s"
  shows "\<exists>s'. rt_schedule s = Some s' \<and> rt_current_thread s' = Some c \<and>
    thread_rings s' = thread_rings s"
proof (cases "rt_scheduler_lock_nest s = 0 \<and> (\<exists>u. status s u = RT_THREAD_READY)")
  case True
  then obtain u where lock: "rt_scheduler_lock_nest s = 0" and u: "status s u = RT_THREAD_READY" by blast
  obtain t hp us s' where t: "ring (thread_rings s) (Ready hp) = t # us" "thread_prio s t = hp"
    and s': "rt_schedule s = Some s'"
    and result: "if keeps_running s c hp
       then s' = upd_thread c (\<lambda>th. set_stat RT_THREAD_RUNNING (clear_yield th)) s
       else rt_current_thread s' = Some t \<and> status s' t = RT_THREAD_RUNNING \<and>
         (\<forall>p. ring (thread_rings s') (Ready p) = requeue (status s c = RT_THREAD_RUNNING) c (thread_prio s c) hp
            (\<lambda>p. ring (thread_rings s) (Ready p)) p)"
    by (rule rt_schedule_decision [OF inv cur lock u], blast)
  have "status s t = RT_THREAD_READY" using kinv_ready_iff [OF inv, of t hp] t(1) by simp
  then have "keeps_running s c hp"
    using assms(3) lock cur t(2) by (auto simp: settled_def keeps_running_def)
  then show ?thesis using result s' cur by (simp add: upd_thread_def)
next
  case False
  then show ?thesis using rt_schedule_idle [of s] cur group_zero_iff [OF inv] by auto
qed

end
