(* ===== verification/RT_Object.thy ===== *)
theory RT_Object
  imports RT_Scheduler
begin

section \<open>Kernel objects: \<^verbatim>\<open>src/object.c\<close>\<close>

text \<open>
  The object container: one list of objects per class, newest first. \<^verbatim>\<open>RT_KERNEL_MALLOC\<close> is a
  parameter of the operations that allocate: the address it returned, or \<open>None\<close>. What is relied on
  is that a block it returns is not in use (\<open>fresh\<close>).
\<close>

subsection \<open>Operations\<close>

text \<open>The classes of \<^verbatim>\<open>_object_container\<close> in this configuration, in the order of the table.\<close>

definition object_container :: "u8 list" where
  "object_container =
     [RT_Object_Class_Thread, RT_Object_Class_Semaphore, RT_Object_Class_Mutex, RT_Object_Class_Event,
      RT_Object_Class_MailBox, RT_Object_Class_MessageQueue, RT_Object_Class_MemHeap, RT_Object_Class_MemPool, RT_Object_Class_Device,
      RT_Object_Class_Timer, RT_Object_Class_Memory]"

definition rt_object_get_information :: "u8 \<Rightarrow> u8 option" where
  "rt_object_get_information type = List.find (\<lambda>c. c = type) object_container"

definition rt_object_get_length :: "u8 \<Rightarrow> kernel \<Rightarrow> nat" where
  "rt_object_get_length type s =
     (case rt_object_get_information type of
        None \<Rightarrow> 0
      | Some c \<Rightarrow> length (ring (object_rings s) c))"

text \<open>The loop of \<open>rt_object_get_pointers\<close>: the pointers stored so far and their number.\<close>

fun get_pointers_loop :: "obj_ref list \<Rightarrow> int \<Rightarrow> int \<Rightarrow> obj_ref list \<Rightarrow> obj_ref list \<times> int" where
  "get_pointers_loop [] index maxlen ps = (ps, index)"
| "get_pointers_loop (x # xs) index maxlen ps =
     (if index + 1 \<ge> maxlen then (ps @ [x], index + 1)
      else get_pointers_loop xs (index + 1) maxlen (ps @ [x]))"

definition rt_object_get_pointers :: "u8 \<Rightarrow> int \<Rightarrow> kernel \<Rightarrow> obj_ref list \<times> int" where
  "rt_object_get_pointers type maxlen s =
     (if maxlen \<le> 0 then ([], 0)
      else case rt_object_get_information type of
        None \<Rightarrow> ([], 0)
      | Some c \<Rightarrow> get_pointers_loop (ring (object_rings s) c) 0 maxlen [])"

definition rt_object_init :: "obj_ref \<Rightarrow> u8 \<Rightarrow> u8 list \<Rightarrow> kernel \<Rightarrow> kernel option" where
  "rt_object_init object type name s = do {
     information \<leftarrow> rt_object_get_information type;
     let s = rt_enter_critical s;
     RT_ASSERT (\<forall>obj \<in> set (ring (object_rings s) information). obj \<noteq> object);
     s \<leftarrow> rt_exit_critical s;
     let s = upd_obj object (\<lambda>b. b\<lparr>ob_type := type OR RT_Object_Class_Static\<rparr>) s;
     nm \<leftarrow> rt_strncpy (ob_name (objs s object)) name RT_NAME_MAX;
     let s = upd_obj object (\<lambda>b. b\<lparr>ob_name := nm\<rparr>) s;
     R \<leftarrow> ring_insert_head information object (object_rings s);
     Some (s\<lparr>object_rings := R\<rparr>)
   }"

definition rt_object_detach :: "obj_ref \<Rightarrow> kernel \<Rightarrow> kernel" where
  "rt_object_detach object s =
     (let s = upd_obj object (\<lambda>b. b\<lparr>ob_type := 0\<rparr>) s in
      s\<lparr>object_rings := ring_remove object (object_rings s)\<rparr>)"

text \<open>\<^verbatim>\<open>rt_memset\<close> of a freshly allocated structure.\<close>

definition clear_struct :: "obj_ref \<Rightarrow> kernel \<Rightarrow> kernel" where
  "clear_struct object s =
     (let s = upd_obj object (\<lambda>_. zero_obj) s in
      case object of
        OThread t \<Rightarrow> upd_obj (OTimer (ThreadTimer t)) (\<lambda>_. zero_obj)
            (upd_timer (ThreadTimer t) (\<lambda>_. zero_timer) (upd_thread t (\<lambda>_. zero_thread) s))
      | OSem i \<Rightarrow> s\<lparr>sems := (sems s)(i := zero_sem)\<rparr>
      | OMutex i \<Rightarrow> s\<lparr>mutexes := (mutexes s)(i := zero_mutex)\<rparr>
      | OEvent i \<Rightarrow> s\<lparr>events := (events s)(i := zero_event)\<rparr>
      | OMailbox i \<Rightarrow> s\<lparr>mailboxes := (mailboxes s)(i := zero_mailbox)\<rparr>
      | OMq i \<Rightarrow> s\<lparr>msgqueues := (msgqueues s)(i := zero_mq)\<rparr>
      | OMemPool i \<Rightarrow> s\<lparr>mempools := (mempools s)(i := zero_mempool)\<rparr>
      | OMemory i \<Rightarrow> s\<lparr>small_mems := (small_mems s)(i := zero_small_mem)\<rparr>
      | OMemHeap i \<Rightarrow> s\<lparr>memheaps := (memheaps s)(i := zero_memheap)\<rparr>
      | ODevice i \<Rightarrow> s\<lparr>devices := (devices s)(i := zero_device)\<rparr>
      | OTimer r \<Rightarrow> upd_timer r (\<lambda>_. zero_timer) s)"

definition rt_object_allocate ::
  "obj_ref option \<Rightarrow> u8 \<Rightarrow> u8 list \<Rightarrow> kernel \<Rightarrow> (obj_ref option \<times> kernel) option" where
  "rt_object_allocate mem type name s = do {
     RT_DEBUG_NOT_IN_INTERRUPT s;
     information \<leftarrow> rt_object_get_information type;
     (case mem of
        None \<Rightarrow> Some (None, s)
      | Some object \<Rightarrow> do {
          let s = s\<lparr>heap := insert (BObject object) (heap s)\<rparr>;
          let s = clear_struct object s;
          let s = upd_obj object (\<lambda>b. b\<lparr>ob_type := type, ob_flag := 0\<rparr>) s;
          nm \<leftarrow> rt_strncpy (ob_name (objs s object)) name RT_NAME_MAX;
          let s = upd_obj object (\<lambda>b. b\<lparr>ob_name := nm\<rparr>) s;
          R \<leftarrow> ring_insert_head information object (object_rings s);
          Some (Some object, s\<lparr>object_rings := R\<rparr>)
        })
   }"

text \<open>\<^verbatim>\<open>RT_KERNEL_FREE\<close>: freeing a block that is not allocated has no result.\<close>

definition RT_KERNEL_FREE :: "heap_block \<Rightarrow> kernel \<Rightarrow> kernel option" where
  "RT_KERNEL_FREE b s = (if b \<in> heap s then Some (s\<lparr>heap := heap s - {b}\<rparr>) else None)"

definition rt_object_delete :: "obj_ref \<Rightarrow> kernel \<Rightarrow> kernel option" where
  "rt_object_delete object s = do {
     RT_ASSERT (ob_type (objs s object) AND RT_Object_Class_Static = 0);
     let s = upd_obj object (\<lambda>b. b\<lparr>ob_type := RT_Object_Class_Null\<rparr>) s;
     let s = s\<lparr>object_rings := ring_remove object (object_rings s)\<rparr>;
     RT_KERNEL_FREE (BObject object) s
   }"

definition rt_object_is_systemobject :: "obj_ref \<Rightarrow> kernel \<Rightarrow> bool" where
  "rt_object_is_systemobject object s = (ob_type (objs s object) AND RT_Object_Class_Static \<noteq> 0)"

definition rt_object_get_type :: "obj_ref \<Rightarrow> kernel \<Rightarrow> u8" where
  "rt_object_get_type object s = ob_type (objs s object) AND NOT RT_Object_Class_Static"

fun object_find_loop :: "kernel \<Rightarrow> u8 list \<Rightarrow> obj_ref list \<Rightarrow> obj_ref option option" where
  "object_find_loop s name [] = Some None"
| "object_find_loop s name (x # xs) = do {
     r \<leftarrow> rt_strncmp (ob_name (objs s x)) name RT_NAME_MAX;
     if r = 0 then Some (Some x) else object_find_loop s name xs
   }"

definition rt_object_find :: "u8 list option \<Rightarrow> u8 \<Rightarrow> kernel \<Rightarrow> (obj_ref option \<times> kernel) option" where
  "rt_object_find name type s =
     (case (name, rt_object_get_information type) of
        (Some nm, Some information) \<Rightarrow> do {
          RT_DEBUG_NOT_IN_INTERRUPT s;
          let s = rt_enter_critical s;
          r \<leftarrow> object_find_loop s nm (ring (object_rings s) information);
          s \<leftarrow> rt_exit_critical s;
          Some (r, s)
        }
      | _ \<Rightarrow> Some (None, s))"

subsection \<open>Lemmas\<close>

lemma get_information_class [simp]: "rt_object_get_information (class_of x) = Some (class_of x)"
  by (cases x) (simp_all add: class_of_def rt_object_get_information_def object_container_def)

lemma get_pointers_loop_eq:
  "index < maxlen \<Longrightarrow> get_pointers_loop xs index maxlen ps =
     (ps @ take (nat (maxlen - index)) xs, index + int (min (length xs) (nat (maxlen - index))))"
proof (induction xs index maxlen ps rule: get_pointers_loop.induct)
  case (2 x xs index maxlen ps)
  show ?case
  proof (cases "index + 1 \<ge> maxlen")
    case True
    then have "nat (maxlen - index) = 1" using 2 by simp
    then show ?thesis using True by simp
  next
    case False
    then have "nat (maxlen - index) = Suc (nat (maxlen - (index + 1)))" by simp
    then show ?thesis using 2 False by simp
  qed
qed simp

lemma rt_object_get_type_live: "kinv s \<Longrightarrow> rt_object_get_type x s = class_of x \<longleftrightarrow> live s x"
  unfolding rt_object_get_type_def by (rule obj_type_live)

lemma obj_ok_name: "kinv s \<Longrightarrow> length (ob_name (objs s x)) = 8"
  using kinvD(4) [of s x] by (simp add: obj_ok_def)

lemma readable_buffer: "length b = n \<Longrightarrow> readable n b"
  by (simp add: readable_def)

text \<open>The state after linking an initialised object in front of the list of its class.\<close>

definition linked_object :: "obj_ref \<Rightarrow> u8 \<Rightarrow> u8 list \<Rightarrow> kernel \<Rightarrow> kernel" where
  "linked_object x ty nm s = s
     \<lparr>objs := (objs s)(x := (objs s x)\<lparr>ob_type := ty, ob_name := nm\<rparr>),
      object_rings := (object_rings s)\<lparr>ring := (ring (object_rings s))(class_of x := x # ring (object_rings s) (class_of x)),
        home := (home (object_rings s))(x := Some (class_of x))\<rparr>\<rparr>"

lemma rt_object_init_ok:
  assumes inv: "kinv s" and fresh: "\<not> live s x" and name: "readable RT_NAME_MAX name"
  obtains s1 nm where "rt_object_init x (class_of x) name s =
      Some (linked_object x (class_of x OR RT_Object_Class_Static) nm s1)"
    "s1 = s \<or> schedules s s1" "kinv s1" "core_step s s1" "objs s1 = objs s" "length nm = RT_NAME_MAX"
    "cstr RT_NAME_MAX nm = cstr RT_NAME_MAX name"
proof -
  obtain s1 where s1: "rt_exit_critical (rt_enter_critical s) = Some s1" "s1 = s \<or> schedules s s1" "core_step s s1"
    using rt_critical_pair [OF inv] .
  have k1: "kinv s1" "objs s1 = objs s" using s1(2) inv schedulesD(1,2) by (auto simp: sched_step_def)
  let ?b = "ob_name (objs s x)"
  obtain nm where nm: "rt_strncpy ?b name 8 = Some nm"
    using rt_strncpy_eq [of 8 ?b name] name obj_ok_name [OF inv, of x] by auto
  have n: "cstr 8 nm = cstr 8 name \<and> length nm = 8"
    using cstr_strncpy [OF _ name nm] obj_ok_name [OF inv, of x] by simp
  have h: "home (object_rings s) x = None" using fresh by (simp add: live_def)
  have "\<forall>obj\<in>set (ring (object_rings s) (class_of x)). obj \<noteq> x"
    using rings_ok_unlinked [OF kinvD(3) [OF inv] h] by auto
  moreover have "object_rings (rt_enter_critical s) = object_rings s" by (simp add: rt_enter_critical_def)
  ultimately have "rt_object_init x (class_of x) name s =
      Some (linked_object x (class_of x OR RT_Object_Class_Static) nm s1)"
    using s1(1,3) k1(2) nm h
    by (simp add: rt_object_init_def upd_obj_def linked_object_def ring_insert_head_def core_step_def Let_def)
  then show thesis using that s1 k1 n by blast
qed

text \<open>
  An operation that changes only the container entry of such an object keeps the invariant when no
  thread waits for an object it takes away.
\<close>

lemma kinv_objs_cong:
  assumes inv: "kinv s" and ipc: "is_ipc x"
    and same: "threads s' = threads s" "timers s' = timers s" "thread_rings s' = thread_rings s"
      "timer_rings s' = timer_rings s" "rt_thread_ready_priority_group s' = rt_thread_ready_priority_group s"
      "rt_current_thread s' = rt_current_thread s" "rt_scheduler_lock_nest s' = rt_scheduler_lock_nest s"
    and other: "\<And>y. y \<noteq> x \<Longrightarrow> objs s' y = objs s y \<and> home (object_rings s') y = home (object_rings s) y \<and>
        (BObject y \<in> heap s \<longrightarrow> BObject y \<in> heap s')"
    and rings: "rings_ok (object_rings s')" and own: "obj_ok s' x"
    and waits: "live s' x \<or> (\<forall>t. waits_on (home (thread_rings s) t) \<noteq> Some x)"
  shows "kinv s'"
proof -
  have live: "live s' y = live s y" if "y \<noteq> x" for y using other [OF that] by (simp add: live_def)
  have ne: "OThread t \<noteq> x" "OTimer r \<noteq> x" for t r using ipc by auto
  have live': "live s' (OThread t) = live s (OThread t)" "live s' (OTimer r) = live s (OTimer r)" for t r
    using live [OF ne(1)] live [OF ne(2)] by blast+
  have obj: "objs s' (OTimer r) = objs s (OTimer r)" for r using other [OF ne(2)] by blast
  have st: "status s' = status s" "thread_prio s' = thread_prio s"
    by (simp_all add: status_def thread_prio_def same fun_eq_iff)
  have wt: "live s' y \<and> is_ipc y" if "waits_on (home (thread_rings s) t) = Some y" for t y
    using that waits live [of y] kinvD(5) [OF inv, of t] by (cases "y = x") (auto simp: thread_ok_def)
  have "thread_ok s' t" for t
    using kinvD(5) [OF inv, of t] wt [of t]
    unfolding thread_ok_def thread_timer_alive_def st live' same by simp
  moreover have "timer_ok s' r" for r
    using kinvD(6) [OF inv, of r] unfolding timer_ok_def timer_flag_def is_static_def st live' same obj .
  moreover have "obj_ok s' y" for y
  proof (cases "y = x")
    case False
    then show ?thesis using kinvD(4) [OF inv, of y] other [OF False]
      by (auto simp: obj_ok_def split: option.splits)
  qed (use own in simp)
  ultimately show ?thesis
    using kinvD [OF inv] rings
    by (simp add: kinv_def rings_all_ok_def same group_ok_def cur_ok_def st lock_ok_def)
qed

lemma rings_ok_linked_object:
  "kinv s \<Longrightarrow> \<not> live s x \<Longrightarrow> rings_ok (object_rings (linked_object x ty nm s))"
  using rings_ok_insert_head [OF kinvD(3), of s "class_of x" x]
  by (simp add: linked_object_def ring_insert_head_def live_def)

lemma kinv_linked_object:
  assumes "kinv s" "is_ipc x" "\<not> live s x" "length nm = 8"
    "ty = class_of x OR 0x80 \<or> ty = class_of x \<and> BObject x \<in> heap s"
  shows "kinv (linked_object x ty nm s)"
  by (rule kinv_objs_cong [OF assms(1,2)])
    (use assms rings_ok_linked_object [of s x] in \<open>auto simp: linked_object_def obj_ok_def live_def\<close>)

lemma kinv_detach:
  assumes "kinv s" "is_ipc x" "\<And>t. waits_on (home (thread_rings s) t) \<noteq> Some x"
  shows "kinv (rt_object_detach x s)"
  by (rule kinv_objs_cong [OF assms(1,2)])
    (use assms kinvD(4) [OF assms(1), of x] rings_ok_remove [OF kinvD(3) [OF assms(1)]]
      in \<open>auto simp: rt_object_detach_def upd_obj_def obj_ok_def live_def Let_def\<close>)

lemma live_detach [simp]: "live (rt_object_detach x s) y \<longleftrightarrow> y \<noteq> x \<and> live s y"
  by (simp add: rt_object_detach_def live_def upd_obj_def Let_def)

lemma rt_object_delete_ok:
  assumes inv: "kinv s" and ipc: "is_ipc x" and live: "live s x" and dyn: "\<not> rt_object_is_systemobject x s"
    and waits: "\<And>t. waits_on (home (thread_rings s) t) \<noteq> Some x"
  shows "\<exists>s'. rt_object_delete x s = Some s' \<and> kinv s' \<and> s' = (rt_object_detach x s)\<lparr>heap := heap s - {BObject x}\<rparr>"
proof -
  let ?s = "(rt_object_detach x s)\<lparr>heap := heap s - {BObject x}\<rparr>"
  have "(class_of x OR 0x80) AND 0x80 \<noteq> 0" by (cases x) (simp_all add: class_of_def)
  then have mem: "BObject x \<in> heap s"
    using kinvD(4) [OF inv, of x] live dyn
    by (auto simp: obj_ok_def live_def rt_object_is_systemobject_def split: option.splits)
  have "kinv ?s"
    by (rule kinv_objs_cong [OF inv ipc])
      (use waits kinvD(4) [OF inv, of x] rings_ok_remove [OF kinvD(3) [OF inv]]
        in \<open>auto simp: rt_object_detach_def upd_obj_def obj_ok_def live_def Let_def\<close>)
  moreover have "rt_object_delete x s = Some ?s"
    using mem dyn
    by (simp add: rt_object_delete_def RT_KERNEL_FREE_def rt_object_is_systemobject_def rt_object_detach_def
        upd_obj_def Let_def)
  ultimately show ?thesis by blast
qed

subsection \<open>Finding objects\<close>

lemma object_find_loop_eq:
  assumes "\<And>x. length (ob_name (objs s x)) = 8" "readable 8 name"
  shows "object_find_loop s name xs = Some (List.find (\<lambda>x. cstr 8 (ob_name (objs s x)) = cstr 8 name) xs)"
proof (induction xs)
  case (Cons x xs)
  obtain r where "rt_strncmp (ob_name (objs s x)) name 8 = Some r"
    "r = 0 \<longleftrightarrow> cstr 8 (ob_name (objs s x)) = cstr 8 name"
    using rt_strncmp_zero [OF readable_buffer assms(2)] assms(1) by blast
  then show ?case using Cons by simp
qed simp

lemma rt_object_find_ok:
  assumes inv: "kinv s" and irq: "rt_interrupt_nest s = 0" and name: "readable 8 name"
  obtains s' where "rt_object_find (Some name) (class_of x) s =
      Some (List.find (\<lambda>y. cstr 8 (ob_name (objs s y)) = cstr 8 name) (ring (object_rings s) (class_of x)), s')"
    "s' = s \<or> schedules s s'"
proof -
  obtain s' where s': "rt_exit_critical (rt_enter_critical s) = Some s'" "s' = s \<or> schedules s s'"
    using rt_critical_pair [OF inv] by metis
  have "object_find_loop (rt_enter_critical s) name xs =
      Some (List.find (\<lambda>y. cstr 8 (ob_name (objs s y)) = cstr 8 name) xs)" for xs
    using object_find_loop_eq [of "rt_enter_critical s" name xs] name obj_ok_name [OF inv]
    by (simp add: rt_enter_critical_def)
  moreover have "object_rings (rt_enter_critical s) = object_rings s" by (simp add: rt_enter_critical_def)
  ultimately show thesis
    using that [of s'] s' irq
    by (simp add: rt_object_find_def RT_DEBUG_NOT_IN_INTERRUPT_def rt_interrupt_get_nest_def Let_def)
qed

text \<open>
  Looking an object up by name is exact: outside interrupts \<open>rt_object_find\<close> returns the newest
  object of the class whose name agrees with the given one in its first eight characters, and reports
  no object exactly when no live object of the class has that name.
\<close>

theorem rt_object_find_correct:
  assumes "kinv s" "rt_interrupt_nest s = 0" "readable RT_NAME_MAX name"
  shows "\<exists>r s'. rt_object_find (Some name) (class_of x) s = Some (r, s') \<and>
    (case r of
       Some y \<Rightarrow> live s y \<and> class_of y = class_of x \<and>
         cstr RT_NAME_MAX (ob_name (objs s y)) = cstr RT_NAME_MAX name \<and>
         (\<exists>newer older. ring (object_rings s) (class_of x) = newer @ y # older \<and>
            (\<forall>z\<in>set newer. cstr RT_NAME_MAX (ob_name (objs s z)) \<noteq> cstr RT_NAME_MAX name))
     | None \<Rightarrow> (\<forall>y. live s y \<and> class_of y = class_of x \<longrightarrow>
         cstr RT_NAME_MAX (ob_name (objs s y)) \<noteq> cstr RT_NAME_MAX name))"
proof -
  let ?P = "\<lambda>y. cstr 8 (ob_name (objs s y)) = cstr 8 name" and ?xs = "ring (object_rings s) (class_of x)"
  obtain s' where s': "rt_object_find (Some name) (class_of x) s = Some (List.find ?P ?xs, s')"
    using rt_object_find_ok [OF assms] by blast
  have mem: "y \<in> set ?xs \<longleftrightarrow> live s y \<and> class_of y = class_of x" for y
    using kinvD(4) [OF assms(1), of y] rings_ok_home [OF kinvD(3) [OF assms(1)], of y "class_of x"]
    by (auto simp: live_def obj_ok_def split: option.splits)
  show ?thesis
  proof (cases "List.find ?P ?xs")
    case None
    then have "\<forall>y. live s y \<and> class_of y = class_of x \<longrightarrow> \<not> ?P y" using mem by (auto simp: find_None_iff)
    then show ?thesis using s' None by (intro exI [of _ None] exI [of _ s']) auto
  next
    case (Some y)
    then obtain i where i: "i < length ?xs" "?P (?xs ! i)" "y = ?xs ! i" "\<forall>j<i. \<not> ?P (?xs ! j)"
      by (auto simp: find_Some_iff)
    then have "?xs = take i ?xs @ y # drop (Suc i) ?xs" by (simp add: id_take_nth_drop)
    moreover have "\<forall>z\<in>set (take i ?xs). \<not> ?P z" using i by (auto simp: in_set_conv_nth)
    moreover have "y \<in> set ?xs" using i by simp
    ultimately show ?thesis
      using s' Some i(2,3) mem [of y] by (intro exI [of _ "Some y"] exI [of _ s']) auto
  qed
qed

theorem rt_object_find_correct_witness:
  "\<exists>r s'. rt_object_find (Some [0]) (class_of (OSem 7)) (demo 3) = Some (r, s') \<and>
    (case r of
       Some y \<Rightarrow> live (demo 3) y \<and> class_of y = class_of (OSem 7) \<and>
         cstr RT_NAME_MAX (ob_name (objs (demo 3) y)) = cstr RT_NAME_MAX [0] \<and>
         (\<exists>newer older. ring (object_rings (demo 3)) (class_of (OSem 7)) = newer @ y # older \<and>
            (\<forall>z\<in>set newer. cstr RT_NAME_MAX (ob_name (objs (demo 3) z)) \<noteq> cstr RT_NAME_MAX [0]))
     | None \<Rightarrow> (\<forall>y. live (demo 3) y \<and> class_of y = class_of (OSem 7) \<longrightarrow>
         cstr RT_NAME_MAX (ob_name (objs (demo 3) y)) \<noteq> cstr RT_NAME_MAX [0]))"
  by (rule rt_object_find_correct) (simp_all add: demo_kinv readable_def)

text \<open>
  Initialise, then find: after \<open>rt_object_init\<close> of an object that is not in the container, a
  lookup of its name in its class returns that object, whatever older objects share the name.
\<close>

theorem rt_object_find_after_init:
  assumes "kinv s" "rt_interrupt_nest s = 0" "is_ipc x" "\<not> live s x" "readable RT_NAME_MAX name"
  shows "\<exists>s' s''. rt_object_init x (class_of x) name s = Some s' \<and> kinv s' \<and> live s' x \<and>
    rt_object_find (Some name) (class_of x) s' = Some (Some x, s'')"
proof -
  obtain s1 nm where init: "rt_object_init x (class_of x) name s =
      Some (linked_object x (class_of x OR RT_Object_Class_Static) nm s1)"
    and s1: "kinv s1" "core_step s s1" and nm: "length nm = 8" "cstr 8 nm = cstr 8 name"
    using rt_object_init_ok [OF assms(1,4,5)] by metis
  let ?s = "linked_object x (class_of x OR RT_Object_Class_Static) nm s1"
  have nl: "\<not> live s1 x" using core_step_live [OF s1(2)] assms(4) by simp
  have k: "kinv ?s" using kinv_linked_object [OF s1(1) assms(3) nl nm(1)] by simp
  have "rt_interrupt_nest ?s = 0" using s1(2) assms(2) by (simp add: linked_object_def core_step_def)
  from rt_object_find_ok [OF k this assms(5), of x]
  obtain s'' where "rt_object_find (Some name) (class_of x) ?s = Some (Some x, s'')"
    using nm by (auto simp: linked_object_def)
  then show ?thesis using init k by (auto simp: live_def linked_object_def)
qed

theorem rt_object_find_after_init_witness:
  "\<exists>s' s''. rt_object_init (OSem 9) (class_of (OSem 9)) [115, 0] (demo 3) = Some s' \<and> kinv s' \<and> live s' (OSem 9) \<and>
    rt_object_find (Some [115, 0]) (class_of (OSem 9)) s' = Some (Some (OSem 9), s'')"
  by (rule rt_object_find_after_init) (simp_all add: demo_kinv readable_def demo_live_iff demo_live_def)

end
