(* ===== verification/RT_Timer.thy ===== *)
theory RT_Timer
  imports RT_Object
begin

section \<open>Timers: \<^verbatim>\<open>src/timer.c\<close>\<close>

text \<open>
  Timers with one level of skip list. Starting a timer also resumes the timer thread, and expired
  timers call back into the kernel; \<open>rt_timer_start\<close>, \<open>rt_timer_check\<close> and the timer thread are
  therefore in the theories that follow. Here: initialisation, stopping, control, and
  \<open>timer_start_link\<close>, the part of \<open>rt_timer_start\<close> that computes the timeout and links the timer
  into the ordered list.
\<close>

subsection \<open>Operations\<close>

definition set_timer_flag :: "timer_ref \<Rightarrow> (u8 \<Rightarrow> u8) \<Rightarrow> kernel \<Rightarrow> kernel" where
  "set_timer_flag r f = upd_obj (OTimer r) (\<lambda>b. b\<lparr>ob_flag := f (ob_flag b)\<rparr>)"

definition timer_init :: "timer_ref \<Rightarrow> timeout_func \<Rightarrow> nat \<Rightarrow> u32 \<Rightarrow> u8 \<Rightarrow> kernel \<Rightarrow> kernel option" where
  "timer_init r timeout parameter time flag s = do {
     let s = set_timer_flag r (\<lambda>_. flag) s;
     let s = set_timer_flag r (\<lambda>f. f AND NOT RT_TIMER_FLAG_ACTIVATED) s;
     let s = upd_timer r (\<lambda>m. m\<lparr>tm_timeout_func := timeout, tm_parameter := parameter,
               tm_timeout_tick := 0, tm_init_tick := time\<rparr>) s;
     R \<leftarrow> ring_init_node r (timer_rings s);
     Some (s\<lparr>timer_rings := R\<rparr>)
   }"

text \<open>The value left in \<^verbatim>\<open>*timeout_tick\<close> is the second component.\<close>

definition timer_list_next_timeout :: "timer_list \<Rightarrow> u32 \<Rightarrow> kernel \<Rightarrow> rt_err \<times> u32" where
  "timer_list_next_timeout l timeout_tick s =
     (case ring (timer_rings s) l of
        [] \<Rightarrow> (- RT_ERROR, timeout_tick)
      | t # _ \<Rightarrow> (RT_EOK, tm_timeout_tick (timers s t)))"

definition timer_remove :: "timer_ref \<Rightarrow> kernel \<Rightarrow> kernel" where
  "timer_remove r s = s\<lparr>timer_rings := ring_remove r (timer_rings s)\<rparr>"

definition rt_timer_init ::
  "timer_ref \<Rightarrow> u8 list \<Rightarrow> timeout_func \<Rightarrow> nat \<Rightarrow> u32 \<Rightarrow> u8 \<Rightarrow> kernel \<Rightarrow> kernel option" where
  "rt_timer_init r name timeout parameter time flag s = do {
     RT_ASSERT (time < RT_TICK_HALF);
     s \<leftarrow> rt_object_init (OTimer r) RT_Object_Class_Timer name s;
     timer_init r timeout parameter time flag s
   }"

definition rt_timer_detach :: "timer_ref \<Rightarrow> kernel \<Rightarrow> (rt_err \<times> kernel) option" where
  "rt_timer_detach r s = do {
     RT_ASSERT (rt_object_get_type (OTimer r) s = RT_Object_Class_Timer);
     RT_ASSERT (rt_object_is_systemobject (OTimer r) s);
     let s = timer_remove r s;
     let s = set_timer_flag r (\<lambda>f. f AND NOT RT_TIMER_FLAG_ACTIVATED) s;
     let s = rt_object_detach (OTimer r) s;
     Some (RT_EOK, s)
   }"

definition rt_timer_create ::
  "timer_ref option \<Rightarrow> u8 list \<Rightarrow> timeout_func \<Rightarrow> nat \<Rightarrow> u32 \<Rightarrow> u8 \<Rightarrow> kernel \<Rightarrow> (timer_ref option \<times> kernel) option" where
  "rt_timer_create mem name timeout parameter time flag s = do {
     RT_ASSERT (time < RT_TICK_HALF);
     (timer, s) \<leftarrow> rt_object_allocate (map_option OTimer mem) RT_Object_Class_Timer name s;
     (case mem of
        None \<Rightarrow> Some (None, s)
      | Some r \<Rightarrow> do {
          s \<leftarrow> timer_init r timeout parameter time flag s;
          Some (Some r, s)
        })
   }"

definition rt_timer_delete :: "timer_ref \<Rightarrow> kernel \<Rightarrow> (rt_err \<times> kernel) option" where
  "rt_timer_delete r s = do {
     RT_ASSERT (rt_object_get_type (OTimer r) s = RT_Object_Class_Timer);
     RT_ASSERT (\<not> rt_object_is_systemobject (OTimer r) s);
     let s = timer_remove r s;
     let s = set_timer_flag r (\<lambda>f. f AND NOT RT_TIMER_FLAG_ACTIVATED) s;
     s \<leftarrow> rt_object_delete (OTimer r) s;
     Some (RT_EOK, s)
   }"

text \<open>
  The search of \<open>rt_timer_start\<close>: \<open>row_head\<close> moves along the list until the next timer is later than
  the new one (the difference of the timeouts is neither 0 nor in the upper half of the range).
\<close>

fun timer_search :: "(timer_ref \<Rightarrow> u32) \<Rightarrow> u32 \<Rightarrow> (timer_list, timer_ref) list_ref \<Rightarrow> timer_ref list \<Rightarrow>
    (timer_list, timer_ref) list_ref" where
  "timer_search tick timeout row_head [] = row_head"
| "timer_search tick timeout row_head (t # ts) =
     (if tick t - timeout = 0 then timer_search tick timeout (Node t) ts
      else if tick t - timeout < RT_TICK_HALF then row_head
      else timer_search tick timeout (Node t) ts)"

definition ring_insert_at :: "('h, 'n) list_ref \<Rightarrow> 'n \<Rightarrow> ('h, 'n) rings \<Rightarrow> ('h, 'n) rings option" where
  "ring_insert_at l n R = (case l of Head h \<Rightarrow> ring_insert_head h n R | Node m \<Rightarrow> ring_insert_after m n R)"

definition timer_start_link :: "timer_ref \<Rightarrow> kernel \<Rightarrow> kernel option" where
  "timer_start_link r s = do {
     let s = timer_remove r s;
     let s = set_timer_flag r (\<lambda>f. f AND NOT RT_TIMER_FLAG_ACTIVATED) s;
     let s = upd_timer r (\<lambda>m. m\<lparr>tm_timeout_tick := rt_tick s + tm_init_tick m\<rparr>) s;
     let l = (if timer_flag s r AND RT_TIMER_FLAG_SOFT_TIMER \<noteq> 0 then SoftTimers else HardTimers);
     let row_head = timer_search (\<lambda>t. tm_timeout_tick (timers s t)) (tm_timeout_tick (timers s r)) (Head l)
           (ring (timer_rings s) l);
     R \<leftarrow> ring_insert_at row_head r (timer_rings s);
     let s = s\<lparr>timer_rings := R\<rparr>;
     Some (set_timer_flag r (\<lambda>f. f OR RT_TIMER_FLAG_ACTIVATED) s)
   }"

definition rt_timer_stop :: "timer_ref \<Rightarrow> kernel \<Rightarrow> (rt_err \<times> kernel) option" where
  "rt_timer_stop r s = do {
     RT_ASSERT (rt_object_get_type (OTimer r) s = RT_Object_Class_Timer);
     if timer_flag s r AND RT_TIMER_FLAG_ACTIVATED = 0 then Some (- RT_ERROR, s)
     else do {
       let s = timer_remove r s;
       let s = set_timer_flag r (\<lambda>f. f AND NOT RT_TIMER_FLAG_ACTIVATED) s;
       Some (RT_EOK, s)
     }
   }"

text \<open>
  \<open>rt_timer_control\<close> reads or writes \<^verbatim>\<open>*arg\<close>: the argument is its old value, the second component of
  the result its new one. The case for \<^verbatim>\<open>RT_TIMER_CTRL_GET_STATE\<close> has no \<^verbatim>\<open>break\<close>.
\<close>

definition rt_timer_control :: "timer_ref \<Rightarrow> int \<Rightarrow> u32 \<Rightarrow> kernel \<Rightarrow> (rt_err \<times> u32 \<times> kernel) option" where
  "rt_timer_control r cmd arg s = do {
     RT_ASSERT (rt_object_get_type (OTimer r) s = RT_Object_Class_Timer);
     if cmd = 1 then Some (RT_EOK, tm_init_tick (timers s r), s)
     else if cmd = 0 then do {
       RT_ASSERT (arg < RT_TICK_HALF);
       Some (RT_EOK, arg, upd_timer r (\<lambda>m. m\<lparr>tm_init_tick := arg\<rparr>) s)
     }
     else if cmd = 2 then Some (RT_EOK, arg, set_timer_flag r (\<lambda>f. f AND NOT RT_TIMER_FLAG_PERIODIC) s)
     else if cmd = 3 then Some (RT_EOK, arg, set_timer_flag r (\<lambda>f. f OR RT_TIMER_FLAG_PERIODIC) s)
     else if cmd = 4 then
       (let arg = (if timer_flag s r AND RT_TIMER_FLAG_ACTIVATED \<noteq> 0 then (1::u32) else 0);
            arg = tm_timeout_tick (timers s r)
        in Some (RT_EOK, arg, s))
     else if cmd = 5 then Some (RT_EOK, tm_timeout_tick (timers s r), s)
     else Some (RT_EOK, arg, s)
   }"

definition rt_timer_next_timeout_tick :: "kernel \<Rightarrow> u32" where
  "rt_timer_next_timeout_tick s = snd (timer_list_next_timeout HardTimers RT_TICK_MAX s)"

definition rt_system_timer_init :: "kernel \<Rightarrow> kernel option" where
  "rt_system_timer_init s = do {
     RT_ASSERT (ring (timer_rings s) HardTimers = []);
     Some s
   }"

subsection \<open>Operations on one timer keep the invariant\<close>

text \<open>Only timer \<open>r\<close> changes: its fields, its flag, and the list it is in.\<close>

definition timer_step :: "timer_ref \<Rightarrow> kernel \<Rightarrow> kernel \<Rightarrow> bool" where
  "timer_step r s s' \<longleftrightarrow> core_step s s' \<and> threads s' = threads s \<and> thread_rings s' = thread_rings s \<and>
     rt_thread_ready_priority_group s' = rt_thread_ready_priority_group s \<and>
     rt_current_thread s' = rt_current_thread s \<and> rt_current_priority s' = rt_current_priority s \<and>
     (\<forall>q. q \<noteq> r \<longrightarrow> timers s' q = timers s q \<and> home (timer_rings s') q = home (timer_rings s) q \<and>
        objs s' (OTimer q) = objs s (OTimer q)) \<and>
     ob_name (objs s' (OTimer r)) = ob_name (objs s (OTimer r))"

lemma timer_step_refl [simp]: "timer_step r s s"
  by (simp add: timer_step_def)

lemma timer_step_trans [trans]: "timer_step r s s' \<Longrightarrow> timer_step r s' s'' \<Longrightarrow> timer_step r s s''"
  by (auto simp: timer_step_def intro: core_step_trans)

lemma timer_stepD:
  assumes "timer_step r s s'"
  shows "core_step s s'" "threads s' = threads s" "thread_rings s' = thread_rings s"
    "rt_thread_ready_priority_group s' = rt_thread_ready_priority_group s"
    "rt_current_thread s' = rt_current_thread s"
    "status s' = status s" "thread_prio s' = thread_prio s" "live s' = live s"
    "q \<noteq> r \<Longrightarrow> timers s' q = timers s q" "q \<noteq> r \<Longrightarrow> home (timer_rings s') q = home (timer_rings s) q"
    "q \<noteq> r \<Longrightarrow> objs s' (OTimer q) = objs s (OTimer q)"
  using assms core_step_live by (auto simp: timer_step_def status_def thread_prio_def fun_eq_iff)

lemma kinv_timer_cong:
  assumes inv: "kinv s" and step: "timer_step r s s'" and rings: "rings_ok (timer_rings s')" and own: "timer_ok s' r"
  shows "kinv s'"
proof -
  note d = timer_stepD [OF step]
  have "timer_ok s' q" for q
  proof (cases "q = r")
    case False
    show ?thesis
      using kinvD(6) [OF inv, of q]
      unfolding timer_ok_def timer_flag_def is_static_def d(6,8) d(9-11) [OF False] .
  qed (use own in simp)
  moreover have "thread_ok s' t" for t
    using kinvD(5) [OF inv, of t] unfolding thread_ok_def thread_timer_alive_def d .
  moreover have "obj_ok s' x" for x
  proof -
    have "ob_name (objs s' x) = ob_name (objs s x)" "ob_type (objs s' x) = ob_type (objs s x)"
      "object_rings s' = object_rings s" "heap s' = heap s"
      using step by (cases "\<exists>q. x = OTimer q"; auto simp: timer_step_def core_step_def)+
    then show ?thesis using kinvD(4) [OF inv, of x] unfolding obj_ok_def by presburger
  qed
  ultimately show ?thesis
    using kinvD [OF inv] rings d step
    by (simp add: kinv_def rings_all_ok_def group_ok_def cur_ok_def lock_ok_def core_step_def)
qed

lemma timer_step_flag: "timer_step r s (set_timer_flag r f s)"
  by (auto simp: set_timer_flag_def upd_obj_def timer_step_def core_step_def)

lemma timer_step_remove: "timer_step r s (timer_remove r s)"
  by (auto simp: timer_remove_def timer_step_def core_step_def)

lemma timer_step_upd: "timer_step r s (upd_timer r f s)"
  by (auto simp: upd_timer_def timer_step_def core_step_def)

text \<open>Unlinking a timer and clearing its active flag.\<close>

definition timer_off :: "timer_ref \<Rightarrow> kernel \<Rightarrow> kernel" where
  "timer_off r s = set_timer_flag r (\<lambda>f. f AND NOT RT_TIMER_FLAG_ACTIVATED) (timer_remove r s)"

lemma timer_off_fields:
  "timers (timer_off r s) = timers s" "timer_rings (timer_off r s) = ring_remove r (timer_rings s)"
  "bit (timer_flag (timer_off r s) r) 0 = False" "bit (timer_flag (timer_off r s) r) 1 = bit (timer_flag s r) 1"
  "bit (timer_flag (timer_off r s) r) 2 = bit (timer_flag s r) 2" "rt_tick (timer_off r s) = rt_tick s"
  unfolding timer_off_def set_timer_flag_def upd_obj_def timer_remove_def timer_flag_def by (simp_all add: bit_simps)

lemma timer_step_off: "timer_step r s (timer_off r s)"
  unfolding timer_off_def using timer_step_trans [OF timer_step_remove timer_step_flag] .

lemma kinv_timer_off: "kinv s \<Longrightarrow> kinv (timer_off r s)"
proof (rule kinv_timer_cong [OF _ timer_step_off])
  assume inv: "kinv s"
  then show "rings_ok (timer_rings (timer_off r s))"
    using rings_ok_remove [OF kinvD(2)] by (simp add: timer_off_fields)
  have st: "is_static (timer_off r s) (OTimer r) = is_static s (OTimer r)"
    using timer_stepD(1) [OF timer_step_off [of r s]] by (simp add: is_static_def core_step_def)
  show "timer_ok (timer_off r s) r"
    using kinvD(6) [OF inv, of r]
    unfolding timer_ok_def timer_place_ok_def timer_off_fields st timer_stepD(6,8) [OF timer_step_off [of r s]]
    by simp
qed

text \<open>
  \<open>timers_shrink\<close>: no timer was started, changed or created; some may have been stopped. This is how the
  kernel operations that wake threads act on the timers.
\<close>

definition timers_shrink :: "kernel \<Rightarrow> kernel \<Rightarrow> bool" where
  "timers_shrink s s' \<longleftrightarrow> timers s' = timers s \<and>
     (\<forall>l. ring (timer_rings s') l = filter (\<lambda>r. r \<in> set (ring (timer_rings s') l)) (ring (timer_rings s) l)) \<and>
     (\<forall>r. (bit (timer_flag s' r) 0 \<longrightarrow> bit (timer_flag s r) 0) \<and>
          bit (timer_flag s' r) 1 = bit (timer_flag s r) 1 \<and> bit (timer_flag s' r) 2 = bit (timer_flag s r) 2) \<and>
     (\<forall>r. live s' (OTimer r) = live s (OTimer r))"

lemma filter_self: "filter (\<lambda>r. r \<in> set xs) xs = xs"
  by (simp add: filter_id_conv)

lemma timers_shrink_refl [simp]: "timers_shrink s s"
  by (simp add: timers_shrink_def filter_self)

lemma timers_shrink_same:
  assumes "timers s' = timers s" "timer_rings s' = timer_rings s" "objs s' = objs s" "core_step s s'"
  shows "timers_shrink s s'"
  using assms core_step_live by (simp add: timers_shrink_def timer_flag_def filter_self)

lemma timers_shrink_ring:
  assumes "timers_shrink s s'"
  obtains P where "ring (timer_rings s') l = filter P (ring (timer_rings s) l)"
  using assms that unfolding timers_shrink_def by metis

lemma timers_shrink_trans [trans]:
  assumes a: "timers_shrink s s'" and b: "timers_shrink s' s''"
  shows "timers_shrink s s''"
proof -
  have "ring (timer_rings s'') l = filter (\<lambda>r. r \<in> set (ring (timer_rings s'') l)) (ring (timer_rings s) l)" for l
  proof -
    let ?A = "ring (timer_rings s) l" and ?B = "ring (timer_rings s') l" and ?C = "ring (timer_rings s'') l"
    have B: "?B = filter (\<lambda>r. r \<in> set ?B) ?A" and C: "?C = filter (\<lambda>r. r \<in> set ?C) ?B"
      using a b unfolding timers_shrink_def by blast+
    have "?C = filter (\<lambda>r. r \<in> set ?C) (filter (\<lambda>r. r \<in> set ?B) ?A)" using B C by simp
    also have "\<dots> = filter (\<lambda>r. r \<in> set ?C) ?A"
    proof -
      have "set ?C \<subseteq> set ?B" using C filter_is_subset by metis
      then show ?thesis unfolding filter_filter by (intro filter_cong) auto
    qed
    finally show ?thesis .
  qed
  then show ?thesis using a b unfolding timers_shrink_def by auto
qed

lemma timers_shrink_off:
  assumes "rings_ok (timer_rings s)"
  shows "timers_shrink s (timer_off r s)"
proof -
  have rm: "remove1 r xs = filter (\<lambda>q. q \<in> set (remove1 r xs)) xs" if "distinct xs" for xs :: "timer_ref list"
    using that by (simp add: distinct_remove1_removeAll removeAll_filter_not_eq) (rule filter_cong, auto)
  have fl: "(bit (timer_flag (timer_off r s) q) 0 \<longrightarrow> bit (timer_flag s q) 0) \<and>
      bit (timer_flag (timer_off r s) q) 1 = bit (timer_flag s q) 1 \<and>
      bit (timer_flag (timer_off r s) q) 2 = bit (timer_flag s q) 2" for q
  proof (cases "q = r")
    case False
    show ?thesis using timer_stepD(11) [OF timer_step_off False] by (simp add: timer_flag_def)
  qed (simp only: timer_off_fields, simp)
  show ?thesis
    unfolding timers_shrink_def timer_off_fields(1,2) ring_ring_remove [OF assms] timer_stepD(8) [OF timer_step_off [of r s]]
    using rm [OF rings_ok_distinct [OF assms]] fl by blast
qed

lemma rt_timer_stop_ok:
  assumes inv: "kinv s" and live: "live s (OTimer r)"
  obtains e s' where "rt_timer_stop r s = Some (e, s')" "kinv s'" "timer_step r s s'"
    "home (timer_rings s') r \<noteq> Some HardTimers" "home (timer_rings s') r \<noteq> Some SoftTimers"
    "timers s' = timers s" "e = (if bit (timer_flag s r) 0 then RT_EOK else - RT_ERROR)"
    "s' = (if bit (timer_flag s r) 0 then timer_off r s else s)" "timers_shrink s s'"
proof (cases "bit (timer_flag s r) 0")
  case True
  then show thesis
    using that [of 0 "timer_off r s"] rt_object_get_type_live [OF inv, of "OTimer r"] live
      kinv_timer_off [OF inv] timer_step_off [of r s] timers_shrink_off [OF kinvD(2) [OF inv], of r]
    by (simp add: rt_timer_stop_def class_of_def timer_off_fields Let_def) (simp add: timer_off_def)
next
  case False
  have "timer_place_ok (timer_flag s r) (home (timer_rings s) r)"
    using kinvD(6) [OF inv, of r] live by (simp add: timer_ok_def timer_flag_def)
  then show thesis
    using that [of "- 1" s] rt_object_get_type_live [OF inv, of "OTimer r"] live inv False
    by (auto simp: rt_timer_stop_def class_of_def timer_place_ok_def Let_def split: option.splits timer_list.splits)
qed

subsection \<open>The ordered timer lists\<close>

text \<open>The node the search stops at is the last of the timers that are not later.\<close>

definition later :: "(timer_ref \<Rightarrow> u32) \<Rightarrow> u32 \<Rightarrow> timer_ref \<Rightarrow> bool" where
  "later tick timeout t \<longleftrightarrow> tick t - timeout \<noteq> 0 \<and> tick t - timeout < RT_TICK_HALF"

definition end_ref :: "'h \<Rightarrow> 'n list \<Rightarrow> ('h, 'n) list_ref" where
  "end_ref l xs = (if xs = [] then Head l else Node (last xs))"

lemma timer_search_end:
  "timer_search tick timeout (end_ref l pre) ts =
     end_ref l (pre @ takeWhile (\<lambda>t. \<not> later tick timeout t) ts)"
proof (induction ts arbitrary: pre)
  case (Cons t ts)
  have "Node t = end_ref l (pre @ [t])" by (simp add: end_ref_def)
  then show ?case using Cons.IH [of "pre @ [t]"] by (simp add: later_def)
qed simp

lemma ring_insert_at_end:
  assumes ok: "rings_ok R" and ring: "ring R l = pre @ post" and free: "home R r = None"
  shows "ring_insert_at (end_ref l pre) r R =
    Some (R\<lparr>ring := (ring R)(l := pre @ r # post), home := (home R)(r := Some l)\<rparr>)"
proof (cases pre rule: rev_cases)
  case Nil
  then show ?thesis using ring free by (simp add: ring_insert_at_def end_ref_def ring_insert_head_def)
next
  case (snoc us m)
  have "m \<in> set (ring R l)" by (simp add: ring snoc)
  then have "home R m = Some l" using rings_ok_home [OF ok] by blast
  moreover have "m \<notin> set us" using rings_ok_distinct [OF ok, of l] by (auto simp: ring snoc)
  ultimately show ?thesis
    using ring free by (simp add: snoc ring_insert_at_def end_ref_def ring_insert_after_def list_insert_after_split)
qed

text \<open>The list with the timer linked behind every timer that is not later.\<close>

definition insert_timer :: "(timer_ref \<Rightarrow> u32) \<Rightarrow> u32 \<Rightarrow> timer_ref \<Rightarrow> timer_ref list \<Rightarrow> timer_ref list" where
  "insert_timer tick timeout r xs =
     takeWhile (\<lambda>t. \<not> later tick timeout t) xs @ r # dropWhile (\<lambda>t. \<not> later tick timeout t) xs"

lemma timer_search_insert:
  assumes "rings_ok R" "home R r = None"
  shows "ring_insert_at (timer_search tick timeout (Head l) (ring R l)) r R =
    Some (R\<lparr>ring := (ring R)(l := insert_timer tick timeout r (ring R l)), home := (home R)(r := Some l)\<rparr>)"
proof -
  define A B where "A = takeWhile (\<lambda>t. \<not> later tick timeout t) (ring R l)"
    and "B = dropWhile (\<lambda>t. \<not> later tick timeout t) (ring R l)"
  have "timer_search tick timeout (Head l) (ring R l) = end_ref l A"
    using timer_search_end [of tick timeout l "[]" "ring R l"] by (simp add: end_ref_def A_def)
  moreover have "ring R l = A @ B" by (simp add: A_def B_def)
  moreover have "insert_timer tick timeout r (ring R l) = A @ r # B" by (simp add: insert_timer_def A_def B_def)
  ultimately show ?thesis
    using ring_insert_at_end [OF assms(1) _ assms(2), of l A B] by simp
qed

lemma rings_ok_insert_at: "rings_ok R \<Longrightarrow> ring_insert_at l n R = Some R' \<Longrightarrow> rings_ok R'"
  by (cases l) (auto simp: ring_insert_at_def intro: rings_ok_insert_head rings_ok_insert_after)

text \<open>
  Ticks are compared by their distance from a base tick \<open>b\<close>. Within a window of half the tick
  range after \<open>b\<close>, the wrapping comparison of the search agrees with the order of the distances, for
  distances that are less than half the range apart.
\<close>

definition tick_key :: "u32 \<Rightarrow> u32 \<Rightarrow> nat" where
  "tick_key b t = unat (t - b)"

definition tick_window :: "u32 \<Rightarrow> u32 \<Rightarrow> bool" where
  "tick_window b t \<longleftrightarrow> t - b \<le> RT_TICK_HALF"

lemma half_compare:
  fixes x y :: u32
  assumes "unat x \<le> 0x7fffffff" "unat y \<le> 0x7fffffff" "unat x < unat y + 0x7fffffff"
  shows "x - y \<noteq> 0 \<and> x - y < RT_TICK_HALF \<longleftrightarrow> unat y < unat x"
proof -
  have "x - y \<noteq> 0 \<and> x - y < RT_TICK_HALF \<longleftrightarrow> unat (x - y) \<noteq> 0 \<and> unat (x - y) < 0x7fffffff"
    by (simp add: word_less_nat_alt unat_eq_0)
  also have "\<dots> \<longleftrightarrow> unat y < unat x"
    using assms by (auto simp: unat_sub_if')
  finally show ?thesis .
qed

lemma later_iff:
  assumes "tick_window b (tick t)" "tick_window b timeout" "tick_key b (tick t) < tick_key b timeout + 0x7fffffff"
  shows "later tick timeout t \<longleftrightarrow> tick_key b timeout < tick_key b (tick t)"
proof -
  have "tick t - timeout = (tick t - b) - (timeout - b)" by simp
  then show ?thesis
    using half_compare [of "tick t - b" "timeout - b"] assms
    by (simp add: later_def tick_key_def tick_window_def word_le_nat_alt)
qed

definition timers_sorted :: "u32 \<Rightarrow> (timer_ref \<Rightarrow> u32) \<Rightarrow> timer_ref list \<Rightarrow> bool" where
  "timers_sorted b tick xs \<longleftrightarrow>
     (\<forall>t\<in>set xs. tick_window b (tick t)) \<and> sorted (map (\<lambda>t. tick_key b (tick t)) xs)"

lemma sorted_insert_timer:
  assumes s: "timers_sorted b tick xs" and w: "tick_window b (tick r)"
    and near: "\<And>t. t \<in> set xs \<Longrightarrow> tick_key b (tick t) < tick_key b (tick r) + 0x7fffffff"
  shows "timers_sorted b tick (insert_timer tick (tick r) r xs)"
proof -
  let ?k = "\<lambda>t. tick_key b (tick t)" and ?P = "\<lambda>t. \<not> later tick (tick r) t"
  define A B where "A = takeWhile ?P xs" and "B = dropWhile ?P xs"
  have AB: "A @ B = xs" by (simp add: A_def B_def)
  have ins: "insert_timer tick (tick r) r xs = A @ r # B" by (simp add: insert_timer_def A_def B_def)
  have iff: "?P t \<longleftrightarrow> ?k t \<le> ?k r" if "t \<in> set xs" for t
    using later_iff [of b tick t "tick r"] s w that near [OF that] by (auto simp: timers_sorted_def)
  have sx: "sorted (map ?k (A @ B))" using s AB by (simp add: timers_sorted_def)
  have before: "?k t \<le> ?k r" if "t \<in> set A" for t
    using that iff [of t] set_takeWhileD [of t ?P xs] unfolding A_def by blast
  have after: "?k r \<le> ?k t" if t: "t \<in> set B" for t
  proof -
    obtain h hs where B: "B = h # hs" using t by (cases B) auto
    have "\<not> ?P h" using hd_dropWhile [of ?P xs] B unfolding B_def by (metis list.distinct(1) list.sel(1))
    moreover have "h \<in> set xs" using AB B by auto
    ultimately have "?k r < ?k h" using iff by force
    moreover have "?k h \<le> ?k t" using sx t by (auto simp: B sorted_append)
    ultimately show ?thesis by simp
  qed
  have "sorted (map ?k (A @ r # B))"
    using sx before after by (auto simp: sorted_append)
  moreover have "set (A @ r # B) = insert r (set xs)" using AB by auto
  ultimately show ?thesis using s w unfolding ins timers_sorted_def by auto
qed

subsection \<open>Linking a started timer\<close>

definition timer_tick :: "kernel \<Rightarrow> timer_ref \<Rightarrow> u32" where
  "timer_tick s = (\<lambda>r. tm_timeout_tick (timers s r))"

definition timer_home :: "kernel \<Rightarrow> timer_ref \<Rightarrow> timer_list" where
  "timer_home s r = (if bit (timer_flag s r) 2 then SoftTimers else HardTimers)"

text \<open>The state \<open>timer_start_link\<close> produces.\<close>

definition started :: "timer_ref \<Rightarrow> kernel \<Rightarrow> kernel" where
  "started r s =
     (let s1 = upd_timer r (\<lambda>m. m\<lparr>tm_timeout_tick := rt_tick s + tm_init_tick m\<rparr>) (timer_off r s); l = timer_home s r in
      set_timer_flag r (\<lambda>f. f OR RT_TIMER_FLAG_ACTIVATED)
        (s1\<lparr>timer_rings := (timer_rings s1)
           \<lparr>ring := (ring (timer_rings s1))(l := insert_timer (timer_tick s1) (rt_tick s + tm_init_tick (timers s r)) r
               (ring (timer_rings s1) l)),
            home := (home (timer_rings s1))(r := Some l)\<rparr>\<rparr>))"

lemma started_fields:
  "timers (started r s) = (timers s)(r := (timers s r)\<lparr>tm_timeout_tick := rt_tick s + tm_init_tick (timers s r)\<rparr>)"
  "home (timer_rings (started r s)) = (home (timer_rings s))(r := Some (timer_home s r))"
  "bit (timer_flag (started r s) r) 0 = True" "bit (timer_flag (started r s) r) 1 = bit (timer_flag s r) 1"
  "bit (timer_flag (started r s) r) 2 = bit (timer_flag s r) 2"
  "timer_tick (started r s) = (timer_tick s)(r := rt_tick s + tm_init_tick (timers s r))"
  by (auto simp: started_def Let_def set_timer_flag_def upd_obj_def upd_timer_def timer_flag_def timer_tick_def
      timer_off_def timer_remove_def bit_simps)

lemma armed_fields:
  fixes r s
  defines "s1 \<equiv> upd_timer r (\<lambda>m. m\<lparr>tm_timeout_tick := rt_tick s + tm_init_tick m\<rparr>) (timer_off r s)"
  shows "timer_tick s1 = (timer_tick s)(r := rt_tick s + tm_init_tick (timers s r))"
    "timer_rings s1 = ring_remove r (timer_rings s)" "timer_flag s1 r = timer_flag (timer_off r s) r"
  by (auto simp: s1_def upd_timer_def timer_tick_def timer_off_fields timer_flag_def)

lemma started_ring:
  "rings_ok (timer_rings s) \<Longrightarrow> ring (timer_rings (started r s)) l =
     (if l = timer_home s r
      then insert_timer (timer_tick (started r s)) (timer_tick (started r s) r) r (remove1 r (ring (timer_rings s) l))
      else remove1 r (ring (timer_rings s) l))"
  unfolding started_fields
  by (simp add: started_def Let_def armed_fields set_timer_flag_def upd_obj_def ring_ring_remove)

lemma timer_step_started: "timer_step r s (started r s)"
proof -
  let ?s1 = "upd_timer r (\<lambda>m. m\<lparr>tm_timeout_tick := rt_tick s + tm_init_tick m\<rparr>) (timer_off r s)"
  have "timer_step r s ?s1" using timer_step_trans [OF timer_step_off timer_step_upd] .
  moreover have "timer_step r ?s1 (?s1\<lparr>timer_rings := (timer_rings ?s1)\<lparr>ring := f, home := (home (timer_rings ?s1))(r := h)\<rparr>\<rparr>)"
    for f h by (auto simp: timer_step_def core_step_def)
  ultimately show ?thesis
    unfolding started_def Let_def by (meson timer_step_trans timer_step_flag)
qed

lemma timer_start_link_eq:
  assumes ok: "rings_ok (timer_rings s)"
  shows "timer_start_link r s = Some (started r s)"
proof -
  let ?s1 = "upd_timer r (\<lambda>m. m\<lparr>tm_timeout_tick := rt_tick s + tm_init_tick m\<rparr>) (timer_off r s)"
  have home: "(if timer_flag ?s1 r AND 4 \<noteq> 0 then SoftTimers else HardTimers) = timer_home s r"
    by (simp add: timer_home_def armed_fields timer_off_fields)
  have rings: "rings_ok (timer_rings ?s1)" "home (timer_rings ?s1) r = None"
    using rings_ok_remove [OF ok] by (simp_all add: armed_fields)
  have "timer_start_link r s = do {
      R \<leftarrow> ring_insert_at (timer_search (timer_tick ?s1) (timer_tick ?s1 r) (Head (timer_home s r))
             (ring (timer_rings ?s1) (timer_home s r))) r (timer_rings ?s1);
      Some (set_timer_flag r (\<lambda>f. f OR RT_TIMER_FLAG_ACTIVATED) (?s1\<lparr>timer_rings := R\<rparr>))
    }"
    unfolding timer_start_link_def Let_def home [symmetric] timer_off_def timer_tick_def
    by (simp add: set_timer_flag_def upd_obj_def timer_remove_def)
  then show ?thesis
    unfolding timer_search_insert [OF rings] by (simp add: started_def Let_def armed_fields)
qed

lemma kinv_started:
  assumes inv: "kinv s" and live: "live s (OTimer r)" and sus: "\<And>t. r = ThreadTimer t \<Longrightarrow> status s t = RT_THREAD_SUSPEND"
  shows "kinv (started r s)"
proof (rule kinv_timer_cong [OF inv timer_step_started])
  have ok: "rings_ok (timer_rings s)" using inv by (rule kinvD)
  obtain R where "ring_insert_at (timer_search (timer_tick (started r s)) (timer_tick (started r s) r) (Head (timer_home s r))
      (ring (ring_remove r (timer_rings s)) (timer_home s r))) r (ring_remove r (timer_rings s)) = Some R"
    "timer_rings (started r s) = R"
    using timer_search_insert [OF rings_ok_remove [OF ok], of r r "timer_tick (started r s)" "timer_tick (started r s) r" "timer_home s r"]
    by (simp add: started_def Let_def armed_fields set_timer_flag_def upd_obj_def timer_tick_def)
      (simp add: upd_timer_def timer_off_fields)
  then show "rings_ok (timer_rings (started r s))"
    using rings_ok_insert_at [OF rings_ok_remove [OF ok]] by blast
  have st: "is_static (started r s) (OTimer r) = is_static s (OTimer r)"
    using timer_stepD(1) [OF timer_step_started [of r s]] by (simp add: is_static_def core_step_def)
  show "timer_ok (started r s) r"
    using kinvD(6) [OF inv, of r] live sus
    unfolding timer_ok_def timer_place_ok_def started_fields st timer_stepD(6,8) [OF timer_step_started [of r s]]
    by (auto simp: timer_home_def)
qed

lemma timers_sorted_cong: "(\<And>t. t \<in> set xs \<Longrightarrow> f t = g t) \<Longrightarrow> timers_sorted b f xs = timers_sorted b g xs"
  by (simp add: timers_sorted_def cong: map_cong)

lemma timers_sorted_remove1: "timers_sorted b f xs \<Longrightarrow> timers_sorted b f (remove1 r xs)"
  by (auto simp: timers_sorted_def sorted_map_remove1 dest: set_remove1_subset [THEN subsetD])

lemma started_sorted:
  assumes ok: "rings_ok (timer_rings s)" and s: "timers_sorted b (timer_tick s) (ring (timer_rings s) l)"
    and w: "tick_window b (rt_tick s + tm_init_tick (timers s r))"
    and near: "\<And>t. t \<in> set (ring (timer_rings s) l) \<Longrightarrow>
        tick_key b (timer_tick s t) < tick_key b (rt_tick s + tm_init_tick (timers s r)) + 0x7fffffff"
  shows "timers_sorted b (timer_tick (started r s)) (ring (timer_rings (started r s)) l)"
proof -
  let ?xs = "remove1 r (ring (timer_rings s) l)" and ?f = "timer_tick (started r s)"
  have r: "r \<notin> set ?xs" using rings_ok_distinct [OF ok, of l] by simp
  then have s1: "timers_sorted b ?f ?xs"
    using timers_sorted_remove1 [OF s, of r]
    by (subst timers_sorted_cong [where g = "timer_tick s"]) (auto simp: started_fields)
  have near1: "tick_key b (?f t) < tick_key b (?f r) + 0x7fffffff" if "t \<in> set ?xs" for t
    using near [of t] that r set_remove1_subset [of r "ring (timer_rings s) l"] by (auto simp: started_fields)
  have "tick_window b (?f r)" using w by (simp add: started_fields)
  from sorted_insert_timer [of b ?f ?xs r, OF s1 this near1]
  show ?thesis using s1 by (auto simp: started_ring [OF ok])
qed

text \<open>The hard timers are ordered by the time left from the current tick.\<close>

definition hard_sorted :: "kernel \<Rightarrow> bool" where
  "hard_sorted s \<longleftrightarrow> timers_sorted (rt_tick s) (timer_tick s) (ring (timer_rings s) HardTimers) \<and>
     (\<forall>t \<in> set (ring (timer_rings s) HardTimers). timer_tick s t - rt_tick s < RT_TICK_HALF)"

lemma set_insert_timer: "set (insert_timer tick timeout r xs) = insert r (set xs)"
  using set_append [of "takeWhile (\<lambda>t. \<not> later tick timeout t) xs" "dropWhile (\<lambda>t. \<not> later tick timeout t) xs"]
  unfolding takeWhile_dropWhile_id by (auto simp: insert_timer_def)

lemma hard_sorted_started:
  assumes inv: "kinv s" and live: "live s (OTimer r)" and s: "hard_sorted s"
  shows "hard_sorted (started r s)"
proof -
  let ?n = "tm_init_tick (timers s r)"
  have n: "?n < RT_TICK_HALF"
    using kinvD(6) [OF inv, of r] live by (simp add: timer_ok_def)
  have tick: "rt_tick (started r s) = rt_tick s"
    using timer_stepD(1) [OF timer_step_started [of r s]] by (simp add: core_step_def)
  have ok: "rings_ok (timer_rings s)" using inv by (rule kinvD)
  have "timers_sorted (rt_tick s) (timer_tick (started r s)) (ring (timer_rings (started r s)) HardTimers)"
  proof (rule started_sorted [OF ok])
    show "tick_window (rt_tick s) (rt_tick s + ?n)" using n by (simp add: tick_window_def)
    show "tick_key (rt_tick s) (timer_tick s t) < tick_key (rt_tick s) (rt_tick s + ?n) + 0x7fffffff"
      if "t \<in> set (ring (timer_rings s) HardTimers)" for t
      using s that by (auto simp: hard_sorted_def tick_key_def word_less_nat_alt)
  qed (use s in \<open>simp add: hard_sorted_def\<close>)
  moreover have "timer_tick (started r s) t - rt_tick s < RT_TICK_HALF"
    if "t \<in> set (ring (timer_rings (started r s)) HardTimers)" for t
  proof (cases "t = r")
    case False
    then have "t \<in> set (ring (timer_rings s) HardTimers)"
      using that set_remove1_subset [of r "ring (timer_rings s) HardTimers"]
      by (auto simp: started_ring [OF ok] set_insert_timer split: if_splits)
    then show ?thesis using s False by (simp add: hard_sorted_def started_fields)
  qed (use n in \<open>simp add: started_fields\<close>)
  ultimately show ?thesis by (simp add: hard_sorted_def tick)
qed

subsection \<open>Creating and removing threads and timers\<close>

text \<open>
  The general form of the preservation argument: the operation changes the threads of \<open>T\<close>, the timers
  of \<open>Q\<close> and the container entries of \<open>X\<close>; what it leaves alone is not affected.
\<close>

lemma kinv_change:
  assumes inv: "kinv s"
    and threads: "\<And>u. u \<notin> T \<Longrightarrow> threads s' u = threads s u \<and> home (thread_rings s') u = home (thread_rings s) u"
    and timers: "\<And>q. q \<notin> Q \<Longrightarrow> timers s' q = timers s q \<and> home (timer_rings s') q = home (timer_rings s) q"
    and objs: "\<And>x. x \<notin> X \<Longrightarrow> objs s' x = objs s x \<and> home (object_rings s') x = home (object_rings s) x \<and>
        (BObject x \<in> heap s \<longrightarrow> BObject x \<in> heap s')"
    and closed: "\<And>u. OThread u \<in> X \<or> OTimer (ThreadTimer u) \<in> X \<Longrightarrow> u \<in> T"
      "\<And>q. OTimer q \<in> X \<Longrightarrow> q \<in> Q" "\<And>u. u \<in> T \<Longrightarrow> ThreadTimer u \<in> Q"
    and waits: "\<And>x u. x \<in> X \<Longrightarrow> u \<notin> T \<Longrightarrow> waits_on (home (thread_rings s) u) = Some x \<Longrightarrow> live s' x"
    and rings: "rings_all_ok s'"
    and ok: "\<And>u. u \<in> T \<Longrightarrow> thread_ok s' u" "\<And>q. q \<in> Q \<Longrightarrow> timer_ok s' q" "\<And>x. x \<in> X \<Longrightarrow> obj_ok s' x"
    and rest: "group_ok s'" "cur_ok s'" "lock_ok s'"
  shows "kinv s'"
proof -
  have live: "live s' x = live s x" if "x \<notin> X" for x using objs [OF that] by (simp add: live_def)
  have "thread_ok s' u" for u
  proof (cases "u \<in> T")
    case False
    note same = threads [OF False]
    have st: "status s' u = status s u" "thread_prio s' u = thread_prio s u"
      using same by (simp_all add: status_def thread_prio_def)
    have lv: "live s' (OThread u) = live s (OThread u)"
      "live s' (OTimer (ThreadTimer u)) = live s (OTimer (ThreadTimer u))"
      using closed(1) False live by blast+
    have "live s' x \<and> is_ipc x" if "waits_on (home (thread_rings s) u) = Some x" for x
      using kinvD(5) [OF inv, of u] that waits [OF _ False that] live [of x]
      by (cases "x \<in> X") (auto simp: thread_ok_def)
    then show ?thesis
      using kinvD(5) [OF inv, of u] same unfolding thread_ok_def thread_timer_alive_def st lv by simp
  qed (rule ok)
  moreover have "timer_ok s' q" for q
  proof (cases "q \<in> Q")
    case False
    have x: "OTimer q \<notin> X" using closed(2) False by blast
    have st: "status s' t = status s t" if "q = ThreadTimer t" for t
    proof -
      have "t \<notin> T" using closed(3) False that by blast
      then show ?thesis using threads by (simp add: status_def)
    qed
    show ?thesis
      using kinvD(6) [OF inv, of q] timers [OF False] objs [OF x] live [OF x] st
      by (auto simp: timer_ok_def timer_flag_def is_static_def)
  qed (rule ok)
  moreover have "obj_ok s' x" for x
  proof (cases "x \<in> X")
    case False
    then show ?thesis using kinvD(4) [OF inv, of x] objs [OF False]
      by (auto simp: obj_ok_def split: option.splits)
  qed (rule ok)
  ultimately show ?thesis using rings rest by (simp add: kinv_def)
qed

lemma not_live_timer_unlinked: "kinv s \<Longrightarrow> \<not> live s (OTimer r) \<Longrightarrow> home (timer_rings s) r = None"
  using kinvD(6) [of s r] by (auto simp: timer_ok_def)

text \<open>The state after \<open>timer_init\<close>.\<close>

definition new_timer :: "timer_ref \<Rightarrow> timeout_func \<Rightarrow> nat \<Rightarrow> u32 \<Rightarrow> u8 \<Rightarrow> kernel \<Rightarrow> kernel" where
  "new_timer r timeout parameter time flag s =
     set_timer_flag r (\<lambda>_. flag AND NOT RT_TIMER_FLAG_ACTIVATED)
       (upd_timer r (\<lambda>m. m\<lparr>tm_timeout_func := timeout, tm_parameter := parameter,
          tm_timeout_tick := 0, tm_init_tick := time\<rparr>) s)"

lemma timer_init_eq:
  "home (timer_rings s) r = None \<Longrightarrow> timer_init r timeout parameter time flag s =
     Some (new_timer r timeout parameter time flag s)"
  unfolding timer_init_def new_timer_def
  by (simp add: set_timer_flag_def upd_obj_def upd_timer_def ring_init_node_def Let_def)

lemma new_timer_fields:
  "threads (new_timer r f p n g s) = threads s" "thread_rings (new_timer r f p n g s) = thread_rings s"
  "timer_rings (new_timer r f p n g s) = timer_rings s" "object_rings (new_timer r f p n g s) = object_rings s"
  "heap (new_timer r f p n g s) = heap s"
  "timers (new_timer r f p n g s) = (timers s)(r := (timers s r)\<lparr>tm_timeout_func := f, tm_parameter := p,
      tm_timeout_tick := 0, tm_init_tick := n\<rparr>)"
  "objs (new_timer r f p n g s) = (objs s)(OTimer r := (objs s (OTimer r))\<lparr>ob_flag := g AND NOT 1\<rparr>)"
  "rt_thread_ready_priority_group (new_timer r f p n g s) = rt_thread_ready_priority_group s"
  "rt_current_thread (new_timer r f p n g s) = rt_current_thread s"
  "rt_scheduler_lock_nest (new_timer r f p n g s) = rt_scheduler_lock_nest s"
  unfolding new_timer_def by (simp_all add: set_timer_flag_def upd_obj_def upd_timer_def fun_eq_iff)

lemma group_ok_cong: "group_ok s \<Longrightarrow> rt_thread_ready_priority_group s' = rt_thread_ready_priority_group s \<Longrightarrow>
    thread_rings s' = thread_rings s \<Longrightarrow> group_ok s'"
  by (simp add: group_ok_def)

lemma cur_ok_cong: "cur_ok s \<Longrightarrow> rt_current_thread s' = rt_current_thread s \<Longrightarrow> threads s' = threads s \<Longrightarrow> cur_ok s'"
  by (simp add: cur_ok_def status_def)

lemma lock_ok_cong: "lock_ok s \<Longrightarrow> rt_scheduler_lock_nest s' = rt_scheduler_lock_nest s \<Longrightarrow> lock_ok s'"
  by (simp add: lock_ok_def)

lemma kinv_new_user_timer:
  assumes inv: "kinv s" and dead: "\<not> live s (OTimer (UserTimer n))" and nm: "length nm = 8"
    and ty: "ty = 10 OR 0x80 \<or> ty = 10 \<and> BObject (OTimer (UserTimer n)) \<in> heap s"
    and time: "time < RT_TICK_HALF"
  shows "kinv (new_timer (UserTimer n) (User_timeout f) p time g (linked_object (OTimer (UserTimer n)) ty nm s))"
    (is "kinv ?s")
proof (rule kinv_change [OF inv, where T = "{}" and Q = "{UserTimer n}" and X = "{OTimer (UserTimer n)}"])
  show "rings_all_ok ?s"
    using kinvD(1,2) [OF inv] rings_ok_linked_object [OF inv dead]
    by (simp add: rings_all_ok_def new_timer_fields) (simp add: linked_object_def)
  show "group_ok ?s" by (rule group_ok_cong [OF kinvD(7) [OF inv]]) (simp_all add: new_timer_fields linked_object_def)
  show "cur_ok ?s" by (rule cur_ok_cong [OF kinvD(8) [OF inv]]) (simp_all add: new_timer_fields linked_object_def)
  show "lock_ok ?s" by (rule lock_ok_cong [OF kinvD(9) [OF inv]]) (simp_all add: new_timer_fields linked_object_def)
  show "timer_ok ?s q" if "q \<in> {UserTimer n}" for q
    using that not_live_timer_unlinked [OF inv dead] time
    by (simp add: timer_ok_def new_timer_fields timer_place_ok_def timer_flag_def live_def linked_object_def bit_simps)
qed (use nm ty in \<open>auto simp: new_timer_fields linked_object_def obj_ok_def class_of_def live_def\<close>)

lemma rt_timer_init_ok:
  assumes inv: "kinv s" and dead: "\<not> live s (OTimer (UserTimer n))" and name: "readable RT_NAME_MAX name"
    and time: "time < RT_TICK_HALF"
  shows "\<exists>s'. rt_timer_init (UserTimer n) name (User_timeout f) p time flag s = Some s' \<and> kinv s' \<and>
    live s' (OTimer (UserTimer n)) \<and> timer_flag s' (UserTimer n) = flag AND NOT RT_TIMER_FLAG_ACTIVATED \<and>
    tm_init_tick (timers s' (UserTimer n)) = time"
proof -
  obtain s1 nm where init: "rt_object_init (OTimer (UserTimer n)) (class_of (OTimer (UserTimer n))) name s =
      Some (linked_object (OTimer (UserTimer n)) (class_of (OTimer (UserTimer n)) OR RT_Object_Class_Static) nm s1)"
    and s1: "kinv s1" "core_step s s1" "length nm = 8"
    using rt_object_init_ok [OF inv dead name] by metis
  have dead1: "\<not> live s1 (OTimer (UserTimer n))" using core_step_live [OF s1(2)] dead by simp
  let ?s = "linked_object (OTimer (UserTimer n)) (10 OR 0x80) nm s1"
  have "home (timer_rings ?s) (UserTimer n) = None"
    using not_live_timer_unlinked [OF s1(1) dead1] by (simp add: linked_object_def)
  from timer_init_eq [OF this]
  have "rt_timer_init (UserTimer n) name (User_timeout f) p time flag s =
      Some (new_timer (UserTimer n) (User_timeout f) p time flag ?s)"
    using init time by (simp add: rt_timer_init_def class_of_def)
  then show ?thesis
    using kinv_new_user_timer [OF s1(1) dead1 s1(3) _ time, of "10 OR 0x80"]
    by (simp add: new_timer_fields live_def linked_object_def timer_flag_def)
qed

text \<open>The state after a timer was stopped and taken out of the container.\<close>

definition timer_gone :: "timer_ref \<Rightarrow> kernel \<Rightarrow> kernel" where
  "timer_gone r s = rt_object_detach (OTimer r) (timer_off r s)"

lemma timer_gone_fields:
  "threads (timer_gone r s) = threads s" "thread_rings (timer_gone r s) = thread_rings s"
  "timer_rings (timer_gone r s) = ring_remove r (timer_rings s)" "timers (timer_gone r s) = timers s"
  "object_rings (timer_gone r s) = ring_remove (OTimer r) (object_rings s)" "heap (timer_gone r s) = heap s"
  "x \<noteq> OTimer r \<Longrightarrow> objs (timer_gone r s) x = objs s x"
  "ob_type (objs (timer_gone r s) (OTimer r)) = 0"
  "ob_name (objs (timer_gone r s) (OTimer r)) = ob_name (objs s (OTimer r))"
  "rt_thread_ready_priority_group (timer_gone r s) = rt_thread_ready_priority_group s"
  "rt_current_thread (timer_gone r s) = rt_current_thread s"
  "rt_scheduler_lock_nest (timer_gone r s) = rt_scheduler_lock_nest s"
  by (simp_all add: timer_gone_def rt_object_detach_def timer_off_def set_timer_flag_def upd_obj_def timer_remove_def Let_def)

lemma rings_ok_timer_gone:
  "kinv s \<Longrightarrow> rings_ok (timer_rings (timer_gone r s))" "kinv s \<Longrightarrow> rings_ok (object_rings (timer_gone r s))"
  using rings_ok_remove [OF kinvD(2)] rings_ok_remove [OF kinvD(3)] by (simp_all add: timer_gone_fields)

lemma rt_timer_detach_eq:
  assumes "rt_object_get_type (OTimer r) s = RT_Object_Class_Timer" "is_static s (OTimer r)"
  shows "rt_timer_detach r s = Some (RT_EOK, timer_gone r s)"
  using assms
  by (simp add: rt_timer_detach_def class_of_def rt_object_is_systemobject_def is_static_def timer_gone_def timer_off_def Let_def)

lemma kinv_user_timer_gone:
  assumes inv: "kinv s" and heap: "heap s' = heap s \<or> heap s' = heap s - {BObject (OTimer (UserTimer n))}"
    and s': "s' = (timer_gone (UserTimer n) s)\<lparr>heap := heap s'\<rparr>"
  shows "kinv s'"
proof (rule kinv_change [OF inv, where T = "{}" and Q = "{UserTimer n}" and X = "{OTimer (UserTimer n)}"])
  have f: "threads s' = threads s" "thread_rings s' = thread_rings s"
    "timer_rings s' = ring_remove (UserTimer n) (timer_rings s)" "timers s' = timers s"
    "object_rings s' = ring_remove (OTimer (UserTimer n)) (object_rings s)"
    "objs s' = objs (timer_gone (UserTimer n) s)"
    "rt_thread_ready_priority_group s' = rt_thread_ready_priority_group s"
    "rt_current_thread s' = rt_current_thread s" "rt_scheduler_lock_nest s' = rt_scheduler_lock_nest s"
    by (subst s', simp add: timer_gone_fields)+
  show "rings_all_ok s'"
    using kinvD(1) [OF inv] rings_ok_remove [OF kinvD(2) [OF inv]] rings_ok_remove [OF kinvD(3) [OF inv]]
    by (simp add: rings_all_ok_def f)
  show "group_ok s'" by (rule group_ok_cong [OF kinvD(7) [OF inv]]) (simp_all add: f)
  show "cur_ok s'" by (rule cur_ok_cong [OF kinvD(8) [OF inv]]) (simp_all add: f)
  show "lock_ok s'" by (rule lock_ok_cong [OF kinvD(9) [OF inv]]) (simp_all add: f)
  show "timer_ok s' q" if "q \<in> {UserTimer n}" for q
    using that by (simp add: timer_ok_def f live_def)
  show "threads s' u = threads s u \<and> home (thread_rings s') u = home (thread_rings s) u" for u by (simp add: f)
  show "timers s' q = timers s q \<and> home (timer_rings s') q = home (timer_rings s) q"
    if "q \<notin> {UserTimer n}" for q using that by (simp add: f)
  show "objs s' x = objs s x \<and> home (object_rings s') x = home (object_rings s) x \<and>
      (BObject x \<in> heap s \<longrightarrow> BObject x \<in> heap s')"
    if "x \<notin> {OTimer (UserTimer n)}" for x using that heap by (auto simp: f timer_gone_fields)
  show "obj_ok s' x" if "x \<in> {OTimer (UserTimer n)}" for x
    using that kinvD(4) [OF inv, of x] by (simp add: obj_ok_def f timer_gone_fields)
  show "live s' x" if "x \<in> {OTimer (UserTimer n)}" "waits_on (home (thread_rings s) u) = Some x" for x u
    using that kinvD(5) [OF inv, of u] by (auto simp: thread_ok_def)
qed auto

end
