(* ===== verification/RT_Thread.thy ===== *)
theory RT_Thread
  imports RT_Timer
begin

section \<open>Threads: \<^verbatim>\<open>src/thread.c\<close>\<close>

text \<open>
  The life of a thread, and \<open>rt_timer_start\<close>, which the sleeping operations call and which itself
  resumes the timer thread.

  A call that blocks is split where the thread gives up the processor: the first part ends with
  \<open>rt_schedule\<close> and the rest is executed when the thread is current again, on the state it then
  finds. The result of a first part is \<open>Return\<close> when the call has finished and \<open>Pending\<close>, with the local
  variables the rest needs, when it has not.

  \<^verbatim>\<open>rt_hw_stack_init\<close> (architecture code) is a parameter, a function from the entry point, its
  argument and the stack address to the initial stack pointer. The contents of thread stacks are not
  part of the state.
\<close>

datatype 'k call = Return rt_err | Pending 'k

subsection \<open>Operations\<close>

definition rt_thread_self :: "kernel \<Rightarrow> tid option" where
  "rt_thread_self s = rt_current_thread s"

definition rt_thread_suspend :: "tid \<Rightarrow> kernel \<Rightarrow> (rt_err \<times> kernel) option" where
  "rt_thread_suspend t s = do {
     RT_ASSERT (rt_object_get_type (OThread t) s = RT_Object_Class_Thread);
     RT_ASSERT (rt_thread_self s = Some t);
     if status s t \<noteq> RT_THREAD_READY \<and> status s t \<noteq> RT_THREAD_RUNNING then Some (- RT_ERROR, s)
     else do {
       s \<leftarrow> rt_schedule_remove_thread t s;
       let s = upd_thread t (set_stat RT_THREAD_SUSPEND) s;
       (_, s) \<leftarrow> rt_timer_stop (ThreadTimer t) s;
       Some (RT_EOK, s)
     }
   }"

definition rt_thread_resume :: "tid \<Rightarrow> kernel \<Rightarrow> (rt_err \<times> kernel) option" where
  "rt_thread_resume t s = do {
     RT_ASSERT (rt_object_get_type (OThread t) s = RT_Object_Class_Thread);
     if status s t \<noteq> RT_THREAD_SUSPEND then Some (- RT_ERROR, s)
     else do {
       let s = s\<lparr>thread_rings := ring_remove t (thread_rings s)\<rparr>;
       (_, s) \<leftarrow> rt_timer_stop (ThreadTimer t) s;
       s \<leftarrow> rt_schedule_insert_thread t s;
       Some (RT_EOK, s)
     }
   }"

definition rt_timer_start :: "timer_ref \<Rightarrow> kernel \<Rightarrow> (rt_err \<times> kernel) option" where
  "rt_timer_start r s = do {
     RT_ASSERT (rt_object_get_type (OTimer r) s = RT_Object_Class_Timer);
     s \<leftarrow> timer_start_link r s;
     if timer_flag s r AND RT_TIMER_FLAG_SOFT_TIMER \<noteq> 0 \<and> \<not> soft_timer_busy s \<and>
        status s (timer_thread s) = RT_THREAD_SUSPEND
     then do {
       (_, s) \<leftarrow> rt_thread_resume (timer_thread s) s;
       s \<leftarrow> rt_schedule s;
       Some (RT_EOK, s)
     } else Some (RT_EOK, s)
   }"

definition thread_timeout :: "tid \<Rightarrow> kernel \<Rightarrow> kernel option" where
  "thread_timeout t s = do {
     RT_ASSERT (status s t = RT_THREAD_SUSPEND);
     RT_ASSERT (rt_object_get_type (OThread t) s = RT_Object_Class_Thread);
     let s = upd_thread t (\<lambda>th. th\<lparr>th_error := - RT_ETIMEOUT\<rparr>) s;
     let s = s\<lparr>thread_rings := ring_remove t (thread_rings s)\<rparr>;
     s \<leftarrow> rt_schedule_insert_thread t s;
     rt_schedule s
   }"

definition thread_init ::
  "(nat \<Rightarrow> nat \<Rightarrow> nat \<Rightarrow> nat) \<Rightarrow> tid \<Rightarrow> nat \<Rightarrow> nat \<Rightarrow> nat \<Rightarrow> u32 \<Rightarrow> u8 \<Rightarrow> u32 \<Rightarrow> kernel \<Rightarrow> (rt_err \<times> kernel) option" where
  "thread_init hw_stack_init t entry parameter stack_start stack_size priority tick s = do {
     R \<leftarrow> ring_init_node t (thread_rings s);
     let s = s\<lparr>thread_rings := R\<rparr>;
     let s = upd_thread t (\<lambda>th. th\<lparr>th_entry := entry, th_parameter := parameter, th_stack_addr := stack_start,
           th_stack_size := stack_size,
           th_sp := hw_stack_init entry parameter (stack_start + unat stack_size - 4)\<rparr>) s;
     RT_ASSERT (unat priority < RT_THREAD_PRIORITY_MAX);
     let s = upd_thread t (\<lambda>th. th\<lparr>th_current_priority := priority, th_number_mask := 0, th_event_set := 0,
           th_event_info := 0, th_init_tick := tick, th_remaining_tick := tick, th_error := RT_EOK,
           th_stat := RT_THREAD_INIT, th_cleanup := None, th_user_data := 0\<rparr>) s;
     s \<leftarrow> rt_timer_init (ThreadTimer t) (ob_name (objs s (OThread t))) Thread_timeout t 0 RT_TIMER_FLAG_ONE_SHOT s;
     Some (RT_EOK, s)
   }"

definition rt_thread_init ::
  "(nat \<Rightarrow> nat \<Rightarrow> nat \<Rightarrow> nat) \<Rightarrow> tid \<Rightarrow> u8 list \<Rightarrow> nat \<Rightarrow> nat \<Rightarrow> nat \<Rightarrow> u32 \<Rightarrow> u8 \<Rightarrow> u32 \<Rightarrow> kernel \<Rightarrow>
   (rt_err \<times> kernel) option" where
  "rt_thread_init hw_stack_init t name entry parameter stack_start stack_size priority tick s = do {
     RT_ASSERT (stack_start \<noteq> 0);
     s \<leftarrow> rt_object_init (OThread t) RT_Object_Class_Thread name s;
     thread_init hw_stack_init t entry parameter stack_start stack_size priority tick s
   }"

definition rt_thread_startup :: "tid \<Rightarrow> kernel \<Rightarrow> (rt_err \<times> kernel) option" where
  "rt_thread_startup t s = do {
     RT_ASSERT (status s t = RT_THREAD_INIT);
     RT_ASSERT (rt_object_get_type (OThread t) s = RT_Object_Class_Thread);
     let s = upd_thread t (\<lambda>th. th\<lparr>th_number_mask := push_bit (unat (th_current_priority th)) 1\<rparr>) s;
     let s = upd_thread t (\<lambda>th. th\<lparr>th_stat := RT_THREAD_SUSPEND\<rparr>) s;
     (_, s) \<leftarrow> rt_thread_resume t s;
     s \<leftarrow> (if rt_thread_self s \<noteq> None then rt_schedule s else Some s);
     Some (RT_EOK, s)
   }"

text \<open>From \<^verbatim>\<open>idle.c\<close>: closed threads wait in the list of defunct threads.\<close>

definition rt_thread_defunct_enqueue :: "tid \<Rightarrow> kernel \<Rightarrow> kernel option" where
  "rt_thread_defunct_enqueue t s = do {
     R \<leftarrow> ring_insert_head Defunct t (thread_rings s);
     Some (s\<lparr>thread_rings := R\<rparr>)
   }"

definition rt_thread_detach :: "tid \<Rightarrow> kernel \<Rightarrow> (rt_err \<times> kernel) option" where
  "rt_thread_detach t s = do {
     RT_ASSERT (rt_object_get_type (OThread t) s = RT_Object_Class_Thread);
     RT_ASSERT (rt_object_is_systemobject (OThread t) s);
     if status s t = RT_THREAD_CLOSE then Some (RT_EOK, s)
     else do {
       s \<leftarrow> (if status s t \<noteq> RT_THREAD_INIT then rt_schedule_remove_thread t s else Some s);
       (_, s) \<leftarrow> rt_timer_detach (ThreadTimer t) s;
       let s = upd_thread t (\<lambda>th. th\<lparr>th_stat := RT_THREAD_CLOSE\<rparr>) s;
       s \<leftarrow> rt_thread_defunct_enqueue t s;
       Some (RT_EOK, s)
     }
   }"

definition rt_thread_create ::
  "(nat \<Rightarrow> nat \<Rightarrow> nat \<Rightarrow> nat) \<Rightarrow> tid option \<Rightarrow> nat option \<Rightarrow> u8 list \<Rightarrow> nat \<Rightarrow> nat \<Rightarrow> u32 \<Rightarrow> u8 \<Rightarrow> u32 \<Rightarrow> kernel \<Rightarrow>
   (tid option \<times> kernel) option" where
  "rt_thread_create hw_stack_init mem stack_mem name entry parameter stack_size priority tick s = do {
     (_, s) \<leftarrow> rt_object_allocate (map_option OThread mem) RT_Object_Class_Thread name s;
     (case mem of
        None \<Rightarrow> Some (None, s)
      | Some t \<Rightarrow>
         (case stack_mem of
            None \<Rightarrow> do {
              s \<leftarrow> rt_object_delete (OThread t) s;
              Some (None, s)
            }
          | Some stack_start \<Rightarrow> do {
              let s = s\<lparr>heap := insert (BStack stack_start) (heap s)\<rparr>;
              (_, s) \<leftarrow> thread_init hw_stack_init t entry parameter stack_start stack_size priority tick s;
              Some (Some t, s)
            }))
   }"

definition rt_thread_delete :: "tid \<Rightarrow> kernel \<Rightarrow> (rt_err \<times> kernel) option" where
  "rt_thread_delete t s = do {
     RT_ASSERT (rt_object_get_type (OThread t) s = RT_Object_Class_Thread);
     RT_ASSERT (\<not> rt_object_is_systemobject (OThread t) s);
     if status s t = RT_THREAD_CLOSE then Some (RT_EOK, s)
     else do {
       s \<leftarrow> (if status s t \<noteq> RT_THREAD_INIT then rt_schedule_remove_thread t s else Some s);
       (_, s) \<leftarrow> rt_timer_detach (ThreadTimer t) s;
       let s = upd_thread t (\<lambda>th. th\<lparr>th_stat := RT_THREAD_CLOSE\<rparr>) s;
       s \<leftarrow> rt_thread_defunct_enqueue t s;
       Some (RT_EOK, s)
     }
   }"

text \<open>\<^verbatim>\<open>_thread_exit\<close>: where a thread returns to when its entry function ends.\<close>

definition thread_exit :: "kernel \<Rightarrow> kernel option" where
  "thread_exit s = do {
     t \<leftarrow> rt_thread_self s;
     s \<leftarrow> rt_schedule_remove_thread t s;
     (_, s) \<leftarrow> rt_timer_detach (ThreadTimer t) s;
     let s = upd_thread t (\<lambda>th. th\<lparr>th_stat := RT_THREAD_CLOSE\<rparr>) s;
     s \<leftarrow> rt_thread_defunct_enqueue t s;
     rt_schedule s
   }"

definition rt_thread_yield :: "kernel \<Rightarrow> (rt_err \<times> kernel) option" where
  "rt_thread_yield s = do {
     t \<leftarrow> rt_thread_self s;
     let s = upd_thread t (\<lambda>th. th\<lparr>th_remaining_tick := th_init_tick th,
           th_stat := th_stat th OR RT_THREAD_STAT_YIELD\<rparr>) s;
     s \<leftarrow> rt_schedule s;
     Some (RT_EOK, s)
   }"

definition rt_thread_sleep :: "u32 \<Rightarrow> kernel \<Rightarrow> (tid call \<times> kernel) option" where
  "rt_thread_sleep tick s = do {
     t \<leftarrow> rt_thread_self s;
     RT_ASSERT (rt_object_get_type (OThread t) s = RT_Object_Class_Thread);
     let s = upd_thread t (\<lambda>th. th\<lparr>th_error := RT_EOK\<rparr>) s;
     (_, s) \<leftarrow> rt_thread_suspend t s;
     (_, _, s) \<leftarrow> rt_timer_control (ThreadTimer t) 0 tick s;
     (_, s) \<leftarrow> rt_timer_start (ThreadTimer t) s;
     s \<leftarrow> rt_schedule s;
     Some (Pending t, s)
   }"

definition rt_thread_sleep_resume :: "tid \<Rightarrow> kernel \<Rightarrow> rt_err \<times> kernel" where
  "rt_thread_sleep_resume t s =
     (let s = (if th_error (threads s t) = - RT_ETIMEOUT
               then upd_thread t (\<lambda>th. th\<lparr>th_error := RT_EOK\<rparr>) s else s)
      in (th_error (threads s t), s))"

definition rt_thread_delay :: "u32 \<Rightarrow> kernel \<Rightarrow> (tid call \<times> kernel) option" where
  "rt_thread_delay tick s = rt_thread_sleep tick s"

text \<open>\<open>rt_thread_delay_until\<close> also returns the new value of \<^verbatim>\<open>*tick\<close>.\<close>

definition rt_thread_delay_until :: "u32 \<Rightarrow> u32 \<Rightarrow> kernel \<Rightarrow> (tid call \<times> u32 \<times> kernel) option" where
  "rt_thread_delay_until tick inc_tick s = do {
     t \<leftarrow> rt_thread_self s;
     RT_ASSERT (rt_object_get_type (OThread t) s = RT_Object_Class_Thread);
     let s = upd_thread t (\<lambda>th. th\<lparr>th_error := RT_EOK\<rparr>) s;
     let cur_tick = rt_tick s;
     if cur_tick - tick < inc_tick then do {
       let tick = tick + inc_tick;
       let left_tick = tick - cur_tick;
       (_, s) \<leftarrow> rt_thread_suspend t s;
       (_, _, s) \<leftarrow> rt_timer_control (ThreadTimer t) 0 left_tick s;
       (_, s) \<leftarrow> rt_timer_start (ThreadTimer t) s;
       s \<leftarrow> rt_schedule s;
       Some (Pending t, tick, s)
     } else Some (Return (th_error (threads s t)), cur_tick, s)
   }"

text \<open>\<open>rt_thread_control\<close>: \<open>arg\<close> is the priority pointed to by the argument.\<close>

definition rt_thread_control :: "tid \<Rightarrow> int \<Rightarrow> u8 \<Rightarrow> kernel \<Rightarrow> (rt_err \<times> kernel) option" where
  "rt_thread_control t cmd arg s = do {
     RT_ASSERT (rt_object_get_type (OThread t) s = RT_Object_Class_Thread);
     if cmd = 2 then
       (if status s t = RT_THREAD_READY then do {
          s \<leftarrow> rt_schedule_remove_thread t s;
          let s = upd_thread t (\<lambda>th. th\<lparr>th_current_priority := arg,
                th_number_mask := push_bit (unat arg) 1\<rparr>) s;
          s \<leftarrow> rt_schedule_insert_thread t s;
          Some (RT_EOK, s)
        } else Some (RT_EOK, upd_thread t (\<lambda>th. th\<lparr>th_current_priority := arg,
                th_number_mask := push_bit (unat arg) 1\<rparr>) s))
     else if cmd = 0 then rt_thread_startup t s
     else if cmd = 1 then do {
       (e, s) \<leftarrow> (if rt_object_is_systemobject (OThread t) s then rt_thread_detach t s else rt_thread_delete t s);
       s \<leftarrow> rt_schedule s;
       Some (e, s)
     }
     else Some (RT_EOK, s)
   }"

definition rt_thread_find :: "u8 list option \<Rightarrow> kernel \<Rightarrow> (obj_ref option \<times> kernel) option" where
  "rt_thread_find name s = rt_object_find name RT_Object_Class_Thread s"

subsection \<open>Suspending and resuming\<close>

text \<open>An operation on one thread \<open>t\<close> and its timer.\<close>

definition thread_step :: "tid \<Rightarrow> kernel \<Rightarrow> kernel \<Rightarrow> bool" where
  "thread_step t s s' \<longleftrightarrow> core_step s s' \<and> rt_current_thread s' = rt_current_thread s \<and>
     rt_current_priority s' = rt_current_priority s \<and>
     (\<forall>u. u \<noteq> t \<longrightarrow> threads s' u = threads s u \<and> home (thread_rings s') u = home (thread_rings s) u) \<and>
     (\<forall>q. q \<noteq> ThreadTimer t \<longrightarrow> timers s' q = timers s q \<and> home (timer_rings s') q = home (timer_rings s) q \<and>
        objs s' (OTimer q) = objs s (OTimer q))"

lemma thread_step_refl [simp]: "thread_step t s s"
  by (simp add: thread_step_def)

lemma thread_step_trans [trans]: "thread_step t s s' \<Longrightarrow> thread_step t s' s'' \<Longrightarrow> thread_step t s s''"
  by (auto simp: thread_step_def intro: core_step_trans)

lemma thread_stepD:
  assumes "thread_step t s s'"
  shows "core_step s s'" "rt_current_thread s' = rt_current_thread s" "live s' = live s"
    "u \<noteq> t \<Longrightarrow> threads s' u = threads s u" "u \<noteq> t \<Longrightarrow> status s' u = status s u"
    "u \<noteq> t \<Longrightarrow> home (thread_rings s') u = home (thread_rings s) u"
  using assms core_step_live by (auto simp: thread_step_def status_def)

lemma timer_step_thread_step: "timer_step (ThreadTimer t) s s' \<Longrightarrow> thread_step t s s'"
  by (auto simp: thread_step_def timer_step_def)

lemma thread_step_upd: "thread_step t s (upd_thread t f s)"
  by (auto simp: thread_step_def upd_thread_def core_step_def)

text \<open>Changing the status of an unlinked thread.\<close>

lemma kinv_set_status:
  assumes inv: "kinv s" and un: "home (thread_rings s) t = None" and live: "live s (OThread t)"
    and old: "active (status s t)" and new: "v = RT_THREAD_SUSPEND \<or> v = RT_THREAD_RUNNING \<and> rt_current_thread s = Some t"
    and tm: "v = RT_THREAD_SUSPEND \<or> home (timer_rings s) (ThreadTimer t) \<noteq> Some HardTimers"
  shows "kinv (upd_thread t (set_stat v) s)" (is "kinv ?s")
proof (rule kinv_threads_cong [OF inv, where T = "{t}"])
  have v: "v AND 7 = v" using new by auto
  have st: "status ?s u = (if u = t then v else status s u)" "thread_prio ?s u = thread_prio s u" "live ?s = live s"
    "thread_rings ?s = thread_rings s" "th_number_mask (threads ?s u) = th_number_mask (threads s u)" for u
    using v by (auto simp: status_def upd_thread_def thread_prio_def live_def fun_eq_iff)
  show "thread_ok ?s u" if "u \<in> {t}" for u
    using that kinvD(5) [OF inv, of t] kinv_active [OF inv old] new un live
    by (auto simp: thread_ok_def thread_timer_alive_def st place_ok_def waits_on_def)
  show "status ?s u = RT_THREAD_SUSPEND"
    if "u \<in> {t}" "home (timer_rings s) (ThreadTimer u) = Some HardTimers" for u
    using that tm by (auto simp: status_def upd_thread_def)
  show "cur_ok ?s"
    using kinvD(8) [OF inv] new by (auto simp: cur_ok_def st) (auto simp: upd_thread_def)
qed (use kinvD [OF inv] in \<open>auto simp: upd_thread_def group_ok_def\<close>)

lemma rt_thread_suspend_ok:
  assumes inv: "kinv s" and cur: "rt_current_thread s = Some t" and run: "status s t = RT_THREAD_RUNNING"
  obtains s' where "rt_thread_suspend t s = Some (RT_EOK, s')" "kinv s'" "thread_step t s s'"
    "thread_rings s' = thread_rings s" "home (thread_rings s') t = None" "status s' t = RT_THREAD_SUSPEND"
    "rt_thread_ready_priority_group s' = rt_thread_ready_priority_group s" "timers s' = timers s"
    "th_error (threads s' t) = th_error (threads s t)" "thread_prio s' t = thread_prio s t"
    "home (timer_rings s') (ThreadTimer t) \<noteq> Some HardTimers"
    "(threads s' t)\<lparr>th_stat := 0\<rparr> = (threads s t)\<lparr>th_stat := 0\<rparr>"
proof -
  have act: "active (status s t)" by (simp add: run)
  note a = kinv_active [OF inv act]
  have un: "home (thread_rings s) t = None" using kinv_running_unlinked [OF inv run] .
  have rm: "rt_schedule_remove_thread t s = Some s"
    by (rule remove_unlinked_eq [OF un kinvD(7) [OF inv] a(3,2)])
  let ?s1 = "upd_thread t (set_stat RT_THREAD_SUSPEND) s"
  have k1: "kinv ?s1" using kinv_set_status [OF inv un a(1) act] by simp
  have live1: "live ?s1 (OTimer (ThreadTimer t))" using a(4) by (simp add: live_def upd_thread_def)
  obtain e s' where s': "rt_timer_stop (ThreadTimer t) ?s1 = Some (e, s')" "kinv s'" "timer_step (ThreadTimer t) ?s1 s'"
    "home (timer_rings s') (ThreadTimer t) \<noteq> Some HardTimers" "timers s' = timers ?s1"
    using rt_timer_stop_ok [OF k1 live1] by metis
  note d = timer_stepD [OF s'(3)]
  have "thread_step t s s'"
    using thread_step_trans [OF thread_step_upd timer_step_thread_step [OF s'(3)]] .
  moreover have "rt_thread_suspend t s = Some (RT_EOK, s')"
    using rt_object_get_type_live [OF inv, of "OThread t"] a(1) cur run rm s'(1)
    by (simp add: rt_thread_suspend_def class_of_def rt_thread_self_def Let_def)
  ultimately show thesis
    using that s' d(2-7) un by (simp add: upd_thread_def status_def thread_prio_def)
qed

text \<open>A suspended thread may be taken out of the list it waits in.\<close>

lemma kinv_unlink_suspended:
  assumes inv: "kinv s" and sus: "status s t = RT_THREAD_SUSPEND"
  shows "kinv (s\<lparr>thread_rings := ring_remove t (thread_rings s)\<rparr>)" (is "kinv ?s")
proof (rule kinv_threads_cong [OF inv, where T = "{t}"])
  have st: "status ?s u = status s u" "thread_prio ?s u = thread_prio s u" "live ?s = live s" for u
    by (simp_all add: status_def thread_prio_def live_def fun_eq_iff)
  show "thread_ok ?s u" if "u \<in> {t}" for u
    using that kinvD(5) [OF inv, of t] sus
    by (simp add: thread_ok_def thread_timer_alive_def st) (simp add: place_ok_def waits_on_def)
  show "cur_ok ?s" using kinvD(8) [OF inv] by (simp add: cur_ok_def st)
  have "home (thread_rings s) t \<noteq> Some (Ready p)" for p
    using kinv_not_ready [OF inv, of t p] sus by auto
  then show "group_ok ?s"
    using kinvD(7) [OF inv] by (auto simp: group_ok_def ring_remove_def split: option.splits)
qed (use kinvD [OF inv] sus in \<open>auto simp: status_def\<close>)

text \<open>Making a suspended, unlinked thread whose timer is stopped ready (or running again).\<close>

lemma insert_thread_ok:
  assumes inv: "kinv s" and sus: "status s t = RT_THREAD_SUSPEND" and un: "home (thread_rings s) t = None"
    and tm: "home (timer_rings s) (ThreadTimer t) \<noteq> Some HardTimers"
  obtains s' where "rt_schedule_insert_thread t s = Some s'" "kinv s'" "sched_step s s'" "thread_step t s s'"
    "status s' t = (if rt_current_thread s = Some t then RT_THREAD_RUNNING else RT_THREAD_READY)"
    "ring (thread_rings s') = (if rt_current_thread s = Some t then ring (thread_rings s)
       else (ring (thread_rings s))(Ready (thread_prio s t) := ring (thread_rings s) (Ready (thread_prio s t)) @ [t]))"
proof -
  have act: "active (status s t)" by (simp add: sus)
  note a = kinv_active [OF inv act]
  show thesis
  proof (cases "rt_current_thread s = Some t")
    case True
    let ?s = "upd_thread t (set_stat RT_THREAD_RUNNING) s"
    have "kinv ?s" using kinv_set_status [OF inv un a(1) act] True tm by simp
    moreover have "rt_schedule_insert_thread t s = Some ?s"
      using True by (simp add: rt_schedule_insert_thread_def)
    moreover have "sched_step s ?s" by (auto simp: sched_step_def core_step_def upd_thread_def)
    ultimately show thesis
      using that [of ?s] thread_step_upd [of t s] True by (simp add: upd_thread_def status_def)
  next
    case False
    obtain s' where s': "rt_schedule_insert_thread t s = Some s'"
      "threads s' = (threads s)(t := set_stat RT_THREAD_READY (threads s t))"
      "home (thread_rings s') = (home (thread_rings s))(t := Some (Ready (thread_prio s t)))"
      "ring (thread_rings s') = (ring (thread_rings s))(Ready (thread_prio s t) :=
         ring (thread_rings s) (Ready (thread_prio s t)) @ [t])"
      "group_ok s'" "rings_ok (thread_rings s')" "sched_step s s'" "rt_current_thread s' = rt_current_thread s"
      "thread_prio s' = thread_prio s"
      using insert_thread_result [OF False a(3) un a(2) kinvD(7) [OF inv] kinvD(1) [OF inv]] .
    have live: "live s' = live s" using core_step_live [OF sched_step_core [OF s'(7)]] .
    have st: "status s' u = (if u = t then RT_THREAD_READY else status s u)" for u
      by (simp add: status_def s'(2))
    have "kinv s'"
    proof (rule kinv_threads_cong [OF inv, where T = "{t}"])
      show "thread_ok s' u" if "u \<in> {t}" for u
        using that kinvD(5) [OF inv, of t] a sus
        by (auto simp: thread_ok_def thread_timer_alive_def st s'(2,3,9) live place_ok_def waits_on_def)
      show "status s' u = RT_THREAD_SUSPEND"
        if "u \<in> {t}" "home (timer_rings s) (ThreadTimer u) = Some HardTimers" for u
        using that tm by simp
      show "cur_ok s'" using kinvD(8) [OF inv] False by (auto simp: cur_ok_def st s'(8))
    qed (use s' in \<open>auto simp: sched_step_def core_step_def\<close>)
    moreover have "thread_step t s s'"
      using s' insert_thread_eq [OF False a(3) un] by (auto simp: thread_step_def sched_step_def)
    ultimately show thesis using that [of s'] s' st False by simp
  qed
qed

lemma rt_thread_resume_ok:
  assumes inv: "kinv s" and sus: "status s t = RT_THREAD_SUSPEND"
  obtains s' where "rt_thread_resume t s = Some (RT_EOK, s')" "kinv s'" "thread_step t s s'"
    "status s' t = (if rt_current_thread s = Some t then RT_THREAD_RUNNING else RT_THREAD_READY)"
    "th_error (threads s' t) = th_error (threads s t)" "thread_prio s' t = thread_prio s t"
    "ring (thread_rings s') = (\<lambda>l. if l = Ready (thread_prio s t) \<and> rt_current_thread s \<noteq> Some t
       then ring (thread_rings s) l @ [t] else remove1 t (ring (thread_rings s) l))"
    "th_event_set (threads s' t) = th_event_set (threads s t)"
    "th_event_info (threads s' t) = th_event_info (threads s t)" "timers_shrink s s'"
    "(threads s' t)\<lparr>th_stat := 0\<rparr> = (threads s t)\<lparr>th_stat := 0\<rparr>"
proof -
  have act: "active (status s t)" by (simp add: sus)
  note a = kinv_active [OF inv act]
  let ?s1 = "s\<lparr>thread_rings := ring_remove t (thread_rings s)\<rparr>"
  have k1: "kinv ?s1" using kinv_unlink_suspended [OF inv sus] .
  have live1: "live ?s1 (OTimer (ThreadTimer t))" using a(4) by (simp add: live_def)
  obtain e s2 where s2: "rt_timer_stop (ThreadTimer t) ?s1 = Some (e, s2)" "kinv s2" "timer_step (ThreadTimer t) ?s1 s2"
    "home (timer_rings s2) (ThreadTimer t) \<noteq> Some HardTimers" "timers_shrink ?s1 s2"
    by (rule rt_timer_stop_ok [OF k1 live1], rule that)
  note d2 = timer_stepD [OF s2(3)]
  have sus2: "status s2 t = RT_THREAD_SUSPEND" "home (thread_rings s2) t = None"
    using d2(2,3,6) sus by (simp_all add: status_def)
  obtain s3 where s3: "rt_schedule_insert_thread t s2 = Some s3" "kinv s3" "sched_step s2 s3" "thread_step t s2 s3"
    "status s3 t = (if rt_current_thread s2 = Some t then RT_THREAD_RUNNING else RT_THREAD_READY)"
    "ring (thread_rings s3) = (if rt_current_thread s2 = Some t then ring (thread_rings s2)
       else (ring (thread_rings s2))(Ready (thread_prio s2 t) := ring (thread_rings s2) (Ready (thread_prio s2 t)) @ [t]))"
    using insert_thread_ok [OF s2(2) sus2 s2(4)] .
  have "thread_step t s ?s1" by (auto simp: thread_step_def core_step_def)
  then have step: "thread_step t s s3"
    using timer_step_thread_step [OF s2(3)] s3(4) thread_step_trans by blast
  have "t \<notin> set (ring (thread_rings s) (Ready p))" for p
    using kinv_ready_iff [OF inv, of t p] sus by simp
  then have keep: "remove1 t (ring (thread_rings s) (Ready p)) = ring (thread_rings s) (Ready p)" for p
    by (simp add: remove1_idem)
  have rings: "ring (thread_rings s3) = (\<lambda>l. if l = Ready (thread_prio s t) \<and> rt_current_thread s \<noteq> Some t
       then ring (thread_rings s) l @ [t] else remove1 t (ring (thread_rings s) l))"
    using d2(3,5) s3(6) keep d2(7)
    by (auto simp: fun_eq_iff ring_ring_remove [OF kinvD(1) [OF inv]] thread_prio_def)
  have eq: "rt_thread_resume t s = Some (RT_EOK, s3)"
    using rt_object_get_type_live [OF inv, of "OThread t"] a(1) sus s2(1) s3(1)
    by (simp add: rt_thread_resume_def class_of_def Let_def)
  have "timers_shrink s ?s1" by (rule timers_shrink_same) (simp_all add: core_step_def)
  moreover have "timers_shrink s2 s3"
    by (rule timers_shrink_same) (use s3(3) in \<open>simp_all add: sched_step_def\<close>)
  ultimately have shrink: "timers_shrink s s3" using s2(5) timers_shrink_trans by blast
  show thesis
    using that [OF eq s3(2) step] rings shrink s3(3,5) d2(2,5,7) sched_step_thread [OF s3(3)]
    by (simp add: thread_prio_def sched_step_def)
qed

subsection \<open>Starting timers and sleeping\<close>

lemma rt_timer_start_hard:
  assumes inv: "kinv s" and live: "live s (OTimer r)" and hard: "\<not> bit (timer_flag s r) 2"
  shows "rt_timer_start r s = Some (RT_EOK, started r s)"
  using timer_start_link_eq [OF kinvD(2) [OF inv], of r] rt_object_get_type_live [OF inv, of "OTimer r"] live hard
    started_fields(5) [of r s]
  by (simp add: rt_timer_start_def class_of_def)

lemma rt_timer_start_ok:
  assumes inv: "kinv s" and live: "live s (OTimer r)" and cur: "rt_current_thread s = Some c"
    and sus: "\<And>t. r = ThreadTimer t \<Longrightarrow> status s t = RT_THREAD_SUSPEND"
  obtains s' where "rt_timer_start r s = Some (RT_EOK, s')" "kinv s'" "core_step s s'" "rt_current_thread s' \<noteq> None"
proof -
  let ?s1 = "started r s"
  have k1: "kinv ?s1" using kinv_started [OF inv live sus] .
  note d1 = timer_stepD [OF timer_step_started [of r s]]
  have start: "rt_timer_start r s = (if bit (timer_flag ?s1 r) 2 \<and> \<not> soft_timer_busy ?s1 \<and>
        status ?s1 (timer_thread ?s1) = RT_THREAD_SUSPEND
     then do {
       (_, s) \<leftarrow> rt_thread_resume (timer_thread ?s1) ?s1;
       s \<leftarrow> rt_schedule s;
       Some (RT_EOK, s)
     } else Some (RT_EOK, ?s1))"
    using timer_start_link_eq [OF kinvD(2) [OF inv], of r] rt_object_get_type_live [OF inv, of "OTimer r"] live
    by (simp add: rt_timer_start_def class_of_def)
  show thesis
  proof (cases "bit (timer_flag ?s1 r) 2 \<and> \<not> soft_timer_busy ?s1 \<and> status ?s1 (timer_thread ?s1) = RT_THREAD_SUSPEND")
    case True
    then obtain s2 where s2: "rt_thread_resume (timer_thread ?s1) ?s1 = Some (RT_EOK, s2)" "kinv s2"
      "thread_step (timer_thread ?s1) ?s1 s2"
      using rt_thread_resume_ok [OF k1, of "timer_thread ?s1"] by metis
    have "rt_current_thread s2 = Some c" using thread_stepD(2) [OF s2(3)] d1(5) cur by simp
    from rt_schedule_ok [OF s2(2) this] obtain s3 where s3: "rt_schedule s2 = Some s3" "schedules s2 s3" .
    have "core_step s s3"
      using d1(1) thread_stepD(1) [OF s2(3)] schedulesD(3) [OF s3(2)] core_step_trans by blast
    then show thesis using that [of s3] start True s2(1) s3 schedulesD(1,4) [OF s3(2)] by simp
  next
    case False
    then have "rt_timer_start r s = Some (RT_EOK, ?s1)" unfolding start by (simp only: if_False)
    then show thesis using that [of ?s1] k1 d1(1,5) cur by simp
  qed
qed

lemma kinv_upd_timer:
  assumes inv: "kinv s" and time: "n < RT_TICK_HALF"
  shows "kinv (upd_timer r (\<lambda>m. m\<lparr>tm_init_tick := n\<rparr>) s)"
proof (rule kinv_timer_cong [OF inv timer_step_upd])
  show "timer_ok (upd_timer r (\<lambda>m. m\<lparr>tm_init_tick := n\<rparr>) s) r"
    using kinvD(6) [OF inv, of r] time
    by (auto simp: timer_ok_def upd_timer_def timer_flag_def is_static_def live_def status_def)
qed (use kinvD(2) [OF inv] in \<open>simp add: upd_timer_def\<close>)

lemma kinv_upd_thread:
  assumes inv: "kinv s" and f: "\<And>th. th_stat (f th) AND 7 = th_stat th AND 7"
    "\<And>th. th_current_priority (f th) = th_current_priority th" "\<And>th. th_number_mask (f th) = th_number_mask th"
  shows "kinv (upd_thread t f s)" (is "kinv ?s")
proof (rule kinv_threads_cong [OF inv, where T = "{t}"])
  have st: "status ?s u = status s u" "thread_prio ?s u = thread_prio s u" "live ?s = live s"
    "th_number_mask (threads ?s u) = th_number_mask (threads s u)" "thread_rings ?s = thread_rings s" for u
    using f by (auto simp: status_def thread_prio_def live_def fun_eq_iff upd_thread_def)
  show "thread_ok ?s u" if "u \<in> {t}" for u
    using kinvD(5) [OF inv, of u] unfolding thread_ok_def thread_timer_alive_def st .
  show "status ?s u = RT_THREAD_SUSPEND" if "home (timer_rings s) (ThreadTimer u) = Some HardTimers" for u
    using kinvD(6) [OF inv, of "ThreadTimer u"] that by (simp add: st timer_ok_def)
  show "cur_ok ?s" using kinvD(8) [OF inv] by (simp add: cur_ok_def st) (simp add: upd_thread_def)
qed (use kinvD [OF inv] in \<open>auto simp: upd_thread_def group_ok_def\<close>)

text \<open>
  The common part of the sleeping operations: suspend the current thread, set its timer to \<open>n\<close> ticks and
  start it.
\<close>

lemma suspend_with_timer:
  assumes inv: "kinv s" and cur: "rt_current_thread s = Some t" and run: "status s t = RT_THREAD_RUNNING"
    and n: "n < RT_TICK_HALF"
  obtains s1 s2 where "rt_thread_suspend t s = Some (RT_EOK, s1)"
    "rt_timer_control (ThreadTimer t) 0 n s1 = Some (RT_EOK, n, s2)"
    "rt_timer_start (ThreadTimer t) s2 = Some (RT_EOK, started (ThreadTimer t) s2)"
    "kinv (started (ThreadTimer t) s2)" "thread_step t s (started (ThreadTimer t) s2)"
    "status (started (ThreadTimer t) s2) t = RT_THREAD_SUSPEND"
    "home (thread_rings (started (ThreadTimer t) s2)) t = None"
    "home (timer_rings (started (ThreadTimer t) s2)) (ThreadTimer t) = Some HardTimers"
    "timer_tick (started (ThreadTimer t) s2) (ThreadTimer t) = rt_tick s + n"
    "th_error (threads (started (ThreadTimer t) s2) t) = th_error (threads s t)"
    "thread_rings (started (ThreadTimer t) s2) = thread_rings s"
proof -
  obtain s1 where s1: "rt_thread_suspend t s = Some (RT_EOK, s1)" "kinv s1" "thread_step t s s1"
    "thread_rings s1 = thread_rings s" "home (thread_rings s1) t = None" "status s1 t = RT_THREAD_SUSPEND"
    "th_error (threads s1 t) = th_error (threads s t)"
    using rt_thread_suspend_ok [OF inv cur run] by metis
  let ?r = "ThreadTimer t" and ?s2 = "upd_timer (ThreadTimer t) (\<lambda>m. m\<lparr>tm_init_tick := n\<rparr>) s1"
  have live1: "live s1 (OTimer ?r)" using kinv_active(4) [OF s1(2), of t] s1(6) by simp
  have ctl: "rt_timer_control ?r 0 n s1 = Some (RT_EOK, n, ?s2)"
    using rt_object_get_type_live [OF s1(2), of "OTimer ?r"] live1 n
    by (simp add: rt_timer_control_def class_of_def)
  have k2: "kinv ?s2" using kinv_upd_timer [OF s1(2) n] .
  have f2: "live ?s2 (OTimer ?r)" "\<not> bit (timer_flag ?s2 ?r) 2" "status ?s2 t = RT_THREAD_SUSPEND"
    using live1 kinvD(6) [OF s1(2), of ?r] s1(6)
    by (auto simp: live_def upd_timer_def timer_flag_def timer_ok_def status_def)
  let ?s3 = "started ?r ?s2"
  have "thread_step t s ?s3"
    using thread_step_trans [OF s1(3) timer_step_thread_step [OF timer_step_trans [OF timer_step_upd timer_step_started]]] .
  moreover have "kinv ?s3" by (rule kinv_started [OF k2 f2(1)]) (use f2(3) in simp)
  moreover have "rt_tick ?s2 = rt_tick s"
    using thread_stepD(1) [OF s1(3)] by (simp add: upd_timer_def core_step_def)
  ultimately show thesis
    using that [OF s1(1) ctl rt_timer_start_hard [OF k2 f2(1,2)]] f2 s1
      timer_stepD [OF timer_step_started [of ?r ?s2]]
    by (simp add: started_fields timer_home_def) (simp add: upd_timer_def)
qed

lemma schedules_suspended:
  assumes "schedules s s'" "status s t = RT_THREAD_SUSPEND"
  shows "status s' t = RT_THREAD_SUSPEND" "home (thread_rings s') t = home (thread_rings s) t"
  using schedulesD(5) [OF assms(1), of t] assms(2) by auto

lemma schedules_away:
  assumes inv: "kinv s" and cur: "rt_current_thread s = Some c" and lock: "rt_scheduler_lock_nest s = 0"
    and nrun: "status s c \<noteq> RT_THREAD_RUNNING" and ready: "status s u = RT_THREAD_READY" and s': "rt_schedule s = Some s'"
  shows "rt_current_thread s' \<noteq> Some c"
proof -
  obtain t hp ts s2 where t: "t \<noteq> c" "rt_schedule s = Some s2"
    and r: "if keeps_running s c hp
     then s2 = upd_thread c (\<lambda>th. set_stat RT_THREAD_RUNNING (clear_yield th)) s
     else rt_current_thread s2 = Some t \<and> status s2 t = RT_THREAD_RUNNING \<and>
       (\<forall>p. ring (thread_rings s2) (Ready p) = requeue (status s c = RT_THREAD_RUNNING) c (thread_prio s c) hp
          (\<lambda>p. ring (thread_rings s) (Ready p)) p)"
    by (rule rt_schedule_decision [OF inv cur lock ready], blast)
  have "\<not> keeps_running s c hp" using nrun by (simp add: keeps_running_def)
  then show ?thesis using r t s' by simp
qed

lemma sleep_core:
  assumes inv: "kinv s" and cur: "rt_current_thread s = Some t" and run: "status s t = RT_THREAD_RUNNING"
    and n: "n < RT_TICK_HALF"
  obtains s1 s2 s3 s4 where
    "rt_thread_suspend t (upd_thread t (\<lambda>th. th\<lparr>th_error := e\<rparr>) s) = Some (RT_EOK, s1)"
    "rt_timer_control (ThreadTimer t) 0 n s1 = Some (RT_EOK, n, s2)"
    "rt_timer_start (ThreadTimer t) s2 = Some (RT_EOK, s3)" "rt_schedule s3 = Some s4"
    "kinv s4" "core_step s s4" "status s4 t = RT_THREAD_SUSPEND" "home (thread_rings s4) t = None"
    "home (timer_rings s4) (ThreadTimer t) = Some HardTimers" "timer_tick s4 (ThreadTimer t) = rt_tick s + n"
    "th_error (threads s4 t) = e" "rt_current_thread s4 \<noteq> None"
    "rt_scheduler_lock_nest s = 0 \<Longrightarrow> status s u = RT_THREAD_READY \<Longrightarrow> rt_current_thread s4 \<noteq> Some t"
proof -
  let ?s = "upd_thread t (\<lambda>th. th\<lparr>th_error := e\<rparr>) s"
  have inv': "kinv ?s" by (rule kinv_upd_thread [OF inv]) simp_all
  have pre: "rt_current_thread ?s = Some t" "status ?s t = RT_THREAD_RUNNING" "th_error (threads ?s t) = e"
    "rt_tick ?s = rt_tick s" "core_step s ?s"
    using cur run by (simp_all add: upd_thread_def status_def core_step_def)
  obtain s1 s2 where susp: "rt_thread_suspend t ?s = Some (RT_EOK, s1)"
    "rt_timer_control (ThreadTimer t) 0 n s1 = Some (RT_EOK, n, s2)"
    "rt_timer_start (ThreadTimer t) s2 = Some (RT_EOK, started (ThreadTimer t) s2)"
    and s3: "kinv (started (ThreadTimer t) s2)" "thread_step t ?s (started (ThreadTimer t) s2)"
      "status (started (ThreadTimer t) s2) t = RT_THREAD_SUSPEND"
      "home (thread_rings (started (ThreadTimer t) s2)) t = None"
      "home (timer_rings (started (ThreadTimer t) s2)) (ThreadTimer t) = Some HardTimers"
      "timer_tick (started (ThreadTimer t) s2) (ThreadTimer t) = rt_tick ?s + n"
      "th_error (threads (started (ThreadTimer t) s2) t) = th_error (threads ?s t)"
    using suspend_with_timer [OF inv' pre(1,2) n] by metis
  let ?s3 = "started (ThreadTimer t) s2"
  have cur3: "rt_current_thread ?s3 = Some t" using thread_stepD(2) [OF s3(2)] pre(1) by simp
  obtain s4 where s4: "rt_schedule ?s3 = Some s4" "schedules ?s3 s4" using rt_schedule_ok [OF s3(1) cur3] .
  note sd = schedulesD [OF s4(2)]
  have c3: "core_step s ?s3" using core_step_trans [OF pre(5) thread_stepD(1) [OF s3(2)]] .
  have tm: "timers s4 = timers ?s3" "timer_rings s4 = timer_rings ?s3" using sd(2) by (simp_all add: sched_step_def)
  have "rt_current_thread s4 \<noteq> Some t" if "rt_scheduler_lock_nest s = 0" "status s u = RT_THREAD_READY"
  proof -
    have "u \<noteq> t" using that(2) run by auto
    then have "status ?s3 u = RT_THREAD_READY"
      using thread_stepD(5) [OF s3(2), of u] that(2) by (simp add: status_def upd_thread_def)
    moreover have "rt_scheduler_lock_nest ?s3 = 0" using c3 that(1) by (simp add: core_step_def)
    ultimately show ?thesis using schedules_away [OF s3(1) cur3 _ _ _ s4(1)] s3(3) by simp
  qed
  then show thesis
    using that [OF susp s4(1) sd(1) core_step_trans [OF c3 sd(3)]] schedules_suspended [OF s4(2) s3(3)] s3 pre tm sd(4)
      sched_step_thread(3) [OF sd(2)]
    by (simp add: timer_tick_def)
qed

text \<open>
  C23. \<open>rt_thread_sleep\<close> puts the calling thread to sleep for exactly the requested number of ticks: the
  call returns to the scheduler with the thread suspended, in no list, its error code cleared and its
  timer armed for the current tick plus the argument (modulo the tick range); when the scheduler is
  unlocked and any thread is ready, the processor goes to another thread.
\<close>

theorem rt_thread_sleep_correct:
  assumes "kinv s" "rt_current_thread s = Some t" "status s t = RT_THREAD_RUNNING" "n < RT_TICK_HALF"
  shows "\<exists>s'. rt_thread_sleep n s = Some (Pending t, s') \<and> kinv s' \<and>
    status s' t = RT_THREAD_SUSPEND \<and> home (thread_rings s') t = None \<and> th_error (threads s' t) = RT_EOK \<and>
    home (timer_rings s') (ThreadTimer t) = Some HardTimers \<and>
    tm_timeout_tick (timers s' (ThreadTimer t)) = rt_tick s + n \<and>
    (rt_scheduler_lock_nest s = 0 \<and> (\<exists>u. status s u = RT_THREAD_READY) \<longrightarrow> rt_current_thread s' \<noteq> Some t)"
proof -
  obtain u where u: "(\<exists>u. status s u = RT_THREAD_READY) \<longrightarrow> status s u = RT_THREAD_READY" by blast
  have live: "rt_object_get_type (OThread t) s = 1"
    using rt_object_get_type_live [OF assms(1), of "OThread t"] kinv_active(1) [OF assms(1), of t] assms(3)
    by (simp add: class_of_def)
  obtain s1 s2 s3 s4 where
    "rt_thread_suspend t (upd_thread t (\<lambda>th. th\<lparr>th_error := 0\<rparr>) s) = Some (RT_EOK, s1)"
    "rt_timer_control (ThreadTimer t) 0 n s1 = Some (RT_EOK, n, s2)"
    "rt_timer_start (ThreadTimer t) s2 = Some (RT_EOK, s3)" "rt_schedule s3 = Some s4"
    "kinv s4" "status s4 t = RT_THREAD_SUSPEND" "home (thread_rings s4) t = None"
    "home (timer_rings s4) (ThreadTimer t) = Some HardTimers" "timer_tick s4 (ThreadTimer t) = rt_tick s + n"
    "th_error (threads s4 t) = 0"
    "rt_scheduler_lock_nest s = 0 \<Longrightarrow> status s u = RT_THREAD_READY \<Longrightarrow> rt_current_thread s4 \<noteq> Some t"
    by (rule sleep_core [OF assms, of 0 u], blast)
  then show ?thesis
    using assms(2) live u
    by (intro exI [of _ s4]) (simp add: rt_thread_sleep_def rt_thread_self_def timer_tick_def)
qed

theorem rt_thread_sleep_correct_witness:
  "\<exists>s'. rt_thread_sleep 100 (demo 3) = Some (Pending 1, s') \<and> kinv s' \<and>
    status s' 1 = RT_THREAD_SUSPEND \<and> home (thread_rings s') 1 = None \<and> th_error (threads s' 1) = RT_EOK \<and>
    home (timer_rings s') (ThreadTimer 1) = Some HardTimers \<and>
    tm_timeout_tick (timers s' (ThreadTimer 1)) = rt_tick (demo 3) + 100 \<and>
    (rt_scheduler_lock_nest (demo 3) = 0 \<and> (\<exists>u. status (demo 3) u = RT_THREAD_READY) \<longrightarrow> rt_current_thread s' \<noteq> Some 1)"
  by (rule rt_thread_sleep_correct) (simp_all add: demo_kinv demo_status)

subsection \<open>Timeouts, yielding and starting\<close>

lemma thread_timeout_ok:
  assumes inv: "kinv s" and sus: "status s t = RT_THREAD_SUSPEND" and cur: "rt_current_thread s = Some c"
    and tm: "home (timer_rings s) (ThreadTimer t) \<noteq> Some HardTimers"
  obtains s' where "thread_timeout t s = Some s'" "kinv s'" "core_step s s'" "th_error (threads s' t) = - RT_ETIMEOUT"
    "status s' t = RT_THREAD_READY \<or> status s' t = RT_THREAD_RUNNING" "rt_current_thread s' \<noteq> None"
    "timers s' = timers s" "timer_rings s' = timer_rings s" "objs s' = objs s"
    "\<And>u. u \<noteq> t \<Longrightarrow> status s u \<noteq> RT_THREAD_RUNNING \<Longrightarrow> status s u \<noteq> RT_THREAD_READY \<Longrightarrow>
       threads s' u = threads s u \<and> home (thread_rings s') u = home (thread_rings s) u"
proof -
  let ?s1 = "upd_thread t (\<lambda>th. th\<lparr>th_error := - RT_ETIMEOUT\<rparr>) s"
  have k1: "kinv ?s1" by (rule kinv_upd_thread [OF inv]) simp_all
  have st1: "status ?s1 u = status s u" for u by (simp add: status_def upd_thread_def)
  let ?s2 = "?s1\<lparr>thread_rings := ring_remove t (thread_rings ?s1)\<rparr>"
  have k2: "kinv ?s2" using kinv_unlink_suspended [OF k1] st1 sus by simp
  have pre: "status ?s2 t = RT_THREAD_SUSPEND" "home (thread_rings ?s2) t = None"
    "home (timer_rings ?s2) (ThreadTimer t) \<noteq> Some HardTimers"
    using sus tm by (simp_all add: status_def upd_thread_def)
  obtain s3 where s3: "rt_schedule_insert_thread t ?s2 = Some s3" "kinv s3" "sched_step ?s2 s3" "thread_step t ?s2 s3"
    "status s3 t = (if rt_current_thread ?s2 = Some t then RT_THREAD_RUNNING else RT_THREAD_READY)"
    using insert_thread_ok [OF k2 pre] by metis
  have cur3: "rt_current_thread s3 = Some c" using thread_stepD(2) [OF s3(4)] cur by (simp add: upd_thread_def)
  obtain s4 where s4: "rt_schedule s3 = Some s4" "schedules s3 s4" using rt_schedule_ok [OF s3(2) cur3] .
  note sd = schedulesD [OF s4(2)]
  have eq: "thread_timeout t s = Some s4"
    using rt_object_get_type_live [OF inv, of "OThread t"] kinv_active(1) [OF inv, of t] sus s3(1) s4(1)
    by (simp add: thread_timeout_def class_of_def Let_def upd_thread_def)
  have "core_step s ?s2" by (simp add: core_step_def upd_thread_def)
  then have core: "core_step s s4"
    using thread_stepD(1) [OF s3(4)] sd(3) core_step_trans by blast
  have "sched_step ?s2 s4" using sched_step_trans [OF s3(3) sd(2)] .
  then have tmr: "timers s4 = timers s" "timer_rings s4 = timer_rings s" "objs s4 = objs s"
    and err: "th_error (threads s4 t) = - RT_ETIMEOUT"
    using sched_step_thread(3) [of ?s2 s4 t] by (simp_all add: sched_step_def upd_thread_def)
  have frame: "threads s4 u = threads s u \<and> home (thread_rings s4) u = home (thread_rings s) u"
    if "u \<noteq> t" "status s u \<noteq> RT_THREAD_RUNNING" "status s u \<noteq> RT_THREAD_READY" for u
  proof -
    have 2: "threads s3 u = threads s u" "home (thread_rings s3) u = home (thread_rings s) u" "status s3 u = status s u"
      using thread_stepD(4-6) [OF s3(4) that(1)] that(1) by (simp_all add: upd_thread_def status_def)
    have "home (thread_rings s4) u = home (thread_rings s3) u" "status s4 u = status s3 u"
      using sd(5) [of u] 2(3) that by auto
    moreover have "threads s4 u = threads s3 u" using sd(9) [of u] 2(3) that by simp
    ultimately show ?thesis using 2 by simp
  qed
  have "status s4 t = RT_THREAD_READY \<or> status s4 t = RT_THREAD_RUNNING" using sd(5) [of t] s3(5) by (auto split: if_splits)
  then show thesis using that [OF eq sd(1) core err _ sd(4) tmr frame] by blast
qed

lemma rt_thread_yield_ok:
  assumes inv: "kinv s" and cur: "rt_current_thread s = Some t"
  obtains s1 s' where "rt_thread_yield s = Some (RT_EOK, s')" "schedules s1 s'"
    "s1 = upd_thread t (\<lambda>th. th\<lparr>th_remaining_tick := th_init_tick th, th_stat := th_stat th OR RT_THREAD_STAT_YIELD\<rparr>) s"
    "kinv s1" "core_step s s'" "rt_schedule s1 = Some s'"
proof -
  let ?s1 = "upd_thread t (\<lambda>th. th\<lparr>th_remaining_tick := th_init_tick th, th_stat := th_stat th OR RT_THREAD_STAT_YIELD\<rparr>) s"
  have k1: "kinv ?s1" by (rule kinv_upd_thread [OF inv]) simp_all
  have cur1: "rt_current_thread ?s1 = Some t" using cur by (simp add: upd_thread_def)
  obtain s' where s': "rt_schedule ?s1 = Some s'" "schedules ?s1 s'" using rt_schedule_ok [OF k1 cur1] .
  have "core_step s s'"
    using core_step_trans [OF thread_stepD(1) [OF thread_step_upd] schedulesD(3) [OF s'(2)]] .
  then show thesis using that [of s' ?s1] s' k1 cur by (simp add: rt_thread_yield_def rt_thread_self_def)
qed

lemma kinv_startup:
  assumes inv: "kinv s" and init: "status s t = RT_THREAD_INIT" and live: "live s (OThread t)"
    and tm: "live s (OTimer (ThreadTimer t))"
  shows "kinv (upd_thread t (\<lambda>th. th\<lparr>th_number_mask := 2 ^ unat (th_current_priority th),
      th_stat := RT_THREAD_SUSPEND\<rparr>) s)" (is "kinv ?s")
proof (rule kinv_threads_cong [OF inv, where T = "{t}"])
  have st: "status ?s u = (if u = t then RT_THREAD_SUSPEND else status s u)" "thread_prio ?s u = thread_prio s u"
    "live ?s = live s" "thread_rings ?s = thread_rings s"
    "th_number_mask (threads ?s t) = 2 ^ thread_prio s t" for u
    by (auto simp: status_def upd_thread_def thread_prio_def live_def fun_eq_iff)
  have un: "home (thread_rings s) t = None"
    using kinv_place [OF inv, of t] init by (auto simp: place_ok_def split: option.splits thread_list.splits)
  show "thread_ok ?s u" if "u \<in> {t}" for u
    using that kinvD(5) [OF inv, of t] un live tm
    by (auto simp: thread_ok_def thread_timer_alive_def st place_ok_def waits_on_def)
  have "rt_current_thread s \<noteq> Some t" using kinv_cur [OF inv] init by auto
  then show "cur_ok ?s"
    using kinvD(8) [OF inv] by (auto simp: cur_ok_def st) (auto simp: upd_thread_def)
qed (use kinvD [OF inv] in \<open>auto simp: upd_thread_def group_ok_def status_def\<close>)

lemma rt_thread_startup_ok:
  assumes inv: "kinv s" and init: "status s t = RT_THREAD_INIT" and live: "live s (OThread t)"
    and tm: "live s (OTimer (ThreadTimer t))"
  obtains s' where "rt_thread_startup t s = Some (RT_EOK, s')" "kinv s'" "core_step s s'"
    "status s' t = RT_THREAD_READY \<or> status s' t = RT_THREAD_RUNNING"
    "rt_current_thread s = None \<Longrightarrow> rt_current_thread s' = None"
    "rt_current_thread s \<noteq> None \<Longrightarrow> rt_current_thread s' \<noteq> None"
proof -
  let ?s1 = "upd_thread t (\<lambda>th. th\<lparr>th_number_mask := 2 ^ unat (th_current_priority th),
      th_stat := RT_THREAD_SUSPEND\<rparr>) s"
  have k1: "kinv ?s1" using kinv_startup [OF assms] .
  have st1: "status ?s1 t = RT_THREAD_SUSPEND" by (simp add: status_def upd_thread_def)
  obtain s2 where s2: "rt_thread_resume t ?s1 = Some (RT_EOK, s2)" "kinv s2" "thread_step t ?s1 s2"
    "status s2 t = (if rt_current_thread ?s1 = Some t then RT_THREAD_RUNNING else RT_THREAD_READY)"
    by (rule rt_thread_resume_ok [OF k1 st1], rule that)
  have c2: "core_step s s2"
    using core_step_trans [OF thread_stepD(1) [OF thread_step_upd] thread_stepD(1) [OF s2(3)]] .
  have cur2: "rt_current_thread s2 = rt_current_thread s"
    using thread_stepD(2) [OF s2(3)] by (simp add: upd_thread_def)
  have "upd_thread t (\<lambda>th. th\<lparr>th_stat := RT_THREAD_SUSPEND\<rparr>)
      (upd_thread t (\<lambda>th. th\<lparr>th_number_mask := push_bit (unat (th_current_priority th)) 1\<rparr>) s) = ?s1"
    by (simp add: upd_thread_def)
  then have start: "rt_thread_startup t s = do {
      s \<leftarrow> (if rt_thread_self s2 \<noteq> None then rt_schedule s2 else Some s2);
      Some (RT_EOK, s) }"
    using init rt_object_get_type_live [OF inv, of "OThread t"] live s2(1)
    unfolding rt_thread_startup_def Let_def by (simp add: class_of_def)
  show thesis
  proof (cases "rt_current_thread s")
    case None
    then show thesis using that [of s2] start s2 c2 cur2 by (auto simp: rt_thread_self_def upd_thread_def)
  next
    case (Some c)
    obtain s3 where s3: "rt_schedule s2 = Some s3" "schedules s2 s3"
      using rt_schedule_ok [OF s2(2)] cur2 Some by metis
    have "status s3 t = RT_THREAD_READY \<or> status s3 t = RT_THREAD_RUNNING"
      using schedulesD(5) [OF s3(2), of t] s2(4) by (auto split: if_splits)
    then show thesis
      using that [of s3] start s3 schedulesD(1,3,4) [OF s3(2)] core_step_trans [OF c2] cur2 Some
      by (simp add: rt_thread_self_def)
  qed
qed

subsection \<open>Closing a thread\<close>

text \<open>The common part of \<open>thread_exit\<close>, \<open>rt_thread_detach\<close> and \<open>rt_thread_delete\<close>.\<close>

definition close_thread :: "tid \<Rightarrow> kernel \<Rightarrow> kernel option" where
  "close_thread t s = do {
     s \<leftarrow> (if status s t \<noteq> RT_THREAD_INIT then rt_schedule_remove_thread t s else Some s);
     (_, s) \<leftarrow> rt_timer_detach (ThreadTimer t) s;
     let s = upd_thread t (\<lambda>th. th\<lparr>th_stat := RT_THREAD_CLOSE\<rparr>) s;
     rt_thread_defunct_enqueue t s
   }"

lemma remove_thread_ok:
  assumes inv: "kinv s" and act: "active (status s t)"
  obtains s1 where "rt_schedule_remove_thread t s = Some s1" "group_ok s1"
    "s1 = s\<lparr>thread_rings := ring_remove t (thread_rings s),
        rt_thread_ready_priority_group := rt_thread_ready_priority_group s1\<rparr>"
proof -
  note a = kinv_active [OF inv act]
  obtain s1 where s1: "rt_schedule_remove_thread t s = Some s1" using remove_thread_eq [OF a(3)] by blast
  have "group_ok s1"
    using group_ok_remove [OF kinvD(7) [OF inv] s1 a(2) kinvD(1) [OF inv]] kinv_place [OF inv, of t]
    by (auto simp: place_ok_def split: option.splits thread_list.splits)
  then show thesis using that [OF s1] s1 remove_thread_eq [OF a(3)] by auto
qed

lemma word_le_4: "(w :: u8) \<le> 4 \<longleftrightarrow> w \<in> {0, 1, 2, 3, 4}"
proof
  assume "w \<le> 4"
  then have "unat w \<le> 4" by (simp add: word_le_nat_alt)
  then have "unat w \<in> {0, 1, 2, 3, 4}" by auto
  then show "w \<in> {0, 1, 2, 3, 4}" by (auto simp: word_unat_eq_iff)
qed auto

lemma close_thread_ok:
  assumes inv: "kinv s" and live: "live s (OThread t)" and tm: "live s (OTimer (ThreadTimer t))"
  obtains s' where "close_thread t s = Some s'" "kinv s'" "status s' t = RT_THREAD_CLOSE"
    "home (thread_rings s') t = Some Defunct" "ring (thread_rings s') Defunct = t # ring (thread_rings s) Defunct"
    "\<not> live s' (OTimer (ThreadTimer t))" "live s' (OThread t)" "rt_current_thread s' = rt_current_thread s"
    "\<And>u. u \<noteq> t \<Longrightarrow> threads s' u = threads s u \<and> home (thread_rings s') u = home (thread_rings s) u"
    "heap s' = heap s" "rt_scheduler_lock_nest s' = rt_scheduler_lock_nest s"
    "objs s' (OThread t) = objs s (OThread t)"
proof -
  let ?r = "ThreadTimer t"
  have st: "status s t \<noteq> RT_THREAD_CLOSE" using kinvD(5) [OF inv, of t] tm by (simp add: thread_ok_def thread_timer_alive_def)
  obtain s1 where s1: "(if status s t \<noteq> RT_THREAD_INIT then rt_schedule_remove_thread t s else Some s) = Some s1"
    and g1: "group_ok s1"
    and e1: "s1 = s\<lparr>thread_rings := ring_remove t (thread_rings s),
        rt_thread_ready_priority_group := rt_thread_ready_priority_group s1\<rparr>"
  proof (cases "status s t = RT_THREAD_INIT")
    case True
    then have "home (thread_rings s) t = None"
      using kinv_place [OF inv, of t] by (auto simp: place_ok_def split: option.splits thread_list.splits)
    then show thesis using that [of s] True kinvD(7) [OF inv] by (simp add: ring_remove_unlinked)
  next
    case False
    then have "active (status s t)"
      using st kinvD(5) [OF inv, of t] by (auto simp: thread_ok_def active_def word_le_4)
    then show thesis using remove_thread_ok [OF inv] that False by metis
  qed
  have f1: "threads s1 = threads s" "objs s1 = objs s" "thread_rings s1 = ring_remove t (thread_rings s)"
    "timer_rings s1 = timer_rings s" "object_rings s1 = object_rings s" "timers s1 = timers s" "heap s1 = heap s"
    "rt_current_thread s1 = rt_current_thread s" "rt_scheduler_lock_nest s1 = rt_scheduler_lock_nest s"
    by (subst e1, simp)+
  have "rt_object_get_type (OTimer ?r) s1 = 10" "is_static s1 (OTimer ?r)"
    using rt_object_get_type_live [OF inv, of "OTimer ?r"] tm kinvD(6) [OF inv, of ?r]
    by (simp_all add: rt_object_get_type_def is_static_def f1 class_of_def timer_ok_def)
  note det = rt_timer_detach_eq [OF this]
  define s4 where "s4 = (upd_thread t (\<lambda>th. th\<lparr>th_stat := RT_THREAD_CLOSE\<rparr>) (timer_gone ?r s1))
    \<lparr>thread_rings := (ring_remove t (thread_rings s))\<lparr>ring := (ring (ring_remove t (thread_rings s)))
        (Defunct := t # ring (ring_remove t (thread_rings s)) Defunct),
      home := (home (thread_rings s))(t := Some Defunct)\<rparr>\<rparr>"
  have ins: "ring_insert_head Defunct t (ring_remove t (thread_rings s)) = Some (thread_rings s4)"
    by (simp add: ring_insert_head_def s4_def)
  have close: "close_thread t s = Some s4"
    using s1 det ins
    by (simp add: close_thread_def rt_thread_defunct_enqueue_def upd_thread_def timer_gone_fields f1 Let_def s4_def)
  have f4: "threads s4 = (threads s)(t := (threads s t)\<lparr>th_stat := RT_THREAD_CLOSE\<rparr>)"
    "timers s4 = timers s" "timer_rings s4 = ring_remove ?r (timer_rings s)"
    "object_rings s4 = ring_remove (OTimer ?r) (object_rings s)"
    "home (thread_rings s4) = (home (thread_rings s))(t := Some Defunct)" "heap s4 = heap s"
    "rt_current_thread s4 = rt_current_thread s" "rt_scheduler_lock_nest s4 = rt_scheduler_lock_nest s"
    "objs s4 = objs (timer_gone ?r s1)"
    "rt_thread_ready_priority_group s4 = rt_thread_ready_priority_group s1"
    "ring (thread_rings s4) l = (if l = Defunct then t # remove1 t (ring (thread_rings s) Defunct)
       else remove1 t (ring (thread_rings s) l))" for l
    by (simp_all add: s4_def upd_thread_def timer_gone_fields f1 ring_ring_remove [OF kinvD(1) [OF inv]])
  have live4: "live s4 x \<longleftrightarrow> x \<noteq> OTimer ?r \<and> live s x" for x by (simp add: live_def f4)
  have st4: "status s4 u = (if u = t then RT_THREAD_CLOSE else status s u)" for u by (simp add: status_def f4)
  have defunct: "t \<notin> set (ring (thread_rings s) Defunct)"
    using rings_ok_home [OF kinvD(1) [OF inv], of t Defunct] kinv_place [OF inv, of t] st by (auto simp: place_ok_def)
  have "kinv s4"
  proof (rule kinv_change [OF inv, where T = "{t}" and Q = "{?r}" and X = "{OTimer ?r}"])
    show "rings_all_ok s4"
      using rings_ok_insert_head [OF rings_ok_remove [OF kinvD(1) [OF inv]] ins]
        rings_ok_remove [OF kinvD(2) [OF inv]] rings_ok_remove [OF kinvD(3) [OF inv]]
      unfolding rings_all_ok_def f4 by simp
    show "group_ok s4" using g1 unfolding group_ok_def f4 by (simp add: f1 ring_ring_remove [OF kinvD(1) [OF inv]])
    show "cur_ok s4"
      using kinvD(8) [OF inv] unfolding cur_ok_def st4 f4 by auto
    show "lock_ok s4" using kinvD(9) [OF inv] unfolding lock_ok_def f4 .
    show "thread_ok s4 u" if "u \<in> {t}" for u
      using that live kinvD(5) [OF inv, of t]
      unfolding thread_ok_def thread_timer_alive_def st4 live4 f4 by (simp add: place_ok_def waits_on_def)
    show "timer_ok s4 q" if "q \<in> {?r}" for q
      using that unfolding timer_ok_def live4 st4 f4 by simp
    show "obj_ok s4 x" if "x \<in> {OTimer ?r}" for x
      using that kinvD(4) [OF inv, of x] unfolding obj_ok_def f4 by (simp add: timer_gone_fields f1)
    show "live s4 x" if "x \<in> {OTimer ?r}" "waits_on (home (thread_rings s) u) = Some x" for x u
      using that kinvD(5) [OF inv, of u] by (auto simp: thread_ok_def)
    show "objs s4 x = objs s x \<and> home (object_rings s4) x = home (object_rings s) x \<and>
        (BObject x \<in> heap s \<longrightarrow> BObject x \<in> heap s4)" if "x \<notin> {OTimer ?r}" for x
      using that unfolding f4 by (simp add: timer_gone_fields f1)
    show "threads s4 u = threads s u \<and> home (thread_rings s4) u = home (thread_rings s) u" if "u \<notin> {t}" for u
      using that unfolding f4 by simp
    show "timers s4 q = timers s q \<and> home (timer_rings s4) q = home (timer_rings s) q" if "q \<notin> {?r}" for q
      using that unfolding f4 by simp
  qed auto
  then show thesis
    using that [OF close] live defunct
    by (simp add: f4 live4 st4 remove1_idem timer_gone_fields f1)
qed

lemma rt_thread_detach_ok:
  assumes inv: "kinv s" and live: "live s (OThread t)" and tm: "live s (OTimer (ThreadTimer t))"
    and static: "rt_object_is_systemobject (OThread t) s"
  obtains s' where "rt_thread_detach t s = Some (RT_EOK, s')" "close_thread t s = Some s'" "kinv s'"
    "status s' t = RT_THREAD_CLOSE" "ring (thread_rings s') Defunct = t # ring (thread_rings s) Defunct"
    "rt_current_thread s' = rt_current_thread s"
proof -
  have st: "status s t \<noteq> RT_THREAD_CLOSE" using kinvD(5) [OF inv, of t] tm by (simp add: thread_ok_def thread_timer_alive_def)
  obtain s' where s': "close_thread t s = Some s'" "kinv s'" "status s' t = RT_THREAD_CLOSE"
    "ring (thread_rings s') Defunct = t # ring (thread_rings s) Defunct" "rt_current_thread s' = rt_current_thread s"
    by (rule close_thread_ok [OF inv live tm], rule that)
  have "rt_thread_detach t s = Some (RT_EOK, s')"
    using rt_object_get_type_live [OF inv, of "OThread t"] live static st s'(1)
    by (simp add: rt_thread_detach_def close_thread_def class_of_def bind_eq_Some_conv split_beta)
  then show thesis using that s' by blast
qed

lemma rt_thread_delete_ok:
  assumes inv: "kinv s" and live: "live s (OThread t)" and tm: "live s (OTimer (ThreadTimer t))"
    and dyn: "\<not> rt_object_is_systemobject (OThread t) s"
  obtains s' where "rt_thread_delete t s = Some (RT_EOK, s')" "close_thread t s = Some s'" "kinv s'"
    "status s' t = RT_THREAD_CLOSE" "ring (thread_rings s') Defunct = t # ring (thread_rings s) Defunct"
    "rt_current_thread s' = rt_current_thread s"
proof -
  have st: "status s t \<noteq> RT_THREAD_CLOSE" using kinvD(5) [OF inv, of t] tm by (simp add: thread_ok_def thread_timer_alive_def)
  obtain s' where s': "close_thread t s = Some s'" "kinv s'" "status s' t = RT_THREAD_CLOSE"
    "ring (thread_rings s') Defunct = t # ring (thread_rings s) Defunct" "rt_current_thread s' = rt_current_thread s"
    by (rule close_thread_ok [OF inv live tm], rule that)
  have "rt_thread_delete t s = Some (RT_EOK, s')"
    using rt_object_get_type_live [OF inv, of "OThread t"] live dyn st s'(1)
    by (simp add: rt_thread_delete_def close_thread_def class_of_def bind_eq_Some_conv split_beta)
  then show thesis using that s' by blast
qed

lemma thread_exit_ok:
  assumes inv: "kinv s" and cur: "rt_current_thread s = Some t" and run: "status s t = RT_THREAD_RUNNING"
  obtains s1 s' where "thread_exit s = Some s'" "close_thread t s = Some s1" "kinv s1" "schedules s1 s'"
    "status s1 t = RT_THREAD_CLOSE" "rt_current_thread s1 = Some t" "rt_schedule s1 = Some s'"
    "ring (thread_rings s1) Defunct = t # ring (thread_rings s) Defunct"
    "rt_scheduler_lock_nest s1 = rt_scheduler_lock_nest s"
    "\<And>u. u \<noteq> t \<Longrightarrow> threads s1 u = threads s u \<and> home (thread_rings s1) u = home (thread_rings s) u"
proof -
  have act: "active (status s t)" by (simp add: run)
  note a = kinv_active [OF inv act]
  obtain s1 where s1: "close_thread t s = Some s1" "kinv s1" "status s1 t = RT_THREAD_CLOSE"
    "ring (thread_rings s1) Defunct = t # ring (thread_rings s) Defunct" "rt_current_thread s1 = rt_current_thread s"
    "\<And>u. u \<noteq> t \<Longrightarrow> threads s1 u = threads s u \<and> home (thread_rings s1) u = home (thread_rings s) u"
    "rt_scheduler_lock_nest s1 = rt_scheduler_lock_nest s"
    by (rule close_thread_ok [OF inv a(1,4)], rule that)
  have cur1: "rt_current_thread s1 = Some t" using s1(5) cur by simp
  obtain s' where s': "rt_schedule s1 = Some s'" "schedules s1 s'" using rt_schedule_ok [OF s1(2) cur1] .
  have "thread_exit s = Some s'"
    using cur run s1(1) s'(1)
    by (simp add: thread_exit_def close_thread_def rt_thread_self_def bind_eq_Some_conv split_beta) blast
  then show thesis using that [of s' s1] s1 s' cur1 by blast
qed

subsection \<open>Changing the priority\<close>

lemma kinv_set_prio:
  assumes inv: "kinv s" and p: "unat p < 32" and nr: "status s t \<noteq> RT_THREAD_READY"
  shows "kinv (upd_thread t (\<lambda>th. th\<lparr>th_current_priority := p, th_number_mask := 2 ^ unat p\<rparr>) s)" (is "kinv ?s")
proof (rule kinv_threads_cong [OF inv, where T = "{t}"])
  have st: "status ?s u = status s u" "thread_prio ?s u = (if u = t then unat p else thread_prio s u)" "live ?s = live s"
    "thread_rings ?s = thread_rings s" "th_number_mask (threads ?s t) = 2 ^ unat p" for u
    by (auto simp: status_def upd_thread_def thread_prio_def live_def fun_eq_iff)
  have "home (thread_rings s) t \<noteq> Some (Ready q)" for q
    using kinv_not_ready [OF inv, of t q] nr by auto
  then show "thread_ok ?s u" if "u \<in> {t}" for u
    using that kinvD(5) [OF inv, of t] p
    by (auto simp: thread_ok_def thread_timer_alive_def st place_ok_def split: option.splits thread_list.splits)
  show "status ?s u = RT_THREAD_SUSPEND" if "home (timer_rings s) (ThreadTimer u) = Some HardTimers" for u
    using kinvD(6) [OF inv, of "ThreadTimer u"] that by (simp add: st timer_ok_def)
  show "cur_ok ?s" using kinvD(8) [OF inv] by (simp add: cur_ok_def st) (simp add: upd_thread_def)
qed (use kinvD [OF inv] in \<open>auto simp: upd_thread_def group_ok_def\<close>)

lemma rt_thread_control_prio_ok:
  assumes inv: "kinv s" and live: "live s (OThread t)" and p: "unat p < 32"
  obtains s' where "rt_thread_control t 2 p s = Some (RT_EOK, s')" "kinv s'" "core_step s s'"
    "rt_current_thread s' = rt_current_thread s" "thread_prio s' t = unat p"
    "\<And>u. status s' u = status s u" "\<And>u. u \<noteq> t \<Longrightarrow> threads s' u = threads s u"
    "ring (thread_rings s') = (if status s t = RT_THREAD_READY
       then (\<lambda>l. if l = Ready (unat p) then remove1 t (ring (thread_rings s) l) @ [t] else remove1 t (ring (thread_rings s) l))
       else ring (thread_rings s))"
    "timers s' = timers s" "timer_rings s' = timer_rings s" "objs s' = objs s"
    "th_error (threads s' t) = th_error (threads s t)"
proof -
  let ?f = "\<lambda>th. th\<lparr>th_current_priority := p, th_number_mask := 2 ^ unat p\<rparr>"
  have ty: "rt_object_get_type (OThread t) s = 1"
    using rt_object_get_type_live [OF inv, of "OThread t"] live by (simp add: class_of_def)
  show thesis
  proof (cases "status s t = RT_THREAD_READY")
    case False
    let ?s = "upd_thread t ?f s"
    have "rt_thread_control t 2 p s = Some (RT_EOK, ?s)"
      using False ty by (simp add: rt_thread_control_def)
    then show thesis
      using that [of ?s] kinv_set_prio [OF inv p False] False
      by (simp add: upd_thread_def core_step_def thread_prio_def status_def)
  next
    case True
    then have act: "active (status s t)" by simp
    have nc: "rt_current_thread s \<noteq> Some t" using kinv_cur [OF inv] True by auto
    obtain s1 where s1: "rt_schedule_remove_thread t s = Some s1" "group_ok s1"
      and e1: "s1 = s\<lparr>thread_rings := ring_remove t (thread_rings s),
        rt_thread_ready_priority_group := rt_thread_ready_priority_group s1\<rparr>"
      by (rule remove_thread_ok [OF inv act])
    have f1: "threads s1 = threads s" "thread_rings s1 = ring_remove t (thread_rings s)"
      "rt_current_thread s1 = rt_current_thread s" "core_step s s1" "timers s1 = timers s" "timer_rings s1 = timer_rings s"
      "objs s1 = objs s"
      by (subst e1, simp add: core_step_def)+
    let ?s2 = "upd_thread t ?f s1"
    have pre: "rt_current_thread ?s2 \<noteq> Some t" "thread_prio ?s2 t < 32" "home (thread_rings ?s2) t = None"
      "th_number_mask (threads ?s2 t) = 2 ^ thread_prio ?s2 t" "group_ok ?s2" "rings_ok (thread_rings ?s2)"
      using nc p s1(2) rings_ok_remove [OF kinvD(1) [OF inv]]
      by (simp_all add: upd_thread_def f1 thread_prio_def group_ok_def)
    obtain s3 where s3: "rt_schedule_insert_thread t ?s2 = Some s3"
      "threads s3 = (threads ?s2)(t := set_stat RT_THREAD_READY (threads ?s2 t))"
      "home (thread_rings s3) = (home (thread_rings ?s2))(t := Some (Ready (thread_prio ?s2 t)))"
      "ring (thread_rings s3) = (ring (thread_rings ?s2))(Ready (thread_prio ?s2 t) :=
         ring (thread_rings ?s2) (Ready (thread_prio ?s2 t)) @ [t])"
      "group_ok s3" "rings_ok (thread_rings s3)" "sched_step ?s2 s3" "rt_current_thread s3 = rt_current_thread ?s2"
      "thread_prio s3 = thread_prio ?s2"
      by (rule insert_thread_result [OF pre])
    have core: "core_step s s3"
      using core_step_trans [OF core_step_trans [OF f1(4) thread_stepD(1) [OF thread_step_upd]] sched_step_core [OF s3(7)]] .
    have st3: "status s3 u = status s u" "live s3 = live s" for u
      using True core_step_live [OF core] by (auto simp: status_def s3(2) upd_thread_def f1)
    have p3: "thread_prio s3 t = unat p" "th_number_mask (threads s3 t) = 2 ^ unat p"
      by (simp_all add: s3(2,9) thread_prio_def upd_thread_def)
    have h3: "home (thread_rings s3) t = Some (Ready (unat p))"
      by (simp add: s3(3) thread_prio_def upd_thread_def)
    have same: "timers s3 = timers s" "timer_rings s3 = timer_rings s" "objs s3 = objs s"
      using s3(7) f1 by (simp_all add: sched_step_def upd_thread_def)
    have "kinv s3"
    proof (rule kinv_threads_cong [OF inv, where T = "{t}"])
      show "thread_ok s3 u" if "u \<in> {t}" for u
        using that kinvD(5) [OF inv, of t] p True
        by (auto simp: thread_ok_def thread_timer_alive_def st3 p3 h3 place_ok_def waits_on_def)
      show "status s3 u = RT_THREAD_SUSPEND" if "home (timer_rings s) (ThreadTimer u) = Some HardTimers" for u
        using kinvD(6) [OF inv, of "ThreadTimer u"] that by (simp add: st3 timer_ok_def)
      show "cur_ok s3" using kinvD(8) [OF inv] by (simp add: cur_ok_def st3 s3(8)) (simp add: upd_thread_def f1)
    qed (use s3 f1 core same in \<open>auto simp: core_step_def upd_thread_def\<close>)
    moreover have "rt_thread_control t 2 p s = Some (RT_EOK, s3)"
      using True ty s1(1) s3(1) by (simp add: rt_thread_control_def)
    ultimately show thesis
      using that [of s3] core st3 p3 True same s3(2,4,8)
      by (auto simp: upd_thread_def f1 thread_prio_def fun_eq_iff ring_ring_remove [OF kinvD(1) [OF inv]])
  qed
qed

subsection \<open>Initialising a thread\<close>

lemma dead_thread:
  assumes inv: "kinv s" and dead: "\<not> live s (OThread t)"
  shows "\<not> active (status s t)" "home (thread_rings s) t = None" "\<not> live s (OTimer (ThreadTimer t))"
proof -
  have ok: "thread_ok s t" using inv by (rule kinvD)
  show na: "\<not> active (status s t)" using ok dead by (auto simp: thread_ok_def)
  show "\<not> live s (OTimer (ThreadTimer t))" using ok dead by (auto simp: thread_ok_def thread_timer_alive_def)
  show "home (thread_rings s) t = None"
    using ok dead na by (auto simp: thread_ok_def place_ok_def active_def split: option.splits thread_list.splits)
qed

lemma kinv_linked_thread:
  assumes inv: "kinv s" and dead: "\<not> live s (OThread t)" and nm: "length nm = 8"
    and ty: "ty = 1 OR 0x80 \<or> ty = 1 \<and> BObject (OThread t) \<in> heap s"
  shows "kinv (linked_object (OThread t) ty nm s)" (is "kinv ?s")
proof (rule kinv_change [OF inv, where T = "{t}" and Q = "{ThreadTimer t}" and X = "{OThread t}"])
  note d = dead_thread [OF inv dead]
  have lv: "live ?s x \<longleftrightarrow> x = OThread t \<or> live s x" for x by (simp add: live_def linked_object_def)
  have st: "status ?s = status s" "thread_prio ?s = thread_prio s"
    by (simp_all add: status_def thread_prio_def linked_object_def fun_eq_iff)
  show "rings_all_ok ?s"
    using kinvD(1,2) [OF inv] rings_ok_linked_object [OF inv dead]
    by (simp add: rings_all_ok_def) (simp add: linked_object_def)
  show "group_ok ?s" by (rule group_ok_cong [OF kinvD(7) [OF inv]]) (simp_all add: linked_object_def)
  show "cur_ok ?s" by (rule cur_ok_cong [OF kinvD(8) [OF inv]]) (simp_all add: linked_object_def)
  show "lock_ok ?s" by (rule lock_ok_cong [OF kinvD(9) [OF inv]]) (simp_all add: linked_object_def)
  show "thread_ok ?s u" if "u \<in> {t}" for u
    using that kinvD(5) [OF inv, of t] d
    unfolding thread_ok_def thread_timer_alive_def st lv by (auto simp: linked_object_def waits_on_def)
  show "timer_ok ?s q" if "q \<in> {ThreadTimer t}" for q
    using that kinvD(6) [OF inv, of q] d(3) not_live_timer_unlinked [OF inv d(3)]
    unfolding timer_ok_def st lv by (auto simp: linked_object_def)
qed (use nm ty in \<open>auto simp: linked_object_def obj_ok_def class_of_def live_def\<close>)

lemma kinv_thread_reset:
  assumes inv: "kinv s" and na: "\<not> active (status s t)" and un: "home (thread_rings s) t = None"
    and tm: "\<not> live s (OTimer (ThreadTimer t))" and cur: "rt_current_thread s \<noteq> Some t"
    and f: "th_stat (f (threads s t)) = RT_THREAD_INIT"
  shows "kinv (upd_thread t f s)" (is "kinv ?s")
proof (rule kinv_threads_cong [OF inv, where T = "{t}"])
  have st: "status ?s u = (if u = t then RT_THREAD_INIT else status s u)" "live ?s = live s"
    "thread_rings ?s = thread_rings s" for u
    using f by (auto simp: status_def upd_thread_def live_def fun_eq_iff)
  show "thread_ok ?s u" if "u \<in> {t}" for u
    using that kinvD(5) [OF inv, of t] un tm
    by (simp add: thread_ok_def thread_timer_alive_def st place_ok_def waits_on_def)
  show "cur_ok ?s"
    using kinvD(8) [OF inv] cur by (auto simp: cur_ok_def st) (auto simp: upd_thread_def)
  show "status ?s u = RT_THREAD_SUSPEND"
    if "u \<in> {t}" "home (timer_rings s) (ThreadTimer u) = Some HardTimers" for u
    using that not_live_timer_unlinked [OF inv tm] by simp
qed (use kinvD [OF inv] in \<open>auto simp: upd_thread_def group_ok_def\<close>)

lemma kinv_new_thread_timer:
  assumes inv: "kinv s" and dead: "\<not> live s (OTimer (ThreadTimer t))" and live: "live s (OThread t)"
    and init: "status s t = RT_THREAD_INIT" and p: "thread_prio s t < 32" and nm: "length nm = 8"
  shows "kinv (new_timer (ThreadTimer t) Thread_timeout t 0 0 (linked_object (OTimer (ThreadTimer t)) (10 OR 0x80) nm s))"
    (is "kinv ?s")
proof (rule kinv_change [OF inv, where T = "{t}" and Q = "{ThreadTimer t}" and X = "{OTimer (ThreadTimer t)}"])
  have lv: "live ?s x \<longleftrightarrow> x = OTimer (ThreadTimer t) \<or> live s x" for x
    by (simp add: live_def new_timer_fields linked_object_def)
  have st: "status ?s = status s" "thread_prio ?s = thread_prio s" "thread_rings ?s = thread_rings s"
    "threads ?s = threads s"
    by (simp_all add: status_def thread_prio_def new_timer_fields linked_object_def fun_eq_iff)
  show "rings_all_ok ?s"
    using kinvD(1,2) [OF inv] rings_ok_linked_object [OF inv dead]
    by (simp add: rings_all_ok_def new_timer_fields) (simp add: linked_object_def)
  show "group_ok ?s" by (rule group_ok_cong [OF kinvD(7) [OF inv]]) (simp_all add: new_timer_fields linked_object_def)
  show "cur_ok ?s" by (rule cur_ok_cong [OF kinvD(8) [OF inv]]) (simp_all add: new_timer_fields linked_object_def)
  show "lock_ok ?s" by (rule lock_ok_cong [OF kinvD(9) [OF inv]]) (simp_all add: new_timer_fields linked_object_def)
  show "thread_ok ?s u" if "u \<in> {t}" for u
    using that kinvD(5) [OF inv, of t] live init p
    unfolding thread_ok_def thread_timer_alive_def st lv by auto
  show "timer_ok ?s q" if "q \<in> {ThreadTimer t}" for q
    using that not_live_timer_unlinked [OF inv dead]
    by (simp add: timer_ok_def new_timer_fields timer_place_ok_def timer_flag_def live_def linked_object_def is_static_def)
qed (use nm in \<open>auto simp: new_timer_fields linked_object_def obj_ok_def class_of_def live_def\<close>)

lemma thread_init_ok:
  assumes inv: "kinv s" and live: "live s (OThread t)" and tm: "\<not> live s (OTimer (ThreadTimer t))"
    and un: "home (thread_rings s) t = None" and na: "\<not> active (status s t)"
    and cur: "rt_current_thread s \<noteq> Some t" and p: "unat p < 32"
  obtains s' where "thread_init hw t entry par stk sz p tick s = Some (RT_EOK, s')" "kinv s'"
    "status s' t = RT_THREAD_INIT" "live s' (OThread t)" "live s' (OTimer (ThreadTimer t))" "thread_prio s' t = unat p"
    "rt_current_thread s' = None \<longleftrightarrow> rt_current_thread s = None"
proof -
  let ?f = "\<lambda>th. th\<lparr>th_entry := entry, th_parameter := par, th_stack_addr := stk, th_stack_size := sz,
      th_sp := hw entry par (stk + unat sz - 4), th_current_priority := p, th_number_mask := 0, th_event_set := 0,
      th_event_info := 0, th_init_tick := tick, th_remaining_tick := tick, th_error := RT_EOK,
      th_stat := RT_THREAD_INIT, th_cleanup := None, th_user_data := 0\<rparr>"
  let ?s1 = "upd_thread t ?f s" and ?r = "ThreadTimer t"
  have k1: "kinv ?s1" by (rule kinv_thread_reset [OF inv na un tm cur]) simp
  have f1: "live ?s1 = live s" "status ?s1 t = RT_THREAD_INIT" "thread_prio ?s1 t = unat p" "objs ?s1 = objs s"
    "rt_current_thread ?s1 = rt_current_thread s"
    by (simp_all add: live_def upd_thread_def status_def thread_prio_def fun_eq_iff)
  have rd: "readable 8 (ob_name (objs s (OThread t)))" using readable_buffer obj_ok_name [OF inv] by blast
  have dead1: "\<not> live ?s1 (OTimer ?r)" using tm f1(1) by simp
  obtain s2 nm where init: "rt_object_init (OTimer ?r) (class_of (OTimer ?r)) (ob_name (objs s (OThread t))) ?s1 =
      Some (linked_object (OTimer ?r) (class_of (OTimer ?r) OR RT_Object_Class_Static) nm s2)"
    and s2: "s2 = ?s1 \<or> schedules ?s1 s2" "kinv s2" "core_step ?s1 s2" "length nm = 8"
    by (rule rt_object_init_ok [OF k1 dead1 rd], rule that)
  have f2: "live s2 = live s" "status s2 t = RT_THREAD_INIT" "thread_prio s2 t = unat p"
    "rt_current_thread s2 = None \<longleftrightarrow> rt_current_thread s = None"
    using core_step_live [OF s2(3)] f1 s2(1) schedulesD(5) [of ?s1 s2 t] schedulesD(7) [of ?s1 s2 t]
      schedulesD(4,10,11) [of ?s1 s2]
    by auto
  let ?s3 = "linked_object (OTimer ?r) (10 OR 0x80) nm s2"
  let ?s4 = "new_timer ?r Thread_timeout t 0 0 ?s3"
  have dead2: "\<not> live s2 (OTimer ?r)" using tm f2(1) by simp
  have "home (timer_rings ?s3) ?r = None" using not_live_timer_unlinked [OF s2(2) dead2] by (simp add: linked_object_def)
  note ti = timer_init_eq [OF this]
  have up: "upd_thread t (\<lambda>th. th\<lparr>th_current_priority := p, th_number_mask := 0, th_event_set := 0,
           th_event_info := 0, th_init_tick := tick, th_remaining_tick := tick, th_error := RT_EOK,
           th_stat := RT_THREAD_INIT, th_cleanup := None, th_user_data := 0\<rparr>)
      (upd_thread t (\<lambda>th. th\<lparr>th_entry := entry, th_parameter := par, th_stack_addr := stk,
           th_stack_size := sz, th_sp := hw entry par (stk + unat sz - 4)\<rparr>) s) = ?s1"
    by (simp add: upd_thread_def)
  have "thread_init hw t entry par stk sz p tick s = Some (RT_EOK, ?s4)"
    using un p init ti up f1(4)
    by (simp add: thread_init_def ring_init_node_def rt_timer_init_def class_of_def Let_def)
  moreover have "kinv ?s4"
    by (rule kinv_new_thread_timer [OF s2(2) dead2]) (use live f2 p s2(4) in simp_all)
  moreover have "live ?s4 x \<longleftrightarrow> x = OTimer ?r \<or> live s2 x" "status ?s4 t = status s2 t"
    "thread_prio ?s4 t = thread_prio s2 t" "rt_current_thread ?s4 = rt_current_thread s2" for x
    by (simp_all add: new_timer_fields live_def linked_object_def status_def thread_prio_def)
  ultimately show thesis using that [of ?s4] f2 live by simp
qed

lemma rt_thread_init_ok:
  assumes inv: "kinv s" and dead: "\<not> live s (OThread t)" and cur: "rt_current_thread s \<noteq> Some t"
    and p: "unat p < 32" and name: "readable RT_NAME_MAX name" and stk: "stk \<noteq> 0"
  obtains s' where "rt_thread_init hw t name entry par stk sz p tick s = Some (RT_EOK, s')" "kinv s'"
    "status s' t = RT_THREAD_INIT" "live s' (OThread t)" "live s' (OTimer (ThreadTimer t))" "thread_prio s' t = unat p"
    "rt_current_thread s' = None \<longleftrightarrow> rt_current_thread s = None"
proof -
  obtain s1 nm where init: "rt_object_init (OThread t) (class_of (OThread t)) name s =
      Some (linked_object (OThread t) (class_of (OThread t) OR RT_Object_Class_Static) nm s1)"
    and s1: "s1 = s \<or> schedules s s1" "kinv s1" "core_step s s1" "length nm = 8"
    by (rule rt_object_init_ok [OF inv dead name], rule that)
  have dead1: "\<not> live s1 (OThread t)" using core_step_live [OF s1(3)] dead by simp
  note d = dead_thread [OF s1(2) dead1]
  have nr: "status s t \<noteq> RT_THREAD_READY" using dead_thread(1) [OF inv dead] by auto
  have cur1: "rt_current_thread s1 \<noteq> Some t" "rt_current_thread s1 = None \<longleftrightarrow> rt_current_thread s = None"
    using s1(1) schedulesD(4,10,11) [of s s1] cur nr by auto
  let ?s2 = "linked_object (OThread t) (1 OR 0x80) nm s1"
  have k2: "kinv ?s2" using kinv_linked_thread [OF s1(2) dead1 s1(4)] by simp
  have f2: "live ?s2 (OThread t)" "\<not> live ?s2 (OTimer (ThreadTimer t))" "home (thread_rings ?s2) t = None"
    "\<not> active (status ?s2 t)" "rt_current_thread ?s2 = rt_current_thread s1"
    using d by (simp_all add: live_def linked_object_def status_def)
  obtain s' where s': "thread_init hw t entry par stk sz p tick ?s2 = Some (RT_EOK, s')" "kinv s'"
    "status s' t = RT_THREAD_INIT" "live s' (OThread t)" "live s' (OTimer (ThreadTimer t))" "thread_prio s' t = unat p"
    "rt_current_thread s' = None \<longleftrightarrow> rt_current_thread ?s2 = None"
    using thread_init_ok [OF k2 f2(1-4) _ p] cur1(1) f2(5) by metis
  have "rt_thread_init hw t name entry par stk sz p tick s = Some (RT_EOK, s')"
    using init s'(1) stk by (simp add: rt_thread_init_def class_of_def)
  then show thesis using that s' cur1 f2(5) by simp
qed

subsection \<open>Starting a hard timer\<close>

lemma filter_insert_timer: "r \<notin> set xs \<Longrightarrow> filter (\<lambda>q. q \<noteq> r) (insert_timer tick timeout r xs) = xs"
proof -
  assume r: "r \<notin> set xs"
  let ?A = "takeWhile (\<lambda>t. \<not> later tick timeout t) xs" and ?B = "dropWhile (\<lambda>t. \<not> later tick timeout t) xs"
  have "r \<notin> set ?A" "r \<notin> set ?B" using r set_takeWhileD set_dropWhileD by metis+
  then have "filter (\<lambda>q. q \<noteq> r) ?A = ?A" "filter (\<lambda>q. q \<noteq> r) ?B = ?B" by (auto simp: filter_id_conv)
  then show ?thesis unfolding insert_timer_def filter_append filter.simps by simp
qed

text \<open>
  C24. Starting a timer: the timer is linked into the list of hard timers so that the list stays ordered by the time left
  (with the wrap-around of the 32-bit tick counter taken into account), it expires after its period, and no
  other timer is touched or changes its place.
\<close>

theorem rt_timer_start_correct:
  assumes "kinv s" "live s (OTimer r)" "\<not> bit (timer_flag s r) 2" "hard_sorted s"
    "\<forall>t. r = ThreadTimer t \<longrightarrow> status s t = RT_THREAD_SUSPEND"
  shows "\<exists>s'. rt_timer_start r s = Some (RT_EOK, s') \<and> kinv s' \<and> hard_sorted s' \<and>
    r \<in> set (ring (timer_rings s') HardTimers) \<and> tm_timeout_tick (timers s' r) = rt_tick s + tm_init_tick (timers s r) \<and>
    filter (\<lambda>q. q \<noteq> r) (ring (timer_rings s') HardTimers) = filter (\<lambda>q. q \<noteq> r) (ring (timer_rings s) HardTimers) \<and>
    (\<forall>q. q \<noteq> r \<longrightarrow> timers s' q = timers s q)"
proof -
  let ?s' = "started r s"
  have ok: "rings_ok (timer_rings s)" using assms(1) by (rule kinvD)
  have home: "timer_home s r = HardTimers" using assms(3) by (simp add: timer_home_def)
  have rem: "remove1 r (ring (timer_rings s) HardTimers) = filter (\<lambda>q. q \<noteq> r) (ring (timer_rings s) HardTimers)"
    using rings_ok_distinct [OF ok] by (auto simp: distinct_remove1_removeAll removeAll_filter_not_eq intro: filter_cong)
  have ring: "ring (timer_rings ?s') HardTimers =
      insert_timer (timer_tick ?s') (timer_tick ?s' r) r (filter (\<lambda>q. q \<noteq> r) (ring (timer_rings s) HardTimers))"
    using started_ring [OF ok, of r HardTimers] home rem by simp
  have "filter (\<lambda>q. q \<noteq> r) (ring (timer_rings ?s') HardTimers) = filter (\<lambda>q. q \<noteq> r) (ring (timer_rings s) HardTimers)"
    unfolding ring by (rule filter_insert_timer) simp
  moreover have "r \<in> set (ring (timer_rings ?s') HardTimers)" unfolding ring by (simp add: set_insert_timer)
  ultimately show ?thesis
    using rt_timer_start_hard [OF assms(1-3)] kinv_started [OF assms(1,2)] assms(5) hard_sorted_started [OF assms(1,2,4)]
    by (simp add: started_fields)
qed

theorem rt_timer_start_correct_witness:
  "\<exists>s'. rt_timer_start (UserTimer 0) (demo 3) = Some (RT_EOK, s') \<and> kinv s' \<and> hard_sorted s' \<and>
    UserTimer 0 \<in> set (ring (timer_rings s') HardTimers) \<and>
    tm_timeout_tick (timers s' (UserTimer 0)) = rt_tick (demo 3) + tm_init_tick (timers (demo 3) (UserTimer 0)) \<and>
    filter (\<lambda>q. q \<noteq> UserTimer 0) (ring (timer_rings s') HardTimers) =
      filter (\<lambda>q. q \<noteq> UserTimer 0) (ring (timer_rings (demo 3)) HardTimers) \<and>
    (\<forall>q. q \<noteq> UserTimer 0 \<longrightarrow> timers s' q = timers (demo 3) q)"
  by (rule rt_timer_start_correct)
    (simp_all add: demo_kinv demo_live_iff demo_live_def hard_sorted_def timers_sorted_def empty_rings_def timer_flag_def zero_obj_def)

subsection \<open>The life of a thread\<close>

text \<open>
  Changing the priority of a thread (command 2, \<^verbatim>\<open>RT_THREAD_CTRL_CHANGE_PRIORITY\<close>): the call stores the new priority; a ready thread moves to the end of the ready
  list of its new priority and leaves the others in place; a running or waiting thread stays where it is. No
  status and no other thread changes.
\<close>

theorem rt_thread_change_priority_correct:
  assumes "kinv s" "live s (OThread t)" "unat p < 32"
  shows "\<exists>s'. rt_thread_control t 2 p s = Some (RT_EOK, s') \<and> kinv s' \<and> thread_prio s' t = unat p \<and>
    (\<forall>u. status s' u = status s u) \<and> (\<forall>u. u \<noteq> t \<longrightarrow> threads s' u = threads s u) \<and>
    (if status s t = RT_THREAD_READY
     then ring (thread_rings s') (Ready (unat p)) = remove1 t (ring (thread_rings s) (Ready (unat p))) @ [t] \<and>
       (\<forall>l. l \<noteq> Ready (unat p) \<longrightarrow> ring (thread_rings s') l = remove1 t (ring (thread_rings s) l))
     else ring (thread_rings s') = ring (thread_rings s))"
proof -
  obtain s' where "rt_thread_control t 2 p s = Some (RT_EOK, s')" "kinv s'" "thread_prio s' t = unat p"
    "\<And>u. status s' u = status s u" "\<And>u. u \<noteq> t \<Longrightarrow> threads s' u = threads s u"
    "ring (thread_rings s') = (if status s t = RT_THREAD_READY
       then (\<lambda>l. if l = Ready (unat p) then remove1 t (ring (thread_rings s) l) @ [t] else remove1 t (ring (thread_rings s) l))
       else ring (thread_rings s))"
    by (rule rt_thread_control_prio_ok [OF assms], rule that)
  then show ?thesis by (intro exI [of _ s']) simp
qed

theorem rt_thread_change_priority_correct_witness:
  "\<exists>s'. rt_thread_control 2 2 9 (demo 3) = Some (RT_EOK, s') \<and> kinv s' \<and> thread_prio s' 2 = unat (9 :: u8) \<and>
    (\<forall>u. status s' u = status (demo 3) u) \<and> (\<forall>u. u \<noteq> 2 \<longrightarrow> threads s' u = threads (demo 3) u) \<and>
    (if status (demo 3) 2 = RT_THREAD_READY
     then ring (thread_rings s') (Ready (unat (9 :: u8))) = remove1 2 (ring (thread_rings (demo 3)) (Ready (unat (9 :: u8)))) @ [2] \<and>
       (\<forall>l. l \<noteq> Ready (unat (9 :: u8)) \<longrightarrow> ring (thread_rings s') l = remove1 2 (ring (thread_rings (demo 3)) l))
     else ring (thread_rings s') = ring (thread_rings (demo 3)))"
  by (rule rt_thread_change_priority_correct) (simp_all add: demo_kinv demo_live_iff demo_live_def)

text \<open>
  A new thread can run: \<^verbatim>\<open>rt_thread_init\<close> on an object that is not in use, with a legal priority and a stack, followed by
  \<^verbatim>\<open>rt_thread_startup\<close>, leaves the thread ready or running, with its timer in the container and the kernel
  invariant intact.
\<close>

theorem rt_thread_init_startup:
  assumes "kinv s" "\<not> live s (OThread t)" "rt_current_thread s \<noteq> Some t" "unat p < 32" "readable RT_NAME_MAX name" "stk \<noteq> 0"
  shows "\<exists>s1 s2. rt_thread_init hw t name entry par stk sz p tick s = Some (RT_EOK, s1) \<and> kinv s1 \<and>
    status s1 t = RT_THREAD_INIT \<and> thread_prio s1 t = unat p \<and>
    rt_thread_startup t s1 = Some (RT_EOK, s2) \<and> kinv s2 \<and> live s2 (OThread t) \<and> live s2 (OTimer (ThreadTimer t)) \<and>
    (status s2 t = RT_THREAD_READY \<or> status s2 t = RT_THREAD_RUNNING)"
proof -
  obtain s1 where s1: "rt_thread_init hw t name entry par stk sz p tick s = Some (RT_EOK, s1)" "kinv s1"
    "status s1 t = RT_THREAD_INIT" "live s1 (OThread t)" "live s1 (OTimer (ThreadTimer t))" "thread_prio s1 t = unat p"
    by (rule rt_thread_init_ok [OF assms], rule that)
  obtain s2 where s2: "rt_thread_startup t s1 = Some (RT_EOK, s2)" "kinv s2" "core_step s1 s2"
    "status s2 t = RT_THREAD_READY \<or> status s2 t = RT_THREAD_RUNNING"
    by (rule rt_thread_startup_ok [OF s1(2,3,4,5)], rule that)
  show ?thesis using s1 s2 core_step_live [OF s2(3)] by auto
qed

theorem rt_thread_init_startup_witness:
  "\<exists>s1 s2. rt_thread_init (\<lambda>_ _ sp. sp) 7 [97, 0] 100 0 4096 256 10 20 (demo 3) = Some (RT_EOK, s1) \<and> kinv s1 \<and>
    status s1 7 = RT_THREAD_INIT \<and> thread_prio s1 7 = unat (10 :: u8) \<and>
    rt_thread_startup 7 s1 = Some (RT_EOK, s2) \<and> kinv s2 \<and> live s2 (OThread 7) \<and> live s2 (OTimer (ThreadTimer 7)) \<and>
    (status s2 7 = RT_THREAD_READY \<or> status s2 7 = RT_THREAD_RUNNING)"
  by (rule rt_thread_init_startup) (simp_all add: demo_kinv demo_live_iff demo_live_def readable_def)

text \<open>
  The end of a thread: when the entry function of the running thread returns, \<^verbatim>\<open>_thread_exit\<close> closes the thread, puts it
  at the head of the list of threads to reclaim, removes its timer, and gives the processor to another thread if
  one is ready; the other threads keep their waiting lists.
\<close>

theorem thread_exit_correct:
  assumes "kinv s" "rt_current_thread s = Some t" "status s t = RT_THREAD_RUNNING" "rt_scheduler_lock_nest s = 0"
    "status s u = RT_THREAD_READY"
  shows "\<exists>s'. thread_exit s = Some s' \<and> kinv s' \<and> status s' t = RT_THREAD_CLOSE \<and>
    ring (thread_rings s') Defunct = t # ring (thread_rings s) Defunct \<and>
    (\<exists>n. n \<noteq> t \<and> rt_current_thread s' = Some n \<and> status s n = RT_THREAD_READY)"
proof -
  obtain s1 s' where s': "thread_exit s = Some s'" "kinv s1" "schedules s1 s'" "status s1 t = RT_THREAD_CLOSE"
    "rt_current_thread s1 = Some t" "rt_schedule s1 = Some s'"
    "ring (thread_rings s1) Defunct = t # ring (thread_rings s) Defunct" "rt_scheduler_lock_nest s1 = rt_scheduler_lock_nest s"
    "\<And>u. u \<noteq> t \<Longrightarrow> threads s1 u = threads s u \<and> home (thread_rings s1) u = home (thread_rings s) u"
    by (rule thread_exit_ok [OF assms(1-3)], rule that)
  have same: "status s1 v = status s v" if "v \<noteq> t" for v using s'(9) [OF that] by (simp add: status_def)
  have "u \<noteq> t" using assms(3,5) by auto
  then have "status s1 u = RT_THREAD_READY" using same assms(5) by simp
  then have away: "rt_current_thread s' \<noteq> Some t"
    using schedules_away [OF s'(2,5) _ _ _ s'(6), of u] s'(4,8) assms(4) by simp
  then obtain n where n: "rt_current_thread s' = Some n" "status s1 n = RT_THREAD_READY"
    using schedulesD(10) [OF s'(3)] s'(5) by auto
  then have "n \<noteq> t" using away by auto
  moreover have "status s' t = RT_THREAD_CLOSE" using schedulesD(5) [OF s'(3), of t] s'(4) by auto
  moreover have "ring (thread_rings s') Defunct = ring (thread_rings s1) Defunct" using schedulesD(6) [OF s'(3)] by simp
  ultimately show ?thesis using s'(1,7) schedulesD(1) [OF s'(3)] n same by auto
qed

theorem thread_exit_correct_witness:
  "\<exists>s'. thread_exit (demo 3) = Some s' \<and> kinv s' \<and> status s' 1 = RT_THREAD_CLOSE \<and>
    ring (thread_rings s') Defunct = 1 # ring (thread_rings (demo 3)) Defunct \<and>
    (\<exists>n. n \<noteq> 1 \<and> rt_current_thread s' = Some n \<and> status (demo 3) n = RT_THREAD_READY)"
  by (rule thread_exit_correct [where u = 2]) (simp_all add: demo_kinv demo_status)

end
