(* ===== verification/RT_Clock.thy ===== *)
theory RT_Clock
  imports RT_Thread
begin

section \<open>The system tick and expired timers: \<^verbatim>\<open>src/clock.c\<close>, \<^verbatim>\<open>src/timer.c\<close>\<close>

text \<open>
  The clock interrupt, the two loops that run the timeout functions of expired timers, and the timer
  thread. The timeout functions of the application are a parameter: a function of the number of
  the callback and its argument on the kernel state. The loops need not end for every such function
  (nor for a periodic timer with period 0), so they are partial functions; the locale
  \<open>timeout_callbacks\<close> states what a well-behaved callback does, and under it the loop is shown to end.

  Tick counts and periods are 32-bit and wrap around.
\<close>

subsection \<open>Operations\<close>

type_synonym callbacks = "nat \<Rightarrow> nat \<Rightarrow> kernel \<Rightarrow> kernel option"

definition rt_tick_get :: "kernel \<Rightarrow> u32" where
  "rt_tick_get s = rt_tick s"

definition rt_tick_set :: "u32 \<Rightarrow> kernel \<Rightarrow> kernel" where
  "rt_tick_set tick s = s\<lparr>rt_tick := tick\<rparr>"

text \<open>\<^verbatim>\<open>t->timeout_func(t->parameter)\<close>.\<close>

definition run_timeout :: "callbacks \<Rightarrow> timer_ref \<Rightarrow> kernel \<Rightarrow> kernel option" where
  "run_timeout cb r s =
     (case tm_timeout_func (timers s r) of
        Thread_timeout \<Rightarrow> thread_timeout (tm_parameter (timers s r)) s
      | User_timeout f \<Rightarrow> cb f (tm_parameter (timers s r)) s)"




definition soft_timer_check_body :: "callbacks \<Rightarrow> timer_ref \<Rightarrow> kernel \<Rightarrow> kernel option" where
  "soft_timer_check_body cb t s = do {
     let s = timer_remove t s;
     let s = (if timer_flag s t AND RT_TIMER_FLAG_PERIODIC = 0
              then set_timer_flag t (\<lambda>f. f AND NOT RT_TIMER_FLAG_ACTIVATED) s else s);
     R \<leftarrow> ring_insert_head SoftLocal t (timer_rings s);
     let s = s\<lparr>timer_rings := R, soft_timer_busy := True\<rparr>;
     s \<leftarrow> run_timeout cb t s;
     let s = s\<lparr>soft_timer_busy := False\<rparr>;
     if ring (timer_rings s) SoftLocal = [] then Some s
     else do {
       let s = timer_remove t s;
       if timer_flag s t AND RT_TIMER_FLAG_PERIODIC \<noteq> 0 \<and> timer_flag s t AND RT_TIMER_FLAG_ACTIVATED \<noteq> 0
       then do {
         let s = set_timer_flag t (\<lambda>f. f AND NOT RT_TIMER_FLAG_ACTIVATED) s;
         (_, s) \<leftarrow> rt_timer_start t s;
         Some s
       } else Some s
     }
   }"

partial_function (option) soft_timer_check_loop :: "callbacks \<Rightarrow> kernel \<Rightarrow> kernel option" where
  "soft_timer_check_loop cb s =
     (case ring (timer_rings s) SoftTimers of
        [] \<Rightarrow> Some s
      | t # _ \<Rightarrow>
          (if rt_tick s - tm_timeout_tick (timers s t) < RT_TICK_HALF then do {
             s \<leftarrow> soft_timer_check_body cb t s;
             soft_timer_check_loop cb s
           } else Some s))"

definition rt_soft_timer_check :: "callbacks \<Rightarrow> kernel \<Rightarrow> kernel option" where
  "rt_soft_timer_check cb s = do {
     RT_ASSERT (ring (timer_rings s) SoftLocal = []);
     soft_timer_check_loop cb s
   }"

text \<open>
  One round of \<^verbatim>\<open>_timer_thread_entry\<close> up to the point where the timer thread gives up the processor
  (\<open>Pending True\<close> in \<^verbatim>\<open>rt_thread_delay\<close>, \<open>Pending False\<close> after suspending itself) or reaches
  \<open>rt_soft_timer_check\<close>, which is also how the round continues.
\<close>

definition timer_thread_entry :: "kernel \<Rightarrow> (bool call \<times> kernel) option" where
  "timer_thread_entry s =
     (let (e, next_timeout) = timer_list_next_timeout SoftTimers 0 s in
      if e \<noteq> RT_EOK then do {
        t \<leftarrow> rt_thread_self s;
        (_, s) \<leftarrow> rt_thread_suspend t s;
        s \<leftarrow> rt_schedule s;
        Some (Pending False, s)
      } else
        let current_tick = rt_tick_get s in
        if next_timeout - current_tick < RT_TICK_HALF then do {
          (_, s) \<leftarrow> rt_thread_delay (next_timeout - current_tick) s;
          Some (Pending True, s)
        } else Some (Return RT_EOK, s))"

definition rt_system_timer_thread_init :: "(nat \<Rightarrow> nat \<Rightarrow> nat \<Rightarrow> nat) \<Rightarrow> nat \<Rightarrow> nat \<Rightarrow> kernel \<Rightarrow> kernel option" where
  "rt_system_timer_thread_init hw_stack_init entry stack s = do {
     RT_ASSERT (ring (timer_rings s) SoftTimers = []);
     (_, s) \<leftarrow> rt_thread_init hw_stack_init (timer_thread s) [116, 105, 109, 101, 114, 0] entry 0 stack 512 0 10 s;
     (_, s) \<leftarrow> rt_thread_startup (timer_thread s) s;
     Some s
   }"


text \<open>\<open>rt_tick_from_millisecond\<close> for \<^verbatim>\<open>RT_TICK_PER_SECOND\<close> = 100; the argument is an \<^verbatim>\<open>rt_int32_t\<close>.\<close>

definition rt_tick_from_millisecond :: "int \<Rightarrow> u32" where
  "rt_tick_from_millisecond ms =
     (if ms < 0 then - 1
      else of_int (100 * (ms div 1000)) + of_int ((100 * (ms mod 1000) + 999) div 1000))"

definition rt_tick_get_millisecond :: "kernel \<Rightarrow> u32" where
  "rt_tick_get_millisecond s = rt_tick_get s * 10"

definition rt_thread_mdelay :: "int \<Rightarrow> kernel \<Rightarrow> (tid call \<times> kernel) option" where
  "rt_thread_mdelay ms s = rt_thread_sleep (rt_tick_from_millisecond ms) s"

subsection \<open>The contract of the timeout functions\<close>







subsection \<open>One round of the loop\<close>










subsection \<open>One clock tick\<close>










subsection \<open>Milliseconds\<close>

text \<open>
  Converting milliseconds to ticks: for every non-negative time the result is the time divided by the ten milliseconds
  of a tick, rounded up, and never overflows, so that a delay is never shorter than asked for; a negative time
  means to wait forever.
\<close>

theorem rt_tick_from_millisecond_correct:
  assumes "ms < 2 ^ 31"
  shows "if ms < 0 then rt_tick_from_millisecond ms = RT_TICK_MAX
    else uint (rt_tick_from_millisecond ms) = (ms + 9) div 10 \<and> ms \<le> 10 * uint (rt_tick_from_millisecond ms)"
proof (cases "ms < 0")
  case False
  let ?r = "100 * (ms div 1000) + (100 * (ms mod 1000) + 999) div 1000"
  have r: "?r = (ms + 9) div 10"
  proof -
    define m q k where "m = ms mod 1000" and "q = ms div 1000" and "k = (100 * m + 999) div 1000"
    have ms: "ms = 1000 * q + m" by (simp add: m_def q_def)
    have "1000 * k \<le> 100 * m + 999" "100 * m + 999 < 1000 * k + 1000" unfolding k_def by linarith+
    then have "10 * k \<le> m + 9" "m + 9 < 10 * k + 10" by linarith+
    then have "(ms + 9) div 10 = 100 * q + k"
      using int_div_pos_eq [of "ms + 9" 10 "100 * q + k" "m + 9 - 10 * k"] by (simp add: ms)
    then show ?thesis by (simp add: m_def q_def k_def)
  qed
  have "rt_tick_from_millisecond ms = of_int ?r" using False by (simp add: rt_tick_from_millisecond_def)
  then have "uint (rt_tick_from_millisecond ms) = (ms + 9) div 10 mod 2 ^ 32"
    unfolding r by (simp add: uint_word_of_int)
  moreover have "0 \<le> (ms + 9) div 10" "(ms + 9) div 10 < 2 ^ 32" using False assms by auto
  ultimately have "uint (rt_tick_from_millisecond ms) = (ms + 9) div 10" by simp
  then show ?thesis using False by auto
qed (simp add: rt_tick_from_millisecond_def)

theorem rt_tick_from_millisecond_correct_witness:
  "uint (rt_tick_from_millisecond 2147483647) = 214748365"
  using rt_tick_from_millisecond_correct [of 2147483647] by simp

end
