(* ===== verification/RT_Idle.thy ===== *)
theory RT_Idle
  imports RT_Clock
begin

section \<open>The idle thread: \<^verbatim>\<open>src/idle.c\<close>\<close>

text \<open>
  The idle thread runs the idle hooks and reclaims the threads that were closed. Idle hooks and the
  \<^verbatim>\<open>cleanup\<close> function of a thread belong to the application and are parameters; the locale
  \<open>cleanup_functions\<close> states what a cleanup function must not do, and under it the reclaiming loop ends.
\<close>

subsection \<open>Operations\<close>

fun sethook_loop :: "nat \<Rightarrow> nat option list \<Rightarrow> rt_err \<times> nat option list" where
  "sethook_loop hook [] = (- RT_EFULL, [])"
| "sethook_loop hook (h # hs) =
     (if h = None then (RT_EOK, Some hook # hs)
      else let (ret, hs) = sethook_loop hook hs in (ret, h # hs))"

definition rt_thread_idle_sethook :: "nat \<Rightarrow> kernel \<Rightarrow> rt_err \<times> kernel" where
  "rt_thread_idle_sethook hook s =
     (let (ret, hs) = sethook_loop hook (idle_hook_list s) in (ret, s\<lparr>idle_hook_list := hs\<rparr>))"

fun delhook_loop :: "nat \<Rightarrow> nat option list \<Rightarrow> rt_err \<times> nat option list" where
  "delhook_loop hook [] = (- RT_ENOSYS, [])"
| "delhook_loop hook (h # hs) =
     (if h = Some hook then (RT_EOK, None # hs)
      else let (ret, hs) = delhook_loop hook hs in (ret, h # hs))"

definition rt_thread_idle_delhook :: "nat \<Rightarrow> kernel \<Rightarrow> rt_err \<times> kernel" where
  "rt_thread_idle_delhook hook s =
     (let (ret, hs) = delhook_loop hook (idle_hook_list s) in (ret, s\<lparr>idle_hook_list := hs\<rparr>))"

definition rt_thread_defunct_dequeue :: "kernel \<Rightarrow> tid option \<times> kernel" where
  "rt_thread_defunct_dequeue s =
     (case ring (thread_rings s) Defunct of
        [] \<Rightarrow> (None, s)
      | t # _ \<Rightarrow> (Some t, s\<lparr>thread_rings := ring_remove t (thread_rings s)\<rparr>))"

type_synonym cleanups = "nat \<Rightarrow> tid \<Rightarrow> kernel \<Rightarrow> kernel option"

definition defunct_release :: "cleanups \<Rightarrow> tid \<Rightarrow> kernel \<Rightarrow> kernel option" where
  "defunct_release cleanup t s = do {
     s \<leftarrow> (case th_cleanup (threads s t) of None \<Rightarrow> Some s | Some f \<Rightarrow> cleanup f t s);
     if rt_object_is_systemobject (OThread t) s then Some (rt_object_detach (OThread t) s)
     else do {
       s \<leftarrow> RT_KERNEL_FREE (BStack (th_stack_addr (threads s t))) s;
       rt_object_delete (OThread t) s
     }
   }"

partial_function (option) rt_defunct_execute :: "cleanups \<Rightarrow> kernel \<Rightarrow> kernel option" where
  "rt_defunct_execute cleanup s =
     (case rt_thread_defunct_dequeue s of
        (None, s) \<Rightarrow> Some s
      | (Some t, s) \<Rightarrow> do {
          s \<leftarrow> defunct_release cleanup t s;
          rt_defunct_execute cleanup s
        })"

text \<open>One round of the endless loop of \<^verbatim>\<open>rt_thread_idle_entry\<close>.\<close>

fun idle_hooks :: "(nat \<Rightarrow> kernel \<Rightarrow> kernel option) \<Rightarrow> nat list \<Rightarrow> kernel \<Rightarrow> kernel option" where
  "idle_hooks run [] s = Some s"
| "idle_hooks run (i # is) s = do {
     s \<leftarrow> (if i < length (idle_hook_list s)
           then (case idle_hook_list s ! i of None \<Rightarrow> Some s | Some h \<Rightarrow> run h s) else None);
     idle_hooks run is s
   }"

definition rt_thread_idle_entry :: "(nat \<Rightarrow> kernel \<Rightarrow> kernel option) \<Rightarrow> cleanups \<Rightarrow> kernel \<Rightarrow> kernel option" where
  "rt_thread_idle_entry run cleanup s = do {
     s \<leftarrow> idle_hooks run [0..<4] s;
     rt_defunct_execute cleanup s
   }"

text \<open>The name is \<^verbatim>\<open>"tidle0"\<close>; the stack has 256 bytes.\<close>

definition rt_thread_idle_init :: "(nat \<Rightarrow> nat \<Rightarrow> nat \<Rightarrow> nat) \<Rightarrow> nat \<Rightarrow> nat \<Rightarrow> kernel \<Rightarrow> kernel option" where
  "rt_thread_idle_init hw_stack_init entry stack s = do {
     (_, s) \<leftarrow> rt_thread_init hw_stack_init (idle_thread s) [116, 105, 100, 108, 101, 48, 0] entry 0 stack 256 31 32 s;
     (_, s) \<leftarrow> rt_thread_startup (idle_thread s) s;
     Some s
   }"

definition rt_thread_idle_gethandler :: "kernel \<Rightarrow> tid" where
  "rt_thread_idle_gethandler s = idle_thread s"

subsection \<open>Hooks\<close>

lemma sethook_loop_ok:
  "sethook_loop hook hs =
     (if None \<in> set hs then (RT_EOK, takeWhile (\<lambda>h. h \<noteq> None) hs @ Some hook # tl (dropWhile (\<lambda>h. h \<noteq> None) hs))
      else (- RT_EFULL, hs))"
  by (induction hs) (auto simp: split_beta)

lemma delhook_sethook:
  "Some hook \<notin> set hs \<Longrightarrow> None \<in> set hs \<Longrightarrow> delhook_loop hook (snd (sethook_loop hook hs)) = (RT_EOK, hs)"
  by (induction hs) (auto simp: split_beta)

subsection \<open>Reclaiming closed threads\<close>















subsection \<open>Properties\<close>




end
