(* ===== verification/RT_Ipc.thy ===== *)
theory RT_Ipc
  imports RT_Idle
begin

section \<open>Lists of waiting threads: the helpers of \<^verbatim>\<open>src/ipc.c\<close>\<close>

text \<open>
  Every IPC object has one or two lists of suspended threads. This theory models the four inline
  helpers that all IPC objects share, the sequence by which a blocking call puts the calling thread
  to sleep in such a list, and the laws the objects rely on: where a thread is inserted, which thread
  is woken, and that waking all of them ends.

  Waiting times are \<^verbatim>\<open>rt_int32_t\<close>: 0 does not wait, a negative time waits forever.
\<close>

subsection \<open>Operations\<close>

text \<open>\<^verbatim>\<open>rt_list_init\<close> of a list head that has members would lose them: it has no result then.\<close>

definition ipc_object_init :: "thread_list \<Rightarrow> kernel \<Rightarrow> kernel option" where
  "ipc_object_init list s = do {
     RT_ASSERT (ring (thread_rings s) list = []);
     Some s
   }"

text \<open>The search of \<^verbatim>\<open>RT_IPC_FLAG_PRIO\<close>: the first waiting thread of lower priority.\<close>

fun ipc_prio_search :: "kernel \<Rightarrow> tid \<Rightarrow> tid list \<Rightarrow> tid option" where
  "ipc_prio_search s thread [] = None"
| "ipc_prio_search s thread (sthread # ns) =
     (if th_current_priority (threads s thread) < th_current_priority (threads s sthread) then Some sthread
      else ipc_prio_search s thread ns)"

definition ipc_list_suspend :: "thread_list \<Rightarrow> tid \<Rightarrow> u8 \<Rightarrow> kernel \<Rightarrow> kernel option" where
  "ipc_list_suspend list thread flag s = do {
     (_, s) \<leftarrow> rt_thread_suspend thread s;
     R \<leftarrow> (if flag = RT_IPC_FLAG_FIFO then ring_insert_tail list thread (thread_rings s)
           else if flag = RT_IPC_FLAG_PRIO then
             (case ipc_prio_search s thread (ring (thread_rings s) list) of
                Some sthread \<Rightarrow> ring_insert_before sthread thread (thread_rings s)
              | None \<Rightarrow> ring_insert_tail list thread (thread_rings s))
           else None);
     Some (s\<lparr>thread_rings := R\<rparr>)
   }"

definition ipc_list_resume :: "thread_list \<Rightarrow> kernel \<Rightarrow> kernel option" where
  "ipc_list_resume list s =
     (case ring (thread_rings s) list of
        [] \<Rightarrow> None
      | t # _ \<Rightarrow> do {
          (_, s) \<leftarrow> rt_thread_resume t s;
          Some s
        })"

partial_function (option) ipc_list_resume_all :: "thread_list \<Rightarrow> kernel \<Rightarrow> kernel option" where
  "ipc_list_resume_all list s =
     (case ring (thread_rings s) list of
        [] \<Rightarrow> Some s
      | t # _ \<Rightarrow> do {
          let s = upd_thread t (\<lambda>th. th\<lparr>th_error := - RT_ERROR\<rparr>) s;
          (_, s) \<leftarrow> rt_thread_resume t s;
          ipc_list_resume_all list s
        })"

text \<open>
  The sequence of a blocking call: suspend the calling thread in the list and, for a positive time,
  start its timer. The code repeats these lines in every blocking operation.
\<close>

definition wait_timer :: "tid \<Rightarrow> int \<Rightarrow> kernel \<Rightarrow> kernel option" where
  "wait_timer thread time s =
     (if time > 0 then do {
        (_, _, s) \<leftarrow> rt_timer_control (ThreadTimer thread) 0 (of_int time) s;
        (_, s) \<leftarrow> rt_timer_start (ThreadTimer thread) s;
        Some s
      } else Some s)"

definition ipc_wait :: "thread_list \<Rightarrow> tid \<Rightarrow> u8 \<Rightarrow> int \<Rightarrow> kernel \<Rightarrow> kernel option" where
  "ipc_wait list thread flag time s = do {
     s \<leftarrow> ipc_list_suspend list thread flag s;
     wait_timer thread time s
   }"

text \<open>The local variables \<^verbatim>\<open>thread\<close>, \<^verbatim>\<open>timeout\<close> and \<^verbatim>\<open>tick_delta\<close> of a waiting call.\<close>

record wait_locals =
  wl_thread :: tid
  wl_timeout :: int
  wl_tick_delta :: u32

text \<open>\<^verbatim>\<open>timeout -= rt_tick_get() - tick_delta\<close>, computed with unsigned words and stored in an \<^verbatim>\<open>rt_int32_t\<close>.\<close>

definition remaining_timeout :: "wait_locals \<Rightarrow> kernel \<Rightarrow> int" where
  "remaining_timeout w s =
     (if wl_timeout w > 0 then
        let timeout = sint (of_int (wl_timeout w) - (rt_tick_get s - wl_tick_delta w) :: u32)
        in if timeout < 0 then 0 else timeout
      else wl_timeout w)"

subsection \<open>Where a thread is inserted\<close>

text \<open>FIFO lists are extended at the end; PRIO lists after all threads of at least the same priority.\<close>

definition wait_insert :: "kernel \<Rightarrow> u8 \<Rightarrow> tid \<Rightarrow> tid list \<Rightarrow> tid list" where
  "wait_insert s flag t ts =
     (if flag = RT_IPC_FLAG_FIFO then ts @ [t]
      else takeWhile (\<lambda>u. thread_prio s u \<le> thread_prio s t) ts @ t #
           dropWhile (\<lambda>u. thread_prio s u \<le> thread_prio s t) ts)"

definition prio_ordered :: "kernel \<Rightarrow> tid list \<Rightarrow> bool" where
  "prio_ordered s ts \<longleftrightarrow> sorted (map (thread_prio s) ts)"

lemma set_wait_insert [simp]: "set (wait_insert s flag t ts) = insert t (set ts)"
proof -
  have "set ts = set (takeWhile P ts) \<union> set (dropWhile P ts)" for P
    by (metis set_append takeWhile_dropWhile_id)
  then show ?thesis unfolding wait_insert_def by simp
qed

lemma sorted_insert_at:
  fixes f :: "'a \<Rightarrow> nat"
  assumes "sorted (map f ts)"
  shows "sorted (map f (takeWhile (\<lambda>u. f u \<le> f t) ts @ t # dropWhile (\<lambda>u. f u \<le> f t) ts))"
  using assms
proof (induction ts)
  case (Cons x xs)
  then show ?case by (auto dest: set_takeWhileD set_dropWhileD)
qed simp

lemma prio_ordered_insert: "prio_ordered s ts \<Longrightarrow> prio_ordered s (wait_insert s RT_IPC_FLAG_PRIO t ts)"
  unfolding prio_ordered_def wait_insert_def using sorted_insert_at [of "thread_prio s" ts t] by simp

lemma ipc_prio_search_eq:
  "ipc_prio_search s t ts =
     (case dropWhile (\<lambda>u. thread_prio s u \<le> thread_prio s t) ts of [] \<Rightarrow> None | u # _ \<Rightarrow> Some u)"
  by (induction ts) (auto simp: thread_prio_def word_less_nat_alt)

text \<open>The list a waiting thread may be in.\<close>

definition wait_list :: "obj_ref \<Rightarrow> thread_list \<Rightarrow> bool" where
  "wait_list x l \<longleftrightarrow> l = Suspended x \<or> l = SenderSuspended x \<and> has_senders x"

lemma wait_list_simps [simp]:
  "wait_list x (Suspended y) \<longleftrightarrow> x = y" "wait_list x (SenderSuspended y) \<longleftrightarrow> x = y \<and> has_senders x" "\<not> wait_list x (Ready p)" "\<not> wait_list x Defunct"
  by (auto simp: wait_list_def)

lemma wait_list_not_ready: "wait_list x l \<Longrightarrow> l \<noteq> Ready p"
  by auto

lemma wait_list_insert:
  assumes ok: "rings_ok R" and un: "home R t = None" and R: "R = thread_rings s"
    and flag: "flag = RT_IPC_FLAG_FIFO \<or> flag = RT_IPC_FLAG_PRIO"
  shows "(if flag = RT_IPC_FLAG_FIFO then ring_insert_tail l t R
          else if flag = RT_IPC_FLAG_PRIO then
             (case ipc_prio_search s t (ring R l) of
                Some u \<Rightarrow> ring_insert_before u t R
              | None \<Rightarrow> ring_insert_tail l t R)
          else None) =
    Some (R\<lparr>ring := (ring R)(l := wait_insert s flag t (ring R l)), home := (home R)(t := Some l)\<rparr>)"
proof (cases "flag = RT_IPC_FLAG_FIFO")
  case True
  then show ?thesis using un by (simp add: ring_insert_tail_def wait_insert_def)
next
  case False
  let ?P = "\<lambda>u. thread_prio s u \<le> thread_prio s t"
  show ?thesis
  proof (cases "dropWhile ?P (ring R l)")
    case Nil
    then have eqs: "takeWhile ?P (ring R l) = ring R l" "dropWhile ?P (ring R l) = []" by simp_all
    show ?thesis
      using False flag un unfolding ipc_prio_search_eq wait_insert_def eqs by (simp add: ring_insert_tail_def)
  next
    case (Cons u us)
    have split: "ring R l = takeWhile ?P (ring R l) @ u # us" using Cons by (metis takeWhile_dropWhile_id)
    then have mem: "u \<in> set (ring R l)" by (metis in_set_conv_decomp)
    have "u \<notin> set (takeWhile ?P (ring R l))"
      using rings_ok_distinct [OF ok, of l] split by (metis distinct_append distinct.simps(2) disjoint_iff list.set_intros(1))
    then have "list_insert_before u t (ring R l) = takeWhile ?P (ring R l) @ t # u # us"
      using list_insert_before_split split by metis
    moreover have "home R u = Some l" using mem rings_ok_home [OF ok] by blast
    moreover have "u \<noteq> t" using \<open>home R u = Some l\<close> un by auto
    ultimately show ?thesis
      using False flag un Cons by (simp add: ipc_prio_search_eq ring_insert_before_def wait_insert_def)
  qed
qed

subsection \<open>Suspending into a list\<close>

lemma stat_fields:
  assumes "(a :: rt_thread)\<lparr>th_stat := 0\<rparr> = b\<lparr>th_stat := 0\<rparr>"
  shows "th_error a = th_error b" "th_event_set a = th_event_set b" "th_event_info a = th_event_info b"
    "th_current_priority a = th_current_priority b" "th_remaining_tick a = th_remaining_tick b"
    "th_init_tick a = th_init_tick b" "th_number_mask a = th_number_mask b"
  by (use assms in \<open>cases a; cases b; simp\<close>)+

text \<open>A suspended thread may be linked into the list of an object that exists.\<close>

lemma kinv_link_suspended:
  assumes inv: "kinv s" and sus: "status s t = RT_THREAD_SUSPEND"
    and x: "wait_list x l" "live s x" "is_ipc x" and un: "home (thread_rings s) t = None"
    and R: "R = (thread_rings s)\<lparr>ring := (ring (thread_rings s))(l := zs), home := (home (thread_rings s))(t := Some l)\<rparr>"
    and zs: "set zs = insert t (set (ring (thread_rings s) l))" "distinct zs"
  shows "kinv (s\<lparr>thread_rings := R\<rparr>)" (is "kinv ?s")
proof (rule kinv_threads_cong [OF inv, where T = "{t}"])
  have st: "status ?s u = status s u" "thread_prio ?s u = thread_prio s u" "live ?s = live s" for u
    by (simp_all add: status_def thread_prio_def live_def fun_eq_iff)
  have "waits_on (Some l) = Some x" "place_ok RT_THREAD_SUSPEND p (Some l)" for p
    using x(1) by (auto simp: wait_list_def waits_on_def place_ok_def)
  then show "thread_ok ?s u" if "u \<in> {t}" for u
    using that kinvD(5) [OF inv, of t] sus x(2,3) x(1)
    unfolding thread_ok_def thread_timer_alive_def st by (auto simp: R)
  show "cur_ok ?s" using kinvD(8) [OF inv] by (simp add: cur_ok_def st)
  show "group_ok ?s" using kinvD(7) [OF inv] wait_list_not_ready [OF x(1)] by (auto simp: group_ok_def R)
  show "rings_ok (thread_rings ?s)"
    using kinvD(1) [OF inv] un zs rings_ok_unlinked [OF kinvD(1) [OF inv] un]
    unfolding rings_ok_def R by auto
qed (use sus in \<open>auto simp: R status_def\<close>)

lemma distinct_wait_insert:
  assumes "distinct ts" "t \<notin> set ts"
  shows "distinct (wait_insert s flag t ts)"
proof -
  let ?P = "\<lambda>u. thread_prio s u \<le> thread_prio s t"
  have "distinct (takeWhile ?P ts @ dropWhile ?P ts)" using assms(1) by simp
  then have "set (takeWhile ?P ts) \<inter> set (dropWhile ?P ts) = {}" by (simp only: distinct_append)
  then show ?thesis
    using assms unfolding wait_insert_def by (auto dest: set_takeWhileD set_dropWhileD)
qed

lemma ipc_list_suspend_ok:
  assumes inv: "kinv s" and cur: "rt_current_thread s = Some t" and run: "status s t = RT_THREAD_RUNNING"
    and x: "wait_list x l" "live s x" "is_ipc x" and flag: "flag = RT_IPC_FLAG_FIFO \<or> flag = RT_IPC_FLAG_PRIO"
  obtains s' where "ipc_list_suspend l t flag s = Some s'" "kinv s'" "thread_step t s s'"
    "status s' t = RT_THREAD_SUSPEND" "home (thread_rings s') t = Some l"
    "ring (thread_rings s') = (ring (thread_rings s))(l := wait_insert s flag t (ring (thread_rings s) l))"
    "th_error (threads s' t) = th_error (threads s t)" "thread_prio s' t = thread_prio s t"
    "home (timer_rings s') (ThreadTimer t) \<noteq> Some HardTimers"
    "(threads s' t)\<lparr>th_stat := 0\<rparr> = (threads s t)\<lparr>th_stat := 0\<rparr>"
proof -
  obtain s1 where s1: "rt_thread_suspend t s = Some (RT_EOK, s1)" "kinv s1" "thread_step t s s1"
    "thread_rings s1 = thread_rings s" "home (thread_rings s1) t = None" "status s1 t = RT_THREAD_SUSPEND"
    "th_error (threads s1 t) = th_error (threads s t)" "thread_prio s1 t = thread_prio s t"
    "home (timer_rings s1) (ThreadTimer t) \<noteq> Some HardTimers"
    "(threads s1 t)\<lparr>th_stat := 0\<rparr> = (threads s t)\<lparr>th_stat := 0\<rparr>"
    by (rule rt_thread_suspend_ok [OF inv cur run], rule that)
  have prio: "thread_prio s1 u = thread_prio s u" for u
    using thread_stepD(4) [OF s1(3), of u] s1(8) by (cases "u = t") (simp_all add: thread_prio_def)
  let ?ts = "ring (thread_rings s) l"
  let ?R = "(thread_rings s1)\<lparr>ring := (ring (thread_rings s1))(l := wait_insert s1 flag t ?ts),
      home := (home (thread_rings s1))(t := Some l)\<rparr>"
  have ins: "wait_insert s1 flag t ?ts = wait_insert s flag t ?ts" by (simp add: wait_insert_def prio)
  let ?s2 = "s1\<lparr>thread_rings := ?R\<rparr>"
  have tn: "t \<notin> set ?ts" using rings_ok_unlinked [OF kinvD(1) [OF s1(2)] s1(5), of l] s1(4) by simp
  have k: "kinv ?s2"
    by (rule kinv_link_suspended [OF s1(2,6) x(1) _ x(3) s1(5) refl])
      (use x thread_stepD(3) [OF s1(3)] s1(4) tn rings_ok_distinct [OF kinvD(1) [OF inv]] in \<open>auto intro: distinct_wait_insert\<close>)
  have eq: "ipc_list_suspend l t flag s = Some ?s2"
    using s1(1) wait_list_insert [OF kinvD(1) [OF s1(2)] s1(5) refl flag, of l] s1(4)
    by (simp add: ipc_list_suspend_def)
  have "thread_step t s1 ?s2" by (auto simp: thread_step_def core_step_def)
  then have "thread_step t s ?s2" using thread_step_trans [OF s1(3)] by blast
  then show thesis
    using that [OF eq k] s1 ins by (simp add: status_def thread_prio_def)
qed

text \<open>Starting the timer of a suspended thread, for a positive time.\<close>

lemma wait_timer_ok:
  assumes inv: "kinv s" and sus: "status s t = RT_THREAD_SUSPEND" and off: "home (timer_rings s) (ThreadTimer t) \<noteq> Some HardTimers"
    and time: "time < 0x7fffffff"
  obtains s' where "wait_timer t time s = Some s'" "kinv s'" "thread_step t s s'" "threads s' = threads s"
    "thread_rings s' = thread_rings s" "home (timer_rings s') (ThreadTimer t) = Some HardTimers \<longleftrightarrow> time > 0"
    "time > 0 \<Longrightarrow> tm_timeout_tick (timers s' (ThreadTimer t)) = rt_tick s + of_int time"
proof (cases "time > 0")
  case False
  then show thesis using that [of s] inv off by (simp add: wait_timer_def)
next
  case True
  let ?r = "ThreadTimer t" and ?n = "of_int time :: u32"
  let ?s2 = "upd_timer ?r (\<lambda>m. m\<lparr>tm_init_tick := ?n\<rparr>) s"
  have n: "?n < RT_TICK_HALF" using True time by (simp add: word_less_def uint_word_of_int)
  have live: "live s (OTimer ?r)" using kinv_active(4) [OF inv, of t] sus by simp
  have ctl: "rt_timer_control ?r 0 ?n s = Some (RT_EOK, ?n, ?s2)"
    using rt_object_get_type_live [OF inv, of "OTimer ?r"] live n by (simp add: rt_timer_control_def class_of_def)
  have k2: "kinv ?s2" using kinv_upd_timer [OF inv n] .
  have f2: "live ?s2 (OTimer ?r)" "\<not> bit (timer_flag ?s2 ?r) 2" "status ?s2 t = RT_THREAD_SUSPEND"
    using live kinvD(6) [OF inv, of ?r] sus
    by (auto simp: live_def upd_timer_def timer_flag_def timer_ok_def status_def)
  let ?s3 = "started ?r ?s2"
  have eq: "wait_timer t time s = Some ?s3"
    using ctl rt_timer_start_hard [OF k2 f2(1,2)] True by (simp add: wait_timer_def)
  have k3: "kinv ?s3" by (rule kinv_started [OF k2 f2(1)]) (use f2(3) in simp)
  have step: "thread_step t s ?s3"
    using timer_step_thread_step [OF timer_step_trans [OF timer_step_upd timer_step_started]] .
  note d = timer_stepD [OF timer_step_started [of ?r ?s2]]
  have fr: "threads ?s3 = threads s" "thread_rings ?s3 = thread_rings s"
    using d(2,3) by (simp_all add: upd_timer_def)
  have "home (timer_rings ?s3) ?r = Some HardTimers" "tm_timeout_tick (timers ?s3 ?r) = rt_tick s + ?n"
    using f2(2) by (simp_all add: started_fields timer_home_def timer_tick_def [symmetric]) (simp add: upd_timer_def)
  then show thesis using that [OF eq k3 step fr] True by simp
qed

lemma ipc_wait_ok:
  assumes inv: "kinv s" and cur: "rt_current_thread s = Some t" and run: "status s t = RT_THREAD_RUNNING"
    and x: "wait_list x l" "live s x" "is_ipc x" and flag: "flag = RT_IPC_FLAG_FIFO \<or> flag = RT_IPC_FLAG_PRIO"
    and time: "time < 0x7fffffff"
  obtains s' where "ipc_wait l t flag time s = Some s'" "kinv s'" "thread_step t s s'"
    "status s' t = RT_THREAD_SUSPEND" "home (thread_rings s') t = Some l"
    "ring (thread_rings s') = (ring (thread_rings s))(l := wait_insert s flag t (ring (thread_rings s) l))"
    "th_error (threads s' t) = th_error (threads s t)" "thread_prio s' t = thread_prio s t"
    "home (timer_rings s') (ThreadTimer t) = Some HardTimers \<longleftrightarrow> time > 0"
    "time > 0 \<Longrightarrow> tm_timeout_tick (timers s' (ThreadTimer t)) = rt_tick s + of_int time"
    "(threads s' t)\<lparr>th_stat := 0\<rparr> = (threads s t)\<lparr>th_stat := 0\<rparr>"
proof -
  obtain s1 where s1: "ipc_list_suspend l t flag s = Some s1" "kinv s1" "thread_step t s s1"
    "status s1 t = RT_THREAD_SUSPEND" "home (thread_rings s1) t = Some l"
    "ring (thread_rings s1) = (ring (thread_rings s))(l := wait_insert s flag t (ring (thread_rings s) l))"
    "th_error (threads s1 t) = th_error (threads s t)" "thread_prio s1 t = thread_prio s t"
    "home (timer_rings s1) (ThreadTimer t) \<noteq> Some HardTimers"
    "(threads s1 t)\<lparr>th_stat := 0\<rparr> = (threads s t)\<lparr>th_stat := 0\<rparr>"
    by (rule ipc_list_suspend_ok [OF inv cur run x flag], rule that)
  obtain s2 where s2: "wait_timer t time s1 = Some s2" "kinv s2" "thread_step t s1 s2" "threads s2 = threads s1"
    "thread_rings s2 = thread_rings s1" "home (timer_rings s2) (ThreadTimer t) = Some HardTimers \<longleftrightarrow> time > 0"
    "time > 0 \<Longrightarrow> tm_timeout_tick (timers s2 (ThreadTimer t)) = rt_tick s1 + of_int time"
    by (rule wait_timer_ok [OF s1(2,4,9) time], rule that)
  have "rt_tick s1 = rt_tick s" using thread_stepD(1) [OF s1(3)] by (simp add: core_step_def)
  then show thesis
    using that [of s2] s1 s2 thread_step_trans [OF s1(3) s2(3)] by (simp add: ipc_wait_def status_def thread_prio_def)
qed

subsection \<open>Waking threads\<close>

text \<open>The suspended threads of the set \<open>W\<close> are made ready; nothing else about the lists changes.\<close>

definition wakes :: "tid set \<Rightarrow> kernel \<Rightarrow> kernel \<Rightarrow> bool" where
  "wakes W s s' \<longleftrightarrow> kinv s' \<and> core_step s s' \<and> rt_current_thread s' = rt_current_thread s \<and> timers_shrink s s' \<and>
     (\<forall>u\<in>W. status s u = RT_THREAD_SUSPEND \<and>
        status s' u = (if rt_current_thread s = Some u then RT_THREAD_RUNNING else RT_THREAD_READY) \<and>
        (threads s' u)\<lparr>th_stat := 0, th_error := 0, th_event_set := 0\<rparr> = (threads s u)\<lparr>th_stat := 0, th_error := 0, th_event_set := 0\<rparr>) \<and>
     (\<forall>u. u \<notin> W \<longrightarrow> threads s' u = threads s u \<and> home (thread_rings s') u = home (thread_rings s) u) \<and>
     (\<forall>l. (\<forall>p. l \<noteq> Ready p) \<longrightarrow> ring (thread_rings s') l = filter (\<lambda>u. u \<notin> W) (ring (thread_rings s) l))"

lemma wakesD:
  assumes "wakes W s s'"
  shows "kinv s'" "core_step s s'" "rt_current_thread s' = rt_current_thread s" "timers_shrink s s'"
    "u \<in> W \<Longrightarrow> status s' u = (if rt_current_thread s = Some u then RT_THREAD_RUNNING else RT_THREAD_READY)"
    "u \<notin> W \<Longrightarrow> threads s' u = threads s u" "u \<notin> W \<Longrightarrow> home (thread_rings s') u = home (thread_rings s) u"
    "u \<notin> W \<Longrightarrow> status s' u = status s u" "u \<in> W \<Longrightarrow> status s u = RT_THREAD_SUSPEND"
    "wait_list x l \<Longrightarrow> ring (thread_rings s') l = filter (\<lambda>u. u \<notin> W) (ring (thread_rings s) l)"
    "live s' = live s" "thread_prio s' u = thread_prio s u"
proof -
  show "thread_prio s' u = thread_prio s u"
  proof (cases "u \<in> W")
    case True
    then have "(threads s' u)\<lparr>th_stat := 0, th_error := 0, th_event_set := 0\<rparr> = (threads s u)\<lparr>th_stat := 0, th_error := 0, th_event_set := 0\<rparr>"
      using assms by (simp add: wakes_def)
    from arg_cong [OF this, of th_current_priority] show ?thesis by (simp add: thread_prio_def)
  qed (use assms in \<open>simp add: wakes_def thread_prio_def\<close>)
  show "wait_list x l \<Longrightarrow> ring (thread_rings s') l = filter (\<lambda>u. u \<notin> W) (ring (thread_rings s) l)"
    using assms wait_list_not_ready [of x l] by (simp add: wakes_def)
qed (use assms core_step_live in \<open>auto simp: wakes_def status_def\<close>)

lemma wakes_refl: "kinv s \<Longrightarrow> wakes {} s s"
  by (simp add: wakes_def timers_shrink_same)

lemma wakes_trans:
  assumes 1: "wakes V s s'" and 2: "wakes W s' s''"
  shows "wakes (V \<union> W) s s''"
proof -
  have disj: "u \<notin> V" if "u \<in> W" for u
    using wakesD(5) [OF 1, of u] wakesD(9) [OF 2 that] by (auto split: if_splits)
  have st: "status s u = RT_THREAD_SUSPEND \<and>
      status s'' u = (if rt_current_thread s = Some u then RT_THREAD_RUNNING else RT_THREAD_READY) \<and>
      (threads s'' u)\<lparr>th_stat := 0, th_error := 0, th_event_set := 0\<rparr> = (threads s u)\<lparr>th_stat := 0, th_error := 0, th_event_set := 0\<rparr>" if "u \<in> V \<union> W" for u
  proof (cases "u \<in> W")
    case True
    then show ?thesis
      using 2 disj [OF True] wakesD(6,8) [OF 1, of u] wakesD(3) [OF 1] by (simp add: wakes_def)
  next
    case False
    then have "u \<in> V" using that by simp
    then show ?thesis using 1 wakesD(6,8) [OF 2 False] by (simp add: wakes_def)
  qed
  moreover have "core_step s s''" using wakesD(2) [OF 1] wakesD(2) [OF 2] by (rule core_step_trans)
  moreover have "timers_shrink s s''" using wakesD(4) [OF 1] wakesD(4) [OF 2] by (rule timers_shrink_trans)
  ultimately show ?thesis
    using 1 2 unfolding wakes_def [of "V \<union> W"] by (auto simp: wakes_def intro!: filter_cong)
qed

lemma wakes_resume:
  assumes inv: "kinv s" and sus: "status s t = RT_THREAD_SUSPEND"
  obtains s' where "rt_thread_resume t s = Some (RT_EOK, s')" "wakes {t} s s'" "th_error (threads s' t) = th_error (threads s t)"
    "th_event_set (threads s' t) = th_event_set (threads s t)"
proof -
  obtain s' where s': "rt_thread_resume t s = Some (RT_EOK, s')" "kinv s'" "thread_step t s s'"
    "status s' t = (if rt_current_thread s = Some t then RT_THREAD_RUNNING else RT_THREAD_READY)"
    "th_error (threads s' t) = th_error (threads s t)"
    "ring (thread_rings s') = (\<lambda>l. if l = Ready (thread_prio s t) \<and> rt_current_thread s \<noteq> Some t
       then ring (thread_rings s) l @ [t] else remove1 t (ring (thread_rings s) l))"
    "timers_shrink s s'" "(threads s' t)\<lparr>th_stat := 0\<rparr> = (threads s t)\<lparr>th_stat := 0\<rparr>"
    by (rule rt_thread_resume_ok [OF inv sus], rule that)
  have "ring (thread_rings s') l = filter (\<lambda>u. u \<notin> {t}) (ring (thread_rings s) l)" if "\<forall>p. l \<noteq> Ready p" for l
    using that s'(6) distinct_remove1_removeAll [OF rings_ok_distinct [OF kinvD(1) [OF inv]], of t l]
    by (simp add: removeAll_filter_not_eq) metis
  moreover have "(threads s' t)\<lparr>th_stat := 0, th_error := 0, th_event_set := 0\<rparr> =
      (threads s t)\<lparr>th_stat := 0, th_error := 0, th_event_set := 0\<rparr>"
    using arg_cong [OF s'(8), of "\<lambda>th. th\<lparr>th_error := 0, th_event_set := 0\<rparr>"] by simp
  ultimately have "wakes {t} s s'"
    using s' sus thread_stepD [OF s'(3)] unfolding wakes_def by simp
  then show thesis using that s' stat_fields [OF s'(8)] by blast
qed

lemma waiting_suspended:
  assumes inv: "kinv s" and x: "wait_list x l" and t: "t \<in> set (ring (thread_rings s) l)"
  shows "status s t = RT_THREAD_SUSPEND" "home (thread_rings s) t = Some l"
proof -
  show h: "home (thread_rings s) t = Some l" using rings_ok_home [OF kinvD(1) [OF inv], of t l] t by simp
  show "status s t = RT_THREAD_SUSPEND" using kinv_place [OF inv, of t] h x by (auto simp: wait_list_def place_ok_def)
qed

lemma ipc_list_resume_ok:
  assumes inv: "kinv s" and x: "wait_list x l" and ring: "ring (thread_rings s) l = t # ts"
  obtains s' where "ipc_list_resume l s = Some s'" "wakes {t} s s'" "ring (thread_rings s') l = ts"
    "th_error (threads s' t) = th_error (threads s t)"
proof -
  have sus: "status s t = RT_THREAD_SUSPEND" using waiting_suspended(1) [OF inv x, of t] ring by simp
  obtain s' where s': "rt_thread_resume t s = Some (RT_EOK, s')" "wakes {t} s s'" "th_error (threads s' t) = th_error (threads s t)"
    by (rule wakes_resume [OF inv sus], rule that)
  have "t \<notin> set ts" using rings_ok_distinct [OF kinvD(1) [OF inv], of l] ring by simp
  then have "filter (\<lambda>u. u \<notin> {t}) ts = ts" by (intro filter_True) auto
  then have "ring (thread_rings s') l = ts" using wakesD(10) [OF s'(2) x] ring by simp
  then show thesis using that [OF _ s'(2) _ s'(3)] s'(1) ring by (simp add: ipc_list_resume_def)
qed

lemma wakes_set_error:
  assumes inv: "kinv s" and sus: "status s t = RT_THREAD_SUSPEND"
    and w: "wakes {t} (upd_thread t (\<lambda>th. th\<lparr>th_error := e\<rparr>) s) s'"
  shows "wakes {t} s s'"
proof -
  let ?s1 = "upd_thread t (\<lambda>th. th\<lparr>th_error := e\<rparr>) s"
  have "core_step s ?s1" "timers_shrink s ?s1"
    by (simp_all add: core_step_def upd_thread_def timers_shrink_same)
  then show ?thesis
    using w sus core_step_trans timers_shrink_trans unfolding wakes_def by (auto simp: upd_thread_def status_def)
qed

lemma wakes_set_event:
  assumes inv: "kinv s" and sus: "status s t = RT_THREAD_SUSPEND"
    and w: "wakes {t} (upd_thread t (\<lambda>th. th\<lparr>th_event_set := e\<rparr>) s) s'"
  shows "wakes {t} s s'"
proof -
  let ?s1 = "upd_thread t (\<lambda>th. th\<lparr>th_event_set := e\<rparr>) s"
  have "core_step s ?s1" "timers_shrink s ?s1"
    by (simp_all add: core_step_def upd_thread_def timers_shrink_same)
  then show ?thesis
    using w sus core_step_trans timers_shrink_trans unfolding wakes_def by (auto simp: upd_thread_def status_def)
qed

text \<open>Waking all threads of a list ends, with an error for every one of them.\<close>

lemma ipc_list_resume_all_ok:
  "kinv s \<Longrightarrow> wait_list x l \<Longrightarrow> ring (thread_rings s) l = ts \<Longrightarrow>
   \<exists>s'. ipc_list_resume_all l s = Some s' \<and> wakes (set ts) s s' \<and> ring (thread_rings s') l = [] \<and>
     (\<forall>t\<in>set ts. th_error (threads s' t) = - RT_ERROR)"
proof (induction ts arbitrary: s)
  case Nil
  then show ?case by (subst ipc_list_resume_all.simps) (simp add: wakes_refl)
next
  case (Cons t ts)
  note inv = Cons.prems(1) and x = Cons.prems(2)
  let ?s1 = "upd_thread t (\<lambda>th. th\<lparr>th_error := - RT_ERROR\<rparr>) s"
  have sus: "status s t = RT_THREAD_SUSPEND" using waiting_suspended(1) [OF inv x, of t] Cons.prems(3) by simp
  have k1: "kinv ?s1" by (rule kinv_upd_thread [OF inv]) simp_all
  have sus1: "status ?s1 t = RT_THREAD_SUSPEND" using sus by (simp add: status_def upd_thread_def)
  obtain s2 where s2: "rt_thread_resume t ?s1 = Some (RT_EOK, s2)" "wakes {t} ?s1 s2"
    "th_error (threads s2 t) = th_error (threads ?s1 t)"
    by (rule wakes_resume [OF k1 sus1], rule that)
  have w: "wakes {t} s s2" by (rule wakes_set_error [OF inv sus s2(2)])
  have tn: "t \<notin> set ts" using rings_ok_distinct [OF kinvD(1) [OF inv], of l] Cons.prems(3) by simp
  then have "filter (\<lambda>u. u \<notin> {t}) ts = ts" by (intro filter_True) auto
  then have ring2: "ring (thread_rings s2) l = ts" using wakesD(10) [OF w x] Cons.prems(3) by simp
  obtain s' where s': "ipc_list_resume_all l s2 = Some s'" "wakes (set ts) s2 s'" "ring (thread_rings s') l = []"
    "\<forall>t\<in>set ts. th_error (threads s' t) = - RT_ERROR"
    using Cons.IH [OF wakesD(1) [OF w] x ring2] by blast
  have "ipc_list_resume_all l s = Some s'"
    using Cons.prems(3) s2(1) s'(1) by (subst ipc_list_resume_all.simps) simp
  moreover have "wakes (set (t # ts)) s s'" using wakes_trans [OF w s'(2)] by simp
  moreover have "th_error (threads s' t) = - RT_ERROR"
    using wakesD(6) [OF s'(2) tn] s2(3) by (simp add: upd_thread_def)
  ultimately show ?case using s'(3,4) by auto
qed

subsection \<open>The scheduling point of a blocking call\<close>

text \<open>After the calling thread has been suspended, \<open>rt_schedule\<close> leaves it where it is.\<close>

lemma block_schedule:
  assumes inv: "kinv s" and cur: "rt_current_thread s = Some t" and sus: "status s t = RT_THREAD_SUSPEND"
  obtains s' where "rt_schedule s = Some s'" "schedules s s'" "kinv s'" "core_step s s'" "status s' t = RT_THREAD_SUSPEND"
    "home (thread_rings s') t = home (thread_rings s) t" "threads s' t = threads s t"
    "timers s' = timers s" "timer_rings s' = timer_rings s"
    "\<And>x l. wait_list x l \<Longrightarrow> ring (thread_rings s') l = ring (thread_rings s) l"
    "\<And>u. rt_scheduler_lock_nest s = 0 \<Longrightarrow> status s u = RT_THREAD_READY \<Longrightarrow> rt_current_thread s' \<noteq> Some t"
proof -
  obtain s' where s': "rt_schedule s = Some s'" "schedules s s'" using rt_schedule_ok [OF inv cur] .
  note d = schedulesD [OF s'(2)]
  show thesis
  proof (rule that [OF s' d(1) d(3)])
    show "rt_current_thread s' \<noteq> Some t" if "rt_scheduler_lock_nest s = 0" "status s u = RT_THREAD_READY" for u
      using schedules_away [OF inv cur that(1) _ that(2) s'(1)] sus by simp
    show "ring (thread_rings s') l = ring (thread_rings s) l" if "wait_list x l" for x l
      using d(6) wait_list_not_ready [OF that] by blast
  qed (use d(2) schedules_suspended [OF s'(2) sus] d(9) [of t] sus in \<open>simp_all add: sched_step_def\<close>)
qed

text \<open>A scheduling decision leaves woken threads woken and waiting threads waiting.\<close>

definition awake :: "kernel \<Rightarrow> tid \<Rightarrow> bool" where
  "awake s t \<longleftrightarrow> status s t = RT_THREAD_READY \<or> status s t = RT_THREAD_RUNNING"

lemma awake_schedules: "schedules s s' \<Longrightarrow> awake s' t = awake s t"
  using schedulesD(5) [of s s' t] by (auto simp: awake_def)

lemma awake_wakes: "wakes W s s' \<Longrightarrow> awake s' t \<longleftrightarrow> t \<in> W \<or> awake s t"
  using wakesD(5,8) [of W s s' t] by (cases "t \<in> W") (auto simp: awake_def)

lemma schedules_wait_list: "schedules s s' \<Longrightarrow> wait_list x l \<Longrightarrow> ring (thread_rings s') l = ring (thread_rings s) l"
  using schedulesD(6) [of s s' l] wait_list_not_ready [of x l] by blast

lemma schedules_fields:
  assumes "schedules s s'"
  shows "th_error (threads s' t) = th_error (threads s t)" "sems s' = sems s" "mutexes s' = mutexes s" "events s' = events s"
    "mailboxes s' = mailboxes s" "msgqueues s' = msgqueues s" "objs s' = objs s" "rt_tick s' = rt_tick s"
    "th_event_set (threads s' t) = th_event_set (threads s t)" "th_event_info (threads s' t) = th_event_info (threads s t)"
  using schedulesD(2) [OF assms] sched_step_thread [OF schedulesD(2) [OF assms]]
  by (simp_all add: sched_step_def core_step_def)

lemma core_step_fields:
  assumes "core_step s s'"
  shows "sems s' = sems s" "mutexes s' = mutexes s" "events s' = events s" "mailboxes s' = mailboxes s"
    "msgqueues s' = msgqueues s" "rt_tick s' = rt_tick s" "rt_scheduler_lock_nest s' = rt_scheduler_lock_nest s"
    "rt_interrupt_nest s' = rt_interrupt_nest s" "heap s' = heap s" "object_rings s' = object_rings s"
    "is_ipc x \<Longrightarrow> objs s' x = objs s x" "mempools s' = mempools s" "mp_mem s' = mp_mem s"
    "small_mems s' = small_mems s" "sm_items s' = sm_items s" "system_heap s' = system_heap s" "sm_bytes s' = sm_bytes s"
    "memheaps s' = memheaps s" "mh_items s' = mh_items s" "devices s' = devices s"
  using assms by (simp_all add: core_step_def) (auto simp: is_ipc_def split: obj_ref.splits)

text \<open>Setting fields that the invariant does not mention.\<close>

lemma kinv_cong:
  assumes "kinv s" "threads s' = threads s" "timers s' = timers s" "objs s' = objs s" "thread_rings s' = thread_rings s"
    "timer_rings s' = timer_rings s" "object_rings s' = object_rings s" "heap s' = heap s"
    "rt_thread_ready_priority_group s' = rt_thread_ready_priority_group s" "rt_current_thread s' = rt_current_thread s"
    "rt_scheduler_lock_nest s' = rt_scheduler_lock_nest s"
  shows "kinv s'"
  by (rule kinv_threads_cong [OF assms(1), where T = "{}"])
    (use assms kinvD [OF assms(1)] in \<open>auto simp: group_ok_def cur_ok_def status_def\<close>)

lemma kinv_set_ipc [simp]:
  "kinv (s\<lparr>sems := a\<rparr>) = kinv s" "kinv (s\<lparr>mutexes := b\<rparr>) = kinv s" "kinv (s\<lparr>events := c\<rparr>) = kinv s"
  "kinv (s\<lparr>mailboxes := d\<rparr>) = kinv s" "kinv (s\<lparr>msgqueues := e\<rparr>) = kinv s"
  "kinv (s\<lparr>mempools := g\<rparr>) = kinv s" "kinv (s\<lparr>mp_mem := h\<rparr>) = kinv s" "kinv (s\<lparr>small_mems := sm\<rparr>) = kinv s"
  "kinv (s\<lparr>sm_items := si\<rparr>) = kinv s" "kinv (s\<lparr>system_heap := sh\<rparr>) = kinv s" "kinv (s\<lparr>rt_errno := er\<rparr>) = kinv s" "kinv (s\<lparr>sm_bytes := sb\<rparr>) = kinv s"
  "kinv (s\<lparr>memheaps := mh\<rparr>) = kinv s" "kinv (s\<lparr>mh_items := mi\<rparr>) = kinv s" "kinv (s\<lparr>devices := dv\<rparr>) = kinv s"
  by (auto intro: kinv_cong)

lemma kinv_set_flag:
  assumes inv: "kinv s" and ipc: "is_ipc x"
  shows "kinv (upd_obj x (\<lambda>b. b\<lparr>ob_flag := f\<rparr>) s)"
proof (rule kinv_objs_cong [OF inv ipc])
  show "obj_ok (upd_obj x (\<lambda>b. b\<lparr>ob_flag := f\<rparr>) s) x"
    using kinvD(4) [OF inv, of x] by (auto simp: obj_ok_def upd_obj_def split: option.splits)
  show "live (upd_obj x (\<lambda>b. b\<lparr>ob_flag := f\<rparr>) s) x \<or> (\<forall>t. waits_on (home (thread_rings s) t) \<noteq> Some x)"
    using kinvD(5) [OF inv] by (auto simp: upd_obj_def live_def thread_ok_def)
qed (use kinvD(3) [OF inv] in \<open>auto simp: upd_obj_def\<close>)

lemma live_set_ipc [simp]:
  "live (s\<lparr>sems := a\<rparr>) = live s" "live (s\<lparr>mutexes := b\<rparr>) = live s" "live (s\<lparr>events := c\<rparr>) = live s"
  "live (s\<lparr>mailboxes := d\<rparr>) = live s" "live (s\<lparr>msgqueues := e\<rparr>) = live s" "live (s\<lparr>mempools := g\<rparr>) = live s" "live (s\<lparr>mp_mem := h\<rparr>) = live s"
  "live (s\<lparr>small_mems := sm\<rparr>) = live s" "live (s\<lparr>sm_items := si\<rparr>) = live s" "live (s\<lparr>system_heap := sh\<rparr>) = live s"
  "live (s\<lparr>rt_errno := er\<rparr>) = live s" "live (s\<lparr>sm_bytes := sb\<rparr>) = live s"
  "live (s\<lparr>memheaps := mh\<rparr>) = live s" "live (s\<lparr>mh_items := mi\<rparr>) = live s" "live (s\<lparr>devices := dv\<rparr>) = live s" "live (upd_obj x f s) = live s"
  by (simp_all add: live_def fun_eq_iff upd_obj_def)

lemma status_set_ipc [simp]:
  "status (s\<lparr>sems := a\<rparr>) = status s" "status (s\<lparr>mutexes := b\<rparr>) = status s" "status (s\<lparr>events := c\<rparr>) = status s"
  "status (s\<lparr>mailboxes := d\<rparr>) = status s" "status (s\<lparr>msgqueues := e\<rparr>) = status s" "status (s\<lparr>mempools := g\<rparr>) = status s"
  "status (s\<lparr>mp_mem := h\<rparr>) = status s" "status (s\<lparr>rt_errno := er\<rparr>) = status s"
  "status (s\<lparr>memheaps := mh\<rparr>) = status s" "status (s\<lparr>mh_items := mi\<rparr>) = status s" "status (s\<lparr>devices := dv\<rparr>) = status s" "status (upd_obj x f s) = status s"
  by (simp_all add: status_def fun_eq_iff upd_obj_def)

text \<open>The flag that selects the order of the waiting list.\<close>

definition ipc_flag_ok :: "kernel \<Rightarrow> obj_ref \<Rightarrow> bool" where
  "ipc_flag_ok s x \<longleftrightarrow> ob_flag (objs s x) = RT_IPC_FLAG_FIFO \<or> ob_flag (objs s x) = RT_IPC_FLAG_PRIO"

lemma demo_flag_ok: "ipc_flag_ok (demo st) x"
  by (simp add: ipc_flag_ok_def zero_obj_def)

subsection \<open>Initialising and removing an IPC object\<close>

lemma no_waiters:
  assumes inv: "kinv s" and dead: "\<not> live s x" and l: "wait_list x l"
  shows "ring (thread_rings s) l = []"
proof (rule ccontr)
  assume "ring (thread_rings s) l \<noteq> []"
  then obtain t where "t \<in> set (ring (thread_rings s) l)" by (meson list.set_sel(1))
  then have "home (thread_rings s) t = Some l" using rings_ok_home [OF kinvD(1) [OF inv]] by blast
  then show False using kinvD(5) [OF inv, of t] l dead by (auto simp: thread_ok_def wait_list_def waits_on_def)
qed

lemma waiters_none:
  assumes inv: "kinv s" and "\<And>l. wait_list x l \<Longrightarrow> ring (thread_rings s) l = []"
  shows "waits_on (home (thread_rings s) t) \<noteq> Some x"
proof
  assume "waits_on (home (thread_rings s) t) = Some x"
  then obtain l where l: "home (thread_rings s) t = Some l" "wait_list x l"
    using kinv_place [OF inv, of t]
    by (auto simp: waits_on_def wait_list_def place_ok_def split: option.splits thread_list.splits)
  then show False using rings_ok_home [OF kinvD(1) [OF inv], of t l] assms(2) [OF l(2)] by simp
qed

lemma ipc_init_ok:
  assumes inv: "kinv s" and ipc: "is_ipc x" and fresh: "\<not> live s x" and name: "readable RT_NAME_MAX name"
  obtains s' where "rt_object_init x (class_of x) name s = Some s'" "kinv s'" "live s' x"
    "\<And>l. wait_list x l \<Longrightarrow> ipc_object_init l s' = Some s'" "\<And>l. wait_list x l \<Longrightarrow> ring (thread_rings s') l = []"
    "\<And>y. live s' y \<longleftrightarrow> y = x \<or> live s y" "heap s' = heap s" "is_static s' x"
proof -
  obtain s1 nm where s1: "rt_object_init x (class_of x) name s =
      Some (linked_object x (class_of x OR RT_Object_Class_Static) nm s1)" (is "_ = Some ?s")
    "kinv s1" "core_step s s1" "length nm = RT_NAME_MAX"
    by (rule rt_object_init_ok [OF inv fresh name], rule that)
  have dead1: "\<not> live s1 x" using fresh core_step_live [OF s1(3)] by simp
  have k: "kinv ?s" by (rule kinv_linked_object [OF s1(2) ipc dead1 s1(4)]) simp
  have l: "ring (thread_rings ?s) l = []" if "wait_list x l" for l
    using no_waiters [OF s1(2) dead1 that] by (simp add: linked_object_def)
  have live: "live ?s y \<longleftrightarrow> y = x \<or> live s y" for y
    using core_step_live [OF s1(3)] by (auto simp: live_def linked_object_def fun_eq_iff)
  have st: "is_static ?s x" by (cases x) (simp_all add: is_static_def linked_object_def class_of_def)
  have heap: "heap ?s = heap s" using core_step_fields(9) [OF s1(3)] by (simp add: linked_object_def)
  show thesis by (rule that [OF s1(1) k]) (use l live st heap in \<open>simp_all add: ipc_object_init_def\<close>)
qed

text \<open>
  The end of an IPC object: first all threads that wait for it are woken with an error, then it
  leaves the container.
\<close>

lemma ipc_detach_ok:
  assumes inv: "kinv s" and ipc: "is_ipc x" and none: "\<And>l. wait_list x l \<Longrightarrow> ring (thread_rings s) l = []"
  shows "kinv (rt_object_detach x s)"
  using kinv_detach [OF inv ipc] waiters_none [OF inv none] by blast

lemma ipc_delete_ok:
  assumes inv: "kinv s" and ipc: "is_ipc x" and none: "\<And>l. wait_list x l \<Longrightarrow> ring (thread_rings s) l = []"
    and live: "live s x" and dyn: "\<not> rt_object_is_systemobject x s"
  obtains s' where "rt_object_delete x s = Some s'" "kinv s'" "s' = (rt_object_detach x s)\<lparr>heap := heap s - {BObject x}\<rparr>"
  using rt_object_delete_ok [OF inv ipc live dyn] waiters_none [OF inv none] by blast

text \<open>Counters that do not wrap around.\<close>

lemma unat_inc8: "(h :: u8) < 0xff \<Longrightarrow> unat (h + 1) = unat h + 1"
  by (simp add: word_less_nat_alt unat_word_ariths)

lemma unat_inc16: "(h :: u16) < 0xffff \<Longrightarrow> unat (h + 1) = unat h + 1"
  by (simp add: word_less_nat_alt unat_word_ariths)

lemma unat_dec: "(w :: 'a::len word) \<noteq> 0 \<Longrightarrow> unat (w - 1) = unat w - 1"
  by (rule unat_minus_one)

subsection \<open>A blocking call\<close>

text \<open>
  What a thread finds done when its call has to wait: it is suspended in the list, at the place the flag
  of the object selects, with a cleared error code; its timer runs exactly when the waiting time is
  positive and expires after that time; no other waiting list has changed; and if some thread was ready
  the processor has been given away.
\<close>

definition blocked_at :: "thread_list \<Rightarrow> tid list \<Rightarrow> tid \<Rightarrow> int \<Rightarrow> kernel \<Rightarrow> kernel \<Rightarrow> bool" where
  "blocked_at l ts t time s s' \<longleftrightarrow> kinv s' \<and> core_step s s' \<and> status s' t = RT_THREAD_SUSPEND \<and>
     home (thread_rings s') t = Some l \<and> ring (thread_rings s') l = ts \<and>
     (\<forall>x m. wait_list x m \<and> m \<noteq> l \<longrightarrow> ring (thread_rings s') m = ring (thread_rings s) m) \<and>
     th_error (threads s' t) = RT_EOK \<and>
     (home (timer_rings s') (ThreadTimer t) = Some HardTimers \<longleftrightarrow> time > 0) \<and>
     (time > 0 \<longrightarrow> tm_timeout_tick (timers s' (ThreadTimer t)) = rt_tick s + of_int time) \<and>
     ((\<exists>u. status s u = RT_THREAD_READY) \<longrightarrow> rt_current_thread s' \<noteq> Some t) \<and> rt_current_thread s' \<noteq> None"

definition blocked :: "thread_list \<Rightarrow> u8 \<Rightarrow> tid \<Rightarrow> int \<Rightarrow> kernel \<Rightarrow> kernel \<Rightarrow> bool" where
  "blocked l flag t time s s' \<longleftrightarrow> blocked_at l (wait_insert s flag t (ring (thread_rings s) l)) t time s s'"

lemma blocked_atD:
  assumes "blocked_at l ts t time s s'"
  shows "kinv s'" "core_step s s'" "status s' t = RT_THREAD_SUSPEND" "home (thread_rings s') t = Some l"
    "ring (thread_rings s') l = ts"
    "wait_list x m \<Longrightarrow> m \<noteq> l \<Longrightarrow> ring (thread_rings s') m = ring (thread_rings s) m"
    "th_error (threads s' t) = RT_EOK" "rt_current_thread s' \<noteq> None"
  using assms by (auto simp: blocked_at_def)

lemma blockedD:
  assumes "blocked l flag t time s s'"
  shows "kinv s'" "core_step s s'" "status s' t = RT_THREAD_SUSPEND" "home (thread_rings s') t = Some l"
    "ring (thread_rings s') l = wait_insert s flag t (ring (thread_rings s) l)"
    "wait_list x m \<Longrightarrow> m \<noteq> l \<Longrightarrow> ring (thread_rings s') m = ring (thread_rings s) m"
    "th_error (threads s' t) = RT_EOK" "rt_current_thread s' \<noteq> None"
  using assms by (auto simp: blocked_def blocked_at_def)

text \<open>The scheduling point, for a caller that has been put into the list \<open>l\<close>.\<close>

lemma block_finish:
  assumes run: "status s t = RT_THREAD_RUNNING" and cur: "rt_current_thread s = Some t" and lock: "rt_scheduler_lock_nest s = 0"
    and x: "wait_list x l"
    and g: "\<And>th. th_error (g th) = RT_EOK" "\<And>th. th_stat (g th) = th_stat th" "\<And>th. th_current_priority (g th) = th_current_priority th"
    and s2: "kinv s2" "thread_step t (upd_thread t g s) s2" "status s2 t = RT_THREAD_SUSPEND" "home (thread_rings s2) t = Some l"
      "ring (thread_rings s2) = (ring (thread_rings s))(l := ts)"
      "home (timer_rings s2) (ThreadTimer t) = Some HardTimers \<longleftrightarrow> time > 0"
      "time > 0 \<Longrightarrow> tm_timeout_tick (timers s2 (ThreadTimer t)) = rt_tick s + of_int time"
      "(threads s2 t)\<lparr>th_stat := 0\<rparr> = (g (threads s t))\<lparr>th_stat := 0\<rparr>"
  obtains s' where "rt_schedule s2 = Some s'" "blocked_at l ts t time s s'" "threads s' t = threads s2 t"
    "\<And>u. thread_prio s' u = thread_prio s u" "\<And>u. u \<noteq> t \<Longrightarrow> th_error (threads s' u) = th_error (threads s u)"
    "\<And>u. u \<noteq> t \<Longrightarrow> status s u = RT_THREAD_SUSPEND \<Longrightarrow> threads s' u = threads s u"
proof -
  let ?s1 = "upd_thread t g s"
  have f1: "rt_current_thread ?s1 = Some t" "status ?s1 u = status s u" "thread_prio ?s1 u = thread_prio s u" "core_step s ?s1"
    "rt_scheduler_lock_nest ?s1 = 0" "threads ?s1 t = g (threads s t)" for u
    using cur lock g by (simp_all add: upd_thread_def status_def thread_prio_def core_step_def)
  note d2 = thread_stepD [OF s2(2)] and sf = stat_fields [OF s2(8)]
  have cur2: "rt_current_thread s2 = Some t" using d2(2) f1(1) by simp
  obtain s3 where s3: "rt_schedule s2 = Some s3" "kinv s3" "core_step s2 s3" "status s3 t = RT_THREAD_SUSPEND"
    "home (thread_rings s3) t = home (thread_rings s2) t" "threads s3 t = threads s2 t"
    "timers s3 = timers s2" "timer_rings s3 = timer_rings s2"
    "\<And>x l. wait_list x l \<Longrightarrow> ring (thread_rings s3) l = ring (thread_rings s2) l"
    "\<And>u. rt_scheduler_lock_nest s2 = 0 \<Longrightarrow> status s2 u = RT_THREAD_READY \<Longrightarrow> rt_current_thread s3 \<noteq> Some t"
    "schedules s2 s3"
    by (rule block_schedule [OF s2(1) cur2 s2(3)], rule that)
  have core: "core_step s s3" using f1(4) d2(1) s3(3) core_step_trans by blast
  have away: "rt_current_thread s3 \<noteq> Some t" if "status s u = RT_THREAD_READY" for u
  proof -
    have "u \<noteq> t" using that run by auto
    then have "status s2 u = RT_THREAD_READY" using d2(5) f1(2) that by simp
    moreover have "rt_scheduler_lock_nest s2 = 0" using core_step_fields(7) [OF d2(1)] f1(5) by simp
    ultimately show ?thesis using s3(10) by blast
  qed
  have "th_error (threads s3 t) = RT_EOK" using s3(6) sf(1) g(1) by simp
  then have "blocked_at l ts t time s s3"
    unfolding blocked_at_def using s2 s3 away core x schedulesD(4) [OF s3(11)] by auto
  moreover have "thread_prio s3 u = thread_prio s u" for u
    using schedulesD(7) [OF s3(11), of u] d2(4) [of u] sf(4) f1(3) [of u] g(3)
    by (cases "u = t") (simp_all add: thread_prio_def)
  moreover have "th_error (threads s3 u) = th_error (threads s u)" if "u \<noteq> t" for u
    using schedules_fields(1) [OF s3(11), of u] d2(4) [OF that] that by (simp add: upd_thread_def)
  moreover have "threads s3 u = threads s u" if "u \<noteq> t" "status s u = RT_THREAD_SUSPEND" for u
    using schedulesD(9) [OF s3(11), of u] d2(4,5) [OF that(1)] f1(2) [of u] that by (simp add: upd_thread_def)
  ultimately show thesis using that [OF s3(1)] s3(6) by blast
qed

lemma ipc_block:
  assumes inv: "kinv s" and cur: "rt_current_thread s = Some t" and run: "status s t = RT_THREAD_RUNNING"
    and lock: "rt_scheduler_lock_nest s = 0" and x: "wait_list x l" "live s x" "is_ipc x" and flag: "ipc_flag_ok s x"
    and time: "time < 0x7fffffff"
    and g: "\<And>th. th_error (g th) = RT_EOK" "\<And>th. th_stat (g th) = th_stat th"
      "\<And>th. th_current_priority (g th) = th_current_priority th" "\<And>th. th_number_mask (g th) = th_number_mask th"
  obtains s2 s' where "ipc_wait l t (ob_flag (objs s x)) time (upd_thread t g s) = Some s2" "rt_schedule s2 = Some s'"
    "blocked l (ob_flag (objs s x)) t time s s'"
    "th_event_set (threads s' t) = th_event_set (g (threads s t))"
    "th_event_info (threads s' t) = th_event_info (g (threads s t))"
    "\<And>u. thread_prio s' u = thread_prio s u" "\<And>u. u \<noteq> t \<Longrightarrow> th_error (threads s' u) = th_error (threads s u)"
    "\<And>u. u \<noteq> t \<Longrightarrow> status s u = RT_THREAD_SUSPEND \<Longrightarrow> threads s' u = threads s u"
proof -
  let ?s1 = "upd_thread t g s" and ?flag = "ob_flag (objs s x)"
  have k1: "kinv ?s1" by (rule kinv_upd_thread [OF inv]) (simp_all add: g)
  have f1: "rt_current_thread ?s1 = Some t" "status ?s1 u = status s u" "live ?s1 = live s" "thread_rings ?s1 = thread_rings s"
    "thread_prio ?s1 u = thread_prio s u" "core_step s ?s1" "rt_tick ?s1 = rt_tick s" "th_error (threads ?s1 t) = RT_EOK"
    "rt_scheduler_lock_nest ?s1 = 0" "threads ?s1 t = g (threads s t)" for u
    using cur lock g by (simp_all add: upd_thread_def status_def live_def thread_prio_def core_step_def fun_eq_iff)
  have wi: "wait_insert ?s1 f t ts = wait_insert s f t ts" for f ts by (simp add: wait_insert_def f1(5))
  obtain s2 where s2: "ipc_wait l t ?flag time ?s1 = Some s2" "kinv s2" "thread_step t ?s1 s2"
    "status s2 t = RT_THREAD_SUSPEND" "home (thread_rings s2) t = Some l"
    "ring (thread_rings s2) = (ring (thread_rings ?s1))(l := wait_insert ?s1 ?flag t (ring (thread_rings ?s1) l))"
    "home (timer_rings s2) (ThreadTimer t) = Some HardTimers \<longleftrightarrow> time > 0"
    "time > 0 \<Longrightarrow> tm_timeout_tick (timers s2 (ThreadTimer t)) = rt_tick ?s1 + of_int time"
    "(threads s2 t)\<lparr>th_stat := 0\<rparr> = (threads ?s1 t)\<lparr>th_stat := 0\<rparr>"
    by (rule ipc_wait_ok [OF k1 f1(1) _ x(1) _ x(3) _ time, of ?flag]) (use run x flag f1 in \<open>simp_all add: ipc_flag_ok_def\<close>)
  obtain s' where s': "rt_schedule s2 = Some s'" "blocked_at l (wait_insert s ?flag t (ring (thread_rings s) l)) t time s s'"
    "threads s' t = threads s2 t" "\<And>u. thread_prio s' u = thread_prio s u"
    "\<And>u. u \<noteq> t \<Longrightarrow> th_error (threads s' u) = th_error (threads s u)"
    "\<And>u. u \<noteq> t \<Longrightarrow> status s u = RT_THREAD_SUSPEND \<Longrightarrow> threads s' u = threads s u"
    by (rule block_finish [OF run cur lock x(1) g(1-3) s2(2-5) _ s2(7), of "wait_insert s ?flag t (ring (thread_rings s) l)"])
      (use s2 f1 wi in auto)
  then show thesis
    using that [OF s2(1) s'(1)] stat_fields [OF s2(9)] f1(10) unfolding blocked_def by auto
qed

lemma upd_thread_twice: "upd_thread t f (upd_thread t g s) = upd_thread t (\<lambda>th. f (g th)) s"
  by (simp add: upd_thread_def)

lemma scheduler_available:
  assumes "rt_scheduler_lock_nest s = 0" "rt_interrupt_nest s = 0" "rt_current_thread s = Some t"
  shows "RT_DEBUG_SCHEDULER_AVAILABLE b s = Some ()" "RT_DEBUG_NOT_IN_INTERRUPT s = Some ()" "RT_DEBUG_IN_THREAD_CONTEXT s = Some ()"
  using assms by (simp_all add: RT_DEBUG_SCHEDULER_AVAILABLE_def RT_DEBUG_IN_THREAD_CONTEXT_def
      RT_DEBUG_NOT_IN_INTERRUPT_def rt_critical_level_def rt_interrupt_get_nest_def)

text \<open>Removing an object that threads wait for in the lists \<open>l\<close> and \<open>m\<close>: all of them are woken with an error.\<close>

definition released :: "tid set \<Rightarrow> kernel \<Rightarrow> kernel \<Rightarrow> bool" where
  "released W s s' \<longleftrightarrow> wakes W s s' \<and> (\<forall>t\<in>W. th_error (threads s' t) = - RT_ERROR)"

lemma resume_two:
  assumes inv: "kinv s" and l: "wait_list x l" "wait_list x m" "l \<noteq> m"
  obtains s1 s' where "ipc_list_resume_all l s = Some s1" "ipc_list_resume_all m s1 = Some s'"
    "released (set (ring (thread_rings s) l) \<union> set (ring (thread_rings s) m)) s s'"
    "ring (thread_rings s') l = []" "ring (thread_rings s') m = []"
proof -
  let ?L = "ring (thread_rings s) l" and ?M = "ring (thread_rings s) m"
  obtain s1 where s1: "ipc_list_resume_all l s = Some s1" "wakes (set ?L) s s1" "ring (thread_rings s1) l = []"
    "\<forall>t\<in>set ?L. th_error (threads s1 t) = - RT_ERROR"
    using ipc_list_resume_all_ok [OF inv l(1) refl] by blast
  have disj: "set ?L \<inter> set ?M = {}" using rings_ok_unique [OF kinvD(1) [OF inv]] l(3) by blast
  then have "ring (thread_rings s1) m = ?M"
    using wakesD(10) [OF s1(2) l(2)] by (auto simp: filter_id_conv)
  then obtain s' where s': "ipc_list_resume_all m s1 = Some s'" "wakes (set ?M) s1 s'" "ring (thread_rings s') m = []"
    "\<forall>t\<in>set ?M. th_error (threads s' t) = - RT_ERROR"
    using ipc_list_resume_all_ok [OF wakesD(1) [OF s1(2)] l(2)] by blast
  have "th_error (threads s' t) = - RT_ERROR" if "t \<in> set ?L" for t
    using that disj wakesD(6) [OF s'(2), of t] s1(4) by (metis disjoint_iff)
  then have "released (set ?L \<union> set ?M) s s'"
    using wakes_trans [OF s1(2) s'(2)] s'(4) by (auto simp: released_def)
  then show thesis using that [OF s1(1) s'(1)] s'(3) wakesD(10) [OF s'(2) l(1)] s1(3) by simp
qed

lemma resume_one:
  assumes inv: "kinv s" and l: "wait_list x l"
  obtains s' where "ipc_list_resume_all l s = Some s'" "released (set (ring (thread_rings s) l)) s s'"
    "ring (thread_rings s') l = []"
  using ipc_list_resume_all_ok [OF inv l refl] unfolding released_def by blast

lemma detach_fields [simp]:
  "threads (rt_object_detach x s) = threads s" "thread_rings (rt_object_detach x s) = thread_rings s"
  "rt_current_thread (rt_object_detach x s) = rt_current_thread s" "heap (rt_object_detach x s) = heap s"
  "status (rt_object_detach x s) = status s"
  by (simp_all add: rt_object_detach_def upd_obj_def Let_def status_def fun_eq_iff)

lemma awake_detach [simp]: "awake (rt_object_detach x s) = awake s" "awake (s\<lparr>heap := H\<rparr>) = awake s"
  by (simp_all add: awake_def fun_eq_iff status_def)

subsection \<open>A source of wake-ups\<close>

text \<open>\<open>n\<close> operations one after the other.\<close>

fun repeat_op :: "nat \<Rightarrow> ('s \<Rightarrow> 's option) \<Rightarrow> 's \<Rightarrow> 's option" where
  "repeat_op 0 f s = Some s"
| "repeat_op (Suc n) f s = Option.bind (f s) (repeat_op n f)"

text \<open>
  What the users of a waiting list rely on, for any operation that serves one waiting thread: the
  first of the list is woken, the others stay in order.
\<close>

locale wake_source =
  fixes inv :: "'s \<Rightarrow> bool" and waiters :: "'s \<Rightarrow> 't list" and up :: "'s \<Rightarrow> 't \<Rightarrow> bool" and signal :: "'s \<Rightarrow> 's option"
  assumes signal_ok: "inv s \<Longrightarrow> waiters s = t # ts \<Longrightarrow>
      \<exists>s'. signal s = Some s' \<and> inv s' \<and> waiters s' = ts \<and> up s' t \<and> (\<forall>u. up s u \<longrightarrow> up s' u)"
begin

text \<open>\<open>n\<close> signals serve the first \<open>n\<close> waiting threads, in their order, and no other.\<close>

lemma signals_ok:
  "inv s \<Longrightarrow> n \<le> length (waiters s) \<Longrightarrow>
   \<exists>s'. repeat_op n signal s = Some s' \<and> inv s' \<and> waiters s' = drop n (waiters s) \<and>
     (\<forall>u\<in>set (take n (waiters s)). up s' u) \<and> (\<forall>u. up s u \<longrightarrow> up s' u)"
proof (induction n arbitrary: s)
  case (Suc n)
  then obtain t ts where ts: "waiters s = t # ts" by (cases "waiters s") auto
  obtain s1 where s1: "signal s = Some s1" "inv s1" "waiters s1 = ts" "up s1 t" "\<forall>u. up s u \<longrightarrow> up s1 u"
    using signal_ok [OF Suc.prems(1) ts] by blast
  then show ?case using Suc.IH [of s1] Suc.prems ts by auto
qed simp

end

interpretation first_waiter: wake_source kinv "\<lambda>s. ring (thread_rings s) (Suspended x)" awake "ipc_list_resume (Suspended x)" for x
proof
  fix s t ts assume inv: "kinv s" and ring: "ring (thread_rings s) (Suspended x) = t # ts"
  obtain s' where "ipc_list_resume (Suspended x) s = Some s'" "wakes {t} s s'" "ring (thread_rings s') (Suspended x) = ts"
    by (rule ipc_list_resume_ok [OF inv _ ring, of x], simp, rule that)
  then show "\<exists>s'. ipc_list_resume (Suspended x) s = Some s' \<and> kinv s' \<and> ring (thread_rings s') (Suspended x) = ts \<and>
      awake s' t \<and> (\<forall>u. awake s u \<longrightarrow> awake s' u)"
    using wakesD(1) awake_wakes by blast
qed

end
