(* ===== verification/RT_Sem.thy ===== *)
theory RT_Sem
  imports RT_Ipc
begin

section \<open>Semaphores: \<^verbatim>\<open>src/ipc.c\<close>\<close>

text \<open>
  A counting semaphore with a 16-bit value. A thread that finds the value 0 waits; a release with a
  waiting thread hands the token to it without touching the value.
\<close>

subsection \<open>Operations\<close>

definition upd_sem :: "nat \<Rightarrow> (rt_semaphore \<Rightarrow> rt_semaphore) \<Rightarrow> kernel \<Rightarrow> kernel" where
  "upd_sem i f s = s\<lparr>sems := (sems s)(i := f (sems s i))\<rparr>"

definition rt_sem_init :: "nat \<Rightarrow> u8 list \<Rightarrow> u32 \<Rightarrow> u8 \<Rightarrow> kernel \<Rightarrow> (rt_err \<times> kernel) option" where
  "rt_sem_init sem name v flag s = do {
     RT_ASSERT (v < 0x10000);
     RT_ASSERT (flag = RT_IPC_FLAG_FIFO \<or> flag = RT_IPC_FLAG_PRIO);
     s \<leftarrow> rt_object_init (OSem sem) RT_Object_Class_Semaphore name s;
     s \<leftarrow> ipc_object_init (Suspended (OSem sem)) s;
     let s = upd_sem sem (\<lambda>m. m\<lparr>sem_value := ucast v\<rparr>) s;
     let s = upd_obj (OSem sem) (\<lambda>b. b\<lparr>ob_flag := flag\<rparr>) s;
     Some (RT_EOK, s)
   }"

definition rt_sem_detach :: "nat \<Rightarrow> kernel \<Rightarrow> (rt_err \<times> kernel) option" where
  "rt_sem_detach sem s = do {
     RT_ASSERT (rt_object_get_type (OSem sem) s = RT_Object_Class_Semaphore);
     RT_ASSERT (rt_object_is_systemobject (OSem sem) s);
     s \<leftarrow> ipc_list_resume_all (Suspended (OSem sem)) s;
     Some (RT_EOK, rt_object_detach (OSem sem) s)
   }"

definition rt_sem_create :: "nat option \<Rightarrow> u8 list \<Rightarrow> u32 \<Rightarrow> u8 \<Rightarrow> kernel \<Rightarrow> (nat option \<times> kernel) option" where
  "rt_sem_create mem name v flag s = do {
     RT_ASSERT (v < 0x10000);
     RT_ASSERT (flag = RT_IPC_FLAG_FIFO \<or> flag = RT_IPC_FLAG_PRIO);
     RT_DEBUG_NOT_IN_INTERRUPT s;
     (_, s) \<leftarrow> rt_object_allocate (map_option OSem mem) RT_Object_Class_Semaphore name s;
     (case mem of
        None \<Rightarrow> Some (None, s)
      | Some sem \<Rightarrow> do {
          s \<leftarrow> ipc_object_init (Suspended (OSem sem)) s;
          let s = upd_sem sem (\<lambda>m. m\<lparr>sem_value := ucast v\<rparr>) s;
          let s = upd_obj (OSem sem) (\<lambda>b. b\<lparr>ob_flag := flag\<rparr>) s;
          Some (Some sem, s)
        })
   }"

definition rt_sem_delete :: "nat \<Rightarrow> kernel \<Rightarrow> (rt_err \<times> kernel) option" where
  "rt_sem_delete sem s = do {
     RT_ASSERT (rt_object_get_type (OSem sem) s = RT_Object_Class_Semaphore);
     RT_ASSERT (\<not> rt_object_is_systemobject (OSem sem) s);
     RT_DEBUG_NOT_IN_INTERRUPT s;
     s \<leftarrow> ipc_list_resume_all (Suspended (OSem sem)) s;
     s \<leftarrow> rt_object_delete (OSem sem) s;
     Some (RT_EOK, s)
   }"

text \<open>\<open>rt_sem_take\<close> up to its scheduling point, and the rest of it for a thread that had to wait.\<close>

definition rt_sem_take :: "nat \<Rightarrow> int \<Rightarrow> kernel \<Rightarrow> (tid call \<times> kernel) option" where
  "rt_sem_take sem time s = do {
     RT_ASSERT (rt_object_get_type (OSem sem) s = RT_Object_Class_Semaphore);
     if sem_value (sems s sem) > 0 then
       Some (Return RT_EOK, upd_sem sem (\<lambda>m. m\<lparr>sem_value := sem_value m - 1\<rparr>) s)
     else if time = 0 then Some (Return (- RT_ETIMEOUT), s)
     else do {
       RT_DEBUG_SCHEDULER_AVAILABLE True s;
       thread \<leftarrow> rt_thread_self s;
       let s = upd_thread thread (\<lambda>th. th\<lparr>th_error := RT_EOK\<rparr>) s;
       s \<leftarrow> ipc_wait (Suspended (OSem sem)) thread (ob_flag (objs s (OSem sem))) time s;
       s \<leftarrow> rt_schedule s;
       Some (Pending thread, s)
     }
   }"

definition rt_sem_take_resume :: "tid \<Rightarrow> kernel \<Rightarrow> rt_err" where
  "rt_sem_take_resume thread s =
     (if th_error (threads s thread) \<noteq> RT_EOK then th_error (threads s thread) else RT_EOK)"

definition rt_sem_trytake :: "nat \<Rightarrow> kernel \<Rightarrow> (tid call \<times> kernel) option" where
  "rt_sem_trytake sem s = rt_sem_take sem 0 s"

definition rt_sem_release :: "nat \<Rightarrow> kernel \<Rightarrow> (rt_err \<times> kernel) option" where
  "rt_sem_release sem s = do {
     RT_ASSERT (rt_object_get_type (OSem sem) s = RT_Object_Class_Semaphore);
     if ring (thread_rings s) (Suspended (OSem sem)) \<noteq> [] then do {
       s \<leftarrow> ipc_list_resume (Suspended (OSem sem)) s;
       s \<leftarrow> rt_schedule s;
       Some (RT_EOK, s)
     }
     else if sem_value (sems s sem) < 0xffff then
       Some (RT_EOK, upd_sem sem (\<lambda>m. m\<lparr>sem_value := sem_value m + 1\<rparr>) s)
     else Some (- RT_EFULL, s)
   }"

definition rt_sem_control :: "nat \<Rightarrow> int \<Rightarrow> u32 \<Rightarrow> kernel \<Rightarrow> (rt_err \<times> kernel) option" where
  "rt_sem_control sem cmd arg s = do {
     RT_ASSERT (rt_object_get_type (OSem sem) s = RT_Object_Class_Semaphore);
     if cmd = RT_IPC_CMD_RESET then do {
       s \<leftarrow> ipc_list_resume_all (Suspended (OSem sem)) s;
       let s = upd_sem sem (\<lambda>m. m\<lparr>sem_value := ucast arg\<rparr>) s;
       s \<leftarrow> rt_schedule s;
       Some (RT_EOK, s)
     } else Some (- RT_ERROR, s)
   }"

subsection \<open>What the operations do\<close>

lemma upd_sem_fields [simp]:
  "thread_rings (upd_sem i f s) = thread_rings s" "threads (upd_sem i f s) = threads s" "objs (upd_sem i f s) = objs s"
  "sems (upd_sem i f s) = (sems s)(i := f (sems s i))" "rt_current_thread (upd_sem i f s) = rt_current_thread s"
  "timer_rings (upd_sem i f s) = timer_rings s" "object_rings (upd_sem i f s) = object_rings s" "heap (upd_sem i f s) = heap s"
  "kinv (upd_sem i f s) = kinv s" "live (upd_sem i f s) = live s" "status (upd_sem i f s) = status s"
  by (simp_all add: upd_sem_def)

lemma sem_type: "kinv s \<Longrightarrow> live s (OSem i) \<Longrightarrow> rt_object_get_type (OSem i) s = RT_Object_Class_Semaphore"
  using rt_object_get_type_live [of s "OSem i"] by (simp add: class_of_def)

text \<open>The waiting branch of \<open>rt_sem_take\<close>.\<close>

lemma rt_sem_take_blocks:
  assumes inv: "kinv s" and live: "live s (OSem i)" and flag: "ipc_flag_ok s (OSem i)"
    and cur: "rt_current_thread s = Some t" and run: "status s t = RT_THREAD_RUNNING"
    and ctx: "rt_scheduler_lock_nest s = 0" "rt_interrupt_nest s = 0"
    and time: "time \<noteq> 0" "time < 0x7fffffff" and val: "sem_value (sems s i) = 0"
  obtains s' where "rt_sem_take i time s = Some (Pending t, s')"
    "blocked (Suspended (OSem i)) (ob_flag (objs s (OSem i))) t time s s'"
proof -
  let ?g = "\<lambda>th. th\<lparr>th_error := RT_EOK\<rparr> :: rt_thread"
  obtain s2 s' where s': "ipc_wait (Suspended (OSem i)) t (ob_flag (objs s (OSem i))) time (upd_thread t ?g s) = Some s2"
    "rt_schedule s2 = Some s'" "blocked (Suspended (OSem i)) (ob_flag (objs s (OSem i))) t time s s'"
    by (rule ipc_block [OF inv cur run ctx(1) _ live _ flag time(2), of "Suspended (OSem i)" ?g]) auto
  moreover have "objs (upd_thread t ?g s) = objs s" by (simp add: upd_thread_def)
  ultimately have "rt_sem_take i time s = Some (Pending t, s')"
    using sem_type [OF inv live] val time scheduler_available [OF ctx cur] cur
    by (simp add: rt_sem_take_def rt_thread_self_def)
  then show thesis using that s'(3) by blast
qed

lemma rt_sem_take_step:
  assumes "kinv s" "live s (OSem i)" "ipc_flag_ok s (OSem i)" "rt_current_thread s = Some t" "status s t = RT_THREAD_RUNNING"
    "rt_scheduler_lock_nest s = 0" "rt_interrupt_nest s = 0" "time < 0x7fffffff"
  shows "\<exists>r s'. rt_sem_take i time s = Some (r, s') \<and> kinv s' \<and>
    (if sem_value (sems s i) > 0 then r = Return RT_EOK \<and> s' = upd_sem i (\<lambda>m. m\<lparr>sem_value := sem_value m - 1\<rparr>) s
     else if time = 0 then r = Return (- RT_ETIMEOUT) \<and> s' = s
     else r = Pending t \<and> blocked (Suspended (OSem i)) (ob_flag (objs s (OSem i))) t time s s' \<and> sems s' = sems s)"
proof (cases "sem_value (sems s i) > 0 \<or> time = 0")
  case True
  then show ?thesis using sem_type [OF assms(1,2)] assms(1) by (auto simp: rt_sem_take_def)
next
  case False
  then have "sem_value (sems s i) = 0" "time \<noteq> 0" by (simp_all add: word_gt_0)
  then obtain s' where "rt_sem_take i time s = Some (Pending t, s')" "blocked (Suspended (OSem i)) (ob_flag (objs s (OSem i))) t time s s'"
    using rt_sem_take_blocks [OF assms(1-7) _ assms(8)] by metis
  then show ?thesis using False blockedD(1,2) core_step_fields(1) by (intro exI [of _ "Pending t"] exI [of _ s']) auto
qed

text \<open>
  C25. Taking a semaphore, on every branch: a positive value is decremented and the call returns
  \<^verbatim>\<open>RT_EOK\<close> at once; on value 0 a call that may not wait returns \<^verbatim>\<open>-RT_ETIMEOUT\<close> and changes nothing; otherwise the
  caller is suspended in the list of the semaphore, behind all waiting threads (FIFO) or behind those
  of at least its priority (PRIO), its timer is armed exactly when the time is positive, and the processor is
  given away.
\<close>

theorem rt_sem_take_correct:
  assumes "kinv s" "live s (OSem i)" "ipc_flag_ok s (OSem i)" "rt_current_thread s = Some t" "status s t = RT_THREAD_RUNNING"
    "rt_scheduler_lock_nest s = 0" "rt_interrupt_nest s = 0" "time < 0x7fffffff"
  shows "\<exists>r s'. rt_sem_take i time s = Some (r, s') \<and> kinv s' \<and>
    (if sem_value (sems s i) > 0 then r = Return RT_EOK \<and> s' = upd_sem i (\<lambda>m. m\<lparr>sem_value := sem_value m - 1\<rparr>) s
     else if time = 0 then r = Return (- RT_ETIMEOUT) \<and> s' = s
     else r = Pending t \<and> blocked (Suspended (OSem i)) (ob_flag (objs s (OSem i))) t time s s' \<and> sems s' = sems s)"
  by (rule rt_sem_take_step [OF assms])

theorem rt_sem_take_correct_witness:
  "\<exists>r s'. rt_sem_take 0 5 (demo 3) = Some (r, s') \<and> kinv s' \<and>
    (if sem_value (sems (demo 3) 0) > 0 then r = Return RT_EOK \<and> s' = upd_sem 0 (\<lambda>m. m\<lparr>sem_value := sem_value m - 1\<rparr>) (demo 3)
     else if (5::int) = 0 then r = Return (- RT_ETIMEOUT) \<and> s' = demo 3
     else r = Pending 1 \<and> blocked (Suspended (OSem 0)) (ob_flag (objs (demo 3) (OSem 0))) 1 5 (demo 3) s' \<and>
       sems s' = sems (demo 3))"
  by (rule rt_sem_take_correct) (simp_all add: demo_kinv demo_status demo_live_iff demo_live_def demo_flag_ok)

subsection \<open>Releasing\<close>

lemma rt_sem_release_wakes:
  assumes inv: "kinv s" and live: "live s (OSem i)" and cur: "rt_current_thread s \<noteq> None"
    and ring: "ring (thread_rings s) (Suspended (OSem i)) = t # ts"
  obtains s1 s' where "rt_sem_release i s = Some (RT_EOK, s')" "wakes {t} s s1" "schedules s1 s'"
    "ring (thread_rings s') (Suspended (OSem i)) = ts" "th_error (threads s' t) = th_error (threads s t)"
    "awake s' t" "sems s' = sems s" "rt_schedule s1 = Some s'"
proof -
  obtain s1 where s1: "ipc_list_resume (Suspended (OSem i)) s = Some s1" "wakes {t} s s1"
    "ring (thread_rings s1) (Suspended (OSem i)) = ts" "th_error (threads s1 t) = th_error (threads s t)"
    by (rule ipc_list_resume_ok [OF inv _ ring, of "OSem i"]) auto
  obtain c where c: "rt_current_thread s1 = Some c" using cur wakesD(3) [OF s1(2)] by auto
  obtain s' where s': "rt_schedule s1 = Some s'" "schedules s1 s'" using rt_schedule_ok [OF wakesD(1) [OF s1(2)] c] .
  have "rt_sem_release i s = Some (RT_EOK, s')"
    using sem_type [OF inv live] ring s1(1) s'(1) by (simp add: rt_sem_release_def)
  then show thesis
    using that [OF _ s1(2) s'(2)] schedules_wait_list [OF s'(2), of "OSem i"] s1(3,4) schedules_fields(1,2) [OF s'(2)]
      awake_wakes [OF s1(2)] awake_schedules [OF s'(2)] core_step_fields(1) [OF wakesD(2) [OF s1(2)]] s'(1)
    by simp
qed

text \<open>
  C26. Releasing a semaphore, on every branch: with waiting threads, the first of the list is made ready
  (its error code untouched), the others keep their order and the value does not change; without, the value is
  incremented, unless it has reached 65535: then the call returns \<^verbatim>\<open>-RT_EFULL\<close> and changes nothing.
\<close>

theorem rt_sem_release_correct:
  assumes "kinv s" "live s (OSem i)" "rt_current_thread s \<noteq> None"
  shows "\<exists>e s'. rt_sem_release i s = Some (e, s') \<and> kinv s' \<and>
    (case ring (thread_rings s) (Suspended (OSem i)) of
       t # ts \<Rightarrow> e = RT_EOK \<and> awake s' t \<and> th_error (threads s' t) = th_error (threads s t) \<and>
         ring (thread_rings s') (Suspended (OSem i)) = ts \<and> sems s' = sems s
     | [] \<Rightarrow> (if unat (sem_value (sems s i)) < 65535
              then e = RT_EOK \<and> s' = upd_sem i (\<lambda>m. m\<lparr>sem_value := sem_value m + 1\<rparr>) s \<and>
                unat (sem_value (sems s' i)) = unat (sem_value (sems s i)) + 1
              else e = - RT_EFULL \<and> s' = s))"
proof (cases "ring (thread_rings s) (Suspended (OSem i))")
  case Nil
  have "sem_value (sems s i) < 0xffff \<longleftrightarrow> unat (sem_value (sems s i)) < 65535" by (simp add: word_less_nat_alt)
  moreover have "unat (v + 1) = unat v + 1" if "unat v < 65535" for v :: u16
    using that by (simp add: unat_word_ariths)
  ultimately show ?thesis using Nil sem_type [OF assms(1,2)] assms(1) by (auto simp: rt_sem_release_def)
next
  case (Cons t ts)
  obtain s1 s' where "rt_sem_release i s = Some (RT_EOK, s')" "schedules s1 s'"
    "ring (thread_rings s') (Suspended (OSem i)) = ts" "th_error (threads s' t) = th_error (threads s t)"
    "awake s' t" "sems s' = sems s"
    by (rule rt_sem_release_wakes [OF assms Cons], rule that)
  then show ?thesis using Cons schedulesD(1) by (intro exI [of _ RT_EOK] exI [of _ s']) simp
qed

theorem rt_sem_release_correct_witness:
  "\<exists>e s'. rt_sem_release 0 (demo 3) = Some (e, s') \<and> kinv s' \<and>
    (case ring (thread_rings (demo 3)) (Suspended (OSem 0)) of
       t # ts \<Rightarrow> e = RT_EOK \<and> awake s' t \<and> th_error (threads s' t) = th_error (threads (demo 3) t) \<and>
         ring (thread_rings s') (Suspended (OSem 0)) = ts \<and> sems s' = sems (demo 3)
     | [] \<Rightarrow> (if unat (sem_value (sems (demo 3) 0)) < 65535
              then e = RT_EOK \<and> s' = upd_sem 0 (\<lambda>m. m\<lparr>sem_value := sem_value m + 1\<rparr>) (demo 3) \<and>
                unat (sem_value (sems s' 0)) = unat (sem_value (sems (demo 3) 0)) + 1
              else e = - RT_EFULL \<and> s' = demo 3))"
  by (rule rt_sem_release_correct) (simp_all add: demo_kinv demo_live_iff demo_live_def)

interpretation sem: wake_source "\<lambda>s. kinv s \<and> live s (OSem i) \<and> rt_current_thread s \<noteq> None"
  "\<lambda>s. ring (thread_rings s) (Suspended (OSem i))" awake "\<lambda>s. map_option snd (rt_sem_release i s)" for i
proof
  fix s t ts assume pre: "kinv s \<and> live s (OSem i) \<and> rt_current_thread s \<noteq> None"
    and ring: "ring (thread_rings s) (Suspended (OSem i)) = t # ts"
  obtain s1 s' where s': "rt_sem_release i s = Some (RT_EOK, s')" "wakes {t} s s1" "schedules s1 s'"
    "ring (thread_rings s') (Suspended (OSem i)) = ts" "awake s' t"
    by (rule rt_sem_release_wakes [of s i t ts]) (use pre ring in auto)
  have "awake s' u" if "awake s u" for u using that awake_wakes [OF s'(2)] awake_schedules [OF s'(3)] by simp
  moreover have "live s' = live s" using core_step_live [OF wakesD(2) [OF s'(2)]] schedulesD(8) [OF s'(3)] by simp
  ultimately show "\<exists>s'. map_option snd (rt_sem_release i s) = Some s' \<and>
      (kinv s' \<and> live s' (OSem i) \<and> rt_current_thread s' \<noteq> None) \<and>
      ring (thread_rings s') (Suspended (OSem i)) = ts \<and> awake s' t \<and> (\<forall>u. awake s u \<longrightarrow> awake s' u)"
    using s' pre schedulesD(1,4) [OF s'(3)] by simp
qed

text \<open>
  C36. Fair service of the waiting threads: \<open>n\<close> releases of a semaphore with at least \<open>n\<close> waiting threads wake
  exactly the first \<open>n\<close> threads of its list and leave the rest waiting in the same order.
\<close>

theorem rt_sem_release_serves_in_order:
  assumes "kinv s" "live s (OSem i)" "rt_current_thread s \<noteq> None"
    "n \<le> length (ring (thread_rings s) (Suspended (OSem i)))"
  shows "\<exists>s'. repeat_op n (\<lambda>s. map_option snd (rt_sem_release i s)) s = Some s' \<and> kinv s' \<and>
    ring (thread_rings s') (Suspended (OSem i)) = drop n (ring (thread_rings s) (Suspended (OSem i))) \<and>
    (\<forall>u\<in>set (take n (ring (thread_rings s) (Suspended (OSem i)))). awake s' u)"
  using sem.signals_ok [of s i n] assms by blast

theorem rt_sem_release_serves_in_order_witness:
  "\<exists>s'. repeat_op 1 (\<lambda>s. map_option snd (rt_sem_release 0 s)) (demo 3) = Some s' \<and> kinv s' \<and>
    ring (thread_rings s') (Suspended (OSem 0)) = drop 1 (ring (thread_rings (demo 3)) (Suspended (OSem 0))) \<and>
    (\<forall>u\<in>set (take 1 (ring (thread_rings (demo 3)) (Suspended (OSem 0)))). awake s' u)"
  by (rule rt_sem_release_serves_in_order) (simp_all add: demo_kinv demo_live_iff demo_live_def)

subsection \<open>Removing, resetting and initialising\<close>

lemma rt_sem_detach_ok:
  assumes inv: "kinv s" and live: "live s (OSem i)" and static: "rt_object_is_systemobject (OSem i) s"
  obtains s1 where "rt_sem_detach i s = Some (RT_EOK, rt_object_detach (OSem i) s1)" "kinv (rt_object_detach (OSem i) s1)"
    "released (set (ring (thread_rings s) (Suspended (OSem i)))) s s1"
proof -
  obtain s1 where s1: "ipc_list_resume_all (Suspended (OSem i)) s = Some s1"
    "released (set (ring (thread_rings s) (Suspended (OSem i)))) s s1" "ring (thread_rings s1) (Suspended (OSem i)) = []"
    by (rule resume_one [OF inv, of "OSem i"]) auto
  have "kinv (rt_object_detach (OSem i) s1)"
    by (rule ipc_detach_ok) (use s1 wakesD(1) in \<open>auto simp: released_def wait_list_def\<close>)
  then show thesis using that s1 sem_type [OF inv live] static by (simp add: rt_sem_detach_def)
qed

lemma rt_sem_control_reset:
  assumes inv: "kinv s" and live: "live s (OSem i)" and cur: "rt_current_thread s \<noteq> None"
  obtains s1 s' where "rt_sem_control i RT_IPC_CMD_RESET v s = Some (RT_EOK, s')"
    "released (set (ring (thread_rings s) (Suspended (OSem i)))) s s1"
    "schedules (upd_sem i (\<lambda>m. m\<lparr>sem_value := ucast v\<rparr>) s1) s'"
    "ring (thread_rings s') (Suspended (OSem i)) = []" "sems s' = (sems s)(i := \<lparr>sem_value = ucast v\<rparr>)"
proof -
  obtain s1 where s1: "ipc_list_resume_all (Suspended (OSem i)) s = Some s1"
    "released (set (ring (thread_rings s) (Suspended (OSem i)))) s s1" "ring (thread_rings s1) (Suspended (OSem i)) = []"
    by (rule resume_one [OF inv, of "OSem i"]) auto
  have w: "wakes (set (ring (thread_rings s) (Suspended (OSem i)))) s s1" using s1(2) by (simp add: released_def)
  let ?s2 = "upd_sem i (\<lambda>m. m\<lparr>sem_value := ucast v\<rparr>) s1"
  obtain c where c: "rt_current_thread ?s2 = Some c" using cur wakesD(3) [OF w] by auto
  have k2: "kinv ?s2" using wakesD(1) [OF w] by simp
  obtain s' where s': "rt_schedule ?s2 = Some s'" "schedules ?s2 s'" using rt_schedule_ok [OF k2 c] .
  have "sems s' = (sems s)(i := \<lparr>sem_value = ucast v\<rparr>)"
    using schedules_fields(2) [OF s'(2)] core_step_fields(1) [OF wakesD(2) [OF w]]
    by (cases "sems s i") simp
  then show thesis
    using that [OF _ s1(2) s'(2)] sem_type [OF inv live] s1 s'(1) schedules_wait_list [OF s'(2), of "OSem i"]
    by (simp add: rt_sem_control_def)
qed

text \<open>
  C35. How a waiting \<open>rt_sem_take\<close> ends. Let thread \<open>t\<close> wait for semaphore \<open>i\<close> with a cleared error code, as the call
  left it. When a release serves it, the call returns \<^verbatim>\<open>RT_EOK\<close> and the value has not changed; when its timer
  expires, the thread leaves the list and the call returns \<^verbatim>\<open>-RT_ETIMEOUT\<close>; when the semaphore is
  reset or removed, the call returns \<^verbatim>\<open>-RT_ERROR\<close>. In each case the thread can run again.
\<close>

theorem rt_sem_wait_outcomes:
  assumes "kinv s" "live s (OSem i)" "rt_current_thread s \<noteq> None" "home (thread_rings s) t = Some (Suspended (OSem i))"
    "th_error (threads s t) = RT_EOK"
  shows "(\<forall>ts. ring (thread_rings s) (Suspended (OSem i)) = t # ts \<longrightarrow>
      (\<exists>s'. rt_sem_release i s = Some (RT_EOK, s') \<and> kinv s' \<and> awake s' t \<and> rt_sem_take_resume t s' = RT_EOK \<and>
         sems s' = sems s)) \<and>
    (home (timer_rings s) (ThreadTimer t) \<noteq> Some HardTimers \<longrightarrow>
      (\<exists>s'. thread_timeout t s = Some s' \<and> kinv s' \<and> awake s' t \<and> rt_sem_take_resume t s' = - RT_ETIMEOUT \<and>
         home (thread_rings s') t \<noteq> Some (Suspended (OSem i)) \<and> sems s' = sems s)) \<and>
    (\<exists>s'. rt_sem_control i RT_IPC_CMD_RESET v s = Some (RT_EOK, s') \<and> kinv s' \<and> awake s' t \<and>
       rt_sem_take_resume t s' = - RT_ERROR) \<and>
    (rt_object_is_systemobject (OSem i) s \<longrightarrow>
      (\<exists>s'. rt_sem_detach i s = Some (RT_EOK, s') \<and> kinv s' \<and> awake s' t \<and> rt_sem_take_resume t s' = - RT_ERROR \<and>
         \<not> live s' (OSem i)))"
proof (intro conjI impI allI)
  note inv = assms(1)
  have mem: "t \<in> set (ring (thread_rings s) (Suspended (OSem i)))"
    using rings_ok_home [OF kinvD(1) [OF inv], of t "Suspended (OSem i)"] assms(4) by simp
  have sus: "status s t = RT_THREAD_SUSPEND" using waiting_suspended(1) [OF inv _ mem, of "OSem i"] by simp
  show "\<exists>s'. rt_sem_release i s = Some (RT_EOK, s') \<and> kinv s' \<and> awake s' t \<and> rt_sem_take_resume t s' = RT_EOK \<and> sems s' = sems s"
    if first: "ring (thread_rings s) (Suspended (OSem i)) = t # ts" for ts
  proof -
    obtain s1 s' where "rt_sem_release i s = Some (RT_EOK, s')" "schedules s1 s'"
      "th_error (threads s' t) = th_error (threads s t)" "awake s' t" "sems s' = sems s"
      by (rule rt_sem_release_wakes [OF assms(1-3) first], rule that)
    then show ?thesis using assms(5) schedulesD(1) by (auto simp: rt_sem_take_resume_def)
  qed
  show "\<exists>s'. thread_timeout t s = Some s' \<and> kinv s' \<and> awake s' t \<and> rt_sem_take_resume t s' = - RT_ETIMEOUT \<and>
      home (thread_rings s') t \<noteq> Some (Suspended (OSem i)) \<and> sems s' = sems s"
    if tm: "home (timer_rings s) (ThreadTimer t) \<noteq> Some HardTimers"
  proof -
    obtain c where c: "rt_current_thread s = Some c" using assms(3) by auto
    obtain s' where s': "thread_timeout t s = Some s'" "kinv s'" "core_step s s'" "th_error (threads s' t) = - RT_ETIMEOUT"
      "status s' t = RT_THREAD_READY \<or> status s' t = RT_THREAD_RUNNING"
      by (rule thread_timeout_ok [OF inv sus c tm], rule that)
    have "home (thread_rings s') t \<noteq> Some (Suspended (OSem i))"
      using kinv_place [OF s'(2), of t] s'(5) by (auto simp: place_ok_def)
    then show ?thesis using s' core_step_fields(1) [OF s'(3)] by (auto simp: awake_def rt_sem_take_resume_def)
  qed
  show "\<exists>s'. rt_sem_control i RT_IPC_CMD_RESET v s = Some (RT_EOK, s') \<and> kinv s' \<and> awake s' t \<and> rt_sem_take_resume t s' = - RT_ERROR"
  proof -
    obtain s1 s' where s': "rt_sem_control i RT_IPC_CMD_RESET v s = Some (RT_EOK, s')"
      "released (set (ring (thread_rings s) (Suspended (OSem i)))) s s1"
      "schedules (upd_sem i (\<lambda>m. m\<lparr>sem_value := ucast v\<rparr>) s1) s'"
      by (rule rt_sem_control_reset [OF assms(1-3)], rule that)
    have "awake s1 t" using awake_wakes s'(2) mem by (auto simp: released_def)
    then have "awake s' t" using awake_schedules [OF s'(3)] by (simp add: awake_def)
    then show ?thesis
      using s' mem schedulesD(1) [OF s'(3)] schedules_fields(1) [OF s'(3), of t] by (auto simp: released_def rt_sem_take_resume_def)
  qed
  show "\<exists>s'. rt_sem_detach i s = Some (RT_EOK, s') \<and> kinv s' \<and> awake s' t \<and> rt_sem_take_resume t s' = - RT_ERROR \<and>
      \<not> live s' (OSem i)" if st: "rt_object_is_systemobject (OSem i) s"
  proof -
    obtain s1 where s1: "rt_sem_detach i s = Some (RT_EOK, rt_object_detach (OSem i) s1)" "kinv (rt_object_detach (OSem i) s1)"
      "released (set (ring (thread_rings s) (Suspended (OSem i)))) s s1"
      by (rule rt_sem_detach_ok [OF assms(1,2) st])
    then show ?thesis using awake_wakes mem by (auto simp: released_def rt_sem_take_resume_def)
  qed
qed

theorem rt_sem_wait_outcomes_witness:
  "(\<exists>s'. rt_sem_release 0 (demo 3) = Some (RT_EOK, s') \<and> kinv s' \<and> awake s' 4 \<and> rt_sem_take_resume 4 s' = RT_EOK \<and>
     sems s' = sems (demo 3)) \<and>
   (\<exists>s'. thread_timeout 4 (demo 3) = Some s' \<and> kinv s' \<and> awake s' 4 \<and> rt_sem_take_resume 4 s' = - RT_ETIMEOUT \<and>
     home (thread_rings s') 4 \<noteq> Some (Suspended (OSem 0)) \<and> sems s' = sems (demo 3)) \<and>
   (\<exists>s'. rt_sem_control 0 RT_IPC_CMD_RESET 7 (demo 3) = Some (RT_EOK, s') \<and> kinv s' \<and> awake s' 4 \<and>
     rt_sem_take_resume 4 s' = - RT_ERROR) \<and>
   (\<exists>s'. rt_sem_detach 0 (demo 3) = Some (RT_EOK, s') \<and> kinv s' \<and> awake s' 4 \<and> rt_sem_take_resume 4 s' = - RT_ERROR \<and>
     \<not> live s' (OSem 0))"
proof -
  have pre: "kinv (demo 3)" "live (demo 3) (OSem 0)" "rt_current_thread (demo 3) \<noteq> None"
    "home (thread_rings (demo 3)) 4 = Some (Suspended (OSem 0))" "th_error (threads (demo 3) 4) = RT_EOK"
    by (simp_all add: demo_kinv demo_live_iff demo_live_def demo_threads_def demo_thread_def zero_thread_def)
  have at: "ring (thread_rings (demo 3)) (Suspended (OSem 0)) = [4]"
    "home (timer_rings (demo 3)) (ThreadTimer 4) \<noteq> Some HardTimers" "rt_object_is_systemobject (OSem 0) (demo 3)"
    by (simp_all add: empty_rings_def rt_object_is_systemobject_def demo_live_def class_of_def)
  show ?thesis using rt_sem_wait_outcomes [OF pre, of 7] at by blast
qed

lemma rt_sem_init_ok:
  assumes inv: "kinv s" and fresh: "\<not> live s (OSem i)" and name: "readable RT_NAME_MAX name"
    and v: "v < 0x10000" and flag: "flag = RT_IPC_FLAG_FIFO \<or> flag = RT_IPC_FLAG_PRIO"
  obtains s' where "rt_sem_init i name v flag s = Some (RT_EOK, s')" "kinv s'" "live s' (OSem i)"
    "sem_value (sems s' i) = ucast v" "ring (thread_rings s') (Suspended (OSem i)) = []" "ipc_flag_ok s' (OSem i)"
proof -
  obtain s1 where s1: "rt_object_init (OSem i) (class_of (OSem i)) name s = Some s1" "kinv s1" "live s1 (OSem i)"
    "\<And>l. wait_list (OSem i) l \<Longrightarrow> ipc_object_init l s1 = Some s1"
    "\<And>l. wait_list (OSem i) l \<Longrightarrow> ring (thread_rings s1) l = []"
    by (rule ipc_init_ok [OF inv _ fresh name], simp, rule that)
  let ?s = "upd_obj (OSem i) (\<lambda>b. b\<lparr>ob_flag := flag\<rparr>) (upd_sem i (\<lambda>m. m\<lparr>sem_value := ucast v\<rparr>) s1)"
  have "rt_sem_init i name v flag s = Some (RT_EOK, ?s)"
    using s1(1) s1(4) [of "Suspended (OSem i)"] v flag by (simp add: rt_sem_init_def class_of_def)
  moreover have "kinv ?s" by (rule kinv_set_flag) (use s1(2) in simp_all)
  moreover have "ipc_flag_ok ?s (OSem i)" using flag by (simp add: upd_obj_def ipc_flag_ok_def)
  moreover have "sems ?s i = \<lparr>sem_value = ucast v\<rparr>" "thread_rings ?s = thread_rings s1"
    by (cases "sems s1 i", simp add: upd_obj_def)+
  ultimately show thesis using that [of ?s] s1(3) s1(5) [of "Suspended (OSem i)"] by simp
qed

text \<open>A \<open>rt_sem_trytake\<close> that must succeed.\<close>

definition sem_trytake_ok :: "nat \<Rightarrow> kernel \<Rightarrow> kernel option" where
  "sem_trytake_ok i s = (case rt_sem_trytake i s of Some (Return e, s') \<Rightarrow> if e = RT_EOK then Some s' else None | _ \<Rightarrow> None)"

lemma sem_trytakes:
  "rt_object_get_type (OSem i) s = RT_Object_Class_Semaphore \<Longrightarrow> kinv s \<Longrightarrow> n \<le> unat (sem_value (sems s i)) \<Longrightarrow>
   \<exists>s'. repeat_op n (sem_trytake_ok i) s = Some s' \<and> kinv s' \<and>
     rt_object_get_type (OSem i) s' = RT_Object_Class_Semaphore \<and>
     unat (sem_value (sems s' i)) = unat (sem_value (sems s i)) - n"
proof (induction n arbitrary: s)
  case (Suc n)
  let ?s = "upd_sem i (\<lambda>m. m\<lparr>sem_value := sem_value m - 1\<rparr>) s"
  have pos: "sem_value (sems s i) > 0" using Suc.prems(3) by (metis le_zero_eq nat.distinct(1) unat_gt_0 word_gt_0 unat_eq_0)
  then have val: "unat (sem_value (sems ?s i)) = unat (sem_value (sems s i)) - 1"
    by (simp add: unat_minus_one word_gt_0)
  have "sem_trytake_ok i s = Some ?s"
    using Suc.prems(1) pos by (simp add: sem_trytake_ok_def rt_sem_trytake_def rt_sem_take_def)
  moreover have "rt_object_get_type (OSem i) ?s = RT_Object_Class_Semaphore"
    using Suc.prems(1) by (simp add: rt_object_get_type_def)
  ultimately show ?case using Suc.IH [of ?s] Suc.prems(2,3) val by auto
qed simp

text \<open>
  A new semaphore holds exactly its initial value: after \<open>rt_sem_init\<close> with value \<open>v\<close>, \<open>v\<close> attempts to take it
  succeed and the next one fails with \<^verbatim>\<open>-RT_ETIMEOUT\<close>.
\<close>

theorem rt_sem_init_tokens:
  assumes "kinv s" "\<not> live s (OSem i)" "readable RT_NAME_MAX name" "v < 0x10000"
    "flag = RT_IPC_FLAG_FIFO \<or> flag = RT_IPC_FLAG_PRIO"
  shows "\<exists>s' s''. rt_sem_init i name v flag s = Some (RT_EOK, s') \<and>
    repeat_op (unat v) (sem_trytake_ok i) s' = Some s'' \<and> rt_sem_trytake i s'' = Some (Return (- RT_ETIMEOUT), s'')"
proof -
  obtain s' where s': "rt_sem_init i name v flag s = Some (RT_EOK, s')" "kinv s'" "live s' (OSem i)"
    "sem_value (sems s' i) = ucast v"
    by (rule rt_sem_init_ok [OF assms], rule that)
  have v: "unat (ucast v :: u16) = unat v"
    using assms(4) by (simp add: unsigned_ucast_eq word_less_nat_alt take_bit_nat_eq_self)
  obtain s'' where s'': "repeat_op (unat v) (sem_trytake_ok i) s' = Some s''"
    "rt_object_get_type (OSem i) s'' = RT_Object_Class_Semaphore" "unat (sem_value (sems s'' i)) = 0"
    using sem_trytakes [OF sem_type [OF s'(2,3)] s'(2), of "unat v"] s'(4) v by auto
  then show ?thesis using s'(1) by (auto simp: rt_sem_trytake_def rt_sem_take_def unat_eq_0)
qed

theorem rt_sem_init_tokens_witness:
  "\<exists>s' s''. rt_sem_init 5 [115, 0] 2 RT_IPC_FLAG_PRIO (demo 3) = Some (RT_EOK, s') \<and>
    repeat_op (unat (2::u32)) (sem_trytake_ok 5) s' = Some s'' \<and> rt_sem_trytake 5 s'' = Some (Return (- RT_ETIMEOUT), s'')"
  by (rule rt_sem_init_tokens) (simp_all add: demo_kinv readable_def demo_live_iff demo_live_def)

end
