(* ===== verification/RT_SemSteps.thy ===== *)
theory RT_SemSteps
  imports RT_Sem
begin

section \<open>A semaphore shared by many threads\<close>















end
