(* ===== verification/RT_Mutex.thy ===== *)
theory RT_Mutex
  imports RT_Ipc
begin

section \<open>Mutexes: \<^verbatim>\<open>src/ipc.c\<close>\<close>

text \<open>
  A recursive lock with priority inheritance: a thread that waits raises the priority of the owner to its
  own, and the owner gets its original priority back with the last release. The value is 1 when the
  mutex is free and 0 when it is held.
\<close>

subsection \<open>Operations\<close>

definition upd_mutex :: "nat \<Rightarrow> (rt_mutex \<Rightarrow> rt_mutex) \<Rightarrow> kernel \<Rightarrow> kernel" where
  "upd_mutex i f s = s\<lparr>mutexes := (mutexes s)(i := f (mutexes s i))\<rparr>"

definition free_mutex :: rt_mutex where
  "free_mutex = \<lparr>mtx_value = 1, mtx_original_priority = 0xff, mtx_hold = 0, mtx_owner = None\<rparr>"

definition rt_mutex_init :: "nat \<Rightarrow> u8 list \<Rightarrow> u8 \<Rightarrow> kernel \<Rightarrow> (rt_err \<times> kernel) option" where
  "rt_mutex_init mutex name flag s = do {
     s \<leftarrow> rt_object_init (OMutex mutex) RT_Object_Class_Mutex name s;
     s \<leftarrow> ipc_object_init (Suspended (OMutex mutex)) s;
     let s = upd_mutex mutex (\<lambda>_. free_mutex) s;
     let s = upd_obj (OMutex mutex) (\<lambda>b. b\<lparr>ob_flag := RT_IPC_FLAG_PRIO\<rparr>) s;
     Some (RT_EOK, s)
   }"

definition rt_mutex_detach :: "nat \<Rightarrow> kernel \<Rightarrow> (rt_err \<times> kernel) option" where
  "rt_mutex_detach mutex s = do {
     RT_ASSERT (rt_object_get_type (OMutex mutex) s = RT_Object_Class_Mutex);
     RT_ASSERT (rt_object_is_systemobject (OMutex mutex) s);
     s \<leftarrow> ipc_list_resume_all (Suspended (OMutex mutex)) s;
     Some (RT_EOK, rt_object_detach (OMutex mutex) s)
   }"

definition rt_mutex_create :: "nat option \<Rightarrow> u8 list \<Rightarrow> u8 \<Rightarrow> kernel \<Rightarrow> (nat option \<times> kernel) option" where
  "rt_mutex_create mem name flag s = do {
     RT_DEBUG_NOT_IN_INTERRUPT s;
     (_, s) \<leftarrow> rt_object_allocate (map_option OMutex mem) RT_Object_Class_Mutex name s;
     (case mem of
        None \<Rightarrow> Some (None, s)
      | Some mutex \<Rightarrow> do {
          s \<leftarrow> ipc_object_init (Suspended (OMutex mutex)) s;
          let s = upd_mutex mutex (\<lambda>_. free_mutex) s;
          let s = upd_obj (OMutex mutex) (\<lambda>b. b\<lparr>ob_flag := RT_IPC_FLAG_PRIO\<rparr>) s;
          Some (Some mutex, s)
        })
   }"

definition rt_mutex_delete :: "nat \<Rightarrow> kernel \<Rightarrow> (rt_err \<times> kernel) option" where
  "rt_mutex_delete mutex s = do {
     RT_ASSERT (rt_object_get_type (OMutex mutex) s = RT_Object_Class_Mutex);
     RT_ASSERT (\<not> rt_object_is_systemobject (OMutex mutex) s);
     RT_DEBUG_NOT_IN_INTERRUPT s;
     s \<leftarrow> ipc_list_resume_all (Suspended (OMutex mutex)) s;
     s \<leftarrow> rt_object_delete (OMutex mutex) s;
     Some (RT_EOK, s)
   }"

text \<open>
  \<open>rt_mutex_take\<close> up to its scheduling point. Reading the priority of the owner of a held mutex that has
  no owner is a null dereference and has no result.
\<close>

definition rt_mutex_take :: "nat \<Rightarrow> int \<Rightarrow> kernel \<Rightarrow> (tid call \<times> kernel) option" where
  "rt_mutex_take mutex time s = do {
     RT_DEBUG_SCHEDULER_AVAILABLE True s;
     RT_ASSERT (rt_object_get_type (OMutex mutex) s = RT_Object_Class_Mutex);
     thread \<leftarrow> rt_thread_self s;
     let s = upd_thread thread (\<lambda>th. th\<lparr>th_error := RT_EOK\<rparr>) s;
     let m = mutexes s mutex;
     if mtx_owner m = Some thread then
       (if mtx_hold m < 0xff then Some (Return RT_EOK, upd_mutex mutex (\<lambda>m. m\<lparr>mtx_hold := mtx_hold m + 1\<rparr>) s)
        else Some (Return (- RT_EFULL), s))
     else if mtx_value m > 0 then do {
       let s = upd_mutex mutex (\<lambda>m. m\<lparr>mtx_value := mtx_value m - 1, mtx_owner := Some thread,
             mtx_original_priority := th_current_priority (threads s thread)\<rparr>) s;
       if mtx_hold m < 0xff then Some (Return RT_EOK, upd_mutex mutex (\<lambda>m. m\<lparr>mtx_hold := mtx_hold m + 1\<rparr>) s)
       else Some (Return (- RT_EFULL), s)
     }
     else if time = 0 then
       Some (Return (- RT_ETIMEOUT), upd_thread thread (\<lambda>th. th\<lparr>th_error := - RT_ETIMEOUT\<rparr>) s)
     else do {
       owner \<leftarrow> mtx_owner m;
       s \<leftarrow> (if th_current_priority (threads s thread) < th_current_priority (threads s owner)
             then map_option snd (rt_thread_control owner 2 (th_current_priority (threads s thread)) s)
             else Some s);
       s \<leftarrow> ipc_wait (Suspended (OMutex mutex)) thread (ob_flag (objs s (OMutex mutex))) time s;
       s \<leftarrow> rt_schedule s;
       Some (Pending thread, s)
     }
   }"

definition rt_mutex_take_resume :: "tid \<Rightarrow> kernel \<Rightarrow> rt_err" where
  "rt_mutex_take_resume thread s =
     (if th_error (threads s thread) \<noteq> RT_EOK then th_error (threads s thread) else RT_EOK)"

definition rt_mutex_trytake :: "nat \<Rightarrow> kernel \<Rightarrow> (tid call \<times> kernel) option" where
  "rt_mutex_trytake mutex s = rt_mutex_take mutex 0 s"

definition rt_mutex_release :: "nat \<Rightarrow> kernel \<Rightarrow> (rt_err \<times> kernel) option" where
  "rt_mutex_release mutex s = do {
     RT_ASSERT (rt_object_get_type (OMutex mutex) s = RT_Object_Class_Mutex);
     RT_DEBUG_IN_THREAD_CONTEXT s;
     thread \<leftarrow> rt_thread_self s;
     if mtx_owner (mutexes s mutex) \<noteq> Some thread then
       Some (- RT_ERROR, upd_thread thread (\<lambda>th. th\<lparr>th_error := - RT_ERROR\<rparr>) s)
     else do {
       let s = upd_mutex mutex (\<lambda>m. m\<lparr>mtx_hold := mtx_hold m - 1\<rparr>) s;
       if mtx_hold (mutexes s mutex) \<noteq> 0 then Some (RT_EOK, s)
       else do {
         let orig = mtx_original_priority (mutexes s mutex);
         s \<leftarrow> (if orig \<noteq> th_current_priority (threads s thread)
               then map_option snd (rt_thread_control thread 2 orig s) else Some s);
         (case ring (thread_rings s) (Suspended (OMutex mutex)) of
            t # _ \<Rightarrow> do {
              let s = upd_mutex mutex (\<lambda>m. m\<lparr>mtx_owner := Some t,
                    mtx_original_priority := th_current_priority (threads s t)\<rparr>) s;
              if mtx_hold (mutexes s mutex) < 0xff then do {
                let s = upd_mutex mutex (\<lambda>m. m\<lparr>mtx_hold := mtx_hold m + 1\<rparr>) s;
                s \<leftarrow> ipc_list_resume (Suspended (OMutex mutex)) s;
                s \<leftarrow> rt_schedule s;
                Some (RT_EOK, s)
              } else Some (- RT_EFULL, s)
            }
          | [] \<Rightarrow>
              (if mtx_value (mutexes s mutex) < 0xffff
               then Some (RT_EOK, upd_mutex mutex (\<lambda>m. m\<lparr>mtx_value := mtx_value m + 1, mtx_owner := None,
                      mtx_original_priority := 0xff\<rparr>) s)
               else Some (- RT_EFULL, s)))
       }
     }
   }"

definition rt_mutex_control :: "nat \<Rightarrow> int \<Rightarrow> kernel \<Rightarrow> rt_err option" where
  "rt_mutex_control mutex cmd s = do {
     RT_ASSERT (rt_object_get_type (OMutex mutex) s = RT_Object_Class_Mutex);
     Some (- RT_ERROR)
   }"

subsection \<open>The state of a mutex\<close>

lemma upd_mutex_fields [simp]:
  "thread_rings (upd_mutex i f s) = thread_rings s" "threads (upd_mutex i f s) = threads s" "objs (upd_mutex i f s) = objs s"
  "mutexes (upd_mutex i f s) = (mutexes s)(i := f (mutexes s i))" "rt_current_thread (upd_mutex i f s) = rt_current_thread s"
  "kinv (upd_mutex i f s) = kinv s" "live (upd_mutex i f s) = live s" "status (upd_mutex i f s) = status s"
  "thread_prio (upd_mutex i f s) = thread_prio s"
  by (simp_all add: upd_mutex_def thread_prio_def fun_eq_iff)

lemma mutex_type: "kinv s \<Longrightarrow> live s (OMutex i) \<Longrightarrow> rt_object_get_type (OMutex i) s = RT_Object_Class_Mutex"
  using rt_object_get_type_live [of s "OMutex i"] by (simp add: class_of_def)

text \<open>
  A mutex is free, with nobody waiting, or it has an owner that exists, holds it at least once and does
  not itself wait for it.
\<close>

definition mutex_ok :: "kernel \<Rightarrow> nat \<Rightarrow> bool" where
  "mutex_ok s i \<longleftrightarrow>
     (case mtx_owner (mutexes s i) of
        None \<Rightarrow> mutexes s i = free_mutex \<and> ring (thread_rings s) (Suspended (OMutex i)) = []
      | Some t \<Rightarrow> mtx_value (mutexes s i) = 0 \<and> mtx_hold (mutexes s i) \<noteq> 0 \<and> live s (OThread t) \<and>
          unat (mtx_original_priority (mutexes s i)) < RT_THREAD_PRIORITY_MAX \<and>
          t \<notin> set (ring (thread_rings s) (Suspended (OMutex i))))"

lemma mutex_ok_cong:
  assumes "mutexes s' i = mutexes s i" "live s' = live s"
    "ring (thread_rings s') (Suspended (OMutex i)) = ring (thread_rings s) (Suspended (OMutex i))"
  shows "mutex_ok s' i = mutex_ok s i"
  unfolding mutex_ok_def assms ..

lemma mutex_ok_upd_thread: "mutex_ok (upd_thread t f s) i = mutex_ok s i"
  by (rule mutex_ok_cong) (simp_all add: upd_thread_def live_def fun_eq_iff)

lemma upd_thread_same: "f (threads s t) = threads s t \<Longrightarrow> upd_thread t f s = s"
  by (simp add: upd_thread_def)

lemma wait_insert_cong:
  assumes "\<And>u. u = t \<or> u \<in> set ts \<Longrightarrow> thread_prio s' u = thread_prio s u"
  shows "wait_insert s' flag t ts = wait_insert s flag t ts"
proof -
  have "takeWhile (\<lambda>u. thread_prio s' u \<le> thread_prio s' t) ts = takeWhile (\<lambda>u. thread_prio s u \<le> thread_prio s t) ts"
    "dropWhile (\<lambda>u. thread_prio s' u \<le> thread_prio s' t) ts = dropWhile (\<lambda>u. thread_prio s u \<le> thread_prio s t) ts"
    using assms by (auto intro!: takeWhile_cong dropWhile_cong)
  then show ?thesis by (simp only: wait_insert_def)
qed

text \<open>Changing the priority of a thread leaves all waiting lists as they are.\<close>

lemma control_prio_ok:
  assumes inv: "kinv s" and live: "live s (OThread o')" and p: "unat p < 32"
  obtains s' where "rt_thread_control o' 2 p s = Some (RT_EOK, s')" "kinv s'" "core_step s s'"
    "rt_current_thread s' = rt_current_thread s" "thread_prio s' o' = unat p" "\<And>u. status s' u = status s u"
    "\<And>u. u \<noteq> o' \<Longrightarrow> threads s' u = threads s u" "\<And>x l. wait_list x l \<Longrightarrow> ring (thread_rings s') l = ring (thread_rings s) l"
    "timer_rings s' = timer_rings s" "th_error (threads s' o') = th_error (threads s o')"
proof -
  obtain s' where s': "rt_thread_control o' 2 p s = Some (RT_EOK, s')" "kinv s'" "core_step s s'"
    "rt_current_thread s' = rt_current_thread s" "thread_prio s' o' = unat p" "\<And>u. status s' u = status s u"
    "\<And>u. u \<noteq> o' \<Longrightarrow> threads s' u = threads s u"
    "ring (thread_rings s') = (if status s o' = RT_THREAD_READY
       then (\<lambda>l. if l = Ready (unat p) then remove1 o' (ring (thread_rings s) l) @ [o'] else remove1 o' (ring (thread_rings s) l))
       else ring (thread_rings s))"
    "timer_rings s' = timer_rings s" "th_error (threads s' o') = th_error (threads s o')"
    by (rule rt_thread_control_prio_ok [OF inv live p], rule that)
  have "ring (thread_rings s') l = ring (thread_rings s) l" if l: "wait_list x l" for x l
  proof (cases "status s o' = RT_THREAD_READY")
    case True
    then have "o' \<notin> set (ring (thread_rings s) l)" using waiting_suspended(1) [OF inv l, of o'] by auto
    then show ?thesis using s'(8) True wait_list_not_ready [OF l] by (simp add: remove1_idem)
  qed (simp add: s'(8))
  then show thesis using that [OF s'(1-7) _ s'(9,10)] by blast
qed

text \<open>Priority inheritance: the owner runs at least at the priority of the thread that is about to wait.\<close>

lemma mutex_boost:
  assumes inv: "kinv s" and live: "live s (OThread o')" and p: "thread_prio s t < 32"
  obtains s1 where "(if th_current_priority (threads s t) < th_current_priority (threads s o')
       then map_option snd (rt_thread_control o' 2 (th_current_priority (threads s t)) s) else Some s) = Some s1"
    "kinv s1" "core_step s s1" "rt_current_thread s1 = rt_current_thread s"
    "thread_prio s1 o' = min (thread_prio s t) (thread_prio s o')" "\<And>u. status s1 u = status s u"
    "\<And>u. u \<noteq> o' \<Longrightarrow> threads s1 u = threads s u" "\<And>x l. wait_list x l \<Longrightarrow> ring (thread_rings s1) l = ring (thread_rings s) l"
proof (cases "th_current_priority (threads s t) < th_current_priority (threads s o')")
  case True
  have lt: "unat (th_current_priority (threads s t)) < 32" using p by (simp add: thread_prio_def)
  have min: "min (thread_prio s t) (thread_prio s o') = unat (th_current_priority (threads s t))"
    using True by (simp add: thread_prio_def word_less_nat_alt)
  obtain s1 where s1: "rt_thread_control o' 2 (th_current_priority (threads s t)) s = Some (RT_EOK, s1)" "kinv s1" "core_step s s1"
    "rt_current_thread s1 = rt_current_thread s" "thread_prio s1 o' = unat (th_current_priority (threads s t))"
    "\<And>u. status s1 u = status s u" "\<And>u. u \<noteq> o' \<Longrightarrow> threads s1 u = threads s u"
    "\<And>x l. wait_list x l \<Longrightarrow> ring (thread_rings s1) l = ring (thread_rings s) l"
    by (rule control_prio_ok [OF inv live lt], rule that)
  show thesis by (rule that [of s1]) (use True min s1 in simp_all)
next
  case False
  then have "min (thread_prio s t) (thread_prio s o') = thread_prio s o'"
    by (simp add: thread_prio_def word_less_nat_alt not_less)
  then show thesis using that [of s] False inv by simp
qed

subsection \<open>Taking\<close>

lemma rt_mutex_take_blocks:
  assumes inv: "kinv s" and live: "live s (OMutex i)" and flag: "ipc_flag_ok s (OMutex i)"
    and cur: "rt_current_thread s = Some t" and run: "status s t = RT_THREAD_RUNNING"
    and ctx: "rt_scheduler_lock_nest s = 0" "rt_interrupt_nest s = 0"
    and time: "time \<noteq> 0" "time < 0x7fffffff" and own: "mtx_owner (mutexes s i) = Some o'" "o' \<noteq> t"
    and ok: "mutex_ok s i"
  obtains s' where "rt_mutex_take i time s = Some (Pending t, s')"
    "blocked (Suspended (OMutex i)) (ob_flag (objs s (OMutex i))) t time s s'"
    "thread_prio s' o' = min (thread_prio s t) (thread_prio s o')" "mutexes s' = mutexes s"
proof -
  let ?g = "\<lambda>th. th\<lparr>th_error := RT_EOK\<rparr> :: rt_thread" and ?l = "Suspended (OMutex i)" and ?flag = "ob_flag (objs s (OMutex i))"
  let ?s1 = "upd_thread t ?g s"
  have o: "live s (OThread o')" "mtx_value (mutexes s i) = 0" "o' \<notin> set (ring (thread_rings s) ?l)"
    using ok own by (simp_all add: mutex_ok_def)
  have k1: "kinv ?s1" by (rule kinv_upd_thread [OF inv]) simp_all
  have f1: "rt_current_thread ?s1 = Some t" "status ?s1 u = status s u" "live ?s1 = live s" "thread_rings ?s1 = thread_rings s"
    "thread_prio ?s1 u = thread_prio s u" "core_step s ?s1" "mutexes ?s1 = mutexes s" "objs ?s1 = objs s" for u
    using cur by (simp_all add: upd_thread_def status_def live_def thread_prio_def core_step_def fun_eq_iff)
  have pt: "thread_prio ?s1 t < 32" using kinv_active(3) [OF inv, of t] run f1(5) by simp
  have o1: "live ?s1 (OThread o')" using o(1) f1(3) by simp
  obtain s2 where s2: "(if th_current_priority (threads ?s1 t) < th_current_priority (threads ?s1 o')
       then map_option snd (rt_thread_control o' 2 (th_current_priority (threads ?s1 t)) ?s1) else Some ?s1) = Some s2"
    "kinv s2" "core_step ?s1 s2" "rt_current_thread s2 = rt_current_thread ?s1"
    "thread_prio s2 o' = min (thread_prio ?s1 t) (thread_prio ?s1 o')" "\<And>u. status s2 u = status ?s1 u"
    "\<And>u. u \<noteq> o' \<Longrightarrow> threads s2 u = threads ?s1 u" "\<And>x l. wait_list x l \<Longrightarrow> ring (thread_rings s2) l = ring (thread_rings ?s1) l"
    by (rule mutex_boost [OF k1 o1 pt], rule that)
  note c2 = core_step_trans [OF f1(6) s2(3)]
  have e2: "upd_thread t ?g s2 = s2" by (rule upd_thread_same) (use s2(7) [of t] own(2) in \<open>simp add: upd_thread_def\<close>)
  have pre2: "live s2 (OMutex i)" "objs s2 (OMutex i) = objs s (OMutex i)" "ipc_flag_ok s2 (OMutex i)"
    "rt_scheduler_lock_nest s2 = 0" "rt_current_thread s2 = Some t" "status s2 t = RT_THREAD_RUNNING"
    using core_step_live [OF c2] live core_step_fields(7,11) [OF c2] flag ctx s2(4,6) f1 run by (simp_all add: ipc_flag_ok_def)
  obtain s3 s' where s': "ipc_wait ?l t (ob_flag (objs s2 (OMutex i))) time (upd_thread t ?g s2) = Some s3" "rt_schedule s3 = Some s'"
    "blocked ?l (ob_flag (objs s2 (OMutex i))) t time s2 s'" "\<And>u. thread_prio s' u = thread_prio s2 u"
    by (rule ipc_block [OF s2(2) pre2(5,6,4) _ pre2(1) _ pre2(3) time(2), of ?l ?g]) auto
  have p2: "thread_prio s2 u = thread_prio s u" if "u \<noteq> o'" for u
    using s2(7) [OF that] f1(5) by (simp add: thread_prio_def)
  have wl: "ring (thread_rings s2) m = ring (thread_rings s) m" if "wait_list x m" for x m using s2(8) [OF that] f1(4) by simp
  have "wait_insert s2 ?flag t (ring (thread_rings s) ?l) = wait_insert s ?flag t (ring (thread_rings s) ?l)"
  proof (rule wait_insert_cong)
    fix u assume "u = t \<or> u \<in> set (ring (thread_rings s) ?l)"
    then have "u \<noteq> o'" using o(3) own(2) by auto
    then show "thread_prio s2 u = thread_prio s u" by (rule p2)
  qed
  then have "blocked ?l ?flag t time s s'"
    using s'(3) wl pre2(2) core_step_trans [OF c2] core_step_fields(6) [OF c2] s2(6) f1(2) unfolding blocked_def blocked_at_def by auto
  moreover have "rt_mutex_take i time s = Some (Pending t, s')"
    using mutex_type [OF inv live] scheduler_available [OF ctx cur] cur own o(2) time s2(1) s'(1,2) e2 f1(7)
    by (simp add: rt_mutex_take_def rt_thread_self_def)
  ultimately show thesis
    using that s2(5) s'(4) f1(5,7) core_step_fields(2) [OF blockedD(2) [OF s'(3)]] core_step_fields(2) [OF s2(3)] by simp
qed

text \<open>
  C5. Taking a mutex, on every branch. A free mutex becomes owned by the caller, with hold count 1 and the
  caller's priority remembered. The owner may take it again, up to 255 times, then the call returns \<^verbatim>\<open>-RT_EFULL\<close>.
  For any other thread a call that may not wait returns \<^verbatim>\<open>-RT_ETIMEOUT\<close>; otherwise the caller waits in the
  list of the mutex and the owner inherits its priority: it then runs at least at the priority of the
  waiting thread. Every branch keeps the mutex well-formed.
\<close>

theorem rt_mutex_take_correct:
  assumes "kinv s" "live s (OMutex i)" "ipc_flag_ok s (OMutex i)" "rt_current_thread s = Some t" "status s t = RT_THREAD_RUNNING"
    "rt_scheduler_lock_nest s = 0" "rt_interrupt_nest s = 0" "time < 0x7fffffff" "mutex_ok s i"
  shows "\<exists>r s'. rt_mutex_take i time s = Some (r, s') \<and> kinv s' \<and> mutex_ok s' i \<and>
    (case mtx_owner (mutexes s i) of
       None \<Rightarrow> r = Return RT_EOK \<and> mutexes s' i = \<lparr>mtx_value = 0,
          mtx_original_priority = th_current_priority (threads s t), mtx_hold = 1, mtx_owner = Some t\<rparr>
     | Some o' \<Rightarrow>
         if o' = t then
           (if mtx_hold (mutexes s i) < 0xff
            then r = Return RT_EOK \<and> mutexes s' i = (mutexes s i)\<lparr>mtx_hold := mtx_hold (mutexes s i) + 1\<rparr>
            else r = Return (- RT_EFULL) \<and> mutexes s' = mutexes s)
         else if time = 0 then r = Return (- RT_ETIMEOUT) \<and> mutexes s' = mutexes s
         else r = Pending t \<and> blocked (Suspended (OMutex i)) (ob_flag (objs s (OMutex i))) t time s s' \<and>
           mutexes s' = mutexes s \<and> thread_prio s' o' = min (thread_prio s t) (thread_prio s o'))"
proof -
  note inv = assms(1) and ok = assms(9)
  let ?e = "\<lambda>e. upd_thread t (\<lambda>th. th\<lparr>th_error := e\<rparr>) s"
  have k: "kinv (?e e)" for e by (rule kinv_upd_thread [OF inv]) simp_all
  have f: "mutexes (?e e) = mutexes s" "live (?e e) = live s" "thread_rings (?e e) = thread_rings s"
    "threads (?e e) t = (threads s t)\<lparr>th_error := e\<rparr>"
    "upd_thread t (\<lambda>th. th\<lparr>th_error := e'\<rparr>) (?e e) = ?e e'" for e e'
    by (simp_all add: upd_thread_def live_def fun_eq_iff)
  have start: "rt_object_get_type (OMutex i) s = RT_Object_Class_Mutex" "RT_DEBUG_SCHEDULER_AVAILABLE True s = Some ()"
    "rt_thread_self s = Some t"
    using mutex_type [OF inv assms(2)] scheduler_available(1) [OF assms(6,7,4)] assms(4) by (simp_all add: rt_thread_self_def)
  note step = rt_mutex_take_def [of i time s] start
  have run: "active (status s t)" by (simp add: assms(5))
  note a = kinv_active [OF inv run]
  show ?thesis
  proof (cases "mtx_owner (mutexes s i)")
    case None
    then have free: "mutexes s i = free_mutex" "ring (thread_rings s) (Suspended (OMutex i)) = []"
      using ok by (simp_all add: mutex_ok_def)
    let ?m = "\<lparr>mtx_value = 0, mtx_original_priority = th_current_priority (threads s t), mtx_hold = 1, mtx_owner = Some t\<rparr>"
    have "rt_mutex_take i time s = Some (Return RT_EOK, upd_mutex i (\<lambda>_. ?m) (?e 0))"
      using free by (simp add: step f free_mutex_def Let_def upd_mutex_def)
    then show ?thesis
      using None k f a free by (auto simp: mutex_ok_def thread_prio_def [symmetric])
  next
    case (Some o')
    note own = this
    have o: "mtx_value (mutexes s i) = 0" "mtx_hold (mutexes s i) \<noteq> 0" "live s (OThread o')"
      "unat (mtx_original_priority (mutexes s i)) < 32" "o' \<notin> set (ring (thread_rings s) (Suspended (OMutex i)))"
      using ok own by (simp_all add: mutex_ok_def)
    show ?thesis
    proof (cases "o' = t \<or> time = 0")
      case True
      have "h + 1 \<noteq> 0" if "h < 0xff" for h :: u8
        using unat_inc8 [OF that] by (metis add_is_0 one_neq_zero unat_0)
      then show ?thesis
        using True own o k f by (auto simp: step mutex_ok_def Let_def)
    next
      case False
      then have ne: "o' \<noteq> t" "time \<noteq> 0" by auto
      obtain s' where s': "rt_mutex_take i time s = Some (Pending t, s')"
        "blocked (Suspended (OMutex i)) (ob_flag (objs s (OMutex i))) t time s s'"
        "thread_prio s' o' = min (thread_prio s t) (thread_prio s o')" "mutexes s' = mutexes s"
        by (rule rt_mutex_take_blocks [OF assms(1-7) ne(2) assms(8) own ne(1) ok])
      have "mutex_ok s' i"
        using own o ne(1) s'(4) blockedD(5) [OF s'(2)] core_step_live [OF blockedD(2) [OF s'(2)]] by (simp add: mutex_ok_def)
      then show ?thesis
        using own ne s' blockedD(1) [OF s'(2)] by (intro exI [of _ "Pending t"] exI [of _ s']) simp
    qed
  qed
qed

lemma demo_mutex_ok: "mutex_ok (demo st) 0"
  by (simp add: mutex_ok_def free_mutex_def zero_mutex_def)

theorem rt_mutex_take_correct_witness:
  "\<exists>r s'. rt_mutex_take 0 5 (demo 3) = Some (r, s') \<and> kinv s' \<and> mutex_ok s' 0 \<and>
    (case mtx_owner (mutexes (demo 3) 0) of
       None \<Rightarrow> r = Return RT_EOK \<and> mutexes s' 0 = \<lparr>mtx_value = 0,
          mtx_original_priority = th_current_priority (threads (demo 3) 1), mtx_hold = 1, mtx_owner = Some 1\<rparr>
     | Some o' \<Rightarrow>
         if o' = 1 then
           (if mtx_hold (mutexes (demo 3) 0) < 0xff
            then r = Return RT_EOK \<and> mutexes s' 0 = (mutexes (demo 3) 0)\<lparr>mtx_hold := mtx_hold (mutexes (demo 3) 0) + 1\<rparr>
            else r = Return (- RT_EFULL) \<and> mutexes s' = mutexes (demo 3))
         else if (5::int) = 0 then r = Return (- RT_ETIMEOUT) \<and> mutexes s' = mutexes (demo 3)
         else r = Pending 1 \<and> blocked (Suspended (OMutex 0)) (ob_flag (objs (demo 3) (OMutex 0))) 1 5 (demo 3) s' \<and>
           mutexes s' = mutexes (demo 3) \<and> thread_prio s' o' = min (thread_prio (demo 3) 1) (thread_prio (demo 3) o'))"
  by (rule rt_mutex_take_correct)
    (simp_all add: demo_kinv demo_status demo_live_iff demo_live_def ipc_flag_ok_def zero_obj_def demo_mutex_ok)

subsection \<open>Releasing\<close>

text \<open>The priority of the owner is restored.\<close>

lemma mutex_restore:
  assumes inv: "kinv s" and live: "live s (OThread t)" and p: "unat p < 32"
  obtains s1 where "(if p \<noteq> th_current_priority (threads s t) then map_option snd (rt_thread_control t 2 p s) else Some s) = Some s1"
    "kinv s1" "core_step s s1" "rt_current_thread s1 = rt_current_thread s" "thread_prio s1 t = unat p"
    "\<And>u. status s1 u = status s u" "\<And>u. u \<noteq> t \<Longrightarrow> threads s1 u = threads s u"
    "\<And>x l. wait_list x l \<Longrightarrow> ring (thread_rings s1) l = ring (thread_rings s) l"
proof (cases "p = th_current_priority (threads s t)")
  case True
  then show thesis using that [of s] inv by (simp add: thread_prio_def)
next
  case False
  obtain s1 where s1: "rt_thread_control t 2 p s = Some (RT_EOK, s1)" "kinv s1" "core_step s s1"
    "rt_current_thread s1 = rt_current_thread s" "thread_prio s1 t = unat p" "\<And>u. status s1 u = status s u"
    "\<And>u. u \<noteq> t \<Longrightarrow> threads s1 u = threads s u" "\<And>x l. wait_list x l \<Longrightarrow> ring (thread_rings s1) l = ring (thread_rings s) l"
    by (rule control_prio_ok [OF inv live p], rule that)
  show thesis by (rule that [of s1]) (use False s1 in simp_all)
qed

lemma rt_mutex_release_last:
  assumes inv: "kinv s" and live: "live s (OMutex i)" and cur: "rt_current_thread s = Some t"
    and nest: "rt_interrupt_nest s = 0" and ok: "mutex_ok s i" and own: "mtx_owner (mutexes s i) = Some t"
    and hold: "mtx_hold (mutexes s i) = 1"
  obtains s' where "rt_mutex_release i s = Some (RT_EOK, s')" "kinv s'" "mutex_ok s' i"
    "thread_prio s' t = unat (mtx_original_priority (mutexes s i))"
    "case ring (thread_rings s) (Suspended (OMutex i)) of
       [] \<Rightarrow> mutexes s' i = free_mutex
     | u # us \<Rightarrow> mutexes s' i = \<lparr>mtx_value = 0, mtx_original_priority = th_current_priority (threads s u),
           mtx_hold = 1, mtx_owner = Some u\<rparr> \<and> awake s' u \<and> th_error (threads s' u) = th_error (threads s u) \<and>
         ring (thread_rings s') (Suspended (OMutex i)) = us"
proof -
  let ?l = "Suspended (OMutex i)" and ?p = "mtx_original_priority (mutexes s i)"
  let ?s1 = "upd_mutex i (\<lambda>m. m\<lparr>mtx_hold := mtx_hold m - 1\<rparr>) s"
  have o: "mtx_value (mutexes s i) = 0" "live s (OThread t)" "unat ?p < 32" "t \<notin> set (ring (thread_rings s) ?l)"
    using ok own by (simp_all add: mutex_ok_def)
  have k1: "kinv ?s1" "live ?s1 (OThread t)" using inv o(2) by simp_all
  obtain s2 where s2: "(if ?p \<noteq> th_current_priority (threads ?s1 t) then map_option snd (rt_thread_control t 2 ?p ?s1) else Some ?s1) = Some s2"
    "kinv s2" "core_step ?s1 s2" "rt_current_thread s2 = rt_current_thread ?s1" "thread_prio s2 t = unat ?p"
    "\<And>u. status s2 u = status ?s1 u" "\<And>u. u \<noteq> t \<Longrightarrow> threads s2 u = threads ?s1 u"
    "\<And>x l. wait_list x l \<Longrightarrow> ring (thread_rings s2) l = ring (thread_rings ?s1) l"
    by (rule mutex_restore [OF k1 o(3)], rule that)
  have m2: "mutexes s2 i = (mutexes s i)\<lparr>mtx_hold := 0\<rparr>" using core_step_fields(2) [OF s2(3)] hold by simp
  have ring2: "ring (thread_rings s2) ?l = ring (thread_rings s) ?l" using s2(8) [of "OMutex i" ?l] by simp
  have start: "rt_object_get_type (OMutex i) s = RT_Object_Class_Mutex" "RT_DEBUG_IN_THREAD_CONTEXT s = Some ()" "rt_thread_self s = Some t"
    using mutex_type [OF inv live] nest cur
    by (simp_all add: RT_DEBUG_IN_THREAD_CONTEXT_def RT_DEBUG_NOT_IN_INTERRUPT_def rt_interrupt_get_nest_def rt_thread_self_def)
  have h1: "mtx_hold (mutexes ?s1 i) = 0" "mtx_original_priority (mutexes ?s1 i) = ?p" using hold by simp_all
  have s2': "(if ?p \<noteq> th_current_priority (threads s t) then map_option snd (rt_thread_control t 2 ?p ?s1) else Some ?s1) = Some s2"
    using s2(1) by simp
  have rel: "rt_mutex_release i s = (case ring (thread_rings s2) ?l of
      t # _ \<Rightarrow> do {
        let s = upd_mutex i (\<lambda>m. m\<lparr>mtx_owner := Some t, mtx_original_priority := th_current_priority (threads s2 t)\<rparr>) s2;
        if mtx_hold (mutexes s i) < 0xff then do {
          let s = upd_mutex i (\<lambda>m. m\<lparr>mtx_hold := mtx_hold m + 1\<rparr>) s;
          s \<leftarrow> ipc_list_resume ?l s;
          s \<leftarrow> rt_schedule s;
          Some (RT_EOK, s)
        } else Some (- RT_EFULL, s)
      }
    | [] \<Rightarrow>
        (if mtx_value (mutexes s2 i) < 0xffff
         then Some (RT_EOK, upd_mutex i (\<lambda>m. m\<lparr>mtx_value := mtx_value m + 1, mtx_owner := None, mtx_original_priority := 0xff\<rparr>) s2)
         else Some (- RT_EFULL, s2)))"
    using start own s2' h1 by (simp add: rt_mutex_release_def Let_def)
  show thesis
  proof (cases "ring (thread_rings s) ?l")
    case Nil
    have "upd_mutex i (\<lambda>m. m\<lparr>mtx_value := mtx_value m + 1, mtx_owner := None, mtx_original_priority := 0xff\<rparr>) s2 =
        upd_mutex i (\<lambda>_. free_mutex) s2"
      using m2 o(1) by (cases "mutexes s i") (simp add: upd_mutex_def free_mutex_def)
    then have "rt_mutex_release i s = Some (RT_EOK, upd_mutex i (\<lambda>_. free_mutex) s2)"
      using rel ring2 Nil m2 o(1) by simp
    then show thesis
      using that [of "upd_mutex i (\<lambda>_. free_mutex) s2"] s2(2,5) ring2 Nil by (simp add: mutex_ok_def free_mutex_def)
  next
    case (Cons u us)
    have ut: "u \<noteq> t" using o(4) Cons by auto
    let ?m = "\<lparr>mtx_value = 0, mtx_original_priority = th_current_priority (threads s u), mtx_hold = 1, mtx_owner = Some u\<rparr>"
    let ?s3 = "upd_mutex i (\<lambda>_. ?m) s2"
    have k3: "kinv ?s3" using s2(2) by simp
    have r3: "ring (thread_rings ?s3) ?l = u # us" using ring2 Cons by simp
    have wl: "wait_list (OMutex i) ?l" by simp
    obtain s4 where s4: "ipc_list_resume ?l ?s3 = Some s4" "wakes {u} ?s3 s4" "ring (thread_rings s4) ?l = us"
      "th_error (threads s4 u) = th_error (threads ?s3 u)"
      by (rule ipc_list_resume_ok [OF k3 wl r3])
    have c4: "rt_current_thread s4 = Some t" using wakesD(3) [OF s4(2)] s2(4) cur by simp
    obtain s' where s': "rt_schedule s4 = Some s'" "schedules s4 s'" using rt_schedule_ok [OF wakesD(1) [OF s4(2)] c4] .
    have thu: "threads s2 u = threads s u" using s2(7) [OF ut] by simp
    have "upd_mutex i (\<lambda>m. m\<lparr>mtx_hold := mtx_hold m + 1\<rparr>)
        (upd_mutex i (\<lambda>m. m\<lparr>mtx_owner := Some u, mtx_original_priority := th_current_priority (threads s u)\<rparr>) s2) = ?s3"
      using m2 o(1) by (cases "mutexes s i") (simp add: upd_mutex_def)
    then have "rt_mutex_release i s = Some (RT_EOK, s')"
      using rel m2 ring2 Cons s4(1) s'(1) thu by (simp add: Let_def)
    moreover have m': "mutexes s' i = ?m"
      using schedules_fields(3) [OF s'(2)] core_step_fields(2) [OF wakesD(2) [OF s4(2)]] by simp
    moreover have ring': "ring (thread_rings s') ?l = us" using schedules_wait_list [OF s'(2) wl] s4(3) by simp
    moreover have "mutex_ok s' i"
    proof -
      have act: "active (status s u)" using waiting_suspended(1) [OF inv wl, of u] Cons by simp
      have lv: "live s' = live s" using schedulesD(8) [OF s'(2)] wakesD(11) [OF s4(2)] core_step_live [OF s2(3)] by simp
      have "u \<notin> set us" using rings_ok_distinct [OF kinvD(1) [OF inv], of ?l] Cons by simp
      then show ?thesis using m' ring' lv kinv_active(1,3) [OF inv act] by (simp add: mutex_ok_def thread_prio_def)
    qed
    moreover have "awake s' u" using awake_schedules [OF s'(2)] awake_wakes [OF s4(2)] by simp
    moreover have "th_error (threads s' u) = th_error (threads s u)"
      using schedules_fields(1) [OF s'(2), of u] s4(4) thu by simp
    moreover have "thread_prio s' t = unat ?p"
      using schedulesD(7) [OF s'(2), of t] wakesD(12) [OF s4(2), of t] s2(5) by simp
    ultimately show thesis using that [of s'] schedulesD(1) [OF s'(2)] Cons by simp
  qed
qed

text \<open>
  C6. Releasing a mutex, on every branch. A thread that is not the owner gets \<^verbatim>\<open>-RT_ERROR\<close> and the mutex
  does not change. A nested release only decrements the hold count. The last release gives the owner its
  original priority back and hands the mutex to the first waiting thread, which becomes its owner with hold
  count 1 before it runs, or frees it when no thread waits. Every branch keeps the mutex well-formed, so
  there is at most one owner at any time.
\<close>

theorem rt_mutex_release_correct:
  assumes "kinv s" "live s (OMutex i)" "rt_current_thread s = Some t" "rt_interrupt_nest s = 0" "mutex_ok s i"
  shows "\<exists>e s'. rt_mutex_release i s = Some (e, s') \<and> kinv s' \<and> mutex_ok s' i \<and>
    (if mtx_owner (mutexes s i) \<noteq> Some t then e = - RT_ERROR \<and> mutexes s' = mutexes s
     else if mtx_hold (mutexes s i) \<noteq> 1
     then e = RT_EOK \<and> mutexes s' i = (mutexes s i)\<lparr>mtx_hold := mtx_hold (mutexes s i) - 1\<rparr>
     else e = RT_EOK \<and> thread_prio s' t = unat (mtx_original_priority (mutexes s i)) \<and>
       (case ring (thread_rings s) (Suspended (OMutex i)) of
          [] \<Rightarrow> mutexes s' i = free_mutex
        | u # us \<Rightarrow> mutexes s' i = \<lparr>mtx_value = 0, mtx_original_priority = th_current_priority (threads s u),
              mtx_hold = 1, mtx_owner = Some u\<rparr> \<and> awake s' u \<and> th_error (threads s' u) = th_error (threads s u) \<and>
            ring (thread_rings s') (Suspended (OMutex i)) = us))"
proof -
  note inv = assms(1) and ok = assms(5)
  have start: "rt_object_get_type (OMutex i) s = RT_Object_Class_Mutex" "RT_DEBUG_IN_THREAD_CONTEXT s = Some ()" "rt_thread_self s = Some t"
    using mutex_type [OF inv assms(2)] assms(3,4)
    by (simp_all add: RT_DEBUG_IN_THREAD_CONTEXT_def RT_DEBUG_NOT_IN_INTERRUPT_def rt_interrupt_get_nest_def rt_thread_self_def)
  consider "mtx_owner (mutexes s i) \<noteq> Some t" | "mtx_owner (mutexes s i) = Some t" "mtx_hold (mutexes s i) \<noteq> 1"
    | "mtx_owner (mutexes s i) = Some t" "mtx_hold (mutexes s i) = 1" by blast
  then show ?thesis
  proof cases
    case 1
    let ?s = "upd_thread t (\<lambda>th. th\<lparr>th_error := - RT_ERROR\<rparr>) s"
    have "kinv ?s" by (rule kinv_upd_thread [OF inv]) simp_all
    moreover have "mutex_ok ?s i" using ok by (simp add: mutex_ok_upd_thread)
    ultimately show ?thesis using 1 start by (simp add: rt_mutex_release_def) (simp add: upd_thread_def)
  next
    case 2
    have "mtx_hold (mutexes s i) - 1 \<noteq> 0" using 2(2) by auto
    then show ?thesis using 2 start inv ok by (simp add: rt_mutex_release_def mutex_ok_def)
  next
    case 3
    show ?thesis
      by (rule rt_mutex_release_last [OF assms(1-5) 3], rule exI [of _ RT_EOK]) (use 3 in auto)
  qed
qed

theorem rt_mutex_release_correct_witness:
  "\<exists>e s'. rt_mutex_release 0 (demo 3) = Some (e, s') \<and> kinv s' \<and> mutex_ok s' 0 \<and>
    (if mtx_owner (mutexes (demo 3) 0) \<noteq> Some 1 then e = - RT_ERROR \<and> mutexes s' = mutexes (demo 3)
     else if mtx_hold (mutexes (demo 3) 0) \<noteq> 1
     then e = RT_EOK \<and> mutexes s' 0 = (mutexes (demo 3) 0)\<lparr>mtx_hold := mtx_hold (mutexes (demo 3) 0) - 1\<rparr>
     else e = RT_EOK \<and> thread_prio s' 1 = unat (mtx_original_priority (mutexes (demo 3) 0)) \<and>
       (case ring (thread_rings (demo 3)) (Suspended (OMutex 0)) of
          [] \<Rightarrow> mutexes s' 0 = free_mutex
        | u # us \<Rightarrow> mutexes s' 0 = \<lparr>mtx_value = 0, mtx_original_priority = th_current_priority (threads (demo 3) u),
              mtx_hold = 1, mtx_owner = Some u\<rparr> \<and> awake s' u \<and> th_error (threads s' u) = th_error (threads (demo 3) u) \<and>
            ring (thread_rings s') (Suspended (OMutex 0)) = us))"
  by (rule rt_mutex_release_correct) (simp_all add: demo_kinv demo_live_iff demo_live_def demo_mutex_ok)

subsection \<open>Releasing without a waiting thread does not schedule\<close>



end
