(* ===== verification/RT_Event.thy ===== *)
theory RT_Event
  imports RT_Ipc
begin

section \<open>Event sets: \<^verbatim>\<open>src/ipc.c\<close>\<close>

text \<open>
  An event object is a set of 32 flags. A thread waits for all (\<^verbatim>\<open>AND\<close>) or for any (\<^verbatim>\<open>OR\<close>) of the flags it
  names and may ask that the flags it received are cleared.
\<close>

abbreviation (input) RT_EVENT_FLAG_AND :: u8 where "RT_EVENT_FLAG_AND \<equiv> 1"
abbreviation (input) RT_EVENT_FLAG_OR :: u8 where "RT_EVENT_FLAG_OR \<equiv> 2"
abbreviation (input) RT_EVENT_FLAG_CLEAR :: u8 where "RT_EVENT_FLAG_CLEAR \<equiv> 4"

subsection \<open>Operations\<close>

definition upd_event :: "nat \<Rightarrow> (rt_event \<Rightarrow> rt_event) \<Rightarrow> kernel \<Rightarrow> kernel" where
  "upd_event i f s = s\<lparr>events := (events s)(i := f (events s i))\<rparr>"

definition rt_event_init :: "nat \<Rightarrow> u8 list \<Rightarrow> u8 \<Rightarrow> kernel \<Rightarrow> (rt_err \<times> kernel) option" where
  "rt_event_init event name flag s = do {
     RT_ASSERT (flag = RT_IPC_FLAG_FIFO \<or> flag = RT_IPC_FLAG_PRIO);
     s \<leftarrow> rt_object_init (OEvent event) RT_Object_Class_Event name s;
     let s = upd_obj (OEvent event) (\<lambda>b. b\<lparr>ob_flag := flag\<rparr>) s;
     s \<leftarrow> ipc_object_init (Suspended (OEvent event)) s;
     let s = upd_event event (\<lambda>e. e\<lparr>ev_set := 0\<rparr>) s;
     Some (RT_EOK, s)
   }"

definition rt_event_detach :: "nat \<Rightarrow> kernel \<Rightarrow> (rt_err \<times> kernel) option" where
  "rt_event_detach event s = do {
     RT_ASSERT (rt_object_get_type (OEvent event) s = RT_Object_Class_Event);
     RT_ASSERT (rt_object_is_systemobject (OEvent event) s);
     s \<leftarrow> ipc_list_resume_all (Suspended (OEvent event)) s;
     Some (RT_EOK, rt_object_detach (OEvent event) s)
   }"

definition rt_event_create :: "nat option \<Rightarrow> u8 list \<Rightarrow> u8 \<Rightarrow> kernel \<Rightarrow> (nat option \<times> kernel) option" where
  "rt_event_create mem name flag s = do {
     RT_ASSERT (flag = RT_IPC_FLAG_FIFO \<or> flag = RT_IPC_FLAG_PRIO);
     RT_DEBUG_NOT_IN_INTERRUPT s;
     (_, s) \<leftarrow> rt_object_allocate (map_option OEvent mem) RT_Object_Class_Event name s;
     (case mem of
        None \<Rightarrow> Some (None, s)
      | Some event \<Rightarrow> do {
          let s = upd_obj (OEvent event) (\<lambda>b. b\<lparr>ob_flag := flag\<rparr>) s;
          s \<leftarrow> ipc_object_init (Suspended (OEvent event)) s;
          let s = upd_event event (\<lambda>e. e\<lparr>ev_set := 0\<rparr>) s;
          Some (Some event, s)
        })
   }"

definition rt_event_delete :: "nat \<Rightarrow> kernel \<Rightarrow> (rt_err \<times> kernel) option" where
  "rt_event_delete event s = do {
     RT_ASSERT (rt_object_get_type (OEvent event) s = RT_Object_Class_Event);
     RT_ASSERT (\<not> rt_object_is_systemobject (OEvent event) s);
     RT_DEBUG_NOT_IN_INTERRUPT s;
     s \<leftarrow> ipc_list_resume_all (Suspended (OEvent event)) s;
     s \<leftarrow> rt_object_delete (OEvent event) s;
     Some (RT_EOK, s)
   }"

text \<open>
  The loop of \<open>rt_event_send\<close> over the waiting threads: the code reads the successor of a thread before
  it may resume that thread, so it visits the threads that were waiting when the loop began, in order.
  The result has the error of the early return, if there was one, and \<^verbatim>\<open>need_schedule\<close>.
\<close>

fun event_send_loop :: "nat \<Rightarrow> tid list \<Rightarrow> bool \<Rightarrow> kernel \<Rightarrow> (rt_err option \<times> bool \<times> kernel) option" where
  "event_send_loop event [] need_schedule s = Some (None, need_schedule, s)"
| "event_send_loop event (thread # ns) need_schedule s =
     (let th = threads s thread; cur = ev_set (events s event) in
      if th_event_info th AND RT_EVENT_FLAG_AND = 0 \<and> th_event_info th AND RT_EVENT_FLAG_OR = 0
      then Some (Some (- RT_EINVAL), need_schedule, s)
      else
        let hit = (if th_event_info th AND RT_EVENT_FLAG_AND \<noteq> 0 then th_event_set th AND cur = th_event_set th
                   else th_event_set th AND cur \<noteq> 0);
            s = (if th_event_info th AND RT_EVENT_FLAG_AND = 0 \<and> hit
                 then upd_thread thread (\<lambda>th. th\<lparr>th_event_set := th_event_set th AND cur\<rparr>) s else s)
        in if hit then do {
             let s = (if th_event_info th AND RT_EVENT_FLAG_CLEAR \<noteq> 0
                      then upd_event event (\<lambda>e. e\<lparr>ev_set := ev_set e AND NOT (th_event_set (threads s thread))\<rparr>) s
                      else s);
             (_, s) \<leftarrow> rt_thread_resume thread s;
             event_send_loop event ns True s
           } else event_send_loop event ns need_schedule s)"

definition rt_event_send :: "nat \<Rightarrow> u32 \<Rightarrow> kernel \<Rightarrow> (rt_err \<times> kernel) option" where
  "rt_event_send event flags s = do {
     RT_ASSERT (rt_object_get_type (OEvent event) s = RT_Object_Class_Event);
     if flags = 0 then Some (- RT_ERROR, s)
     else do {
       let s = upd_event event (\<lambda>e. e\<lparr>ev_set := ev_set e OR flags\<rparr>) s;
       (err, need_schedule, s) \<leftarrow> event_send_loop event (ring (thread_rings s) (Suspended (OEvent event))) False s;
       (case err of
          Some e \<Rightarrow> Some (e, s)
        | None \<Rightarrow> do {
            s \<leftarrow> (if need_schedule then rt_schedule s else Some s);
            Some (RT_EOK, s)
          })
     }
   }"


definition rt_event_recv_resume :: "tid \<Rightarrow> kernel \<Rightarrow> rt_err \<times> u32 option" where
  "rt_event_recv_resume thread s =
     (if th_error (threads s thread) \<noteq> RT_EOK then (th_error (threads s thread), None)
      else (th_error (threads s thread), Some (th_event_set (threads s thread))))"

definition rt_event_control :: "nat \<Rightarrow> int \<Rightarrow> kernel \<Rightarrow> (rt_err \<times> kernel) option" where
  "rt_event_control event cmd s = do {
     RT_ASSERT (rt_object_get_type (OEvent event) s = RT_Object_Class_Event);
     if cmd = RT_IPC_CMD_RESET then do {
       s \<leftarrow> ipc_list_resume_all (Suspended (OEvent event)) s;
       let s = upd_event event (\<lambda>e. e\<lparr>ev_set := 0\<rparr>) s;
       s \<leftarrow> rt_schedule s;
       Some (RT_EOK, s)
     } else Some (- RT_ERROR, s)
   }"

subsection \<open>When a waiting thread is served\<close>

lemma upd_event_fields [simp]:
  "thread_rings (upd_event i f s) = thread_rings s" "threads (upd_event i f s) = threads s" "objs (upd_event i f s) = objs s"
  "events (upd_event i f s) = (events s)(i := f (events s i))" "rt_current_thread (upd_event i f s) = rt_current_thread s"
  "kinv (upd_event i f s) = kinv s" "live (upd_event i f s) = live s" "status (upd_event i f s) = status s"
  by (simp_all add: upd_event_def)

lemma event_type: "kinv s \<Longrightarrow> live s (OEvent i) \<Longrightarrow> rt_object_get_type (OEvent i) s = RT_Object_Class_Event"
  using rt_object_get_type_live [of s "OEvent i"] by (simp add: class_of_def)

text \<open>The condition a thread waits for, and the flags it then receives.\<close>

definition event_hit :: "rt_thread \<Rightarrow> u32 \<Rightarrow> bool" where
  "event_hit th cur \<longleftrightarrow>
     (if th_event_info th AND RT_EVENT_FLAG_AND \<noteq> 0 then th_event_set th AND cur = th_event_set th
      else th_event_set th AND cur \<noteq> 0)"

definition event_got :: "rt_thread \<Rightarrow> u32 \<Rightarrow> u32" where
  "event_got th cur = (if th_event_info th AND RT_EVENT_FLAG_AND \<noteq> 0 then th_event_set th else th_event_set th AND cur)"

definition event_valid :: "rt_thread \<Rightarrow> bool" where
  "event_valid th \<longleftrightarrow> th_event_info th AND RT_EVENT_FLAG_AND \<noteq> 0 \<or> th_event_info th AND RT_EVENT_FLAG_OR \<noteq> 0"

text \<open>
  What a pass over the waiting threads should do: serve, in order, every thread whose condition holds
  for the flags that are left, and take away the flags that a thread asks to clear. The result has the
  threads served with the flags each received, and the flags left.
\<close>

fun event_scan :: "(tid \<Rightarrow> rt_thread) \<Rightarrow> tid list \<Rightarrow> u32 \<Rightarrow> (tid \<times> u32) list \<times> u32" where
  "event_scan th [] cur = ([], cur)"
| "event_scan th (t # ts) cur =
     (if event_hit (th t) cur then
        let got = event_got (th t) cur;
            (ws, c) = event_scan th ts (if th_event_info (th t) AND RT_EVENT_FLAG_CLEAR \<noteq> 0 then cur AND NOT got else cur)
        in ((t, got) # ws, c)
      else event_scan th ts cur)"

lemma event_scan_cong: "(\<And>t. t \<in> set ts \<Longrightarrow> th' t = th t) \<Longrightarrow> event_scan th' ts cur = event_scan th ts cur"
  by (induction ts arbitrary: cur) (simp_all add: split_beta)

lemma event_scan_mem: "(a, b) \<in> set (fst (event_scan th ts cur)) \<Longrightarrow> a \<in> set ts"
  by (induction ts arbitrary: cur) (auto simp: split_beta Let_def split: if_splits)

lemma events_same: "events s = E \<Longrightarrow> s\<lparr>events := E\<rparr> = s"
  by (cases s) auto

lemma wakes_events: "wakes W s s' \<Longrightarrow> wakes W (s\<lparr>events := E\<rparr>) (s'\<lparr>events := E\<rparr>)"
  unfolding wakes_def by (auto simp: core_step_def timers_shrink_def timer_flag_def live_def status_def)

text \<open>The code of one served thread.\<close>

lemma event_serve:
  assumes inv: "kinv s" and sus: "status s t = RT_THREAD_SUSPEND"
    and and_hit: "th_event_info (threads s t) AND RT_EVENT_FLAG_AND \<noteq> 0 \<Longrightarrow> got = th_event_set (threads s t)"
  defines "s1 \<equiv> (if th_event_info (threads s t) AND RT_EVENT_FLAG_AND = 0 then upd_thread t (\<lambda>th. th\<lparr>th_event_set := got\<rparr>) s else s)"
  obtains s3 where "rt_thread_resume t (s1\<lparr>events := E\<rparr>) = Some (RT_EOK, s3)" "wakes {t} (s\<lparr>events := E\<rparr>) s3"
    "events s3 = E" "th_event_set (threads s3 t) = got" "th_error (threads s3 t) = th_error (threads s t)"
proof -
  have e1: "s1 = upd_thread t (\<lambda>th. th\<lparr>th_event_set := got\<rparr>) s"
    using and_hit by (cases "th_event_info (threads s t) AND RT_EVENT_FLAG_AND = 0") (simp_all add: s1_def upd_thread_def)
  have e2: "s1\<lparr>events := E\<rparr> = upd_thread t (\<lambda>th. th\<lparr>th_event_set := got\<rparr>) (s\<lparr>events := E\<rparr>)"
    unfolding e1 by (simp add: upd_thread_def)
  have k: "kinv (s\<lparr>events := E\<rparr>)" "status (s\<lparr>events := E\<rparr>) t = RT_THREAD_SUSPEND" using inv sus by simp_all
  have k2: "kinv (s1\<lparr>events := E\<rparr>)" unfolding e2 by (rule kinv_upd_thread [OF k(1)]) simp_all
  have sus2: "status (s1\<lparr>events := E\<rparr>) t = RT_THREAD_SUSPEND" using sus by (simp add: e1) (simp add: upd_thread_def status_def)
  obtain s3 where s3: "rt_thread_resume t (s1\<lparr>events := E\<rparr>) = Some (RT_EOK, s3)" "wakes {t} (s1\<lparr>events := E\<rparr>) s3"
    "th_error (threads s3 t) = th_error (threads (s1\<lparr>events := E\<rparr>) t)"
    "th_event_set (threads s3 t) = th_event_set (threads (s1\<lparr>events := E\<rparr>) t)"
    by (rule wakes_resume [OF k2 sus2])
  have "wakes {t} (s\<lparr>events := E\<rparr>) s3" by (rule wakes_set_event [OF k, of got]) (use s3(2) e2 in simp)
  moreover have "events s3 = E" using core_step_fields(3) [OF wakesD(2) [OF s3(2)]] by simp
  ultimately show thesis using that [OF s3(1)] s3(3,4) by (simp add: e1 upd_thread_def)
qed

lemma event_clear_state:
  fixes s t i
  defines "th \<equiv> threads s t" and "got \<equiv> event_got (threads s t) (ev_set (events s i))"
  defines "s1 \<equiv> (if th_event_info th AND RT_EVENT_FLAG_AND = 0 then upd_thread t (\<lambda>th. th\<lparr>th_event_set := got\<rparr>) s else s)"
  shows "(let s = s1 in if th_event_info th AND RT_EVENT_FLAG_CLEAR \<noteq> 0
      then upd_event i (\<lambda>e. e\<lparr>ev_set := ev_set e AND NOT (th_event_set (threads s t))\<rparr>) s else s) =
    s1\<lparr>events := (events s)(i := \<lparr>ev_set =
      if th_event_info th AND RT_EVENT_FLAG_CLEAR \<noteq> 0 then ev_set (events s i) AND NOT got else ev_set (events s i)\<rparr>)\<rparr>"
proof -
  have s1: "th_event_set (threads s1 t) = got" "events s1 = events s"
    by (simp_all add: s1_def got_def event_got_def th_def upd_thread_def)
  have same: "(events s)(i := \<lparr>ev_set = ev_set (events s i)\<rparr>) = events s" by (cases "events s i") auto
  show ?thesis
    by (cases "events s i") (use s1 same events_same [of s1] in \<open>auto simp: upd_event_def Let_def\<close>)
qed

text \<open>The loop of \<open>rt_event_send\<close> serves exactly the threads of the specification.\<close>

lemma event_send_loop_ok:
  "kinv s \<Longrightarrow> distinct ts \<Longrightarrow> (\<And>t. t \<in> set ts \<Longrightarrow> status s t = RT_THREAD_SUSPEND \<and> event_valid (threads s t)) \<Longrightarrow>
   event_scan (threads s) ts (ev_set (events s i)) = (ws, c) \<Longrightarrow>
   \<exists>s'. event_send_loop i ts b s = Some (None, b \<or> ws \<noteq> [], s') \<and>
     wakes (fst ` set ws) (s\<lparr>events := (events s)(i := \<lparr>ev_set = c\<rparr>)\<rparr>) s' \<and>
     (\<forall>(t, got)\<in>set ws. th_event_set (threads s' t) = got \<and> th_error (threads s' t) = th_error (threads s t))"
proof (induction ts arbitrary: s b ws)
  case Nil
  have "events s = (events s)(i := \<lparr>ev_set = c\<rparr>)" using Nil.prems(4) by (cases "events s i") (auto simp: fun_eq_iff)
  then have same: "s\<lparr>events := (events s)(i := \<lparr>ev_set = c\<rparr>)\<rparr> = s" by (rule events_same)
  have "ws = []" using Nil.prems(4) by simp
  then show ?case unfolding same using wakes_refl [OF Nil.prems(1)] by simp
next
  case (Cons t ts)
  note inv = Cons.prems(1)
  let ?th = "threads s t" and ?cur = "ev_set (events s i)"
  have st: "status s t = RT_THREAD_SUSPEND" "event_valid ?th" using Cons.prems(3) by auto
  have guard: "\<not> (th_event_info ?th AND RT_EVENT_FLAG_AND = 0 \<and> th_event_info ?th AND RT_EVENT_FLAG_OR = 0)"
    using st(2) by (auto simp: event_valid_def)
  show ?case
  proof (cases "event_hit ?th ?cur")
    case False
    then have "event_send_loop i (t # ts) b s = event_send_loop i ts b s"
      using guard by (auto simp: Let_def event_hit_def)
    then show ?thesis using Cons.IH [OF inv] Cons.prems False by simp
  next
    case True
    let ?got = "event_got ?th ?cur"
    let ?c1 = "if th_event_info ?th AND RT_EVENT_FLAG_CLEAR \<noteq> 0 then ?cur AND NOT ?got else ?cur"
    let ?E = "(events s)(i := \<lparr>ev_set = ?c1\<rparr>)"
    obtain ws' where ws: "event_scan (threads s) ts ?c1 = (ws', c)" "ws = (t, ?got) # ws'"
      using Cons.prems(4) True by (auto simp: Let_def split: prod.splits)
    let ?s1 = "if th_event_info ?th AND RT_EVENT_FLAG_AND = 0 then upd_thread t (\<lambda>th. th\<lparr>th_event_set := ?got\<rparr>) s else s"
    obtain s3 where s3: "rt_thread_resume t (?s1\<lparr>events := ?E\<rparr>) = Some (RT_EOK, s3)" "wakes {t} (s\<lparr>events := ?E\<rparr>) s3"
      "events s3 = ?E" "th_event_set (threads s3 t) = ?got" "th_error (threads s3 t) = th_error ?th"
      by (rule event_serve [OF inv st(1), of ?got ?E]) (simp add: event_got_def, rule that)
    have tn: "t \<notin> set ts" using Cons.prems(2) by simp
    have same: "threads s3 u = threads s u" "status s3 u = status s u" if "u \<in> set ts" for u
      using wakesD(6,8) [OF s3(2), of u] that tn by auto
    have scan: "event_scan (threads s3) ts (ev_set (events s3 i)) = (ws', c)"
      using event_scan_cong [of ts "threads s3" "threads s"] same ws(1) s3(3) by simp
    have pre: "distinct ts" "\<And>u. u \<in> set ts \<Longrightarrow> status s3 u = RT_THREAD_SUSPEND \<and> event_valid (threads s3 u)"
      using Cons.prems(2,3) same by auto
    obtain s' where s': "event_send_loop i ts True s3 = Some (None, True \<or> ws' \<noteq> [], s')"
      "wakes (fst ` set ws') (s3\<lparr>events := (events s3)(i := \<lparr>ev_set = c\<rparr>)\<rparr>) s'"
      "\<forall>(u, got)\<in>set ws'. th_event_set (threads s' u) = got \<and> th_error (threads s' u) = th_error (threads s3 u)"
      using Cons.IH [OF wakesD(1) [OF s3(2)] pre scan, of True] by blast
    have s1: "(if th_event_info ?th AND RT_EVENT_FLAG_AND = 0
        then upd_thread t (\<lambda>th. th\<lparr>th_event_set := th_event_set th AND ?cur\<rparr>) s else s) = ?s1"
      by (simp add: upd_thread_def event_got_def)
    have clear: "(if th_event_info ?th AND RT_EVENT_FLAG_CLEAR \<noteq> 0
        then upd_event i (\<lambda>e. e\<lparr>ev_set := ev_set e AND NOT (th_event_set (threads ?s1 t))\<rparr>) ?s1 else ?s1) = ?s1\<lparr>events := ?E\<rparr>"
      using event_clear_state [of s t i] by (simp only: Let_def)
    have "event_send_loop i (t # ts) b s =
        Option.bind (rt_thread_resume t (?s1\<lparr>events := ?E\<rparr>)) (\<lambda>(_, s). event_send_loop i ts True s)"
      by (simp only: event_send_loop.simps Let_def guard if_False event_hit_def [symmetric] True simp_thms if_True s1 clear)
    then have "event_send_loop i (t # ts) b s = event_send_loop i ts True s3"
      unfolding s3(1) by simp
    then have "event_send_loop i (t # ts) b s = Some (None, b \<or> ws \<noteq> [], s')"
      using s'(1) ws(2) by (simp del: event_send_loop.simps)
    moreover have "wakes (fst ` set ws) (s\<lparr>events := (events s)(i := \<lparr>ev_set = c\<rparr>)\<rparr>) s'"
      using wakes_trans [OF wakes_events [OF s3(2), of "(events s)(i := \<lparr>ev_set = c\<rparr>)"], of "fst ` set ws'" s'] s'(2) s3(3) ws(2)
      by simp
    moreover have "t \<notin> fst ` set ws'"
      using event_scan_mem [of t _ "threads s" ts ?c1] ws(1) tn by auto
    then have "\<forall>(u, got)\<in>set ws. th_event_set (threads s' u) = got \<and> th_error (threads s' u) = th_error (threads s u)"
      using s'(3) s3(4,5) ws wakesD(6) [OF s'(2), of t] same event_scan_mem [of _ _ "threads s" ts ?c1] by fastforce
    ultimately show ?thesis by blast
  qed
qed

subsection \<open>No thread waits for flags that are set\<close>

definition flags_le :: "u32 \<Rightarrow> u32 \<Rightarrow> bool" where
  "flags_le a b \<longleftrightarrow> (\<forall>n. bit a n \<longrightarrow> bit b n)"

lemma event_hit_mono: "flags_le c cur \<Longrightarrow> event_hit th c \<Longrightarrow> event_hit th cur"
  by (auto simp: event_hit_def flags_le_def bit_eq_iff bit_simps split: if_splits)

lemma event_scan_le: "event_scan th ts cur = (ws, c) \<Longrightarrow> flags_le c cur"
proof (induction ts arbitrary: cur ws)
  case (Cons t ts)
  let ?c1 = "if th_event_info (th t) AND RT_EVENT_FLAG_CLEAR \<noteq> 0 then cur AND NOT (event_got (th t) cur) else cur"
  have le: "flags_le ?c1 cur" by (simp add: flags_le_def bit_simps)
  show ?case
  proof (cases "event_hit (th t) cur")
    case True
    then obtain ws' where "event_scan th ts ?c1 = (ws', c)" using Cons.prems by (auto simp: Let_def split: prod.splits)
    then show ?thesis using Cons.IH le unfolding flags_le_def by blast
  qed (use Cons in simp)
qed (simp add: flags_le_def)

lemma event_scan_rest:
  "event_scan th ts cur = (ws, c) \<Longrightarrow> distinct ts \<Longrightarrow> t \<in> set ts \<Longrightarrow> t \<notin> fst ` set ws \<Longrightarrow> \<not> event_hit (th t) c"
proof (induction ts arbitrary: cur ws)
  case (Cons u ts)
  show ?case
  proof (cases "event_hit (th u) cur")
    case True
    let ?c1 = "if th_event_info (th u) AND RT_EVENT_FLAG_CLEAR \<noteq> 0 then cur AND NOT (event_got (th u) cur) else cur"
    obtain ws' where ws': "event_scan th ts ?c1 = (ws', c)" "ws = (u, event_got (th u) cur) # ws'"
      using Cons.prems(1) True by (auto simp: Let_def split: prod.splits)
    then show ?thesis using Cons.IH [OF ws'(1)] Cons.prems by auto
  next
    case False
    then have scan: "event_scan th ts cur = (ws, c)" using Cons.prems(1) by simp
    show ?thesis
    proof (cases "t = u")
      case True
      then show ?thesis using False event_hit_mono [OF event_scan_le [OF scan]] by blast
    next
      case ne: False
      then show ?thesis using Cons.IH [OF scan] Cons.prems by auto
    qed
  qed
qed simp

text \<open>The invariant of an event set: every waiting thread waits for something that has not happened.\<close>

definition event_ok :: "kernel \<Rightarrow> nat \<Rightarrow> bool" where
  "event_ok s i \<longleftrightarrow> (\<forall>t\<in>set (ring (thread_rings s) (Suspended (OEvent i))).
     event_valid (threads s t) \<and> \<not> event_hit (threads s t) (ev_set (events s i)))"


lemma flags_le_refl [simp]: "flags_le a a" "flags_le (a AND b) a"
  by (simp_all add: flags_le_def bit_simps)

lemma wakes_ring_filter:
  "wakes W s s' \<Longrightarrow> ring (thread_rings s') (Suspended x) = filter (\<lambda>u. u \<notin> W) (ring (thread_rings s) (Suspended x))"
  using wakesD(10) [of W s s' x "Suspended x"] by simp

lemma event_send_core:
  assumes inv: "kinv s" and live: "live s (OEvent i)" and cur: "rt_current_thread s \<noteq> None" and ok: "event_ok s i"
    and flags: "flags \<noteq> 0"
    and scan: "event_scan (threads s) (ring (thread_rings s) (Suspended (OEvent i))) (ev_set (events s i) OR flags) = (ws, c)"
  obtains s1 s' where "rt_event_send i flags s = Some (RT_EOK, s')"
    "wakes (fst ` set ws) (s\<lparr>events := (events s)(i := \<lparr>ev_set = c\<rparr>)\<rparr>) s1" "s' = s1 \<or> schedules s1 s'"
    "\<forall>(t, got)\<in>set ws. th_event_set (threads s1 t) = got \<and> th_error (threads s1 t) = th_error (threads s t)"
proof -
  let ?l = "Suspended (OEvent i)" and ?s1 = "upd_event i (\<lambda>e. e\<lparr>ev_set := ev_set e OR flags\<rparr>) s"
  let ?ts = "ring (thread_rings s) (Suspended (OEvent i))"
  have k1: "kinv ?s1" using inv by simp
  have dist: "distinct ?ts" using rings_ok_distinct [OF kinvD(1) [OF inv]] .
  have pre: "status ?s1 t = RT_THREAD_SUSPEND \<and> event_valid (threads ?s1 t)" if "t \<in> set ?ts" for t
    using waiting_suspended(1) [OF inv _ that, of "OEvent i"] ok that by (simp add: event_ok_def)
  have scan1: "event_scan (threads ?s1) ?ts (ev_set (events ?s1 i)) = (ws, c)" using scan by simp
  obtain s2 where s2: "event_send_loop i ?ts False ?s1 = Some (None, ws \<noteq> [], s2)"
    "wakes (fst ` set ws) (?s1\<lparr>events := (events ?s1)(i := \<lparr>ev_set = c\<rparr>)\<rparr>) s2"
    "\<forall>(t, got)\<in>set ws. th_event_set (threads s2 t) = got \<and> th_error (threads s2 t) = th_error (threads ?s1 t)"
    using event_send_loop_ok [OF k1 dist pre scan1, of False] by auto
  have eq: "?s1\<lparr>events := (events ?s1)(i := \<lparr>ev_set = c\<rparr>)\<rparr> = s\<lparr>events := (events s)(i := \<lparr>ev_set = c\<rparr>)\<rparr>"
    by (simp add: upd_event_def)
  have c2: "rt_current_thread s2 \<noteq> None" using wakesD(3) [OF s2(2)] cur by simp
  obtain s' where s': "(if ws \<noteq> [] then rt_schedule s2 else Some s2) = Some s'" "s' = s2 \<or> schedules s2 s'"
  proof (cases "ws = []")
    case False
    obtain c where "rt_current_thread s2 = Some c" using c2 by auto
    then show thesis using rt_schedule_ok [OF wakesD(1) [OF s2(2)]] that False by metis
  qed (use that in simp)
  have "rt_event_send i flags s = Some (RT_EOK, s')"
    using event_type [OF inv live] flags s2(1) s'(1) by (simp add: rt_event_send_def)
  then show thesis using that [of s' s2] s2(2,3) s'(2) unfolding eq by simp
qed

text \<open>
  C7. Sending events serves exactly the right threads: the call sets the flags and serves, in the order of
  the list, each waiting thread whose \<^verbatim>\<open>AND\<close> or \<^verbatim>\<open>OR\<close> condition holds for the flags that are left when its turn comes (the
  specification \<open>event_scan\<close>), hands it the flags it waited for and clears them if it asked for that. The
  served threads can run again and their pending receive returns those flags; the others wait on in the same
  order, and none of them waits for a condition that now holds.
\<close>

theorem rt_event_send_correct:
  assumes "kinv s" "live s (OEvent i)" "rt_current_thread s \<noteq> None" "event_ok s i" "flags \<noteq> 0"
    "event_scan (threads s) (ring (thread_rings s) (Suspended (OEvent i))) (ev_set (events s i) OR flags) = (ws, c)"
  shows "\<exists>s'. rt_event_send i flags s = Some (RT_EOK, s') \<and> kinv s' \<and> ev_set (events s' i) = c \<and> event_ok s' i \<and>
    ring (thread_rings s') (Suspended (OEvent i)) =
      filter (\<lambda>t. t \<notin> fst ` set ws) (ring (thread_rings s) (Suspended (OEvent i))) \<and>
    (\<forall>(t, got)\<in>set ws. awake s' t \<and>
       (th_error (threads s t) = RT_EOK \<longrightarrow> rt_event_recv_resume t s' = (RT_EOK, Some got)))"
proof -
  let ?l = "Suspended (OEvent i)" and ?s0 = "s\<lparr>events := (events s)(i := \<lparr>ev_set = c\<rparr>)\<rparr>"
  obtain s1 s' where s': "rt_event_send i flags s = Some (RT_EOK, s')" "wakes (fst ` set ws) ?s0 s1" "s' = s1 \<or> schedules s1 s'"
    "\<forall>(t, got)\<in>set ws. th_event_set (threads s1 t) = got \<and> th_error (threads s1 t) = th_error (threads s t)"
    by (rule event_send_core [OF assms])
  have k: "kinv s'" using s'(3) wakesD(1) [OF s'(2)] schedulesD(1) by auto
  have ev: "events s' = (events s)(i := \<lparr>ev_set = c\<rparr>)"
    using s'(3) core_step_fields(3) [OF wakesD(2) [OF s'(2)]] schedules_fields(4) by auto
  have ring: "ring (thread_rings s') ?l = filter (\<lambda>t. t \<notin> fst ` set ws) (ring (thread_rings s) ?l)"
    using s'(3) wakes_ring_filter [OF s'(2), of "OEvent i"] schedules_wait_list [of s1 s' "OEvent i" ?l] by auto
  have fields: "th_error (threads s' t) = th_error (threads s1 t)" "th_event_set (threads s' t) = th_event_set (threads s1 t)"
    "awake s' t = awake s1 t" for t
    using s'(3) schedules_fields(1,9) awake_schedules by auto
  have same: "threads s' t = threads s t" if "t \<in> set (ring (thread_rings s') ?l)" for t
  proof -
    have t: "t \<notin> fst ` set ws" "t \<in> set (ring (thread_rings s) ?l)" using that ring by auto
    have "status s1 t = RT_THREAD_SUSPEND"
      using wakesD(8) [OF s'(2) t(1)] waiting_suspended(1) [OF assms(1) _ t(2), of "OEvent i"] by simp
    then have "threads s' t = threads s1 t" using s'(3) schedulesD(9) [of s1 s' t] by auto
    then show ?thesis using wakesD(6) [OF s'(2) t(1)] by simp
  qed
  have "event_ok s' i"
    unfolding event_ok_def
  proof
    fix t assume t: "t \<in> set (ring (thread_rings s') ?l)"
    then have m: "t \<notin> fst ` set ws" "t \<in> set (ring (thread_rings s) ?l)" using ring by auto
    have "\<not> event_hit (threads s t) c"
      by (rule event_scan_rest [OF assms(6) rings_ok_distinct [OF kinvD(1) [OF assms(1)]] m(2,1)])
    then show "event_valid (threads s' t) \<and> \<not> event_hit (threads s' t) (ev_set (events s' i))"
      unfolding same [OF t] ev using assms(4) m(2) by (simp add: event_ok_def)
  qed
  moreover have "awake s' t \<and> (th_error (threads s t) = RT_EOK \<longrightarrow> rt_event_recv_resume t s' = (RT_EOK, Some got))"
    if "(t, got) \<in> set ws" for t got
  proof -
    have "awake s1 t" using awake_wakes [OF s'(2), of t] that by (auto intro: rev_image_eqI)
    moreover have "th_event_set (threads s' t) = got" "th_error (threads s' t) = th_error (threads s t)"
      using s'(4) that fields by auto
    ultimately show ?thesis using fields(3) by (simp add: rt_event_recv_resume_def)
  qed
  ultimately show ?thesis using s'(1) k ev ring by (intro exI [of _ s']) auto
qed

lemma demo_event_ok: "event_ok (demo st) 0"
  by (simp add: event_ok_def)

theorem rt_event_send_correct_witness:
  "\<exists>s'. rt_event_send 0 6 (demo 3) = Some (RT_EOK, s') \<and> kinv s' \<and> ev_set (events s' 0) = 6 \<and> event_ok s' 0 \<and>
    ring (thread_rings s') (Suspended (OEvent 0)) =
      filter (\<lambda>t. t \<notin> fst ` set ([] :: (tid \<times> u32) list)) (ring (thread_rings (demo 3)) (Suspended (OEvent 0))) \<and>
    (\<forall>(t, got)\<in>set ([] :: (tid \<times> u32) list). awake s' t \<and>
       (th_error (threads (demo 3) t) = RT_EOK \<longrightarrow> rt_event_recv_resume t s' = (RT_EOK, Some got)))"
  by (rule rt_event_send_correct)
    (simp_all add: demo_kinv demo_live_iff demo_live_def demo_event_ok zero_event_def)

subsection \<open>Receiving\<close>



end
