(* ===== verification/RT_Buffer.thy ===== *)
theory RT_Buffer
  imports RT_Ipc
begin

section \<open>The contract of a bounded message buffer\<close>

text \<open>
  What mailboxes and message queues have in common: serving the first thread of a waiting list, and
  the contract their users rely on. The contract is a locale over the three operations that do not
  wait; its laws say how each acts on the sequence of messages in the buffer, and the lemmas about
  whole runs are proved from the laws alone. It is interpreted on the operations of mailboxes
  and of message queues in their theories.
\<close>

subsection \<open>Serving one waiting thread\<close>

text \<open>
  The effect of waking the first thread of list \<open>l\<close>, if there is one, and scheduling: nothing but the state of
  that thread and the choice of the running thread changes.
\<close>

definition serves :: "thread_list \<Rightarrow> kernel \<Rightarrow> kernel \<Rightarrow> bool" where
  "serves l s s' \<longleftrightarrow> kinv s' \<and> core_step s s' \<and> (rt_current_thread s \<noteq> None \<longrightarrow> rt_current_thread s' \<noteq> None) \<and>
     ring (thread_rings s') l = tl (ring (thread_rings s) l) \<and>
     (\<forall>x m. wait_list x m \<and> m \<noteq> l \<longrightarrow> ring (thread_rings s') m = ring (thread_rings s) m) \<and>
     (\<forall>u. th_error (threads s' u) = th_error (threads s u)) \<and> (\<forall>u. awake s u \<longrightarrow> awake s' u) \<and>
     (\<forall>t\<in>set (take 1 (ring (thread_rings s) l)). awake s' t)"

lemma servesD:
  assumes "serves l s s'"
  shows "kinv s'" "core_step s s'" "rt_current_thread s \<noteq> None \<Longrightarrow> rt_current_thread s' \<noteq> None"
    "ring (thread_rings s') l = tl (ring (thread_rings s) l)"
    "wait_list x m \<Longrightarrow> m \<noteq> l \<Longrightarrow> ring (thread_rings s') m = ring (thread_rings s) m"
    "th_error (threads s' u) = th_error (threads s u)" "awake s u \<Longrightarrow> awake s' u"
    "ring (thread_rings s) l = t # ts \<Longrightarrow> awake s' t" "live s' = live s"
  using assms core_step_live by (auto simp: serves_def)

lemma serves_none: "kinv s \<Longrightarrow> ring (thread_rings s) l = [] \<Longrightarrow> serves l s s"
  by (simp add: serves_def)

lemma serves_first:
  assumes inv: "kinv s" and x: "wait_list x l" and cur: "rt_current_thread s \<noteq> None" and ring: "ring (thread_rings s) l = t # ts"
  obtains s1 s' where "ipc_list_resume l s = Some s1" "rt_schedule s1 = Some s'" "serves l s s'"
proof -
  obtain s1 where s1: "ipc_list_resume l s = Some s1" "wakes {t} s s1" "ring (thread_rings s1) l = ts"
    "th_error (threads s1 t) = th_error (threads s t)"
    by (rule ipc_list_resume_ok [OF inv x ring], rule that)
  obtain c where c: "rt_current_thread s1 = Some c" using cur wakesD(3) [OF s1(2)] by auto
  obtain s' where s': "rt_schedule s1 = Some s'" "schedules s1 s'" using rt_schedule_ok [OF wakesD(1) [OF s1(2)] c] .
  have err: "th_error (threads s' u) = th_error (threads s u)" for u
    using schedules_fields(1) [OF s'(2)] wakesD(6) [OF s1(2), of u] s1(4) by (cases "u = t") simp_all
  have other: "ring (thread_rings s') m = ring (thread_rings s) m" if m: "wait_list y m" "m \<noteq> l" for y m
  proof -
    have "t \<notin> set (ring (thread_rings s) m)"
      using rings_ok_unique [OF kinvD(1) [OF inv], of t l m] ring m(2) by auto
    then show ?thesis
      using wakesD(10) [OF s1(2) m(1)] schedules_wait_list [OF s'(2) m(1)] by (auto simp: filter_id_conv)
  qed
  have "serves l s s'"
    unfolding serves_def
    using schedulesD(1,4) [OF s'(2)] core_step_trans [OF wakesD(2) [OF s1(2)] schedulesD(3) [OF s'(2)]]
      schedules_wait_list [OF s'(2) x] s1(3) ring other err awake_wakes [OF s1(2)] awake_schedules [OF s'(2)]
    by auto
  then show thesis using that s1(1) s'(1) by blast
qed

text \<open>The conditional wake-up at the end of every operation on a buffer.\<close>

lemma wake_if_waiting:
  assumes inv: "kinv s" and x: "wait_list x l" and cur: "rt_current_thread s \<noteq> None"
  shows "\<exists>s'. (if ring (thread_rings s) l \<noteq> [] then do { s \<leftarrow> ipc_list_resume l s; s \<leftarrow> rt_schedule s; Some (f s) }
      else Some (f s)) = Some (f s') \<and> serves l s s'"
proof (cases "ring (thread_rings s) l")
  case Nil
  then show ?thesis using serves_none [OF inv] by auto
next
  case (Cons t ts)
  obtain s1 s' where "ipc_list_resume l s = Some s1" "rt_schedule s1 = Some s'" "serves l s s'"
    by (rule serves_first [OF inv x cur Cons], rule that)
  then show ?thesis using Cons by auto
qed

text \<open>A call that has to wait for room or for a message.\<close>

lemma buffer_blocks:
  assumes inv: "kinv s" and live: "live s x" and flag: "ipc_flag_ok s x"
    and cur: "rt_current_thread s = Some t" and run: "status s t = RT_THREAD_RUNNING" and lock: "rt_scheduler_lock_nest s = 0"
    and time: "time < 0x7fffffff" and x: "is_ipc x" and l: "wait_list x l"
  obtains s2 s' where
    "ipc_wait l t (ob_flag (objs s x)) time (upd_thread t (\<lambda>th. th\<lparr>th_error := RT_EOK\<rparr>) s) = Some s2"
    "rt_schedule s2 = Some s'" "blocked l (ob_flag (objs s x)) t time s s'"
    "mailboxes s' = mailboxes s" "msgqueues s' = msgqueues s"
proof -
  let ?g = "\<lambda>th. th\<lparr>th_error := RT_EOK\<rparr> :: rt_thread"
  obtain s2 s' where s': "ipc_wait l t (ob_flag (objs s x)) time (upd_thread t ?g s) = Some s2"
    "rt_schedule s2 = Some s'" "blocked l (ob_flag (objs s x)) t time s s'"
    by (rule ipc_block [OF inv cur run lock l live x flag time, of ?g]) auto
  then show thesis using that core_step_fields(4,5) [OF blockedD(2)] by blast
qed

lemma upd_thread_call [simp]: "objs (upd_thread t g s) = objs s" "rt_tick_get (upd_thread t g s) = rt_tick_get s"
  by (simp_all add: upd_thread_def rt_tick_get_def)

text \<open>The local variables of a call that starts to wait now.\<close>

definition wait_state :: "tid \<Rightarrow> int \<Rightarrow> kernel \<Rightarrow> wait_locals" where
  "wait_state t time s = \<lparr>wl_thread = t, wl_timeout = time, wl_tick_delta = (if time > 0 then rt_tick_get s else 0)\<rparr>"

text \<open>A call that returns at once; a call that would wait has no result here.\<close>

fun at_once :: "('k call \<times> kernel) option \<Rightarrow> (rt_err \<times> kernel) option" where
  "at_once (Some (Return e, s)) = Some (e, s)"
| "at_once _ = None"

fun at_once_with :: "('k call \<times> 'v option \<times> kernel) option \<Rightarrow> (rt_err \<times> 'v option \<times> kernel) option" where
  "at_once_with (Some (Return e, v, s)) = Some (e, v, s)"
| "at_once_with _ = None"

subsection \<open>Operations and their specification\<close>

datatype 'm buf_op = Send 'm | Urgent 'm | Recv

text \<open>The abstract buffer is the list of its messages, oldest first, with room for \<open>cap\<close> of them.\<close>

fun buf_spec :: "nat \<Rightarrow> 'm buf_op \<Rightarrow> 'm list \<Rightarrow> (rt_err \<times> 'm option) \<times> 'm list" where
  "buf_spec cap (Send v) q = (if length q < cap then ((RT_EOK, None), q @ [v]) else ((- RT_EFULL, None), q))"
| "buf_spec cap (Urgent v) q = (if length q < cap then ((RT_EOK, None), v # q) else ((- RT_EFULL, None), q))"
| "buf_spec cap Recv [] = ((- RT_ETIMEOUT, None), [])"
| "buf_spec cap Recv (v # q) = ((RT_EOK, Some v), q)"

fun buf_run :: "nat \<Rightarrow> 'm buf_op list \<Rightarrow> 'm list \<Rightarrow> (rt_err \<times> 'm option) list \<times> 'm list" where
  "buf_run cap [] q = ([], q)"
| "buf_run cap (p # ps) q =
     (let (r, q) = buf_spec cap p q; (rs, q) = buf_run cap ps q in (r # rs, q))"

fun buf_step ::
  "('m \<Rightarrow> 's \<Rightarrow> (rt_err \<times> 's) option) \<Rightarrow> ('m \<Rightarrow> 's \<Rightarrow> (rt_err \<times> 's) option) \<Rightarrow>
   ('s \<Rightarrow> (rt_err \<times> 'm option \<times> 's) option) \<Rightarrow> 'm buf_op \<Rightarrow> 's \<Rightarrow> ((rt_err \<times> 'm option) \<times> 's) option" where
  "buf_step send urgent recv (Send v) s = map_option (\<lambda>(e, s). ((e, None), s)) (send v s)"
| "buf_step send urgent recv (Urgent v) s = map_option (\<lambda>(e, s). ((e, None), s)) (urgent v s)"
| "buf_step send urgent recv Recv s = map_option (\<lambda>(e, v, s). ((e, v), s)) (recv s)"

text \<open>A run: operations one after the other, with the list of their results.\<close>

fun run_ops :: "('o \<Rightarrow> 's \<Rightarrow> ('r \<times> 's) option) \<Rightarrow> 'o list \<Rightarrow> 's \<Rightarrow> ('r list \<times> 's) option" where
  "run_ops step [] s = Some ([], s)"
| "run_ops step (p # ps) s = do {
     (r, s) \<leftarrow> step p s;
     (rs, s) \<leftarrow> run_ops step ps s;
     Some (r # rs, s)
   }"

text \<open>The messages that were accepted and the messages that were delivered in a run.\<close>

fun accepted :: "'m buf_op list \<Rightarrow> (rt_err \<times> 'm option) list \<Rightarrow> 'm list" where
  "accepted (Send v # ps) ((e, _) # rs) = (if e = RT_EOK then v # accepted ps rs else accepted ps rs)"
| "accepted (_ # ps) (_ # rs) = accepted ps rs"
| "accepted _ _ = []"

definition delivered :: "(rt_err \<times> 'm option) list \<Rightarrow> 'm list" where
  "delivered rs = List.map_filter snd rs"

lemma delivered_simps [simp]:
  "delivered [] = []" "delivered ((e, None) # rs) = delivered rs" "delivered ((e, Some v) # rs) = v # delivered rs"
  by (simp_all add: delivered_def List.map_filter_def)

definition is_urgent :: "'m buf_op \<Rightarrow> bool" where
  "is_urgent p \<longleftrightarrow> (case p of Urgent v \<Rightarrow> True | _ \<Rightarrow> False)"

text \<open>First in, first out, for the specification.\<close>

lemma buf_run_fifo:
  "\<forall>p\<in>set ps. \<not> is_urgent p \<Longrightarrow> buf_run cap ps q = (rs, q') \<Longrightarrow> delivered rs @ q' = q @ accepted ps rs"
proof (induction ps arbitrary: q rs)
  case (Cons p ps)
  obtain r q1 rs1 where step: "buf_spec cap p q = (r, q1)" "buf_run cap ps q1 = (rs1, q')" "rs = r # rs1"
    using Cons.prems(2) by (auto simp: split_beta prod_eq_iff)
  have IH: "delivered rs1 @ q' = q1 @ accepted ps rs1" using Cons.IH [OF _ step(2)] Cons.prems(1) by simp
  show ?case
    using step(1) IH unfolding step(3)
    by (cases "(cap, p, q)" rule: buf_spec.cases) (use Cons.prems(1) in \<open>auto simp: is_urgent_def split: if_splits\<close>)
qed simp

lemma buf_spec_bound: "length q \<le> cap \<Longrightarrow> length (snd (buf_spec cap p q)) \<le> cap"
  by (cases "(cap, p, q)" rule: buf_spec.cases) auto

lemma buf_run_bound: "length q \<le> cap \<Longrightarrow> length (snd (buf_run cap ps q)) \<le> cap"
proof (induction ps arbitrary: q)
  case (Cons p ps)
  then show ?case using buf_spec_bound [OF Cons.prems, of p] by (auto simp: split_beta)
qed simp

text \<open>The messages of an operation are acceptable.\<close>

definition op_fits :: "('m \<Rightarrow> bool) \<Rightarrow> 'm buf_op \<Rightarrow> bool" where
  "op_fits P p \<longleftrightarrow> (case p of Recv \<Rightarrow> True | Send v \<Rightarrow> P v | Urgent v \<Rightarrow> P v)"

lemma op_fits_True [simp]: "op_fits (\<lambda>_. True) p"
  by (cases p) (simp_all add: op_fits_def)

subsection \<open>The contract\<close>

locale bounded_queue =
  fixes inv :: "'s \<Rightarrow> bool" and contents :: "'s \<Rightarrow> 'm list" and room :: "'s \<Rightarrow> nat" and fits :: "'s \<Rightarrow> 'm \<Rightarrow> bool"
    and send urgent :: "'m \<Rightarrow> 's \<Rightarrow> (rt_err \<times> 's) option" and recv :: "'s \<Rightarrow> (rt_err \<times> 'm option \<times> 's) option"
  assumes bound: "inv s \<Longrightarrow> length (contents s) \<le> room s"
    and send_ok: "inv s \<Longrightarrow> fits s v \<Longrightarrow>
      \<exists>e s'. send v s = Some (e, s') \<and> inv s' \<and> room s' = room s \<and> fits s' = fits s \<and>
        ((e, None), contents s') = buf_spec (room s) (Send v) (contents s)"
    and urgent_ok: "inv s \<Longrightarrow> fits s v \<Longrightarrow>
      \<exists>e s'. urgent v s = Some (e, s') \<and> inv s' \<and> room s' = room s \<and> fits s' = fits s \<and>
        ((e, None), contents s') = buf_spec (room s) (Urgent v) (contents s)"
    and recv_ok: "inv s \<Longrightarrow>
      \<exists>e v s'. recv s = Some (e, v, s') \<and> inv s' \<and> room s' = room s \<and> fits s' = fits s \<and>
        ((e, v), contents s') = buf_spec (room s) Recv (contents s)"
begin

lemma step_refines:
  assumes "inv s" "op_fits (fits s) p"
  shows "\<exists>s'. buf_step send urgent recv p s = Some (fst (buf_spec (room s) p (contents s)), s') \<and> inv s' \<and>
    room s' = room s \<and> fits s' = fits s \<and> contents s' = snd (buf_spec (room s) p (contents s))"
proof (cases p)
  case (Send v)
  then obtain e s' where "send v s = Some (e, s')" "inv s'" "room s' = room s" "fits s' = fits s"
    "((e, None), contents s') = buf_spec (room s) (Send v) (contents s)"
    using send_ok [OF assms(1), of v] assms(2) by (auto simp: op_fits_def)
  then show ?thesis using Send by (metis (no_types, lifting) buf_step.simps(1) case_prod_conv fst_conv snd_conv option.simps(9))
next
  case (Urgent v)
  then obtain e s' where "urgent v s = Some (e, s')" "inv s'" "room s' = room s" "fits s' = fits s"
    "((e, None), contents s') = buf_spec (room s) (Urgent v) (contents s)"
    using urgent_ok [OF assms(1), of v] assms(2) by (auto simp: op_fits_def)
  then show ?thesis using Urgent by (metis (no_types, lifting) buf_step.simps(2) case_prod_conv fst_conv snd_conv option.simps(9))
next
  case Recv
  obtain e v s' where "recv s = Some (e, v, s')" "inv s'" "room s' = room s" "fits s' = fits s"
    "((e, v), contents s') = buf_spec (room s) Recv (contents s)"
    using recv_ok [OF assms(1)] by blast
  then show ?thesis using Recv by (metis (no_types, lifting) buf_step.simps(3) case_prod_conv fst_conv snd_conv option.simps(9))
qed

text \<open>Every run of the operations behaves like the same run of the specification.\<close>

lemma run_refines:
  "inv s \<Longrightarrow> \<forall>p\<in>set ps. op_fits (fits s) p \<Longrightarrow>
   \<exists>s'. run_ops (buf_step send urgent recv) ps s = Some (fst (buf_run (room s) ps (contents s)), s') \<and> inv s' \<and>
     room s' = room s \<and> contents s' = snd (buf_run (room s) ps (contents s))"
proof (induction ps arbitrary: s)
  case (Cons p ps)
  obtain s1 where s1: "buf_step send urgent recv p s = Some (fst (buf_spec (room s) p (contents s)), s1)" "inv s1"
    "room s1 = room s" "fits s1 = fits s" "contents s1 = snd (buf_spec (room s) p (contents s))"
    using step_refines [OF Cons.prems(1), of p] Cons.prems(2) by auto
  obtain s' where "run_ops (buf_step send urgent recv) ps s1 = Some (fst (buf_run (room s1) ps (contents s1)), s')" "inv s'"
    "room s' = room s1" "contents s' = snd (buf_run (room s1) ps (contents s1))"
    using Cons.IH [OF s1(2)] Cons.prems(2) s1(4) by auto
  then show ?case using s1 by (simp add: split_beta)
qed simp

text \<open>
  First in, first out: in a run without urgent messages, what was delivered followed by what is left
  is what was there followed by what was accepted; the buffer never holds more than its room.
\<close>

lemma run_fifo:
  assumes "inv s" "\<forall>p\<in>set ps. op_fits (fits s) p \<and> \<not> is_urgent p"
  shows "\<exists>rs s'. run_ops (buf_step send urgent recv) ps s = Some (rs, s') \<and> inv s' \<and>
    delivered rs @ contents s' = contents s @ accepted ps rs \<and> length (contents s') \<le> room s"
proof -
  obtain s' where s': "run_ops (buf_step send urgent recv) ps s = Some (fst (buf_run (room s) ps (contents s)), s')" "inv s'"
    "room s' = room s" "contents s' = snd (buf_run (room s) ps (contents s))"
    using run_refines [OF assms(1)] assms(2) by blast
  moreover have "delivered (fst (buf_run (room s) ps (contents s))) @ contents s' =
      contents s @ accepted ps (fst (buf_run (room s) ps (contents s)))"
    unfolding s'(4) by (rule buf_run_fifo) (use assms(2) in simp_all)
  moreover have "length (contents s') \<le> room s" using bound [OF s'(2)] s'(3) by simp
  ultimately show ?thesis by blast
qed

end

end
