(* ===== verification/RT_Mailbox.thy ===== *)
theory RT_Mailbox
  imports RT_Buffer
begin

section \<open>Mailboxes: \<^verbatim>\<open>src/ipc.c\<close>\<close>

text \<open>
  A mailbox is a ring buffer of machine words with 16-bit offsets, a list of threads waiting for mail
  and a list of threads waiting for room. Reading or writing outside the pool has no result.

  The waiting loops of \<open>rt_mb_send_wait\<close> and \<open>rt_mb_recv\<close> are split at \<open>rt_schedule\<close>: a call that has to wait
  returns \<open>Pending\<close> with its local variables, and the \<open>_resume\<close> operation continues with the code after
  \<open>rt_schedule\<close> and the next round of the loop.
\<close>

subsection \<open>Operations\<close>

definition upd_mb :: "nat \<Rightarrow> (rt_mailbox \<Rightarrow> rt_mailbox) \<Rightarrow> kernel \<Rightarrow> kernel" where
  "upd_mb i f s = s\<lparr>mailboxes := (mailboxes s)(i := f (mailboxes s i))\<rparr>"

definition rt_mb_init :: "nat \<Rightarrow> u8 list \<Rightarrow> nat \<Rightarrow> u32 list \<Rightarrow> u32 \<Rightarrow> u8 \<Rightarrow> kernel \<Rightarrow> (rt_err \<times> kernel) option" where
  "rt_mb_init mb name addr msgpool sz flag s = do {
     RT_ASSERT (flag = RT_IPC_FLAG_FIFO \<or> flag = RT_IPC_FLAG_PRIO);
     s \<leftarrow> rt_object_init (OMailbox mb) RT_Object_Class_MailBox name s;
     let s = upd_obj (OMailbox mb) (\<lambda>b. b\<lparr>ob_flag := flag\<rparr>) s;
     s \<leftarrow> ipc_object_init (Suspended (OMailbox mb)) s;
     let s = upd_mb mb (\<lambda>m. m\<lparr>mb_msg_pool := msgpool, mb_pool_addr := addr, mb_size := ucast sz, mb_entry := 0,
           mb_in_offset := 0, mb_out_offset := 0\<rparr>) s;
     s \<leftarrow> ipc_object_init (SenderSuspended (OMailbox mb)) s;
     Some (RT_EOK, s)
   }"

definition rt_mb_detach :: "nat \<Rightarrow> kernel \<Rightarrow> (rt_err \<times> kernel) option" where
  "rt_mb_detach mb s = do {
     RT_ASSERT (rt_object_get_type (OMailbox mb) s = RT_Object_Class_MailBox);
     RT_ASSERT (rt_object_is_systemobject (OMailbox mb) s);
     s \<leftarrow> ipc_list_resume_all (Suspended (OMailbox mb)) s;
     s \<leftarrow> ipc_list_resume_all (SenderSuspended (OMailbox mb)) s;
     Some (RT_EOK, rt_object_detach (OMailbox mb) s)
   }"

text \<open>The words of a block that \<^verbatim>\<open>RT_KERNEL_MALLOC\<close> returns are arbitrary: \<open>junk\<close>.\<close>

definition rt_mb_create ::
  "nat option \<Rightarrow> nat option \<Rightarrow> (nat \<Rightarrow> u32) \<Rightarrow> u8 list \<Rightarrow> u32 \<Rightarrow> u8 \<Rightarrow> kernel \<Rightarrow> (nat option \<times> kernel) option" where
  "rt_mb_create mem pool_mem junk name sz flag s = do {
     RT_ASSERT (flag = RT_IPC_FLAG_FIFO \<or> flag = RT_IPC_FLAG_PRIO);
     RT_DEBUG_NOT_IN_INTERRUPT s;
     (_, s) \<leftarrow> rt_object_allocate (map_option OMailbox mem) RT_Object_Class_MailBox name s;
     (case mem of
        None \<Rightarrow> Some (None, s)
      | Some mb \<Rightarrow> do {
          let s = upd_obj (OMailbox mb) (\<lambda>b. b\<lparr>ob_flag := flag\<rparr>) s;
          s \<leftarrow> ipc_object_init (Suspended (OMailbox mb)) s;
          let s = upd_mb mb (\<lambda>m. m\<lparr>mb_size := ucast sz\<rparr>) s;
          (case pool_mem of
             None \<Rightarrow> do {
               s \<leftarrow> rt_object_delete (OMailbox mb) s;
               Some (None, s)
             }
           | Some addr \<Rightarrow> do {
               let s = s\<lparr>heap := insert (BPool addr) (heap s)\<rparr>;
               let s = upd_mb mb (\<lambda>m. m\<lparr>mb_msg_pool := map junk [0..<unat (mb_size m)], mb_pool_addr := addr,
                     mb_entry := 0, mb_in_offset := 0, mb_out_offset := 0\<rparr>) s;
               s \<leftarrow> ipc_object_init (SenderSuspended (OMailbox mb)) s;
               Some (Some mb, s)
             })
        })
   }"

definition rt_mb_delete :: "nat \<Rightarrow> kernel \<Rightarrow> (rt_err \<times> kernel) option" where
  "rt_mb_delete mb s = do {
     RT_ASSERT (rt_object_get_type (OMailbox mb) s = RT_Object_Class_MailBox);
     RT_ASSERT (\<not> rt_object_is_systemobject (OMailbox mb) s);
     RT_DEBUG_NOT_IN_INTERRUPT s;
     s \<leftarrow> ipc_list_resume_all (Suspended (OMailbox mb)) s;
     s \<leftarrow> ipc_list_resume_all (SenderSuspended (OMailbox mb)) s;
     s \<leftarrow> RT_KERNEL_FREE (BPool (mb_pool_addr (mailboxes s mb))) s;
     s \<leftarrow> rt_object_delete (OMailbox mb) s;
     Some (RT_EOK, s)
   }"

text \<open>Storing a mail and waking a receiver: the end of \<open>rt_mb_send_wait\<close>.\<close>

definition mb_wake_receiver :: "nat \<Rightarrow> kernel \<Rightarrow> ('k call \<times> kernel) option" where
  "mb_wake_receiver mb s =
     (if ring (thread_rings s) (Suspended (OMailbox mb)) \<noteq> [] then do {
        s \<leftarrow> ipc_list_resume (Suspended (OMailbox mb)) s;
        s \<leftarrow> rt_schedule s;
        Some (Return RT_EOK, s)
      } else Some (Return RT_EOK, s))"

definition mb_put :: "nat \<Rightarrow> u32 \<Rightarrow> kernel \<Rightarrow> ('k call \<times> kernel) option" where
  "mb_put mb v s = do {
     let m = mailboxes s mb;
     RT_ASSERT (unat (mb_in_offset m) < length (mb_msg_pool m));
     let m = m\<lparr>mb_msg_pool := (mb_msg_pool m)[unat (mb_in_offset m) := v]\<rparr>;
     let m = m\<lparr>mb_in_offset := mb_in_offset m + 1\<rparr>;
     let m = (if mb_in_offset m \<ge> mb_size m then m\<lparr>mb_in_offset := 0\<rparr> else m);
     if mb_entry m < 0xffff then
       mb_wake_receiver mb (upd_mb mb (\<lambda>_. m\<lparr>mb_entry := mb_entry m + 1\<rparr>) s)
     else Some (Return (- RT_EFULL), upd_mb mb (\<lambda>_. m) s)
   }"

text \<open>One round of the waiting loop of \<open>rt_mb_send_wait\<close>.\<close>

definition mb_send_loop :: "nat \<Rightarrow> u32 \<Rightarrow> tid option \<Rightarrow> int \<Rightarrow> kernel \<Rightarrow> (wait_locals call \<times> kernel) option" where
  "mb_send_loop mb v self timeout s =
     (if mb_entry (mailboxes s mb) = mb_size (mailboxes s mb) then do {
        thread \<leftarrow> self;
        let s = upd_thread thread (\<lambda>th. th\<lparr>th_error := RT_EOK\<rparr>) s;
        if timeout = 0 then Some (Return (- RT_EFULL), s)
        else do {
          let tick_delta = (if timeout > 0 then rt_tick_get s else 0);
          s \<leftarrow> ipc_wait (SenderSuspended (OMailbox mb)) thread (ob_flag (objs s (OMailbox mb))) timeout s;
          s \<leftarrow> rt_schedule s;
          Some (Pending \<lparr>wl_thread = thread, wl_timeout = timeout, wl_tick_delta = tick_delta\<rparr>, s)
        }
      } else mb_put mb v s)"

definition rt_mb_send_wait :: "nat \<Rightarrow> u32 \<Rightarrow> int \<Rightarrow> kernel \<Rightarrow> (wait_locals call \<times> kernel) option" where
  "rt_mb_send_wait mb v timeout s = do {
     RT_ASSERT (rt_object_get_type (OMailbox mb) s = RT_Object_Class_MailBox);
     RT_DEBUG_SCHEDULER_AVAILABLE (timeout \<noteq> 0) s;
     if mb_entry (mailboxes s mb) = mb_size (mailboxes s mb) \<and> timeout = 0 then Some (Return (- RT_EFULL), s)
     else mb_send_loop mb v (rt_thread_self s) timeout s
   }"

definition rt_mb_send_wait_resume :: "nat \<Rightarrow> u32 \<Rightarrow> wait_locals \<Rightarrow> kernel \<Rightarrow> (wait_locals call \<times> kernel) option" where
  "rt_mb_send_wait_resume mb v w s =
     (if th_error (threads s (wl_thread w)) \<noteq> RT_EOK then Some (Return (th_error (threads s (wl_thread w))), s)
      else mb_send_loop mb v (Some (wl_thread w)) (remaining_timeout w s) s)"

definition rt_mb_send :: "nat \<Rightarrow> u32 \<Rightarrow> kernel \<Rightarrow> (wait_locals call \<times> kernel) option" where
  "rt_mb_send mb v s = rt_mb_send_wait mb v 0 s"

definition rt_mb_urgent :: "nat \<Rightarrow> u32 \<Rightarrow> kernel \<Rightarrow> (wait_locals call \<times> kernel) option" where
  "rt_mb_urgent mb v s = do {
     RT_ASSERT (rt_object_get_type (OMailbox mb) s = RT_Object_Class_MailBox);
     let m = mailboxes s mb;
     if mb_entry m = mb_size m then Some (Return (- RT_EFULL), s)
     else do {
       let m = m\<lparr>mb_out_offset := (if mb_out_offset m > 0 then mb_out_offset m - 1 else mb_size m - 1)\<rparr>;
       RT_ASSERT (unat (mb_out_offset m) < length (mb_msg_pool m));
       let m = m\<lparr>mb_msg_pool := (mb_msg_pool m)[unat (mb_out_offset m) := v]\<rparr>;
       mb_wake_receiver mb (upd_mb mb (\<lambda>_. m\<lparr>mb_entry := mb_entry m + 1\<rparr>) s)
     }
   }"

text \<open>Fetching a mail and waking a sender: the end of \<open>rt_mb_recv\<close>. The value is what is stored in \<^verbatim>\<open>*value\<close>.\<close>

definition mb_get :: "nat \<Rightarrow> kernel \<Rightarrow> ('k call \<times> u32 option \<times> kernel) option" where
  "mb_get mb s = do {
     let m = mailboxes s mb;
     RT_ASSERT (unat (mb_out_offset m) < length (mb_msg_pool m));
     let v = mb_msg_pool m ! unat (mb_out_offset m);
     let m = m\<lparr>mb_out_offset := mb_out_offset m + 1\<rparr>;
     let m = (if mb_out_offset m \<ge> mb_size m then m\<lparr>mb_out_offset := 0\<rparr> else m);
     let m = (if mb_entry m > 0 then m\<lparr>mb_entry := mb_entry m - 1\<rparr> else m);
     let s = upd_mb mb (\<lambda>_. m) s;
     if ring (thread_rings s) (SenderSuspended (OMailbox mb)) \<noteq> [] then do {
       s \<leftarrow> ipc_list_resume (SenderSuspended (OMailbox mb)) s;
       s \<leftarrow> rt_schedule s;
       Some (Return RT_EOK, Some v, s)
     } else Some (Return RT_EOK, Some v, s)
   }"

definition mb_recv_loop :: "nat \<Rightarrow> tid option \<Rightarrow> int \<Rightarrow> kernel \<Rightarrow> (wait_locals call \<times> u32 option \<times> kernel) option" where
  "mb_recv_loop mb self timeout s =
     (if mb_entry (mailboxes s mb) = 0 then do {
        thread \<leftarrow> self;
        let s = upd_thread thread (\<lambda>th. th\<lparr>th_error := RT_EOK\<rparr>) s;
        if timeout = 0
        then Some (Return (- RT_ETIMEOUT), None, upd_thread thread (\<lambda>th. th\<lparr>th_error := - RT_ETIMEOUT\<rparr>) s)
        else do {
          let tick_delta = (if timeout > 0 then rt_tick_get s else 0);
          s \<leftarrow> ipc_wait (Suspended (OMailbox mb)) thread (ob_flag (objs s (OMailbox mb))) timeout s;
          s \<leftarrow> rt_schedule s;
          Some (Pending \<lparr>wl_thread = thread, wl_timeout = timeout, wl_tick_delta = tick_delta\<rparr>, None, s)
        }
      } else mb_get mb s)"

definition rt_mb_recv :: "nat \<Rightarrow> int \<Rightarrow> kernel \<Rightarrow> (wait_locals call \<times> u32 option \<times> kernel) option" where
  "rt_mb_recv mb timeout s = do {
     RT_ASSERT (rt_object_get_type (OMailbox mb) s = RT_Object_Class_MailBox);
     RT_DEBUG_SCHEDULER_AVAILABLE (timeout \<noteq> 0) s;
     if mb_entry (mailboxes s mb) = 0 \<and> timeout = 0 then Some (Return (- RT_ETIMEOUT), None, s)
     else mb_recv_loop mb (rt_thread_self s) timeout s
   }"

definition rt_mb_recv_resume :: "nat \<Rightarrow> wait_locals \<Rightarrow> kernel \<Rightarrow> (wait_locals call \<times> u32 option \<times> kernel) option" where
  "rt_mb_recv_resume mb w s =
     (if th_error (threads s (wl_thread w)) \<noteq> RT_EOK
      then Some (Return (th_error (threads s (wl_thread w))), None, s)
      else mb_recv_loop mb (Some (wl_thread w)) (remaining_timeout w s) s)"

definition rt_mb_control :: "nat \<Rightarrow> int \<Rightarrow> kernel \<Rightarrow> (rt_err \<times> kernel) option" where
  "rt_mb_control mb cmd s = do {
     RT_ASSERT (rt_object_get_type (OMailbox mb) s = RT_Object_Class_MailBox);
     if cmd = RT_IPC_CMD_RESET then do {
       s \<leftarrow> ipc_list_resume_all (Suspended (OMailbox mb)) s;
       s \<leftarrow> ipc_list_resume_all (SenderSuspended (OMailbox mb)) s;
       let s = upd_mb mb (\<lambda>m. m\<lparr>mb_entry := 0, mb_in_offset := 0, mb_out_offset := 0\<rparr>) s;
       s \<leftarrow> rt_schedule s;
       Some (RT_EOK, s)
     } else Some (- RT_ERROR, s)
   }"

subsection \<open>Reading a ring buffer\<close>

text \<open>The \<open>e\<close> elements of a ring of \<open>n\<close> places that starts at \<open>out\<close>, and how a step of an index acts on them.\<close>

definition ring_read :: "'a list \<Rightarrow> nat \<Rightarrow> nat \<Rightarrow> nat \<Rightarrow> 'a list" where
  "ring_read pool n out e = map (\<lambda>k. pool ! ((out + k) mod n)) [0..<e]"

lemma ring_index_ne: "k < e \<Longrightarrow> e < n \<Longrightarrow> (out + k) mod n \<noteq> (out + e) mod (n::nat)"
proof
  assume k: "k < e" "e < n" and eq: "(out + k) mod n = (out + e) mod n"
  have "n dvd (out + e) - (out + k)" using eq k by (metis mod_eq_dvd_iff_nat add_le_cancel_left less_imp_le_nat)
  then have "n \<le> e - k" using k(1) by (auto dest: dvd_imp_le)
  then show False using k by simp
qed

lemma ring_read_put:
  assumes "e < n" "n \<le> length pool"
  shows "ring_read (pool[(out + e) mod n := v]) n out (Suc e) = ring_read pool n out e @ [v]"
proof -
  have "(out + e) mod n < length pool" using assms mod_less_divisor [of n "out + e"] by linarith
  moreover have "pool[(out + e) mod n := v] ! ((out + k) mod n) = pool ! ((out + k) mod n)" if "k < e" for k
    using ring_index_ne [OF that assms(1), of out] by simp
  ultimately show ?thesis by (simp add: ring_read_def)
qed

definition next_index :: "nat \<Rightarrow> nat \<Rightarrow> nat" where
  "next_index n i = (if Suc i \<ge> n then 0 else Suc i)"

definition prev_index :: "nat \<Rightarrow> nat \<Rightarrow> nat" where
  "prev_index n i = (if i > 0 then i - 1 else n - 1)"

lemma next_index_mod: "i < n \<Longrightarrow> next_index n i = Suc i mod n"
  by (auto simp: next_index_def mod_Suc)

lemma prev_next: "i < n \<Longrightarrow> next_index n (prev_index n i) = i" "i < n \<Longrightarrow> prev_index n i < n"
  by (auto simp: next_index_def prev_index_def)

lemma ring_read_get:
  assumes "out < n"
  shows "ring_read pool n out (Suc e) = pool ! out # ring_read pool n (next_index n out) e"
proof -
  have "(Suc out mod n + k) mod n = (out + Suc k) mod n" for k by (simp add: mod_simps)
  then show ?thesis using assms by (simp add: ring_read_def upt_conv_Cons map_Suc_upt [symmetric] o_def next_index_mod del: upt_Suc)
qed

lemma ring_read_urgent:
  assumes "e < n" "n \<le> length pool" "out < n"
  shows "ring_read (pool[prev_index n out := v]) n (prev_index n out) (Suc e) = v # ring_read pool n out e"
proof -
  let ?p = "prev_index n out"
  have p: "?p < n" "next_index n ?p = out" using prev_next [OF assms(3)] by simp_all
  have "(out + k) mod n \<noteq> ?p" if "k < e" for k
  proof -
    have "(out + k) mod n = (?p + Suc k) mod n" using p next_index_mod [OF p(1)] by (metis add_Suc_shift mod_add_left_eq)
    then show ?thesis using ring_index_ne [of 0 "Suc k" n ?p] that assms(1) p(1) by auto
  qed
  then have "ring_read (pool[?p := v]) n out e = ring_read pool n out e" by (auto simp: ring_read_def) (metis nth_list_update_neq)
  then show ?thesis using ring_read_get [OF p(1), of "pool[?p := v]" e] p assms(2) by simp
qed

subsection \<open>The mails of a mailbox\<close>

text \<open>
  The invariant of a mailbox: the pool has at least \<^verbatim>\<open>size\<close> words, the output offset lies inside it and the
  input offset is \<^verbatim>\<open>entry\<close> places further.
\<close>

definition mb_ok :: "rt_mailbox \<Rightarrow> bool" where
  "mb_ok m \<longleftrightarrow> unat (mb_size m) \<le> length (mb_msg_pool m) \<and> mb_entry m \<le> mb_size m \<and>
     (if mb_size m = 0 then mb_out_offset m = 0 else mb_out_offset m < mb_size m) \<and>
     unat (mb_in_offset m) = (unat (mb_out_offset m) + unat (mb_entry m)) mod unat (mb_size m)"

definition mb_contents :: "rt_mailbox \<Rightarrow> u32 list" where
  "mb_contents m = ring_read (mb_msg_pool m) (unat (mb_size m)) (unat (mb_out_offset m)) (unat (mb_entry m))"

lemma length_mb_contents [simp]: "length (mb_contents m) = unat (mb_entry m)"
  by (simp add: mb_contents_def ring_read_def)

lemma mb_contents_empty: "mb_contents m = [] \<longleftrightarrow> mb_entry m = 0"
  using length_mb_contents [of m] by (metis length_0_conv unat_eq_0)

lemma unat_next16:
  assumes "(i :: u16) < n"
  shows "unat (if i + 1 \<ge> n then 0 else i + 1) = next_index (unat n) (unat i)"
proof -
  have "unat n < 2 ^ LENGTH(16)" by (rule unsigned_less)
  then have "unat n < 65536" "unat i < unat n" using assms by (simp_all add: word_less_nat_alt)
  then have "unat (i + 1) = Suc (unat i)" using unat_inc16 [of i] by (simp add: word_less_nat_alt)
  then show ?thesis by (simp add: next_index_def word_le_nat_alt)
qed

lemma unat_prev16: "n \<noteq> 0 \<Longrightarrow> unat (if (i :: u16) > 0 then i - 1 else n - 1) = prev_index (unat n) (unat i)"
  by (auto simp: prev_index_def unat_dec word_gt_0 unat_gt_0)

text \<open>What storing, urgent storing and fetching do to the record of a mailbox.\<close>

lemma mb_okD:
  assumes "mb_ok m"
  shows "unat (mb_entry m) \<le> unat (mb_size m)"
    "mb_size m \<noteq> 0 \<Longrightarrow> mb_out_offset m < mb_size m" "mb_size m \<noteq> 0 \<Longrightarrow> mb_in_offset m < mb_size m"
    "unat (mb_size m) \<le> length (mb_msg_pool m)"
  using assms by (auto simp: mb_ok_def word_le_nat_alt word_less_nat_alt unat_eq_0 [symmetric] split: if_splits)

lemma mb_not_full:
  assumes "mb_ok m" "mb_entry m \<noteq> mb_size m"
  shows "mb_size m \<noteq> 0" "unat (mb_entry m) < unat (mb_size m)" "mb_entry m < 0xffff" "unat (mb_entry m + 1) = Suc (unat (mb_entry m))"
proof -
  show lt: "unat (mb_entry m) < unat (mb_size m)"
    using mb_okD(1) [OF assms(1)] assms(2) by (metis nat_less_le word_unat_eq_iff)
  then show "mb_size m \<noteq> 0" by auto
  have "unat (mb_size m) < 2 ^ LENGTH(16)" by (rule unsigned_less)
  then show "mb_entry m < 0xffff" using lt by (simp add: word_less_nat_alt)
  then show "unat (mb_entry m + 1) = Suc (unat (mb_entry m))" using unat_inc16 by simp
qed

lemma mb_store:
  fixes m v
  assumes ok: "mb_ok m" and room: "mb_entry m \<noteq> mb_size m"
  defines "m' \<equiv> m\<lparr>mb_msg_pool := (mb_msg_pool m)[unat (mb_in_offset m) := v],
    mb_in_offset := (if mb_in_offset m + 1 \<ge> mb_size m then 0 else mb_in_offset m + 1), mb_entry := mb_entry m + 1\<rparr>"
  shows "mb_ok m'" "mb_contents m' = mb_contents m @ [v]"
proof -
  note f = mb_not_full [OF ok room] and d = mb_okD [OF ok]
  have inn: "unat (mb_in_offset m) = (unat (mb_out_offset m) + unat (mb_entry m)) mod unat (mb_size m)"
    using ok by (simp add: mb_ok_def)
  have lt: "unat (mb_in_offset m) < unat (mb_size m)" using d(3) [OF f(1)] by (simp add: word_less_nat_alt)
  have nx: "unat (mb_in_offset m') = (unat (mb_out_offset m) + Suc (unat (mb_entry m))) mod unat (mb_size m)"
    using unat_next16 [OF d(3) [OF f(1)]] next_index_mod [OF lt] inn by (simp add: m'_def mod_simps)
  have en: "mb_entry m' = mb_entry m + 1" "mb_size m' = mb_size m" "mb_out_offset m' = mb_out_offset m"
    "mb_msg_pool m' = (mb_msg_pool m)[unat (mb_in_offset m) := v]" by (simp_all add: m'_def)
  show "mb_ok m'" using ok f nx by (simp add: mb_ok_def en word_le_nat_alt)
  show "mb_contents m' = mb_contents m @ [v]"
    unfolding mb_contents_def en f(4) inn by (rule ring_read_put [OF f(2) d(4)])
qed

lemma mb_store_urgent:
  fixes m v
  assumes ok: "mb_ok m" and room: "mb_entry m \<noteq> mb_size m"
  defines "out \<equiv> (if mb_out_offset m > 0 then mb_out_offset m - 1 else mb_size m - 1)"
  defines "m' \<equiv> m\<lparr>mb_out_offset := out, mb_msg_pool := (mb_msg_pool m)[unat out := v], mb_entry := mb_entry m + 1\<rparr>"
  shows "mb_ok m'" "mb_contents m' = v # mb_contents m" "unat out < length (mb_msg_pool m)"
proof -
  note f = mb_not_full [OF ok room] and d = mb_okD [OF ok]
  have lt: "unat (mb_out_offset m) < unat (mb_size m)" using d(2) [OF f(1)] by (simp add: word_less_nat_alt)
  have out: "unat out = prev_index (unat (mb_size m)) (unat (mb_out_offset m))" unfolding out_def by (rule unat_prev16 [OF f(1)])
  have p: "unat out < unat (mb_size m)" "next_index (unat (mb_size m)) (unat out) = unat (mb_out_offset m)"
    unfolding out using prev_next [OF lt] by simp_all
  then show "unat out < length (mb_msg_pool m)" using d(4) by simp
  have nx: "unat (mb_in_offset m) = (unat out + Suc (unat (mb_entry m))) mod unat (mb_size m)"
    using ok p next_index_mod [OF p(1)] unfolding mb_ok_def by (metis add_Suc_shift mod_add_left_eq)
  have en: "mb_entry m' = mb_entry m + 1" "mb_size m' = mb_size m" "mb_out_offset m' = out" "mb_in_offset m' = mb_in_offset m"
    "mb_msg_pool m' = (mb_msg_pool m)[unat out := v]" by (simp_all add: m'_def)
  show "mb_ok m'" using ok f nx p(1) by (simp add: mb_ok_def en word_le_nat_alt word_less_nat_alt)
  show "mb_contents m' = v # mb_contents m"
    unfolding mb_contents_def en f(4) out by (rule ring_read_urgent [OF f(2) d(4) lt])
qed

lemma mb_fetch:
  fixes m
  assumes ok: "mb_ok m" and entry: "mb_entry m \<noteq> 0"
  defines "m' \<equiv> m\<lparr>mb_out_offset := (if mb_out_offset m + 1 \<ge> mb_size m then 0 else mb_out_offset m + 1),
    mb_entry := mb_entry m - 1\<rparr>"
  shows "mb_ok m'" "mb_contents m = mb_msg_pool m ! unat (mb_out_offset m) # mb_contents m'"
    "unat (mb_out_offset m) < length (mb_msg_pool m)"
proof -
  note d = mb_okD [OF ok]
  obtain e where e: "unat (mb_entry m) = Suc e" using entry by (metis not0_implies_Suc unat_eq_0)
  then have nz: "mb_size m \<noteq> 0" using d(1) by auto
  have lt: "unat (mb_out_offset m) < unat (mb_size m)" using d(2) [OF nz] by (simp add: word_less_nat_alt)
  then show "unat (mb_out_offset m) < length (mb_msg_pool m)" using d(4) by simp
  have out: "unat (mb_out_offset m') = next_index (unat (mb_size m)) (unat (mb_out_offset m))"
    using unat_next16 [OF d(2) [OF nz]] by (simp add: m'_def)
  have en: "unat (mb_entry m') = e" "mb_size m' = mb_size m" "mb_in_offset m' = mb_in_offset m" "mb_msg_pool m' = mb_msg_pool m"
    using e unat_dec [OF entry] by (simp_all add: m'_def)
  have "unat (mb_in_offset m) = (unat (mb_out_offset m') + e) mod unat (mb_size m)"
    using ok e unfolding mb_ok_def out next_index_mod [OF lt] by (simp add: mod_simps)
  moreover have "mb_out_offset m' < mb_size m" using out next_index_mod [OF lt] lt by (simp add: word_less_nat_alt)
  ultimately show "mb_ok m'" using ok nz e by (simp add: mb_ok_def en word_le_nat_alt)
  show "mb_contents m = mb_msg_pool m ! unat (mb_out_offset m) # mb_contents m'"
    unfolding mb_contents_def en e out by (rule ring_read_get [OF lt])
qed

subsection \<open>Sending and receiving\<close>

lemma upd_mb_fields [simp]:
  "thread_rings (upd_mb i f s) = thread_rings s" "threads (upd_mb i f s) = threads s" "objs (upd_mb i f s) = objs s"
  "mailboxes (upd_mb i f s) = (mailboxes s)(i := f (mailboxes s i))" "rt_current_thread (upd_mb i f s) = rt_current_thread s"
  "kinv (upd_mb i f s) = kinv s" "live (upd_mb i f s) = live s" "status (upd_mb i f s) = status s" "rt_tick (upd_mb i f s) = rt_tick s"
  by (simp_all add: upd_mb_def)

lemma mb_type: "kinv s \<Longrightarrow> live s (OMailbox i) \<Longrightarrow> rt_object_get_type (OMailbox i) s = RT_Object_Class_MailBox"
  using rt_object_get_type_live [of s "OMailbox i"] by (simp add: class_of_def)

text \<open>
  A successful operation leaves a mailbox with contents \<open>q\<close>, and has served the list \<open>l\<close>.
\<close>

definition mb_done :: "nat \<Rightarrow> thread_list \<Rightarrow> u32 list \<Rightarrow> kernel \<Rightarrow> kernel \<Rightarrow> bool" where
  "mb_done i l q s s' \<longleftrightarrow> mb_ok (mailboxes s' i) \<and> mb_contents (mailboxes s' i) = q \<and>
     mb_size (mailboxes s' i) = mb_size (mailboxes s i) \<and> serves l (s\<lparr>mailboxes := (mailboxes s)(i := mailboxes s' i)\<rparr>) s'"

lemma mb_doneI:
  assumes "serves l (upd_mb i (\<lambda>_. m) s) s'" "mb_ok m" "mb_contents m = q" "mb_size m = mb_size (mailboxes s i)"
  shows "mb_done i l q s s'"
proof -
  have "mailboxes s' = (mailboxes s)(i := m)" using core_step_fields(4) [OF servesD(2) [OF assms(1)]] by simp
  then show ?thesis using assms by (simp add: mb_done_def upd_mb_def)
qed

lemma mb_doneD:
  assumes "mb_done i l q s s'"
  shows "kinv s'" "mb_ok (mailboxes s' i)" "mb_contents (mailboxes s' i) = q" "mb_size (mailboxes s' i) = mb_size (mailboxes s i)"
    "live s' = live s" "rt_current_thread s \<noteq> None \<Longrightarrow> rt_current_thread s' \<noteq> None"
  using assms servesD by (auto simp: mb_done_def)

lemma mb_wake_receiver_ok:
  assumes "kinv s" "rt_current_thread s \<noteq> None"
  obtains s' where "mb_wake_receiver i s = Some (Return RT_EOK :: 'k call, s')" "serves (Suspended (OMailbox i)) s s'"
  using wake_if_waiting [OF assms(1) _ assms(2), of "OMailbox i" "Suspended (OMailbox i)" "\<lambda>s. (Return RT_EOK :: 'k call, s)"]
    that unfolding mb_wake_receiver_def by (metis wait_list_simps(1))

lemma mb_put_ok:
  assumes inv: "kinv s" and cur: "rt_current_thread s \<noteq> None" and ok: "mb_ok (mailboxes s i)"
    and room: "mb_entry (mailboxes s i) \<noteq> mb_size (mailboxes s i)"
  obtains s' where "mb_put i v s = Some (Return RT_EOK :: 'k call, s')"
    "mb_done i (Suspended (OMailbox i)) (mb_contents (mailboxes s i) @ [v]) s s'"
proof -
  let ?m = "mailboxes s i" and ?l = "Suspended (OMailbox i)"
  let ?m' = "?m\<lparr>mb_msg_pool := (mb_msg_pool ?m)[unat (mb_in_offset ?m) := v],
    mb_in_offset := (if mb_in_offset ?m + 1 \<ge> mb_size ?m then 0 else mb_in_offset ?m + 1), mb_entry := mb_entry ?m + 1\<rparr>"
  note f = mb_not_full [OF ok room] and d = mb_okD [OF ok]
  have "unat (mb_in_offset ?m) < length (mb_msg_pool ?m)" using d(3) [OF f(1)] d(4) by (simp add: word_less_nat_alt)
  then have eq: "(mb_put i v s :: ('k call \<times> kernel) option) = mb_wake_receiver i (upd_mb i (\<lambda>_. ?m') s)"
    using f(3) by (simp add: mb_put_def Let_def)
  have k: "kinv (upd_mb i (\<lambda>_. ?m') s)" "rt_current_thread (upd_mb i (\<lambda>_. ?m') s) \<noteq> None" using inv cur by simp_all
  obtain s' where s': "mb_wake_receiver i (upd_mb i (\<lambda>_. ?m') s) = Some (Return RT_EOK :: 'k call, s')" "serves ?l (upd_mb i (\<lambda>_. ?m') s) s'"
    by (rule mb_wake_receiver_ok [OF k], rule that)
  have "mb_done i ?l (mb_contents ?m @ [v]) s s'"
    by (rule mb_doneI [OF s'(2)]) (use mb_store [OF ok room, of v] in simp_all)
  then show thesis using that s'(1) unfolding eq by blast
qed

lemma rt_mb_urgent_ok:
  assumes inv: "kinv s" and live: "live s (OMailbox i)" and cur: "rt_current_thread s \<noteq> None" and ok: "mb_ok (mailboxes s i)"
    and room: "mb_entry (mailboxes s i) \<noteq> mb_size (mailboxes s i)"
  obtains s' where "rt_mb_urgent i v s = Some (Return RT_EOK, s')"
    "mb_done i (Suspended (OMailbox i)) (v # mb_contents (mailboxes s i)) s s'"
proof -
  let ?m = "mailboxes s i" and ?l = "Suspended (OMailbox i)"
  let ?out = "if mb_out_offset ?m > 0 then mb_out_offset ?m - 1 else mb_size ?m - 1"
  let ?m' = "?m\<lparr>mb_out_offset := ?out, mb_msg_pool := (mb_msg_pool ?m)[unat ?out := v], mb_entry := mb_entry ?m + 1\<rparr>"
  note st = mb_store_urgent(1,2) [OF ok room, of v] mb_store_urgent(3) [OF ok room]
  have eq: "rt_mb_urgent i v s = mb_wake_receiver i (upd_mb i (\<lambda>_. ?m') s)"
    using mb_type [OF inv live] room st(3) by (simp add: rt_mb_urgent_def Let_def)
  have k: "kinv (upd_mb i (\<lambda>_. ?m') s)" "rt_current_thread (upd_mb i (\<lambda>_. ?m') s) \<noteq> None" using inv cur by simp_all
  obtain s' where s': "mb_wake_receiver i (upd_mb i (\<lambda>_. ?m') s) = Some (Return RT_EOK :: wait_locals call, s')" "serves ?l (upd_mb i (\<lambda>_. ?m') s) s'"
    by (rule mb_wake_receiver_ok [OF k], rule that)
  have "mb_done i ?l (v # mb_contents ?m) s s'"
    by (rule mb_doneI [OF s'(2)]) (use st in simp_all)
  then show thesis using that s'(1) unfolding eq by blast
qed

lemma mb_get_ok:
  assumes inv: "kinv s" and cur: "rt_current_thread s \<noteq> None" and ok: "mb_ok (mailboxes s i)" and entry: "mb_entry (mailboxes s i) \<noteq> 0"
  obtains v q s' where "mb_contents (mailboxes s i) = v # q" "mb_get i s = Some (Return RT_EOK :: 'k call, Some v, s')"
    "mb_done i (SenderSuspended (OMailbox i)) q s s'"
proof -
  let ?m = "mailboxes s i" and ?l = "SenderSuspended (OMailbox i)"
  let ?m' = "?m\<lparr>mb_out_offset := (if mb_out_offset ?m + 1 \<ge> mb_size ?m then 0 else mb_out_offset ?m + 1), mb_entry := mb_entry ?m - 1\<rparr>"
  let ?v = "mb_msg_pool ?m ! unat (mb_out_offset ?m)"
  note st = mb_fetch [OF ok entry]
  have k: "kinv (upd_mb i (\<lambda>_. ?m') s)" "rt_current_thread (upd_mb i (\<lambda>_. ?m') s) \<noteq> None" using inv cur by simp_all
  have eq: "(mb_get i s :: ('k call \<times> u32 option \<times> kernel) option) = (let s = upd_mb i (\<lambda>_. ?m') s in if ring (thread_rings s) ?l \<noteq> [] then do {
       s \<leftarrow> ipc_list_resume ?l s; s \<leftarrow> rt_schedule s; Some (Return RT_EOK, Some ?v, s)
     } else Some (Return RT_EOK, Some ?v, s))"
    using st(3) entry by (simp add: mb_get_def Let_def word_gt_0)
  obtain s' where s': "mb_get i s = Some (Return RT_EOK :: 'k call, Some ?v, s')" "serves ?l (upd_mb i (\<lambda>_. ?m') s) s'"
    using wake_if_waiting [OF k(1) _ k(2), of "OMailbox i" ?l "\<lambda>s. (Return RT_EOK :: 'k call, Some ?v, s)"]
    unfolding eq Let_def by auto
  have "mb_done i ?l (mb_contents ?m') s s'"
    by (rule mb_doneI [OF s'(2)]) (use st in simp_all)
  then show thesis using that s'(1) st(2) by blast
qed

text \<open>
  C28. Sending a mail, on every branch. With room, the mail is appended behind the mails of the mailbox, the
  first waiting receiver is made ready and the call returns \<^verbatim>\<open>RT_EOK\<close>. When the mailbox is full, a call that may not
  wait returns \<^verbatim>\<open>-RT_EFULL\<close> and changes nothing; otherwise the sender waits in the list of senders, in the
  order the flag selects, and the mails do not change.
\<close>

theorem rt_mb_send_wait_correct:
  assumes "kinv s" "live s (OMailbox i)" "ipc_flag_ok s (OMailbox i)" "rt_current_thread s = Some t" "status s t = RT_THREAD_RUNNING"
    "rt_scheduler_lock_nest s = 0" "rt_interrupt_nest s = 0" "time < 0x7fffffff" "mb_ok (mailboxes s i)"
  shows "\<exists>r s'. rt_mb_send_wait i v time s = Some (r, s') \<and> kinv s' \<and> mb_ok (mailboxes s' i) \<and>
    (if length (mb_contents (mailboxes s i)) < unat (mb_size (mailboxes s i))
     then r = Return RT_EOK \<and> mb_done i (Suspended (OMailbox i)) (mb_contents (mailboxes s i) @ [v]) s s'
     else if time = 0 then r = Return (- RT_EFULL) \<and> s' = s
     else r = Pending (wait_state t time s) \<and> mailboxes s' = mailboxes s \<and>
       blocked (SenderSuspended (OMailbox i)) (ob_flag (objs s (OMailbox i))) t time s s')"
proof -
  let ?m = "mailboxes s i"
  note start = mb_type [OF assms(1,2)] scheduler_available(1) [OF assms(6,7,4)]
  have full: "mb_entry ?m = mb_size ?m \<longleftrightarrow> \<not> length (mb_contents ?m) < unat (mb_size ?m)"
    using mb_okD(1) [OF assms(9)] by (auto simp: word_unat_eq_iff)
  consider "mb_entry ?m \<noteq> mb_size ?m" | "mb_entry ?m = mb_size ?m" "time = 0" | "mb_entry ?m = mb_size ?m" "time \<noteq> 0" by blast
  then show ?thesis
  proof cases
    case 1
    obtain s' where s': "mb_put i v s = Some (Return RT_EOK :: wait_locals call, s')"
      "mb_done i (Suspended (OMailbox i)) (mb_contents ?m @ [v]) s s'"
      by (rule mb_put_ok [OF assms(1) _ assms(9) 1]) (use assms(4) in auto)
    then have "rt_mb_send_wait i v time s = Some (Return RT_EOK, s')"
      using start 1 by (simp add: rt_mb_send_wait_def mb_send_loop_def)
    then show ?thesis using s' mb_doneD(1,2) full 1 by auto
  next
    case 2
    then show ?thesis using start full assms(1,9) by (simp add: rt_mb_send_wait_def)
  next
    case 3
    obtain s2 s' where s': "ipc_wait (SenderSuspended (OMailbox i)) t (ob_flag (objs s (OMailbox i))) time
        (upd_thread t (\<lambda>th. th\<lparr>th_error := RT_EOK\<rparr>) s) = Some s2" "rt_schedule s2 = Some s'"
      "blocked (SenderSuspended (OMailbox i)) (ob_flag (objs s (OMailbox i))) t time s s'" "mailboxes s' = mailboxes s"
      by (rule buffer_blocks [OF assms(1-6,8)]) auto
    have "rt_mb_send_wait i v time s = Some (Pending (wait_state t time s), s')"
      using start 3 s'(1,2) assms(4) by (simp add: rt_mb_send_wait_def mb_send_loop_def rt_thread_self_def wait_state_def Let_def)
    then show ?thesis using 3 full s' assms(9) blockedD(1) by auto
  qed
qed

theorem rt_mb_send_wait_correct_witness:
  "\<exists>r s'. rt_mb_send_wait 0 9 5 (demo 3) = Some (r, s') \<and> kinv s' \<and> mb_ok (mailboxes s' 0) \<and>
    (if length (mb_contents (mailboxes (demo 3) 0)) < unat (mb_size (mailboxes (demo 3) 0))
     then r = Return RT_EOK \<and> mb_done 0 (Suspended (OMailbox 0)) (mb_contents (mailboxes (demo 3) 0) @ [9]) (demo 3) s'
     else if (5::int) = 0 then r = Return (- RT_EFULL) \<and> s' = demo 3
     else r = Pending (wait_state 1 5 (demo 3)) \<and> mailboxes s' = mailboxes (demo 3) \<and>
       blocked (SenderSuspended (OMailbox 0)) (ob_flag (objs (demo 3) (OMailbox 0))) 1 5 (demo 3) s')"
  by (rule rt_mb_send_wait_correct)
    (simp_all add: demo_kinv demo_status demo_live_iff demo_live_def demo_flag_ok mb_ok_def zero_mailbox_def)

text \<open>
  C29. Receiving a mail, on every branch. When the mailbox has mails, the oldest is removed and handed to the
  caller, the first thread waiting for room is made ready and the call returns \<^verbatim>\<open>RT_EOK\<close>. When it is empty, a
  call that may not wait returns \<^verbatim>\<open>-RT_ETIMEOUT\<close> and changes nothing; otherwise the caller waits in the list of
  receivers.
\<close>

theorem rt_mb_recv_correct:
  assumes "kinv s" "live s (OMailbox i)" "ipc_flag_ok s (OMailbox i)" "rt_current_thread s = Some t" "status s t = RT_THREAD_RUNNING"
    "rt_scheduler_lock_nest s = 0" "rt_interrupt_nest s = 0" "time < 0x7fffffff" "mb_ok (mailboxes s i)"
  shows "\<exists>r got s'. rt_mb_recv i time s = Some (r, got, s') \<and> kinv s' \<and> mb_ok (mailboxes s' i) \<and>
    (case mb_contents (mailboxes s i) of
       v # q \<Rightarrow> r = Return RT_EOK \<and> got = Some v \<and> mb_done i (SenderSuspended (OMailbox i)) q s s'
     | [] \<Rightarrow> got = None \<and>
         (if time = 0 then r = Return (- RT_ETIMEOUT) \<and> s' = s
          else r = Pending (wait_state t time s) \<and> mailboxes s' = mailboxes s \<and>
            blocked (Suspended (OMailbox i)) (ob_flag (objs s (OMailbox i))) t time s s'))"
proof -
  let ?m = "mailboxes s i"
  note start = mb_type [OF assms(1,2)] scheduler_available(1) [OF assms(6,7,4)]
  note empty = mb_contents_empty [of ?m]
  consider "mb_entry ?m \<noteq> 0" | "mb_entry ?m = 0" "time = 0" | "mb_entry ?m = 0" "time \<noteq> 0" by blast
  then show ?thesis
  proof cases
    case 1
    obtain v q s' where s': "mb_contents ?m = v # q" "mb_get i s = Some (Return RT_EOK :: wait_locals call, Some v, s')"
      "mb_done i (SenderSuspended (OMailbox i)) q s s'"
      by (rule mb_get_ok [OF assms(1) _ assms(9) 1]) (use assms(4) in auto)
    then have "rt_mb_recv i time s = Some (Return RT_EOK, Some v, s')"
      using start 1 by (simp add: rt_mb_recv_def mb_recv_loop_def)
    then show ?thesis using s' mb_doneD(1,2) by auto
  next
    case 2
    then show ?thesis using start empty assms(1,9) by (simp add: rt_mb_recv_def)
  next
    case 3
    obtain s2 s' where s': "ipc_wait (Suspended (OMailbox i)) t (ob_flag (objs s (OMailbox i))) time
        (upd_thread t (\<lambda>th. th\<lparr>th_error := RT_EOK\<rparr>) s) = Some s2" "rt_schedule s2 = Some s'"
      "blocked (Suspended (OMailbox i)) (ob_flag (objs s (OMailbox i))) t time s s'" "mailboxes s' = mailboxes s"
      by (rule buffer_blocks [OF assms(1-6,8)]) auto
    have "rt_mb_recv i time s = Some (Pending (wait_state t time s), None, s')"
      using start 3 s'(1,2) assms(4) by (simp add: rt_mb_recv_def mb_recv_loop_def rt_thread_self_def wait_state_def Let_def)
    then show ?thesis using 3 empty s' assms(9) blockedD(1) by auto
  qed
qed

theorem rt_mb_recv_correct_witness:
  "\<exists>r got s'. rt_mb_recv 0 5 (demo 3) = Some (r, got, s') \<and> kinv s' \<and> mb_ok (mailboxes s' 0) \<and>
    (case mb_contents (mailboxes (demo 3) 0) of
       v # q \<Rightarrow> r = Return RT_EOK \<and> got = Some v \<and> mb_done 0 (SenderSuspended (OMailbox 0)) q (demo 3) s'
     | [] \<Rightarrow> got = None \<and>
         (if (5::int) = 0 then r = Return (- RT_ETIMEOUT) \<and> s' = demo 3
          else r = Pending (wait_state 1 5 (demo 3)) \<and> mailboxes s' = mailboxes (demo 3) \<and>
            blocked (Suspended (OMailbox 0)) (ob_flag (objs (demo 3) (OMailbox 0))) 1 5 (demo 3) s'))"
  by (rule rt_mb_recv_correct)
    (simp_all add: demo_kinv demo_status demo_live_iff demo_live_def demo_flag_ok mb_ok_def zero_mailbox_def)

subsection \<open>A mailbox is a bounded queue\<close>

definition mb_inv :: "nat \<Rightarrow> kernel \<Rightarrow> bool" where
  "mb_inv i s \<longleftrightarrow> kinv s \<and> live s (OMailbox i) \<and> rt_current_thread s \<noteq> None \<and> mb_ok (mailboxes s i)"

lemma mb_inv_done: "mb_inv i s \<Longrightarrow> mb_done i l q s s' \<Longrightarrow> mb_inv i s'"
  using mb_doneD by (simp add: mb_inv_def)

abbreviation mb_step :: "nat \<Rightarrow> u32 buf_op \<Rightarrow> kernel \<Rightarrow> ((rt_err \<times> u32 option) \<times> kernel) option" where
  "mb_step i \<equiv> buf_step (\<lambda>v s. at_once (rt_mb_send i v s)) (\<lambda>v s. at_once (rt_mb_urgent i v s)) (\<lambda>s. at_once_with (rt_mb_recv i 0 s))"

interpretation mailbox: bounded_queue "mb_inv i" "\<lambda>s. mb_contents (mailboxes s i)" "\<lambda>s. unat (mb_size (mailboxes s i))"
  "\<lambda>_ _. True" "\<lambda>v s. at_once (rt_mb_send i v s)" "\<lambda>v s. at_once (rt_mb_urgent i v s)" "\<lambda>s. at_once_with (rt_mb_recv i 0 s)" for i
proof
  fix s v assume inv: "mb_inv i s"
  let ?m = "mailboxes s i"
  note k = inv [unfolded mb_inv_def]
  have ty: "rt_object_get_type (OMailbox i) s = RT_Object_Class_MailBox" using mb_type k by simp
  have avail: "RT_DEBUG_SCHEDULER_AVAILABLE False s = Some ()" by (simp add: RT_DEBUG_SCHEDULER_AVAILABLE_def)
  have full: "mb_entry ?m = mb_size ?m \<longleftrightarrow> \<not> unat (mb_entry ?m) < unat (mb_size ?m)"
    using mb_okD(1) [of ?m] k by (auto simp: word_unat_eq_iff)
  show "length (mb_contents ?m) \<le> unat (mb_size ?m)" using mb_okD(1) k by simp
  show "\<exists>e s'. at_once (rt_mb_send i v s) = Some (e, s') \<and> mb_inv i s' \<and> unat (mb_size (mailboxes s' i)) = unat (mb_size ?m) \<and>
      (\<lambda>_. True) = (\<lambda>_. True) \<and> ((e, None), mb_contents (mailboxes s' i)) = buf_spec (unat (mb_size ?m)) (Send v) (mb_contents ?m)"
  proof (cases "mb_entry ?m = mb_size ?m")
    case False
    obtain s' where "mb_put i v s = Some (Return RT_EOK :: wait_locals call, s')"
      "mb_done i (Suspended (OMailbox i)) (mb_contents ?m @ [v]) s s'"
      by (rule mb_put_ok [of s i v]) (use k False in auto)
    then show ?thesis using False full ty avail mb_inv_done [OF inv] mb_doneD(3,4)
      by (simp add: rt_mb_send_def rt_mb_send_wait_def mb_send_loop_def)
  qed (use ty avail full inv in \<open>simp add: rt_mb_send_def rt_mb_send_wait_def\<close>)
  show "\<exists>e s'. at_once (rt_mb_urgent i v s) = Some (e, s') \<and> mb_inv i s' \<and> unat (mb_size (mailboxes s' i)) = unat (mb_size ?m) \<and>
      (\<lambda>_. True) = (\<lambda>_. True) \<and> ((e, None), mb_contents (mailboxes s' i)) = buf_spec (unat (mb_size ?m)) (Urgent v) (mb_contents ?m)"
  proof (cases "mb_entry ?m = mb_size ?m")
    case False
    obtain s' where "rt_mb_urgent i v s = Some (Return RT_EOK, s')"
      "mb_done i (Suspended (OMailbox i)) (v # mb_contents ?m) s s'"
      by (rule rt_mb_urgent_ok [of s i v]) (use k False in auto)
    then show ?thesis using False full mb_inv_done [OF inv] mb_doneD(3,4) by simp
  qed (use ty full inv in \<open>simp add: rt_mb_urgent_def\<close>)
next
  fix s assume inv: "mb_inv i s"
  let ?m = "mailboxes s i"
  note k = inv [unfolded mb_inv_def]
  have ty: "rt_object_get_type (OMailbox i) s = RT_Object_Class_MailBox" using mb_type k by simp
  have avail: "RT_DEBUG_SCHEDULER_AVAILABLE False s = Some ()" by (simp add: RT_DEBUG_SCHEDULER_AVAILABLE_def)
  show "\<exists>e v s'. at_once_with (rt_mb_recv i 0 s) = Some (e, v, s') \<and> mb_inv i s' \<and> unat (mb_size (mailboxes s' i)) = unat (mb_size ?m) \<and>
      (\<lambda>_. True) = (\<lambda>_. True) \<and> ((e, v), mb_contents (mailboxes s' i)) = buf_spec (unat (mb_size ?m)) Recv (mb_contents ?m)"
  proof (cases "mb_entry ?m = 0")
    case True
    then have "mb_contents ?m = []" using mb_contents_empty by blast
    then show ?thesis using True ty avail inv by (simp add: rt_mb_recv_def)
  next
    case False
    obtain v q s' where s': "mb_contents ?m = v # q" "mb_get i s = Some (Return RT_EOK :: wait_locals call, Some v, s')"
      "mb_done i (SenderSuspended (OMailbox i)) q s s'"
      by (rule mb_get_ok [of s i]) (use k False in auto)
    then show ?thesis using False ty avail mb_inv_done [OF inv] mb_doneD(3,4)
      by (simp add: rt_mb_recv_def mb_recv_loop_def)
  qed
qed

text \<open>
  C9. A mailbox refines a bounded queue: any sequence of \<^verbatim>\<open>rt_mb_send\<close>, \<^verbatim>\<open>rt_mb_urgent\<close> and \<^verbatim>\<open>rt_mb_recv\<close> calls that do not
  wait returns exactly the results, errors included, of the same sequence on the list of mails with \<^verbatim>\<open>size\<close> places,
  and leaves the mails of that list.
\<close>

theorem rt_mb_refines_queue:
  assumes "mb_inv i s"
  shows "\<exists>s'. run_ops (mb_step i) ps s = Some (fst (buf_run (unat (mb_size (mailboxes s i))) ps (mb_contents (mailboxes s i))), s') \<and>
    mb_inv i s' \<and> mb_contents (mailboxes s' i) = snd (buf_run (unat (mb_size (mailboxes s i))) ps (mb_contents (mailboxes s i)))"
  using mailbox.run_refines [OF assms, of ps] by auto

lemma demo_mb_inv: "mb_inv 0 (demo 3)"
  by (simp add: mb_inv_def demo_kinv demo_live_iff demo_live_def mb_ok_def zero_mailbox_def)

lemma demo_mb_contents: "mb_contents (mailboxes (demo 3) 0) = []" "unat (mb_size (mailboxes (demo 3) 0)) = 2"
  by (simp_all add: mb_contents_def ring_read_def zero_mailbox_def)

theorem rt_mb_refines_queue_witness:
  "\<exists>s'. run_ops (mb_step 0) [Send 7, Urgent 8, Send 9, Recv, Recv, Recv] (demo 3) =
      Some ([(RT_EOK, None), (RT_EOK, None), (- RT_EFULL, None), (RT_EOK, Some 8), (RT_EOK, Some 7), (- RT_ETIMEOUT, None)], s') \<and>
    mb_inv 0 s' \<and> mb_contents (mailboxes s' 0) = []"
  using rt_mb_refines_queue [OF demo_mb_inv, of "[Send 7, Urgent 8, Send 9, Recv, Recv, Recv]"] 
  unfolding demo_mb_contents by (simp del: run_ops.simps)

text \<open>
  Mails are delivered first in, first out: after any sequence of non-waiting sends and receives, the mails
  delivered followed by the mails left are the mails that were there followed by the mails whose send returned
  \<^verbatim>\<open>RT_EOK\<close>. None is lost, duplicated or overtaken, and never more than \<^verbatim>\<open>size\<close> are stored.
\<close>

theorem rt_mb_fifo:
  assumes "mb_inv i s" "\<forall>p\<in>set ps. \<not> is_urgent p"
  shows "\<exists>rs s'. run_ops (mb_step i) ps s = Some (rs, s') \<and> mb_inv i s' \<and>
    delivered rs @ mb_contents (mailboxes s' i) = mb_contents (mailboxes s i) @ accepted ps rs \<and>
    length (mb_contents (mailboxes s' i)) \<le> unat (mb_size (mailboxes s i))"
  using mailbox.run_fifo [OF assms(1), of ps] assms(2) by simp

theorem rt_mb_fifo_witness:
  "\<exists>rs s'. run_ops (mb_step 0) [Send 7, Recv, Send 8, Send 9] (demo 3) = Some (rs, s') \<and> mb_inv 0 s' \<and>
    delivered rs @ mb_contents (mailboxes s' 0) = mb_contents (mailboxes (demo 3) 0) @ accepted [Send 7, Recv, Send 8, Send 9] rs \<and>
    length (mb_contents (mailboxes s' 0)) \<le> unat (mb_size (mailboxes (demo 3) 0))"
  by (rule rt_mb_fifo [OF demo_mb_inv]) (simp add: is_urgent_def)

subsection \<open>Waiting for mail\<close>

text \<open>
  Hand-over to a waiting receiver: let thread \<open>t\<close> be the first to wait for mail in an empty mailbox, with a cleared
  error code as \<^verbatim>\<open>rt_mb_recv\<close> left it. A send makes it ready, and when it continues its call before another thread
  takes the mail, the call returns \<^verbatim>\<open>RT_EOK\<close> with exactly the mail that was sent.
\<close>

theorem rt_mb_handover:
  assumes "mb_inv i s" "mb_entry (mailboxes s i) = 0" "mb_size (mailboxes s i) \<noteq> 0"
    "ring (thread_rings s) (Suspended (OMailbox i)) = t # ts" "th_error (threads s t) = RT_EOK" "wl_thread w = t"
  shows "\<exists>s' s''. rt_mb_send i v s = Some (Return RT_EOK, s') \<and> awake s' t \<and>
    ring (thread_rings s') (Suspended (OMailbox i)) = ts \<and>
    rt_mb_recv_resume i w s' = Some (Return RT_EOK, Some v, s'') \<and> mb_inv i s'' \<and> mb_contents (mailboxes s'' i) = []"
proof -
  let ?m = "mailboxes s i" and ?l = "Suspended (OMailbox i)"
  note k = assms(1) [unfolded mb_inv_def]
  have ty: "rt_object_get_type (OMailbox i) s = RT_Object_Class_MailBox" using mb_type k by simp
  have avail: "RT_DEBUG_SCHEDULER_AVAILABLE False s = Some ()" by (simp add: RT_DEBUG_SCHEDULER_AVAILABLE_def)
  have empty: "mb_contents ?m = []" using mb_contents_empty assms(2) by blast
  obtain s' where s': "mb_put i v s = Some (Return RT_EOK :: wait_locals call, s')" "mb_done i ?l (mb_contents ?m @ [v]) s s'"
    by (rule mb_put_ok [of s i v]) (use k assms(2,3) in auto)
  have sent: "rt_mb_send i v s = Some (Return RT_EOK, s')"
    using s'(1) ty avail assms(2,3) by (simp add: rt_mb_send_def rt_mb_send_wait_def mb_send_loop_def)
  have sv: "serves ?l (s\<lparr>mailboxes := (mailboxes s)(i := mailboxes s' i)\<rparr>) s'" using s'(2) by (simp add: mb_done_def)
  have inv': "mb_inv i s'" by (rule mb_inv_done [OF assms(1) s'(2)])
  have one: "mb_contents (mailboxes s' i) = [v]" using mb_doneD(3) [OF s'(2)] empty by simp
  then have ne: "mb_entry (mailboxes s' i) \<noteq> 0" using mb_contents_empty [of "mailboxes s' i"] by auto
  obtain s'' where s'': "mb_get i s' = Some (Return RT_EOK :: wait_locals call, Some v, s'')"
    "mb_done i (SenderSuspended (OMailbox i)) [] s' s''"
    by (rule mb_get_ok [OF _ _ _ ne]) (use inv' one in \<open>auto simp: mb_inv_def\<close>)
  have "th_error (threads s' t) = RT_EOK" using servesD(6) [OF sv, of t] assms(5) by simp
  then have "rt_mb_recv_resume i w s' = Some (Return RT_EOK, Some v, s'')"
    using assms(6) ne s''(1) by (simp add: rt_mb_recv_resume_def mb_recv_loop_def)
  moreover have "awake s' t" using servesD(8) [OF sv, of t ts] assms(4) by simp
  moreover have "ring (thread_rings s') ?l = ts" using servesD(4) [OF sv] assms(4) by simp
  ultimately show ?thesis using sent mb_inv_done [OF inv' s''(2)] mb_doneD(3) [OF s''(2)] by blast
qed

theorem rt_mb_handover_witness:
  "\<exists>s' s''. rt_mb_send 0 7 (demo_in (Suspended (OMailbox 0))) = Some (Return RT_EOK, s') \<and> awake s' 4 \<and>
    ring (thread_rings s') (Suspended (OMailbox 0)) = [] \<and>
    rt_mb_recv_resume 0 (wait_state 4 5 (demo 3)) s' = Some (Return RT_EOK, Some 7, s'') \<and> mb_inv 0 s'' \<and>
    mb_contents (mailboxes s'' 0) = []"
proof (rule rt_mb_handover)
  show "mb_inv 0 (demo_in (Suspended (OMailbox 0)))"
    using demo_mb_inv demo_in_kinv [of _ "OMailbox 0"] by (simp add: mb_inv_def demo_live_def)
qed (simp_all add: zero_mailbox_def demo_threads_def demo_thread_def zero_thread_def wait_state_def)

subsection \<open>The life of a mailbox\<close>

text \<open>
  A new mailbox works: \<^verbatim>\<open>rt_mb_init\<close> on an object that is not in use, with a pool of at least \<^verbatim>\<open>size\<close> words and a size
  that 16 bits can hold, leaves the mailbox in the container with its invariant, no mail, the given size and
  nobody waiting.
\<close>

theorem rt_mb_init_correct:
  assumes "kinv s" "\<not> live s (OMailbox i)" "readable RT_NAME_MAX name" "flag = RT_IPC_FLAG_FIFO \<or> flag = RT_IPC_FLAG_PRIO"
    "sz < 0x10000" "unat sz \<le> length pool"
  shows "\<exists>s'. rt_mb_init i name addr pool sz flag s = Some (RT_EOK, s') \<and> kinv s' \<and> live s' (OMailbox i) \<and>
    ipc_flag_ok s' (OMailbox i) \<and> mb_ok (mailboxes s' i) \<and> mb_contents (mailboxes s' i) = [] \<and>
    unat (mb_size (mailboxes s' i)) = unat sz \<and>
    ring (thread_rings s') (Suspended (OMailbox i)) = [] \<and> ring (thread_rings s') (SenderSuspended (OMailbox i)) = []"
proof -
  obtain s1 where s1: "rt_object_init (OMailbox i) (class_of (OMailbox i)) name s = Some s1" "kinv s1" "live s1 (OMailbox i)"
    "\<And>l. wait_list (OMailbox i) l \<Longrightarrow> ipc_object_init l s1 = Some s1"
    "\<And>l. wait_list (OMailbox i) l \<Longrightarrow> ring (thread_rings s1) l = []"
    by (rule ipc_init_ok [OF assms(1) _ assms(2,3)], simp, rule that)
  let ?s2 = "upd_obj (OMailbox i) (\<lambda>b. b\<lparr>ob_flag := flag\<rparr>) s1"
  let ?s = "upd_mb i (\<lambda>m. m\<lparr>mb_msg_pool := pool, mb_pool_addr := addr, mb_size := ucast sz, mb_entry := 0,
           mb_in_offset := 0, mb_out_offset := 0\<rparr>) ?s2"
  have r: "thread_rings ?s2 = thread_rings s1" by (simp add: upd_obj_def)
  have init: "ipc_object_init l (?s2\<lparr>mailboxes := M\<rparr>) = Some (?s2\<lparr>mailboxes := M\<rparr>)" "ipc_object_init l ?s2 = Some ?s2"
    if "wait_list (OMailbox i) l" for l M
    using s1(5) [OF that] r by (simp_all add: ipc_object_init_def)
  have sz: "unat (ucast sz :: u16) = unat sz"
    using assms(5) by (simp add: unsigned_ucast_eq word_less_nat_alt take_bit_nat_eq_self)
  have "rt_mb_init i name addr pool sz flag s = Some (RT_EOK, ?s)"
    using s1(1) init assms(4) by (simp add: rt_mb_init_def class_of_def upd_mb_def)
  moreover have "kinv ?s" using kinv_set_flag [OF s1(2), of "OMailbox i"] by simp
  moreover have "ipc_flag_ok ?s (OMailbox i)" using assms(4) by (simp add: upd_obj_def ipc_flag_ok_def)
  moreover have "mb_ok (mailboxes ?s i)" using assms(6) sz by (simp add: mb_ok_def word_gt_0)
  moreover have "mb_contents (mailboxes ?s i) = []" by (simp add: mb_contents_empty)
  ultimately show ?thesis using s1(3) sz r s1(5) by (intro exI [of _ ?s]) simp
qed

theorem rt_mb_init_correct_witness:
  "\<exists>s'. rt_mb_init 5 [109, 0] 0 [1, 2, 3] 3 RT_IPC_FLAG_PRIO (demo 3) = Some (RT_EOK, s') \<and> kinv s' \<and> live s' (OMailbox 5) \<and>
    ipc_flag_ok s' (OMailbox 5) \<and> mb_ok (mailboxes s' 5) \<and> mb_contents (mailboxes s' 5) = [] \<and>
    unat (mb_size (mailboxes s' 5)) = unat (3 :: u32) \<and>
    ring (thread_rings s') (Suspended (OMailbox 5)) = [] \<and> ring (thread_rings s') (SenderSuspended (OMailbox 5)) = []"
  by (rule rt_mb_init_correct) (simp_all add: demo_kinv readable_def demo_live_iff demo_live_def)

text \<open>
  Nobody waits for a mailbox that is gone: \<^verbatim>\<open>rt_mb_detach\<close> removes the mailbox, makes every thread that waited to send
  or to receive ready, and the call of each of them returns \<^verbatim>\<open>-RT_ERROR\<close>.
\<close>

theorem rt_mb_detach_correct:
  assumes "kinv s" "live s (OMailbox i)" "rt_object_is_systemobject (OMailbox i) s"
  shows "\<exists>s'. rt_mb_detach i s = Some (RT_EOK, s') \<and> kinv s' \<and> \<not> live s' (OMailbox i) \<and>
    (\<forall>t\<in>set (ring (thread_rings s) (Suspended (OMailbox i))). awake s' t \<and>
       (\<forall>w. wl_thread w = t \<longrightarrow> rt_mb_recv_resume i w s' = Some (Return (- RT_ERROR), None, s'))) \<and>
    (\<forall>t\<in>set (ring (thread_rings s) (SenderSuspended (OMailbox i))). awake s' t \<and>
       (\<forall>w v. wl_thread w = t \<longrightarrow> rt_mb_send_wait_resume i v w s' = Some (Return (- RT_ERROR), s')))"
proof -
  let ?R = "Suspended (OMailbox i)" and ?S = "SenderSuspended (OMailbox i)"
  obtain s1 s2 where s2: "ipc_list_resume_all ?R s = Some s1" "ipc_list_resume_all ?S s1 = Some s2"
    "released (set (ring (thread_rings s) ?R) \<union> set (ring (thread_rings s) ?S)) s s2"
    "ring (thread_rings s2) ?R = []" "ring (thread_rings s2) ?S = []"
    by (rule resume_two [OF assms(1), of "OMailbox i" ?R ?S]) auto
  let ?s' = "rt_object_detach (OMailbox i) s2"
  have k2: "kinv s2" using s2(3) wakesD(1) by (auto simp: released_def)
  have "kinv ?s'" by (rule ipc_detach_ok [OF k2]) (use s2(4,5) in \<open>auto simp: wait_list_def\<close>)
  moreover have "\<not> live ?s' (OMailbox i)" by simp
  moreover have "rt_mb_detach i s = Some (RT_EOK, ?s')"
    using s2(1,2) mb_type [OF assms(1,2)] assms(3) by (simp add: rt_mb_detach_def)
  moreover have "awake ?s' t \<and> th_error (threads ?s' t) = - RT_ERROR"
    if "t \<in> set (ring (thread_rings s) ?R) \<union> set (ring (thread_rings s) ?S)" for t
    using s2(3) that awake_wakes by (auto simp: released_def)
  ultimately show ?thesis
    by (intro exI [of _ ?s']) (auto simp: rt_mb_recv_resume_def rt_mb_send_wait_resume_def)
qed

theorem rt_mb_detach_correct_witness:
  "\<exists>s'. rt_mb_detach 0 (demo_in (SenderSuspended (OMailbox 0))) = Some (RT_EOK, s') \<and> kinv s' \<and> \<not> live s' (OMailbox 0) \<and>
    (\<forall>t\<in>set (ring (thread_rings (demo_in (SenderSuspended (OMailbox 0)))) (Suspended (OMailbox 0))). awake s' t \<and>
       (\<forall>w. wl_thread w = t \<longrightarrow> rt_mb_recv_resume 0 w s' = Some (Return (- RT_ERROR), None, s'))) \<and>
    (\<forall>t\<in>set (ring (thread_rings (demo_in (SenderSuspended (OMailbox 0)))) (SenderSuspended (OMailbox 0))). awake s' t \<and>
       (\<forall>w v. wl_thread w = t \<longrightarrow> rt_mb_send_wait_resume 0 v w s' = Some (Return (- RT_ERROR), s')))"
  by (rule rt_mb_detach_correct)
    (simp_all add: demo_in_kinv [of _ "OMailbox 0"] demo_live_def rt_object_is_systemobject_def class_of_def)

end
