(* ===== verification/RT_MsgQueue.thy ===== *)
theory RT_MsgQueue
  imports RT_Buffer
begin

section \<open>Message queues: \<^verbatim>\<open>src/ipc.c\<close>\<close>

text \<open>
  A message queue keeps its messages in the slots of a pool. Slots are chained by their \<^verbatim>\<open>next\<close> pointers
  into the queue (from \<^verbatim>\<open>msg_queue_head\<close> to \<^verbatim>\<open>msg_queue_tail\<close>) or into the list of free slots; a slot
  whose message is being copied is in neither.

  Sending and receiving have two critical sections with the copy of the message between them. They are
  the operations \<open>mq_alloc\<close>, \<open>mq_fill\<close>, \<open>mq_link\<close> and \<open>mq_unlink\<close>, \<open>mq_copy_out\<close>, \<open>mq_free\<close>; a call is their composition.
  Dereferencing a null pointer and copying from a buffer that is too short have no result.
\<close>

subsection \<open>Operations\<close>

definition upd_mq :: "nat \<Rightarrow> (rt_messagequeue \<Rightarrow> rt_messagequeue) \<Rightarrow> kernel \<Rightarrow> kernel" where
  "upd_mq i f s = s\<lparr>msgqueues := (msgqueues s)(i := f (msgqueues s i))\<rparr>"

text \<open>The loop that chains all slots into the list of free slots.\<close>

definition mq_init_free :: "rt_messagequeue \<Rightarrow> rt_messagequeue" where
  "mq_init_free m =
     fold (\<lambda>temp m. m\<lparr>mq_next := (mq_next m)(temp := mq_queue_free m), mq_queue_free := Some temp\<rparr>)
       [0..<unat (mq_max_msgs m)] (m\<lparr>mq_queue_free := None\<rparr>)"

text \<open>The bytes of the pool are arbitrary before the first message: \<open>junk\<close>.\<close>

definition rt_mq_init ::
  "nat \<Rightarrow> u8 list \<Rightarrow> nat \<Rightarrow> (nat \<Rightarrow> nat \<Rightarrow> u8) \<Rightarrow> u32 \<Rightarrow> u32 \<Rightarrow> u8 \<Rightarrow> kernel \<Rightarrow> (rt_err \<times> kernel) option" where
  "rt_mq_init mq name msgpool junk msg_size pool_size flag s = do {
     RT_ASSERT (flag = RT_IPC_FLAG_FIFO \<or> flag = RT_IPC_FLAG_PRIO);
     s \<leftarrow> rt_object_init (OMq mq) RT_Object_Class_MessageQueue name s;
     let s = upd_obj (OMq mq) (\<lambda>b. b\<lparr>ob_flag := flag\<rparr>) s;
     s \<leftarrow> ipc_object_init (Suspended (OMq mq)) s;
     let msize = (ucast (RT_ALIGN msg_size RT_ALIGN_SIZE) :: u16);
     let s = upd_mq mq (\<lambda>m. m\<lparr>mq_pool_addr := msgpool, mq_msg_size := msize,
           mq_data := (\<lambda>i. map (junk i) [0..<unat msize]),
           mq_max_msgs := ucast (pool_size div (ucast msize + 4)),
           mq_queue_head := None, mq_queue_tail := None\<rparr>) s;
     let s = upd_mq mq mq_init_free s;
     let s = upd_mq mq (\<lambda>m. m\<lparr>mq_entry := 0\<rparr>) s;
     s \<leftarrow> ipc_object_init (SenderSuspended (OMq mq)) s;
     Some (RT_EOK, s)
   }"

definition rt_mq_detach :: "nat \<Rightarrow> kernel \<Rightarrow> (rt_err \<times> kernel) option" where
  "rt_mq_detach mq s = do {
     RT_ASSERT (rt_object_get_type (OMq mq) s = RT_Object_Class_MessageQueue);
     RT_ASSERT (rt_object_is_systemobject (OMq mq) s);
     s \<leftarrow> ipc_list_resume_all (Suspended (OMq mq)) s;
     s \<leftarrow> ipc_list_resume_all (SenderSuspended (OMq mq)) s;
     Some (RT_EOK, rt_object_detach (OMq mq) s)
   }"

definition rt_mq_create ::
  "nat option \<Rightarrow> nat option \<Rightarrow> (nat \<Rightarrow> nat \<Rightarrow> u8) \<Rightarrow> u8 list \<Rightarrow> u32 \<Rightarrow> u32 \<Rightarrow> u8 \<Rightarrow> kernel \<Rightarrow> (nat option \<times> kernel) option" where
  "rt_mq_create mem pool_mem junk name msg_size max_msgs flag s = do {
     RT_ASSERT (flag = RT_IPC_FLAG_FIFO \<or> flag = RT_IPC_FLAG_PRIO);
     RT_DEBUG_NOT_IN_INTERRUPT s;
     (_, s) \<leftarrow> rt_object_allocate (map_option OMq mem) RT_Object_Class_MessageQueue name s;
     (case mem of
        None \<Rightarrow> Some (None, s)
      | Some mq \<Rightarrow> do {
          let s = upd_obj (OMq mq) (\<lambda>b. b\<lparr>ob_flag := flag\<rparr>) s;
          s \<leftarrow> ipc_object_init (Suspended (OMq mq)) s;
          let msize = (ucast (RT_ALIGN msg_size RT_ALIGN_SIZE) :: u16);
          let s = upd_mq mq (\<lambda>m. m\<lparr>mq_msg_size := msize, mq_max_msgs := ucast max_msgs\<rparr>) s;
          (case pool_mem of
             None \<Rightarrow> do {
               s \<leftarrow> rt_object_delete (OMq mq) s;
               Some (None, s)
             }
           | Some addr \<Rightarrow> do {
               let s = s\<lparr>heap := insert (BPool addr) (heap s)\<rparr>;
               let s = upd_mq mq (\<lambda>m. m\<lparr>mq_pool_addr := addr, mq_data := (\<lambda>i. map (junk i) [0..<unat msize]),
                     mq_queue_head := None, mq_queue_tail := None\<rparr>) s;
               let s = upd_mq mq mq_init_free s;
               let s = upd_mq mq (\<lambda>m. m\<lparr>mq_entry := 0\<rparr>) s;
               s \<leftarrow> ipc_object_init (SenderSuspended (OMq mq)) s;
               Some (Some mq, s)
             })
        })
   }"

definition rt_mq_delete :: "nat \<Rightarrow> kernel \<Rightarrow> (rt_err \<times> kernel) option" where
  "rt_mq_delete mq s = do {
     RT_ASSERT (rt_object_get_type (OMq mq) s = RT_Object_Class_MessageQueue);
     RT_ASSERT (\<not> rt_object_is_systemobject (OMq mq) s);
     RT_DEBUG_NOT_IN_INTERRUPT s;
     s \<leftarrow> ipc_list_resume_all (Suspended (OMq mq)) s;
     s \<leftarrow> ipc_list_resume_all (SenderSuspended (OMq mq)) s;
     s \<leftarrow> RT_KERNEL_FREE (BPool (mq_pool_addr (msgqueues s mq))) s;
     s \<leftarrow> rt_object_delete (OMq mq) s;
     Some (RT_EOK, s)
   }"

text \<open>First critical section of sending: take the first free slot.\<close>

definition mq_alloc :: "rt_messagequeue \<Rightarrow> (nat \<times> rt_messagequeue) option" where
  "mq_alloc m = do {
     msg \<leftarrow> mq_queue_free m;
     Some (msg, m\<lparr>mq_queue_free := mq_next m msg\<rparr>)
   }"

text \<open>\<^verbatim>\<open>rt_memcpy(msg + 1, buffer, size)\<close>.\<close>

definition mq_memcpy_in :: "nat \<Rightarrow> u8 list \<Rightarrow> u32 \<Rightarrow> rt_messagequeue \<Rightarrow> rt_messagequeue option" where
  "mq_memcpy_in msg buffer sz m = do {
     RT_ASSERT (unat sz \<le> length buffer \<and> unat sz \<le> length (mq_data m msg));
     Some (m\<lparr>mq_data := (mq_data m)(msg := take (unat sz) buffer @ drop (unat sz) (mq_data m msg))\<rparr>)
   }"

definition mq_fill :: "nat \<Rightarrow> u8 list \<Rightarrow> u32 \<Rightarrow> rt_messagequeue \<Rightarrow> rt_messagequeue option" where
  "mq_fill msg buffer sz m = mq_memcpy_in msg buffer sz (m\<lparr>mq_next := (mq_next m)(msg := None)\<rparr>)"

text \<open>Second critical section of sending: append the slot to the queue. The flag tells whether it was counted.\<close>

definition mq_link :: "nat \<Rightarrow> rt_messagequeue \<Rightarrow> bool \<times> rt_messagequeue" where
  "mq_link msg m =
     (let m = (case mq_queue_tail m of Some t \<Rightarrow> m\<lparr>mq_next := (mq_next m)(t := Some msg)\<rparr> | None \<Rightarrow> m);
          m = m\<lparr>mq_queue_tail := Some msg\<rparr>;
          m = (if mq_queue_head m = None then m\<lparr>mq_queue_head := Some msg\<rparr> else m)
      in if mq_entry m < 0xffff then (True, m\<lparr>mq_entry := mq_entry m + 1\<rparr>) else (False, m))"

definition mq_link_urgent :: "nat \<Rightarrow> rt_messagequeue \<Rightarrow> bool \<times> rt_messagequeue" where
  "mq_link_urgent msg m =
     (let m = m\<lparr>mq_next := (mq_next m)(msg := mq_queue_head m)\<rparr>;
          m = m\<lparr>mq_queue_head := Some msg\<rparr>;
          m = (if mq_queue_tail m = None then m\<lparr>mq_queue_tail := Some msg\<rparr> else m)
      in if mq_entry m < 0xffff then (True, m\<lparr>mq_entry := mq_entry m + 1\<rparr>) else (False, m))"

text \<open>The end of the second critical section: wake a receiver.\<close>

definition mq_sent :: "nat \<Rightarrow> bool \<Rightarrow> kernel \<Rightarrow> ('k call \<times> kernel) option" where
  "mq_sent mq counted s =
     (if \<not> counted then Some (Return (- RT_EFULL), s)
      else if ring (thread_rings s) (Suspended (OMq mq)) \<noteq> [] then do {
        s \<leftarrow> ipc_list_resume (Suspended (OMq mq)) s;
        s \<leftarrow> rt_schedule s;
        Some (Return RT_EOK, s)
      } else Some (Return RT_EOK, s))"

definition mq_put :: "nat \<Rightarrow> u8 list \<Rightarrow> u32 \<Rightarrow> kernel \<Rightarrow> ('k call \<times> kernel) option" where
  "mq_put mq buffer sz s = do {
     (msg, m) \<leftarrow> mq_alloc (msgqueues s mq);
     m \<leftarrow> mq_fill msg buffer sz m;
     let (counted, m) = mq_link msg m;
     mq_sent mq counted (upd_mq mq (\<lambda>_. m) s)
   }"

definition mq_send_loop ::
  "nat \<Rightarrow> u8 list \<Rightarrow> u32 \<Rightarrow> tid option \<Rightarrow> int \<Rightarrow> kernel \<Rightarrow> (wait_locals call \<times> kernel) option" where
  "mq_send_loop mq buffer sz self timeout s =
     (if mq_queue_free (msgqueues s mq) = None then do {
        thread \<leftarrow> self;
        let s = upd_thread thread (\<lambda>th. th\<lparr>th_error := RT_EOK\<rparr>) s;
        if timeout = 0 then Some (Return (- RT_EFULL), s)
        else do {
          let tick_delta = (if timeout > 0 then rt_tick_get s else 0);
          s \<leftarrow> ipc_wait (SenderSuspended (OMq mq)) thread (ob_flag (objs s (OMq mq))) timeout s;
          s \<leftarrow> rt_schedule s;
          Some (Pending \<lparr>wl_thread = thread, wl_timeout = timeout, wl_tick_delta = tick_delta\<rparr>, s)
        }
      } else mq_put mq buffer sz s)"

definition rt_mq_send_wait :: "nat \<Rightarrow> u8 list \<Rightarrow> u32 \<Rightarrow> int \<Rightarrow> kernel \<Rightarrow> (wait_locals call \<times> kernel) option" where
  "rt_mq_send_wait mq buffer sz timeout s = do {
     RT_ASSERT (rt_object_get_type (OMq mq) s = RT_Object_Class_MessageQueue);
     RT_ASSERT (sz \<noteq> 0);
     RT_DEBUG_SCHEDULER_AVAILABLE (timeout \<noteq> 0) s;
     if sz > ucast (mq_msg_size (msgqueues s mq)) then Some (Return (- RT_ERROR), s)
     else if mq_queue_free (msgqueues s mq) = None \<and> timeout = 0 then Some (Return (- RT_EFULL), s)
     else mq_send_loop mq buffer sz (rt_thread_self s) timeout s
   }"

definition rt_mq_send_wait_resume ::
  "nat \<Rightarrow> u8 list \<Rightarrow> u32 \<Rightarrow> wait_locals \<Rightarrow> kernel \<Rightarrow> (wait_locals call \<times> kernel) option" where
  "rt_mq_send_wait_resume mq buffer sz w s =
     (if th_error (threads s (wl_thread w)) \<noteq> RT_EOK then Some (Return (th_error (threads s (wl_thread w))), s)
      else mq_send_loop mq buffer sz (Some (wl_thread w)) (remaining_timeout w s) s)"

definition rt_mq_send :: "nat \<Rightarrow> u8 list \<Rightarrow> u32 \<Rightarrow> kernel \<Rightarrow> (wait_locals call \<times> kernel) option" where
  "rt_mq_send mq buffer sz s = rt_mq_send_wait mq buffer sz 0 s"

definition rt_mq_urgent :: "nat \<Rightarrow> u8 list \<Rightarrow> u32 \<Rightarrow> kernel \<Rightarrow> (wait_locals call \<times> kernel) option" where
  "rt_mq_urgent mq buffer sz s = do {
     RT_ASSERT (rt_object_get_type (OMq mq) s = RT_Object_Class_MessageQueue);
     RT_ASSERT (sz \<noteq> 0);
     if sz > ucast (mq_msg_size (msgqueues s mq)) then Some (Return (- RT_ERROR), s)
     else if mq_queue_free (msgqueues s mq) = None then Some (Return (- RT_EFULL), s)
     else do {
       (msg, m) \<leftarrow> mq_alloc (msgqueues s mq);
       m \<leftarrow> mq_memcpy_in msg buffer sz m;
       let (counted, m) = mq_link_urgent msg m;
       mq_sent mq counted (upd_mq mq (\<lambda>_. m) s)
     }
   }"

text \<open>First critical section of receiving: take the first slot out of the queue.\<close>

definition mq_unlink :: "rt_messagequeue \<Rightarrow> (nat \<times> rt_messagequeue) option" where
  "mq_unlink m = do {
     msg \<leftarrow> mq_queue_head m;
     let m = m\<lparr>mq_queue_head := mq_next m msg\<rparr>;
     let m = (if mq_queue_tail m = Some msg then m\<lparr>mq_queue_tail := None\<rparr> else m);
     let m = (if mq_entry m > 0 then m\<lparr>mq_entry := mq_entry m - 1\<rparr> else m);
     Some (msg, m)
   }"

text \<open>The bytes copied to the buffer of the receiver.\<close>

definition mq_copy_out :: "nat \<Rightarrow> u32 \<Rightarrow> rt_messagequeue \<Rightarrow> u8 list" where
  "mq_copy_out msg sz m =
     take (unat (if sz > ucast (mq_msg_size m) then ucast (mq_msg_size m) else sz)) (mq_data m msg)"

definition mq_free :: "nat \<Rightarrow> rt_messagequeue \<Rightarrow> rt_messagequeue" where
  "mq_free msg m = m\<lparr>mq_next := (mq_next m)(msg := mq_queue_free m), mq_queue_free := Some msg\<rparr>"

definition mq_get :: "nat \<Rightarrow> u32 \<Rightarrow> kernel \<Rightarrow> ('k call \<times> u8 list option \<times> kernel) option" where
  "mq_get mq sz s = do {
     (msg, m) \<leftarrow> mq_unlink (msgqueues s mq);
     let bytes = mq_copy_out msg sz m;
     let s = upd_mq mq (\<lambda>_. mq_free msg m) s;
     if ring (thread_rings s) (SenderSuspended (OMq mq)) \<noteq> [] then do {
       s \<leftarrow> ipc_list_resume (SenderSuspended (OMq mq)) s;
       s \<leftarrow> rt_schedule s;
       Some (Return RT_EOK, Some bytes, s)
     } else Some (Return RT_EOK, Some bytes, s)
   }"

definition mq_recv_loop ::
  "nat \<Rightarrow> u32 \<Rightarrow> tid option \<Rightarrow> int \<Rightarrow> kernel \<Rightarrow> (wait_locals call \<times> u8 list option \<times> kernel) option" where
  "mq_recv_loop mq sz self timeout s =
     (if mq_entry (msgqueues s mq) = 0 then do {
        thread \<leftarrow> self;
        let s = upd_thread thread (\<lambda>th. th\<lparr>th_error := RT_EOK\<rparr>) s;
        if timeout = 0
        then Some (Return (- RT_ETIMEOUT), None, upd_thread thread (\<lambda>th. th\<lparr>th_error := - RT_ETIMEOUT\<rparr>) s)
        else do {
          let tick_delta = (if timeout > 0 then rt_tick_get s else 0);
          s \<leftarrow> ipc_wait (Suspended (OMq mq)) thread (ob_flag (objs s (OMq mq))) timeout s;
          s \<leftarrow> rt_schedule s;
          Some (Pending \<lparr>wl_thread = thread, wl_timeout = timeout, wl_tick_delta = tick_delta\<rparr>, None, s)
        }
      } else mq_get mq sz s)"

definition rt_mq_recv :: "nat \<Rightarrow> u32 \<Rightarrow> int \<Rightarrow> kernel \<Rightarrow> (wait_locals call \<times> u8 list option \<times> kernel) option" where
  "rt_mq_recv mq sz timeout s = do {
     RT_ASSERT (rt_object_get_type (OMq mq) s = RT_Object_Class_MessageQueue);
     RT_ASSERT (sz \<noteq> 0);
     RT_DEBUG_SCHEDULER_AVAILABLE (timeout \<noteq> 0) s;
     if mq_entry (msgqueues s mq) = 0 \<and> timeout = 0 then Some (Return (- RT_ETIMEOUT), None, s)
     else mq_recv_loop mq sz (rt_thread_self s) timeout s
   }"

definition rt_mq_recv_resume ::
  "nat \<Rightarrow> u32 \<Rightarrow> wait_locals \<Rightarrow> kernel \<Rightarrow> (wait_locals call \<times> u8 list option \<times> kernel) option" where
  "rt_mq_recv_resume mq sz w s =
     (if th_error (threads s (wl_thread w)) \<noteq> RT_EOK
      then Some (Return (th_error (threads s (wl_thread w))), None, s)
      else mq_recv_loop mq sz (Some (wl_thread w)) (remaining_timeout w s) s)"

text \<open>The loop of a reset: all slots of the queue are freed.\<close>

partial_function (option) mq_reset_loop :: "rt_messagequeue \<Rightarrow> rt_messagequeue option" where
  "mq_reset_loop m =
     (case mq_queue_head m of
        None \<Rightarrow> Some m
      | Some msg \<Rightarrow>
          (let m = m\<lparr>mq_queue_head := mq_next m msg\<rparr>;
               m = (if mq_queue_tail m = Some msg then m\<lparr>mq_queue_tail := None\<rparr> else m)
           in mq_reset_loop (mq_free msg m)))"

definition rt_mq_control :: "nat \<Rightarrow> int \<Rightarrow> kernel \<Rightarrow> (rt_err \<times> kernel) option" where
  "rt_mq_control mq cmd s = do {
     RT_ASSERT (rt_object_get_type (OMq mq) s = RT_Object_Class_MessageQueue);
     if cmd = RT_IPC_CMD_RESET then do {
       s \<leftarrow> ipc_list_resume_all (Suspended (OMq mq)) s;
       s \<leftarrow> ipc_list_resume_all (SenderSuspended (OMq mq)) s;
       m \<leftarrow> mq_reset_loop (msgqueues s mq);
       let s = upd_mq mq (\<lambda>_. m\<lparr>mq_entry := 0\<rparr>) s;
       s \<leftarrow> rt_schedule s;
       Some (RT_EOK, s)
     } else Some (- RT_ERROR, s)
   }"

subsection \<open>Chains of slots\<close>

text \<open>The slots \<open>xs\<close> are chained by the \<^verbatim>\<open>next\<close> pointers, starting with the slot that \<open>p\<close> points to.\<close>

fun chain :: "(nat \<Rightarrow> nat option) \<Rightarrow> nat option \<Rightarrow> nat list \<Rightarrow> bool" where
  "chain n p [] \<longleftrightarrow> p = None"
| "chain n p (x # xs) \<longleftrightarrow> p = Some x \<and> chain n (n x) xs"

text \<open>The slots met by following at most \<open>k\<close> pointers.\<close>

fun mq_walk :: "nat \<Rightarrow> (nat \<Rightarrow> nat option) \<Rightarrow> nat option \<Rightarrow> nat list" where
  "mq_walk 0 n p = []"
| "mq_walk (Suc k) n p = (case p of None \<Rightarrow> [] | Some x \<Rightarrow> x # mq_walk k n (n x))"

lemma chain_walk: "chain n p xs \<Longrightarrow> mq_walk (length xs) n p = xs"
  by (induction xs arbitrary: p) auto

lemma chain_cong: "(\<And>x. x \<in> set xs \<Longrightarrow> n' x = n x) \<Longrightarrow> chain n' p xs = chain n p xs"
  by (induction xs arbitrary: p) auto

lemma chain_fun_upd [simp]: "x \<notin> set xs \<Longrightarrow> chain (n(x := y)) p xs = chain n p xs"
  by (rule chain_cong) auto

lemma chain_snoc:
  "chain n p xs \<Longrightarrow> xs \<noteq> [] \<Longrightarrow> distinct xs \<Longrightarrow> x \<notin> set xs \<Longrightarrow> n x = None \<Longrightarrow> chain (n(last xs := Some x)) p (xs @ [x])"
proof (induction xs arbitrary: p)
  case (Cons y ys)
  then show ?case by (cases "ys = []") auto
qed simp

subsection \<open>The invariant of a message queue\<close>

text \<open>
  \<open>mq_rep m q f p\<close>: the slots of the pool are, each once, the slots \<open>q\<close> of the queue from head to tail, the free slots \<open>f\<close>
  and the slots \<open>p\<close> that some thread has taken and not yet linked; the counter is the length of the queue.
\<close>

definition mq_chains :: "rt_messagequeue \<Rightarrow> nat list \<Rightarrow> nat list \<Rightarrow> nat list \<Rightarrow> bool" where
  "mq_chains m q f p \<longleftrightarrow> chain (mq_next m) (mq_queue_head m) q \<and> chain (mq_next m) (mq_queue_free m) f \<and>
     distinct (q @ f @ p) \<and> set (q @ f @ p) = {..<unat (mq_max_msgs m)} \<and>
     mq_queue_tail m = (if q = [] then None else Some (last q)) \<and>
     (\<forall>i<unat (mq_max_msgs m). length (mq_data m i) = unat (mq_msg_size m))"

definition mq_rep :: "rt_messagequeue \<Rightarrow> nat list \<Rightarrow> nat list \<Rightarrow> nat list \<Rightarrow> bool" where
  "mq_rep m q f p \<longleftrightarrow> mq_chains m q f p \<and> unat (mq_entry m) = length q"

text \<open>Between the calls no slot is in flight.\<close>

definition mq_ok :: "rt_messagequeue \<Rightarrow> bool" where
  "mq_ok m \<longleftrightarrow> (\<exists>q f. mq_rep m q f [])"

definition mq_contents :: "rt_messagequeue \<Rightarrow> u8 list list" where
  "mq_contents m = map (mq_data m) (mq_walk (unat (mq_entry m)) (mq_next m) (mq_queue_head m))"

lemma mq_rep_contents: "mq_rep m q f p \<Longrightarrow> mq_contents m = map (mq_data m) q"
  unfolding mq_contents_def using chain_walk [of "mq_next m" "mq_queue_head m" q] by (auto simp: mq_rep_def mq_chains_def)

lemma mq_rep_count:
  assumes "mq_rep m q f p"
  shows "length q + length f + length p = unat (mq_max_msgs m)" "length q + length f + length p < 65536"
proof -
  have "card (set (q @ f @ p)) = length (q @ f @ p)" using assms by (intro distinct_card) (simp add: mq_rep_def mq_chains_def)
  then show 1: "length q + length f + length p = unat (mq_max_msgs m)" using assms by (simp add: mq_rep_def mq_chains_def)
  have "unat (mq_max_msgs m) < 2 ^ LENGTH(16)" by (rule unsigned_less)
  then show "length q + length f + length p < 65536" using 1 by simp
qed

lemma mq_rep_not_full:
  assumes "mq_rep m q f p" "x \<in> set p"
  shows "mq_entry m < 0xffff"
proof -
  have "unat (mq_entry m) < 65535"
    using mq_rep_count(2) [OF assms(1)] length_pos_if_in_set [OF assms(2)] assms(1) unfolding mq_rep_def by linarith
  then show ?thesis by (simp add: word_less_nat_alt)
qed

lemma mq_rep_free: "mq_rep m q f p \<Longrightarrow> mq_queue_free m = None \<longleftrightarrow> f = []"
  by (cases f) (auto simp: mq_rep_def mq_chains_def)

text \<open>The effect of each critical section on the chains.\<close>

lemma mq_alloc_rep:
  assumes "mq_rep m q (x # f) p"
  shows "mq_alloc m = Some (x, m\<lparr>mq_queue_free := mq_next m x\<rparr>)" "mq_rep (m\<lparr>mq_queue_free := mq_next m x\<rparr>) q f (x # p)"
  using assms by (auto simp: mq_alloc_def mq_rep_def mq_chains_def)

lemma unat_size [simp]: "unat (ucast (w :: u16) :: u32) = unat w"
proof -
  have "unat w < 2 ^ LENGTH(16)" by (rule unsigned_less)
  then show ?thesis by (simp add: unsigned_ucast_eq take_bit_nat_eq_self)
qed

lemma mq_fill_rep:
  assumes "mq_rep m q f p" "x \<in> set p" "sz \<le> ucast (mq_msg_size m)" "unat sz \<le> length buffer"
  defines "m' \<equiv> m\<lparr>mq_next := (mq_next m)(x := None), mq_data := (mq_data m)(x := take (unat sz) buffer @ drop (unat sz) (mq_data m x))\<rparr>"
  shows "mq_fill x buffer sz m = Some m'" "mq_rep m' q f p"
proof -
  have x: "x < unat (mq_max_msgs m)" "x \<notin> set q" "x \<notin> set f" using assms(1,2) by (auto simp: mq_rep_def mq_chains_def)
  have sz: "unat sz \<le> unat (mq_msg_size m)"
    using assms(3) by (simp add: word_le_nat_alt unat_size)
  have len: "length (mq_data m x) = unat (mq_msg_size m)" using x(1) assms(1) by (simp add: mq_rep_def mq_chains_def)
  then show "mq_fill x buffer sz m = Some m'" using sz assms(4) by (simp add: mq_fill_def mq_memcpy_in_def m'_def)
  show "mq_rep m' q f p" using assms(1,4) x sz len by (auto simp: mq_rep_def mq_chains_def m'_def)
qed

lemma mq_link_rep:
  assumes rep: "mq_rep m q f p" and x: "x \<in> set p" and nx: "mq_next m x = None"
  obtains m' where "mq_link x m = (True, m')" "mq_rep m' (q @ [x]) f (remove1 x p)" "mq_data m' = mq_data m"
    "mq_msg_size m' = mq_msg_size m" "mq_max_msgs m' = mq_max_msgs m"
proof -
  have d: "distinct (q @ f @ p)" "chain (mq_next m) (mq_queue_head m) q" "chain (mq_next m) (mq_queue_free m) f"
    "set (q @ f @ p) = {..<unat (mq_max_msgs m)}" "mq_queue_tail m = (if q = [] then None else Some (last q))"
    "unat (mq_entry m) = length q"
    using rep by (auto simp: mq_rep_def mq_chains_def)
  have xn: "x \<notin> set q" "x \<notin> set f" using d(1) x by auto
  note lt = mq_rep_not_full [OF rep x]
  have set: "distinct ((q @ [x]) @ f @ remove1 x p)" "set ((q @ [x]) @ f @ remove1 x p) = {..<unat (mq_max_msgs m)}"
    using d(1,4) x by (auto simp: set_remove1_eq)
  let ?n = "(case mq_queue_tail m of Some t \<Rightarrow> (mq_next m)(t := Some x) | None \<Rightarrow> mq_next m)"
  let ?m' = "m\<lparr>mq_next := ?n, mq_queue_tail := Some x,
    mq_queue_head := (if mq_queue_head m = None then Some x else mq_queue_head m), mq_entry := mq_entry m + 1\<rparr>"
  have head: "mq_queue_head m = None \<longleftrightarrow> q = []" using d(2) by (cases q) auto
  have eq: "mq_link x m = (True, ?m')"
    using lt by (cases "mq_queue_tail m"; cases "mq_queue_head m") (simp_all add: mq_link_def)
  have q: "chain ?n (mq_queue_head ?m') (q @ [x])"
    using d nx head chain_snoc [OF d(2) _ _ xn(1) nx] by (cases "q = []") auto
  have f: "chain ?n (mq_queue_free m) f"
  proof (cases "q = []")
    case False
    then have "last q \<notin> set f" using d(1) last_in_set by auto
    then show ?thesis using False d(3,5) by simp
  qed (use d(3,5) in simp)
  have "mq_rep ?m' (q @ [x]) f (remove1 x p)"
    unfolding mq_rep_def mq_chains_def
    using q f set d(6) rep unat_inc16 [OF lt] by (simp add: mq_rep_def mq_chains_def)
  then show thesis using that [OF eq] by simp
qed

lemma mq_link_urgent_rep:
  assumes rep: "mq_rep m q f p" and x: "x \<in> set p"
  obtains m' where "mq_link_urgent x m = (True, m')" "mq_rep m' (x # q) f (remove1 x p)" "mq_data m' = mq_data m"
    "mq_msg_size m' = mq_msg_size m" "mq_max_msgs m' = mq_max_msgs m"
proof -
  have d: "distinct (q @ f @ p)" "chain (mq_next m) (mq_queue_head m) q" "chain (mq_next m) (mq_queue_free m) f"
    "set (q @ f @ p) = {..<unat (mq_max_msgs m)}" "mq_queue_tail m = (if q = [] then None else Some (last q))"
    "unat (mq_entry m) = length q"
    using rep by (auto simp: mq_rep_def mq_chains_def)
  have xn: "x \<notin> set q" "x \<notin> set f" using d(1) x by auto
  note lt = mq_rep_not_full [OF rep x]
  have set: "distinct ((x # q) @ f @ remove1 x p)" "set ((x # q) @ f @ remove1 x p) = {..<unat (mq_max_msgs m)}"
    using d(1,4) x by (auto simp: set_remove1_eq)
  let ?m' = "m\<lparr>mq_next := (mq_next m)(x := mq_queue_head m), mq_queue_head := Some x,
    mq_queue_tail := (if mq_queue_tail m = None then Some x else mq_queue_tail m), mq_entry := mq_entry m + 1\<rparr>"
  have eq: "mq_link_urgent x m = (True, ?m')"
    using lt by (cases "mq_queue_tail m") (simp_all add: mq_link_urgent_def Let_def)
  have "mq_rep ?m' (x # q) f (remove1 x p)"
    unfolding mq_rep_def mq_chains_def
    using set xn d rep unat_inc16 [OF lt] by (simp add: mq_rep_def mq_chains_def)
  then show thesis using that [OF eq] by simp
qed

lemma mq_unlink_rep:
  assumes rep: "mq_rep m (x # q) f p"
  obtains m' where "mq_unlink m = Some (x, m')" "mq_rep m' q f (x # p)" "mq_data m' = mq_data m"
    "mq_msg_size m' = mq_msg_size m" "mq_max_msgs m' = mq_max_msgs m"
proof -
  have d: "distinct ((x # q) @ f @ p)" "mq_queue_head m = Some x" "mq_queue_tail m = Some (last (x # q))"
    "unat (mq_entry m) = Suc (length q)"
    using rep by (auto simp: mq_rep_def mq_chains_def)
  have ne: "mq_entry m \<noteq> 0" using d(4) by auto
  let ?m' = "m\<lparr>mq_queue_head := mq_next m x, mq_queue_tail := (if q = [] then None else Some (last q)), mq_entry := mq_entry m - 1\<rparr>"
  have last: "last (x # q) = x \<longleftrightarrow> q = []" using d(1) last_in_set [of q] by auto
  have eq: "mq_unlink m = Some (x, ?m')"
    using d(2,3) last ne by (cases "q = []") (auto simp: mq_unlink_def word_gt_0)
  have "mq_rep ?m' q f (x # p)" using rep unat_dec [OF ne] by (auto simp: mq_rep_def mq_chains_def)
  then show thesis using that [OF eq] by simp
qed

lemma mq_free_rep:
  assumes rep: "mq_rep m q f p" and x: "x \<in> set p"
  shows "mq_rep (mq_free x m) q (x # f) (remove1 x p)"
proof -
  have "distinct (q @ (x # f) @ remove1 x p)" "set (q @ (x # f) @ remove1 x p) = {..<unat (mq_max_msgs m)}" "x \<notin> set q" "x \<notin> set f"
    using rep x by (auto simp: set_remove1_eq mq_rep_def mq_chains_def)
  then show ?thesis using rep by (simp add: mq_rep_def mq_chains_def mq_free_def)
qed

subsection \<open>Sending and receiving\<close>

lemma upd_mq_fields [simp]:
  "thread_rings (upd_mq i f s) = thread_rings s" "threads (upd_mq i f s) = threads s" "objs (upd_mq i f s) = objs s"
  "msgqueues (upd_mq i f s) = (msgqueues s)(i := f (msgqueues s i))" "rt_current_thread (upd_mq i f s) = rt_current_thread s"
  "kinv (upd_mq i f s) = kinv s" "live (upd_mq i f s) = live s" "status (upd_mq i f s) = status s" "rt_tick (upd_mq i f s) = rt_tick s"
  by (simp_all add: upd_mq_def)

lemma mq_type: "kinv s \<Longrightarrow> live s (OMq i) \<Longrightarrow> rt_object_get_type (OMq i) s = RT_Object_Class_MessageQueue"
  using rt_object_get_type_live [of s "OMq i"] by (simp add: class_of_def)

lemma mq_rep_okI: "mq_rep m q f [] \<Longrightarrow> mq_ok m"
  by (auto simp: mq_ok_def)

text \<open>A successful operation leaves a queue with contents \<open>q\<close>, and has served the list \<open>l\<close>.\<close>

definition mq_done :: "nat \<Rightarrow> thread_list \<Rightarrow> u8 list list \<Rightarrow> kernel \<Rightarrow> kernel \<Rightarrow> bool" where
  "mq_done i l q s s' \<longleftrightarrow> mq_ok (msgqueues s' i) \<and> mq_contents (msgqueues s' i) = q \<and>
     mq_max_msgs (msgqueues s' i) = mq_max_msgs (msgqueues s i) \<and> mq_msg_size (msgqueues s' i) = mq_msg_size (msgqueues s i) \<and>
     serves l (s\<lparr>msgqueues := (msgqueues s)(i := msgqueues s' i)\<rparr>) s'"

lemma mq_doneI:
  assumes "serves l (upd_mq i (\<lambda>_. m) s) s'" "mq_ok m" "mq_contents m = q" "mq_max_msgs m = mq_max_msgs (msgqueues s i)"
    "mq_msg_size m = mq_msg_size (msgqueues s i)"
  shows "mq_done i l q s s'"
proof -
  have "msgqueues s' = (msgqueues s)(i := m)" using core_step_fields(5) [OF servesD(2) [OF assms(1)]] by simp
  then show ?thesis using assms by (simp add: mq_done_def upd_mq_def)
qed

lemma mq_doneD:
  assumes "mq_done i l q s s'"
  shows "kinv s'" "mq_ok (msgqueues s' i)" "mq_contents (msgqueues s' i) = q"
    "mq_max_msgs (msgqueues s' i) = mq_max_msgs (msgqueues s i)" "mq_msg_size (msgqueues s' i) = mq_msg_size (msgqueues s i)"
    "live s' = live s" "rt_current_thread s \<noteq> None \<Longrightarrow> rt_current_thread s' \<noteq> None"
  using assms servesD by (auto simp: mq_done_def)

lemma mq_sent_ok:
  assumes "kinv s" "rt_current_thread s \<noteq> None"
  obtains s' where "mq_sent i True s = Some (Return RT_EOK :: 'k call, s')" "serves (Suspended (OMq i)) s s'"
proof -
  have "\<exists>s'. mq_sent i True s = Some (Return RT_EOK :: 'k call, s') \<and> serves (Suspended (OMq i)) s s'"
    unfolding mq_sent_def not_True_eq_False if_False by (rule wake_if_waiting [OF assms(1) _ assms(2)]) simp
  then show thesis using that by blast
qed

text \<open>The bytes of a slot after a message was copied into it: the tail of a shorter message is what was there before.\<close>

lemma mq_put_data:
  assumes ok: "mq_ok m" and free: "mq_queue_free m \<noteq> None" and sz: "sz \<le> ucast (mq_msg_size m)" "unat sz \<le> length buffer"
  obtains x m1 m2 m3 rest where "mq_alloc m = Some (x, m1)" "mq_fill x buffer sz m1 = Some m2" "mq_link x m2 = (True, m3)"
    "mq_ok m3" "mq_contents m3 = mq_contents m @ [take (unat sz) buffer @ rest]" "length rest = unat (mq_msg_size m) - unat sz"
    "mq_max_msgs m3 = mq_max_msgs m" "mq_msg_size m3 = mq_msg_size m"
proof -
  obtain q f where r: "mq_rep m q f []" using ok by (auto simp: mq_ok_def)
  then obtain x f' where f: "f = x # f'" using free mq_rep_free [OF r] by (cases f) auto
  let ?m1 = "m\<lparr>mq_queue_free := mq_next m x\<rparr>"
  let ?bytes = "take (unat sz) buffer @ drop (unat sz) (mq_data m x)"
  let ?m2 = "?m1\<lparr>mq_next := (mq_next ?m1)(x := None), mq_data := (mq_data ?m1)(x := ?bytes)\<rparr>"
  have 1: "mq_alloc m = Some (x, ?m1)" "mq_rep ?m1 q f' [x]" using mq_alloc_rep r f by auto
  have 2: "mq_fill x buffer sz ?m1 = Some ?m2" "mq_rep ?m2 q f' [x]"
    using mq_fill_rep [OF 1(2), of x sz buffer] sz by auto
  obtain m3 where 3: "mq_link x ?m2 = (True, m3)" "mq_rep m3 (q @ [x]) f' (remove1 x [x])" "mq_data m3 = mq_data ?m2"
    "mq_msg_size m3 = mq_msg_size ?m2" "mq_max_msgs m3 = mq_max_msgs ?m2"
    by (rule mq_link_rep [OF 2(2), of x]) auto
  have x: "x \<notin> set q" "x < unat (mq_max_msgs m)" using r f by (auto simp: mq_rep_def mq_chains_def)
  have "mq_contents m3 = mq_contents m @ [?bytes]"
    using mq_rep_contents [OF 3(2)] mq_rep_contents [OF r] 3(3) x(1) by auto
  moreover have "length (drop (unat sz) (mq_data m x)) = unat (mq_msg_size m) - unat sz"
    using r x(2) by (simp add: mq_rep_def mq_chains_def)
  moreover have "mq_ok m3" using 3(2) mq_rep_okI [of m3] by simp
  ultimately show thesis using that [OF 1(1) 2(1) 3(1)] 3(4,5) by simp
qed

lemma mq_put_urgent_data:
  assumes ok: "mq_ok m" and free: "mq_queue_free m \<noteq> None" and sz: "sz \<le> ucast (mq_msg_size m)" "unat sz \<le> length buffer"
  obtains x m1 m2 m3 rest where "mq_alloc m = Some (x, m1)" "mq_memcpy_in x buffer sz m1 = Some m2" "mq_link_urgent x m2 = (True, m3)"
    "mq_ok m3" "mq_contents m3 = (take (unat sz) buffer @ rest) # mq_contents m" "length rest = unat (mq_msg_size m) - unat sz"
    "mq_max_msgs m3 = mq_max_msgs m" "mq_msg_size m3 = mq_msg_size m"
proof -
  obtain q f where r: "mq_rep m q f []" using ok by (auto simp: mq_ok_def)
  then obtain x f' where f: "f = x # f'" using free mq_rep_free [OF r] by (cases f) auto
  let ?m1 = "m\<lparr>mq_queue_free := mq_next m x\<rparr>"
  let ?bytes = "take (unat sz) buffer @ drop (unat sz) (mq_data m x)"
  let ?m2 = "?m1\<lparr>mq_data := (mq_data ?m1)(x := ?bytes)\<rparr>"
  have 1: "mq_alloc m = Some (x, ?m1)" "mq_rep ?m1 q f' [x]" using mq_alloc_rep r f by auto
  have x: "x \<notin> set q" "x < unat (mq_max_msgs m)" using r f by (auto simp: mq_rep_def mq_chains_def)
  have len: "length (mq_data m x) = unat (mq_msg_size m)" using r x(2) by (simp add: mq_rep_def mq_chains_def)
  have sz': "unat sz \<le> unat (mq_msg_size m)" using sz(1) by (simp add: word_le_nat_alt)
  have 2: "mq_memcpy_in x buffer sz ?m1 = Some ?m2" using len sz' sz(2) by (simp add: mq_memcpy_in_def)
  have "mq_rep ?m2 q f' [x]" using 1(2) len sz' sz(2) by (auto simp: mq_rep_def mq_chains_def)
  then obtain m3 where 3: "mq_link_urgent x ?m2 = (True, m3)" "mq_rep m3 (x # q) f' (remove1 x [x])" "mq_data m3 = mq_data ?m2"
    "mq_msg_size m3 = mq_msg_size ?m2" "mq_max_msgs m3 = mq_max_msgs ?m2"
    by (rule mq_link_urgent_rep [of ?m2 q f' "[x]" x]) auto
  have "mq_contents m3 = ?bytes # mq_contents m"
    using mq_rep_contents [OF 3(2)] mq_rep_contents [OF r] 3(3) x(1) by auto
  moreover have "length (drop (unat sz) (mq_data m x)) = unat (mq_msg_size m) - unat sz" using len by simp
  moreover have "mq_ok m3" using 3(2) mq_rep_okI [of m3] by simp
  ultimately show thesis using that [OF 1(1) 2 3(1)] 3(4,5) by simp
qed

lemma mq_get_data:
  assumes ok: "mq_ok m" and entry: "mq_entry m \<noteq> 0"
  obtains x m1 where "mq_unlink m = Some (x, m1)" "mq_ok (mq_free x m1)"
    "mq_contents m = mq_data m1 x # mq_contents (mq_free x m1)" "length (mq_data m1 x) = unat (mq_msg_size m)"
    "mq_max_msgs (mq_free x m1) = mq_max_msgs m" "mq_msg_size m1 = mq_msg_size m" "mq_msg_size (mq_free x m1) = mq_msg_size m"
proof -
  obtain q f where r: "mq_rep m q f []" using ok by (auto simp: mq_ok_def)
  have "q \<noteq> []" using r entry by (auto simp: mq_rep_def unat_eq_0)
  then obtain x q' where q: "q = x # q'" by (cases q) auto
  obtain m1 where 1: "mq_unlink m = Some (x, m1)" "mq_rep m1 q' f [x]" "mq_data m1 = mq_data m"
    "mq_msg_size m1 = mq_msg_size m" "mq_max_msgs m1 = mq_max_msgs m"
    by (rule mq_unlink_rep [OF r [unfolded q]])
  have 2: "mq_rep (mq_free x m1) q' (x # f) []" using mq_free_rep [OF 1(2), of x] by simp
  have fd: "mq_data (mq_free x m1) = mq_data m" "mq_max_msgs (mq_free x m1) = mq_max_msgs m" "mq_msg_size (mq_free x m1) = mq_msg_size m"
    using 1 by (simp_all add: mq_free_def)
  have "x < unat (mq_max_msgs m)" using r q by (auto simp: mq_rep_def mq_chains_def)
  then have "length (mq_data m1 x) = unat (mq_msg_size m)" using r 1(3) by (simp add: mq_rep_def mq_chains_def)
  then show thesis
    using that [OF 1(1) mq_rep_okI [OF 2]] mq_rep_contents [OF r] mq_rep_contents [OF 2] fd q 1(3,4) by simp
qed

lemma mq_put_ok:
  assumes inv: "kinv s" and cur: "rt_current_thread s \<noteq> None" and ok: "mq_ok (msgqueues s i)"
    and free: "mq_queue_free (msgqueues s i) \<noteq> None" and sz: "sz \<le> ucast (mq_msg_size (msgqueues s i))" "unat sz \<le> length buffer"
  obtains rest s' where "mq_put i buffer sz s = Some (Return RT_EOK :: 'k call, s')"
    "length rest = unat (mq_msg_size (msgqueues s i)) - unat sz"
    "mq_done i (Suspended (OMq i)) (mq_contents (msgqueues s i) @ [take (unat sz) buffer @ rest]) s s'"
proof -
  let ?m = "msgqueues s i" and ?l = "Suspended (OMq i)"
  obtain x m1 m2 m3 rest where d: "mq_alloc ?m = Some (x, m1)" "mq_fill x buffer sz m1 = Some m2" "mq_link x m2 = (True, m3)"
    "mq_ok m3" "mq_contents m3 = mq_contents ?m @ [take (unat sz) buffer @ rest]" "length rest = unat (mq_msg_size ?m) - unat sz"
    "mq_max_msgs m3 = mq_max_msgs ?m" "mq_msg_size m3 = mq_msg_size ?m"
    by (rule mq_put_data [OF ok free sz], rule that)
  obtain s' where s': "mq_sent i True (upd_mq i (\<lambda>_. m3) s) = Some (Return RT_EOK :: 'k call, s')" "serves ?l (upd_mq i (\<lambda>_. m3) s) s'"
    by (rule mq_sent_ok [of "upd_mq i (\<lambda>_. m3) s"]) (use inv cur in auto)
  have "mq_put i buffer sz s = Some (Return RT_EOK :: 'k call, s')" using d(1-3) s'(1) by (simp add: mq_put_def)
  then show thesis using that [OF _ d(6)] mq_doneI [OF s'(2) d(4,5,7,8)] by blast
qed

lemma rt_mq_urgent_ok:
  assumes inv: "kinv s" and live: "live s (OMq i)" and cur: "rt_current_thread s \<noteq> None" and ok: "mq_ok (msgqueues s i)"
    and free: "mq_queue_free (msgqueues s i) \<noteq> None" and sz: "sz \<le> ucast (mq_msg_size (msgqueues s i))" "unat sz \<le> length buffer"
    and nz: "sz \<noteq> 0"
  obtains rest s' where "rt_mq_urgent i buffer sz s = Some (Return RT_EOK, s')"
    "length rest = unat (mq_msg_size (msgqueues s i)) - unat sz"
    "mq_done i (Suspended (OMq i)) ((take (unat sz) buffer @ rest) # mq_contents (msgqueues s i)) s s'"
proof -
  let ?m = "msgqueues s i" and ?l = "Suspended (OMq i)"
  obtain x m1 m2 m3 rest where d: "mq_alloc ?m = Some (x, m1)" "mq_memcpy_in x buffer sz m1 = Some m2" "mq_link_urgent x m2 = (True, m3)"
    "mq_ok m3" "mq_contents m3 = (take (unat sz) buffer @ rest) # mq_contents ?m" "length rest = unat (mq_msg_size ?m) - unat sz"
    "mq_max_msgs m3 = mq_max_msgs ?m" "mq_msg_size m3 = mq_msg_size ?m"
    by (rule mq_put_urgent_data [OF ok free sz], rule that)
  obtain s' where s': "mq_sent i True (upd_mq i (\<lambda>_. m3) s) = Some (Return RT_EOK :: wait_locals call, s')" "serves ?l (upd_mq i (\<lambda>_. m3) s) s'"
    by (rule mq_sent_ok [of "upd_mq i (\<lambda>_. m3) s"]) (use inv cur in auto)
  have "rt_mq_urgent i buffer sz s = Some (Return RT_EOK, s')"
    using d(1-3) s'(1) mq_type [OF inv live] free nz sz(1) by (simp add: rt_mq_urgent_def not_less)
  then show thesis using that [OF _ d(6)] mq_doneI [OF s'(2) d(4,5,7,8)] by blast
qed

lemma mq_get_ok:
  assumes inv: "kinv s" and cur: "rt_current_thread s \<noteq> None" and ok: "mq_ok (msgqueues s i)" and entry: "mq_entry (msgqueues s i) \<noteq> 0"
  obtains v q s' where "mq_contents (msgqueues s i) = v # q" "length v = unat (mq_msg_size (msgqueues s i))"
    "mq_get i sz s = Some (Return RT_EOK :: 'k call, Some (take (unat sz) v), s')" "mq_done i (SenderSuspended (OMq i)) q s s'"
proof -
  let ?m = "msgqueues s i" and ?l = "SenderSuspended (OMq i)"
  obtain x m1 where d: "mq_unlink ?m = Some (x, m1)" "mq_ok (mq_free x m1)"
    "mq_contents ?m = mq_data m1 x # mq_contents (mq_free x m1)" "length (mq_data m1 x) = unat (mq_msg_size ?m)"
    "mq_max_msgs (mq_free x m1) = mq_max_msgs ?m" "mq_msg_size m1 = mq_msg_size ?m" "mq_msg_size (mq_free x m1) = mq_msg_size ?m"
    by (rule mq_get_data [OF ok entry], rule that)
  let ?s = "upd_mq i (\<lambda>_. mq_free x m1) s" and ?v = "take (unat sz) (mq_data m1 x)"
  have bytes: "mq_copy_out x sz m1 = ?v"
    using d(4,6) by (cases "sz > ucast (mq_msg_size m1)") (simp_all add: mq_copy_out_def word_less_nat_alt)
  have k: "kinv ?s" "rt_current_thread ?s \<noteq> None" using inv cur by simp_all
  have "\<exists>s'. mq_get i sz s = Some (Return RT_EOK :: 'k call, Some ?v, s') \<and> serves ?l ?s s'"
    unfolding mq_get_def d(1) Option.bind.simps Let_def case_prod_conv bytes
    by (rule wake_if_waiting [OF k(1) _ k(2), of "OMq i"]) simp
  then show thesis using that [OF d(3,4)] mq_doneI [OF _ d(2) refl d(5,7)] by blast
qed

text \<open>Emptiness and fullness in terms of the messages.\<close>

lemma mq_ok_facts:
  assumes "mq_ok m"
  shows "length (mq_contents m) = unat (mq_entry m)" "mq_contents m = [] \<longleftrightarrow> mq_entry m = 0"
    "length (mq_contents m) \<le> unat (mq_max_msgs m)" "mq_queue_free m = None \<longleftrightarrow> \<not> length (mq_contents m) < unat (mq_max_msgs m)"
proof -
  obtain q f where r: "mq_rep m q f []" using assms by (auto simp: mq_ok_def)
  note c = mq_rep_contents [OF r] mq_rep_count(1) [OF r] mq_rep_free [OF r]
  show len: "length (mq_contents m) = unat (mq_entry m)" using r c(1) by (simp add: mq_rep_def)
  then show "mq_contents m = [] \<longleftrightarrow> mq_entry m = 0" by (metis length_0_conv unat_eq_0)
  show "length (mq_contents m) \<le> unat (mq_max_msgs m)" "mq_queue_free m = None \<longleftrightarrow> \<not> length (mq_contents m) < unat (mq_max_msgs m)"
    using c by (cases f, auto)+
qed

text \<open>A state for examples: message queue 0 has two slots of four bytes.\<close>

definition demo_mq :: "kernel" where
  "demo_mq = (demo 3)\<lparr>msgqueues := (\<lambda>_. zero_mq\<lparr>mq_next := (\<lambda>_. None)(1 := Some 0), mq_data := (\<lambda>_. [0, 0, 0, 0]),
     mq_msg_size := 4, mq_max_msgs := 2, mq_queue_free := Some 1\<rparr>)\<rparr>"

lemma demo_mq_ok: "mq_ok (msgqueues demo_mq i)" "mq_contents (msgqueues demo_mq i) = []" "mq_max_msgs (msgqueues demo_mq i) = 2"
  "mq_msg_size (msgqueues demo_mq i) = 4"
proof -
  have "mq_rep (msgqueues demo_mq i) [] [1, 0] []"
    by (auto simp: mq_rep_def mq_chains_def demo_mq_def zero_mq_def)
  then show "mq_ok (msgqueues demo_mq i)" by (rule mq_rep_okI)
qed (simp_all add: mq_contents_def demo_mq_def zero_mq_def)

lemma demo_mq_state: "kinv demo_mq" "live demo_mq (OMq 0)" "ipc_flag_ok demo_mq (OMq 0)" "rt_current_thread demo_mq = Some 1"
  "status demo_mq 1 = RT_THREAD_RUNNING" "rt_scheduler_lock_nest demo_mq = 0" "rt_interrupt_nest demo_mq = 0"
  using demo_flag_ok [of 3 "OMq 0"]
  by (simp_all add: demo_mq_def demo_kinv demo_live_iff demo_live_def demo_status ipc_flag_ok_def)

text \<open>
  C30. Sending a message, on every branch. A message longer than the slots is refused with \<^verbatim>\<open>-RT_ERROR\<close>. With a free slot,
  the message is appended behind the messages of the queue, its first \<^verbatim>\<open>size\<close> bytes are the bytes of the buffer,
  the first waiting receiver is made ready and the call returns \<^verbatim>\<open>RT_EOK\<close>. When the queue is full, a call that may
  not wait returns \<^verbatim>\<open>-RT_EFULL\<close> and changes nothing; otherwise the sender waits in the list of senders.
\<close>

theorem rt_mq_send_wait_correct:
  assumes "kinv s" "live s (OMq i)" "ipc_flag_ok s (OMq i)" "rt_current_thread s = Some t" "status s t = RT_THREAD_RUNNING"
    "rt_scheduler_lock_nest s = 0" "rt_interrupt_nest s = 0" "time < 0x7fffffff" "mq_ok (msgqueues s i)" "sz \<noteq> 0" "unat sz \<le> length buffer"
  shows "\<exists>r s'. rt_mq_send_wait i buffer sz time s = Some (r, s') \<and> kinv s' \<and> mq_ok (msgqueues s' i) \<and>
    (if unat sz > unat (mq_msg_size (msgqueues s i)) then r = Return (- RT_ERROR) \<and> s' = s
     else if length (mq_contents (msgqueues s i)) < unat (mq_max_msgs (msgqueues s i))
     then r = Return RT_EOK \<and> (\<exists>rest. length rest = unat (mq_msg_size (msgqueues s i)) - unat sz \<and>
       mq_done i (Suspended (OMq i)) (mq_contents (msgqueues s i) @ [take (unat sz) buffer @ rest]) s s')
     else if time = 0 then r = Return (- RT_EFULL) \<and> s' = s
     else r = Pending (wait_state t time s) \<and> msgqueues s' = msgqueues s \<and>
       blocked (SenderSuspended (OMq i)) (ob_flag (objs s (OMq i))) t time s s')"
proof -
  let ?m = "msgqueues s i"
  note start = mq_type [OF assms(1,2)] scheduler_available(1) [OF assms(6,7,4)] assms(10)
  note full = mq_ok_facts(4) [OF assms(9)]
  have sz: "ucast (mq_msg_size ?m) < sz \<longleftrightarrow> unat (mq_msg_size ?m) < unat sz" by (simp add: word_less_nat_alt)
  consider "unat (mq_msg_size ?m) < unat sz" | "\<not> unat (mq_msg_size ?m) < unat sz" "mq_queue_free ?m \<noteq> None"
    | "\<not> unat (mq_msg_size ?m) < unat sz" "mq_queue_free ?m = None" "time = 0"
    | "\<not> unat (mq_msg_size ?m) < unat sz" "mq_queue_free ?m = None" "time \<noteq> 0" by blast
  then show ?thesis
  proof cases
    case 1
    then show ?thesis using start sz assms(1,9) by (simp add: rt_mq_send_wait_def)
  next
    case 2
    have le: "sz \<le> ucast (mq_msg_size ?m)" using 2(1) by (simp add: word_le_nat_alt)
    obtain rest s' where s': "mq_put i buffer sz s = Some (Return RT_EOK :: wait_locals call, s')"
      "length rest = unat (mq_msg_size ?m) - unat sz"
      "mq_done i (Suspended (OMq i)) (mq_contents ?m @ [take (unat sz) buffer @ rest]) s s'"
      by (rule mq_put_ok [OF assms(1) _ assms(9) 2(2) le assms(11)]) (use assms(4) in auto)
    then have "rt_mq_send_wait i buffer sz time s = Some (Return RT_EOK, s')"
      using start 2 sz by (auto simp: rt_mq_send_wait_def mq_send_loop_def)
    then show ?thesis using s' mq_doneD(1,2) full 2 by auto
  next
    case 3
    then show ?thesis using start full sz assms(1,9) by (simp add: rt_mq_send_wait_def)
  next
    case 4
    obtain s2 s' where s': "ipc_wait (SenderSuspended (OMq i)) t (ob_flag (objs s (OMq i))) time
        (upd_thread t (\<lambda>th. th\<lparr>th_error := RT_EOK\<rparr>) s) = Some s2" "rt_schedule s2 = Some s'"
      "blocked (SenderSuspended (OMq i)) (ob_flag (objs s (OMq i))) t time s s'" "msgqueues s' = msgqueues s"
      by (rule buffer_blocks [OF assms(1-6,8)]) auto
    have "rt_mq_send_wait i buffer sz time s = Some (Pending (wait_state t time s), s')"
      using start 4 sz s'(1,2) assms(4) by (simp add: rt_mq_send_wait_def mq_send_loop_def rt_thread_self_def wait_state_def Let_def)
    then show ?thesis using 4 full s' assms(9) blockedD(1) by auto
  qed
qed

theorem rt_mq_send_wait_correct_witness:
  "\<exists>r s'. rt_mq_send_wait 0 [1, 2, 3] 3 5 demo_mq = Some (r, s') \<and> kinv s' \<and> mq_ok (msgqueues s' 0) \<and>
    (if unat (3 :: u32) > unat (mq_msg_size (msgqueues demo_mq 0)) then r = Return (- RT_ERROR) \<and> s' = demo_mq
     else if length (mq_contents (msgqueues demo_mq 0)) < unat (mq_max_msgs (msgqueues demo_mq 0))
     then r = Return RT_EOK \<and> (\<exists>rest. length rest = unat (mq_msg_size (msgqueues demo_mq 0)) - unat (3 :: u32) \<and>
       mq_done 0 (Suspended (OMq 0)) (mq_contents (msgqueues demo_mq 0) @ [take (unat (3 :: u32)) [1, 2, 3] @ rest]) demo_mq s')
     else if (5::int) = 0 then r = Return (- RT_EFULL) \<and> s' = demo_mq
     else r = Pending (wait_state 1 5 demo_mq) \<and> msgqueues s' = msgqueues demo_mq \<and>
       blocked (SenderSuspended (OMq 0)) (ob_flag (objs demo_mq (OMq 0))) 1 5 demo_mq s')"
  by (rule rt_mq_send_wait_correct [OF demo_mq_state]) (simp_all add: demo_mq_ok)

text \<open>
  C31. Receiving a message, on every branch. When the queue has messages, the oldest is removed, its bytes (at most
  as many as the caller asks for) are handed to the caller, the first waiting sender is made ready and the call
  returns \<^verbatim>\<open>RT_EOK\<close>. When it is empty, a call that may not wait returns \<^verbatim>\<open>-RT_ETIMEOUT\<close> and changes nothing; otherwise
  the caller waits in the list of receivers.
\<close>

theorem rt_mq_recv_correct:
  assumes "kinv s" "live s (OMq i)" "ipc_flag_ok s (OMq i)" "rt_current_thread s = Some t" "status s t = RT_THREAD_RUNNING"
    "rt_scheduler_lock_nest s = 0" "rt_interrupt_nest s = 0" "time < 0x7fffffff" "mq_ok (msgqueues s i)" "sz \<noteq> 0"
  shows "\<exists>r got s'. rt_mq_recv i sz time s = Some (r, got, s') \<and> kinv s' \<and> mq_ok (msgqueues s' i) \<and>
    (case mq_contents (msgqueues s i) of
       v # q \<Rightarrow> r = Return RT_EOK \<and> got = Some (take (unat sz) v) \<and> mq_done i (SenderSuspended (OMq i)) q s s'
     | [] \<Rightarrow> got = None \<and>
         (if time = 0 then r = Return (- RT_ETIMEOUT) \<and> s' = s
          else r = Pending (wait_state t time s) \<and> msgqueues s' = msgqueues s \<and>
            blocked (Suspended (OMq i)) (ob_flag (objs s (OMq i))) t time s s'))"
proof -
  let ?m = "msgqueues s i"
  note start = mq_type [OF assms(1,2)] scheduler_available(1) [OF assms(6,7,4)] assms(10)
  note empty = mq_ok_facts(2) [OF assms(9)]
  consider "mq_entry ?m \<noteq> 0" | "mq_entry ?m = 0" "time = 0" | "mq_entry ?m = 0" "time \<noteq> 0" by blast
  then show ?thesis
  proof cases
    case 1
    obtain v q s' where s': "mq_contents ?m = v # q" "mq_get i sz s = Some (Return RT_EOK :: wait_locals call, Some (take (unat sz) v), s')"
      "mq_done i (SenderSuspended (OMq i)) q s s'"
      by (rule mq_get_ok [OF assms(1) _ assms(9) 1]) (use assms(4) in auto)
    then have "rt_mq_recv i sz time s = Some (Return RT_EOK, Some (take (unat sz) v), s')"
      using start 1 by (simp add: rt_mq_recv_def mq_recv_loop_def)
    then show ?thesis using s' mq_doneD(1,2) by auto
  next
    case 2
    then show ?thesis using start empty assms(1,9) by (simp add: rt_mq_recv_def)
  next
    case 3
    obtain s2 s' where s': "ipc_wait (Suspended (OMq i)) t (ob_flag (objs s (OMq i))) time
        (upd_thread t (\<lambda>th. th\<lparr>th_error := RT_EOK\<rparr>) s) = Some s2" "rt_schedule s2 = Some s'"
      "blocked (Suspended (OMq i)) (ob_flag (objs s (OMq i))) t time s s'" "msgqueues s' = msgqueues s"
      by (rule buffer_blocks [OF assms(1-6,8)]) auto
    have "rt_mq_recv i sz time s = Some (Pending (wait_state t time s), None, s')"
      using start 3 s'(1,2) assms(4) by (simp add: rt_mq_recv_def mq_recv_loop_def rt_thread_self_def wait_state_def Let_def)
    then show ?thesis using 3 empty s' assms(9) blockedD(1) by auto
  qed
qed

theorem rt_mq_recv_correct_witness:
  "\<exists>r got s'. rt_mq_recv 0 3 5 demo_mq = Some (r, got, s') \<and> kinv s' \<and> mq_ok (msgqueues s' 0) \<and>
    (case mq_contents (msgqueues demo_mq 0) of
       v # q \<Rightarrow> r = Return RT_EOK \<and> got = Some (take (unat (3 :: u32)) v) \<and> mq_done 0 (SenderSuspended (OMq 0)) q demo_mq s'
     | [] \<Rightarrow> got = None \<and>
         (if (5::int) = 0 then r = Return (- RT_ETIMEOUT) \<and> s' = demo_mq
          else r = Pending (wait_state 1 5 demo_mq) \<and> msgqueues s' = msgqueues demo_mq \<and>
            blocked (Suspended (OMq 0)) (ob_flag (objs demo_mq (OMq 0))) 1 5 demo_mq s'))"
  by (rule rt_mq_recv_correct [OF demo_mq_state]) (simp_all add: demo_mq_ok)

subsection \<open>A message queue is a bounded queue\<close>

definition mq_inv :: "nat \<Rightarrow> kernel \<Rightarrow> bool" where
  "mq_inv i s \<longleftrightarrow> kinv s \<and> live s (OMq i) \<and> rt_current_thread s \<noteq> None \<and> mq_ok (msgqueues s i) \<and> mq_msg_size (msgqueues s i) \<noteq> 0"

lemma mq_inv_done: "mq_inv i s \<Longrightarrow> mq_done i l q s s' \<Longrightarrow> mq_inv i s'"
  using mq_doneD by (simp add: mq_inv_def)

text \<open>Users who send and receive whole messages: every message has the size of the slots.\<close>

abbreviation mq_step :: "nat \<Rightarrow> u8 list buf_op \<Rightarrow> kernel \<Rightarrow> ((rt_err \<times> u8 list option) \<times> kernel) option" where
  "mq_step i \<equiv> buf_step (\<lambda>v s. at_once (rt_mq_send i v (of_nat (length v)) s)) (\<lambda>v s. at_once (rt_mq_urgent i v (of_nat (length v)) s))
     (\<lambda>s. at_once_with (rt_mq_recv i (ucast (mq_msg_size (msgqueues s i))) 0 s))"

definition mq_fits :: "nat \<Rightarrow> kernel \<Rightarrow> u8 list \<Rightarrow> bool" where
  "mq_fits i s v \<longleftrightarrow> length v = unat (mq_msg_size (msgqueues s i))"

lemma mq_size_word:
  assumes "mq_fits i s v"
  shows "(of_nat (length v) :: u32) = ucast (mq_msg_size (msgqueues s i))"
  using assms by (simp add: mq_fits_def)

lemma mq_inv_size: "mq_inv i s \<Longrightarrow> (ucast (mq_msg_size (msgqueues s i)) :: u32) \<noteq> 0"
  by (metis mq_inv_def unat_eq_0 unat_size)

interpretation msgqueue: bounded_queue "mq_inv i" "\<lambda>s. mq_contents (msgqueues s i)" "\<lambda>s. unat (mq_max_msgs (msgqueues s i))"
  "mq_fits i" "\<lambda>v s. at_once (rt_mq_send i v (of_nat (length v)) s)" "\<lambda>v s. at_once (rt_mq_urgent i v (of_nat (length v)) s)"
  "\<lambda>s. at_once_with (rt_mq_recv i (ucast (mq_msg_size (msgqueues s i))) 0 s)" for i
proof
  fix s v assume inv: "mq_inv i s"
  let ?m = "msgqueues s i"
  note k = inv [unfolded mq_inv_def]
  have ty: "rt_object_get_type (OMq i) s = RT_Object_Class_MessageQueue" using mq_type k by simp
  have avail: "RT_DEBUG_SCHEDULER_AVAILABLE False s = Some ()" by (simp add: RT_DEBUG_SCHEDULER_AVAILABLE_def)
  note facts = mq_ok_facts [of ?m] and nz = mq_inv_size [OF inv]
  show "length (mq_contents ?m) \<le> unat (mq_max_msgs ?m)" using facts k by simp
  assume fits: "mq_fits i s v"
  then have len: "length v = unat (mq_msg_size ?m)" by (simp add: mq_fits_def)
  have after: "mq_inv i s' \<and> unat (mq_max_msgs (msgqueues s' i)) = unat (mq_max_msgs ?m) \<and> mq_fits i s' = mq_fits i s"
    if "mq_done i l q s s'" for l q s'
    using mq_inv_done [OF inv that] mq_doneD [OF that] by (simp add: mq_fits_def fun_eq_iff)
  show "\<exists>e s'. at_once (rt_mq_send i v (of_nat (length v)) s) = Some (e, s') \<and> mq_inv i s' \<and>
      unat (mq_max_msgs (msgqueues s' i)) = unat (mq_max_msgs ?m) \<and> mq_fits i s' = mq_fits i s \<and>
      ((e, None), mq_contents (msgqueues s' i)) = buf_spec (unat (mq_max_msgs ?m)) (Send v) (mq_contents ?m)"
  proof (cases "mq_queue_free ?m = None")
    case False
    obtain rest s' where s': "mq_put i v (ucast (mq_msg_size ?m)) s = Some (Return RT_EOK :: wait_locals call, s')"
      "length rest = unat (mq_msg_size ?m) - unat (ucast (mq_msg_size ?m) :: u32)"
      "mq_done i (Suspended (OMq i)) (mq_contents ?m @ [take (unat (ucast (mq_msg_size ?m) :: u32)) v @ rest]) s s'"
      by (rule mq_put_ok [of s i "ucast (mq_msg_size ?m)" v]) (use k False len in auto)
    then have "mq_done i (Suspended (OMq i)) (mq_contents ?m @ [v]) s s'" using len by simp
    then show ?thesis using s'(1) False facts(4) k ty avail nz after mq_doneD(3) mq_size_word [OF fits]
      by (auto simp: rt_mq_send_def rt_mq_send_wait_def mq_send_loop_def)
  qed (use ty avail facts(4) k nz inv mq_size_word [OF fits] in \<open>auto simp: rt_mq_send_def rt_mq_send_wait_def\<close>)
  show "\<exists>e s'. at_once (rt_mq_urgent i v (of_nat (length v)) s) = Some (e, s') \<and> mq_inv i s' \<and>
      unat (mq_max_msgs (msgqueues s' i)) = unat (mq_max_msgs ?m) \<and> mq_fits i s' = mq_fits i s \<and>
      ((e, None), mq_contents (msgqueues s' i)) = buf_spec (unat (mq_max_msgs ?m)) (Urgent v) (mq_contents ?m)"
  proof (cases "mq_queue_free ?m = None")
    case False
    obtain rest s' where s': "rt_mq_urgent i v (ucast (mq_msg_size ?m)) s = Some (Return RT_EOK, s')"
      "length rest = unat (mq_msg_size ?m) - unat (ucast (mq_msg_size ?m) :: u32)"
      "mq_done i (Suspended (OMq i)) ((take (unat (ucast (mq_msg_size ?m) :: u32)) v @ rest) # mq_contents ?m) s s'"
      by (rule rt_mq_urgent_ok [of s i "ucast (mq_msg_size ?m)" v]) (use k False len nz in auto)
    then have "mq_done i (Suspended (OMq i)) (v # mq_contents ?m) s s'" using len by simp
    then show ?thesis using s'(1) False facts(4) k after mq_doneD(3) mq_size_word [OF fits] by auto
  qed (use ty facts(4) k nz inv mq_size_word [OF fits] in \<open>auto simp: rt_mq_urgent_def\<close>)
next
  fix s assume inv: "mq_inv i s"
  let ?m = "msgqueues s i" and ?sz = "ucast (mq_msg_size (msgqueues s i)) :: u32"
  note k = inv [unfolded mq_inv_def]
  have ty: "rt_object_get_type (OMq i) s = RT_Object_Class_MessageQueue" using mq_type k by simp
  have avail: "RT_DEBUG_SCHEDULER_AVAILABLE False s = Some ()" by (simp add: RT_DEBUG_SCHEDULER_AVAILABLE_def)
  note facts = mq_ok_facts [of ?m] and nz = mq_inv_size [OF inv]
  show "\<exists>e v s'. at_once_with (rt_mq_recv i ?sz 0 s) = Some (e, v, s') \<and> mq_inv i s' \<and>
      unat (mq_max_msgs (msgqueues s' i)) = unat (mq_max_msgs ?m) \<and> mq_fits i s' = mq_fits i s \<and>
      ((e, v), mq_contents (msgqueues s' i)) = buf_spec (unat (mq_max_msgs ?m)) Recv (mq_contents ?m)"
  proof (cases "mq_entry ?m = 0")
    case True
    then have "mq_contents ?m = []" using facts(2) k by simp
    then show ?thesis using True ty avail inv nz by (simp add: rt_mq_recv_def)
  next
    case False
    obtain v q s' where s': "mq_contents ?m = v # q" "length v = unat (mq_msg_size ?m)"
      "mq_get i ?sz s = Some (Return RT_EOK :: wait_locals call, Some (take (unat ?sz) v), s')" "mq_done i (SenderSuspended (OMq i)) q s s'"
      by (rule mq_get_ok [where s = s and i = i and sz = ?sz]) (use k False in auto)
    moreover have "mq_fits i s' = mq_fits i s" using mq_doneD(5) [OF s'(4)] by (simp add: mq_fits_def fun_eq_iff)
    ultimately show ?thesis using False ty avail nz mq_inv_done [OF inv] mq_doneD(3,4)
      by (simp add: rt_mq_recv_def mq_recv_loop_def)
  qed
qed


lemma demo_mq_inv: "mq_inv 0 demo_mq"
  using demo_mq_state demo_mq_ok [of 0] by (simp add: mq_inv_def)


text \<open>
  Messages are delivered first in, first out: after any sequence of non-waiting sends and receives of whole
  messages, the messages delivered followed by those left are the messages that were there followed by those whose
  send returned \<^verbatim>\<open>RT_EOK\<close>. None is lost, duplicated, changed or overtaken.
\<close>

theorem rt_mq_fifo:
  assumes "mq_inv i s" "\<forall>p\<in>set ps. op_fits (mq_fits i s) p \<and> \<not> is_urgent p"
  shows "\<exists>rs s'. run_ops (mq_step i) ps s = Some (rs, s') \<and> mq_inv i s' \<and>
    delivered rs @ mq_contents (msgqueues s' i) = mq_contents (msgqueues s i) @ accepted ps rs \<and>
    length (mq_contents (msgqueues s' i)) \<le> unat (mq_max_msgs (msgqueues s i))"
  using msgqueue.run_fifo [OF assms] .

theorem rt_mq_fifo_witness:
  "\<exists>rs s'. run_ops (mq_step 0) [Send [1, 2, 3, 4], Recv, Send [5, 6, 7, 8]] demo_mq = Some (rs, s') \<and> mq_inv 0 s' \<and>
    delivered rs @ mq_contents (msgqueues s' 0) =
      mq_contents (msgqueues demo_mq 0) @ accepted [Send [1, 2, 3, 4], Recv, Send [5, 6, 7, 8]] rs \<and>
    length (mq_contents (msgqueues s' 0)) \<le> unat (mq_max_msgs (msgqueues demo_mq 0))"
  by (rule rt_mq_fifo [OF demo_mq_inv]) (simp add: is_urgent_def op_fits_def mq_fits_def demo_mq_ok)

subsection \<open>The life of a message queue\<close>

text \<open>The loop that builds the list of free slots.\<close>

lemma init_free_loop:
  fixes m k
  defines "m' \<equiv> fold (\<lambda>temp m. m\<lparr>mq_next := (mq_next m)(temp := mq_queue_free m), mq_queue_free := Some temp\<rparr>) [0..<k]
    (m\<lparr>mq_queue_free := None\<rparr>)"
  shows "chain (mq_next m') (mq_queue_free m') (rev [0..<k])"
    "m'\<lparr>mq_next := n, mq_queue_free := f\<rparr> = m\<lparr>mq_next := n, mq_queue_free := f\<rparr>"
  unfolding m'_def by (induction k) (simp_all del: fold_simps add: fold_simps)

lemma mq_init_free_rep:
  assumes "mq_queue_head m = None" "mq_queue_tail m = None" "\<And>i. length (mq_data m i) = unat (mq_msg_size m)"
  shows "mq_chains (mq_init_free m) [] (rev [0..<unat (mq_max_msgs m)]) []"
    "mq_max_msgs (mq_init_free m) = mq_max_msgs m" "mq_msg_size (mq_init_free m) = mq_msg_size m"
proof -
  note l = init_free_loop [where m = m and k = "unat (mq_max_msgs m)", folded mq_init_free_def]
  have "mq_data (mq_init_free m) = mq_data m" "mq_queue_head (mq_init_free m) = mq_queue_head m"
    "mq_queue_tail (mq_init_free m) = mq_queue_tail m" and sz: "mq_max_msgs (mq_init_free m) = mq_max_msgs m"
    "mq_msg_size (mq_init_free m) = mq_msg_size m"
    using l(2) [THEN arg_cong, of mq_data] l(2) [THEN arg_cong, of mq_queue_head] l(2) [THEN arg_cong, of mq_queue_tail]
      l(2) [THEN arg_cong, of mq_max_msgs] l(2) [THEN arg_cong, of mq_msg_size] by simp_all
  then show "mq_chains (mq_init_free m) [] (rev [0..<unat (mq_max_msgs m)]) []" using l(1) assms by (auto simp: mq_chains_def)
  show "mq_max_msgs (mq_init_free m) = mq_max_msgs m" "mq_msg_size (mq_init_free m) = mq_msg_size m" by (fact sz)+
qed

text \<open>Emptying the queue ends after one round for each message.\<close>

lemma mq_reset_loop_ok:
  "mq_chains m q f [] \<Longrightarrow> \<exists>m'. mq_reset_loop m = Some m' \<and> mq_chains m' [] (rev q @ f) [] \<and>
     mq_max_msgs m' = mq_max_msgs m \<and> mq_msg_size m' = mq_msg_size m"
proof (induction q arbitrary: m f)
  case Nil
  then show ?case by (subst mq_reset_loop.simps) (auto simp: mq_chains_def)
next
  case (Cons x q)
  let ?m = "m\<lparr>mq_queue_head := mq_next m x\<rparr>"
  let ?m1 = "if mq_queue_tail ?m = Some x then ?m\<lparr>mq_queue_tail := None\<rparr> else ?m"
  have last: "last (x # q) = x \<longleftrightarrow> q = []" using Cons.prems last_in_set [of q] by (auto simp: mq_chains_def)
  have step: "mq_reset_loop m = mq_reset_loop (mq_free x ?m1)"
    using Cons.prems by (subst mq_reset_loop.simps) (simp add: mq_chains_def Let_def)
  have "mq_chains (mq_free x ?m1) q (x # f) []"
    using Cons.prems last by (cases "q = []") (auto simp: mq_chains_def mq_free_def)
  from Cons.IH [OF this] show ?case
    unfolding step by (cases "mq_queue_tail m = Some x") (auto simp: mq_free_def)
qed

text \<open>
  A new message queue works, and its slots lie inside the pool: \<^verbatim>\<open>rt_mq_init\<close> rounds the message size up to a multiple of
  four, carves as many slots (a pointer and a message each) as the pool holds, chains all of them into the list of
  free slots, and leaves the queue in the container with its invariant and no message.
\<close>

theorem rt_mq_init_correct:
  assumes "kinv s" "\<not> live s (OMq i)" "readable RT_NAME_MAX name" "flag = RT_IPC_FLAG_FIFO \<or> flag = RT_IPC_FLAG_PRIO"
    "msg_size \<le> 0xfffc" "unat pool_size div (4 * ((unat msg_size + 3) div 4) + 4) < 65536"
  shows "\<exists>s'. rt_mq_init i name addr junk msg_size pool_size flag s = Some (RT_EOK, s') \<and> kinv s' \<and> live s' (OMq i) \<and>
    ipc_flag_ok s' (OMq i) \<and> mq_ok (msgqueues s' i) \<and> mq_contents (msgqueues s' i) = [] \<and>
    unat msg_size \<le> unat (mq_msg_size (msgqueues s' i)) \<and> unat (mq_msg_size (msgqueues s' i)) < unat msg_size + 4 \<and>
    4 dvd unat (mq_msg_size (msgqueues s' i)) \<and>
    unat (mq_max_msgs (msgqueues s' i)) = unat pool_size div (unat (mq_msg_size (msgqueues s' i)) + 4) \<and>
    unat (mq_max_msgs (msgqueues s' i)) * (unat (mq_msg_size (msgqueues s' i)) + 4) \<le> unat pool_size"
proof -
  let ?a = "4 * ((unat msg_size + 3) div 4)" and ?msize = "ucast (RT_ALIGN msg_size RT_ALIGN_SIZE) :: u16"
  have le: "unat msg_size \<le> 65532" using assms(5) by (simp add: word_le_nat_alt)
  have "unat (RT_ALIGN msg_size RT_ALIGN_SIZE) = ?a" using unat_align [of msg_size] le by (simp add: word_le_nat_alt)
  moreover have "?a < 65536" using le by simp
  ultimately have ms: "unat ?msize = ?a" by (simp add: unsigned_ucast_eq take_bit_nat_eq_self)
  have "(unat msg_size + 3) div 4 \<le> 16383" using div_le_mono [of "unat msg_size + 3" 65535 4] le by simp
  then have a: "unat msg_size \<le> ?a" "?a < unat msg_size + 4" "?a \<le> 65532" by linarith+
  have "unat (ucast ?msize + 4 :: u32) = ?a + 4" using ms a(3) by (simp add: unat_word_ariths)
  then have "unat (pool_size div (ucast ?msize + 4)) = unat pool_size div (?a + 4)" by (simp add: unat_div_distrib)
  then have mx: "unat (ucast (pool_size div (ucast ?msize + 4)) :: u16) = unat pool_size div (?a + 4)"
    using assms(6) by (simp add: unsigned_ucast_eq take_bit_nat_eq_self)
  obtain s1 where s1: "rt_object_init (OMq i) (class_of (OMq i)) name s = Some s1" "kinv s1" "live s1 (OMq i)"
    "\<And>l. wait_list (OMq i) l \<Longrightarrow> ring (thread_rings s1) l = []"
    by (rule ipc_init_ok [OF assms(1) _ assms(2,3)], simp, rule that)
  let ?s2 = "upd_obj (OMq i) (\<lambda>b. b\<lparr>ob_flag := flag\<rparr>) s1"
  let ?m = "(msgqueues ?s2 i)\<lparr>mq_pool_addr := addr, mq_msg_size := ?msize, mq_data := (\<lambda>i. map (junk i) [0..<unat ?msize]),
           mq_max_msgs := ucast (pool_size div (ucast ?msize + 4)), mq_queue_head := None, mq_queue_tail := None\<rparr>"
  let ?m' = "(mq_init_free ?m)\<lparr>mq_entry := 0\<rparr>"
  let ?s = "upd_mq i (\<lambda>_. ?m') ?s2"
  have init: "ipc_object_init l ?s2 = Some ?s2" "ipc_object_init l ?s = Some ?s" if "wait_list (OMq i) l" for l
    using s1(4) [OF that] by (simp_all add: ipc_object_init_def) (simp_all add: upd_obj_def)
  have st: "upd_mq i (\<lambda>m. m\<lparr>mq_entry := 0\<rparr>) (upd_mq i mq_init_free (upd_mq i (\<lambda>_. ?m) ?s2)) = ?s" by (simp add: upd_mq_def)
  have run: "rt_mq_init i name addr junk msg_size pool_size flag s = Some (RT_EOK, ?s)"
    using s1(1) init [of "Suspended (OMq i)"] init [of "SenderSuspended (OMq i)"] assms(4) st
    by (simp add: rt_mq_init_def class_of_def Let_def upd_mq_def)
  note rep = mq_init_free_rep [of ?m]
  have "mq_rep ?m' [] (rev [0..<unat (mq_max_msgs ?m)]) []" using rep(1) by (simp add: mq_rep_def mq_chains_def)
  moreover from this have "mq_contents ?m' = []" using mq_rep_contents by fastforce
  moreover have "kinv ?s" using kinv_set_flag [OF s1(2), of "OMq i"] by simp
  moreover have "ipc_flag_ok ?s (OMq i)" using assms(4) by (simp add: upd_obj_def ipc_flag_ok_def)
  moreover have "unat (mq_msg_size ?m') = ?a" "unat (mq_max_msgs ?m') = unat pool_size div (?a + 4)" using rep(2,3) ms mx by simp_all
  ultimately show ?thesis using run s1(3) mq_rep_okI a
    by (intro exI [of _ ?s]) (simp add: div_times_less_eq_dividend)
qed

theorem rt_mq_init_correct_witness:
  "\<exists>s'. rt_mq_init 5 [113, 0] 0 (\<lambda>_ _. 0) 5 100 RT_IPC_FLAG_FIFO (demo 3) = Some (RT_EOK, s') \<and> kinv s' \<and> live s' (OMq 5) \<and>
    ipc_flag_ok s' (OMq 5) \<and> mq_ok (msgqueues s' 5) \<and> mq_contents (msgqueues s' 5) = [] \<and>
    unat (5 :: u32) \<le> unat (mq_msg_size (msgqueues s' 5)) \<and> unat (mq_msg_size (msgqueues s' 5)) < unat (5 :: u32) + 4 \<and>
    4 dvd unat (mq_msg_size (msgqueues s' 5)) \<and>
    unat (mq_max_msgs (msgqueues s' 5)) = unat (100 :: u32) div (unat (mq_msg_size (msgqueues s' 5)) + 4) \<and>
    unat (mq_max_msgs (msgqueues s' 5)) * (unat (mq_msg_size (msgqueues s' 5)) + 4) \<le> unat (100 :: u32)"
  by (rule rt_mq_init_correct) (simp_all add: demo_kinv readable_def demo_live_iff demo_live_def)

text \<open>
  Resetting a message queue: the loop ends, all messages are gone and all slots are free again, and every thread
  that waited to send or to receive is made ready with the error \<^verbatim>\<open>-RT_ERROR\<close>.
\<close>

theorem rt_mq_reset_correct:
  assumes "kinv s" "live s (OMq i)" "rt_current_thread s \<noteq> None" "mq_ok (msgqueues s i)"
  shows "\<exists>s'. rt_mq_control i RT_IPC_CMD_RESET s = Some (RT_EOK, s') \<and> kinv s' \<and> mq_ok (msgqueues s' i) \<and>
    mq_contents (msgqueues s' i) = [] \<and> mq_max_msgs (msgqueues s' i) = mq_max_msgs (msgqueues s i) \<and>
    ring (thread_rings s') (Suspended (OMq i)) = [] \<and> ring (thread_rings s') (SenderSuspended (OMq i)) = [] \<and>
    (\<forall>t\<in>set (ring (thread_rings s) (Suspended (OMq i))) \<union> set (ring (thread_rings s) (SenderSuspended (OMq i))).
       awake s' t \<and> th_error (threads s' t) = - RT_ERROR)"
proof -
  let ?R = "Suspended (OMq i)" and ?S = "SenderSuspended (OMq i)"
  let ?W = "set (ring (thread_rings s) ?R) \<union> set (ring (thread_rings s) ?S)"
  obtain s1 s2 where s2: "ipc_list_resume_all ?R s = Some s1" "ipc_list_resume_all ?S s1 = Some s2" "released ?W s s2"
    "ring (thread_rings s2) ?R = []" "ring (thread_rings s2) ?S = []"
    by (rule resume_two [OF assms(1), of "OMq i" ?R ?S]) auto
  have w: "wakes ?W s s2" using s2(3) by (simp add: released_def)
  have mq: "msgqueues s2 = msgqueues s" using core_step_fields(5) [OF wakesD(2) [OF w]] .
  obtain q f where "mq_chains (msgqueues s i) q f []" using assms(4) by (auto simp: mq_ok_def mq_rep_def)
  then obtain m where m: "mq_reset_loop (msgqueues s i) = Some m" "mq_chains m [] (rev q @ f) []"
    "mq_max_msgs m = mq_max_msgs (msgqueues s i)" using mq_reset_loop_ok by blast
  have rep: "mq_rep (m\<lparr>mq_entry := 0\<rparr>) [] (rev q @ f) []" using m(2) by (simp add: mq_rep_def mq_chains_def)
  let ?s3 = "upd_mq i (\<lambda>_. m\<lparr>mq_entry := 0\<rparr>) s2"
  obtain c where c: "rt_current_thread ?s3 = Some c" using assms(3) wakesD(3) [OF w] by auto
  have k3: "kinv ?s3" using wakesD(1) [OF w] by simp
  obtain s' where s': "rt_schedule ?s3 = Some s'" "schedules ?s3 s'" using rt_schedule_ok [OF k3 c] .
  have run: "rt_mq_control i RT_IPC_CMD_RESET s = Some (RT_EOK, s')"
    using s2(1,2) m(1) mq s'(1) mq_type [OF assms(1,2)] by (simp add: rt_mq_control_def)
  have "msgqueues s' i = m\<lparr>mq_entry := 0\<rparr>" using schedules_fields(6) [OF s'(2)] by simp
  moreover have "mq_contents (m\<lparr>mq_entry := 0\<rparr>) = []" using mq_rep_contents [OF rep] by simp
  moreover have "awake s' t \<and> th_error (threads s' t) = - RT_ERROR" if "t \<in> ?W" for t
  proof -
    have "awake ?s3 t" using awake_wakes [OF w, of t] that by (auto simp: awake_def)
    then show ?thesis using awake_schedules [OF s'(2)] schedules_fields(1) [OF s'(2), of t] s2(3) that by (auto simp: released_def)
  qed
  ultimately show ?thesis
    using run schedulesD(1) [OF s'(2)] mq_rep_okI [OF rep] m(3) s2(4,5) schedules_wait_list [OF s'(2), of "OMq i"] by simp
qed

theorem rt_mq_reset_correct_witness:
  "\<exists>s'. rt_mq_control 0 RT_IPC_CMD_RESET demo_mq = Some (RT_EOK, s') \<and> kinv s' \<and> mq_ok (msgqueues s' 0) \<and>
    mq_contents (msgqueues s' 0) = [] \<and> mq_max_msgs (msgqueues s' 0) = mq_max_msgs (msgqueues demo_mq 0) \<and>
    ring (thread_rings s') (Suspended (OMq 0)) = [] \<and> ring (thread_rings s') (SenderSuspended (OMq 0)) = [] \<and>
    (\<forall>t\<in>set (ring (thread_rings demo_mq) (Suspended (OMq 0))) \<union> set (ring (thread_rings demo_mq) (SenderSuspended (OMq 0))).
       awake s' t \<and> th_error (threads s' t) = - RT_ERROR)"
  by (rule rt_mq_reset_correct) (use demo_mq_inv in \<open>simp_all add: mq_inv_def\<close>)

end
