(* ===== verification/RT_MqSteps.thy ===== *)
theory RT_MqSteps
  imports RT_MsgQueue
begin

section \<open>Message queues under preemption: \<^verbatim>\<open>src/ipc.c\<close>\<close>

text \<open>
  \<^verbatim>\<open>rt_mq_send_wait\<close> and \<^verbatim>\<open>rt_mq_recv\<close> enable interrupts while they copy a message: between taking a slot and linking it,
  and between unlinking it and freeing it, any number of other calls may run. This theory lets the critical sections
  of any number of threads interleave as steps of a relation and shows that the slots and the bytes of
  the messages are safe in every reachable state.

  The phase of a thread is where it is in its call. Two histories record the messages in the order they
  were linked and in the order they were unlinked; \<open>Filled\<close> and \<open>Unlinked\<close> remember the bytes of the message.
\<close>

datatype mq_phase = Out | Taken nat "u8 list" u32 | Filled nat "u8 list" | Unlinked nat u32 "u8 list"

record mq_sys =
  sys_mq :: rt_messagequeue
  phase :: "tid \<Rightarrow> mq_phase"
  linked :: "u8 list list"
  unlinked :: "u8 list list"

inductive mq_preempt :: "mq_sys \<Rightarrow> mq_sys \<Rightarrow> bool" where
  take_slot: "phase S t = Out \<Longrightarrow> mq_alloc (sys_mq S) = Some (x, m) \<Longrightarrow> sz \<le> ucast (mq_msg_size (sys_mq S)) \<Longrightarrow>
     unat sz \<le> length b \<Longrightarrow> mq_preempt S (S\<lparr>sys_mq := m, phase := (phase S)(t := Taken x b sz)\<rparr>)"
| fill_slot: "phase S t = Taken x b sz \<Longrightarrow> mq_fill x b sz (sys_mq S) = Some m \<Longrightarrow>
     mq_preempt S (S\<lparr>sys_mq := m, phase := (phase S)(t := Filled x (mq_data m x))\<rparr>)"
| link_slot: "phase S t = Filled x v \<Longrightarrow> mq_link x (sys_mq S) = (c, m) \<Longrightarrow>
     mq_preempt S (S\<lparr>sys_mq := m, phase := (phase S)(t := Out), linked := linked S @ [v]\<rparr>)"
| unlink_slot: "phase S t = Out \<Longrightarrow> mq_entry (sys_mq S) \<noteq> 0 \<Longrightarrow> mq_unlink (sys_mq S) = Some (x, m) \<Longrightarrow>
     mq_preempt S (S\<lparr>sys_mq := m, phase := (phase S)(t := Unlinked x sz (mq_data m x)), unlinked := unlinked S @ [mq_data m x]\<rparr>)"
| free_slot: "phase S t = Unlinked x sz v \<Longrightarrow>
     mq_preempt S (S\<lparr>sys_mq := mq_free x (sys_mq S), phase := (phase S)(t := Out)\<rparr>)"

inductive mq_reach :: "mq_sys \<Rightarrow> mq_sys \<Rightarrow> bool" for S0 where
  start: "mq_reach S0 S0"
| step: "mq_reach S0 S \<Longrightarrow> mq_preempt S S' \<Longrightarrow> mq_reach S0 S'"

text \<open>The queue as \<open>rt_mq_init\<close> leaves it, before any call.\<close>

definition mq_start :: "rt_messagequeue \<Rightarrow> mq_sys" where
  "mq_start m = \<lparr>sys_mq = m, phase = (\<lambda>_. Out), linked = [], unlinked = []\<rparr>"

fun slot_of :: "mq_phase \<Rightarrow> nat option" where
  "slot_of Out = None"
| "slot_of (Taken x b sz) = Some x"
| "slot_of (Filled x v) = Some x"
| "slot_of (Unlinked x sz v) = Some x"

text \<open>What each phase knows about the slot of its thread.\<close>

fun phase_ok :: "rt_messagequeue \<Rightarrow> mq_phase \<Rightarrow> bool" where
  "phase_ok m Out \<longleftrightarrow> True"
| "phase_ok m (Taken x b sz) \<longleftrightarrow> sz \<le> ucast (mq_msg_size m) \<and> unat sz \<le> length b"
| "phase_ok m (Filled x v) \<longleftrightarrow> mq_next m x = None \<and> mq_data m x = v"
| "phase_ok m (Unlinked x sz v) \<longleftrightarrow> mq_data m x = v"

definition mq_sys_ok :: "mq_sys \<Rightarrow> nat list \<Rightarrow> nat list \<Rightarrow> nat list \<Rightarrow> bool" where
  "mq_sys_ok S q f p \<longleftrightarrow> mq_rep (sys_mq S) q f p \<and>
     (\<forall>t x. slot_of (phase S t) = Some x \<longrightarrow> x \<in> set p) \<and>
     (\<forall>t u x. slot_of (phase S t) = Some x \<and> slot_of (phase S u) = Some x \<longrightarrow> t = u) \<and>
     (\<forall>t. phase_ok (sys_mq S) (phase S t)) \<and>
     linked S = unlinked S @ map (mq_data (sys_mq S)) q"

lemma mq_sys_okD:
  assumes "mq_sys_ok S q f p"
  shows "mq_rep (sys_mq S) q f p" "slot_of (phase S u) = Some y \<Longrightarrow> y \<in> set p"
    "slot_of (phase S u) = Some y \<Longrightarrow> slot_of (phase S v) = Some y \<Longrightarrow> u = v"
    "phase_ok (sys_mq S) (phase S u)" "linked S = unlinked S @ map (mq_data (sys_mq S)) q"
  using assms unfolding mq_sys_ok_def by blast+

lemma mq_sys_okI:
  assumes "mq_rep m q f p" "\<And>u y. slot_of (ph u) = Some y \<Longrightarrow> y \<in> set p"
    "\<And>u v y. slot_of (ph u) = Some y \<Longrightarrow> slot_of (ph v) = Some y \<Longrightarrow> u = v" "\<And>u. phase_ok m (ph u)"
    "l = ul @ map (mq_data m) q"
  shows "mq_sys_ok (S\<lparr>sys_mq := m, phase := ph, linked := l, unlinked := ul\<rparr>) q f p"
  using assms unfolding mq_sys_ok_def by simp

lemma mq_sys_same: "S\<lparr>linked := linked S\<rparr> = S" "S\<lparr>unlinked := unlinked S\<rparr> = S"
  by (cases S, simp)+

text \<open>A step of thread \<open>t\<close> on its own slot \<open>x\<close> leaves the knowledge of the other threads intact.\<close>

lemma phase_ok_other:
  assumes "phase_ok m ph" "slot_of ph = Some y" "mq_data m' y = mq_data m y" "mq_next m' y = mq_next m y" "mq_msg_size m' = mq_msg_size m"
  shows "phase_ok m' ph"
  using assms by (cases ph) auto

lemma phase_ok_upd:
  assumes ok: "\<And>u. phase_ok m (ph u)" and new: "phase_ok m' new" and sz: "mq_msg_size m' = mq_msg_size m"
    and same: "\<And>u y. u \<noteq> t \<Longrightarrow> slot_of (ph u) = Some y \<Longrightarrow> mq_data m' y = mq_data m y \<and> mq_next m' y = mq_next m y"
  shows "phase_ok m' ((ph(t := new)) u)"
proof (cases "u = t")
  case False
  show ?thesis
  proof (cases "slot_of (ph u)")
    case None
    then have "ph u = Out" by (cases "ph u") auto
    then show ?thesis using False by simp
  next
    case (Some y)
    then show ?thesis using phase_ok_other [OF ok [of u] Some] same [OF False Some] sz False by simp
  qed
qed (use new in simp)

text \<open>The next pointers that the critical sections write.\<close>

lemma mq_link_next: "mq_link x m = (c, m') \<Longrightarrow> mq_queue_tail m \<noteq> Some y \<Longrightarrow> mq_next m' y = mq_next m y"
  by (auto simp: mq_link_def Let_def split: option.splits if_splits)

lemma mq_unlink_next: "mq_unlink m = Some (x, m') \<Longrightarrow> mq_next m' = mq_next m"
  by (auto simp: mq_unlink_def Let_def split: option.splits if_splits bind_splits)

text \<open>How the owners change when thread \<open>t\<close> gives its slot back or takes a new one.\<close>

lemma slots_given_back:
  assumes "mq_sys_ok S q f p" "slot_of (phase S t) = Some x" "slot_of (((phase S)(t := Out)) u) = Some y"
  shows "y \<in> set (remove1 x p)" "y \<noteq> x" "slot_of (((phase S)(t := Out)) v) = Some y \<Longrightarrow> u = v"
proof -
  have u: "u \<noteq> t" "slot_of (phase S u) = Some y" using assms(3) by (auto split: if_splits)
  then have "y \<in> set p" "y \<noteq> x" using mq_sys_okD(2,3) [OF assms(1)] assms(2) by blast+
  moreover have "distinct p" using mq_sys_okD(1) [OF assms(1)] by (simp add: mq_rep_def mq_chains_def)
  ultimately show "y \<in> set (remove1 x p)" "y \<noteq> x" by (simp_all add: set_remove1_eq)
  show "u = v" if "slot_of (((phase S)(t := Out)) v) = Some y"
    using mq_sys_okD(3) [OF assms(1) u(2), of v] that by (auto split: if_splits)
qed

lemma slots_taken:
  assumes "mq_sys_ok S q f p" "x \<notin> set p" "slot_of new = Some x" "slot_of (((phase S)(t := new)) u) = Some y"
  shows "y \<in> set (x # p)" "slot_of (((phase S)(t := new)) v) = Some y \<Longrightarrow> u = v"
proof -
  show "y \<in> set (x # p)" using assms mq_sys_okD(2) [OF assms(1)] by (auto split: if_splits)
  show "u = v" if "slot_of (((phase S)(t := new)) v) = Some y"
    using that assms mq_sys_okD(2,3) [OF assms(1)] by (metis fun_upd_apply option.inject)
qed

lemma sys_ok_take:
  assumes ok: "mq_sys_ok S q f p" and t: "phase S t = Out" and al: "mq_alloc (sys_mq S) = Some (x, m)"
    and sz: "sz \<le> ucast (mq_msg_size (sys_mq S))" "unat sz \<le> length b"
  shows "\<exists>f'. mq_sys_ok (S\<lparr>sys_mq := m, phase := (phase S)(t := Taken x b sz)\<rparr>) q f' (x # p)"
proof -
  note rep = mq_sys_okD(1) [OF ok]
  obtain f' where f: "f = x # f'" using rep al by (cases f) (auto simp: mq_alloc_def mq_rep_def mq_chains_def)
  note a = mq_alloc_rep [OF rep [unfolded f]]
  have m: "m = (sys_mq S)\<lparr>mq_queue_free := mq_next (sys_mq S) x\<rparr>" using a(1) al by simp
  have xp: "x \<notin> set p" using rep f by (auto simp: mq_rep_def mq_chains_def)
  have ph: "phase_ok m (((phase S)(t := Taken x b sz)) u)" for u
    by (rule phase_ok_upd [of "sys_mq S"]) (use mq_sys_okD(4) [OF ok] sz in \<open>simp_all add: m\<close>)
  have "mq_sys_ok (S\<lparr>sys_mq := m, phase := (phase S)(t := Taken x b sz), linked := linked S, unlinked := unlinked S\<rparr>) q f' (x # p)"
    (is "mq_sys_ok (S\<lparr>sys_mq := m, phase := ?ph, linked := _, unlinked := _\<rparr>) q f' (x # p)")
  proof (rule mq_sys_okI [OF _ _ _ ph])
    show "y \<in> set (x # p)" if "slot_of (?ph u) = Some y" for u y by (rule slots_taken(1) [OF ok xp _ that]) simp
    show "u = v" if "slot_of (?ph u) = Some y" "slot_of (?ph v) = Some y" for u v y by (rule slots_taken(2) [OF ok xp _ that]) simp
  qed (use a(2) m mq_sys_okD(5) [OF ok] in simp_all)
  then show ?thesis by (auto simp: mq_sys_same)
qed

lemma sys_ok_fill:
  assumes ok: "mq_sys_ok S q f p" and t: "phase S t = Taken x b sz" and fl: "mq_fill x b sz (sys_mq S) = Some m"
  shows "mq_sys_ok (S\<lparr>sys_mq := m, phase := (phase S)(t := Filled x (mq_data m x))\<rparr>) q f p"
proof -
  note rep = mq_sys_okD(1) [OF ok]
  have xp: "x \<in> set p" and ph: "phase_ok (sys_mq S) (Taken x b sz)"
    using mq_sys_okD(2,4) [OF ok, of t] t by simp_all
  note a = mq_fill_rep [OF rep xp, of sz b]
  have m: "mq_rep m q f p" "mq_next m = (mq_next (sys_mq S))(x := None)" "mq_msg_size m = mq_msg_size (sys_mq S)"
    "\<And>y. y \<noteq> x \<Longrightarrow> mq_data m y = mq_data (sys_mq S) y"
    using a fl ph by auto
  let ?ph = "(phase S)(t := Filled x (mq_data m x))"
  have slot: "slot_of (?ph u) = slot_of (phase S u)" for u using t by simp
  have ne: "y \<noteq> x" if "u \<noteq> t" "slot_of (phase S u) = Some y" for u y using mq_sys_okD(3) [OF ok, of u y t] that t by auto
  have pho: "phase_ok m (?ph u)" for u
    by (rule phase_ok_upd [of "sys_mq S"]) (use mq_sys_okD(4) [OF ok] m ne in auto)
  have "x \<notin> set q" using rep xp by (auto simp: mq_rep_def mq_chains_def)
  then have q: "map (mq_data m) q = map (mq_data (sys_mq S)) q" using m(4) by (intro map_cong) metis+
  have "mq_sys_ok (S\<lparr>sys_mq := m, phase := ?ph, linked := linked S, unlinked := unlinked S\<rparr>) q f p"
    by (rule mq_sys_okI [OF m(1) _ _ pho]) (use mq_sys_okD(2,3,5) [OF ok] slot q in \<open>simp_all only:\<close>)
  then show ?thesis by (simp add: mq_sys_same)
qed

lemma sys_ok_link:
  assumes ok: "mq_sys_ok S q f p" and t: "phase S t = Filled x v" and lk: "mq_link x (sys_mq S) = (c, m)"
  shows "c" "mq_sys_ok (S\<lparr>sys_mq := m, phase := (phase S)(t := Out), linked := linked S @ [v]\<rparr>) (q @ [x]) f (remove1 x p)"
proof -
  note rep = mq_sys_okD(1) [OF ok]
  have xp: "x \<in> set p" and ph: "phase_ok (sys_mq S) (Filled x v)" and sl: "slot_of (phase S t) = Some x"
    using mq_sys_okD(2,4) [OF ok, of t] t by simp_all
  obtain m' where m': "mq_link x (sys_mq S) = (True, m')" "mq_rep m' (q @ [x]) f (remove1 x p)" "mq_data m' = mq_data (sys_mq S)"
    "mq_msg_size m' = mq_msg_size (sys_mq S)"
    using mq_link_rep [OF rep xp] ph by auto
  then show c using lk by simp
  have m: "m' = m" using m'(1) lk by simp
  have tail: "mq_queue_tail (sys_mq S) \<noteq> Some y" if "y \<in> set p" for y
  proof (cases "q = []")
    case False
    have "set q \<inter> set p = {}" using rep by (auto simp: mq_rep_def mq_chains_def)
    then have "last q \<notin> set p" using last_in_set [OF False] by blast
    then show ?thesis using rep that False by (auto simp: mq_rep_def mq_chains_def)
  qed (use rep in \<open>simp add: mq_rep_def mq_chains_def\<close>)
  have same: "mq_data m y = mq_data (sys_mq S) y \<and> mq_next m y = mq_next (sys_mq S) y" if "u \<noteq> t" "slot_of (phase S u) = Some y" for u y
  proof -
    have "mq_next m y = mq_next (sys_mq S) y" by (rule mq_link_next [OF lk tail [OF mq_sys_okD(2) [OF ok that(2)]]])
    then show ?thesis using m'(3) m by simp
  qed
  have pho: "phase_ok m (((phase S)(t := Out)) u)" for u
    by (rule phase_ok_upd [OF mq_sys_okD(4) [OF ok] _ _ same]) (use m'(4) m in simp_all)
  have "mq_sys_ok (S\<lparr>sys_mq := m, phase := (phase S)(t := Out), linked := linked S @ [v], unlinked := unlinked S\<rparr>) (q @ [x]) f (remove1 x p)"
    by (rule mq_sys_okI [OF _ slots_given_back(1) [OF ok sl] slots_given_back(3) [OF ok sl] pho])
      (use m' m ph mq_sys_okD(5) [OF ok] in simp_all)
  then show "mq_sys_ok (S\<lparr>sys_mq := m, phase := (phase S)(t := Out), linked := linked S @ [v]\<rparr>) (q @ [x]) f (remove1 x p)"
    using mq_sys_same by (cases S) simp
qed

lemma sys_ok_unlink:
  assumes ok: "mq_sys_ok S q f p" and t: "phase S t = Out" and un: "mq_unlink (sys_mq S) = Some (x, m)"
  shows "\<exists>q'. mq_sys_ok (S\<lparr>sys_mq := m, phase := (phase S)(t := Unlinked x sz (mq_data m x)), unlinked := unlinked S @ [mq_data m x]\<rparr>) q' f (x # p)"
proof -
  note rep = mq_sys_okD(1) [OF ok]
  obtain q' where q: "q = x # q'" using rep un by (cases q) (auto simp: mq_unlink_def mq_rep_def mq_chains_def Let_def)
  obtain m' where m': "mq_unlink (sys_mq S) = Some (x, m')" "mq_rep m' q' f (x # p)" "mq_data m' = mq_data (sys_mq S)"
    "mq_msg_size m' = mq_msg_size (sys_mq S)"
    by (rule mq_unlink_rep [OF rep [unfolded q]])
  have m: "m' = m" using m'(1) un by simp
  have xp: "x \<notin> set p" using rep q by (auto simp: mq_rep_def mq_chains_def)
  let ?ph = "(phase S)(t := Unlinked x sz (mq_data m x))"
  have ph: "phase_ok m (?ph u)" for u
    by (rule phase_ok_upd [of "sys_mq S"]) (use mq_sys_okD(4) [OF ok] m'(3,4) m mq_unlink_next [OF un] in simp_all)
  have "mq_sys_ok (S\<lparr>sys_mq := m, phase := ?ph, linked := linked S, unlinked := unlinked S @ [mq_data m x]\<rparr>) q' f (x # p)"
  proof (rule mq_sys_okI [OF _ _ _ ph])
    show "y \<in> set (x # p)" if "slot_of (?ph u) = Some y" for u y by (rule slots_taken(1) [OF ok xp _ that]) simp
    show "u = v" if "slot_of (?ph u) = Some y" "slot_of (?ph v) = Some y" for u v y by (rule slots_taken(2) [OF ok xp _ that]) simp
  qed (use m'(2,3) m q mq_sys_okD(5) [OF ok] in simp_all)
  then show ?thesis by (cases S) auto
qed

lemma sys_ok_free:
  assumes ok: "mq_sys_ok S q f p" and t: "phase S t = Unlinked x sz v"
  shows "mq_sys_ok (S\<lparr>sys_mq := mq_free x (sys_mq S), phase := (phase S)(t := Out)\<rparr>) q (x # f) (remove1 x p)"
proof -
  note rep = mq_sys_okD(1) [OF ok]
  have xp: "x \<in> set p" and sl: "slot_of (phase S t) = Some x" using mq_sys_okD(2) [OF ok, of t] t by simp_all
  let ?m = "mq_free x (sys_mq S)"
  have same: "mq_data ?m y = mq_data (sys_mq S) y \<and> mq_next ?m y = mq_next (sys_mq S) y" if "u \<noteq> t" "slot_of (phase S u) = Some y" for u y
    using slots_given_back(2) [OF ok sl, of u y] that by (simp add: mq_free_def)
  have pho: "phase_ok ?m (((phase S)(t := Out)) u)" for u
    by (rule phase_ok_upd [OF mq_sys_okD(4) [OF ok] _ _ same]) (simp_all add: mq_free_def)
  have "mq_sys_ok (S\<lparr>sys_mq := ?m, phase := (phase S)(t := Out), linked := linked S, unlinked := unlinked S\<rparr>) q (x # f) (remove1 x p)"
    by (rule mq_sys_okI [OF mq_free_rep [OF rep xp] slots_given_back(1) [OF ok sl]
          slots_given_back(3) [OF ok sl] pho])
      (use mq_sys_okD(5) [OF ok] in \<open>simp_all add: mq_free_def\<close>)
  then show ?thesis by (simp add: mq_sys_same)
qed

lemma sys_ok_step:
  assumes "mq_preempt S S'" "mq_sys_ok S q f p"
  shows "\<exists>q f p. mq_sys_ok S' q f p"
  using assms(1)
proof cases
  case (take_slot t x m sz b)
  then show ?thesis using sys_ok_take [OF assms(2)] by blast
next
  case (fill_slot t x b sz m)
  then show ?thesis using sys_ok_fill [OF assms(2)] by blast
next
  case (link_slot t x v c m)
  then show ?thesis using sys_ok_link(2) [OF assms(2)] by blast
next
  case (unlink_slot t x m sz)
  then show ?thesis using sys_ok_unlink [OF assms(2)] by blast
next
  case (free_slot t x sz v)
  then show ?thesis using sys_ok_free [OF assms(2)] by blast
qed

lemma sys_ok_reach:
  assumes "mq_reach (mq_start m) S" "mq_rep m [] f []"
  shows "\<exists>q f p. mq_sys_ok S q f p"
  using assms
proof (induction rule: mq_reach.induct)
  case start
  then have "mq_sys_ok (mq_start m) [] f []" by (simp add: mq_sys_ok_def mq_start_def)
  then show ?case by blast
qed (blast intro: sys_ok_step)

text \<open>
  C3. Messages survive preemption. Let any number of threads send and receive, each preempted between its critical
  sections at will, from an empty queue on. In every reachable state the messages unlinked so far followed by the
  messages in the queue are exactly the messages linked so far, in order; no two threads hold the same slot; a
  thread that fills its slot writes inside it; linking never reports a full queue; the bytes a thread put into its
  slot are still there when it links it; a receiver copies exactly the message it unlinked; and a non-empty queue
  has a message to unlink.
\<close>

theorem mq_preemption_safe:
  assumes "mq_rep m [] f []" "mq_reach (mq_start m) S"
  shows "unlinked S @ mq_contents (sys_mq S) = linked S \<and>
    (\<forall>t u x. slot_of (phase S t) = Some x \<and> slot_of (phase S u) = Some x \<longrightarrow> t = u) \<and>
    (\<forall>t x b sz. phase S t = Taken x b sz \<longrightarrow> mq_fill x b sz (sys_mq S) \<noteq> None) \<and>
    (\<forall>t x v. phase S t = Filled x v \<longrightarrow> fst (mq_link x (sys_mq S)) \<and> mq_data (sys_mq S) x = v) \<and>
    (\<forall>t x sz v. phase S t = Unlinked x sz v \<longrightarrow> mq_copy_out x sz (sys_mq S) = take (unat sz) v) \<and>
    (mq_entry (sys_mq S) \<noteq> 0 \<longrightarrow> mq_unlink (sys_mq S) \<noteq> None)"
proof -
  obtain q f p where ok: "mq_sys_ok S q f p" using sys_ok_reach [OF assms(2,1)] by blast
  note rep = mq_sys_okD(1) [OF ok]
  have 1: "unlinked S @ mq_contents (sys_mq S) = linked S" using mq_sys_okD(5) [OF ok] mq_rep_contents [OF rep] by simp
  have 2: "t = u" if "slot_of (phase S t) = Some x" "slot_of (phase S u) = Some x" for t u x by (rule mq_sys_okD(3) [OF ok that])
  have 3: "mq_fill x b sz (sys_mq S) \<noteq> None" if "phase S t = Taken x b sz" for t x b sz
    using mq_fill_rep(1) [OF rep, of x sz b] mq_sys_okD(2,4) [OF ok, of t] that by simp
  have 4: "fst (mq_link x (sys_mq S)) \<and> mq_data (sys_mq S) x = v" if "phase S t = Filled x v" for t x v
    using sys_ok_link(1) [OF ok that] mq_sys_okD(4) [OF ok, of t] that by (simp add: prod_eq_iff)
  have 5: "mq_copy_out x sz (sys_mq S) = take (unat sz) v" if ph: "phase S t = Unlinked x sz v" for t x sz v
  proof -
    have "x < unat (mq_max_msgs (sys_mq S))" using mq_sys_okD(2) [OF ok, of t x] ph rep by (auto simp: mq_rep_def mq_chains_def)
    then have "length (mq_data (sys_mq S) x) = unat (mq_msg_size (sys_mq S))" using rep by (simp add: mq_rep_def mq_chains_def)
    moreover have "mq_data (sys_mq S) x = v" using mq_sys_okD(4) [OF ok, of t] ph by simp
    ultimately show ?thesis by (auto simp: mq_copy_out_def word_less_nat_alt)
  qed
  have 6: "mq_unlink (sys_mq S) \<noteq> None" if "mq_entry (sys_mq S) \<noteq> 0"
  proof -
    have "q \<noteq> []" using that rep by (auto simp: mq_rep_def unat_eq_0)
    then have "mq_queue_head (sys_mq S) \<noteq> None" using rep by (cases q) (auto simp: mq_rep_def mq_chains_def)
    then show ?thesis by (auto simp: mq_unlink_def Let_def)
  qed
  show ?thesis using 1 2 3 4 5 6 by blast
qed

theorem mq_preemption_safe_witness:
  "\<exists>S. mq_reach (mq_start (msgqueues demo_mq 0)) S \<and> phase S 1 = Taken 1 [1, 2, 3, 4] 4 \<and> phase S 2 = Taken 0 [5, 6, 7, 8] 4 \<and>
    unlinked S @ mq_contents (sys_mq S) = linked S \<and>
    mq_fill 1 [1, 2, 3, 4] 4 (sys_mq S) \<noteq> None \<and> mq_fill 0 [5, 6, 7, 8] 4 (sys_mq S) \<noteq> None"
proof -
  let ?m = "msgqueues demo_mq 0"
  have rep: "mq_rep ?m [] [1, 0] []" by (auto simp: mq_rep_def mq_chains_def demo_mq_def zero_mq_def)
  let ?m1 = "?m\<lparr>mq_queue_free := mq_next ?m 1\<rparr>"
  have rep1: "mq_rep ?m1 [] [0] [1]" using mq_alloc_rep(2) [OF rep] by simp
  let ?S1 = "(mq_start ?m)\<lparr>sys_mq := ?m1, phase := (phase (mq_start ?m))(1 := Taken 1 [1, 2, 3, 4] 4)\<rparr>"
  have 1: "mq_preempt (mq_start ?m) ?S1"
    by (rule mq_preempt.take_slot) (use mq_alloc_rep(1) [OF rep] demo_mq_ok [of 0] in \<open>simp_all add: mq_start_def\<close>)
  let ?m2 = "?m1\<lparr>mq_queue_free := mq_next ?m1 0\<rparr>"
  let ?S2 = "?S1\<lparr>sys_mq := ?m2, phase := (phase ?S1)(2 := Taken 0 [5, 6, 7, 8] 4)\<rparr>"
  have 2: "mq_preempt ?S1 ?S2"
    by (rule mq_preempt.take_slot) (use mq_alloc_rep(1) [OF rep1] demo_mq_ok [of 0] in \<open>simp_all add: mq_start_def\<close>)
  have reach: "mq_reach (mq_start ?m) ?S2" using mq_reach.step [OF mq_reach.step [OF mq_reach.start 1] 2] .
  have "phase ?S2 1 = Taken 1 [1, 2, 3, 4] 4" "phase ?S2 2 = Taken 0 [5, 6, 7, 8] 4" by simp_all
  with reach obtain S where S: "mq_reach (mq_start ?m) S" "phase S 1 = Taken 1 [1, 2, 3, 4] 4" "phase S 2 = Taken 0 [5, 6, 7, 8] 4"
    by iprover
  note safe = mq_preemption_safe [OF rep S(1)]
  have "mq_fill 1 [1, 2, 3, 4] 4 (sys_mq S) \<noteq> None" "mq_fill 0 [5, 6, 7, 8] 4 (sys_mq S) \<noteq> None"
    using safe S(2,3) by blast+
  then show ?thesis using safe S by blast
qed

end
