(* ===== verification/RT_Alloc.thy ===== *)
theory RT_Alloc
  imports RT_Ipc
begin

section \<open>The contract of a memory allocator\<close>

text \<open>
  What the users of memory pools and of the system heap rely on. An allocator keeps a set of allocated
  regions, a partial map from the address of a region to its length. The contract is a locale over the two
  operations; from its laws alone follows that a client that frees only what it holds is never refused,
  and that no two regions it holds at the same time overlap. The locale is interpreted on the operations of
  memory pools, of the small-memory allocator and of memory heaps in their theories.

  The theory also models the error number of \<^verbatim>\<open>src/kservice.c\<close>, by which a failed allocation reports its reason.
\<close>

subsection \<open>The error number\<close>

definition rt_get_errno :: "kernel \<Rightarrow> rt_err" where
  "rt_get_errno s =
     (if rt_interrupt_get_nest s \<noteq> 0 then rt_errno s
      else case rt_thread_self s of
        None \<Rightarrow> rt_errno s
      | Some tid \<Rightarrow> th_error (threads s tid))"

definition rt_set_errno :: "rt_err \<Rightarrow> kernel \<Rightarrow> kernel" where
  "rt_set_errno error s =
     (if rt_interrupt_get_nest s \<noteq> 0 then s\<lparr>rt_errno := error\<rparr>
      else case rt_thread_self s of
        None \<Rightarrow> s\<lparr>rt_errno := error\<rparr>
      | Some tid \<Rightarrow> upd_thread tid (\<lambda>th. th\<lparr>th_error := error\<rparr>) s)"

lemma rt_get_set_errno [simp]: "rt_get_errno (rt_set_errno e s) = e"
  by (cases "rt_current_thread s")
    (simp_all add: rt_get_errno_def rt_set_errno_def rt_interrupt_get_nest_def rt_thread_self_def upd_thread_def)

lemma rt_set_errno_keeps [simp]:
  "mempools (rt_set_errno e s) = mempools s" "mp_mem (rt_set_errno e s) = mp_mem s" "thread_rings (rt_set_errno e s) = thread_rings s"
  "rt_current_thread (rt_set_errno e s) = rt_current_thread s" "live (rt_set_errno e s) = live s" "objs (rt_set_errno e s) = objs s"
  "status (rt_set_errno e s) t = status s t"
  by (simp_all add: rt_set_errno_def upd_thread_def live_def status_def fun_eq_iff split: option.splits)

lemma kinv_set_errno: "kinv s \<Longrightarrow> kinv (rt_set_errno e s)"
  using kinv_upd_thread [of s "\<lambda>th. th\<lparr>th_error := e\<rparr>"] by (simp add: rt_set_errno_def split: option.splits)

text \<open>Initialising an object does not touch the memory of the allocators.\<close>

lemma object_init_frame:
  assumes "kinv s" "\<not> live s x" "readable RT_NAME_MAX name" "rt_object_init x (class_of x) name s = Some s'"
  shows "mempools s' = mempools s" "mp_mem s' = mp_mem s" "small_mems s' = small_mems s" "sm_items s' = sm_items s"
    "system_heap s' = system_heap s"
proof -
  obtain s1 nm where s1: "rt_object_init x (class_of x) name s = Some (linked_object x (class_of x OR RT_Object_Class_Static) nm s1)"
    "core_step s s1"
    by (rule rt_object_init_ok [OF assms(1-3)], rule that)
  then have eq: "s' = linked_object x (class_of x OR RT_Object_Class_Static) nm s1" using assms(4) by simp
  show "mempools s' = mempools s" "mp_mem s' = mp_mem s" "small_mems s' = small_mems s" "sm_items s' = sm_items s"
    "system_heap s' = system_heap s"
    using core_step_fields(12-16) [OF s1(2)] by (simp_all add: eq linked_object_def)
qed

subsection \<open>Regions\<close>

type_synonym regions = "nat \<Rightarrow> nat option"

definition region_bytes :: "nat \<Rightarrow> nat \<Rightarrow> nat set" where
  "region_bytes a n = {a..<a + n}"

definition regions_disjoint :: "regions \<Rightarrow> bool" where
  "regions_disjoint R \<longleftrightarrow>
     (\<forall>a b n m. R a = Some n \<and> R b = Some m \<and> a \<noteq> b \<longrightarrow> region_bytes a n \<inter> region_bytes b m = {})"

lemma regions_disjointD:
  "regions_disjoint R \<Longrightarrow> R a = Some n \<Longrightarrow> R b = Some m \<Longrightarrow> a \<noteq> b \<Longrightarrow> region_bytes a n \<inter> region_bytes b m = {}"
  unfolding regions_disjoint_def by blast

text \<open>
  A client requests memory and frees a region it holds; it names the region by its position in the list of
  what it holds, newest first. A position that does not exist means that it frees nothing.
\<close>

datatype 'q mem_op = Request 'q | Release nat

definition drop_at :: "nat \<Rightarrow> 'a list \<Rightarrow> 'a list" where
  "drop_at k xs = take k xs @ drop (Suc k) xs"

fun client_run ::
  "('q \<Rightarrow> 's \<Rightarrow> (nat option \<times> 's) option) \<Rightarrow> (nat \<Rightarrow> 's \<Rightarrow> 's option) \<Rightarrow> 'q mem_op list \<Rightarrow> nat list \<times> 's \<Rightarrow> (nat list \<times> 's) option" where
  "client_run alloc free [] (held, s) = Some (held, s)"
| "client_run alloc free (Request q # ps) (held, s) = do {
     (r, s) \<leftarrow> alloc q s;
     client_run alloc free ps (case r of None \<Rightarrow> held | Some a \<Rightarrow> a # held, s)
   }"
| "client_run alloc free (Release k # ps) (held, s) =
     (if k < length held then do {
        s \<leftarrow> free (held ! k) s;
        client_run alloc free ps (drop_at k held, s)
      } else client_run alloc free ps (held, s))"

lemma set_drop_at:
  assumes "distinct xs" "k < length xs"
  shows "set (drop_at k xs) = set xs - {xs ! k}"
proof -
  have eq: "xs = take k xs @ xs ! k # drop (Suc k) xs" using assms(2) by (rule id_take_nth_drop)
  have "distinct (take k xs @ xs ! k # drop (Suc k) xs)" using assms(1) eq by simp
  moreover have "set xs = set (take k xs) \<union> insert (xs ! k) (set (drop (Suc k) xs))"
    using arg_cong [OF eq, of set] by simp
  ultimately show ?thesis unfolding drop_at_def by auto
qed

lemma distinct_drop_at: "distinct xs \<Longrightarrow> distinct (drop_at k xs)"
  using set_take_disj_set_drop_if_distinct [of xs k "Suc k"] by (simp add: drop_at_def)

subsection \<open>The contract\<close>

locale allocator =
  fixes inv :: "'s \<Rightarrow> bool" and regions :: "'s \<Rightarrow> regions" and enough :: "'s \<Rightarrow> 'q \<Rightarrow> nat"
    and alloc :: "'q \<Rightarrow> 's \<Rightarrow> (nat option \<times> 's) option" and free :: "nat \<Rightarrow> 's \<Rightarrow> 's option"
  assumes disjoint: "inv s \<Longrightarrow> regions_disjoint (regions s)"
    and alloc_ok: "inv s \<Longrightarrow>
      \<exists>r s'. alloc q s = Some (r, s') \<and> inv s' \<and> enough s' = enough s \<and>
        (case r of None \<Rightarrow> regions s' = regions s
         | Some a \<Rightarrow> regions s a = None \<and> (\<exists>n\<ge>enough s q. regions s' = (regions s)(a \<mapsto> n)))"
    and free_ok: "inv s \<Longrightarrow> regions s a = Some n \<Longrightarrow>
      \<exists>s'. free a s = Some s' \<and> inv s' \<and> enough s' = enough s \<and> regions s' = (regions s)(a := None)"
begin

text \<open>
  Every program of requests and releases runs to its end; the client then holds exactly the
  allocated regions it held before or was given, no two of them overlap, and what others had allocated is
  untouched.
\<close>

lemma client_run_ok:
  "inv s \<Longrightarrow> distinct held \<Longrightarrow> set held \<union> others = dom (regions s) \<Longrightarrow> set held \<inter> others = {} \<Longrightarrow>
   \<exists>held' s'. client_run alloc free ps (held, s) = Some (held', s') \<and> inv s' \<and> distinct held' \<and>
     set held' \<union> others = dom (regions s') \<and> set held' \<inter> others = {} \<and> regions_disjoint (regions s') \<and>
     (\<forall>a\<in>others. regions s' a = regions s a)"
proof (induction ps arbitrary: held s)
  case Nil
  then show ?case using disjoint by auto
next
  case (Cons p ps)
  show ?case
  proof (cases p)
    case (Request q)
    obtain r s1 where s1: "alloc q s = Some (r, s1)" "inv s1"
      "case r of None \<Rightarrow> regions s1 = regions s
       | Some a \<Rightarrow> regions s a = None \<and> (\<exists>n\<ge>enough s q. regions s1 = (regions s)(a \<mapsto> n))"
      using alloc_ok [OF Cons.prems(1)] by blast
    have known: "regions s a = None \<Longrightarrow> a \<notin> set held" "regions s a = None \<Longrightarrow> a \<notin> others" for a
      using Cons.prems(3) by auto
    let ?held = "case r of None \<Rightarrow> held | Some a \<Rightarrow> a # held"
    have new: "distinct ?held" "set ?held \<union> others = dom (regions s1)" "set ?held \<inter> others = {}"
      "\<forall>a\<in>others. regions s1 a = regions s a"
      using s1(3) Cons.prems(2-4) by (auto split: option.splits dest: known)
    show ?thesis using Cons.IH [OF s1(2) new(1-3)] s1(1) new(4) Request by simp
  next
    case (Release k)
    show ?thesis
    proof (cases "k < length held")
      case False
      then show ?thesis using Cons.IH [OF Cons.prems] Release by simp
    next
      case True
      then have "held ! k \<in> set held" by simp
      then have mem: "held ! k \<in> set held" "held ! k \<notin> others" using Cons.prems(4) by auto
      then obtain n where n: "regions s (held ! k) = Some n" using Cons.prems(3) mem(1) by (metis UnI1 domIff option.exhaust)
      obtain s1 where s1: "free (held ! k) s = Some s1" "inv s1" "regions s1 = (regions s)(held ! k := None)"
        using free_ok [OF Cons.prems(1) n] by blast
      have new: "distinct (drop_at k held)" "set (drop_at k held) \<union> others = dom (regions s1)"
        "set (drop_at k held) \<inter> others = {}" "\<forall>a\<in>others. regions s1 a = regions s a"
        using Cons.prems(2-4) mem True by (auto simp: s1(3) set_drop_at distinct_drop_at)
      show ?thesis using Cons.IH [OF s1(2) new(1-3)] s1(1) new(4) Release True by simp
    qed
  qed
qed

end

end
