(* ===== verification/RT_MemPool.thy ===== *)
theory RT_MemPool
  imports RT_Alloc RT_Buffer
begin

section \<open>Memory pools: \<^verbatim>\<open>src/mempool.c\<close>\<close>

text \<open>
  A memory pool hands out blocks of equal size. The memory at \<^verbatim>\<open>start_address\<close> is an array of blocks, each preceded
  by one word; free blocks are chained through these words, and the word of an allocated block points to
  the pool, which is how \<^verbatim>\<open>rt_mp_free\<close> finds it. Reading a word as something it is not has no result: the C code
  would follow a garbage pointer.

  A call of \<^verbatim>\<open>rt_mp_alloc\<close> that finds no free block waits, and tries again when it is woken, with the
  time that is left.
\<close>

subsection \<open>Operations\<close>

definition upd_mp :: "nat \<Rightarrow> (rt_mempool \<Rightarrow> rt_mempool) \<Rightarrow> kernel \<Rightarrow> kernel" where
  "upd_mp i f s = s\<lparr>mempools := (mempools s)(i := f (mempools s i))\<rparr>"

text \<open>A pointer: address 0 is \<^verbatim>\<open>RT_NULL\<close>.\<close>

definition mp_ptr :: "nat \<Rightarrow> nat option" where
  "mp_ptr a = (if a = 0 then None else Some a)"

text \<open>\<^verbatim>\<open>block_ptr + offset * (block_size + sizeof(rt_uint8_t *))\<close>, on 32-bit addresses.\<close>

definition mp_block_addr :: "nat \<Rightarrow> u32 \<Rightarrow> u32 \<Rightarrow> nat" where
  "mp_block_addr block_ptr block_size offset = unat (of_nat block_ptr + offset * (block_size + 4) :: u32)"

text \<open>The loop that chains all blocks, and the null pointer in the word of the last one.\<close>

definition mp_init_list :: "nat \<Rightarrow> u32 \<Rightarrow> u32 \<Rightarrow> (nat \<Rightarrow> mp_word) \<Rightarrow> nat \<Rightarrow> mp_word" where
  "mp_init_list block_ptr block_size block_total mem =
     (let mem = fold (\<lambda>k mem. mem(mp_block_addr block_ptr block_size (of_nat k) :=
                     MNext (mp_ptr (mp_block_addr block_ptr block_size (of_nat k + 1))))) [0..<unat block_total] mem
      in mem(mp_block_addr block_ptr block_size (block_total - 1) := MNext None))"

definition rt_mp_init :: "nat \<Rightarrow> u8 list \<Rightarrow> nat \<Rightarrow> u32 \<Rightarrow> u32 \<Rightarrow> kernel \<Rightarrow> (rt_err \<times> kernel) option" where
  "rt_mp_init mp name start sz block_size s = do {
     RT_ASSERT (start \<noteq> 0);
     RT_ASSERT (sz > 0 \<and> block_size > 0);
     s \<leftarrow> rt_object_init (OMemPool mp) RT_Object_Class_MemPool name s;
     let s = upd_mp mp (\<lambda>m. m\<lparr>mp_start_address := start, mp_size := RT_ALIGN_DOWN sz RT_ALIGN_SIZE\<rparr>) s;
     let block_size = RT_ALIGN block_size RT_ALIGN_SIZE;
     let s = upd_mp mp (\<lambda>m. m\<lparr>mp_block_size := block_size\<rparr>) s;
     RT_ASSERT (block_size + 4 \<noteq> 0);
     let s = upd_mp mp (\<lambda>m. m\<lparr>mp_block_total_count := mp_size m div (mp_block_size m + 4)\<rparr>) s;
     let s = upd_mp mp (\<lambda>m. m\<lparr>mp_block_free_count := mp_block_total_count m\<rparr>) s;
     s \<leftarrow> ipc_object_init (Suspended (OMemPool mp)) s;
     let s = s\<lparr>mp_mem := mp_init_list start block_size (mp_block_total_count (mempools s mp)) (mp_mem s)\<rparr>;
     let s = upd_mp mp (\<lambda>m. m\<lparr>mp_block_list := mp_ptr start\<rparr>) s;
     Some (RT_EOK, s)
   }"

text \<open>The loop that wakes all waiting threads is the one of \<open>ipc_list_resume_all\<close>.\<close>

definition rt_mp_detach :: "nat \<Rightarrow> kernel \<Rightarrow> (rt_err \<times> kernel) option" where
  "rt_mp_detach mp s = do {
     RT_ASSERT (rt_object_get_type (OMemPool mp) s = RT_Object_Class_MemPool);
     RT_ASSERT (rt_object_is_systemobject (OMemPool mp) s);
     s \<leftarrow> ipc_list_resume_all (Suspended (OMemPool mp)) s;
     Some (RT_EOK, rt_object_detach (OMemPool mp) s)
   }"

definition rt_mp_create :: "nat option \<Rightarrow> nat option \<Rightarrow> u8 list \<Rightarrow> u32 \<Rightarrow> u32 \<Rightarrow> kernel \<Rightarrow> (nat option \<times> kernel) option" where
  "rt_mp_create mem pool_mem name block_count block_size s = do {
     RT_DEBUG_NOT_IN_INTERRUPT s;
     RT_ASSERT (block_count > 0 \<and> block_size > 0);
     (_, s) \<leftarrow> rt_object_allocate (map_option OMemPool mem) RT_Object_Class_MemPool name s;
     (case mem of
        None \<Rightarrow> Some (None, s)
      | Some mp \<Rightarrow> do {
          let block_size = RT_ALIGN block_size RT_ALIGN_SIZE;
          let s = upd_mp mp (\<lambda>m. m\<lparr>mp_block_size := block_size, mp_size := (block_size + 4) * block_count\<rparr>) s;
          (case pool_mem of
             None \<Rightarrow> do {
               s \<leftarrow> rt_object_delete (OMemPool mp) s;
               Some (None, s)
             }
           | Some addr \<Rightarrow> do {
               let s = s\<lparr>heap := insert (BPool addr) (heap s)\<rparr>;
               let s = upd_mp mp (\<lambda>m. m\<lparr>mp_start_address := addr, mp_block_total_count := block_count,
                     mp_block_free_count := block_count\<rparr>) s;
               s \<leftarrow> ipc_object_init (Suspended (OMemPool mp)) s;
               let s = s\<lparr>mp_mem := mp_init_list addr block_size (mp_block_total_count (mempools s mp)) (mp_mem s)\<rparr>;
               let s = upd_mp mp (\<lambda>m. m\<lparr>mp_block_list := mp_ptr addr\<rparr>) s;
               Some (Some mp, s)
             })
        })
   }"

definition rt_mp_delete :: "nat \<Rightarrow> kernel \<Rightarrow> (rt_err \<times> kernel) option" where
  "rt_mp_delete mp s = do {
     RT_DEBUG_NOT_IN_INTERRUPT s;
     RT_ASSERT (rt_object_get_type (OMemPool mp) s = RT_Object_Class_MemPool);
     RT_ASSERT (\<not> rt_object_is_systemobject (OMemPool mp) s);
     s \<leftarrow> ipc_list_resume_all (Suspended (OMemPool mp)) s;
     s \<leftarrow> RT_KERNEL_FREE (BPool (mp_start_address (mempools s mp))) s;
     s \<leftarrow> rt_object_delete (OMemPool mp) s;
     Some (RT_EOK, s)
   }"

text \<open>The result of \<open>rt_mp_alloc\<close>: a pointer, or the local variables of a call that waits.\<close>

datatype mp_call = MpReturn "nat option" | MpPending wait_locals

text \<open>The end of \<open>rt_mp_alloc\<close>: take the first free block.\<close>

definition mp_take_block :: "nat \<Rightarrow> kernel \<Rightarrow> (nat \<times> kernel) option" where
  "mp_take_block mp s = do {
     let s = upd_mp mp (\<lambda>m. m\<lparr>mp_block_free_count := mp_block_free_count m - 1\<rparr>) s;
     block_ptr \<leftarrow> mp_block_list (mempools s mp);
     (case mp_mem s block_ptr of
        MOwner _ \<Rightarrow> None
      | MNext next \<Rightarrow> do {
          let s = upd_mp mp (\<lambda>m. m\<lparr>mp_block_list := next\<rparr>) s;
          let s = s\<lparr>mp_mem := (mp_mem s)(block_ptr := MOwner mp)\<rparr>;
          Some (block_ptr + 4, s)
        })
   }"

text \<open>Suspending the caller: it is inserted right after the head of the list.\<close>

definition mp_wait :: "nat \<Rightarrow> tid \<Rightarrow> int \<Rightarrow> kernel \<Rightarrow> kernel option" where
  "mp_wait mp thread time s = do {
     (_, s) \<leftarrow> rt_thread_suspend thread s;
     R \<leftarrow> ring_insert_head (Suspended (OMemPool mp)) thread (thread_rings s);
     let s = s\<lparr>thread_rings := R\<rparr>;
     wait_timer thread time s
   }"

text \<open>One round of the \<^verbatim>\<open>while\<close> loop of \<open>rt_mp_alloc\<close> and what follows it.\<close>

definition rt_mp_alloc_loop :: "nat \<Rightarrow> tid option \<Rightarrow> int \<Rightarrow> kernel \<Rightarrow> (mp_call \<times> kernel) option" where
  "rt_mp_alloc_loop mp thread time s =
     (if mp_block_free_count (mempools s mp) = 0 then
        if time = 0 then Some (MpReturn None, rt_set_errno (- RT_ETIMEOUT) s)
        else do {
          RT_DEBUG_NOT_IN_INTERRUPT s;
          thread \<leftarrow> thread;
          let s = upd_thread thread (\<lambda>th. th\<lparr>th_error := RT_EOK\<rparr>) s;
          let before_sleep = (if time > 0 then rt_tick_get s else 0);
          s \<leftarrow> mp_wait mp thread time s;
          s \<leftarrow> rt_schedule s;
          Some (MpPending \<lparr>wl_thread = thread, wl_timeout = time, wl_tick_delta = before_sleep\<rparr>, s)
        }
      else do {
        (block, s) \<leftarrow> mp_take_block mp s;
        Some (MpReturn (Some block), s)
      })"

definition rt_mp_alloc :: "nat \<Rightarrow> int \<Rightarrow> kernel \<Rightarrow> (mp_call \<times> kernel) option" where
  "rt_mp_alloc mp time s = rt_mp_alloc_loop mp (rt_thread_self s) time s"

text \<open>The rest of a round, when the waiting thread runs again.\<close>

definition rt_mp_alloc_resume :: "nat \<Rightarrow> wait_locals \<Rightarrow> kernel \<Rightarrow> (mp_call \<times> kernel) option" where
  "rt_mp_alloc_resume mp w s =
     (if th_error (threads s (wl_thread w)) \<noteq> RT_EOK then Some (MpReturn None, s)
      else rt_mp_alloc_loop mp (Some (wl_thread w)) (remaining_timeout w s) s)"

definition rt_mp_free :: "nat option \<Rightarrow> kernel \<Rightarrow> kernel option" where
  "rt_mp_free block s =
     (case block of
        None \<Rightarrow> Some s
      | Some block \<Rightarrow> do {
          RT_ASSERT (4 \<le> block);
          let block_ptr = block - 4;
          (case mp_mem s block_ptr of
             MNext _ \<Rightarrow> None
           | MOwner mp \<Rightarrow> do {
               let s = upd_mp mp (\<lambda>m. m\<lparr>mp_block_free_count := mp_block_free_count m + 1\<rparr>) s;
               let s = s\<lparr>mp_mem := (mp_mem s)(block_ptr := MNext (mp_block_list (mempools s mp)))\<rparr>;
               let s = upd_mp mp (\<lambda>m. m\<lparr>mp_block_list := Some block_ptr\<rparr>) s;
               (case ring (thread_rings s) (Suspended (OMemPool mp)) of
                  [] \<Rightarrow> Some s
                | thread # _ \<Rightarrow> do {
                    let s = upd_thread thread (\<lambda>th. th\<lparr>th_error := RT_EOK\<rparr>) s;
                    (_, s) \<leftarrow> rt_thread_resume thread s;
                    rt_schedule s
                  })
             })
        })"

subsection \<open>The free list and the blocks of a pool\<close>

text \<open>The chain of free blocks, from a pointer, through the words of the blocks.\<close>

fun mp_chain :: "(nat \<Rightarrow> mp_word) \<Rightarrow> nat option \<Rightarrow> nat list \<Rightarrow> bool" where
  "mp_chain M p [] \<longleftrightarrow> p = None"
| "mp_chain M p (b # bs) \<longleftrightarrow> p = Some b \<and> (case M b of MNext q \<Rightarrow> mp_chain M q bs | MOwner _ \<Rightarrow> False)"

lemma mp_chain_upd [simp]: "b \<notin> set fs \<Longrightarrow> mp_chain (M(b := w)) p fs = mp_chain M p fs"
  by (induction fs arbitrary: p) (auto split: mp_word.splits)

lemma mp_chain_cong: "(\<And>b. b \<in> set fs \<Longrightarrow> M' b = M b) \<Longrightarrow> mp_chain M' p fs = mp_chain M p fs"
  by (induction fs arbitrary: p) (auto split: mp_word.splits)

lemma mp_chain_word: "mp_chain M p fs \<Longrightarrow> b \<in> set fs \<Longrightarrow> \<exists>q. M b = MNext q"
  by (induction fs arbitrary: p) (auto split: mp_word.splits)

text \<open>The addresses of the words of a pool, and the extent of a block with its word.\<close>

definition mp_stride :: "rt_mempool \<Rightarrow> nat" where
  "mp_stride m = unat (mp_block_size m) + 4"

definition mp_blocks :: "rt_mempool \<Rightarrow> nat list" where
  "mp_blocks m = map (\<lambda>k. mp_start_address m + k * mp_stride m) [0..<unat (mp_block_total_count m)]"

lemma length_mp_blocks [simp]: "length (mp_blocks m) = unat (mp_block_total_count m)"
  by (simp add: mp_blocks_def)

lemma in_mp_blocks:
  "b \<in> set (mp_blocks m) \<longleftrightarrow> (\<exists>k<unat (mp_block_total_count m). b = mp_start_address m + k * mp_stride m)"
  by (auto simp: mp_blocks_def)

lemma distinct_mp_blocks [simp]: "distinct (mp_blocks m)"
  by (auto simp: mp_blocks_def mp_stride_def distinct_map inj_on_def)

text \<open>
  The invariant of pool \<open>i\<close> with the list \<open>fs\<close> of its free blocks: the list is chained from \<^verbatim>\<open>block_list\<close> and counted by
  \<^verbatim>\<open>block_free_count\<close>, and the word of every other block of the pool points to the pool.
\<close>

definition mp_rep :: "nat \<Rightarrow> nat list \<Rightarrow> kernel \<Rightarrow> bool" where
  "mp_rep i fs s \<longleftrightarrow> (let m = mempools s i in
     mp_chain (mp_mem s) (mp_block_list m) fs \<and> distinct fs \<and> set fs \<subseteq> set (mp_blocks m) \<and>
     length fs = unat (mp_block_free_count m) \<and> list_all (\<lambda>b. b \<in> set fs \<or> mp_mem s b = MOwner i) (mp_blocks m) \<and>
     0 < mp_start_address m \<and> mp_start_address m + unat (mp_block_total_count m) * mp_stride m \<le> 2 ^ 32)"

definition mp_inv :: "nat \<Rightarrow> kernel \<Rightarrow> bool" where
  "mp_inv i s \<longleftrightarrow> (\<exists>fs. mp_rep i fs s)"

definition mp_allocated :: "kernel \<Rightarrow> nat \<Rightarrow> nat set" where
  "mp_allocated s i = {b \<in> set (mp_blocks (mempools s i)). mp_mem s b = MOwner i}"

lemma mp_repD:
  assumes "mp_rep i fs s"
  shows "mp_chain (mp_mem s) (mp_block_list (mempools s i)) fs" "distinct fs" "set fs \<subseteq> set (mp_blocks (mempools s i))"
    "length fs = unat (mp_block_free_count (mempools s i))"
    "b \<in> set (mp_blocks (mempools s i)) \<Longrightarrow> b \<notin> set fs \<Longrightarrow> mp_mem s b = MOwner i"
    "0 < mp_start_address (mempools s i)"
    "mp_start_address (mempools s i) + unat (mp_block_total_count (mempools s i)) * mp_stride (mempools s i) \<le> 2 ^ 32"
  using assms by (auto simp: mp_rep_def Let_def list_all_iff)

text \<open>The free list is determined by the memory, and the allocated blocks are the others.\<close>

lemma mp_allocated_eq: "mp_rep i fs s \<Longrightarrow> mp_allocated s i = set (mp_blocks (mempools s i)) - set fs"
  using mp_repD(3,5) [of i fs s] mp_chain_word [OF mp_repD(1)] unfolding mp_allocated_def by fastforce

lemma mp_rep_cong:
  assumes "mp_rep i fs s" "mempools s' i = mempools s i" "\<And>b. b \<in> set (mp_blocks (mempools s i)) \<Longrightarrow> mp_mem s' b = mp_mem s b"
  shows "mp_rep i fs s'"
  using assms mp_repD(3) [OF assms(1)] mp_chain_cong [of fs "mp_mem s'" "mp_mem s" "mp_block_list (mempools s i)"]
  by (auto simp: mp_rep_def Let_def list_all_iff)

lemma mp_allocated_cong:
  "mempools s' i = mempools s i \<Longrightarrow> mp_mem s' = mp_mem s \<Longrightarrow> mp_allocated s' i = mp_allocated s i"
  by (simp add: mp_allocated_def)

lemma mp_block_nonzero: "mp_rep i fs s \<Longrightarrow> b \<in> set (mp_blocks (mempools s i)) \<Longrightarrow> 0 < b"
  using mp_repD(6) [of i fs s] by (auto simp: mp_blocks_def)

text \<open>Two blocks do not overlap, and a block lies inside the memory of the pool.\<close>

lemma mp_blocks_apart:
  assumes "b \<in> set (mp_blocks m)" "c \<in> set (mp_blocks m)" "b \<noteq> c"
  shows "b + mp_stride m \<le> c \<or> c + mp_stride m \<le> b"
proof -
  obtain j k where jk: "b = mp_start_address m + j * mp_stride m" "c = mp_start_address m + k * mp_stride m"
    using assms(1,2) unfolding in_mp_blocks by blast
  then have "j < k \<or> k < j" using assms(3) by (metis nat_neq_iff)
  then have "Suc j * mp_stride m \<le> k * mp_stride m \<or> Suc k * mp_stride m \<le> j * mp_stride m"
    by (metis Suc_leI mult_le_mono1)
  then show ?thesis using jk by auto
qed

lemma mp_blocks_inside:
  assumes "b \<in> set (mp_blocks m)"
  shows "mp_start_address m \<le> b" "b + mp_stride m \<le> mp_start_address m + unat (mp_block_total_count m) * mp_stride m"
proof -
  obtain k where k: "b = mp_start_address m + k * mp_stride m" "k < unat (mp_block_total_count m)"
    using assms unfolding in_mp_blocks by blast
  then show "mp_start_address m \<le> b" by simp
  have "Suc k * mp_stride m \<le> unat (mp_block_total_count m) * mp_stride m" using k(2) by (intro mult_le_mono1) simp
  then show "b + mp_stride m \<le> mp_start_address m + unat (mp_block_total_count m) * mp_stride m" using k(1) by simp
qed

subsection \<open>Taking and returning a block\<close>

lemma upd_mp_fields [simp]:
  "thread_rings (upd_mp i f s) = thread_rings s" "threads (upd_mp i f s) = threads s" "objs (upd_mp i f s) = objs s"
  "mempools (upd_mp i f s) = (mempools s)(i := f (mempools s i))" "mp_mem (upd_mp i f s) = mp_mem s"
  "rt_current_thread (upd_mp i f s) = rt_current_thread s" "kinv (upd_mp i f s) = kinv s" "live (upd_mp i f s) = live s"
  "status (upd_mp i f s) = status s" "heap (upd_mp i f s) = heap s"
  by (simp_all add: upd_mp_def)

text \<open>The state after a block was taken, and after a block was returned.\<close>

definition mp_taken :: "nat \<Rightarrow> nat \<Rightarrow> nat option \<Rightarrow> kernel \<Rightarrow> kernel" where
  "mp_taken i b q s = s\<lparr>mempools := (mempools s)(i := (mempools s i)
       \<lparr>mp_block_free_count := mp_block_free_count (mempools s i) - 1, mp_block_list := q\<rparr>),
     mp_mem := (mp_mem s)(b := MOwner i)\<rparr>"

definition mp_returned :: "nat \<Rightarrow> nat \<Rightarrow> kernel \<Rightarrow> kernel" where
  "mp_returned i b s = s\<lparr>mp_mem := (mp_mem s)(b := MNext (mp_block_list (mempools s i))),
     mempools := (mempools s)(i := (mempools s i)
       \<lparr>mp_block_free_count := mp_block_free_count (mempools s i) + 1, mp_block_list := Some b\<rparr>)\<rparr>"

lemma mp_moved_fields [simp]:
  "thread_rings (mp_taken i b q s) = thread_rings s" "thread_rings (mp_returned i b s) = thread_rings s"
  "threads (mp_taken i b q s) = threads s" "threads (mp_returned i b s) = threads s"
  "rt_current_thread (mp_taken i b q s) = rt_current_thread s" "rt_current_thread (mp_returned i b s) = rt_current_thread s"
  "kinv (mp_taken i b q s) = kinv s" "kinv (mp_returned i b s) = kinv s"
  "live (mp_taken i b q s) = live s" "live (mp_returned i b s) = live s"
  "status (mp_taken i b q s) = status s" "status (mp_returned i b s) = status s"
  "mp_mem (mp_taken i b q s) = (mp_mem s)(b := MOwner i)"
  "mp_mem (mp_returned i b s) = (mp_mem s)(b := MNext (mp_block_list (mempools s i)))"
  "mp_blocks (mempools (mp_taken i b q s) j) = mp_blocks (mempools s j)"
  "mp_blocks (mempools (mp_returned i b s) j) = mp_blocks (mempools s j)"
  "mp_stride (mempools (mp_taken i b q s) j) = mp_stride (mempools s j)"
  "mp_stride (mempools (mp_returned i b s) j) = mp_stride (mempools s j)"
  "j \<noteq> i \<Longrightarrow> mempools (mp_taken i b q s) j = mempools s j" "j \<noteq> i \<Longrightarrow> mempools (mp_returned i b s) j = mempools s j"
  by (simp_all add: mp_taken_def mp_returned_def mp_blocks_def mp_stride_def)

lemma mp_rep_Cons:
  assumes "mp_rep i (b # fs) s"
  obtains q where "mp_block_list (mempools s i) = Some b" "mp_mem s b = MNext q" "mp_chain (mp_mem s) q fs"
    "mp_block_free_count (mempools s i) \<noteq> 0"
proof -
  have "mp_block_list (mempools s i) = Some b \<and> (case mp_mem s b of MNext q \<Rightarrow> mp_chain (mp_mem s) q fs | MOwner _ \<Rightarrow> False)"
    using mp_repD(1) [OF assms] by simp
  moreover have "mp_block_free_count (mempools s i) \<noteq> 0" using mp_repD(4) [OF assms] by auto
  ultimately show thesis using that by (auto split: mp_word.splits)
qed

lemma mp_take_block_eq:
  assumes "mp_rep i (b # fs) s"
  obtains q where "mp_take_block i s = Some (b + 4, mp_taken i b q s)" "mp_rep i fs (mp_taken i b q s)"
    "mp_allocated (mp_taken i b q s) i = insert b (mp_allocated s i)" "b \<in> set (mp_blocks (mempools s i)) - mp_allocated s i"
proof -
  obtain q where q: "mp_block_list (mempools s i) = Some b" "mp_mem s b = MNext q" "mp_chain (mp_mem s) q fs"
    "mp_block_free_count (mempools s i) \<noteq> 0"
    using mp_rep_Cons [OF assms] .
  note r = mp_repD [OF assms]
  have eq: "mp_take_block i s = Some (b + 4, mp_taken i b q s)"
    using q by (simp add: mp_take_block_def mp_taken_def upd_mp_def)
  have "unat (mp_block_free_count (mempools s i) - 1) = length fs" using r(4) unat_dec [OF q(4)] by simp
  then have rep: "mp_rep i fs (mp_taken i b q s)"
    using q(3) r(2,3,6,7) r(5) unfolding mp_rep_def Let_def list_all_iff
    by (auto simp: mp_taken_def mp_blocks_def mp_stride_def)
  show thesis
    by (rule that [OF eq rep]) (use mp_allocated_eq [OF rep] mp_allocated_eq [OF assms] r(2,3) in auto)
qed

lemma mp_return_ok:
  assumes rep: "mp_rep i fs s" and b: "b \<in> mp_allocated s i"
  shows "mp_rep i (b # fs) (mp_returned i b s)" "mp_allocated (mp_returned i b s) i = mp_allocated s i - {b}"
    "unat (mp_block_free_count (mempools (mp_returned i b s) i)) = Suc (unat (mp_block_free_count (mempools s i)))"
proof -
  note r = mp_repD [OF rep]
  have bm: "b \<in> set (mp_blocks (mempools s i))" "b \<notin> set fs" using b mp_allocated_eq [OF rep] by auto
  have "length (b # fs) \<le> length (mp_blocks (mempools s i))"
    using r(2,3) bm card_mono [of "set (mp_blocks (mempools s i))" "set (b # fs)"]
    by (simp add: distinct_card [OF distinct_mp_blocks] distinct_card [of fs])
  then have "Suc (unat (mp_block_free_count (mempools s i))) \<le> unat (mp_block_total_count (mempools s i))" using r(4) by simp
  also have "\<dots> < 2 ^ LENGTH(32)" by (rule unsigned_less)
  finally have lt: "Suc (unat (mp_block_free_count (mempools s i))) < 2 ^ LENGTH(32)" .
  then have cnt: "unat (mp_block_free_count (mempools s i) + 1) = Suc (unat (mp_block_free_count (mempools s i)))"
    by (simp add: unat_word_ariths)
  then show "unat (mp_block_free_count (mempools (mp_returned i b s) i)) = Suc (unat (mp_block_free_count (mempools s i)))"
    by (simp add: mp_returned_def)
  show rep': "mp_rep i (b # fs) (mp_returned i b s)"
    using r bm cnt unfolding mp_rep_def Let_def list_all_iff
    by (auto simp: mp_returned_def mp_blocks_def mp_stride_def)
  show "mp_allocated (mp_returned i b s) i = mp_allocated s i - {b}"
    using mp_allocated_eq [OF rep'] mp_allocated_eq [OF rep] bm by auto
qed

text \<open>Other pools, in other memory, do not notice.\<close>

definition mp_apart :: "nat \<Rightarrow> nat \<Rightarrow> kernel \<Rightarrow> bool" where
  "mp_apart i j s \<longleftrightarrow> i \<noteq> j \<and> set (mp_blocks (mempools s i)) \<inter> set (mp_blocks (mempools s j)) = {}"

lemma mp_frame:
  assumes "mp_apart i j s" "b \<in> set (mp_blocks (mempools s i))" "mp_rep j fs s"
  shows "mp_rep j fs (mp_taken i b q s)" "mp_rep j fs (mp_returned i b s)"
  by (rule mp_rep_cong [OF assms(3)]; use assms(1,2) in \<open>auto simp: mp_apart_def\<close>)+

text \<open>An example: a pool of two blocks of 4 bytes at address 1000, the first of them allocated, with thread 4 waiting in \<open>l\<close>.\<close>

definition demo_mp :: "thread_list \<Rightarrow> kernel" where
  "demo_mp l = (demo_in l)
     \<lparr>mempools := (\<lambda>_. zero_mempool\<lparr>mp_start_address := 1000, mp_size := 16, mp_block_size := 4,
        mp_block_list := Some 1008, mp_block_total_count := 2, mp_block_free_count := 1\<rparr>),
      mp_mem := (\<lambda>_. MNext None)(1000 := MOwner 0)\<rparr>"

lemma demo_mp_simps [simp]:
  "thread_rings (demo_mp l) = thread_rings (demo_in l)" "rt_current_thread (demo_mp l) = Some 1"
  "status (demo_mp l) = status (demo 3)" "live (demo_mp l) x \<longleftrightarrow> x \<in> set demo_live" "kinv (demo_mp l) = kinv (demo_in l)"
  "rt_scheduler_lock_nest (demo_mp l) = 0" "rt_interrupt_nest (demo_mp l) = 0"
  by (simp_all add: demo_mp_def)

lemma demo_mp_blocks: "mp_blocks (mempools (demo_mp l) 0) = [1000, 1008]"
  by (simp add: demo_mp_def mp_blocks_def mp_stride_def upt_rec)

lemma demo_mp_rep: "mp_rep 0 [1008] (demo_mp l)"
  unfolding mp_rep_def Let_def demo_mp_blocks by (simp add: demo_mp_def mp_stride_def)

lemma demo_mp_inv: "mp_inv 0 (demo_mp l)"
  using demo_mp_rep by (auto simp: mp_inv_def)

lemma demo_mp_allocated: "mp_allocated (demo_mp l) 0 = {1000}"
  unfolding mp_allocated_eq [OF demo_mp_rep] demo_mp_blocks by auto

lemma demo_mp_kinv: "kinv (demo_mp (Suspended (OSem 0)))" "kinv (demo_mp (Suspended (OMemPool 0)))"
  by (simp_all add: demo_in_kinv [where x = "OSem 0"] demo_in_kinv [where x = "OMemPool 0"] demo_live_def)

subsection \<open>Allocating\<close>

lemma ring_insert_head_free: "home R n = None \<Longrightarrow>
    ring_insert_head h n R = Some (R\<lparr>ring := (ring R)(h := n # ring R h), home := (home R)(n := Some h)\<rparr>)"
  by (simp add: ring_insert_head_def)

lemma mp_wait_blocks:
  assumes inv: "kinv s" and live: "live s (OMemPool i)" and cur: "rt_current_thread s = Some t" and run: "status s t = RT_THREAD_RUNNING"
    and lock: "rt_scheduler_lock_nest s = 0" and time: "time < 0x7fffffff"
  obtains s2 s' where "mp_wait i t time (upd_thread t (\<lambda>th. th\<lparr>th_error := RT_EOK\<rparr>) s) = Some s2" "rt_schedule s2 = Some s'"
    "blocked_at (Suspended (OMemPool i)) (t # ring (thread_rings s) (Suspended (OMemPool i))) t time s s'"
proof -
  let ?g = "\<lambda>th. th\<lparr>th_error := RT_EOK\<rparr> :: rt_thread" and ?l = "Suspended (OMemPool i)"
  let ?s0 = "upd_thread t ?g s"
  have k0: "kinv ?s0" by (rule kinv_upd_thread [OF inv]) simp_all
  have f0: "rt_current_thread ?s0 = Some t" "status ?s0 t = RT_THREAD_RUNNING" "thread_rings ?s0 = thread_rings s" "live ?s0 = live s"
    "rt_tick ?s0 = rt_tick s" "threads ?s0 t = ?g (threads s t)"
    using cur run by (simp_all add: upd_thread_def status_def live_def fun_eq_iff)
  obtain s1 where s1: "rt_thread_suspend t ?s0 = Some (RT_EOK, s1)" "kinv s1" "thread_step t ?s0 s1" "thread_rings s1 = thread_rings s"
    "home (thread_rings s1) t = None" "status s1 t = RT_THREAD_SUSPEND" "home (timer_rings s1) (ThreadTimer t) \<noteq> Some HardTimers"
    "(threads s1 t)\<lparr>th_stat := 0\<rparr> = (?g (threads s t))\<lparr>th_stat := 0\<rparr>"
    using rt_thread_suspend_ok [OF k0 f0(1,2)] f0(3,6) by metis
  let ?R = "(thread_rings s1)\<lparr>ring := (ring (thread_rings s1))(?l := t # ring (thread_rings s1) ?l),
      home := (home (thread_rings s1))(t := Some ?l)\<rparr>"
  let ?s2 = "s1\<lparr>thread_rings := ?R\<rparr>"
  have tn: "t \<notin> set (ring (thread_rings s1) ?l)" using rings_ok_unlinked [OF kinvD(1) [OF s1(2)] s1(5), of ?l] .
  have k2: "kinv ?s2"
    by (rule kinv_link_suspended [OF s1(2,6) _ _ _ s1(5) refl, of "OMemPool i" ?l])
      (use live f0(4) thread_stepD(3) [OF s1(3)] tn rings_ok_distinct [OF kinvD(1) [OF s1(2)]] in auto)
  obtain s3 where s3: "wait_timer t time ?s2 = Some s3" "kinv s3" "thread_step t ?s2 s3" "threads s3 = threads ?s2"
    "thread_rings s3 = thread_rings ?s2" "home (timer_rings s3) (ThreadTimer t) = Some HardTimers \<longleftrightarrow> time > 0"
    "time > 0 \<Longrightarrow> tm_timeout_tick (timers s3 (ThreadTimer t)) = rt_tick ?s2 + of_int time"
    by (rule wait_timer_ok [OF k2 _ _ time, of t]) (use s1(6,7) in \<open>simp_all add: status_def\<close>)
  have "thread_step t s1 ?s2" by (auto simp: thread_step_def core_step_def)
  then have step: "thread_step t ?s0 s3" using thread_step_trans s1(3) s3(3) by blast
  have tick: "rt_tick ?s2 = rt_tick s" using core_step_fields(6) [OF thread_stepD(1) [OF s1(3)]] f0(5) by simp
  obtain s' where "rt_schedule s3 = Some s'" "blocked_at ?l (t # ring (thread_rings s) ?l) t time s s'"
    by (rule block_finish [OF run cur lock _ _ _ _ s3(2) step, of "OMemPool i" ?l "t # ring (thread_rings s) ?l" time])
      (use s1 s3 tick in \<open>simp_all add: status_def\<close>)
  moreover have "mp_wait i t time ?s0 = Some s3"
    using s1(1) s3(1) by (simp add: mp_wait_def ring_insert_head_free [OF s1(5)])
  ultimately show thesis using that by blast
qed

lemma rt_mp_alloc_loop_step:
  assumes inv: "kinv s" and live: "live s (OMemPool i)" and mp: "mp_inv i s" and cur: "rt_current_thread s = Some t"
    and run: "status s t = RT_THREAD_RUNNING" and ctx: "rt_scheduler_lock_nest s = 0" "rt_interrupt_nest s = 0"
    and time: "time < 0x7fffffff"
  shows "\<exists>r s'. rt_mp_alloc_loop i (Some t) time s = Some (r, s') \<and> kinv s' \<and> mp_inv i s' \<and>
    (if mp_block_free_count (mempools s i) \<noteq> 0 then
       (\<exists>b q. r = MpReturn (Some (b + 4)) \<and> s' = mp_taken i b q s \<and>
          b \<in> set (mp_blocks (mempools s i)) - mp_allocated s i \<and> mp_allocated s' i = insert b (mp_allocated s i))
     else if time = 0 then r = MpReturn None \<and> s' = rt_set_errno (- RT_ETIMEOUT) s
     else r = MpPending (wait_state t time s) \<and>
       blocked_at (Suspended (OMemPool i)) (t # ring (thread_rings s) (Suspended (OMemPool i))) t time s s')"
proof -
  obtain fs where rep: "mp_rep i fs s" using mp by (auto simp: mp_inv_def)
  show ?thesis
  proof (cases fs)
    case (Cons b bs)
    obtain q where q: "mp_take_block i s = Some (b + 4, mp_taken i b q s)" "mp_rep i bs (mp_taken i b q s)"
      "mp_allocated (mp_taken i b q s) i = insert b (mp_allocated s i)" "b \<in> set (mp_blocks (mempools s i)) - mp_allocated s i"
      using mp_take_block_eq rep unfolding Cons by metis
    have "mp_block_free_count (mempools s i) \<noteq> 0" using mp_repD(4) [OF rep] Cons by auto
    then show ?thesis
      using q inv
      by (intro exI [of _ "MpReturn (Some (b + 4))"] exI [of _ "mp_taken i b q s"]) (auto simp: rt_mp_alloc_loop_def mp_inv_def)
  next
    case Nil
    then have zero: "mp_block_free_count (mempools s i) = 0" using mp_repD(4) [OF rep] by (simp add: unat_eq_zero)
    show ?thesis
    proof (cases "time = 0")
      case True
      have "mp_rep i fs (rt_set_errno (- RT_ETIMEOUT) s)" by (rule mp_rep_cong [OF rep]) simp_all
      then show ?thesis using True zero kinv_set_errno [OF inv] by (auto simp: rt_mp_alloc_loop_def mp_inv_def)
    next
      case False
      obtain s2 s' where s': "mp_wait i t time (upd_thread t (\<lambda>th. th\<lparr>th_error := RT_EOK\<rparr>) s) = Some s2" "rt_schedule s2 = Some s'"
        "blocked_at (Suspended (OMemPool i)) (t # ring (thread_rings s) (Suspended (OMemPool i))) t time s s'"
        by (rule mp_wait_blocks [OF inv live cur run ctx(1) time])
      note d = blocked_atD [OF s'(3)]
      have "mp_rep i fs s'" by (rule mp_rep_cong [OF rep]) (simp_all add: core_step_fields(12,13) [OF d(2)])
      moreover have "rt_mp_alloc_loop i (Some t) time s = Some (MpPending (wait_state t time s), s')"
        using zero False s'(1,2) scheduler_available(2) [OF ctx cur] by (simp add: rt_mp_alloc_loop_def wait_state_def)
      ultimately show ?thesis using zero False s'(3) d(1) by (auto simp: mp_inv_def)
    qed
  qed
qed

text \<open>
  Allocating from a memory pool, on every branch. With a free block the call returns at once a block of
  the pool that was not allocated, and nothing but the pool changes; without one, a call that may not wait returns \<^verbatim>\<open>RT_NULL\<close>
  and sets the error number to \<^verbatim>\<open>-RT_ETIMEOUT\<close>; otherwise the caller is suspended at the front of the list of waiting
  threads, its timer is armed exactly when the time is positive, and the processor is given away. Pools
  in other memory keep their invariant and their free blocks.
\<close>

theorem rt_mp_alloc_correct:
  assumes "kinv s" "live s (OMemPool i)" "mp_inv i s" "rt_current_thread s = Some t" "status s t = RT_THREAD_RUNNING"
    "rt_scheduler_lock_nest s = 0" "rt_interrupt_nest s = 0" "time < 0x7fffffff"
  shows "\<exists>r s'. rt_mp_alloc i time s = Some (r, s') \<and> kinv s' \<and> mp_inv i s' \<and>
    (\<forall>j fs. mp_apart i j s \<and> mp_rep j fs s \<longrightarrow> mp_rep j fs s') \<and>
    (if mp_block_free_count (mempools s i) \<noteq> 0 then
       (\<exists>b q. r = MpReturn (Some (b + 4)) \<and> s' = mp_taken i b q s \<and>
          b \<in> set (mp_blocks (mempools s i)) - mp_allocated s i \<and> mp_allocated s' i = insert b (mp_allocated s i))
     else if time = 0 then r = MpReturn None \<and> s' = rt_set_errno (- RT_ETIMEOUT) s \<and> rt_get_errno s' = - RT_ETIMEOUT
     else r = MpPending (wait_state t time s) \<and>
       blocked_at (Suspended (OMemPool i)) (t # ring (thread_rings s) (Suspended (OMemPool i))) t time s s')"
proof -
  obtain r s' where s': "rt_mp_alloc_loop i (Some t) time s = Some (r, s')" "kinv s'" "mp_inv i s'"
    "if mp_block_free_count (mempools s i) \<noteq> 0 then
       (\<exists>b q. r = MpReturn (Some (b + 4)) \<and> s' = mp_taken i b q s \<and>
          b \<in> set (mp_blocks (mempools s i)) - mp_allocated s i \<and> mp_allocated s' i = insert b (mp_allocated s i))
     else if time = 0 then r = MpReturn None \<and> s' = rt_set_errno (- RT_ETIMEOUT) s
     else r = MpPending (wait_state t time s) \<and>
       blocked_at (Suspended (OMemPool i)) (t # ring (thread_rings s) (Suspended (OMemPool i))) t time s s'"
    using rt_mp_alloc_loop_step [OF assms] by blast
  have frame: "mp_rep j fs s'" if "mp_apart i j s" "mp_rep j fs s" for j fs
  proof (cases "\<exists>b q. s' = mp_taken i b q s \<and> b \<in> set (mp_blocks (mempools s i))")
    case True
    then show ?thesis using mp_frame(1) that by blast
  next
    case False
    then have "mempools s' = mempools s" "mp_mem s' = mp_mem s"
      using s'(4) core_step_fields(12,13) [OF blocked_atD(2)] by (auto split: if_splits)
    then show ?thesis using mp_rep_cong [OF that(2), of s'] by simp
  qed
  have "rt_mp_alloc i time s = Some (r, s')" using s'(1) assms(4) by (simp add: rt_mp_alloc_def rt_thread_self_def)
  moreover have "\<forall>j fs. mp_apart i j s \<and> mp_rep j fs s \<longrightarrow> mp_rep j fs s'" using frame by blast
  ultimately show ?thesis
    using s' by (intro exI [of _ r] exI [of _ s'] conjI; cases "mp_block_free_count (mempools s i) = 0"; cases "time = 0") simp_all
qed

theorem rt_mp_alloc_correct_witness:
  "\<exists>r s'. rt_mp_alloc 0 5 (demo_mp (Suspended (OSem 0))) = Some (r, s') \<and> kinv s' \<and> mp_inv 0 s' \<and>
    (\<exists>b q. r = MpReturn (Some (b + 4)) \<and> s' = mp_taken 0 b q (demo_mp (Suspended (OSem 0))) \<and>
       b \<in> {1000, 1008} - {1000} \<and> mp_allocated s' 0 = {b, 1000})"
proof -
  let ?s = "demo_mp (Suspended (OSem 0))"
  have "live ?s (OMemPool 0)" "status ?s 1 = RT_THREAD_RUNNING" "mp_block_free_count (mempools ?s 0) \<noteq> 0"
    by (simp_all add: demo_live_def demo_status) (simp add: demo_mp_def)
  then show ?thesis
    using rt_mp_alloc_correct [OF demo_mp_kinv(1) _ demo_mp_inv, of 1 5] by (auto simp: demo_mp_allocated demo_mp_blocks)
qed

subsection \<open>Freeing\<close>

text \<open>Waking the first thread of a list with a cleared error code, and scheduling.\<close>

lemma wake_first_ok:
  assumes inv: "kinv s" and x: "wait_list x l" and cur: "rt_current_thread s \<noteq> None" and ring: "ring (thread_rings s) l = t # ts"
  obtains s1 s' where "rt_thread_resume t (upd_thread t (\<lambda>th. th\<lparr>th_error := RT_EOK\<rparr>) s) = Some (RT_EOK, s1)" "rt_schedule s1 = Some s'"
    "kinv s'" "core_step s s'" "rt_current_thread s' \<noteq> None" "ring (thread_rings s') l = ts" "awake s' t"
    "th_error (threads s' t) = RT_EOK" "\<And>u. awake s u \<Longrightarrow> awake s' u"
proof -
  let ?s1 = "upd_thread t (\<lambda>th. th\<lparr>th_error := RT_EOK\<rparr>) s"
  have sus: "status s t = RT_THREAD_SUSPEND" using waiting_suspended(1) [OF inv x, of t] ring by simp
  have k1: "kinv ?s1" by (rule kinv_upd_thread [OF inv]) simp_all
  have sus1: "status ?s1 t = RT_THREAD_SUSPEND" using sus by (simp add: status_def upd_thread_def)
  obtain s2 where s2: "rt_thread_resume t ?s1 = Some (RT_EOK, s2)" "wakes {t} ?s1 s2" "th_error (threads s2 t) = th_error (threads ?s1 t)"
    by (rule wakes_resume [OF k1 sus1], rule that)
  have w: "wakes {t} s s2" by (rule wakes_set_error [OF inv sus s2(2)])
  have "t \<notin> set ts" using rings_ok_distinct [OF kinvD(1) [OF inv], of l] ring by simp
  then have "filter (\<lambda>u. u \<notin> {t}) ts = ts" by (intro filter_True) auto
  then have r2: "ring (thread_rings s2) l = ts" using wakesD(10) [OF w x] ring by simp
  obtain c where c: "rt_current_thread s2 = Some c" using cur wakesD(3) [OF w] by auto
  obtain s' where s': "rt_schedule s2 = Some s'" "schedules s2 s'" using rt_schedule_ok [OF wakesD(1) [OF w] c] .
  show thesis
    by (rule that [OF s2(1) s'(1) schedulesD(1) [OF s'(2)] core_step_trans [OF wakesD(2) [OF w] schedulesD(3) [OF s'(2)]]])
      (use schedulesD(4) [OF s'(2)] schedules_wait_list [OF s'(2) x] r2 awake_schedules [OF s'(2)] awake_wakes [OF w]
         schedules_fields(1) [OF s'(2)] s2(3) in \<open>simp_all add: upd_thread_def\<close>)
qed

lemma rt_mp_free_step:
  assumes inv: "kinv s" and cur: "rt_current_thread s \<noteq> None" and rep: "mp_rep i fs s" and b: "b \<in> mp_allocated s i"
  obtains s' where "rt_mp_free (Some (b + 4)) s = Some s'" "kinv s'" "mp_rep i (b # fs) s'" "rt_current_thread s' \<noteq> None"
    "core_step (mp_returned i b s) s'"
    "case ring (thread_rings s) (Suspended (OMemPool i)) of
       [] \<Rightarrow> s' = mp_returned i b s
     | t # ts \<Rightarrow> ring (thread_rings s') (Suspended (OMemPool i)) = ts \<and> awake s' t \<and> th_error (threads s' t) = RT_EOK"
proof -
  let ?s1 = "mp_returned i b s" and ?l = "Suspended (OMemPool i)"
  have own: "mp_mem s b = MOwner i" using b by (simp add: mp_allocated_def)
  have eq: "rt_mp_free (Some (b + 4)) s = (case ring (thread_rings ?s1) ?l of [] \<Rightarrow> Some ?s1
      | thread # _ \<Rightarrow> do { (_, s) \<leftarrow> rt_thread_resume thread (upd_thread thread (\<lambda>th. th\<lparr>th_error := RT_EOK\<rparr>) ?s1); rt_schedule s })"
    using own by (cases "ring (thread_rings s) ?l") (simp_all add: rt_mp_free_def mp_returned_def upd_mp_def Let_def)
  have rep1: "mp_rep i (b # fs) ?s1" using mp_return_ok [OF rep b] by simp
  show thesis
  proof (cases "ring (thread_rings s) ?l")
    case Nil
    then show thesis using that [of ?s1] eq rep1 inv cur by simp
  next
    case (Cons t ts)
    have k1: "kinv ?s1" "rt_current_thread ?s1 \<noteq> None" "ring (thread_rings ?s1) ?l = t # ts" using inv cur Cons by simp_all
    obtain s2 s' where s': "rt_thread_resume t (upd_thread t (\<lambda>th. th\<lparr>th_error := RT_EOK\<rparr>) ?s1) = Some (RT_EOK, s2)" "rt_schedule s2 = Some s'"
      "kinv s'" "core_step ?s1 s'" "rt_current_thread s' \<noteq> None" "ring (thread_rings s') ?l = ts" "awake s' t"
      "th_error (threads s' t) = RT_EOK"
      by (rule wake_first_ok [OF k1(1) _ k1(2,3), of "OMemPool i"]) auto
    have "mp_rep i (b # fs) s'" by (rule mp_rep_cong [OF rep1]) (simp_all add: core_step_fields(12,13) [OF s'(4)])
    then show thesis using that [of s'] eq s' Cons by simp
  qed
qed

text \<open>
  Freeing a block. A block that was allocated from pool \<open>i\<close> returns to the pool and becomes its first free block; if
  threads wait for the pool, the first one of its list is woken with a cleared error code and the others keep
  waiting in the same order; without waiting threads nothing but the pool changes. Freeing the null pointer does nothing.
  Pools in other memory keep their invariant and their free blocks.
\<close>

theorem rt_mp_free_correct:
  assumes "kinv s" "mp_inv i s" "b \<in> mp_allocated s i" "rt_current_thread s \<noteq> None"
  shows "\<exists>s'. rt_mp_free (Some (b + 4)) s = Some s' \<and> kinv s' \<and> mp_inv i s' \<and> mp_allocated s' i = mp_allocated s i - {b} \<and>
    mp_block_list (mempools s' i) = Some b \<and>
    unat (mp_block_free_count (mempools s' i)) = Suc (unat (mp_block_free_count (mempools s i))) \<and>
    (\<forall>j gs. mp_apart i j s \<and> mp_rep j gs s \<longrightarrow> mp_rep j gs s') \<and>
    (case ring (thread_rings s) (Suspended (OMemPool i)) of
       [] \<Rightarrow> s' = mp_returned i b s
     | t # ts \<Rightarrow> ring (thread_rings s') (Suspended (OMemPool i)) = ts \<and> awake s' t \<and> th_error (threads s' t) = RT_EOK) \<and>
    rt_mp_free None s = Some s"
proof -
  obtain fs where rep: "mp_rep i fs s" using assms(2) by (auto simp: mp_inv_def)
  obtain s' where s': "rt_mp_free (Some (b + 4)) s = Some s'" "kinv s'" "mp_rep i (b # fs) s'" "rt_current_thread s' \<noteq> None"
    "core_step (mp_returned i b s) s'"
    "case ring (thread_rings s) (Suspended (OMemPool i)) of
       [] \<Rightarrow> s' = mp_returned i b s
     | t # ts \<Rightarrow> ring (thread_rings s') (Suspended (OMemPool i)) = ts \<and> awake s' t \<and> th_error (threads s' t) = RT_EOK"
    by (rule rt_mp_free_step [OF assms(1,4) rep assms(3)])
  note mem = core_step_fields(12,13) [OF s'(5)]
  have bm: "b \<in> set (mp_blocks (mempools s i))" using assms(3) by (simp add: mp_allocated_def)
  have "mp_rep j gs s'" if "mp_apart i j s" "mp_rep j gs s" for j gs
    by (rule mp_rep_cong [OF mp_frame(2) [OF that(1) bm that(2)]]) (simp_all add: mem)
  moreover have "mp_allocated s' i = mp_allocated s i - {b}"
    using mp_return_ok(2) [OF rep assms(3)] mp_allocated_cong [of s' i "mp_returned i b s"] mem by simp
  moreover have "unat (mp_block_free_count (mempools s' i)) = Suc (unat (mp_block_free_count (mempools s i)))"
    using mp_return_ok(3) [OF rep assms(3)] mem(1) by simp
  moreover have "mp_block_list (mempools s' i) = Some b" using mp_repD(1) [OF s'(3)] by simp
  moreover have "mp_inv i s'" using s'(3) by (auto simp: mp_inv_def)
  ultimately show ?thesis using s'(1,2,6) by (intro exI [of _ s'] conjI) (auto simp: rt_mp_free_def)
qed

theorem rt_mp_free_correct_witness:
  "\<exists>s'. rt_mp_free (Some 1004) (demo_mp (Suspended (OMemPool 0))) = Some s' \<and> kinv s' \<and> mp_inv 0 s' \<and> mp_allocated s' 0 = {} \<and>
    mp_block_list (mempools s' 0) = Some 1000 \<and> ring (thread_rings s') (Suspended (OMemPool 0)) = [] \<and> awake s' 4 \<and>
    th_error (threads s' 4) = RT_EOK"
  using rt_mp_free_correct [OF demo_mp_kinv(2) demo_mp_inv, of 1000] by (auto simp: demo_mp_allocated)

text \<open>
  A freed block reaches the thread that waits for it. Let thread \<open>t\<close> be the first to wait for pool \<open>i\<close>. When
  another thread frees block \<open>b\<close>, then \<open>t\<close> can run, and when it does before anybody else has taken a block, the waiting call
  returns block \<open>b\<close>, and the same blocks are allocated as before.
\<close>

theorem rt_mp_handover:
  assumes "kinv s" "mp_inv i s" "b \<in> mp_allocated s i" "rt_current_thread s \<noteq> None"
    "ring (thread_rings s) (Suspended (OMemPool i)) = t # ts" "wl_thread w = t"
  shows "\<exists>s1 s2. rt_mp_free (Some (b + 4)) s = Some s1 \<and> awake s1 t \<and>
    rt_mp_alloc_resume i w s1 = Some (MpReturn (Some (b + 4)), s2) \<and> kinv s2 \<and> mp_inv i s2 \<and> mp_allocated s2 i = mp_allocated s i"
proof -
  obtain fs where rep: "mp_rep i fs s" using assms(2) by (auto simp: mp_inv_def)
  obtain s1 where s1: "rt_mp_free (Some (b + 4)) s = Some s1" "kinv s1" "mp_rep i (b # fs) s1" "core_step (mp_returned i b s) s1"
    "awake s1 t" "th_error (threads s1 t) = RT_EOK"
    by (rule rt_mp_free_step [OF assms(1,4) rep assms(3)]) (use assms(5) in simp)
  obtain q where q: "mp_take_block i s1 = Some (b + 4, mp_taken i b q s1)" "mp_rep i fs (mp_taken i b q s1)"
    "mp_allocated (mp_taken i b q s1) i = insert b (mp_allocated s1 i)"
    using mp_take_block_eq [OF s1(3)] by metis
  have "mp_block_free_count (mempools s1 i) \<noteq> 0" using mp_repD(4) [OF s1(3)] by auto
  then have "rt_mp_alloc_resume i w s1 = Some (MpReturn (Some (b + 4)), mp_taken i b q s1)"
    using s1(6) q(1) assms(6) by (simp add: rt_mp_alloc_resume_def rt_mp_alloc_loop_def)
  moreover have "mp_allocated s1 i = mp_allocated s i - {b}"
    using mp_return_ok(2) [OF rep assms(3)] mp_allocated_cong core_step_fields(12,13) [OF s1(4)] by metis
  ultimately show ?thesis
    using s1 q assms(3) by (intro exI [of _ s1] exI [of _ "mp_taken i b q s1"]) (auto simp: mp_inv_def)
qed

theorem rt_mp_handover_witness:
  "\<exists>s1 s2. rt_mp_free (Some 1004) (demo_mp (Suspended (OMemPool 0))) = Some s1 \<and> awake s1 4 \<and>
    rt_mp_alloc_resume 0 \<lparr>wl_thread = 4, wl_timeout = -1, wl_tick_delta = 0\<rparr> s1 = Some (MpReturn (Some 1004), s2) \<and>
    kinv s2 \<and> mp_inv 0 s2 \<and> mp_allocated s2 0 = {1000}"
  using rt_mp_handover [OF demo_mp_kinv(2) demo_mp_inv, of 1000 4 "[]" "\<lparr>wl_thread = 4, wl_timeout = -1, wl_tick_delta = 0\<rparr>"]
  by (simp add: demo_mp_allocated)

subsection \<open>A pool as an allocator\<close>

text \<open>The allocated regions: the bytes after the word of every allocated block.\<close>

definition mp_regions :: "nat \<Rightarrow> kernel \<Rightarrow> regions" where
  "mp_regions i s a = (if 4 \<le> a \<and> a - 4 \<in> mp_allocated s i then Some (unat (mp_block_size (mempools s i))) else None)"

definition mp_ready :: "nat \<Rightarrow> kernel \<Rightarrow> bool" where
  "mp_ready i s \<longleftrightarrow> kinv s \<and> mp_inv i s \<and> rt_current_thread s \<noteq> None"

definition mp_request :: "nat \<Rightarrow> unit \<Rightarrow> kernel \<Rightarrow> (nat option \<times> kernel) option" where
  "mp_request i _ s = (case rt_mp_alloc i 0 s of Some (MpReturn r, s) \<Rightarrow> Some (r, s) | _ \<Rightarrow> None)"

definition mp_release :: "nat \<Rightarrow> kernel \<Rightarrow> kernel option" where
  "mp_release a s = rt_mp_free (Some a) s"

lemma mp_regions_upd:
  assumes "mp_allocated s' i = insert b (mp_allocated s i)" "mp_block_size (mempools s' i) = mp_block_size (mempools s i)"
  shows "mp_regions i s' = (mp_regions i s)(b + 4 \<mapsto> unat (mp_block_size (mempools s i)))"
  using assms by (auto simp: mp_regions_def fun_eq_iff)

lemma mp_regions_del:
  assumes "mp_allocated s' i = mp_allocated s i - {b}" "mp_block_size (mempools s' i) = mp_block_size (mempools s i)"
  shows "mp_regions i s' = (mp_regions i s)(b + 4 := None)"
  using assms by (auto simp: mp_regions_def fun_eq_iff)

lemma mp_request_ok:
  assumes "mp_ready i s"
  shows "\<exists>r s'. mp_request i () s = Some (r, s') \<and> mp_ready i s' \<and> mp_block_size (mempools s' i) = mp_block_size (mempools s i) \<and>
    (case r of None \<Rightarrow> mp_regions i s' = mp_regions i s
     | Some a \<Rightarrow> mp_regions i s a = None \<and> mp_regions i s' = (mp_regions i s)(a \<mapsto> unat (mp_block_size (mempools s i))))"
proof -
  obtain fs where rep: "mp_rep i fs s" using assms by (auto simp: mp_ready_def mp_inv_def)
  show ?thesis
  proof (cases fs)
    case Nil
    then have "mp_block_free_count (mempools s i) = 0" using mp_repD(4) [OF rep] by (simp add: unat_eq_zero)
    then have "mp_request i () s = Some (None, rt_set_errno (- RT_ETIMEOUT) s)"
      by (simp add: mp_request_def rt_mp_alloc_def rt_mp_alloc_loop_def)
    moreover have "mp_rep i fs (rt_set_errno (- RT_ETIMEOUT) s)" by (rule mp_rep_cong [OF rep]) simp_all
    moreover have "mp_regions i (rt_set_errno (- RT_ETIMEOUT) s) = mp_regions i s"
      by (simp add: mp_regions_def fun_eq_iff mp_allocated_def)
    ultimately show ?thesis
      using assms kinv_set_errno [of s "- RT_ETIMEOUT"]
      by (intro exI [of _ None] exI [of _ "rt_set_errno (- RT_ETIMEOUT) s"]) (auto simp: mp_ready_def mp_inv_def)
  next
    case (Cons b bs)
    obtain q where q: "mp_take_block i s = Some (b + 4, mp_taken i b q s)" "mp_rep i bs (mp_taken i b q s)"
      "mp_allocated (mp_taken i b q s) i = insert b (mp_allocated s i)" "b \<in> set (mp_blocks (mempools s i)) - mp_allocated s i"
      using mp_take_block_eq rep unfolding Cons by metis
    have "mp_block_free_count (mempools s i) \<noteq> 0" using mp_repD(4) [OF rep] Cons by auto
    then have "mp_request i () s = Some (Some (b + 4), mp_taken i b q s)"
      using q(1) by (simp add: mp_request_def rt_mp_alloc_def rt_mp_alloc_loop_def)
    moreover have sz: "mp_block_size (mempools (mp_taken i b q s) i) = mp_block_size (mempools s i)" by (simp add: mp_taken_def)
    moreover have "mp_regions i s (b + 4) = None" using q(4) by (simp add: mp_regions_def)
    moreover have "mp_ready i (mp_taken i b q s)" using assms q(2) by (auto simp: mp_ready_def mp_inv_def)
    ultimately show ?thesis
      using mp_regions_upd [OF q(3) sz] by (intro exI [of _ "Some (b + 4)"] exI [of _ "mp_taken i b q s"]) simp
  qed
qed

lemma mp_release_ok:
  assumes "mp_ready i s" "mp_regions i s a = Some n"
  shows "\<exists>s'. mp_release a s = Some s' \<and> mp_ready i s' \<and> mp_block_size (mempools s' i) = mp_block_size (mempools s i) \<and>
    mp_regions i s' = (mp_regions i s)(a := None)"
proof -
  obtain fs where rep: "mp_rep i fs s" using assms(1) by (auto simp: mp_ready_def mp_inv_def)
  have "4 \<le> a" "a - 4 \<in> mp_allocated s i" using assms(2) by (simp_all add: mp_regions_def split: if_splits)
  then obtain b where b: "a = b + 4" "b \<in> mp_allocated s i" by (metis le_add_diff_inverse2)
  obtain s' where s': "rt_mp_free (Some (b + 4)) s = Some s'" "kinv s'" "mp_rep i (b # fs) s'" "rt_current_thread s' \<noteq> None"
    "core_step (mp_returned i b s) s'"
    by (rule rt_mp_free_step [OF _ _ rep b(2)]) (use assms(1) in \<open>auto simp: mp_ready_def\<close>)
  have sz: "mp_block_size (mempools s' i) = mp_block_size (mempools s i)"
    using core_step_fields(12) [OF s'(5)] by (simp add: mp_returned_def)
  have "mp_allocated s' i = mp_allocated s i - {b}"
    using mp_return_ok(2) [OF rep b(2)] mp_allocated_cong core_step_fields(12,13) [OF s'(5)] by metis
  then show ?thesis
    using s' sz mp_regions_del [OF _ sz] unfolding b(1) by (auto simp: mp_release_def mp_ready_def mp_inv_def)
qed

lemma mp_regions_disjoint: "mp_inv i s \<Longrightarrow> regions_disjoint (mp_regions i s)"
  unfolding regions_disjoint_def
proof (intro allI impI)
  fix a b n m assume "mp_inv i s" and *: "mp_regions i s a = Some n \<and> mp_regions i s b = Some m \<and> a \<noteq> b"
  have "4 \<le> a" "4 \<le> b" "a - 4 \<in> set (mp_blocks (mempools s i))" "b - 4 \<in> set (mp_blocks (mempools s i))"
    and n: "n + 4 = mp_stride (mempools s i)" "m + 4 = mp_stride (mempools s i)"
    using * by (auto simp: mp_regions_def mp_allocated_def mp_stride_def split: if_splits)
  then have "a - 4 + mp_stride (mempools s i) \<le> b - 4 \<or> b - 4 + mp_stride (mempools s i) \<le> a - 4"
    using mp_blocks_apart [of "a - 4" "mempools s i" "b - 4"] * by auto
  then show "region_bytes a n \<inter> region_bytes b m = {}"
    using n \<open>4 \<le> a\<close> \<open>4 \<le> b\<close> by (auto simp: region_bytes_def)
qed

interpretation mp: allocator "mp_ready i" "mp_regions i" "\<lambda>s _. unat (mp_block_size (mempools s i))" "mp_request i" mp_release for i
proof
  show "regions_disjoint (mp_regions i s)" if "mp_ready i s" for s using that mp_regions_disjoint by (simp add: mp_ready_def)
  show "\<exists>r s'. mp_request i q s = Some (r, s') \<and> mp_ready i s' \<and>
      (\<lambda>_. unat (mp_block_size (mempools s' i))) = (\<lambda>_. unat (mp_block_size (mempools s i))) \<and>
      (case r of None \<Rightarrow> mp_regions i s' = mp_regions i s
       | Some a \<Rightarrow> mp_regions i s a = None \<and>
           (\<exists>n\<ge>unat (mp_block_size (mempools s i)). mp_regions i s' = (mp_regions i s)(a \<mapsto> n)))"
    if "mp_ready i s" for s q
    using mp_request_ok [OF that] by (fastforce split: option.splits)
  show "\<exists>s'. mp_release a s = Some s' \<and> mp_ready i s' \<and>
      (\<lambda>_. unat (mp_block_size (mempools s' i))) = (\<lambda>_. unat (mp_block_size (mempools s i))) \<and>
      mp_regions i s' = (mp_regions i s)(a := None)" if "mp_ready i s" "mp_regions i s a = Some n" for s a n
    using mp_release_ok [OF that] by auto
qed

text \<open>
  C17. Memory safety of pools, for a whole program of a client that starts with nothing: every sequence of allocations
  that do not wait and of frees of blocks it holds runs to its end, keeps the invariants of the kernel
  and the pool, and leaves the client with blocks that are pairwise disjoint, are allocated, and are not among those others hold;
  what others hold stays allocated.
\<close>

theorem mp_client_safe:
  assumes "kinv s" "mp_inv i s" "rt_current_thread s \<noteq> None"
  shows "\<exists>held s'. client_run (mp_request i) mp_release ps ([], s) = Some (held, s') \<and> kinv s' \<and> mp_inv i s' \<and> distinct held \<and>
    dom (mp_regions i s') = set held \<union> dom (mp_regions i s) \<and> set held \<inter> dom (mp_regions i s) = {} \<and>
    regions_disjoint (mp_regions i s')"
  using mp.client_run_ok [of i s "[]" "dom (mp_regions i s)" ps] assms by (auto simp: mp_ready_def)

theorem mp_client_safe_witness:
  "\<exists>held s'. client_run (mp_request 0) mp_release [Request (), Request (), Release 0] ([], demo_mp (Suspended (OSem 0))) = Some (held, s') \<and>
    kinv s' \<and> mp_inv 0 s' \<and> distinct held \<and>
    dom (mp_regions 0 s') = set held \<union> dom (mp_regions 0 (demo_mp (Suspended (OSem 0)))) \<and>
    set held \<inter> dom (mp_regions 0 (demo_mp (Suspended (OSem 0)))) = {} \<and> regions_disjoint (mp_regions 0 s')"
  by (rule mp_client_safe [OF demo_mp_kinv(1) demo_mp_inv]) simp

subsection \<open>The life of a pool\<close>

lemma mp_block_addr_eq:
  assumes "start + k * (unat bs + 4) < 2 ^ 32" "k < 2 ^ 32"
  shows "mp_block_addr start bs (of_nat k) = start + k * (unat bs + 4)"
proof -
  have "mp_block_addr start bs (of_nat k) = unat (of_nat (start + k * (unat bs + 4)) :: u32)"
    unfolding mp_block_addr_def by simp
  also have "\<dots> = start + k * (unat bs + 4)" using assms(1) by (simp only: unat_of_nat) simp
  finally show ?thesis .
qed

lemma mp_chain_blocks:
  assumes "\<And>j. j < n \<Longrightarrow> M (a j) = MNext (if Suc j < n then Some (a (Suc j)) else None)" "k < n"
  shows "mp_chain M (Some (a k)) (map a [k..<n])"
  using assms(2)
proof (induction "n - k" arbitrary: k)
  case (Suc d)
  have eq: "[k..<n] = k # [Suc k..<n]" using Suc.prems by (simp add: upt_rec)
  show ?case
  proof (cases "Suc k < n")
    case True
    then show ?thesis using Suc.hyps(1) [of "Suc k"] Suc.hyps(2) assms(1) [OF Suc.prems] by (simp add: eq)
  next
    case False
    then show ?thesis using assms(1) [OF Suc.prems] by (simp add: eq)
  qed
qed simp

text \<open>The loop chains all blocks of a pool, in the order of their addresses.\<close>

lemma mp_init_list_chain:
  fixes start :: nat and bs total' :: u32
  defines "a \<equiv> \<lambda>k. start + k * (unat bs + 4)"
  assumes fits: "a (unat total') \<le> 2 ^ 32" and pos: "0 < start" "total' \<noteq> 0"
  shows "mp_chain (mp_init_list start bs total' M) (Some start) (map a [0..<unat total'])"
    "c \<notin> a ` {..<unat total'} \<Longrightarrow> mp_init_list start bs total' M c = M c"
proof -
  let ?n = "unat total'" and ?A = "\<lambda>k. mp_block_addr start bs (of_nat k)"
  have n: "0 < ?n" "?n < 2 ^ 32" using pos(2) unsigned_less [of total'] by (simp_all add: unat_gt_0)
  have mono: "a j < a k" if "j < k" for j k using that by (simp add: a_def)
  have A: "?A k = a k" if "k < ?n" for k
  proof -
    have "a k < 2 ^ 32" using mono [OF that] fits by (rule less_le_trans)
    then show ?thesis using mp_block_addr_eq [of start k bs] that n by (simp add: a_def)
  qed
  have inj: "inj_on ?A (set [0..<?n])"
    by (rule inj_onI) (use A mono in \<open>metis atLeastLessThan_iff nat_neq_iff set_upt\<close>)
  let ?N = "\<lambda>k. MNext (mp_ptr (mp_block_addr start bs (of_nat k + 1)))"
  let ?F = "fold (\<lambda>k mem. mem(?A k := ?N k)) [0..<?n] M"
  have last: "mp_block_addr start bs (total' - 1) = a (?n - 1)"
  proof -
    have "of_nat (unat (total' - 1)) = total' - 1" by simp
    then have "total' - 1 = of_nat (?n - 1)" unfolding unat_minus_one [OF pos(2)] by simp
    then show ?thesis using A [of "?n - 1"] n(1) by simp
  qed
  have def: "mp_init_list start bs total' M = ?F(a (?n - 1) := MNext None)"
    by (simp add: mp_init_list_def last)
  have "mp_init_list start bs total' M (a j) = MNext (if Suc j < ?n then Some (a (Suc j)) else None)" if j: "j < ?n" for j
  proof (cases "Suc j < ?n")
    case True
    have "?F (?A j) = ?N j" by (rule fold_upd_at [OF inj]) (use j in simp)
    moreover have "mp_block_addr start bs (of_nat j + 1) = a (Suc j)" using A [OF True] by (simp add: add.commute)
    moreover have "a j \<noteq> a (?n - 1)" "a (Suc j) \<noteq> 0" using True mono [of j "?n - 1"] pos(1) by (simp_all add: a_def)
    ultimately show ?thesis using True A [OF j] by (simp add: def mp_ptr_def)
  next
    case False
    then have "j = ?n - 1" using j by simp
    then show ?thesis using False by (simp add: def)
  qed
  then show "mp_chain (mp_init_list start bs total' M) (Some start) (map a [0..<?n])"
    using mp_chain_blocks [of ?n "mp_init_list start bs total' M" a 0] n(1) by (simp add: a_def)
  assume c: "c \<notin> a ` {..<?n}"
  have "a (?n - 1) \<in> a ` {..<?n}" using n(1) by simp
  moreover have "?A ` set [0..<?n] = a ` {..<?n}" using A by (auto simp: image_iff)
  ultimately show "mp_init_list start bs total' M c = M c" using c fold_upd_other [of c ?A "[0..<?n]" ?N M] by (auto simp: def)
qed

text \<open>
  A pool that is too small for one block: the loop does not run, \<^verbatim>\<open>offset - 1\<close> wraps around, and the null pointer is
  written in front of the memory of the pool.
\<close>

lemma mp_init_list_too_small:
  assumes "unat bs + 4 \<le> start" "start < 2 ^ 32"
  shows "mp_init_list start bs 0 M = M(start - (unat bs + 4) := MNext None)"
proof -
  have lt: "unat bs + 4 < 2 ^ 32" using assms by simp
  then have bs: "unat (bs + 4) = unat bs + 4" by (simp add: unat_word_ariths)
  have "(of_nat start + (0 - 1) * (bs + 4) :: u32) = of_nat start - of_nat (unat bs + 4)" by simp
  also have "\<dots> = of_nat (start - (unat bs + 4))" using assms(1) by (simp add: of_nat_diff)
  finally have "mp_block_addr start bs (0 - 1) = start - (unat bs + 4)"
    unfolding mp_block_addr_def using assms(2) by (simp only: unat_of_nat) simp
  then show ?thesis by (simp add: mp_init_list_def)
qed

text \<open>
  Initialising a pool. For memory that lies in the address space and holds at least one block, \<open>rt_mp_init\<close> returns
  \<^verbatim>\<open>RT_EOK\<close> and the pool has its invariant: as many blocks as fit, each of the requested size rounded up to a
  multiple of 4 and preceded by one word, all of them free and inside the memory; nobody waits, and no word
  outside the memory of the pool is written.
\<close>

theorem rt_mp_init_correct:
  assumes "kinv s" "\<not> live s (OMemPool i)" "readable RT_NAME_MAX name" "0 < start" "start + unat sz \<le> 2 ^ 32"
    "0 < block_size" "block_size \<le> 0xfffffff0" "4 * ((unat block_size + 3) div 4) + 4 \<le> 4 * (unat sz div 4)"
  shows "\<exists>s'. rt_mp_init i name start sz block_size s = Some (RT_EOK, s') \<and> kinv s' \<and> live s' (OMemPool i) \<and> mp_inv i s' \<and>
    mp_allocated s' i = {} \<and> mp_start_address (mempools s' i) = start \<and>
    unat (mp_block_size (mempools s' i)) = 4 * ((unat block_size + 3) div 4) \<and>
    unat (mp_block_total_count (mempools s' i)) = 4 * (unat sz div 4) div (4 * ((unat block_size + 3) div 4) + 4) \<and>
    (\<forall>b\<in>set (mp_blocks (mempools s' i)). start \<le> b \<and> b + mp_stride (mempools s' i) \<le> start + unat sz) \<and>
    ring (thread_rings s') (Suspended (OMemPool i)) = [] \<and>
    (\<forall>a. a < start \<or> start + unat sz \<le> a \<longrightarrow> mp_mem s' a = mp_mem s a)"
proof -
  let ?bs = "RT_ALIGN block_size RT_ALIGN_SIZE" and ?sz = "RT_ALIGN_DOWN sz RT_ALIGN_SIZE"
  let ?n = "?sz div (?bs + 4)"
  have bs: "unat ?bs = 4 * ((unat block_size + 3) div 4)"
    using assms(7) by (intro unat_align) (simp add: word_le_nat_alt)
  have "unat ?bs + 4 < 4294967296" using assms(7) unfolding bs by (simp add: word_le_nat_alt)
  then have stride: "unat (?bs + 4) = unat ?bs + 4" by (simp add: unat_word_ariths)
  then have ne: "?bs + 4 \<noteq> 0" by (metis add_is_0 unat_0 zero_neq_numeral)
  have n: "unat ?n = 4 * (unat sz div 4) div (unat ?bs + 4)" by (simp add: unat_div stride unat_align_down)
  have "4 * (unat sz div 4) \<noteq> 0" using assms(8) by linarith
  then have sz: "sz > 0" using div_0 by (metis mult_0_right unat_0 word_neq_0_conv)
  have "1 \<le> 4 * (unat sz div 4) div (unat ?bs + 4)" using assms(8) bs by (simp add: Suc_le_eq div_greater_zero_iff)
  then have n0: "?n \<noteq> 0" unfolding n [symmetric] by auto
  have total: "unat ?n * (unat ?bs + 4) \<le> unat sz"
    using div_times_less_eq_dividend [of "4 * (unat sz div 4)" "unat ?bs + 4"] times_div_less_eq_dividend [of 4 "unat sz"]
    unfolding n by linarith
  obtain s1 where s1: "rt_object_init (OMemPool i) (class_of (OMemPool i)) name s = Some s1" "kinv s1" "live s1 (OMemPool i)"
    "\<And>l. wait_list (OMemPool i) l \<Longrightarrow> ipc_object_init l s1 = Some s1"
    "\<And>l. wait_list (OMemPool i) l \<Longrightarrow> ring (thread_rings s1) l = []"
    by (rule ipc_init_ok [OF assms(1) _ assms(2,3)], simp, rule that)
  have mem1: "mp_mem s1 = mp_mem s" by (rule object_init_frame(2) [OF assms(1-3) s1(1)])
  let ?m = "(mempools s1 i)\<lparr>mp_start_address := start, mp_size := ?sz, mp_block_size := ?bs, mp_block_total_count := ?n,
      mp_block_free_count := ?n, mp_block_list := Some start\<rparr>"
  let ?M = "mp_init_list start ?bs ?n (mp_mem s1)"
  let ?s' = "s1\<lparr>mp_mem := ?M, mempools := (mempools s1)(i := ?m)\<rparr>"
  have fits: "start + unat ?n * (unat ?bs + 4) \<le> 2 ^ 32" using total assms(5) by linarith
  have init: "rt_mp_init i name start sz block_size s = Some (RT_EOK, ?s')"
    using s1(1) s1(5) [of "Suspended (OMemPool i)"] assms(4,6) sz ne
    by (simp add: rt_mp_init_def class_of_def ipc_object_init_def mp_ptr_def upd_mp_def Let_def)
  have blocks: "mp_blocks ?m = map (\<lambda>k. start + k * (unat ?bs + 4)) [0..<unat ?n]" by (simp add: mp_blocks_def mp_stride_def)
  have rep: "mp_rep i (mp_blocks ?m) ?s'"
    unfolding mp_rep_def Let_def list_all_iff
    using mp_init_list_chain(1) [OF fits assms(4) n0, of "mp_mem s1"] fits assms(4)
    by (simp add: blocks mp_stride_def distinct_map inj_on_def)
  have inside: "start \<le> b \<and> b + mp_stride ?m \<le> start + unat sz" if "b \<in> set (mp_blocks ?m)" for b
    using mp_blocks_inside [OF that] total by (simp add: mp_stride_def)
  have other: "?M a = mp_mem s a" if "a < start \<or> start + unat sz \<le> a" for a
  proof -
    have "a \<notin> set (mp_blocks ?m)" using inside [of a] that by (auto simp: mp_stride_def)
    then show ?thesis using mp_init_list_chain(2) [OF fits assms(4) n0, of a "mp_mem s1"] mem1
      by (simp add: blocks lessThan_atLeast0)
  qed
  have "mp_allocated ?s' i = {}" using mp_allocated_eq [OF rep] by simp
  moreover have "kinv ?s'" "live ?s' (OMemPool i)" using s1(2,3) by simp_all
  moreover have "unat ?n = 4 * (unat sz div 4) div (4 * ((unat block_size + 3) div 4) + 4)" using n bs by simp
  ultimately show ?thesis
    using rep inside other s1(5) [of "Suspended (OMemPool i)"] bs
    unfolding init by (intro exI [of _ ?s']) (simp add: mp_inv_def exI [of "\<lambda>fs. mp_rep i fs ?s'"])
qed


theorem rt_mp_init_correct_witness:
  "\<exists>s'. rt_mp_init 1 [112, 0] 1000 30 6 (demo 3) = Some (RT_EOK, s') \<and> kinv s' \<and> mp_inv 1 s' \<and> mp_allocated s' 1 = {} \<and>
    unat (mp_block_total_count (mempools s' 1)) = 2"
proof -
  have pre: "kinv (demo 3)" "\<not> live (demo 3) (OMemPool 1)" "readable RT_NAME_MAX [112, 0]"
    by (simp_all add: demo_kinv demo_live_iff demo_live_def readable_def)
  show ?thesis using rt_mp_init_correct [OF pre, of 1000 30 6] by auto
qed

lemma mempool_type: "kinv s \<Longrightarrow> live s (OMemPool i) \<Longrightarrow> rt_object_get_type (OMemPool i) s = RT_Object_Class_MemPool"
  using rt_object_get_type_live [of s "OMemPool i"] by (simp add: class_of_def)

text \<open>
  Removing a pool wakes all waiting threads with an error, and their calls return the null pointer.
\<close>

lemma rt_mp_detach_ok:
  assumes inv: "kinv s" and live: "live s (OMemPool i)" and static: "rt_object_is_systemobject (OMemPool i) s"
  obtains s1 where "rt_mp_detach i s = Some (RT_EOK, rt_object_detach (OMemPool i) s1)" "kinv (rt_object_detach (OMemPool i) s1)"
    "released (set (ring (thread_rings s) (Suspended (OMemPool i)))) s s1"
    "\<And>w. wl_thread w \<in> set (ring (thread_rings s) (Suspended (OMemPool i))) \<Longrightarrow>
       rt_mp_alloc_resume i w (rt_object_detach (OMemPool i) s1) = Some (MpReturn None, rt_object_detach (OMemPool i) s1)"
proof -
  obtain s1 where s1: "ipc_list_resume_all (Suspended (OMemPool i)) s = Some s1"
    "released (set (ring (thread_rings s) (Suspended (OMemPool i)))) s s1" "ring (thread_rings s1) (Suspended (OMemPool i)) = []"
    by (rule resume_one [OF inv, of "OMemPool i"]) auto
  have "kinv (rt_object_detach (OMemPool i) s1)"
    by (rule ipc_detach_ok) (use s1 wakesD(1) in \<open>auto simp: released_def wait_list_def\<close>)
  then show thesis
    using that [of s1] s1 mempool_type [OF inv live] static by (simp add: rt_mp_detach_def rt_mp_alloc_resume_def released_def)
qed

lemma live_set_heap [simp]: "live (s\<lparr>heap := H\<rparr>) = live s"
  by (simp add: live_def fun_eq_iff)

lemma kinv_free_pool:
  assumes "kinv s"
  shows "kinv (s\<lparr>heap := heap s - {BPool a}\<rparr>)" (is "kinv ?s")
proof -
  have eqs: "status ?s = status s" "thread_prio ?s = thread_prio s" "is_static ?s = is_static s" "timer_flag ?s = timer_flag s"
    by (simp_all add: status_def thread_prio_def is_static_def timer_flag_def fun_eq_iff)
  have "obj_ok ?s x" for x using kinvD(4) [OF assms, of x] by (auto simp: obj_ok_def split: option.splits)
  moreover have "thread_ok ?s t" for t
    using kinvD(5) [OF assms, of t] unfolding thread_ok_def thread_timer_alive_def eqs by simp
  moreover have "timer_ok ?s r" for r using kinvD(6) [OF assms, of r] unfolding timer_ok_def eqs by simp
  ultimately show ?thesis
    using assms unfolding kinv_def by (auto simp: rings_all_ok_def group_ok_def cur_ok_def lock_ok_def eqs)
qed

lemma rt_mp_delete_ok:
  assumes inv: "kinv s" and live: "live s (OMemPool i)" and dyn: "\<not> rt_object_is_systemobject (OMemPool i) s"
    and ctx: "rt_interrupt_nest s = 0" and pool: "BPool (mp_start_address (mempools s i)) \<in> heap s"
  obtains s1 s' where "rt_mp_delete i s = Some (RT_EOK, s')" "kinv s'" "\<not> live s' (OMemPool i)"
    "released (set (ring (thread_rings s) (Suspended (OMemPool i)))) s s1"
    "heap s' = heap s - {BPool (mp_start_address (mempools s i)), BObject (OMemPool i)}"
proof -
  let ?p = "BPool (mp_start_address (mempools s i))"
  obtain s1 where s1: "ipc_list_resume_all (Suspended (OMemPool i)) s = Some s1"
    "released (set (ring (thread_rings s) (Suspended (OMemPool i)))) s s1" "ring (thread_rings s1) (Suspended (OMemPool i)) = []"
    by (rule resume_one [OF inv, of "OMemPool i"]) auto
  have w: "wakes (set (ring (thread_rings s) (Suspended (OMemPool i)))) s s1" using s1(2) by (simp add: released_def)
  note c = core_step_fields [OF wakesD(2) [OF w]]
  let ?s2 = "s1\<lparr>heap := heap s1 - {?p}\<rparr>"
  have k2: "kinv ?s2" using kinv_free_pool [OF wakesD(1) [OF w]] .
  have l2: "live ?s2 (OMemPool i)" "\<not> rt_object_is_systemobject (OMemPool i) ?s2"
    using live dyn wakesD(11) [OF w] c(11) [of "OMemPool i"] by (simp_all add: live_def fun_eq_iff rt_object_is_systemobject_def)
  obtain s' where s': "rt_object_delete (OMemPool i) ?s2 = Some s'" "kinv s'"
    "s' = (rt_object_detach (OMemPool i) ?s2)\<lparr>heap := heap ?s2 - {BObject (OMemPool i)}\<rparr>"
    by (rule ipc_delete_ok [OF k2 _ _ l2]) (use s1(3) in \<open>auto simp: wait_list_def\<close>)
  have "rt_mp_delete i s = Some (RT_EOK, s')"
    using mempool_type [OF inv live] dyn ctx s1(1) s'(1) pool c(9,12)
    by (simp add: rt_mp_delete_def RT_KERNEL_FREE_def RT_DEBUG_NOT_IN_INTERRUPT_def rt_interrupt_get_nest_def)
  moreover have "\<not> live s' (OMemPool i)" by (simp add: s'(3))
  moreover have "heap s' = heap s - {?p, BObject (OMemPool i)}" using c(9) by (auto simp: s'(3))
  ultimately show thesis using that s'(2) s1(2) by blast
qed

end
