(* ===== verification/RT_Cells.thy ===== *)
theory RT_Cells
  imports RT_Alloc
begin

section \<open>Cells: the specification of a first-fit heap\<close>

text \<open>
  What \<^verbatim>\<open>mem.c\<close> promises, without headers and pointers: the heap is a sequence of cells that cover it without gaps, each with
  its length in bytes (the header of twelve bytes included) and a flag that tells whether it is used. A request takes
  the first free cell that is large enough and splits it when the rest can hold a cell of its own; freeing a cell
  makes it free and merges neighbouring free cells. The theory is about lists only; \<open>RT_SmallMem\<close> shows that the pointer
  code implements it.
\<close>

type_synonym cell = "nat \<times> bool"

definition cells_span :: "cell list \<Rightarrow> nat" where
  "cells_span cs = sum_list (map fst cs)"

fun used_bytes :: "cell list \<Rightarrow> nat" where
  "used_bytes [] = 0"
| "used_bytes ((n, u) # cs) = (if u then n else 0) + used_bytes cs"

text \<open>The offset of the first free cell, or the end.\<close>

fun first_free :: "nat \<Rightarrow> cell list \<Rightarrow> nat" where
  "first_free a [] = a"
| "first_free a ((n, u) # cs) = (if u then first_free (a + n) cs else a)"

text \<open>The first free cell with room for \<open>k\<close> bytes, with the cells before and behind it.\<close>

fun first_fit :: "nat \<Rightarrow> cell list \<Rightarrow> (cell list \<times> nat \<times> cell list) option" where
  "first_fit k [] = None"
| "first_fit k ((n, u) # cs) =
     (if \<not> u \<and> k + 12 \<le> n then Some ([], n, cs)
      else case first_fit k cs of
        None \<Rightarrow> None
      | Some (xs, m, ys) \<Rightarrow> Some ((n, u) # xs, m, ys))"

definition grant :: "nat \<Rightarrow> nat \<Rightarrow> cell list" where
  "grant k n = (if k + 36 \<le> n then [(k + 12, True), (n - (k + 12), False)] else [(n, True)])"

definition cells_alloc :: "nat \<Rightarrow> cell list \<Rightarrow> nat option \<times> cell list" where
  "cells_alloc k cs =
     (case first_fit k cs of
        None \<Rightarrow> (None, cs)
      | Some (xs, n, ys) \<Rightarrow> (Some (cells_span xs), xs @ grant k n @ ys))"

fun mark_free :: "nat \<Rightarrow> cell list \<Rightarrow> cell list" where
  "mark_free a [] = []"
| "mark_free a ((n, u) # cs) = (if a = 0 then (n, False) # cs else (n, u) # mark_free (a - n) cs)"

fun coalesce :: "cell list \<Rightarrow> cell list" where
  "coalesce [] = []"
| "coalesce ((n, True) # cs) = (n, True) # coalesce cs"
| "coalesce [(n, False)] = [(n, False)]"
| "coalesce ((n, False) # (k, True) # cs) = (n, False) # (k, True) # coalesce cs"
| "coalesce ((n, False) # (k, False) # cs) = coalesce ((n + k, False) # cs)"

definition cells_free :: "nat \<Rightarrow> cell list \<Rightarrow> cell list" where
  "cells_free a cs = coalesce (mark_free a cs)"

definition cell_ok :: "cell \<Rightarrow> bool" where
  "cell_ok c \<longleftrightarrow> 12 \<le> fst c \<and> 4 dvd fst c \<and> (snd c \<longrightarrow> 16 \<le> fst c)"

definition coalesced :: "cell list \<Rightarrow> bool" where
  "coalesced cs = successively (\<lambda>a b. snd a \<or> snd b) cs"

text \<open>The memory handed out: the used cells without their headers.\<close>

fun cell_regions :: "nat \<Rightarrow> cell list \<Rightarrow> regions" where
  "cell_regions a [] = Map.empty"
| "cell_regions a ((n, u) # cs) = (if u then (cell_regions (a + n) cs)(a + 12 \<mapsto> n - 12) else cell_regions (a + n) cs)"

subsection \<open>Lengths and offsets\<close>

lemma cells_span_simps [simp]:
  "cells_span [] = 0" "cells_span (c # cs) = fst c + cells_span cs" "cells_span (xs @ ys) = cells_span xs + cells_span ys"
  by (simp_all add: cells_span_def)

lemma used_bytes_append [simp]: "used_bytes (xs @ ys) = used_bytes xs + used_bytes ys"
  by (induction xs rule: used_bytes.induct) simp_all

lemma used_bytes_le: "used_bytes cs \<le> cells_span cs"
  by (induction cs rule: used_bytes.induct) simp_all

lemma first_free_append:
  "first_free a (xs @ ys) = (if \<exists>c\<in>set xs. \<not> snd c then first_free a xs else first_free (a + cells_span xs) ys)"
  by (induction a xs rule: first_free.induct) (auto simp: add.assoc)

lemma first_free_used: "\<forall>c\<in>set cs. snd c \<Longrightarrow> first_free a cs = a + cells_span cs"
  by (induction a cs rule: first_free.induct) auto

lemma first_free_le: "first_free a cs \<le> a + cells_span cs" "a \<le> first_free a cs"
  by (induction a cs rule: first_free.induct) auto

lemma first_free_less: "\<forall>c\<in>set cs. cell_ok c \<Longrightarrow> \<exists>c\<in>set cs. \<not> snd c \<Longrightarrow> first_free a cs < a + cells_span cs"
  by (induction a cs rule: first_free.induct) (force simp: cell_ok_def)+

lemma cells_span_dvd: "\<forall>c\<in>set cs. cell_ok c \<Longrightarrow> 4 dvd cells_span cs"
  by (induction cs) (auto simp: cell_ok_def)

lemma length_le_span: "\<forall>c\<in>set cs. cell_ok c \<Longrightarrow> length cs \<le> cells_span cs"
  by (induction cs) (auto simp: cell_ok_def)

lemma mark_free_at: "\<forall>c\<in>set xs. cell_ok c \<Longrightarrow> mark_free (cells_span xs) (xs @ (n, u) # ys) = xs @ (n, False) # ys"
  by (induction xs) (auto simp: cell_ok_def)

subsection \<open>Requests\<close>

lemma first_fit_Some:
  "first_fit k cs = Some (xs, n, ys) \<Longrightarrow> cs = xs @ (n, False) # ys \<and> k + 12 \<le> n \<and> (\<forall>c\<in>set xs. snd c \<or> fst c < k + 12)"
  by (induction k cs arbitrary: xs rule: first_fit.induct) (fastforce split: if_splits option.splits prod.splits)+

lemma first_fit_None: "first_fit k cs = None \<longleftrightarrow> (\<forall>c\<in>set cs. snd c \<or> fst c < k + 12)"
  by (induction k cs rule: first_fit.induct) (auto split: option.splits)

lemma first_fit_append:
  "\<forall>c\<in>set xs. snd c \<or> fst c < k + 12 \<Longrightarrow>
   first_fit k (xs @ ys) = map_option (\<lambda>(zs, n, ws). (xs @ zs, n, ws)) (first_fit k ys)"
  by (induction k xs rule: first_fit.induct) (auto simp: option.map_id split: option.splits)

lemma grant_ok:
  assumes "k + 12 \<le> n" "cell_ok (n, False)" "4 dvd k" "4 \<le> k"
  shows "cells_span (grant k n) = n" "\<forall>c\<in>set (grant k n). cell_ok c"
  using assms by (auto simp: grant_def cell_ok_def)

lemma grant_regions: "k + 12 \<le> n \<Longrightarrow> \<exists>l\<ge>k. cell_regions a (grant k n @ ys) = (cell_regions (a + n) ys)(a + 12 \<mapsto> l)"
  by (intro exI [of _ "if k + 36 \<le> n then k else n - 12"]) (auto simp: grant_def)

lemma coalesced_append:
  "coalesced (xs @ ys) \<longleftrightarrow> coalesced xs \<and> coalesced ys \<and> (xs \<noteq> [] \<and> ys \<noteq> [] \<longrightarrow> snd (last xs) \<or> snd (hd ys))"
  by (auto simp: coalesced_def successively_append_iff)

lemma coalesced_Cons: "coalesced (c # cs) \<longleftrightarrow> coalesced cs \<and> (cs \<noteq> [] \<longrightarrow> snd c \<or> snd (hd cs))"
  by (auto simp: coalesced_def successively_Cons)

lemma coalesced_Nil [simp]: "coalesced []"
  by (simp add: coalesced_def)

lemma coalesced_grant:
  assumes "coalesced (xs @ (n, False) # ys)"
  shows "coalesced (xs @ grant k n @ ys)"
  using assms by (auto simp: grant_def coalesced_append coalesced_Cons)

subsection \<open>Merging\<close>

lemma coalesce_id: "coalesced cs \<Longrightarrow> coalesce cs = cs"
  by (induction cs rule: coalesce.induct) (auto simp: coalesced_Cons)

lemma coalesce_join: "coalesce (xs @ (a, False) # (b, False) # ys) = coalesce (xs @ (a + b, False) # ys)"
  by (induction xs arbitrary: a rule: coalesce.induct) (simp_all add: add.assoc)

lemma coalesce_regions: "\<forall>c\<in>set cs. cell_ok c \<Longrightarrow> cell_regions a (coalesce cs) = cell_regions a cs"
  by (induction cs arbitrary: a rule: coalesce.induct) (simp_all add: cell_ok_def add.assoc)

lemma coalesce_ok:
  "cells_span (coalesce cs) = cells_span cs" "used_bytes (coalesce cs) = used_bytes cs"
  by (induction cs rule: coalesce.induct) simp_all

lemma cell_ok_add: "cell_ok (n, u) \<Longrightarrow> cell_ok (k, v) \<Longrightarrow> cell_ok (n + k, False)"
  by (simp add: cell_ok_def)

lemma cell_ok_coalesce: "\<forall>c\<in>set cs. cell_ok c \<Longrightarrow> \<forall>c\<in>set (coalesce cs). cell_ok c"
proof (induction cs rule: coalesce.induct)
  case (5 n k cs)
  have "\<forall>c\<in>set ((n + k, False) # cs). cell_ok c" using 5(2) cell_ok_add [of n False k False] by simp
  then show ?case unfolding coalesce.simps by (rule 5(1))
qed simp_all

lemma coalesced_all_free:
  assumes "coalesced cs" "\<forall>c\<in>set cs. \<not> snd c" "cs \<noteq> []"
  shows "cs = [(cells_span cs, False)]"
proof (cases cs)
  case (Cons c ds)
  then show ?thesis using assms by (cases ds; cases c) (auto simp: coalesced_Cons)
qed (use assms in simp)

subsection \<open>Regions\<close>

lemma cell_regions_Some:
  "\<forall>c\<in>set cs. cell_ok c \<Longrightarrow> cell_regions a cs x = Some l \<Longrightarrow>
   \<exists>xs ys. cs = xs @ (l + 12, True) # ys \<and> x = a + cells_span xs + 12"
proof (induction a cs rule: cell_regions.induct)
  case (2 a n u cs)
  show ?case
  proof (cases "u \<and> x = a + 12")
    case True
    then show ?thesis using 2 by (intro exI [of _ "[]"] exI [of _ cs]) (auto simp: cell_ok_def)
  next
    case False
    then have "cell_regions (a + n) cs x = Some l" using 2(4) by (auto split: if_splits)
    then obtain xs ys where "cs = xs @ (l + 12, True) # ys" "x = a + n + cells_span xs + 12" using 2(1,2,3) by (cases u) auto
    then show ?thesis by (intro exI [of _ "(n, u) # xs"] exI [of _ ys]) auto
  qed
qed simp

lemma cell_regions_bounds:
  assumes "\<forall>c\<in>set cs. cell_ok c" "cell_regions a cs x = Some l"
  shows "a + 12 \<le> x" "x + l \<le> a + cells_span cs"
  using cell_regions_Some [OF assms] by auto

lemma cell_regions_append:
  "\<forall>c\<in>set (xs @ ys). cell_ok c \<Longrightarrow> cell_regions a (xs @ ys) = cell_regions a xs ++ cell_regions (a + cells_span xs) ys"
proof (induction xs arbitrary: a)
  case (Cons c xs)
  obtain n u where c: "c = (n, u)" by fastforce
  have "a + 12 \<notin> dom (cell_regions (a + n + cells_span xs) ys)"
    using cell_regions_bounds(1) [of ys "a + n + cells_span xs" "a + 12"] Cons.prems by (fastforce simp: c cell_ok_def)
  then have "(cell_regions (a + n) xs)(a + 12 \<mapsto> n - 12) ++ cell_regions (a + n + cells_span xs) ys =
      (cell_regions (a + n) xs ++ cell_regions (a + n + cells_span xs) ys)(a + 12 \<mapsto> n - 12)" by (rule map_add_upd_left)
  moreover have "cell_regions (a + n) (xs @ ys) = cell_regions (a + n) xs ++ cell_regions (a + n + cells_span xs) ys"
    using Cons by simp
  moreover have "a + cells_span (c # xs) = a + n + cells_span xs" by (simp add: c)
  ultimately show ?case by (cases u) (simp_all only: c append_Cons cell_regions.simps if_True if_False simp_thms)
qed simp

lemma cell_regions_disjoint: 
  assumes ok: "\<forall>c\<in>set cs. cell_ok c"
  shows "regions_disjoint (cell_regions a cs)"
  using assms unfolding regions_disjoint_def
proof (induction a cs rule: cell_regions.induct)
  case (2 a n u cs)
  have IH: "\<forall>x y l m. cell_regions (a + n) cs x = Some l \<and> cell_regions (a + n) cs y = Some m \<and> x \<noteq> y \<longrightarrow>
      region_bytes x l \<inter> region_bytes y m = {}" using 2 by (cases u) auto
  have b: "a + n + 12 \<le> x" if "cell_regions (a + n) cs x = Some l" for x l
    using cell_regions_bounds(1) [OF _ that] 2(3) by simp
  have n: "12 \<le> n" using 2(3) by (simp add: cell_ok_def)
  show ?case
  proof (intro allI impI, elim conjE)
    fix x y l m assume *: "cell_regions a ((n, u) # cs) x = Some l" "cell_regions a ((n, u) # cs) y = Some m" "x \<noteq> y"
    show "region_bytes x l \<inter> region_bytes y m = {}"
      using * IH b [of x l] b [of y m] n by (auto simp: region_bytes_def split: if_splits)
  qed
qed simp

lemma cell_regions_at:
  assumes "\<forall>c\<in>set (xs @ ys). cell_ok c"
  shows "cell_regions a (xs @ ys) (a + cells_span xs + 12) = cell_regions (a + cells_span xs) ys (a + cells_span xs + 12)"
proof -
  let ?x = "a + cells_span xs + 12"
  have "cell_regions a xs ?x = None" 
    using cell_regions_bounds(2) [of xs a ?x] assms by (cases "cell_regions a xs ?x") auto
  then show ?thesis using cell_regions_append [OF assms] by (simp add: map_add_def split: option.splits)
qed

lemma cell_regions_behind:
  assumes "\<forall>c\<in>set ys. cell_ok c" "12 \<le> n"
  shows "cell_regions (a + n) ys (a + 12) = None"
  using cell_regions_bounds(1) [of ys "a + n" "a + 12"] assms by (cases "cell_regions (a + n) ys (a + 12)") auto

text \<open>A request adds one region of at least the requested size; freeing a cell removes exactly its region.\<close>

lemma cells_alloc_regions:
  assumes ok: "\<forall>c\<in>set (xs @ (n, False) # ys). cell_ok c" and k: "k + 12 \<le> n" "4 dvd k" "4 \<le> k"
  shows "cell_regions a (xs @ (n, False) # ys) (a + cells_span xs + 12) = None"
    "\<exists>l\<ge>k. cell_regions a (xs @ grant k n @ ys) = (cell_regions a (xs @ (n, False) # ys))(a + cells_span xs + 12 \<mapsto> l)"
proof -
  have n: "12 \<le> n" "cell_ok (n, False)" using ok by (auto simp: cell_ok_def)
  show "cell_regions a (xs @ (n, False) # ys) (a + cells_span xs + 12) = None"
    using cell_regions_at [OF ok] cell_regions_behind [of ys n "a + cells_span xs"] ok n(1) by simp
  obtain l where l: "k \<le> l"
    "cell_regions (a + cells_span xs) (grant k n @ ys) = (cell_regions (a + cells_span xs + n) ys)(a + cells_span xs + 12 \<mapsto> l)"
    using grant_regions [OF k(1)] by blast
  have "\<forall>c\<in>set (xs @ grant k n @ ys). cell_ok c" using grant_ok(2) [OF k(1) n(2) k(2,3)] ok by auto
  then show "\<exists>l\<ge>k. cell_regions a (xs @ grant k n @ ys) = (cell_regions a (xs @ (n, False) # ys))(a + cells_span xs + 12 \<mapsto> l)"
    using l cell_regions_append ok by (intro exI [of _ l]) (simp add: cell_regions_append)
qed

lemma cells_free_regions:
  assumes ok: "\<forall>c\<in>set (xs @ (n, True) # ys). cell_ok c"
  shows "cell_regions a (coalesce (xs @ (n, False) # ys)) = (cell_regions a (xs @ (n, True) # ys))(a + cells_span xs + 12 := None)"
proof -
  let ?x = "a + cells_span xs + 12" and ?R = "cell_regions (a + cells_span xs + n) ys"
  have ok': "\<forall>c\<in>set (xs @ (n, False) # ys). cell_ok c" using ok by (auto simp: cell_ok_def)
  have xs: "cell_regions a xs ?x = None" 
    using cell_regions_bounds(2) [of xs a ?x] ok by (cases "cell_regions a xs ?x") auto
  have R: "?R ?x = None" using cell_regions_behind [of ys n "a + cells_span xs"] ok by (auto simp: cell_ok_def)
  have "cell_regions a (coalesce (xs @ (n, False) # ys)) = cell_regions a xs ++ ?R"
    using coalesce_regions [OF ok'] cell_regions_append [OF ok'] by simp
  also have "\<dots> = (cell_regions a xs ++ ?R(?x \<mapsto> n - 12))(?x := None)"
    using xs R by (auto simp: fun_eq_iff map_add_def split: option.splits)
  finally show ?thesis using cell_regions_append [OF ok] by simp
qed

end
