(* ===== verification/RT_Memory.thy ===== *)
theory RT_Memory
  imports RT_KService
begin

section \<open>Memory and string functions of \<^verbatim>\<open>src/kservice.c\<close>\<close>

text \<open>
  \<^verbatim>\<open>rt_memset\<close> and \<^verbatim>\<open>rt_memcpy\<close> in both variants of the source (the small one that works byte by byte and the fast
  one that works on aligned words in blocks of four), \<^verbatim>\<open>rt_memmove\<close>, \<^verbatim>\<open>rt_memcmp\<close>, \<^verbatim>\<open>rt_strstr\<close> and \<^verbatim>\<open>rt_strcasecmp\<close>.
  The functions that write work on a memory of bytes; a \<^verbatim>\<open>long\<close> has four bytes in little-endian order. A pointer is a natural number: the objects of
  C do not wrap around the address space. Counts are natural numbers too: the comparisons with \<^verbatim>\<open>sizeof\<close> in \<^verbatim>\<open>rt_memcpy\<close> are
  unsigned, although its local variable is an \<^verbatim>\<open>int\<close>. (A count of two to the 31 or more would overflow that variable; no object of a 32-bit system is that large.)
  The pointer that the functions return is their first argument and is left out. The functions that only read take, as in \<open>RT_KService\<close>,
  the list of bytes that may be read.
\<close>

type_synonym bytes = "nat \<Rightarrow> u8"

subsection \<open>Words in memory\<close>

definition store_long :: "nat \<Rightarrow> u32 \<Rightarrow> bytes \<Rightarrow> bytes" where
  "store_long a w f = f(a := ucast w, a + 1 := ucast (drop_bit 8 w), a + 2 := ucast (drop_bit 16 w), a + 3 := ucast (drop_bit 24 w))"

definition load_long :: "nat \<Rightarrow> bytes \<Rightarrow> u32" where
  "load_long a f = ucast (f a) OR push_bit 8 (ucast (f (a + 1))) OR push_bit 16 (ucast (f (a + 2))) OR push_bit 24 (ucast (f (a + 3)))"

subsection \<open>\<^verbatim>\<open>rt_memset\<close>\<close>

fun memset_loop :: "nat \<Rightarrow> nat \<Rightarrow> u8 \<Rightarrow> bytes \<Rightarrow> bytes" where
  "memset_loop m 0 d f = f"
| "memset_loop m (Suc count) d f = memset_loop (m + 1) count d (f(m := d))"

fun memset_blocks :: "nat \<Rightarrow> nat \<Rightarrow> u32 \<Rightarrow> bytes \<Rightarrow> nat \<times> nat \<times> bytes" where
  "memset_blocks a count buffer f =
     (if count \<ge> 16 then
        let f = store_long a buffer f; f = store_long (a + 4) buffer f; f = store_long (a + 8) buffer f; f = store_long (a + 12) buffer f
        in memset_blocks (a + 16) (count - 16) buffer f
      else (a, count, f))"

fun memset_longs :: "nat \<Rightarrow> nat \<Rightarrow> u32 \<Rightarrow> bytes \<Rightarrow> nat \<times> nat \<times> bytes" where
  "memset_longs a count buffer f =
     (if count \<ge> 4 then memset_longs (a + 4) (count - 4) buffer (store_long a buffer f) else (a, count, f))"

definition rt_memset :: "nat \<Rightarrow> u32 \<Rightarrow> nat \<Rightarrow> bytes \<Rightarrow> bytes" where
  "rt_memset s c count f =
     (let d = c AND 0xff;
          (m, count, f) =
            (if \<not> count < 4 \<and> s mod 4 = 0 then
               let buffer = push_bit 8 d OR d;
                   buffer = buffer OR push_bit 16 buffer;
                   (a, count, f) = memset_blocks s count buffer f
               in memset_longs a count buffer f
             else (s, count, f))
      in memset_loop m count (ucast d) f)"

definition rt_memset_tiny :: "nat \<Rightarrow> u32 \<Rightarrow> nat \<Rightarrow> bytes \<Rightarrow> bytes" where
  "rt_memset_tiny s c count f = memset_loop s count (ucast c) f"

subsection \<open>\<^verbatim>\<open>rt_memcpy\<close> and \<^verbatim>\<open>rt_memmove\<close>\<close>

fun copy_forward :: "nat \<Rightarrow> nat \<Rightarrow> nat \<Rightarrow> bytes \<Rightarrow> bytes" where
  "copy_forward dst src 0 f = f"
| "copy_forward dst src (Suc n) f = copy_forward (dst + 1) (src + 1) n (f(dst := f src))"

fun copy_backward :: "nat \<Rightarrow> nat \<Rightarrow> nat \<Rightarrow> bytes \<Rightarrow> bytes" where
  "copy_backward dst src 0 f = f"
| "copy_backward dst src (Suc n) f = copy_backward dst src n (f(dst + n := f (src + n)))"

definition copy_long :: "nat \<Rightarrow> nat \<Rightarrow> bytes \<Rightarrow> bytes" where
  "copy_long dst src f = store_long dst (load_long src f) f"

fun memcpy_blocks :: "nat \<Rightarrow> nat \<Rightarrow> nat \<Rightarrow> bytes \<Rightarrow> nat \<times> nat \<times> nat \<times> bytes" where
  "memcpy_blocks dst src len f =
     (if len \<ge> 16 then
        let f = copy_long dst src f; f = copy_long (dst + 4) (src + 4) f; f = copy_long (dst + 8) (src + 8) f; f = copy_long (dst + 12) (src + 12) f
        in memcpy_blocks (dst + 16) (src + 16) (len - 16) f
      else (dst, src, len, f))"

fun memcpy_longs :: "nat \<Rightarrow> nat \<Rightarrow> nat \<Rightarrow> bytes \<Rightarrow> nat \<times> nat \<times> nat \<times> bytes" where
  "memcpy_longs dst src len f =
     (if len \<ge> 4 then memcpy_longs (dst + 4) (src + 4) (len - 4) (copy_long dst src f) else (dst, src, len, f))"

definition rt_memcpy :: "nat \<Rightarrow> nat \<Rightarrow> nat \<Rightarrow> bytes \<Rightarrow> bytes" where
  "rt_memcpy dst src count f =
     (let (dst, src, len, f) =
            (if \<not> count < 16 \<and> src mod 4 = 0 \<and> dst mod 4 = 0 then
               let (dst, src, len, f) = memcpy_blocks dst src count f
               in memcpy_longs dst src len f
             else (dst, src, count, f))
      in copy_forward dst src len f)"

definition rt_memcpy_tiny :: "nat \<Rightarrow> nat \<Rightarrow> nat \<Rightarrow> bytes \<Rightarrow> bytes" where
  "rt_memcpy_tiny dst src count f =
     (if dst \<le> src \<or> dst > src + count then copy_forward dst src count f else copy_backward dst src count f)"

definition rt_memmove :: "nat \<Rightarrow> nat \<Rightarrow> nat \<Rightarrow> bytes \<Rightarrow> bytes" where
  "rt_memmove dest src n f =
     (if src < dest \<and> dest < src + n then copy_backward dest src n f else copy_forward dest src n f)"

subsection \<open>Comparing and searching\<close>

fun rt_memcmp :: "u8 list \<Rightarrow> u8 list \<Rightarrow> nat \<Rightarrow> int option" where
  "rt_memcmp cs ct 0 = Some 0"
| "rt_memcmp (c # cs) (d # ct) (Suc n) = (if uint c - uint d \<noteq> 0 then Some (uint c - uint d) else rt_memcmp cs ct n)"
| "rt_memcmp cs ct (Suc n) = None"

text \<open>
  \<^verbatim>\<open>rt_strstr\<close>: the result is the offset of the match, or \<open>None\<close> for \<^verbatim>\<open>RT_NULL\<close>. The loop is only entered with a
  positive \<^verbatim>\<open>l2\<close>.
\<close>

fun strstr_loop :: "nat \<Rightarrow> nat \<Rightarrow> nat \<Rightarrow> u8 list \<Rightarrow> u8 list \<Rightarrow> nat option option" where
  "strstr_loop k l1 l2 s1 s2 =
     (if l1 \<ge> l2 \<and> 0 < l2 then do {
        r \<leftarrow> rt_memcmp s1 s2 l2;
        if r = 0 then Some (Some k) else strstr_loop (k + 1) (l1 - 1) l2 (tl s1) s2
      } else Some None)"

definition rt_strstr :: "u8 list \<Rightarrow> u8 list \<Rightarrow> nat option option" where
  "rt_strstr s1 s2 = do {
     l2 \<leftarrow> rt_strlen s2;
     if l2 = 0 then Some (Some 0)
     else do {
       l1 \<leftarrow> rt_strlen s1;
       strstr_loop 0 l1 l2 s1 s2
     }
   }"

definition tolower :: "int \<Rightarrow> int" where
  "tolower c = (if 65 \<le> c \<and> c \<le> 90 then c + 32 else c)"

fun rt_strcasecmp :: "u8 list \<Rightarrow> u8 list \<Rightarrow> int option" where
  "rt_strcasecmp (a # as) (b # bs) =
     (let ca = tolower (uint a); cb = tolower (uint b)
      in if ca = cb \<and> ca \<noteq> 0 then rt_strcasecmp as bs else Some (ca - cb))"
| "rt_strcasecmp as bs = None"

declare memset_blocks.simps [simp del] memset_longs.simps [simp del] memcpy_blocks.simps [simp del] memcpy_longs.simps [simp del]
  strstr_loop.simps [simp del]

subsection \<open>What the loops do\<close>

text \<open>The memory with \<open>n\<close> bytes from \<open>a\<close> on replaced by the values of \<open>v\<close>.\<close>

definition fill :: "nat \<Rightarrow> nat \<Rightarrow> (nat \<Rightarrow> u8) \<Rightarrow> bytes \<Rightarrow> bytes" where
  "fill a n v f = (\<lambda>x. if a \<le> x \<and> x < a + n then v (x - a) else f x)"

lemma fill_0 [simp]: "fill a 0 v f = f"
  by (auto simp: fill_def fun_eq_iff)

lemma fill_fill: "fill (a + n) k w (fill a n v f) = fill a (n + k) (\<lambda>i. if i < n then v i else w (i - n)) f"
  by (auto simp: fill_def fun_eq_iff)

lemma fill_1: "f(a := c) = fill a 1 (\<lambda>_. c) f"
  by (auto simp: fill_def fun_eq_iff)

lemma store_long_fill:
  "store_long a w f = fill a 4 (\<lambda>i. ucast (drop_bit (8 * i) w)) f"
proof
  fix x
  have "x < a \<or> x = a \<or> x = a + 1 \<or> x = a + 2 \<or> x = a + 3 \<or> a + 4 \<le> x" by linarith
  then show "store_long a w f x = fill a 4 (\<lambda>i. ucast (drop_bit (8 * i) w)) f x" by (auto simp: store_long_def fill_def)
qed

lemma load_store_long: "load_long a (store_long a w f) = w"
proof (rule bit_word_eqI)
  fix n assume "n < LENGTH(32)"
  then consider "n < 8" | "8 \<le> n" "n < 16" | "16 \<le> n" "n < 24" | "24 \<le> n" "n < 32" by fastforce
  then show "bit (load_long a (store_long a w f)) n = bit w n"
    by cases (simp_all add: load_long_def store_long_def bit_simps less_diff_conv2)
qed

lemma load_long_byte:
  assumes "i < 4"
  shows "(ucast (drop_bit (8 * i) (load_long a f)) :: u8) = f (a + i)"
proof (rule bit_word_eqI)
  fix n assume "n < LENGTH(8)"
  moreover have "i = 0 \<or> i = 1 \<or> i = 2 \<or> i = 3" using assms by linarith
  ultimately show "bit (ucast (drop_bit (8 * i) (load_long a f)) :: u8) n = bit (f (a + i)) n"
    by (auto simp: load_long_def bit_simps dest: bit_imp_le_length)
qed

lemma fill_const: "fill (a + n) k (\<lambda>_. d) (fill a n (\<lambda>_. d) f) = fill a (n + k) (\<lambda>_. d) f"
  by (simp add: fill_fill)

lemma memset_loop_fill: "memset_loop m count d f = fill m count (\<lambda>_. d) f"
  by (induction m count d f rule: memset_loop.induct) (simp_all add: fill_1 fill_const [where n = 1, simplified])

text \<open>A word of four equal bytes.\<close>

definition byte_word :: "u8 \<Rightarrow> u32" where
  "byte_word d = (let b = push_bit 8 (ucast d) OR ucast d in b OR push_bit 16 b)"

lemma byte_word_byte: "i < 4 \<Longrightarrow> (ucast (drop_bit (8 * i) (byte_word d)) :: u8) = d"
proof (rule bit_word_eqI)
  fix n assume "i < 4" "n < LENGTH(8)"
  moreover have "i = 0 \<or> i = 1 \<or> i = 2 \<or> i = 3" using \<open>i < 4\<close> by linarith
  ultimately show "bit (ucast (drop_bit (8 * i) (byte_word d)) :: u8) n = bit d n"
    by (auto simp: byte_word_def Let_def bit_simps dest: bit_imp_le_length)
qed

lemma store_byte_word: "store_long a (byte_word d) f = fill a 4 (\<lambda>_. d) f"
  unfolding store_long_fill by (auto simp: fill_def fun_eq_iff byte_word_byte)

lemma memset_blocks_fill:
  "\<exists>k\<le>count. memset_blocks a count (byte_word d) f = (a + k, count - k, fill a k (\<lambda>_. d) f)"
proof (induction count arbitrary: a f rule: less_induct)
  case (less count)
  show ?case
  proof (cases "16 \<le> count")
    case True
    let ?f = "fill a 16 (\<lambda>_. d) f"
    have f: "store_long (a + 12) (byte_word d) (store_long (a + 8) (byte_word d) (store_long (a + 4) (byte_word d) (store_long a (byte_word d) f))) = ?f"
      unfolding store_byte_word using fill_const [of a 4 4 d f] fill_const [of a 8 4 d f] fill_const [of a 12 4 d f] by simp
    obtain k where k: "k \<le> count - 16" "memset_blocks (a + 16) (count - 16) (byte_word d) ?f = (a + 16 + k, count - 16 - k, fill (a + 16) k (\<lambda>_. d) ?f)"
      using less [of "count - 16" "a + 16" ?f] True by auto
    then show ?thesis using True f fill_const [of a 16 k d f]
      by (intro exI [of _ "16 + k"]) (simp add: memset_blocks.simps [of a count] Let_def add.assoc)
  qed (simp add: memset_blocks.simps [of a count])
qed

lemma memset_longs_fill:
  "\<exists>k\<le>count. memset_longs a count (byte_word d) f = (a + k, count - k, fill a k (\<lambda>_. d) f)"
proof (induction count arbitrary: a f rule: less_induct)
  case (less count)
  show ?case
  proof (cases "4 \<le> count")
    case True
    let ?f = "fill a 4 (\<lambda>_. d) f"
    obtain k where k: "k \<le> count - 4" "memset_longs (a + 4) (count - 4) (byte_word d) ?f = (a + 4 + k, count - 4 - k, fill (a + 4) k (\<lambda>_. d) ?f)"
      using less [of "count - 4" "a + 4" ?f] True by auto
    then show ?thesis using True fill_const [of a 4 k d f]
      by (intro exI [of _ "4 + k"]) (simp add: memset_longs.simps [of a count] store_byte_word add.assoc)
  qed (simp add: memset_longs.simps [of a count])
qed

lemma rt_memset_fill: "rt_memset s c count f = fill s count (\<lambda>_. ucast c) f"
proof -
  let ?d = "ucast c :: u8"
  have d: "ucast (c AND 0xff) = ?d" and b: "(let b = push_bit 8 (c AND 0xff) OR (c AND 0xff) in b OR push_bit 16 b) = byte_word ?d"
  proof -
    have m: "c AND 0xff = take_bit 8 c" by (simp add: take_bit_eq_mask mask_eq_exp_minus_1)
    show "ucast (c AND 0xff) = ?d" unfolding m by (rule bit_word_eqI) (auto simp: bit_simps)
    have "c AND 0xff = ucast ?d" unfolding m by (rule bit_word_eqI) (auto simp: bit_simps)
    then show "(let b = push_bit 8 (c AND 0xff) OR (c AND 0xff) in b OR push_bit 16 b) = byte_word ?d" by (simp add: byte_word_def)
  qed
  show ?thesis
  proof (cases "\<not> count < 4 \<and> s mod 4 = 0")
    case True
    obtain k where k: "k \<le> count" "memset_blocks s count (byte_word ?d) f = (s + k, count - k, fill s k (\<lambda>_. ?d) f)"
      using memset_blocks_fill by blast
    let ?f = "fill s k (\<lambda>_. ?d) f"
    obtain j where j: "j \<le> count - k" "memset_longs (s + k) (count - k) (byte_word ?d) ?f = (s + k + j, count - k - j, fill (s + k) j (\<lambda>_. ?d) ?f)"
      using memset_longs_fill by blast
    have "rt_memset s c count f = memset_loop (s + k + j) (count - k - j) ?d (fill (s + k) j (\<lambda>_. ?d) ?f)"
      using True k(2) j(2) unfolding rt_memset_def d b [unfolded Let_def] Let_def by simp
    also have "\<dots> = fill s count (\<lambda>_. ?d) f"
      using fill_const [of s "k + j" "count - k - j" ?d f] j(1) k(1) by (simp add: memset_loop_fill fill_const add.assoc)
    finally show ?thesis .
  next
    case False
    then show ?thesis unfolding rt_memset_def Let_def d by (auto simp: memset_loop_fill)
  qed
qed

text \<open>The memory after all bytes were copied at once, and when copying from the front gives the same.\<close>

definition copied :: "nat \<Rightarrow> nat \<Rightarrow> nat \<Rightarrow> bytes \<Rightarrow> bytes" where
  "copied dst src n f = fill dst n (\<lambda>i. f (src + i)) f"

definition forward_safe :: "nat \<Rightarrow> nat \<Rightarrow> nat \<Rightarrow> bool" where
  "forward_safe dst src n \<longleftrightarrow> dst \<le> src \<or> src + n \<le> dst"

lemma copied_0 [simp]: "copied dst src 0 f = f"
  by (simp add: copied_def)

lemma copied_copied:
  assumes "forward_safe dst src (n + k)"
  shows "copied (dst + n) (src + n) k (copied dst src n f) = copied dst src (n + k) f"
proof
  fix x
  have "\<not> (dst \<le> src + (x - dst) \<and> src + (x - dst) < dst + n)" if "dst + n \<le> x" "x < dst + n + k"
    using assms that by (auto simp: forward_safe_def)
  then show "copied (dst + n) (src + n) k (copied dst src n f) x = copied dst src (n + k) f x"
    by (auto simp: copied_def fill_def)
qed

lemma copied_1: "f(dst := f src) = copied dst src 1 f"
  by (auto simp: copied_def fill_def fun_eq_iff)

lemma copy_long_copied: "copy_long dst src f = copied dst src 4 f"
  unfolding copy_long_def store_long_fill copied_def by (auto simp: fill_def fun_eq_iff load_long_byte)

lemma copy_forward_copied: "forward_safe dst src n \<Longrightarrow> copy_forward dst src n f = copied dst src n f"
proof (induction dst src n f rule: copy_forward.induct)
  case (2 dst src n f)
  then have "copy_forward (dst + 1) (src + 1) n (f(dst := f src)) = copied (dst + 1) (src + 1) n (copied dst src 1 f)"
    unfolding copied_1 by (auto simp: forward_safe_def)
  then show ?case using copied_copied [of dst src 1 n f] 2(2) by simp
qed simp

lemma copy_backward_copied:
  "src \<le> dst \<or> dst + n \<le> src \<Longrightarrow> copy_backward dst src n f = copied dst src n f"
proof (induction dst src n f rule: copy_backward.induct)
  case (2 dst src n f)
  then have IH: "copy_backward dst src n (f(dst + n := f (src + n))) = copied dst src n (f(dst + n := f (src + n)))"
    unfolding fun_upd_def by auto
  have ne: "src + i \<noteq> dst + n" if "i < n" for i using 2(2) that by auto
  have "copied dst src n (f(dst + n := f (src + n))) = copied dst src (Suc n) f"
  proof
    fix x
    have "src + (x - dst) \<noteq> dst + n" if "dst \<le> x" "x < dst + n" by (rule ne) (use that in linarith)
    then show "copied dst src n (f(dst + n := f (src + n))) x = copied dst src (Suc n) f x"
      by (cases "x = dst + n") (auto simp: copied_def fill_def)
  qed
  then show ?case using IH by simp
qed simp

lemma memcpy_blocks_copied:
  "forward_safe dst src len \<Longrightarrow> \<exists>k\<le>len. memcpy_blocks dst src len f = (dst + k, src + k, len - k, copied dst src k f)"
proof (induction len arbitrary: dst src f rule: less_induct)
  case (less len)
  show ?case
  proof (cases "16 \<le> len")
    case True
    let ?f = "copied dst src 16 f"
    have safe: "forward_safe dst src n" if "n \<le> len" for n using less(2) that by (auto simp: forward_safe_def)
    have f: "copy_long (dst + 12) (src + 12) (copy_long (dst + 8) (src + 8) (copy_long (dst + 4) (src + 4) (copy_long dst src f))) = ?f"
      unfolding copy_long_copied using True copied_copied [of dst src 4 4 f] copied_copied [of dst src 8 4 f] copied_copied [of dst src 12 4 f] safe
      by simp
    have lt: "len - 16 < len" and safe': "forward_safe (dst + 16) (src + 16) (len - 16)" using less(2) True by (auto simp: forward_safe_def)
    obtain k where k: "k \<le> len - 16"
      "memcpy_blocks (dst + 16) (src + 16) (len - 16) ?f = (dst + 16 + k, src + 16 + k, len - 16 - k, copied (dst + 16) (src + 16) k ?f)"
      using less(1) [OF lt safe'] by blast
    then show ?thesis using True f copied_copied [of dst src 16 k f] safe [of "16 + k"]
      by (intro exI [of _ "16 + k"]) (simp add: memcpy_blocks.simps [of dst src len] Let_def add.assoc)
  qed (simp add: memcpy_blocks.simps [of dst src len])
qed

lemma memcpy_longs_copied:
  "forward_safe dst src len \<Longrightarrow> \<exists>k\<le>len. memcpy_longs dst src len f = (dst + k, src + k, len - k, copied dst src k f)"
proof (induction len arbitrary: dst src f rule: less_induct)
  case (less len)
  show ?case
  proof (cases "4 \<le> len")
    case True
    let ?f = "copied dst src 4 f"
    have lt: "len - 4 < len" and safe': "forward_safe (dst + 4) (src + 4) (len - 4)" using less(2) True by (auto simp: forward_safe_def)
    obtain k where k: "k \<le> len - 4"
      "memcpy_longs (dst + 4) (src + 4) (len - 4) ?f = (dst + 4 + k, src + 4 + k, len - 4 - k, copied (dst + 4) (src + 4) k ?f)"
      using less(1) [OF lt safe'] by blast
    have "forward_safe dst src (4 + k)" using less(2) k(1) True by (auto simp: forward_safe_def)
    then show ?thesis using True k copied_copied [of dst src 4 k f]
      by (intro exI [of _ "4 + k"]) (simp add: memcpy_longs.simps [of dst src len] copy_long_copied add.assoc)
  qed (simp add: memcpy_longs.simps [of dst src len])
qed

lemma rt_memcpy_copied:
  assumes "forward_safe dst src count"
  shows "rt_memcpy dst src count f = copied dst src count f"
proof (cases "\<not> count < 16 \<and> src mod 4 = 0 \<and> dst mod 4 = 0")
  case True
  obtain k where k: "k \<le> count" "memcpy_blocks dst src count f = (dst + k, src + k, count - k, copied dst src k f)"
    using memcpy_blocks_copied [OF assms] by blast
  let ?f = "copied dst src k f"
  have s1: "forward_safe (dst + k) (src + k) (count - k)" "forward_safe dst src (k + (count - k))" using assms k(1) by (auto simp: forward_safe_def)
  obtain j where j: "j \<le> count - k"
    "memcpy_longs (dst + k) (src + k) (count - k) ?f = (dst + k + j, src + k + j, count - k - j, copied (dst + k) (src + k) j ?f)"
    using memcpy_longs_copied [OF s1(1)] by blast
  let ?g = "copied (dst + k) (src + k) j ?f"
  have g: "?g = copied dst src (k + j) f" by (rule copied_copied) (use assms j(1) k(1) in \<open>auto simp: forward_safe_def\<close>)
  have s2: "forward_safe (dst + (k + j)) (src + (k + j)) (count - k - j)" "forward_safe dst src (k + j + (count - k - j))"
    using assms k(1) j(1) by (auto simp: forward_safe_def)
  have "rt_memcpy dst src count f = copy_forward (dst + (k + j)) (src + (k + j)) (count - k - j) ?g"
    using True k(2) j(2) by (simp add: rt_memcpy_def add.assoc)
  also have "\<dots> = copied dst src (k + j + (count - k - j)) f"
    unfolding copy_forward_copied [OF s2(1)] g by (rule copied_copied [OF s2(2)])
  finally show ?thesis using k(1) j(1) by simp
next
  case False
  then show ?thesis using copy_forward_copied [OF assms] unfolding rt_memcpy_def by auto
qed

lemma rt_memmove_copied: "rt_memmove dst src n f = copied dst src n f"
  using copy_forward_copied [of dst src n f] copy_backward_copied [of src dst n f] by (auto simp: rt_memmove_def forward_safe_def)

lemma rt_memcpy_tiny_copied: "rt_memcpy_tiny dst src n f = copied dst src n f"
  using copy_forward_copied [of dst src n f] copy_backward_copied [of src dst n f] by (auto simp: rt_memcpy_tiny_def forward_safe_def)

text \<open>
  C33. The memory functions. Both variants of \<^verbatim>\<open>rt_memset\<close> store the low byte of their argument in exactly the given bytes, whatever the alignment and the
  length. \<^verbatim>\<open>rt_memmove\<close> and the small variant of \<^verbatim>\<open>rt_memcpy\<close> copy as if all bytes were read before the first is written, for every
  overlap of source and destination; the fast variant of \<^verbatim>\<open>rt_memcpy\<close>, which copies aligned words in blocks of four, does the same when the destination
  does not begin inside the source.
\<close>

theorem memory_functions_correct:
  "rt_memset s c count f = (\<lambda>x. if s \<le> x \<and> x < s + count then ucast c else f x) \<and>
   rt_memset_tiny s c count f = rt_memset s c count f \<and>
   rt_memmove dst src n f = (\<lambda>x. if dst \<le> x \<and> x < dst + n then f (src + (x - dst)) else f x) \<and>
   rt_memcpy_tiny dst src n f = rt_memmove dst src n f \<and>
   (dst \<le> src \<or> src + n \<le> dst \<longrightarrow> rt_memcpy dst src n f = rt_memmove dst src n f)"
  unfolding rt_memmove_copied rt_memcpy_tiny_copied rt_memset_tiny_def memset_loop_fill rt_memset_fill
  using rt_memcpy_copied [of dst src n f] by (auto simp: forward_safe_def copied_def fill_def)

theorem memory_functions_correct_witness:
  "rt_memset 4 0x1ff 6 (\<lambda>_. 0) 9 = 0xff \<and> rt_memmove 2 0 20 (\<lambda>x. of_nat x) 21 = 19 \<and>
    rt_memcpy 0 32 20 (\<lambda>x. of_nat x) = rt_memmove 0 32 20 (\<lambda>x. of_nat x)"
proof (intro conjI)
  show "rt_memset 4 0x1ff 6 (\<lambda>_. 0) 9 = 0xff"
    using memory_functions_correct [where s = 4 and c = "0x1ff" and count = 6 and f = "\<lambda>_. 0"] by simp
  show "rt_memmove 2 0 20 (\<lambda>x. of_nat x) 21 = 19"
    using memory_functions_correct [where dst = 2 and src = 0 and n = 20 and f = "\<lambda>x. of_nat x"] by simp
  show "rt_memcpy 0 32 20 (\<lambda>x. of_nat x) = rt_memmove 0 32 20 (\<lambda>x. of_nat x)"
    using memory_functions_correct [where dst = 0 and src = 32 and n = 20 and f = "\<lambda>x. of_nat x"] by simp
qed

subsection \<open>Comparing and searching\<close>

lemma rt_memcmp_equal:
  "n \<le> length cs \<Longrightarrow> n \<le> length ct \<Longrightarrow> \<exists>r. rt_memcmp cs ct n = Some r \<and> (r = 0 \<longleftrightarrow> take n cs = take n ct)"
  by (induction cs ct n rule: rt_memcmp.induct) (auto simp: word_uint_eq_iff)

text \<open>The sign of the result is that of the first pair of bytes that differ.\<close>

lemma rt_memcmp_differ:
  assumes "take i cs = take i ct" "i < n" "i < length cs" "i < length ct" "cs ! i \<noteq> ct ! i"
  shows "rt_memcmp cs ct n = Some (uint (cs ! i) - uint (ct ! i))"
  using assms
proof (induction i arbitrary: cs ct n)
  case 0
  then show ?case by (cases cs; cases ct; cases n) (auto simp: word_uint_eq_iff)
next
  case (Suc i)
  then show ?case by (cases cs; cases ct; cases n) (auto simp: word_uint_eq_iff)
qed

lemma rt_strlen_eq: "rt_strlen s = (if 0 \<in> set s then Some (length (takeWhile (\<lambda>c. c \<noteq> 0) s)) else None)"
  by (induction s) auto

lemma strstr_loop_first:
  assumes "0 < l2" "l2 \<le> length s2" "l1 < length s1"
  shows "strstr_loop k l1 l2 s1 s2 =
    Some (case find (\<lambda>i. take l2 (drop i s1) = take l2 s2) [0..<Suc l1 - l2] of Some i \<Rightarrow> Some (k + i) | None \<Rightarrow> None)"
  using assms
proof (induction l1 arbitrary: k s1)
  case 0
  then show ?case by (simp add: strstr_loop.simps [of k 0])
next
  case (Suc l1)
  show ?case
  proof (cases "l2 \<le> Suc l1")
    case True
    obtain r where r: "rt_memcmp s1 s2 l2 = Some r" "r = 0 \<longleftrightarrow> take l2 s1 = take l2 s2"
      using rt_memcmp_equal [of l2 s1 s2] Suc(3,4) True by auto
    have up: "[0..<Suc (Suc l1) - l2] = 0 # map Suc [0..<Suc l1 - l2]"
      using True by (simp add: map_Suc_upt upt_conv_Cons Suc_diff_le)
    obtain a s where s: "s1 = a # s" using Suc(4) by (cases s1) auto
    have m: "find P (map Suc xs) = map_option Suc (find (\<lambda>i. P (Suc i)) xs)" for P xs by (induction xs) auto
    have IH: "strstr_loop (k + 1) l1 l2 s s2 =
      Some (case find (\<lambda>i. take l2 (drop i s) = take l2 s2) [0..<Suc l1 - l2] of Some i \<Rightarrow> Some (k + 1 + i) | None \<Rightarrow> None)"
      by (rule Suc(1)) (use Suc(2,3,4) s in auto)
    show ?thesis
    proof (cases "r = 0")
      case True
      then show ?thesis using r \<open>l2 \<le> Suc l1\<close> Suc(2) unfolding up by (simp add: strstr_loop.simps [of k "Suc l1"])
    next
      case False
      then show ?thesis using r IH \<open>l2 \<le> Suc l1\<close> Suc(2) s unfolding up
        by (simp add: strstr_loop.simps [of k "Suc l1"] m split: option.split)
    qed
  qed (simp add: strstr_loop.simps [of k "Suc l1"])
qed

text \<open>The string in a memory that begins with its characters and a zero.\<close>

definition zstr :: "u8 list \<Rightarrow> u8 list" where
  "zstr s = takeWhile (\<lambda>c. c \<noteq> 0) s"

text \<open>
  \<^verbatim>\<open>rt_strstr\<close> on two terminated strings reads nothing beyond them and returns the first position where the second string occurs in the first.
\<close>

lemma rt_strstr_correct:
  assumes "0 \<in> set s1" "0 \<in> set s2"
  shows "rt_strstr s1 s2 =
    Some (find (\<lambda>i. take (length (zstr s2)) (drop i (zstr s1)) = zstr s2) [0..<Suc (length (zstr s1)) - length (zstr s2)])"
proof (cases "zstr s2 = []")
  case True
  then show ?thesis using assms by (simp add: rt_strstr_def rt_strlen_eq upt_conv_Cons del: upt_Suc flip: zstr_def)
next
  case False
  let ?l1 = "length (zstr s1)" and ?l2 = "length (zstr s2)"
  have p: "take (length (zstr s)) s = zstr s" "length (zstr s) < length s" if "0 \<in> set s" for s :: "u8 list"
    using that by (induction s) (auto simp: zstr_def)
  have eq: "take ?l2 (drop i s1) = take ?l2 (drop i (zstr s1))" if "i < Suc ?l1 - ?l2" for i
  proof -
    have "take ?l2 (drop i (zstr s1)) = take ?l2 (drop i (take ?l1 s1))" using p(1) [OF assms(1)] by simp
    also have "\<dots> = take ?l2 (drop i s1)" using that by (simp add: drop_take)
    finally show ?thesis by simp
  qed
  have f: "find (\<lambda>i. take ?l2 (drop i s1) = take ?l2 s2) [0..<Suc ?l1 - ?l2] = find (\<lambda>i. take ?l2 (drop i (zstr s1)) = zstr s2) [0..<Suc ?l1 - ?l2]"
    by (rule find_cong) (use eq p(1) [OF assms(2)] in auto)
  show ?thesis
    using False assms strstr_loop_first [of ?l2 s2 ?l1 s1 0] p(2) [OF assms(1)] p(2) [OF assms(2)] f
    by (simp add: rt_strstr_def rt_strlen_eq option.case_eq_if flip: zstr_def)
qed

end
