(* ===== verification/RT_SmallMem.thy ===== *)
theory RT_SmallMem
  imports RT_Cells RT_Memory
begin

section \<open>The small-memory allocator: \<^verbatim>\<open>src/mem.c\<close>\<close>

text \<open>
  The system heap: a first-fit allocator on a chain of items that covers the heap without gaps. Every item starts with
  a header: the address of the heap with the lowest bit set when the item is used, and the offsets of the next and of the
  previous item. An item of length 0 at the end is always used. Freed items are merged with free neighbours.

  A heap is named by the address of its \<^verbatim>\<open>struct rt_small_mem\<close>, here \<open>sm\<close>; \<open>sm_items\<close> holds the headers and \<open>sm_bytes\<close> the
  bytes of the application. The two loops of \<^verbatim>\<open>rt_smem_alloc\<close> follow the chain and need not end on a damaged
  heap; they are partial functions. Sizes and offsets are 32-bit words, with the wrap-around of C.
\<close>

subsection \<open>Operations\<close>

definition SIZEOF_STRUCT_MEM :: u32 where
  "SIZEOF_STRUCT_MEM = RT_ALIGN 12 RT_ALIGN_SIZE"

definition MIN_SIZE_ALIGNED :: u32 where
  "MIN_SIZE_ALIGNED = RT_ALIGN 12 RT_ALIGN_SIZE"

definition MEM_USED :: "nat \<Rightarrow> u32" where
  "MEM_USED small_mem = (of_nat small_mem AND 0xfffffffe) OR 1"

definition MEM_FREED :: "nat \<Rightarrow> u32" where
  "MEM_FREED small_mem = (of_nat small_mem AND 0xfffffffe) OR 0"

definition MEM_ISUSED :: "rt_small_mem_item \<Rightarrow> bool" where
  "MEM_ISUSED mem \<longleftrightarrow> smi_pool_ptr mem AND NOT 0xfffffffe \<noteq> 0"

definition MEM_POOL :: "rt_small_mem_item \<Rightarrow> u32" where
  "MEM_POOL mem = smi_pool_ptr mem AND 0xfffffffe"

definition upd_sm :: "nat \<Rightarrow> (rt_small_mem \<Rightarrow> rt_small_mem) \<Rightarrow> kernel \<Rightarrow> kernel" where
  "upd_sm sm f s = s\<lparr>small_mems := (small_mems s)(sm := f (small_mems s sm))\<rparr>"

definition upd_item :: "nat \<Rightarrow> (rt_small_mem_item \<Rightarrow> rt_small_mem_item) \<Rightarrow> kernel \<Rightarrow> kernel" where
  "upd_item mem f s = s\<lparr>sm_items := (sm_items s)(mem := f (sm_items s mem))\<rparr>"

text \<open>\<^verbatim>\<open>(struct rt_small_mem_item *)&m->heap_ptr[ptr]\<close>.\<close>

definition heap_item :: "nat \<Rightarrow> u32 \<Rightarrow> kernel \<Rightarrow> nat" where
  "heap_item sm ptr s = sm_heap_ptr (small_mems s sm) + unat ptr"

definition heap_offset :: "nat \<Rightarrow> nat \<Rightarrow> kernel \<Rightarrow> u32" where
  "heap_offset sm mem s = of_nat mem - of_nat (sm_heap_ptr (small_mems s sm))"

text \<open>Merging the free item \<open>nmem\<close> into the free item \<open>mem\<close> in front of it.\<close>

definition smem_join :: "nat \<Rightarrow> nat \<Rightarrow> nat \<Rightarrow> kernel \<Rightarrow> kernel" where
  "smem_join m mem nmem s =
     (let s = (if sm_lfree (small_mems s m) = nmem then upd_sm m (\<lambda>h. h\<lparr>sm_lfree := mem\<rparr>) s else s);
          s = upd_item nmem (\<lambda>i. i\<lparr>smi_pool_ptr := 0\<rparr>) s;
          s = upd_item mem (\<lambda>i. i\<lparr>smi_next := smi_next (sm_items s nmem)\<rparr>) s
      in upd_item (heap_item m (smi_next (sm_items s nmem)) s) (\<lambda>i. i\<lparr>smi_prev := heap_offset m mem s\<rparr>) s)"

definition plug_holes :: "nat \<Rightarrow> nat \<Rightarrow> kernel \<Rightarrow> kernel option" where
  "plug_holes m mem s = do {
     RT_ASSERT (sm_heap_ptr (small_mems s m) \<le> mem);
     RT_ASSERT (mem < sm_heap_end (small_mems s m));
     let nmem = heap_item m (smi_next (sm_items s mem)) s;
     let s = (if mem \<noteq> nmem \<and> \<not> MEM_ISUSED (sm_items s nmem) \<and> nmem \<noteq> sm_heap_end (small_mems s m)
              then smem_join m mem nmem s else s);
     let pmem = heap_item m (smi_prev (sm_items s mem)) s;
     Some (if pmem \<noteq> mem \<and> \<not> MEM_ISUSED (sm_items s pmem) then smem_join m pmem mem s else s)
   }"

text \<open>The size of \<^verbatim>\<open>struct rt_small_mem\<close>: an object of 20 bytes and nine words.\<close>

definition rt_smem_init :: "u8 list \<Rightarrow> u32 \<Rightarrow> u32 \<Rightarrow> kernel \<Rightarrow> (nat option \<times> kernel) option" where
  "rt_smem_init name begin_addr sz s = (
     let small_mem = RT_ALIGN begin_addr RT_ALIGN_SIZE;
         start_addr = small_mem + 56;
         begin_align = RT_ALIGN start_addr RT_ALIGN_SIZE;
         end_align = RT_ALIGN_DOWN (begin_addr + sz) RT_ALIGN_SIZE
     in if end_align > 2 * SIZEOF_STRUCT_MEM \<and> end_align - 2 * SIZEOF_STRUCT_MEM \<ge> start_addr then do {
          let mem_size = end_align - begin_align - 2 * SIZEOF_STRUCT_MEM;
          let sm = unat small_mem;
          let s = clear_struct (OMemory sm) s;
          s \<leftarrow> rt_object_init (OMemory sm) RT_Object_Class_Memory name s;
          let s = upd_sm sm (\<lambda>h. h\<lparr>sm_address := unat begin_align, sm_total := mem_size, sm_mem_size_aligned := mem_size\<rparr>) s;
          let s = upd_sm sm (\<lambda>h. h\<lparr>sm_heap_ptr := unat begin_align\<rparr>) s;
          let mem = unat begin_align;
          let s = upd_item mem (\<lambda>_. \<lparr>smi_pool_ptr = MEM_FREED sm, smi_next = mem_size + SIZEOF_STRUCT_MEM, smi_prev = 0\<rparr>) s;
          let heap_end = heap_item sm (smi_next (sm_items s mem)) s;
          let s = upd_sm sm (\<lambda>h. h\<lparr>sm_heap_end := heap_end\<rparr>) s;
          let s = upd_item heap_end (\<lambda>_. \<lparr>smi_pool_ptr = MEM_USED sm, smi_next = mem_size + SIZEOF_STRUCT_MEM,
                smi_prev = mem_size + SIZEOF_STRUCT_MEM\<rparr>) s;
          let s = upd_sm sm (\<lambda>h. h\<lparr>sm_lfree := mem\<rparr>) s;
          Some (Some sm, s)
        }
        else Some (None, s))"

definition rt_smem_detach :: "nat \<Rightarrow> kernel \<Rightarrow> (rt_err \<times> kernel) option" where
  "rt_smem_detach m s = do {
     RT_ASSERT (rt_object_get_type (OMemory m) s = RT_Object_Class_Memory);
     RT_ASSERT (rt_object_is_systemobject (OMemory m) s);
     Some (RT_EOK, rt_object_detach (OMemory m) s)
   }"

text \<open>The \<^verbatim>\<open>for\<close> loop of \<^verbatim>\<open>rt_smem_alloc\<close>: the offset of the first free item that is large enough.\<close>

partial_function (option) smem_search :: "nat \<Rightarrow> u32 \<Rightarrow> u32 \<Rightarrow> kernel \<Rightarrow> u32 option option" where
  "smem_search sm sz ptr s =
     (if ptr \<le> sm_mem_size_aligned (small_mems s sm) - sz then
        let mem = sm_items s (heap_item sm ptr s) in
        if \<not> MEM_ISUSED mem \<and> smi_next mem - (ptr + SIZEOF_STRUCT_MEM) \<ge> sz then Some (Some ptr)
        else smem_search sm sz (smi_next mem) s
      else Some None)"

text \<open>The \<^verbatim>\<open>while\<close> loop that moves \<^verbatim>\<open>lfree\<close> to the next free item.\<close>

partial_function (option) smem_next_free :: "nat \<Rightarrow> nat \<Rightarrow> kernel \<Rightarrow> nat option" where
  "smem_next_free sm lfree s =
     (if MEM_ISUSED (sm_items s lfree) \<and> lfree \<noteq> sm_heap_end (small_mems s sm)
      then smem_next_free sm (heap_item sm (smi_next (sm_items s lfree)) s) s
      else Some lfree)"

definition smem_count_used :: "nat \<Rightarrow> u32 \<Rightarrow> kernel \<Rightarrow> kernel" where
  "smem_count_used sm n s =
     (let s = upd_sm sm (\<lambda>h. h\<lparr>sm_used := sm_used h + n\<rparr>) s
      in if sm_max (small_mems s sm) < sm_used (small_mems s sm) then upd_sm sm (\<lambda>h. h\<lparr>sm_max := sm_used h\<rparr>) s else s)"

text \<open>Cutting the item \<open>mem\<close> at offset \<open>ptr\<close> after \<open>sz\<close> bytes: the rest becomes a free item.\<close>

definition smem_split :: "nat \<Rightarrow> nat \<Rightarrow> u32 \<Rightarrow> u32 \<Rightarrow> kernel \<Rightarrow> kernel" where
  "smem_split sm mem ptr sz s =
     (let ptr2 = ptr + SIZEOF_STRUCT_MEM + sz;
          mem2 = heap_item sm ptr2 s;
          s = upd_item mem2 (\<lambda>_. \<lparr>smi_pool_ptr = MEM_FREED sm, smi_next = smi_next (sm_items s mem), smi_prev = ptr\<rparr>) s;
          s = upd_item mem (\<lambda>i. i\<lparr>smi_next := ptr2\<rparr>) s
      in if smi_next (sm_items s mem2) \<noteq> sm_mem_size_aligned (small_mems s sm) + SIZEOF_STRUCT_MEM
         then upd_item (heap_item sm (smi_next (sm_items s mem2)) s) (\<lambda>i. i\<lparr>smi_prev := ptr2\<rparr>) s else s)"

text \<open>The body of the \<^verbatim>\<open>for\<close> loop for the item at offset \<open>ptr\<close> that was found.\<close>

definition smem_take_item :: "nat \<Rightarrow> u32 \<Rightarrow> u32 \<Rightarrow> kernel \<Rightarrow> (nat \<times> kernel) option" where
  "smem_take_item sm sz ptr s = do {
     let mem = heap_item sm ptr s;
     let s = (if smi_next (sm_items s mem) - (ptr + SIZEOF_STRUCT_MEM) \<ge> sz + SIZEOF_STRUCT_MEM + MIN_SIZE_ALIGNED
              then smem_count_used sm (sz + SIZEOF_STRUCT_MEM) (smem_split sm mem ptr sz s)
              else smem_count_used sm (smi_next (sm_items s mem) - heap_offset sm mem s) s);
     let s = upd_item mem (\<lambda>i. i\<lparr>smi_pool_ptr := MEM_USED sm\<rparr>) s;
     s \<leftarrow> (if mem = sm_lfree (small_mems s sm) then do {
             lfree \<leftarrow> smem_next_free sm (sm_lfree (small_mems s sm)) s;
             let s = upd_sm sm (\<lambda>h. h\<lparr>sm_lfree := lfree\<rparr>) s;
             RT_ASSERT (lfree = sm_heap_end (small_mems s sm) \<or> \<not> MEM_ISUSED (sm_items s lfree));
             Some s
           } else Some s);
     RT_ASSERT (mem + unat SIZEOF_STRUCT_MEM + unat sz \<le> sm_heap_end (small_mems s sm));
     RT_ASSERT ((mem + unat SIZEOF_STRUCT_MEM) mod 4 = 0);
     RT_ASSERT (mem mod 4 = 0);
     Some (mem + unat SIZEOF_STRUCT_MEM, s)
   }"

definition rt_smem_alloc :: "nat \<Rightarrow> u32 \<Rightarrow> kernel \<Rightarrow> (nat option \<times> kernel) option" where
  "rt_smem_alloc m sz s =
     (if sz = 0 then Some (None, s)
      else do {
        RT_ASSERT (rt_object_get_type (OMemory m) s = RT_Object_Class_Memory);
        RT_ASSERT (rt_object_is_systemobject (OMemory m) s);
        let sz = RT_ALIGN sz RT_ALIGN_SIZE;
        if sz > sm_mem_size_aligned (small_mems s m) then Some (None, s)
        else do {
          let sz = (if sz < MIN_SIZE_ALIGNED then MIN_SIZE_ALIGNED else sz);
          found \<leftarrow> smem_search m sz (heap_offset m (sm_lfree (small_mems s m)) s) s;
          (case found of
             None \<Rightarrow> Some (None, s)
           | Some ptr \<Rightarrow> do {
               (block, s) \<leftarrow> smem_take_item m sz ptr s;
               Some (Some block, s)
             })
        }
      })"

text \<open>The stores of \<^verbatim>\<open>rt_smem_free\<close> before it merges the item with its neighbours.\<close>

definition smem_freed :: "nat \<Rightarrow> nat \<Rightarrow> kernel \<Rightarrow> kernel" where
  "smem_freed m mem s =
     (let s = upd_item mem (\<lambda>i. i\<lparr>smi_pool_ptr := MEM_FREED m\<rparr>) s;
          s = (if mem < sm_lfree (small_mems s m) then upd_sm m (\<lambda>h. h\<lparr>sm_lfree := mem\<rparr>) s else s)
      in upd_sm m (\<lambda>h. h\<lparr>sm_used := sm_used h - (smi_next (sm_items s mem) - heap_offset m mem s)\<rparr>) s)"

text \<open>\<^verbatim>\<open>MEM_POOL\<close> finds the heap an item belongs to by its address.\<close>

definition rt_smem_free :: "nat option \<Rightarrow> kernel \<Rightarrow> kernel option" where
  "rt_smem_free rmem s =
     (case rmem of
        None \<Rightarrow> Some s
      | Some rmem \<Rightarrow> do {
          RT_ASSERT (rmem mod 4 = 0);
          RT_ASSERT (unat SIZEOF_STRUCT_MEM \<le> rmem);
          let mem = rmem - unat SIZEOF_STRUCT_MEM;
          let sm = unat (MEM_POOL (sm_items s mem));
          RT_ASSERT (sm \<noteq> 0);
          RT_ASSERT (MEM_ISUSED (sm_items s mem));
          RT_ASSERT (rt_object_get_type (OMemory sm) s = RT_Object_Class_Memory);
          RT_ASSERT (rt_object_is_systemobject (OMemory sm) s);
          RT_ASSERT (rmem \<ge> sm_heap_ptr (small_mems s sm) \<and> rmem < sm_heap_end (small_mems s sm));
          RT_ASSERT (unat (MEM_POOL (sm_items s (heap_item sm (smi_next (sm_items s mem)) s))) = sm);
          plug_holes sm mem (smem_freed sm mem s)
        })"

text \<open>\<^verbatim>\<open>rt_memcpy(dst, src, n)\<close> and \<^verbatim>\<open>rt_memset(dst, 0, n)\<close> on the bytes of the application.\<close>

definition sm_memcpy :: "nat \<Rightarrow> nat \<Rightarrow> nat \<Rightarrow> kernel \<Rightarrow> kernel" where
  "sm_memcpy dst src n s = s\<lparr>sm_bytes := rt_memcpy dst src n (sm_bytes s)\<rparr>"

definition sm_memset0 :: "nat \<Rightarrow> nat \<Rightarrow> kernel \<Rightarrow> kernel" where
  "sm_memset0 dst n s = s\<lparr>sm_bytes := rt_memset dst 0 n (sm_bytes s)\<rparr>"

text \<open>Shrinking an item in place: the rest of it becomes a free item.\<close>

definition smem_shrink :: "nat \<Rightarrow> nat \<Rightarrow> u32 \<Rightarrow> u32 \<Rightarrow> kernel \<Rightarrow> kernel option" where
  "smem_shrink sm mem sz newsize s = do {
     let ptr = heap_offset sm mem s;
     let s = upd_sm sm (\<lambda>h. h\<lparr>sm_used := sm_used h - (sz - newsize)\<rparr>) s;
     let s = smem_split sm mem ptr newsize s;
     let mem2 = heap_item sm (ptr + SIZEOF_STRUCT_MEM + newsize) s;
     let s = (if mem2 < sm_lfree (small_mems s sm) then upd_sm sm (\<lambda>h. h\<lparr>sm_lfree := mem2\<rparr>) s else s);
     plug_holes sm mem2 s
   }"

text \<open>Moving a block of \<open>sz\<close> bytes to a new place.\<close>

definition smem_move :: "nat \<Rightarrow> nat \<Rightarrow> u32 \<Rightarrow> u32 \<Rightarrow> kernel \<Rightarrow> (nat option \<times> kernel) option" where
  "smem_move m rmem sz newsize s = do {
     (nmem, s) \<leftarrow> rt_smem_alloc m newsize s;
     (case nmem of
        None \<Rightarrow> Some (None, s)
      | Some nm \<Rightarrow> do {
          let s = sm_memcpy nm rmem (unat (if sz < newsize then sz else newsize)) s;
          s \<leftarrow> rt_smem_free (Some rmem) s;
          Some (nmem, s)
        })
   }"

definition rt_smem_realloc :: "nat \<Rightarrow> nat option \<Rightarrow> u32 \<Rightarrow> kernel \<Rightarrow> (nat option \<times> kernel) option" where
  "rt_smem_realloc m rmem newsize s = do {
     RT_ASSERT (rt_object_get_type (OMemory m) s = RT_Object_Class_Memory);
     RT_ASSERT (rt_object_is_systemobject (OMemory m) s);
     let newsize = RT_ALIGN newsize RT_ALIGN_SIZE;
     if newsize > sm_mem_size_aligned (small_mems s m) then Some (None, s)
     else if newsize = 0 then do {
       s \<leftarrow> rt_smem_free rmem s;
       Some (None, s)
     }
     else (case rmem of
         None \<Rightarrow> rt_smem_alloc m newsize s
       | Some rm \<Rightarrow> do {
           RT_ASSERT (rm mod 4 = 0);
           RT_ASSERT (rm \<ge> sm_heap_ptr (small_mems s m));
           RT_ASSERT (rm < sm_heap_end (small_mems s m));
           RT_ASSERT (unat SIZEOF_STRUCT_MEM \<le> rm);
           let mem = rm - unat SIZEOF_STRUCT_MEM;
           let ptr = heap_offset m mem s;
           let sz = smi_next (sm_items s mem) - ptr - SIZEOF_STRUCT_MEM;
           if sz = newsize then Some (rmem, s)
           else if newsize + SIZEOF_STRUCT_MEM + 12 < sz then do {
             s \<leftarrow> smem_shrink m mem sz newsize s;
             Some (rmem, s)
           }
           else smem_move m rm sz newsize s
         })
   }"

subsection \<open>How the items represent the cells\<close>

definition cell_item :: "nat \<Rightarrow> bool \<Rightarrow> nat \<Rightarrow> nat \<Rightarrow> rt_small_mem_item" where
  "cell_item m u next p =
     \<lparr>smi_pool_ptr = (if u then MEM_USED m else MEM_FREED m), smi_next = of_nat next, smi_prev = of_nat p\<rparr>"

text \<open>\<open>heap_seg m H f p a cs\<close>: from offset \<open>a\<close> on, the headers \<open>f\<close> describe the cells \<open>cs\<close>; the item in front is at offset \<open>p\<close>.\<close>

fun heap_seg :: "nat \<Rightarrow> nat \<Rightarrow> (nat \<Rightarrow> rt_small_mem_item) \<Rightarrow> nat \<Rightarrow> nat \<Rightarrow> cell list \<Rightarrow> bool" where
  "heap_seg m H f p a [] = True"
| "heap_seg m H f p a ((n, u) # cs) \<longleftrightarrow> f (H + a) = cell_item m u (a + n) p \<and> cell_ok (n, u) \<and> heap_seg m H f a (a + n) cs"

fun last_off :: "nat \<Rightarrow> nat \<Rightarrow> cell list \<Rightarrow> nat" where
  "last_off p a [] = p"
| "last_off p a ((n, u) # cs) = last_off a (a + n) cs"

definition sm_layout :: "nat \<Rightarrow> cell list \<Rightarrow> kernel \<Rightarrow> bool" where
  "sm_layout m cs s \<longleftrightarrow>
     (let h = small_mems s m; H = sm_heap_ptr h; E = cells_span cs in
      0 < m \<and> 4 dvd m \<and> m < 2 ^ 32 \<and> 0 < H \<and> 4 dvd H \<and> H + E + 12 \<le> 2 ^ 32 \<and> unat (sm_mem_size_aligned h) + 12 = E \<and> sm_heap_end h = H + E \<and>
      heap_seg m H (sm_items s) 0 0 cs \<and> smi_pool_ptr (sm_items s (H + E)) = MEM_USED m \<and> smi_next (sm_items s (H + E)) = of_nat E \<and>
      sm_lfree h = H + first_free 0 cs \<and> sm_used h = of_nat (used_bytes cs) \<and> sm_used h \<le> sm_max h)"

definition sm_rep :: "nat \<Rightarrow> cell list \<Rightarrow> kernel \<Rightarrow> bool" where
  "sm_rep m cs s \<longleftrightarrow> sm_layout m cs s \<and> coalesced cs"

text \<open>The cells read off the headers.\<close>

fun walk_cells :: "nat \<Rightarrow> nat \<Rightarrow> nat \<Rightarrow> nat \<Rightarrow> (nat \<Rightarrow> rt_small_mem_item) \<Rightarrow> cell list" where
  "walk_cells 0 H E a f = []"
| "walk_cells (Suc k) H E a f =
     (if a < E then (unat (smi_next (f (H + a))) - a, MEM_ISUSED (f (H + a))) # walk_cells k H E (unat (smi_next (f (H + a)))) f
      else [])"

definition sm_cells :: "nat \<Rightarrow> kernel \<Rightarrow> cell list" where
  "sm_cells m s =
     (let E = unat (sm_mem_size_aligned (small_mems s m)) + 12
      in walk_cells E (sm_heap_ptr (small_mems s m)) E 0 (sm_items s))"

lemma SIZEOF_simps [simp]: "SIZEOF_STRUCT_MEM = 12" "MIN_SIZE_ALIGNED = 12"
  by (simp_all add: SIZEOF_STRUCT_MEM_def MIN_SIZE_ALIGNED_def RT_ALIGN_def)

lemma even_mask:
  fixes w :: u32
  assumes "even w"
  shows "w AND 0xfffffffe = w" "(w OR 1) AND 0xfffffffe = w" "w AND NOT 0xfffffffe = 0" "(w OR 1) AND NOT 0xfffffffe \<noteq> 0"
proof -
  have c: "(0xfffffffe :: u32) = NOT 1" by simp
  have z: "\<not> bit w 0" using assms by (simp add: bit_0)
  have nz: "0 < n" if "bit w n" for n using z that by (cases n) auto
  show "w AND 0xfffffffe = w" unfolding c by (rule bit_word_eqI) (auto simp: bit_simps nz)
  show "(w OR 1) AND 0xfffffffe = w" unfolding c by (rule bit_word_eqI) (auto simp: bit_simps nz)
  show "w AND NOT 0xfffffffe = 0" unfolding c by (rule bit_word_eqI) (auto simp: bit_simps nz)
  have "bit ((w OR 1) AND NOT (NOT 1)) 0" by (simp add: bit_simps bit_0)
  then show "(w OR 1) AND NOT 0xfffffffe \<noteq> 0" unfolding c by (metis bit_0_eq bot_apply bot_bool_def)
qed

lemma mem_flags:
  assumes "4 dvd m"
  shows "MEM_ISUSED (cell_item m u nx p) = u" "MEM_POOL (cell_item m u nx p) = of_nat m"
    "smi_pool_ptr i = MEM_USED m \<Longrightarrow> MEM_ISUSED i" "smi_pool_ptr i = MEM_USED m \<Longrightarrow> MEM_POOL i = of_nat m"
proof -
  obtain k where "m = 4 * k" using assms by (rule dvdE)
  then have "(of_nat m :: u32) = 2 * (2 * of_nat k)" by simp
  then have "even (of_nat m :: u32)" by (metis dvd_triv_left)
  note e = even_mask [OF this]
  show "MEM_ISUSED (cell_item m u nx p) = u" "MEM_POOL (cell_item m u nx p) = of_nat m"
    "smi_pool_ptr i = MEM_USED m \<Longrightarrow> MEM_ISUSED i" "smi_pool_ptr i = MEM_USED m \<Longrightarrow> MEM_POOL i = of_nat m"
    unfolding MEM_ISUSED_def MEM_POOL_def cell_item_def MEM_USED_def MEM_FREED_def using e by simp_all
qed

lemma unat_small: "x < 2 ^ 32 \<Longrightarrow> unat (of_nat x :: u32) = x"
  by (simp add: unat_of_nat take_bit_nat_eq_self)

lemma heap_seg_append:
  "heap_seg m H f p a (xs @ ys) \<longleftrightarrow> heap_seg m H f p a xs \<and> heap_seg m H f (last_off p a xs) (a + cells_span xs) ys"
  by (induction p a xs rule: last_off.induct) (auto simp: add.assoc)

lemma heap_seg_ok: "heap_seg m H f p a cs \<Longrightarrow> \<forall>c\<in>set cs. cell_ok c"
  by (induction m H f p a cs rule: heap_seg.induct) auto

lemma heap_seg_below [simp]: "x < H + a \<Longrightarrow> heap_seg m H (f(x := v)) p a cs = heap_seg m H f p a cs"
  by (induction m H f p a cs rule: heap_seg.induct) auto

lemma heap_seg_above [simp]: "H + a + cells_span cs \<le> x \<Longrightarrow> heap_seg m H (f(x := v)) p a cs = heap_seg m H f p a cs"
  by (induction m H f p a cs rule: heap_seg.induct) (auto simp: cell_ok_def)

lemma heap_seg_set_prev:
  "heap_seg m H f p a cs \<Longrightarrow> heap_seg m H (f(H + a := (f (H + a))\<lparr>smi_prev := of_nat q\<rparr>)) q a cs"
  by (cases cs rule: list.exhaust; cases "hd cs") (auto simp: cell_item_def cell_ok_def)

text \<open>What an operation on heap \<open>m\<close> leaves alone: the rest of the kernel, other heaps, the place and the size of \<open>m\<close>, headers elsewhere.\<close>

definition sm_frame :: "nat \<Rightarrow> kernel \<Rightarrow> kernel \<Rightarrow> bool" where
  "sm_frame m s s' \<longleftrightarrow>
     (let h = small_mems s m; h' = small_mems s' m in
      s'\<lparr>small_mems := small_mems s, sm_items := sm_items s\<rparr> = s \<and> (\<forall>k. k \<noteq> m \<longrightarrow> small_mems s' k = small_mems s k) \<and>
      sm_address h' = sm_address h \<and> sm_total h' = sm_total h \<and> sm_heap_ptr h' = sm_heap_ptr h \<and> sm_heap_end h' = sm_heap_end h \<and>
      sm_mem_size_aligned h' = sm_mem_size_aligned h \<and>
      (\<forall>x. x < sm_heap_ptr h \<or> sm_heap_end h < x \<longrightarrow> sm_items s' x = sm_items s x))"

lemma sm_frame_refl [simp]: "sm_frame m s s"
  by (simp add: sm_frame_def)

lemma sm_frame_trans:
  assumes "sm_frame m s s1" "sm_frame m s1 s2"
  shows "sm_frame m s s2"
proof -
  have "s2\<lparr>small_mems := small_mems s, sm_items := sm_items s\<rparr> =
      s2\<lparr>small_mems := small_mems s1, sm_items := sm_items s1\<rparr>\<lparr>small_mems := small_mems s, sm_items := sm_items s\<rparr>" by simp
  also have "\<dots> = s" using assms unfolding sm_frame_def Let_def by metis
  finally show ?thesis using assms by (simp add: sm_frame_def Let_def)
qed

lemma sm_frameD:
  assumes "sm_frame m s s'"
  shows "kinv s' = kinv s" "live s' = live s" "objs s' = objs s" "sm_bytes s' = sm_bytes s" "system_heap s' = system_heap s"
    "sm_heap_ptr (small_mems s' m) = sm_heap_ptr (small_mems s m)" "sm_heap_end (small_mems s' m) = sm_heap_end (small_mems s m)"
    "sm_mem_size_aligned (small_mems s' m) = sm_mem_size_aligned (small_mems s m)"
proof -
  let ?t = "s'\<lparr>small_mems := small_mems s, sm_items := sm_items s\<rparr>"
  have eq: "?t = s" using assms by (simp add: sm_frame_def Let_def)
  have "kinv ?t = kinv s'" "live ?t = live s'" "objs ?t = objs s'" "sm_bytes ?t = sm_bytes s'" "system_heap ?t = system_heap s'" by simp_all
  then show "kinv s' = kinv s" "live s' = live s" "objs s' = objs s" "sm_bytes s' = sm_bytes s" "system_heap s' = system_heap s"
    unfolding eq by simp_all
qed (use assms in \<open>simp_all add: sm_frame_def Let_def\<close>)

lemma sm_frame_upd_sm:
  "(\<And>h. sm_address (f h) = sm_address h \<and> sm_total (f h) = sm_total h \<and> sm_heap_ptr (f h) = sm_heap_ptr h \<and>
      sm_heap_end (f h) = sm_heap_end h \<and> sm_mem_size_aligned (f h) = sm_mem_size_aligned h) \<Longrightarrow> sm_frame m s (upd_sm m f s)"
  by (simp add: sm_frame_def upd_sm_def Let_def)

lemma sm_frame_upd_item:
  "sm_heap_ptr (small_mems s m) \<le> a \<Longrightarrow> a \<le> sm_heap_end (small_mems s m) \<Longrightarrow> sm_frame m s (upd_item a f s)"
  by (simp add: sm_frame_def upd_item_def Let_def)

subsection \<open>Merging items\<close>

lemma sm_layoutD:
  assumes "sm_layout m cs s"
  shows "0 < m" "4 dvd m" "m < 2 ^ 32" "4 dvd sm_heap_ptr (small_mems s m)"
    "sm_heap_ptr (small_mems s m) + cells_span cs + 12 \<le> 2 ^ 32"
    "unat (sm_mem_size_aligned (small_mems s m)) + 12 = cells_span cs"
    "sm_heap_end (small_mems s m) = sm_heap_ptr (small_mems s m) + cells_span cs"
    "heap_seg m (sm_heap_ptr (small_mems s m)) (sm_items s) 0 0 cs"
    "smi_pool_ptr (sm_items s (sm_heap_ptr (small_mems s m) + cells_span cs)) = MEM_USED m"
    "smi_next (sm_items s (sm_heap_ptr (small_mems s m) + cells_span cs)) = of_nat (cells_span cs)"
    "sm_lfree (small_mems s m) = sm_heap_ptr (small_mems s m) + first_free 0 cs"
    "sm_used (small_mems s m) = of_nat (used_bytes cs)" "sm_used (small_mems s m) \<le> sm_max (small_mems s m)"
    "\<forall>c\<in>set cs. cell_ok c" "0 < sm_heap_ptr (small_mems s m)"
  using assms heap_seg_ok unfolding sm_layout_def Let_def by blast+

lemma heap_offset_of [simp]: "heap_offset m (sm_heap_ptr (small_mems s m) + a) s = of_nat a"
  by (simp add: heap_offset_def)

lemma smem_join_eq:
  assumes "sm_lfree (small_mems s m) \<noteq> nmem" "mem \<noteq> nmem"
  shows "smem_join m mem nmem s = s\<lparr>sm_items :=
    (let g = (sm_items s)(nmem := (sm_items s nmem)\<lparr>smi_pool_ptr := 0\<rparr>, mem := (sm_items s mem)\<lparr>smi_next := smi_next (sm_items s nmem)\<rparr>);
         e = sm_heap_ptr (small_mems s m) + unat (smi_next (sm_items s nmem))
     in g(e := (g e)\<lparr>smi_prev := heap_offset m mem s\<rparr>))\<rparr>"
  using assms unfolding smem_join_def Let_def upd_item_def heap_item_def heap_offset_def by simp

lemma smem_join_ok:
  assumes lay: "sm_layout m (xs @ (a, False) # (b, False) # ys) s" and H: "H = sm_heap_ptr (small_mems s m)"
  shows "sm_layout m (xs @ (a + b, False) # ys) (smem_join m (H + cells_span xs) (H + cells_span xs + a) s)"
    "sm_frame m s (smem_join m (H + cells_span xs) (H + cells_span xs + a) s)"
proof -
  let ?o = "cells_span xs" and ?E = "cells_span xs + a + b + cells_span ys" and ?f = "sm_items s"
  note L = sm_layoutD [OF lay, folded H, simplified]
  have ab: "12 \<le> a" "12 \<le> b" "cell_ok (a + b, False)" using L(14) cell_ok_add [of a False b False] by (auto simp: cell_ok_def)
  have seg: "heap_seg m H ?f 0 0 xs" "?f (H + ?o) = cell_item m False (?o + a) (last_off 0 0 xs)"
    "?f (H + ?o + a) = cell_item m False (?o + a + b) ?o" "heap_seg m H ?f (?o + a) (?o + a + b) ys"
    using L(8) by (simp_all add: heap_seg_append add.assoc)
  have nx: "unat (of_nat (?o + a + b) :: u32) = ?o + a + b" by (rule unat_small) (use L(5) in simp)
  have free: "first_free 0 (xs @ (a, False) # (b, False) # ys) \<le> ?o"
    using first_free_le(1) [of 0 xs] by (simp add: first_free_append)
  then have lf: "sm_lfree (small_mems s m) \<noteq> H + ?o + a" using L(11) ab by simp
  let ?g = "(?f(H + ?o + a := (?f (H + ?o + a))\<lparr>smi_pool_ptr := 0\<rparr>, H + ?o := (?f (H + ?o))\<lparr>smi_next := of_nat (?o + a + b)\<rparr>))"
  let ?h = "?g(H + (?o + a + b) := (?g (H + (?o + a + b)))\<lparr>smi_prev := of_nat ?o\<rparr>)"
  have eq: "smem_join m (H + ?o) (H + ?o + a) s = s\<lparr>sm_items := ?h\<rparr>"
  proof -
    have "smi_next (?f (H + ?o + a)) = of_nat (?o + a + b)" by (simp add: seg(3) cell_item_def)
    moreover have "heap_offset m (H + ?o) s = of_nat ?o" by (simp add: H)
    moreover have ne: "H + ?o \<noteq> H + ?o + a" using ab by simp
    ultimately show ?thesis using smem_join_eq [OF lf ne] nx by (simp only: Let_def H [symmetric])
  qed
  have "heap_seg m H ?g (?o + a) (?o + a + b) ys" using seg(4) ab by simp
  then have ys: "heap_seg m H ?h ?o (?o + a + b) ys" by (rule heap_seg_set_prev)
  have "?h (H + ?o) = cell_item m False (?o + a + b) (last_off 0 0 xs)" using ab by (simp add: seg(2) cell_item_def)
  then have "heap_seg m H ?h 0 0 (xs @ (a + b, False) # ys)"
    using seg(1) ys ab by (simp add: heap_seg_append add.assoc)
  moreover have "smi_pool_ptr (?h (H + ?E)) = smi_pool_ptr (?f (H + ?E))" "smi_next (?h (H + ?E)) = smi_next (?f (H + ?E))" using ab by auto
  moreover have "first_free 0 (xs @ (a + b, False) # ys) = first_free 0 (xs @ (a, False) # (b, False) # ys)" by (simp add: first_free_append)
  ultimately show "sm_layout m (xs @ (a + b, False) # ys) (smem_join m (H + ?o) (H + ?o + a) s)"
    using L unfolding eq sm_layout_def Let_def by (simp add: H [symmetric] add.assoc)
  show "sm_frame m s (smem_join m (H + ?o) (H + ?o + a) s)"
    using L(7) ab unfolding eq by (simp add: sm_frame_def H)
qed

lemma last_off_le: "p \<le> a \<Longrightarrow> last_off p a cs \<le> a + cells_span cs"
  by (induction p a cs rule: last_off.induct) auto

lemma last_off_snoc [simp]: "last_off p a (cs @ [c]) = a + cells_span cs"
  by (induction p a cs rule: last_off.induct) (auto simp: add.assoc split: prod.splits, metis last_off.simps surj_pair)

lemma cell_at:
  assumes lay: "sm_layout m (xs @ (n, u) # ys) s" and H: "H = sm_heap_ptr (small_mems s m)"
  shows "sm_items s (H + cells_span xs) = cell_item m u (cells_span xs + n) (last_off 0 0 xs)" "12 \<le> n"
    "MEM_ISUSED (sm_items s (H + cells_span xs)) = u" "MEM_POOL (sm_items s (H + cells_span xs)) = of_nat m"
    "unat (smi_next (sm_items s (H + cells_span xs))) = cells_span xs + n"
    "heap_item m (smi_next (sm_items s (H + cells_span xs))) s = H + (cells_span xs + n)"
    "heap_item m (smi_prev (sm_items s (H + cells_span xs))) s = H + last_off 0 0 xs"
proof -
  note L = sm_layoutD [OF lay, folded H, simplified]
  show eq: "sm_items s (H + cells_span xs) = cell_item m u (cells_span xs + n) (last_off 0 0 xs)" and "12 \<le> n"
    using L(8,14) by (simp_all add: heap_seg_append cell_ok_def)
  have w: "unat (of_nat (cells_span xs + n) :: u32) = cells_span xs + n" "unat (of_nat (last_off 0 0 xs) :: u32) = last_off 0 0 xs"
    by (rule unat_small; use L(5) last_off_le [of 0 0 xs] in simp)+
  show "MEM_ISUSED (sm_items s (H + cells_span xs)) = u" "MEM_POOL (sm_items s (H + cells_span xs)) = of_nat m"
    using mem_flags(1,2) [OF L(2)] eq by simp_all
  show "unat (smi_next (sm_items s (H + cells_span xs))) = cells_span xs + n"
    "heap_item m (smi_next (sm_items s (H + cells_span xs))) s = H + (cells_span xs + n)"
    "heap_item m (smi_prev (sm_items s (H + cells_span xs))) s = H + last_off 0 0 xs"
    using w unfolding eq heap_item_def H [symmetric] by (simp_all only: cell_item_def rt_small_mem_item.simps)
qed

text \<open>The two halves of \<^verbatim>\<open>plug_holes\<close>.\<close>

lemma plug_next_ok:
  assumes lay: "sm_layout m (xs @ (n, False) # ys) s" and co: "coalesced (xs @ (n, True) # ys)" and H: "H = sm_heap_ptr (small_mems s m)"
  defines "mem \<equiv> H + cells_span xs" and "nmem \<equiv> H + (cells_span xs + n)"
  obtains s1 n1 ys1 where
    "(if mem \<noteq> nmem \<and> \<not> MEM_ISUSED (sm_items s nmem) \<and> nmem \<noteq> sm_heap_end (small_mems s m) then smem_join m mem nmem s else s) = s1"
    "sm_layout m (xs @ (n1, False) # ys1) s1" "sm_frame m s s1" "coalesced (xs @ (n1, True) # ys1)" "ys1 \<noteq> [] \<longrightarrow> snd (hd ys1)"
    "coalesce (xs @ (n1, False) # ys1) = coalesce (xs @ (n, False) # ys)"
proof (cases "ys \<noteq> [] \<and> \<not> snd (hd ys)")
  case True
  then obtain k zs where ys: "ys = (k, False) # zs" by (metis list.exhaust_sel prod.collapse)
  have lay': "sm_layout m ((xs @ [(n, False)]) @ (k, False) # zs) s" using lay by (simp add: ys)
  have "12 \<le> n" "12 \<le> k" "\<not> MEM_ISUSED (sm_items s nmem)" "nmem \<noteq> sm_heap_end (small_mems s m)"
    using cell_at(2) [OF lay H] cell_at(2,3) [OF lay' H] sm_layoutD(7) [OF lay] by (auto simp: nmem_def H ys)
  then have eq: "(if mem \<noteq> nmem \<and> \<not> MEM_ISUSED (sm_items s nmem) \<and> nmem \<noteq> sm_heap_end (small_mems s m) then smem_join m mem nmem s else s) =
      smem_join m (H + cells_span xs) (H + cells_span xs + n) s" by (simp add: mem_def nmem_def add.assoc)
  show ?thesis
    by (rule that [OF eq smem_join_ok [OF lay [unfolded ys] H]])
      (use co in \<open>auto simp: ys coalesced_append coalesced_Cons coalesce_join\<close>)
next
  case False
  have "MEM_ISUSED (sm_items s nmem) \<or> nmem = sm_heap_end (small_mems s m)"
  proof (cases ys)
    case Nil
    then show ?thesis using sm_layoutD(7) [OF lay] by (simp add: nmem_def H)
  next
    case (Cons c zs)
    then have "ys = (fst c, True) # zs" using False by (cases c) simp
    then have lay': "sm_layout m ((xs @ [(n, False)]) @ (fst c, True) # zs) s" using lay by simp
    show ?thesis using cell_at(3) [OF lay' H] by (simp add: nmem_def)
  qed
  then have eq: "(if mem \<noteq> nmem \<and> \<not> MEM_ISUSED (sm_items s nmem) \<and> nmem \<noteq> sm_heap_end (small_mems s m) then smem_join m mem nmem s else s) = s"
    by auto
  show ?thesis by (rule that [OF eq lay sm_frame_refl co]) (use False in auto)
qed

lemma plug_prev_ok:
  assumes lay: "sm_layout m (xs @ (n, False) # ys) s" and co: "coalesced (xs @ (n, True) # ys)" "ys \<noteq> [] \<longrightarrow> snd (hd ys)"
    and H: "H = sm_heap_ptr (small_mems s m)"
  defines "mem \<equiv> H + cells_span xs" and "pmem \<equiv> H + last_off 0 0 xs"
  obtains s1 where
    "(if pmem \<noteq> mem \<and> \<not> MEM_ISUSED (sm_items s pmem) then smem_join m pmem mem s else s) = s1"
    "sm_rep m (coalesce (xs @ (n, False) # ys)) s1" "sm_frame m s s1"
proof (cases "xs \<noteq> [] \<and> \<not> snd (last xs)")
  case True
  then obtain k zs where xs: "xs = zs @ [(k, False)]" by (metis append_butlast_last_id prod.collapse)
  have lay': "sm_layout m (zs @ (k, False) # (n, False) # ys) s" using lay by (simp add: xs)
  have "12 \<le> k" "\<not> MEM_ISUSED (sm_items s pmem)" using cell_at(2,3) [OF lay' H] by (auto simp: pmem_def xs)
  then have eq: "(if pmem \<noteq> mem \<and> \<not> MEM_ISUSED (sm_items s pmem) then smem_join m pmem mem s else s) =
      smem_join m (H + cells_span zs) (H + cells_span zs + k) s" by (simp add: mem_def pmem_def xs add.assoc)
  have co': "coalesced (zs @ (k + n, False) # ys)" using co by (auto simp: xs coalesced_append coalesced_Cons)
  have "coalesce (xs @ (n, False) # ys) = zs @ (k + n, False) # ys" using coalesce_join [of zs k n ys] coalesce_id [OF co'] by (simp add: xs)
  then show ?thesis using that [OF eq] smem_join_ok [OF lay' H] co' by (simp add: sm_rep_def)
next
  case False
  have "pmem = mem \<or> MEM_ISUSED (sm_items s pmem)"
  proof (cases xs rule: rev_cases)
    case Nil
    then show ?thesis by (simp add: mem_def pmem_def)
  next
    case (snoc zs c)
    then have "xs = zs @ [(fst c, True)]" using False by (cases c) simp
    then have lay': "sm_layout m (zs @ (fst c, True) # (n, False) # ys) s" using lay by simp
    show ?thesis using cell_at(3) [OF lay' H] by (simp add: pmem_def snoc)
  qed
  then have eq: "(if pmem \<noteq> mem \<and> \<not> MEM_ISUSED (sm_items s pmem) then smem_join m pmem mem s else s) = s" by auto
  have co': "coalesced (xs @ (n, False) # ys)" using co False by (auto simp: coalesced_append coalesced_Cons)
  show ?thesis by (rule that [OF eq _ sm_frame_refl]) (use lay co' coalesce_id [OF co'] in \<open>simp add: sm_rep_def\<close>)
qed

lemma plug_holes_ok:
  assumes lay: "sm_layout m (xs @ (n, False) # ys) s" and co: "coalesced (xs @ (n, True) # ys)" and H: "H = sm_heap_ptr (small_mems s m)"
  obtains s' where "plug_holes m (H + cells_span xs) s = Some s'" "sm_rep m (coalesce (xs @ (n, False) # ys)) s'" "sm_frame m s s'"
proof -
  let ?mem = "H + cells_span xs"
  obtain s1 n1 ys1 where s1: "(if ?mem \<noteq> H + (cells_span xs + n) \<and> \<not> MEM_ISUSED (sm_items s (H + (cells_span xs + n))) \<and>
      H + (cells_span xs + n) \<noteq> sm_heap_end (small_mems s m) then smem_join m ?mem (H + (cells_span xs + n)) s else s) = s1"
    "sm_layout m (xs @ (n1, False) # ys1) s1" "sm_frame m s s1" "coalesced (xs @ (n1, True) # ys1)" "ys1 \<noteq> [] \<longrightarrow> snd (hd ys1)"
    "coalesce (xs @ (n1, False) # ys1) = coalesce (xs @ (n, False) # ys)"
    by (rule plug_next_ok [OF lay co H])
  have H1: "H = sm_heap_ptr (small_mems s1 m)" using sm_frameD(6) [OF s1(3)] H by simp
  obtain s2 where s2: "(if H + last_off 0 0 xs \<noteq> ?mem \<and> \<not> MEM_ISUSED (sm_items s1 (H + last_off 0 0 xs)) then
      smem_join m (H + last_off 0 0 xs) ?mem s1 else s1) = s2" "sm_rep m (coalesce (xs @ (n1, False) # ys1)) s2" "sm_frame m s1 s2"
    by (rule plug_prev_ok [OF s1(2,4,5) H1])
  have b: "H \<le> ?mem" "?mem < sm_heap_end (small_mems s m)" using sm_layoutD(7) [OF lay] cell_at(2) [OF lay H] by (simp_all add: H)
  have "plug_holes m ?mem s = Some s2"
    unfolding plug_holes_def Let_def cell_at(6) [OF lay H] s1(1) cell_at(7) [OF s1(2) H1] s2(1) using b by (simp add: H)
  then show ?thesis using that s2(2,3) s1(6) sm_frame_trans [OF s1(3)] by simp
qed

subsection \<open>Freeing\<close>

lemma smem_freed_fields:
  "sm_items (smem_freed m mem s) = (sm_items s)(mem := (sm_items s mem)\<lparr>smi_pool_ptr := MEM_FREED m\<rparr>)"
  "small_mems (smem_freed m mem s) m = (small_mems s m)\<lparr>sm_lfree := min mem (sm_lfree (small_mems s m)),
     sm_used := sm_used (small_mems s m) - (smi_next (sm_items s mem) - heap_offset m mem s)\<rparr>"
  by (simp_all add: smem_freed_def Let_def upd_item_def upd_sm_def heap_offset_def min_def)

lemma heap_seg_cell:
  assumes "heap_seg m H f 0 0 (xs @ (n, u) # ys)" "cell_ok (n, v)"
  shows "heap_seg m H (f(H + cells_span xs := (f (H + cells_span xs))\<lparr>smi_pool_ptr := (if v then MEM_USED m else MEM_FREED m)\<rparr>)) 0 0
    (xs @ (n, v) # ys)"
  using assms by (simp add: heap_seg_append cell_item_def cell_ok_def)

lemma word_le_small: "x + y < 2 ^ 32 \<Longrightarrow> (of_nat x :: u32) \<le> of_nat (x + y)"
  by (simp add: word_le_nat_alt unat_small del: of_nat_add)

lemma smem_freed_ok:
  assumes lay: "sm_layout m (xs @ (n, True) # ys) s" and H: "H = sm_heap_ptr (small_mems s m)"
  shows "sm_layout m (xs @ (n, False) # ys) (smem_freed m (H + cells_span xs) s)" "sm_frame m s (smem_freed m (H + cells_span xs) s)"
proof -
  let ?mem = "H + cells_span xs" and ?u = "used_bytes xs + used_bytes ys"
  note L = sm_layoutD [OF lay, folded H, simplified]
  note C = cell_at [OF lay H]
  have "smi_next (sm_items s ?mem) - heap_offset m ?mem s = of_nat n" using C(1) by (simp add: H cell_item_def)
  then have used: "sm_used (small_mems (smem_freed m ?mem s) m) = of_nat ?u" using L(12) by (simp add: smem_freed_fields)
  have "used_bytes (xs @ (n, True) # ys) \<le> cells_span (xs @ (n, True) # ys)" by (rule used_bytes_le)
  then have "?u + n < 2 ^ 32" using L(5) by simp
  then have "(of_nat ?u :: u32) \<le> of_nat (?u + n)" by (rule word_le_small)
  moreover have "sm_used (small_mems s m) = of_nat (?u + n)" using L(12) by (simp add: ac_simps)
  ultimately have max: "(of_nat ?u :: u32) \<le> sm_max (small_mems s m)" using L(13) by (metis order_trans)
  have "min (cells_span xs) (first_free 0 (xs @ (n, True) # ys)) = first_free 0 (xs @ (n, False) # ys)"
    using first_free_le [of 0 xs] first_free_le(2) [of "cells_span xs + n" ys] by (auto simp: first_free_append)
  then have lfree: "sm_lfree (small_mems (smem_freed m ?mem s) m) = H + first_free 0 (xs @ (n, False) # ys)"
    using L(11) by (simp add: smem_freed_fields min_add_distrib_right [symmetric])
  have "12 \<le> n" by (rule C(2))
  then have end_item: "sm_items (smem_freed m ?mem s) (H + cells_span (xs @ (n, False) # ys)) = sm_items s (H + cells_span (xs @ (n, True) # ys))"
    by (simp add: smem_freed_fields)
  have seg: "heap_seg m H (sm_items (smem_freed m ?mem s)) 0 0 (xs @ (n, False) # ys)"
    using heap_seg_cell [OF L(8), where v = False] L(14) by (simp add: smem_freed_fields cell_ok_def)
  have geo: "sm_heap_ptr (small_mems (smem_freed m ?mem s) m) = H" "sm_heap_end (small_mems (smem_freed m ?mem s) m) = sm_heap_end (small_mems s m)"
    "sm_mem_size_aligned (small_mems (smem_freed m ?mem s) m) = sm_mem_size_aligned (small_mems s m)"
    "sm_max (small_mems (smem_freed m ?mem s) m) = sm_max (small_mems s m)" by (simp_all add: smem_freed_fields H)
  show "sm_layout m (xs @ (n, False) # ys) (smem_freed m ?mem s)"
    unfolding sm_layout_def Let_def geo used lfree end_item using L seg max by simp
  have "sm_frame m s (upd_item ?mem (\<lambda>i. i\<lparr>smi_pool_ptr := MEM_FREED m\<rparr>) s)" by (rule sm_frame_upd_item) (use L(7) in \<open>simp_all add: H\<close>)
  then show "sm_frame m s (smem_freed m ?mem s)"
    unfolding smem_freed_def Let_def by (simp add: sm_frame_trans [OF _ sm_frame_upd_sm] sm_frame_trans [OF sm_frame_trans [OF _ sm_frame_upd_sm] sm_frame_upd_sm])
qed

definition heap_object :: "nat \<Rightarrow> kernel \<Rightarrow> bool" where
  "heap_object m s \<longleftrightarrow> kinv s \<and> live s (OMemory m) \<and> rt_object_is_systemobject (OMemory m) s"

lemma heap_object_type: "heap_object m s \<Longrightarrow> rt_object_get_type (OMemory m) s = RT_Object_Class_Memory \<and> rt_object_is_systemobject (OMemory m) s"
  using rt_object_get_type_live [of s "OMemory m"] by (simp add: heap_object_def class_of_def)

lemma heap_object_frame: "sm_frame m s s' \<Longrightarrow> heap_object k s' = heap_object k s"
  by (simp add: heap_object_def rt_object_is_systemobject_def sm_frameD)

lemma rt_smem_free_step:
  assumes obj: "heap_object m s" and rep: "sm_rep m (xs @ (n, True) # ys) s" and H: "H = sm_heap_ptr (small_mems s m)"
  obtains s' where "rt_smem_free (Some (H + cells_span xs + 12)) s = Some s'" "sm_rep m (coalesce (xs @ (n, False) # ys)) s'" "sm_frame m s s'"
proof -
  let ?mem = "H + cells_span xs"
  have lay: "sm_layout m (xs @ (n, True) # ys) s" and co: "coalesced (xs @ (n, True) # ys)" using rep by (simp_all add: sm_rep_def)
  note L = sm_layoutD [OF lay, folded H]
  note C = cell_at [OF lay H]
  have H1: "H = sm_heap_ptr (small_mems (smem_freed m ?mem s) m)" using sm_frameD(6) [OF smem_freed_ok(2) [OF lay H]] H by simp
  obtain s' where s': "plug_holes m ?mem (smem_freed m ?mem s) = Some s'" "sm_rep m (coalesce (xs @ (n, False) # ys)) s'"
    "sm_frame m (smem_freed m ?mem s) s'"
    by (rule plug_holes_ok [OF smem_freed_ok(1) [OF lay H] co H1])
  have "4 dvd cells_span xs" using L(14) by (intro cells_span_dvd) simp
  then have al: "(H + cells_span xs + 12) mod 4 = 0" using L(4) by presburger
  have pool: "unat (MEM_POOL (sm_items s ?mem)) = m" using C(4) L(3) by (simp only: unat_small)
  have "unat (MEM_POOL (sm_items s (H + (cells_span xs + n)))) = m"
  proof (cases ys)
    case Nil
    then have "smi_pool_ptr (sm_items s (H + (cells_span xs + n))) = MEM_USED m" using L(9) by simp
    then show ?thesis using mem_flags(4) [OF L(2)] L(3) by (simp only: unat_small)
  next
    case (Cons c zs)
    then have lay': "sm_layout m ((xs @ [(n, True)]) @ (fst c, snd c) # zs) s" using lay by simp
    show ?thesis using cell_at(4) [OF lay' H] L(3) by (simp add: unat_small del: of_nat_add)
  qed
  then have "rt_smem_free (Some (H + cells_span xs + 12)) s = plug_holes m ?mem (smem_freed m ?mem s)"
    using al pool C(3,6) L(1,7,14) heap_object_type [OF obj] by (simp add: rt_smem_free_def H [symmetric] Let_def cell_ok_def)
  then show ?thesis using that s' sm_frame_trans [OF smem_freed_ok(2) [OF lay H] s'(3)] by simp
qed

subsection \<open>Searching\<close>

lemma first_fit_too_short: "cells_span cs < k + 12 \<Longrightarrow> first_fit k cs = None"
  by (induction k cs rule: first_fit.induct) auto

lemma first_free_takeWhile: "first_free a cs = a + cells_span (takeWhile snd cs)"
  by (induction a cs rule: first_free.induct) simp_all

text \<open>The search loop ends and finds the first free item that is large enough.\<close>

lemma smem_search_ok:
  fixes sz :: u32
  assumes E: "unat (sm_mem_size_aligned (small_mems s m)) + 12 = E" "E < 2 ^ 32" and k: "unat sz = k" "k + 12 \<le> E" and m: "4 dvd m"
  shows "heap_seg m (sm_heap_ptr (small_mems s m)) (sm_items s) p a cs \<Longrightarrow> a + cells_span cs = E \<Longrightarrow>
    smem_search m sz (of_nat a) s = Some (map_option (\<lambda>(xs, _, _). of_nat (a + cells_span xs)) (first_fit k cs))"
proof (induction cs arbitrary: p a)
  case Nil
  have "unat (sm_mem_size_aligned (small_mems s m) - sz) = E - 12 - k" using E k by (subst unat_sub) (simp_all add: word_le_nat_alt)
  moreover have "unat (of_nat a :: u32) = a" by (rule unat_small) (use Nil E(2) in simp)
  moreover have "\<not> a \<le> E - 12 - k" using Nil k(2) by simp
  ultimately show ?case by (subst smem_search.simps) (simp add: word_le_nat_alt)
next
  case (Cons c cs)
  obtain n u where c: "c = (n, u)" by fastforce
  let ?H = "sm_heap_ptr (small_mems s m)"
  have it: "sm_items s (?H + a) = cell_item m u (a + n) p" and seg: "heap_seg m ?H (sm_items s) a (a + n) cs"
    and n: "12 \<le> n" using Cons.prems(1) by (simp_all add: c cell_ok_def)
  have room: "unat (sm_mem_size_aligned (small_mems s m) - sz) = E - 12 - k" using E k by (subst unat_sub) (simp_all add: word_le_nat_alt)
  have w: "unat (of_nat a :: u32) = a" "unat (of_nat (n - 12) :: u32) = n - 12"
    by (rule unat_small; use Cons.prems(2) E(2) in \<open>simp add: c\<close>)+
  have ai: "heap_item m (of_nat a) s = ?H + a" unfolding heap_item_def by (simp only: w)
  have "smi_next (sm_items s (?H + a)) - (of_nat a + SIZEOF_STRUCT_MEM) = of_nat (n - 12)"
    using n by (simp add: it cell_item_def of_nat_diff)
  then have fits: "sz \<le> smi_next (sm_items s (?H + a)) - (of_nat a + SIZEOF_STRUCT_MEM) \<longleftrightarrow> k + 12 \<le> n"
    unfolding word_le_nat_alt k(1) using w(2) n by (simp only:) linarith
  have nx: "smi_next (sm_items s (?H + a)) = of_nat (a + n)" by (simp add: it cell_item_def)
  have IH: "smem_search m sz (of_nat (a + n)) s = Some (map_option (\<lambda>(xs, _, _). of_nat (a + n + cells_span xs)) (first_fit k cs))"
    by (rule Cons.IH [OF seg]) (use Cons.prems(2) in \<open>simp add: c\<close>)
  show ?case
  proof (cases "a \<le> E - 12 - k")
    case False
    then have "cells_span ((n, u) # cs) < k + 12" using Cons.prems(2) k by (simp add: c)
    then have "first_fit k ((n, u) # cs) = None" by (rule first_fit_too_short)
    then show ?thesis using False unfolding c by (subst smem_search.simps) (simp add: word_le_nat_alt room w)
  next
    case True
    then have "(of_nat a :: u32) \<le> sm_mem_size_aligned (small_mems s m) - sz" unfolding word_le_nat_alt room w .
    moreover have "MEM_ISUSED (sm_items s (?H + a)) = u" by (simp add: it mem_flags(1) [OF m])
    ultimately have "smem_search m sz (of_nat a) s = (if \<not> u \<and> k + 12 \<le> n then Some (Some (of_nat a)) else smem_search m sz (of_nat (a + n)) s)"
      using fits by (subst smem_search.simps) (simp only: Let_def ai nx if_True)
    then show ?thesis unfolding IH c by (auto simp: add.assoc split: option.splits)
  qed
qed

lemma smem_next_free_ok:
  assumes m: "4 dvd m" and E: "E < 2 ^ 32" "sm_heap_end (small_mems s m) = sm_heap_ptr (small_mems s m) + E"
  shows "heap_seg m (sm_heap_ptr (small_mems s m)) (sm_items s) p a cs \<Longrightarrow> a + cells_span cs = E \<Longrightarrow>
    smem_next_free m (sm_heap_ptr (small_mems s m) + a) s = Some (sm_heap_ptr (small_mems s m) + first_free a cs)"
proof (induction cs arbitrary: p a)
  case Nil
  then show ?case by (subst smem_next_free.simps) (simp add: E)
next
  case (Cons c cs)
  obtain n u where c: "c = (n, u)" by fastforce
  let ?H = "sm_heap_ptr (small_mems s m)"
  have it: "sm_items s (?H + a) = cell_item m u (a + n) p" and seg: "heap_seg m ?H (sm_items s) a (a + n) cs"
    and n: "12 \<le> n" using Cons.prems(1) by (simp_all add: c cell_ok_def)
  have "unat (of_nat (a + n) :: u32) = a + n" by (rule unat_small) (use Cons.prems(2) E(1) in \<open>simp add: c\<close>)
  then have nx: "heap_item m (smi_next (sm_items s (?H + a))) s = ?H + (a + n)"
    unfolding heap_item_def it cell_item_def by (simp only: rt_small_mem_item.simps)
  have IH: "smem_next_free m (?H + (a + n)) s = Some (?H + first_free (a + n) cs)"
    by (rule Cons.IH [OF seg]) (use Cons.prems(2) in \<open>simp add: c\<close>)
  have "?H + a \<noteq> sm_heap_end (small_mems s m)" using Cons.prems(2) n by (simp add: c E)
  then show ?case unfolding c by (subst smem_next_free.simps) (simp add: nx IH, simp add: it mem_flags(1) [OF m])
qed

subsection \<open>Cutting an item\<close>

lemma smem_split_eq:
  assumes "heap_item m (ptr + SIZEOF_STRUCT_MEM + sz) s \<noteq> mem"
  shows "smem_split m mem ptr sz s = s\<lparr>sm_items :=
    (let ptr2 = ptr + SIZEOF_STRUCT_MEM + sz; nx = smi_next (sm_items s mem); e = heap_item m nx s;
         g = (sm_items s)(heap_item m ptr2 s := \<lparr>smi_pool_ptr = MEM_FREED m, smi_next = nx, smi_prev = ptr\<rparr>,
           mem := (sm_items s mem)\<lparr>smi_next := ptr2\<rparr>)
     in if nx \<noteq> sm_mem_size_aligned (small_mems s m) + SIZEOF_STRUCT_MEM then g(e := (g e)\<lparr>smi_prev := ptr2\<rparr>) else g)\<rparr>"
  using assms unfolding smem_split_def Let_def upd_item_def heap_item_def by (simp del: SIZEOF_simps)

lemma smem_split_ok:
  assumes seg: "heap_seg m H (sm_items s) 0 0 (xs @ (n, u) # ys)" and H: "H = sm_heap_ptr (small_mems s m)"
    and E: "unat (sm_mem_size_aligned (small_mems s m)) + 12 = cells_span (xs @ (n, u) # ys)" "cells_span (xs @ (n, u) # ys) < 2 ^ 32"
    and k: "k + 24 \<le> n" "4 dvd k" "cell_ok (k + 12, u)"
  obtains f where "smem_split m (H + cells_span xs) (of_nat (cells_span xs)) (of_nat k) s = s\<lparr>sm_items := f\<rparr>"
    "heap_seg m H f 0 0 (xs @ (k + 12, u) # (n - (k + 12), False) # ys)"
    "smi_pool_ptr (f (H + cells_span (xs @ (n, u) # ys))) = smi_pool_ptr (sm_items s (H + cells_span (xs @ (n, u) # ys)))"
    "smi_next (f (H + cells_span (xs @ (n, u) # ys))) = smi_next (sm_items s (H + cells_span (xs @ (n, u) # ys)))"
    "\<And>x. x < H \<or> H + cells_span (xs @ (n, u) # ys) < x \<Longrightarrow> f x = sm_items s x"
proof -
  let ?o = "cells_span xs" and ?o2 = "cells_span xs + 12 + k" and ?f = "sm_items s"
  let ?g = "?f(H + ?o2 := \<lparr>smi_pool_ptr = MEM_FREED m, smi_next = of_nat (?o + n), smi_prev = of_nat ?o\<rparr>,
      H + ?o := (?f (H + ?o))\<lparr>smi_next := of_nat ?o2\<rparr>)"
  let ?h = "?g(H + (?o + n) := (?g (H + (?o + n)))\<lparr>smi_prev := of_nat ?o2\<rparr>)"
  let ?r = "if ys = [] then ?g else ?h"
  have S: "heap_seg m H ?f 0 0 xs" "?f (H + ?o) = cell_item m u (?o + n) (last_off 0 0 xs)" "cell_ok (n, u)" "heap_seg m H ?f ?o (?o + n) ys"
    using seg by (simp_all add: heap_seg_append)
  have w: "unat (of_nat ?o2 :: u32) = ?o2" "unat (of_nat (?o + n) :: u32) = ?o + n" by (rule unat_small; use E(2) k(1) in simp)+
  have i: "heap_item m (of_nat ?o2) t = H + ?o2" "heap_item m (of_nat (?o + n)) t = H + (?o + n)" if "small_mems t = small_mems s" for t
    unfolding heap_item_def that H [symmetric] by (simp_all only: w)
  have "cells_span ys = 0 \<longleftrightarrow> ys = []" using heap_seg_ok [OF S(4)] by (cases ys) (auto simp: cell_ok_def)
  moreover have "sm_mem_size_aligned (small_mems s m) + SIZEOF_STRUCT_MEM = of_nat (?o + n + cells_span ys)"
    using arg_cong [OF E(1), of "of_nat :: nat \<Rightarrow> u32"] by (simp add: add.assoc)
  moreover have "(of_nat (?o + n) = (of_nat (?o + n + cells_span ys) :: u32)) \<longleftrightarrow> cells_span ys = 0"
  proof -
    have "unat (of_nat (?o + n + cells_span ys) :: u32) = ?o + n + cells_span ys" by (rule unat_small) (use E(2) in simp)
    then show ?thesis using w(2) by (metis add_cancel_left_right)
  qed
  ultimately have last: "(of_nat (?o + n) \<noteq> sm_mem_size_aligned (small_mems s m) + SIZEOF_STRUCT_MEM) \<longleftrightarrow> ys \<noteq> []" by metis
  have ptr2: "of_nat ?o + SIZEOF_STRUCT_MEM + of_nat k = (of_nat ?o2 :: u32)" by simp
  have nx: "smi_next (?f (H + ?o)) = of_nat (?o + n)" unfolding S(2) cell_item_def by simp
  have ne: "heap_item m (of_nat ?o + SIZEOF_STRUCT_MEM + of_nat k) s \<noteq> H + ?o" unfolding ptr2 i(1) [OF refl] by simp
  have eq: "smem_split m (H + ?o) (of_nat ?o) (of_nat k) s = s\<lparr>sm_items := ?r\<rparr>"
    unfolding smem_split_eq [OF ne] Let_def ptr2 nx i(1) [OF refl] i(2) [OF refl] last by (simp only: if_not_P split: if_split) simp
  have "heap_seg m H ?g ?o (?o + n) ys" using S(4) k(1) by simp
  then have ys: "heap_seg m H ?r ?o2 (?o + n) ys" using heap_seg_set_prev [of m H ?g ?o "?o + n" ys ?o2] by simp
  have rest: "cell_ok (n - (k + 12), False)" "n = k + 12 + (n - (k + 12))" using k S(3) by (auto simp: cell_ok_def)
  have "?r (H + ?o) = cell_item m u ?o2 (last_off 0 0 xs)" "?r (H + ?o2) = cell_item m False (?o + n) ?o" using k(1) S(2) by (auto simp: cell_item_def)
  moreover have "heap_seg m H ?r 0 0 xs" using S(1) k(1) by simp
  ultimately have "heap_seg m H ?r 0 0 (xs @ (k + 12, u) # (n - (k + 12), False) # ys)"
    using ys k(3) rest by (simp add: heap_seg_append ac_simps)
  moreover have "smi_pool_ptr (?r (H + cells_span (xs @ (n, u) # ys))) = smi_pool_ptr (?f (H + cells_span (xs @ (n, u) # ys)))"
    "smi_next (?r (H + cells_span (xs @ (n, u) # ys))) = smi_next (?f (H + cells_span (xs @ (n, u) # ys)))" using k(1) by auto
  ultimately show ?thesis by (intro that [OF eq]) (use k(1) in auto)
qed

lemma smem_count_used_fields:
  "sm_items (smem_count_used m x s) = sm_items s"
  "small_mems (smem_count_used m x s) m = (small_mems s m)\<lparr>sm_used := sm_used (small_mems s m) + x,
     sm_max := max (sm_max (small_mems s m)) (sm_used (small_mems s m) + x)\<rparr>"
  "sm_frame m s (smem_count_used m x s)"
  by (auto simp: smem_count_used_def Let_def upd_sm_def sm_frame_def max_def)

subsection \<open>Allocating\<close>

lemma smem_cut_ok:
  assumes lay: "sm_layout m (xs @ (n, False) # ys) s" and k: "k + 12 \<le> n" "4 dvd k" "12 \<le> k" and H: "H = sm_heap_ptr (small_mems s m)"
  defines "mem \<equiv> H + cells_span xs" and "h \<equiv> small_mems s m" and "u \<equiv> of_nat (used_bytes (xs @ grant k n @ ys)) :: u32"
  obtains s1 a r where
    "(if smi_next (sm_items s mem) - (of_nat (cells_span xs) + SIZEOF_STRUCT_MEM) \<ge> of_nat k + SIZEOF_STRUCT_MEM + MIN_SIZE_ALIGNED
      then smem_count_used m (of_nat k + SIZEOF_STRUCT_MEM) (smem_split m mem (of_nat (cells_span xs)) (of_nat k) s)
      else smem_count_used m (smi_next (sm_items s mem) - heap_offset m mem s) s) = s1"
    "grant k n = (a, True) # r" "heap_seg m H (sm_items s1) 0 0 (xs @ (a, False) # r @ ys)" "sm_frame m s s1"
    "small_mems s1 m = h\<lparr>sm_used := u, sm_max := max (sm_max h) u\<rparr>"
    "smi_pool_ptr (sm_items s1 (sm_heap_end h)) = MEM_USED m" "smi_next (sm_items s1 (sm_heap_end h)) = smi_next (sm_items s (sm_heap_end h))"
proof -
  note L = sm_layoutD [OF lay, folded H]
  note C = cell_at [OF lay H]
  have w: "unat (of_nat (k + 24) :: u32) = k + 24" "unat (of_nat (n - 12) :: u32) = n - 12"
    by (rule unat_small; use L(5,15) k(1) in simp)+
  have len: "smi_next (sm_items s mem) - (of_nat (cells_span xs) + SIZEOF_STRUCT_MEM) = of_nat (n - 12)"
    using C(1,2) by (simp add: mem_def cell_item_def of_nat_diff)
  have iff: "of_nat k + SIZEOF_STRUCT_MEM + MIN_SIZE_ALIGNED \<le> (of_nat (n - 12) :: u32) \<longleftrightarrow> k + 36 \<le> n"
  proof -
    have "of_nat k + SIZEOF_STRUCT_MEM + MIN_SIZE_ALIGNED = (of_nat (k + 24) :: u32)" by simp
    then show ?thesis unfolding word_le_nat_alt using w C(2) by (simp only:) linarith
  qed
  have cond: "of_nat k + SIZEOF_STRUCT_MEM + MIN_SIZE_ALIGNED \<le> smi_next (sm_items s mem) - (of_nat (cells_span xs) + SIZEOF_STRUCT_MEM) \<longleftrightarrow> k + 36 \<le> n"
    unfolding len by (rule iff)
  have all: "smi_next (sm_items s mem) - heap_offset m mem s = of_nat n" using C(1) by (simp add: mem_def H cell_item_def)
  have hend: "sm_heap_end h = H + cells_span (xs @ (n, False) # ys)" using L(7) by (simp add: h_def)
  show ?thesis
  proof (cases "k + 36 \<le> n")
    case False
    let ?s1 = "smem_count_used m (of_nat n) s"
    have g: "grant k n = (n, True) # []" using False by (simp add: grant_def)
    have "small_mems ?s1 m = h\<lparr>sm_used := u, sm_max := max (sm_max h) u\<rparr>"
      unfolding smem_count_used_fields u_def h_def using L(12) by (simp add: g ac_simps)
    then show ?thesis
      using False L(8,9) by (intro that [OF _ g, of ?s1]) (simp_all add: cond all smem_count_used_fields hend del: SIZEOF_simps)
  next
    case True
    have k': "k + 24 \<le> n" "4 dvd k" "cell_ok (k + 12, False)" "cells_span (xs @ (n, False) # ys) < 2 ^ 32"
      using True k L(5) by (auto simp: cell_ok_def)
    obtain f where f: "smem_split m mem (of_nat (cells_span xs)) (of_nat k) s = s\<lparr>sm_items := f\<rparr>"
      "heap_seg m H f 0 0 (xs @ (k + 12, False) # (n - (k + 12), False) # ys)"
      "smi_pool_ptr (f (H + cells_span (xs @ (n, False) # ys))) = smi_pool_ptr (sm_items s (H + cells_span (xs @ (n, False) # ys)))"
      "smi_next (f (H + cells_span (xs @ (n, False) # ys))) = smi_next (sm_items s (H + cells_span (xs @ (n, False) # ys)))"
      "\<And>x. x < H \<or> H + cells_span (xs @ (n, False) # ys) < x \<Longrightarrow> f x = sm_items s x"
      by (rule smem_split_ok [OF L(8) H L(6) k'(4,1,2,3), folded mem_def], rule that)
    let ?s0 = "s\<lparr>sm_items := f\<rparr>" and ?x = "of_nat k + SIZEOF_STRUCT_MEM :: u32"
    have g: "grant k n = (k + 12, True) # [(n - (k + 12), False)]" using True by (simp add: grant_def)
    have fr: "sm_frame m s ?s0" using f(5) hend by (simp add: sm_frame_def H [symmetric] h_def)
    have "small_mems (smem_count_used m ?x ?s0) m = h\<lparr>sm_used := u, sm_max := max (sm_max h) u\<rparr>"
      unfolding smem_count_used_fields u_def h_def using L(12) by (simp add: g ac_simps)
    then show ?thesis
      using True f(2,3,4) L(9) sm_frame_trans [OF fr smem_count_used_fields(3)]
      by (intro that [OF _ g, of "smem_count_used m ?x ?s0"]) (simp_all add: cond f(1) smem_count_used_fields hend del: SIZEOF_simps)
  qed
qed

text \<open>The offset \<^verbatim>\<open>lfree\<close> has after the item behind \<open>xs\<close> was taken.\<close>

lemma first_free_taken:
  assumes "\<forall>c\<in>set xs. cell_ok c"
  shows "first_free 0 (xs @ (n, False) # ys) = cells_span xs \<Longrightarrow> first_free 0 (xs @ zs) = first_free (cells_span xs) zs"
    "first_free 0 (xs @ (n, False) # ys) \<noteq> cells_span xs \<Longrightarrow> first_free 0 (xs @ zs) = first_free 0 (xs @ (n, False) # ys)"
  using first_free_less [OF assms, of 0] by (auto simp: first_free_append split: if_splits)

lemma first_free_cases:
  "first_free a cs = a + cells_span cs \<or> (\<exists>xs n ys. cs = xs @ (n, False) # ys \<and> first_free a cs = a + cells_span xs)"
proof (induction a cs rule: first_free.induct)
  case (2 a n u cs)
  show ?case
  proof (cases u)
    case True
    then have "first_free (a + n) cs = a + n + cells_span cs \<or>
        (\<exists>xs k ys. cs = xs @ (k, False) # ys \<and> first_free (a + n) cs = a + n + cells_span xs)" by (rule 2)
    then show ?thesis
    proof (elim disjE exE conjE)
      fix xs k ys assume "cs = xs @ (k, False) # ys" "first_free (a + n) cs = a + n + cells_span xs"
      then show ?thesis using True by (intro disjI2 exI [of _ "(n, u) # xs"] exI [of _ k] exI [of _ ys]) simp
    qed (use True in simp)
  next
    case False
    then show ?thesis by (intro disjI2 exI [of _ "[]"] exI [of _ n] exI [of _ cs]) simp
  qed
qed simp

lemma smem_move_lfree:
  assumes geo: "sm_heap_ptr (small_mems s m) = H" "sm_heap_end (small_mems s m) = H + cells_span (xs @ zs)"
    and seg: "heap_seg m H (sm_items s) 0 0 (xs @ zs)" and ok: "\<forall>c\<in>set xs. cell_ok c" and m: "4 dvd m"
    and lf: "sm_lfree (small_mems s m) = H + first_free 0 (xs @ (n, False) # ys)" and E: "cells_span (xs @ zs) < 2 ^ 32"
    and l: "l = H + first_free 0 (xs @ zs)"
  shows "(if H + cells_span xs = sm_lfree (small_mems s m) then do {
             lfree \<leftarrow> smem_next_free m (sm_lfree (small_mems s m)) s;
             let s = upd_sm m (\<lambda>h. h\<lparr>sm_lfree := lfree\<rparr>) s;
             RT_ASSERT (lfree = sm_heap_end (small_mems s m) \<or> \<not> MEM_ISUSED (sm_items s lfree));
             Some s
           } else Some s) = Some (upd_sm m (\<lambda>h. h\<lparr>sm_lfree := l\<rparr>) s)"
proof (cases "first_free 0 (xs @ (n, False) # ys) = cells_span xs")
  case True
  have z: "heap_seg m H (sm_items s) (last_off 0 0 xs) (cells_span xs) zs" using seg by (simp add: heap_seg_append)
  have "smem_next_free m (H + cells_span xs) s = Some (H + first_free (cells_span xs) zs)"
    using smem_next_free_ok [OF m E, of s, unfolded geo, OF refl z] by simp
  then have "smem_next_free m (sm_lfree (small_mems s m)) s = Some l"
    using True lf l first_free_taken(1) [OF ok True] by simp
  moreover have "l = sm_heap_end (small_mems s m) \<or> \<not> MEM_ISUSED (sm_items s l)"
    using first_free_cases [of 0 "xs @ zs"]
  proof (elim disjE exE conjE)
    fix us k vs assume *: "xs @ zs = us @ (k, False) # vs" "first_free 0 (xs @ zs) = 0 + cells_span us"
    then have "sm_items s l = cell_item m False (cells_span us + k) (last_off 0 0 us)" using seg l by (simp add: heap_seg_append)
    then show ?thesis using mem_flags(1) [OF m] by simp
  qed (simp add: l geo)
  ultimately show ?thesis using True lf by (simp add: upd_sm_def Let_def)
next
  case False
  then have "l = sm_lfree (small_mems s m)" using first_free_taken(2) [OF ok False] l lf by simp
  then have "upd_sm m (\<lambda>h. h\<lparr>sm_lfree := l\<rparr>) s = s" by (simp add: upd_sm_def)
  then show ?thesis using False lf by simp
qed

lemma smem_take_item_ok:
  assumes rep: "sm_rep m (xs @ (n, False) # ys) s" and k: "k + 12 \<le> n" "4 dvd k" "12 \<le> k" and H: "H = sm_heap_ptr (small_mems s m)"
  obtains s' where "smem_take_item m (of_nat k) (of_nat (cells_span xs)) s = Some (H + cells_span xs + 12, s')"
    "sm_rep m (xs @ grant k n @ ys) s'" "sm_frame m s s'"
proof -
  have lay: "sm_layout m (xs @ (n, False) # ys) s" and co: "coalesced (xs @ (n, False) # ys)" using rep by (simp_all add: sm_rep_def)
  note L = sm_layoutD [OF lay, folded H]
  let ?mem = "H + cells_span xs" and ?h = "small_mems s m" and ?cs = "xs @ grant k n @ ys"
  let ?u = "of_nat (used_bytes ?cs) :: u32"
  obtain s1 a r where cut: "(if smi_next (sm_items s ?mem) - (of_nat (cells_span xs) + SIZEOF_STRUCT_MEM) \<ge> of_nat k + SIZEOF_STRUCT_MEM + MIN_SIZE_ALIGNED
      then smem_count_used m (of_nat k + SIZEOF_STRUCT_MEM) (smem_split m ?mem (of_nat (cells_span xs)) (of_nat k) s)
      else smem_count_used m (smi_next (sm_items s ?mem) - heap_offset m ?mem s) s) = s1"
    and g: "grant k n = (a, True) # r" and seg1: "heap_seg m H (sm_items s1) 0 0 (xs @ (a, False) # r @ ys)" and fr1: "sm_frame m s s1"
    and h1: "small_mems s1 m = ?h\<lparr>sm_used := ?u, sm_max := max (sm_max ?h) ?u\<rparr>"
    and e1: "smi_pool_ptr (sm_items s1 (sm_heap_end ?h)) = MEM_USED m"
      "smi_next (sm_items s1 (sm_heap_end ?h)) = smi_next (sm_items s (sm_heap_end ?h))"
    by (rule smem_cut_ok [OF lay k H], rule that)
  have span: "cells_span ?cs = cells_span (xs @ (n, False) # ys)" and ok: "\<forall>c\<in>set ?cs. cell_ok c"
    using grant_ok [OF k(1) _ k(2)] L(14) k(3) by auto
  have okx: "\<forall>c\<in>set xs. cell_ok c" using L(14) by simp
  have n: "12 \<le> n" using L(14) by (simp add: cell_ok_def)
  let ?s2 = "upd_item ?mem (\<lambda>i. i\<lparr>smi_pool_ptr := MEM_USED m\<rparr>) s1"
  have h2: "small_mems ?s2 m = ?h\<lparr>sm_used := ?u, sm_max := max (sm_max ?h) ?u\<rparr>" using h1 by (simp add: upd_item_def)
  have "cell_ok (a, True)" using ok g by simp
  then have seg2: "heap_seg m H (sm_items ?s2) 0 0 ?cs"
    using heap_seg_cell [OF seg1, where v = True] by (simp add: upd_item_def g)
  have hend: "sm_heap_end ?h = H + cells_span ?cs" using L(7) span by simp
  have e2: "smi_pool_ptr (sm_items ?s2 (H + cells_span ?cs)) = MEM_USED m" "smi_next (sm_items ?s2 (H + cells_span ?cs)) = of_nat (cells_span ?cs)"
    using e1 L(10) n unfolding hend [symmetric] L(7) span by (simp_all add: upd_item_def)
  have fr2: "sm_frame m s ?s2" by (rule sm_frame_trans [OF fr1 sm_frame_upd_item]) (use L(7) in \<open>simp_all add: h1 H\<close>)
  define lf where "lf = H + first_free 0 ?cs"
  let ?s3 = "upd_sm m (\<lambda>h. h\<lparr>sm_lfree := lf\<rparr>) ?s2"
  have lfree: "(if ?mem = sm_lfree (small_mems ?s2 m) then do {
             lfree \<leftarrow> smem_next_free m (sm_lfree (small_mems ?s2 m)) ?s2;
             let s = upd_sm m (\<lambda>h. h\<lparr>sm_lfree := lfree\<rparr>) ?s2;
             RT_ASSERT (lfree = sm_heap_end (small_mems s m) \<or> \<not> MEM_ISUSED (sm_items s lfree));
             Some s
           } else Some ?s2) = Some ?s3"
  proof (rule smem_move_lfree [OF _ _ seg2 okx L(2)])
    show "sm_heap_ptr (small_mems ?s2 m) = H" "sm_heap_end (small_mems ?s2 m) = H + cells_span (xs @ grant k n @ ys)" 
      using hend unfolding h2 by (simp_all add: H)
    show "sm_lfree (small_mems ?s2 m) = H + first_free 0 (xs @ (n, False) # ys)" using L(11) by (simp add: h2)
    show "cells_span (xs @ grant k n @ ys) < 2 ^ 32" using L(5) unfolding span by simp
  qed (simp add: lf_def)
  have fr3: "sm_frame m s ?s3" by (rule sm_frame_trans [OF fr2 sm_frame_upd_sm]) simp
  have h3: "small_mems ?s3 m = ?h\<lparr>sm_used := ?u, sm_max := max (sm_max ?h) ?u, sm_lfree := lf\<rparr>" "sm_items ?s3 = sm_items ?s2"
    using h2 by (simp_all add: upd_sm_def)
  have g3: "sm_heap_ptr (small_mems ?s3 m) = H" "sm_heap_end (small_mems ?s3 m) = H + cells_span ?cs"
    "sm_mem_size_aligned (small_mems ?s3 m) = sm_mem_size_aligned ?h" "sm_lfree (small_mems ?s3 m) = lf" "sm_used (small_mems ?s3 m) = ?u"
    "sm_max (small_mems ?s3 m) = max (sm_max ?h) ?u" unfolding h3 using hend by (simp_all add: H)
  have "unat (sm_mem_size_aligned ?h) + 12 = cells_span ?cs" "H + cells_span ?cs + 12 \<le> 2 ^ 32" using L(5,6) unfolding span by simp_all
  then have "sm_layout m ?cs ?s3"
    unfolding sm_layout_def Let_def g3 h3(2) using L(1,2,3,4,15) seg2 e2 lf_def by (intro conjI refl) (assumption | simp only: max.cobounded2)+
  then have rep3: "sm_rep m ?cs ?s3" using coalesced_grant [OF co] by (simp add: sm_rep_def)
  have "4 dvd cells_span xs" by (rule cells_span_dvd [OF okx])
  then have al: "?mem mod 4 = 0" "(?mem + 12) mod 4 = 0" using L(4) by presburger+
  have w: "unat (of_nat (cells_span xs) :: u32) = cells_span xs" "unat (of_nat k :: u32) = k" by (rule unat_small; use L(5) k n in simp)+
  have it: "heap_item m (of_nat (cells_span xs)) s = ?mem" unfolding heap_item_def H [symmetric] by (simp only: w)
  have "?mem + 12 + k \<le> sm_heap_end (small_mems ?s3 m)" using L(7) k by (simp add: upd_sm_def h2)
  then have "smem_take_item m (of_nat k) (of_nat (cells_span xs)) s = Some (?mem + 12, ?s3)"
    unfolding smem_take_item_def Let_def it cut lfree [unfolded Let_def] using al w(2) by simp
  then show ?thesis by (rule that [OF _ rep3 fr3])
qed

text \<open>The number of bytes a request is served with: rounded up to a multiple of 4, at least 12.\<close>

definition request_bytes :: "u32 \<Rightarrow> nat" where
  "request_bytes sz = max 12 (unat (RT_ALIGN sz RT_ALIGN_SIZE))"

lemma align_wraps:
  assumes "(0xfffffffc :: u32) < x"
  shows "RT_ALIGN x RT_ALIGN_SIZE = 0"
proof -
  have "unat x < 2 ^ LENGTH(32)" by (rule unsigned_less)
  moreover have "4294967292 < unat x" using assms by (simp add: word_less_nat_alt)
  ultimately have "unat (x + 3) < 4" by (simp add: unat_word_ariths le_mod_geq)
  then have "unat (drop_bit 2 (x + 3)) = 0" unfolding unat_drop_bit_eq by (simp add: drop_bit_eq_div)
  then show ?thesis unfolding align_eq by (simp add: unat_eq_zero)
qed

lemma align_dvd: "4 dvd unat (RT_ALIGN (x :: u32) RT_ALIGN_SIZE)"
  by (cases "x \<le> 0xfffffffc") (simp_all add: unat_align align_wraps not_le)

lemma request_bytes_ok:
  "4 dvd request_bytes sz" "12 \<le> request_bytes sz" "sz \<le> 0xfffffffc \<Longrightarrow> unat sz \<le> request_bytes sz"
proof -
  show "4 dvd request_bytes sz" using align_dvd [of sz] by (simp add: request_bytes_def max_def)
  show "unat sz \<le> request_bytes sz" if "sz \<le> 0xfffffffc" using unat_align [OF that] by (simp add: request_bytes_def)
qed (simp add: request_bytes_def)

text \<open>The invariant of a heap: its object is alive, it has room for one block of the least size, and its headers represent cells.\<close>

definition sm_inv :: "nat \<Rightarrow> kernel \<Rightarrow> bool" where
  "sm_inv m s \<longleftrightarrow> heap_object m s \<and> 12 \<le> sm_mem_size_aligned (small_mems s m) \<and> sm_rep m (sm_cells m s) s"

lemma walk_cells_ok:
  "4 dvd m \<Longrightarrow> heap_seg m H f p a cs \<Longrightarrow> a + cells_span cs = E \<Longrightarrow> E < 2 ^ 32 \<Longrightarrow> length cs \<le> k \<Longrightarrow> walk_cells k H E a f = cs"
proof (induction k H E a f arbitrary: p cs rule: walk_cells.induct)
  case (2 k H E a f)
  show ?case
  proof (cases cs)
    case Nil
    then show ?thesis using 2(4) by simp
  next
    case (Cons c ds)
    obtain n u where c: "c = (n, u)" by fastforce
    have it: "f (H + a) = cell_item m u (a + n) p" and seg: "heap_seg m H f a (a + n) ds" and n: "12 \<le> n"
      using 2(3) by (simp_all add: Cons c cell_ok_def)
    have "unat (of_nat (a + n) :: u32) = a + n" by (rule unat_small) (use 2(4,5) in \<open>simp add: Cons c\<close>)
    then have nx: "unat (smi_next (f (H + a))) = a + n" unfolding it cell_item_def by (simp only: rt_small_mem_item.simps)
    have a: "a < E" using 2(4) n by (simp add: Cons c)
    have "walk_cells k H E (unat (smi_next (f (H + a)))) f = ds"
      by (rule 2(1) [OF a 2(2)]) (use seg 2(4,5,6) in \<open>simp_all add: nx Cons c\<close>)
    then show ?thesis using a nx mem_flags(1) [OF 2(2)] by (simp add: it [symmetric] Cons c) (simp add: it)
  qed
qed simp

lemma sm_cells_eq: "sm_layout m cs s \<Longrightarrow> sm_cells m s = cs"
proof -
  assume lay: "sm_layout m cs s"
  note L = sm_layoutD [OF lay]
  show ?thesis unfolding sm_cells_def Let_def L(6)
    by (rule walk_cells_ok [OF L(2,8)]) (use L(5) length_le_span [OF L(14)] in simp_all)
qed

lemma sm_invI: "heap_object m s \<Longrightarrow> 12 \<le> sm_mem_size_aligned (small_mems s m) \<Longrightarrow> sm_rep m cs s \<Longrightarrow> sm_inv m s \<and> sm_cells m s = cs"
  using sm_cells_eq [of m cs s] by (simp add: sm_inv_def sm_rep_def)

lemma sm_inv_frame:
  assumes "sm_inv m s" "sm_frame m s s'" "sm_rep m cs s'"
  shows "sm_inv m s' \<and> sm_cells m s' = cs"
  using assms heap_object_frame [OF assms(2), of m] sm_frameD(8) [OF assms(2)] by (intro sm_invI) (simp_all add: sm_inv_def)

text \<open>A request is served as the specification says.\<close>

lemma rt_smem_alloc_step:
  assumes inv: "sm_inv m s" and sz: "sz \<noteq> 0"
  obtains s' where "rt_smem_alloc m sz s =
      Some (map_option (\<lambda>a. sm_heap_ptr (small_mems s m) + a + 12) (fst (cells_alloc (request_bytes sz) (sm_cells m s))), s')"
    "sm_rep m (snd (cells_alloc (request_bytes sz) (sm_cells m s))) s'" "sm_frame m s s'"
proof -
  let ?h = "small_mems s m" and ?cs = "sm_cells m s" and ?k = "request_bytes sz" and ?al = "RT_ALIGN sz RT_ALIGN_SIZE"
  let ?sz = "if ?al < MIN_SIZE_ALIGNED then MIN_SIZE_ALIGNED else ?al"
  have rep: "sm_rep m ?cs s" and obj: "heap_object m s" and room: "12 \<le> sm_mem_size_aligned ?h" using inv by (simp_all add: sm_inv_def)
  have lay: "sm_layout m ?cs s" using rep by (simp add: sm_rep_def)
  note L = sm_layoutD [OF lay]
  note T = heap_object_type [OF obj]
  have k: "unat ?sz = ?k" by (simp add: request_bytes_def word_less_nat_alt max_def)
  show ?thesis
  proof (cases "?al > sm_mem_size_aligned ?h")
    case True
    then have "?k + 12 > cells_span ?cs" using L(6) room by (simp add: request_bytes_def word_less_nat_alt)
    then have "first_fit ?k ?cs = None" by (intro first_fit_too_short) simp
    then show ?thesis
      using True sz T rep by (intro that [of s]) (simp_all add: rt_smem_alloc_def cells_alloc_def Let_def)
  next
    case False
    have fits: "?k + 12 \<le> cells_span ?cs" using False L(6) room by (simp add: request_bytes_def word_less_nat_alt word_le_nat_alt)
    have lt: "cells_span ?cs < 2 ^ 32" using L(5) by simp
    obtain us vs where uv: "?cs = us @ vs" "\<forall>c\<in>set us. snd c" "first_free 0 ?cs = cells_span us"
    proof (rule that [of "takeWhile snd ?cs" "dropWhile snd ?cs"])
      show "first_free 0 ?cs = cells_span (takeWhile snd ?cs)" for cs :: "cell list"
        using first_free_takeWhile [of 0] by simp
    qed (auto dest: set_takeWhileD)
    have seg: "heap_seg m (sm_heap_ptr ?h) (sm_items s) (last_off 0 0 us) (cells_span us) vs" using L(8) unfolding uv(1) heap_seg_append by simp
    have off: "heap_offset m (sm_lfree ?h) s = of_nat (cells_span us)" unfolding L(11) uv(3) by simp
    have fit: "first_fit ?k ?cs = map_option (\<lambda>(zs, n, ws). (us @ zs, n, ws)) (first_fit ?k vs)"
      unfolding uv(1) by (rule first_fit_append) (use uv(2) in simp)
    have found: "smem_search m ?sz (heap_offset m (sm_lfree ?h) s) s = Some (map_option (\<lambda>(xs, _, _). of_nat (cells_span xs)) (first_fit ?k ?cs))"
      unfolding off using smem_search_ok [OF L(6) lt k fits L(2) seg] uv(1)
      unfolding fit by (simp add: option.map_comp comp_def case_prod_unfold)
    have alloc: "rt_smem_alloc m sz s = (case first_fit ?k ?cs of None \<Rightarrow> Some (None, s)
      | Some (xs, _, _) \<Rightarrow> do { (b, s) \<leftarrow> smem_take_item m ?sz (of_nat (cells_span xs)) s; Some (Some b, s) })"
      using sz T False found unfolding rt_smem_alloc_def Let_def by (simp add: case_prod_unfold split: option.splits)
    show ?thesis
    proof (cases "first_fit ?k ?cs")
      case None
      then show ?thesis using alloc rep by (intro that [of s]) (simp_all add: cells_alloc_def)
    next
      case (Some t)
      obtain xs n ys where t: "t = (xs, n, ys)" by (cases t)
      have cs: "?cs = xs @ (n, False) # ys" and kn: "?k + 12 \<le> n" using first_fit_Some Some unfolding t by blast+
      obtain s' where s': "smem_take_item m (of_nat ?k) (of_nat (cells_span xs)) s = Some (sm_heap_ptr ?h + cells_span xs + 12, s')"
        "sm_rep m (xs @ grant ?k n @ ys) s'" "sm_frame m s s'"
        by (rule smem_take_item_ok [OF rep [unfolded cs] kn request_bytes_ok(1,2) refl], rule that)
      have "of_nat (unat ?sz) = ?sz" by simp
      then have "of_nat ?k = ?sz" unfolding k .
      then show ?thesis using alloc s' by (intro that [of s']) (simp_all add: Some t cells_alloc_def)
    qed
  qed
qed

subsection \<open>Correctness of allocation and freeing\<close>

definition sm_regions :: "nat \<Rightarrow> kernel \<Rightarrow> regions" where
  "sm_regions m s = cell_regions (sm_heap_ptr (small_mems s m)) (sm_cells m s)"

lemma sm_invD:
  assumes "sm_inv m s"
  shows "heap_object m s" "sm_rep m (sm_cells m s) s" "sm_layout m (sm_cells m s) s" "coalesced (sm_cells m s)" "\<forall>c\<in>set (sm_cells m s). cell_ok c"
    "12 \<le> sm_mem_size_aligned (small_mems s m)"
  using assms sm_layoutD(14) [of m "sm_cells m s" s] by (simp_all add: sm_inv_def sm_rep_def)

text \<open>An example: a heap with two used cells and a free one.\<close>

definition demo_heap :: kernel where
  "demo_heap = (demo 3)
     \<lparr>small_mems := (\<lambda>_. \<lparr>sm_address = 4152, sm_total = 124, sm_used = 88, sm_max = 88, sm_heap_ptr = 4152, sm_heap_end = 4288,
        sm_lfree = 4240, sm_mem_size_aligned = 124\<rparr>),
      sm_items := (\<lambda>_. zero_item)
        (4152 := \<lparr>smi_pool_ptr = 4097, smi_next = 24, smi_prev = 0\<rparr>, 4176 := \<lparr>smi_pool_ptr = 4097, smi_next = 88, smi_prev = 0\<rparr>,
         4240 := \<lparr>smi_pool_ptr = 4096, smi_next = 136, smi_prev = 24\<rparr>, 4288 := \<lparr>smi_pool_ptr = 4097, smi_next = 136, smi_prev = 136\<rparr>),
      system_heap := Some 4096\<rparr>"

lemma demo_heap_inv: "sm_inv 4096 demo_heap" "sm_cells 4096 demo_heap = [(24, True), (64, True), (48, False)]"
proof -
  have "kinv demo_heap" using demo_kinv(1) by (simp add: demo_heap_def)
  moreover have "live demo_heap (OMemory 4096)" by (simp add: demo_heap_def demo_live_iff demo_live_def)
  moreover have "rt_object_is_systemobject (OMemory 4096) demo_heap"
    by (simp add: demo_heap_def demo_live_def rt_object_is_systemobject_def class_of_def)
  ultimately have obj: "heap_object 4096 demo_heap" by (simp add: heap_object_def)
  have "sm_layout 4096 [(24, True), (64, True), (48, False)] demo_heap"
    unfolding sm_layout_def Let_def by (simp add: demo_heap_def cell_item_def MEM_USED_def MEM_FREED_def cell_ok_def)
  then have "sm_rep 4096 [(24, True), (64, True), (48, False)] demo_heap" by (simp add: sm_rep_def coalesced_def)
  then show "sm_inv 4096 demo_heap" "sm_cells 4096 demo_heap = [(24, True), (64, True), (48, False)]"
    using sm_invI [OF obj] by (simp_all add: demo_heap_def)
qed

lemma demo_heap_ptr: "sm_heap_ptr (small_mems demo_heap m) = 4152"
  by (simp add: demo_heap_def)

lemma demo_heap_regions: "sm_regions 4096 demo_heap = [4164 \<mapsto> 12, 4188 \<mapsto> 52]"
  by (simp add: sm_regions_def demo_heap_inv(2) demo_heap_ptr fun_eq_iff)

text \<open>
  C11. \<^verbatim>\<open>rt_smem_alloc\<close> is a first-fit allocator. On every heap with its invariant and for every size it returns (both loops end, no assertion
  fails) and does to the cells of the heap what the specification \<open>cells_alloc\<close> does: a request of 0 bytes and one for which no free
  cell is large enough return NULL and change nothing; otherwise the first free cell that is large enough is used, cut
  when the rest can hold a cell of its own, and the address behind its header is returned. The counter of used bytes is exact
  afterwards; nothing else in the kernel changes.
\<close>

theorem rt_smem_alloc_correct:
  assumes "sm_inv m s"
  shows "\<exists>s'. rt_smem_alloc m sz s =
      Some (map_option (\<lambda>a. sm_heap_ptr (small_mems s m) + a + 12)
        (fst (if sz = 0 then (None, sm_cells m s) else cells_alloc (request_bytes sz) (sm_cells m s))), s') \<and>
    sm_inv m s' \<and> sm_cells m s' = snd (if sz = 0 then (None, sm_cells m s) else cells_alloc (request_bytes sz) (sm_cells m s)) \<and>
    sm_used (small_mems s' m) = of_nat (used_bytes (sm_cells m s')) \<and> sm_frame m s s'"
proof (cases "sz = 0")
  case True
  then show ?thesis using assms sm_layoutD(12) [OF sm_invD(3) [OF assms]] by (simp add: rt_smem_alloc_def)
next
  case False
  obtain s' where s': "rt_smem_alloc m sz s =
      Some (map_option (\<lambda>a. sm_heap_ptr (small_mems s m) + a + 12) (fst (cells_alloc (request_bytes sz) (sm_cells m s))), s')"
    "sm_rep m (snd (cells_alloc (request_bytes sz) (sm_cells m s))) s'" "sm_frame m s s'"
    by (rule rt_smem_alloc_step [OF assms False], rule that)
  have "sm_inv m s'" and cs: "sm_cells m s' = snd (cells_alloc (request_bytes sz) (sm_cells m s))"
    using sm_inv_frame [OF assms s'(3,2)] by simp_all
  then show ?thesis using False s' sm_layoutD(12) [OF sm_invD(3)] by (intro exI [of _ s']) simp
qed

theorem rt_smem_alloc_correct_witness:
  "\<exists>s'. rt_smem_alloc 4096 10 demo_heap = Some (Some 4252, s') \<and> sm_inv 4096 s' \<and>
    sm_cells 4096 s' = [(24, True), (64, True), (24, True), (24, False)] \<and> sm_frame 4096 demo_heap s'"
proof -
  have r: "request_bytes 10 = 12" by (simp add: request_bytes_def RT_ALIGN_def)
  have "cells_alloc 12 [(24, True), (64, True), (48, False)] = (Some 88, [(24, True), (64, True), (24, True), (24, False)])"
    by (simp add: cells_alloc_def grant_def)
  then show ?thesis using rt_smem_alloc_correct [OF demo_heap_inv(1), of 10] by (auto simp: demo_heap_inv(2) r demo_heap_ptr)
qed

text \<open>The place of an allocated region among the cells.\<close>

lemma region_cell:
  assumes "sm_inv m s" "sm_regions m s a = Some n"
  obtains xs ys where "sm_cells m s = xs @ (n + 12, True) # ys" "a = sm_heap_ptr (small_mems s m) + cells_span xs + 12"
  using cell_regions_Some [OF sm_invD(5) [OF assms(1)]] assms(2) unfolding sm_regions_def by blast

lemma sm_release_ok:
  assumes "sm_inv m s" "sm_regions m s a = Some n"
  obtains xs ys s' where "sm_cells m s = xs @ (n + 12, True) # ys" "a = sm_heap_ptr (small_mems s m) + cells_span xs + 12"
    "rt_smem_free (Some a) s = Some s'" "sm_inv m s'" "sm_cells m s' = coalesce (xs @ (n + 12, False) # ys)"
    "sm_regions m s' = (sm_regions m s)(a := None)" "sm_frame m s s'"
proof -
  let ?H = "sm_heap_ptr (small_mems s m)"
  obtain xs ys where cs: "sm_cells m s = xs @ (n + 12, True) # ys" and a: "a = ?H + cells_span xs + 12"
    by (rule region_cell [OF assms], rule that)
  obtain s' where s': "rt_smem_free (Some a) s = Some s'" "sm_rep m (coalesce (xs @ (n + 12, False) # ys)) s'" "sm_frame m s s'"
    by (rule rt_smem_free_step [OF sm_invD(1) [OF assms(1)] sm_invD(2) [OF assms(1), unfolded cs] refl, folded a], rule that)
  have i: "sm_inv m s'" "sm_cells m s' = coalesce (xs @ (n + 12, False) # ys)" using sm_inv_frame [OF assms(1) s'(3,2)] by simp_all
  have "sm_regions m s' = (sm_regions m s)(a := None)"
    using cells_free_regions [OF sm_invD(5) [OF assms(1), unfolded cs], of ?H] by (simp add: sm_regions_def i(2) cs a sm_frameD(6) [OF s'(3)])
  then show ?thesis using that cs a s' i by blast
qed

text \<open>
  C12. \<^verbatim>\<open>rt_smem_free\<close> of an allocated block returns without a failed assertion; the heap keeps its invariant, its cell becomes free and
  is merged with free neighbours on both sides, so that afterwards no two neighbouring cells are free; exactly this block
  is no longer allocated, and nothing else in the kernel changes.
\<close>

theorem rt_smem_free_correct:
  assumes "sm_inv m s" "sm_regions m s a = Some n"
  shows "\<exists>s'. rt_smem_free (Some a) s = Some s' \<and> sm_inv m s' \<and>
    sm_cells m s' = cells_free (a - 12 - sm_heap_ptr (small_mems s m)) (sm_cells m s) \<and> coalesced (sm_cells m s') \<and>
    sm_regions m s' = (sm_regions m s)(a := None) \<and> sm_frame m s s'"
proof -
  obtain xs ys s' where *: "sm_cells m s = xs @ (n + 12, True) # ys" "a = sm_heap_ptr (small_mems s m) + cells_span xs + 12"
    "rt_smem_free (Some a) s = Some s'" "sm_inv m s'" "sm_cells m s' = coalesce (xs @ (n + 12, False) # ys)"
    "sm_regions m s' = (sm_regions m s)(a := None)" "sm_frame m s s'"
    by (rule sm_release_ok [OF assms], rule that)
  have "mark_free (cells_span xs) (sm_cells m s) = xs @ (n + 12, False) # ys"
    unfolding *(1) using sm_invD(5) [OF assms(1)] *(1) by (intro mark_free_at) simp
  then show ?thesis using * sm_invD(4) [OF *(4)] by (intro exI [of _ s']) (simp add: cells_free_def)
qed

theorem rt_smem_free_correct_witness:
  "\<exists>s'. rt_smem_free (Some 4188) demo_heap = Some s' \<and> sm_inv 4096 s' \<and> sm_cells 4096 s' = [(24, True), (112, False)] \<and>
    sm_regions 4096 s' = [4164 \<mapsto> 12] \<and> sm_frame 4096 demo_heap s'"
proof -
  have "sm_regions 4096 demo_heap 4188 = Some 52" by (simp add: demo_heap_regions)
  then show ?thesis using rt_smem_free_correct [OF demo_heap_inv(1), of 4188 52]
    by (auto simp: demo_heap_regions demo_heap_inv(2) demo_heap_ptr cells_free_def)
qed

subsection \<open>The heap as an allocator\<close>

definition sm_release :: "nat \<Rightarrow> kernel \<Rightarrow> kernel option" where
  "sm_release a s = rt_smem_free (Some a) s"

text \<open>What a client may expect of a request: at least the requested bytes, unless rounding up wraps around.\<close>

definition sm_enough :: "kernel \<Rightarrow> u32 \<Rightarrow> nat" where
  "sm_enough s sz = (if sz \<le> 0xfffffffc then unat sz else 0)"

lemma sm_request_ok:
  assumes inv: "sm_inv m s"
  shows "\<exists>r s'. rt_smem_alloc m sz s = Some (r, s') \<and> sm_inv m s' \<and> sm_frame m s s' \<and>
    (case r of None \<Rightarrow> sm_regions m s' = sm_regions m s
     | Some a \<Rightarrow> sm_regions m s a = None \<and> (\<exists>n\<ge>request_bytes sz. sm_regions m s' = (sm_regions m s)(a \<mapsto> n)))"
proof (cases "sz = 0")
  case True
  then show ?thesis using inv by (simp add: rt_smem_alloc_def)
next
  case False
  let ?k = "request_bytes sz" and ?H = "sm_heap_ptr (small_mems s m)"
  obtain s' where s': "rt_smem_alloc m sz s = Some (map_option (\<lambda>a. ?H + a + 12) (fst (cells_alloc ?k (sm_cells m s))), s')"
    "sm_rep m (snd (cells_alloc ?k (sm_cells m s))) s'" "sm_frame m s s'"
    by (rule rt_smem_alloc_step [OF inv False], rule that)
  have i: "sm_inv m s'" "sm_cells m s' = snd (cells_alloc ?k (sm_cells m s))" using sm_inv_frame [OF inv s'(3,2)] by simp_all
  have H: "sm_heap_ptr (small_mems s' m) = ?H" by (rule sm_frameD(6) [OF s'(3)])
  show ?thesis
  proof (cases "first_fit ?k (sm_cells m s)")
    case None
    then show ?thesis using s' i H by (simp add: cells_alloc_def sm_regions_def)
  next
    case (Some t)
    obtain xs n ys where t: "t = (xs, n, ys)" by (cases t)
    have cs: "sm_cells m s = xs @ (n, False) # ys" and kn: "?k + 12 \<le> n" using first_fit_Some Some unfolding t by blast+
    have "4 \<le> ?k" using request_bytes_ok(2) [of sz] by simp
    from cells_alloc_regions [OF sm_invD(5) [OF inv, unfolded cs] kn request_bytes_ok(1) this, of ?H]
    show ?thesis using s' i H by (simp add: cells_alloc_def sm_regions_def Some t) (simp add: cs)
  qed
qed

interpretation smem: allocator "sm_inv m" "sm_regions m" sm_enough "rt_smem_alloc m" sm_release for m
proof
  show "regions_disjoint (sm_regions m s)" if "sm_inv m s" for s
    using cell_regions_disjoint [OF sm_invD(5) [OF that]] by (simp add: sm_regions_def)
  show "\<exists>r s'. rt_smem_alloc m q s = Some (r, s') \<and> sm_inv m s' \<and> sm_enough s' = sm_enough s \<and>
      (case r of None \<Rightarrow> sm_regions m s' = sm_regions m s
       | Some a \<Rightarrow> sm_regions m s a = None \<and> (\<exists>n\<ge>sm_enough s q. sm_regions m s' = (sm_regions m s)(a \<mapsto> n)))"
    if "sm_inv m s" for s q
  proof -
    have "sm_enough s q \<le> request_bytes q" using request_bytes_ok(3) by (simp add: sm_enough_def)
    then show ?thesis
      using sm_request_ok [OF that, of q] by (fastforce simp: sm_enough_def fun_eq_iff split: option.splits intro: order_trans)
  qed
  show "\<exists>s'. sm_release a s = Some s' \<and> sm_inv m s' \<and> sm_enough s' = sm_enough s \<and> sm_regions m s' = (sm_regions m s)(a := None)"
    if "sm_inv m s" "sm_regions m s a = Some n" for s a n
    by (rule sm_release_ok [OF that]) (simp add: sm_release_def sm_enough_def fun_eq_iff)
qed

text \<open>A heap in which nothing is allocated is one free cell again: nothing leaks and no fragment remains.\<close>

lemma sm_empty:
  assumes inv: "sm_inv m s" and none: "sm_regions m s = Map.empty"
  shows "sm_cells m s = [(unat (sm_mem_size_aligned (small_mems s m)) + 12, False)]" "sm_used (small_mems s m) = 0"
proof -
  let ?cs = "sm_cells m s" and ?H = "sm_heap_ptr (small_mems s m)"
  note L = sm_layoutD [OF sm_invD(3) [OF inv]]
  have "\<not> snd c" if mem: "c \<in> set ?cs" for c
  proof
    assume "snd c"
    moreover obtain xs ys where "?cs = xs @ c # ys" using split_list [OF mem] by blast
    ultimately have cs: "?cs = xs @ (fst c, True) # ys" by (cases c) simp
    have "cell_regions ?H ?cs (?H + cells_span xs + 12) = Some (fst c - 12)"
      unfolding cs using L(14) [unfolded cs] by (subst cell_regions_at) simp_all
    then show False using none by (simp add: sm_regions_def)
  qed
  moreover have "?cs \<noteq> []" using L(6) by auto
  ultimately have eq: "?cs = [(cells_span ?cs, False)]" using coalesced_all_free [OF sm_invD(4) [OF inv]] by blast
  then show "?cs = [(unat (sm_mem_size_aligned (small_mems s m)) + 12, False)]" unfolding L(6) .
  have "used_bytes ?cs = 0" by (subst eq) simp
  then show "sm_used (small_mems s m) = 0" using L(12) by simp
qed

text \<open>
  C10. Memory safety of the heap, for a whole program of a client: every sequence of requests of any sizes and of frees of blocks it holds
  runs to its end, keeps the invariants of the kernel and the heap, and leaves the client with blocks that are pairwise disjoint, are
  allocated, and are not among those others hold; what others hold stays allocated with its size. When nobody
  holds a block any more, the whole heap is one free cell again.
\<close>

theorem sm_client_safe:
  assumes "sm_inv m s"
  shows "\<exists>held s'. client_run (rt_smem_alloc m) sm_release ps ([], s) = Some (held, s') \<and> sm_inv m s' \<and> distinct held \<and>
    dom (sm_regions m s') = set held \<union> dom (sm_regions m s) \<and> set held \<inter> dom (sm_regions m s) = {} \<and> regions_disjoint (sm_regions m s') \<and>
    (\<forall>a\<in>dom (sm_regions m s). sm_regions m s' a = sm_regions m s a) \<and>
    (held = [] \<and> sm_regions m s = Map.empty \<longrightarrow>
       sm_cells m s' = [(unat (sm_mem_size_aligned (small_mems s' m)) + 12, False)] \<and> sm_used (small_mems s' m) = 0)"
proof -
  obtain held s' where *: "client_run (rt_smem_alloc m) sm_release ps ([], s) = Some (held, s')" "sm_inv m s'" "distinct held"
    "set held \<union> dom (sm_regions m s) = dom (sm_regions m s')" "set held \<inter> dom (sm_regions m s) = {}" "regions_disjoint (sm_regions m s')"
    "\<forall>a\<in>dom (sm_regions m s). sm_regions m s' a = sm_regions m s a"
    using smem.client_run_ok [of m s "[]" "dom (sm_regions m s)" ps] assms by auto
  have "sm_regions m s' = Map.empty" if "held = []" "sm_regions m s = Map.empty" using *(4) that dom_eq_empty_conv by auto
  then show ?thesis using * sm_empty [OF *(2)] by (intro exI [of _ held] exI [of _ s']) simp
qed

theorem sm_client_safe_witness:
  "\<exists>held s'. client_run (rt_smem_alloc 4096) sm_release [Request 8, Request 100, Request 3, Release 1] ([], demo_heap) = Some (held, s') \<and>
    sm_inv 4096 s' \<and> distinct held \<and> dom (sm_regions 4096 s') = set held \<union> {4164, 4188} \<and> set held \<inter> {4164, 4188} = {} \<and>
    regions_disjoint (sm_regions 4096 s') \<and> sm_regions 4096 s' 4188 = Some 52"
proof -
  have d: "dom (sm_regions 4096 demo_heap) = {4164, 4188}" "sm_regions 4096 demo_heap 4188 = Some 52" by (auto simp: demo_heap_regions)
  show ?thesis using sm_client_safe [OF demo_heap_inv(1), of "[Request 8, Request 100, Request 3, Release 1]"] unfolding d(1)
    by (elim exE conjE) (intro exI conjI, assumption+, simp add: d(2))
qed

text \<open>
  Rounding a size above \<open>0xfffffffc\<close> up to a multiple of 4 wraps around to 0: the request is served like a request of one byte.
\<close>

theorem rt_smem_alloc_huge:
  assumes "0xfffffffc < sz" "12 \<le> sm_mem_size_aligned (small_mems s m)"
  shows "rt_smem_alloc m sz s = rt_smem_alloc m 1 s"
proof -
  have "RT_ALIGN (1 :: u32) RT_ALIGN_SIZE = 4" by (simp add: RT_ALIGN_def)
  moreover have "sz \<noteq> 0" using assms(1) by auto
  moreover have "\<not> sm_mem_size_aligned (small_mems s m) < 4" using assms(2) by (simp add: word_less_nat_alt word_le_nat_alt)
  ultimately show ?thesis using align_wraps [OF assms(1)] by (simp add: rt_smem_alloc_def)
qed

text \<open>
  A heap with less than twelve bytes has no block to give, but \<^verbatim>\<open>mem_size_aligned - size\<close> wraps around in the condition of the search loop: from the
  item at the end, whose successor is itself, the loop never returns.
\<close>

theorem smem_search_tiny_heap:
  assumes "sm_mem_size_aligned (small_mems s m) < 12" "e = sm_mem_size_aligned (small_mems s m) + 12"
    "MEM_ISUSED (sm_items s (heap_item m e s))" "smi_next (sm_items s (heap_item m e s)) = e"
  shows "smem_search m 12 e s = None"
proof -
  let ?size = "sm_mem_size_aligned (small_mems s m)"
  have "unat ?size < 12" using assms(1) by (simp add: word_less_nat_alt)
  then have "unat e = unat ?size + 12" "unat (?size - 12) = unat ?size + 2 ^ 32 - 12"
    using assms(2) by (simp_all add: unat_word_ariths unat_sub_if')
  then have guard: "e \<le> ?size - 12" using \<open>unat ?size < 12\<close> by (simp add: word_le_nat_alt)
  have "m' = m \<and> sz = 12 \<and> ptr = e \<and> t = s \<longrightarrow> False" if "smem_search m' sz ptr t = Some y" for m' sz ptr t y
    using that
  proof (rule smem_search.raw_induct [where P = "\<lambda>m' sz ptr t y. m' = m \<and> sz = 12 \<and> ptr = e \<and> t = s \<longrightarrow> False", rotated], intro impI)
    fix search m' sz ptr t y
    assume IH: "\<And>m' sz ptr t y. search m' sz ptr t = Some y \<Longrightarrow> m' = m \<and> sz = 12 \<and> ptr = e \<and> t = s \<longrightarrow> False"
      and body: "(if ptr \<le> sm_mem_size_aligned (small_mems t m') - sz then
        let mem = sm_items t (heap_item m' ptr t) in
        if \<not> MEM_ISUSED mem \<and> smi_next mem - (ptr + SIZEOF_STRUCT_MEM) \<ge> sz then Some (Some ptr)
        else search m' sz (smi_next mem) t else Some None) = Some y" and "m' = m \<and> sz = 12 \<and> ptr = e \<and> t = s"
    then have "search m 12 e s = Some y" using guard assms(3,4) by (simp add: Let_def)
    then show False using IH by blast
  qed
  then show ?thesis by (cases "smem_search m 12 e s") blast+
qed

end
