(* ===== verification/RT_Heap.thy ===== *)
theory RT_Heap
  imports RT_SmallMem
begin

section \<open>The system heap: resizing, initialisation, \<^verbatim>\<open>rt_malloc\<close>\<close>

text \<open>
  The services that the kernel and applications call, \<^verbatim>\<open>rt_malloc\<close> and its relatives of \<^verbatim>\<open>src/kservice.c\<close>, on top of the
  small-memory allocator, and what remains of that allocator: changing the size of a block with its bytes, and setting up a heap.
\<close>

subsection \<open>Operations\<close>

text \<open>
  The heap services of \<^verbatim>\<open>src/kservice.c\<close> on the system heap, in the variant that locks by disabling interrupts: each call
  is one atomic operation. Hooks are not installed.
\<close>

definition rt_system_heap_init :: "u32 \<Rightarrow> u32 \<Rightarrow> kernel \<Rightarrow> kernel option" where
  "rt_system_heap_init begin_addr end_addr s = do {
     let begin_align = RT_ALIGN begin_addr RT_ALIGN_SIZE;
     let end_align = RT_ALIGN_DOWN end_addr RT_ALIGN_SIZE;
     RT_ASSERT (end_align > begin_align);
     (h, s) \<leftarrow> rt_smem_init [104, 101, 97, 112, 0] begin_addr (end_align - begin_align) s;
     Some (s\<lparr>system_heap := h\<rparr>)
   }"

definition rt_malloc :: "u32 \<Rightarrow> kernel \<Rightarrow> (nat option \<times> kernel) option" where
  "rt_malloc sz s =
     (case system_heap s of
        None \<Rightarrow> do { RT_ASSERT (sz = 0); Some (None, s) }
      | Some m \<Rightarrow> rt_smem_alloc m sz s)"

definition rt_realloc :: "nat option \<Rightarrow> u32 \<Rightarrow> kernel \<Rightarrow> (nat option \<times> kernel) option" where
  "rt_realloc rmem newsize s = do {
     m \<leftarrow> system_heap s;
     rt_smem_realloc m rmem newsize s
   }"

definition rt_calloc :: "u32 \<Rightarrow> u32 \<Rightarrow> kernel \<Rightarrow> (nat option \<times> kernel) option" where
  "rt_calloc count sz s = do {
     (p, s) \<leftarrow> rt_malloc (count * sz) s;
     (case p of
        None \<Rightarrow> Some (None, s)
      | Some a \<Rightarrow> Some (p, sm_memset0 a (unat (count * sz)) s))
   }"

definition rt_free :: "nat option \<Rightarrow> kernel \<Rightarrow> kernel option" where
  "rt_free rmem s = rt_smem_free rmem s"

definition rt_memory_info :: "kernel \<Rightarrow> (u32 \<times> u32 \<times> u32) option" where
  "rt_memory_info s = do {
     m \<leftarrow> system_heap s;
     Some (sm_total (small_mems s m), sm_used (small_mems s m), sm_max (small_mems s m))
   }"

text \<open>
  \<^verbatim>\<open>rt_strdup\<close> of the string at address \<open>p\<close>: \<^verbatim>\<open>rt_strlen\<close> on the memory does not return when there is no zero behind the address.
\<close>

partial_function (option) mem_strlen :: "nat \<Rightarrow> nat \<Rightarrow> bytes \<Rightarrow> nat option" where
  "mem_strlen sc n f = (if f sc = 0 then Some n else mem_strlen (sc + 1) (n + 1) f)"

definition rt_strdup :: "nat \<Rightarrow> kernel \<Rightarrow> (nat option \<times> kernel) option" where
  "rt_strdup p s = do {
     k \<leftarrow> mem_strlen p 0 (sm_bytes s);
     let len = of_nat k + 1;
     (tmp, s) \<leftarrow> rt_malloc len s;
     (case tmp of
        None \<Rightarrow> Some (None, s)
      | Some a \<Rightarrow> Some (tmp, sm_memcpy a p (unat len) s))
   }"

text \<open>A pointer stored in memory, in the byte order of a little-endian machine.\<close>

definition store_word :: "nat \<Rightarrow> u32 \<Rightarrow> kernel \<Rightarrow> kernel" where
  "store_word a w s = s\<lparr>sm_bytes := store_long a w (sm_bytes s)\<rparr>"

definition load_word :: "nat \<Rightarrow> kernel \<Rightarrow> u32" where
  "load_word a s = load_long a (sm_bytes s)"

definition rt_malloc_align :: "u32 \<Rightarrow> u32 \<Rightarrow> kernel \<Rightarrow> (nat option \<times> kernel) option" where
  "rt_malloc_align sz align s = do {
     let align = (align + 3) AND NOT 3;
     let align_size = ((sz + 3) AND NOT 3) + align;
     (ptr, s) \<leftarrow> rt_malloc align_size s;
     (case ptr of
        None \<Rightarrow> Some (None, s)
      | Some ptr \<Rightarrow> do {
          let p = (of_nat ptr :: u32);
          let align_ptr = (if p AND (align - 1) = 0 then p + align else (p + (align - 1)) AND NOT (align - 1));
          let s = store_word (unat (align_ptr - 4)) p s;
          Some (Some (unat align_ptr), s)
        })
   }"

definition rt_free_align :: "nat \<Rightarrow> kernel \<Rightarrow> kernel option" where
  "rt_free_align ptr s =
     (let real_ptr = load_word (ptr - 4) s in rt_free (if real_ptr = 0 then None else Some (unat real_ptr)) s)"

subsection \<open>Shrinking a block\<close>

lemma smem_shrink_ok:
  assumes rep: "sm_rep m (xs @ (n, True) # ys) s" and k: "4 dvd k" "4 \<le> k" "k + 36 < n" and H: "H = sm_heap_ptr (small_mems s m)"
  obtains s' where "smem_shrink m (H + cells_span xs) (of_nat (n - 12)) (of_nat k) s = Some s'"
    "sm_rep m (coalesce (xs @ (k + 12, True) # (n - (k + 12), False) # ys)) s'" "sm_frame m s s'"
proof -
  have lay: "sm_layout m (xs @ (n, True) # ys) s" and co: "coalesced (xs @ (n, True) # ys)" using rep by (simp_all add: sm_rep_def)
  note L = sm_layoutD [OF lay, folded H]
  let ?o = "cells_span xs" and ?h = "small_mems s m" and ?r = "n - (k + 12)"
  let ?mem = "H + cells_span xs" and ?mem2 = "H + (cells_span xs + 12 + k)" and ?cs = "xs @ (k + 12, True) # (n - (k + 12), False) # ys"
  let ?E = "cells_span (xs @ (n, True) # ys)"
  let ?s1 = "upd_sm m (\<lambda>h. h\<lparr>sm_used := sm_used h - (of_nat (n - 12) - of_nat k)\<rparr>) s"
  have n: "k + 12 + ?r = n" "12 \<le> n" "k + 24 \<le> n" using k(3) by simp_all
  have span: "cells_span ?cs = ?E" using n by simp
  have g1: "sm_heap_ptr (small_mems ?s1 m) = H" "sm_items ?s1 = sm_items s" "sm_mem_size_aligned (small_mems ?s1 m) = sm_mem_size_aligned ?h"
    by (simp_all add: upd_sm_def H)
  have seg1: "heap_seg m H (sm_items ?s1) 0 0 (xs @ (n, True) # ys)" and E1: "unat (sm_mem_size_aligned (small_mems ?s1 m)) + 12 = ?E"
    using L(6,8) by (simp_all only: g1)
  have lt: "?E < 2 ^ 32" using L(5) by simp
  have okk: "cell_ok (k + 12, True)" using k by (simp add: cell_ok_def)
  obtain f where f: "smem_split m ?mem (of_nat ?o) (of_nat k) ?s1 = ?s1\<lparr>sm_items := f\<rparr>" "heap_seg m H f 0 0 ?cs"
    "smi_pool_ptr (f (H + ?E)) = smi_pool_ptr (sm_items ?s1 (H + ?E))" "smi_next (f (H + ?E)) = smi_next (sm_items ?s1 (H + ?E))"
    "\<And>x. x < H \<or> H + ?E < x \<Longrightarrow> f x = sm_items ?s1 x"
    by (rule smem_split_ok [OF seg1 g1(1) [symmetric] E1 lt n(3) k(1) okk], rule that)
  let ?s2 = "?s1\<lparr>sm_items := f\<rparr>"
  let ?s3 = "if ?mem2 < sm_lfree (small_mems ?s2 m) then upd_sm m (\<lambda>h. h\<lparr>sm_lfree := ?mem2\<rparr>) ?s2 else ?s2"
  have "used_bytes (xs @ (n, True) # ys) \<le> ?E" by (rule used_bytes_le)
  then have small: "used_bytes ?cs + ?r < 2 ^ 32" using lt n by simp
  have u3: "sm_used ?h - (of_nat (n - 12) - of_nat k) = of_nat (used_bytes ?cs)"
    using L(12) n(2) by (simp add: of_nat_diff)
  have "sm_used ?h = of_nat (used_bytes ?cs + ?r)" using L(12) n by (simp add: ac_simps flip: of_nat_add)
  then have "of_nat (used_bytes ?cs) \<le> sm_max ?h" using order_trans [OF word_le_small [OF small]] L(13) by simp
  moreover have "sm_used (small_mems ?s3 m) = sm_used ?h - (of_nat (n - 12) - of_nat k)" "sm_max (small_mems ?s3 m) = sm_max ?h"
    by (simp_all add: upd_sm_def)
  ultimately have used: "sm_used (small_mems ?s3 m) = of_nat (used_bytes ?cs)" "of_nat (used_bytes ?cs) \<le> sm_max (small_mems ?s3 m)"
    unfolding u3 by simp_all
  have "min (?o + 12 + k) (first_free 0 (xs @ (n, True) # ys)) = first_free 0 ?cs"
    using first_free_le [of 0 xs] first_free_le(2) [of "?o + n" ys] n by (auto simp: first_free_append)
  then have lfree: "sm_lfree (small_mems ?s3 m) = H + first_free 0 ?cs"
    using L(11) by (auto simp: upd_sm_def min_def split: if_splits)
  have g3: "sm_heap_ptr (small_mems ?s3 m) = H" "sm_heap_end (small_mems ?s3 m) = H + cells_span ?cs" "sm_items ?s3 = f"
    "sm_mem_size_aligned (small_mems ?s3 m) = sm_mem_size_aligned ?h" using L(7) n by (simp_all add: upd_sm_def H)
  have "unat (sm_mem_size_aligned ?h) + 12 = cells_span ?cs" "H + cells_span ?cs + 12 \<le> 2 ^ 32" using L(5,6) unfolding span by simp_all
  moreover have "smi_pool_ptr (f (H + cells_span ?cs)) = MEM_USED m" "smi_next (f (H + cells_span ?cs)) = of_nat (cells_span ?cs)"
    unfolding span using f(3,4) L(9,10) unfolding g1 by simp_all
  ultimately have lay3: "sm_layout m ?cs ?s3"
    unfolding sm_layout_def Let_def g3 lfree used(1) using L(1,2,3,4,15) f(2) used(2) by (intro conjI refl) assumption+
  have fr3: "sm_frame m s ?s3"
    using f(5) L(7) unfolding g1 by (simp add: sm_frame_def upd_sm_def Let_def H [symmetric])
  have co3: "coalesced ((xs @ [(k + 12, True)]) @ (?r, True) # ys)" using co by (auto simp: coalesced_append coalesced_Cons)
  have w: "unat (of_nat (?o + 12 + k) :: u32) = ?o + 12 + k" by (rule unat_small) (use lt k(3) in simp)
  have ptr: "heap_offset m ?mem s = of_nat ?o" by (simp add: H)
  have ptr2: "of_nat ?o + SIZEOF_STRUCT_MEM + of_nat k = (of_nat (?o + 12 + k) :: u32)" by simp
  have m2: "heap_item m (of_nat (?o + 12 + k)) ?s2 = ?mem2" unfolding heap_item_def by (simp only: w) (simp add: upd_sm_def H)
  obtain s' where s': "plug_holes m (H + cells_span (xs @ [(k + 12, True)])) ?s3 = Some s'"
    "sm_rep m (coalesce ((xs @ [(k + 12, True)]) @ (?r, False) # ys)) s'" "sm_frame m ?s3 s'"
    by (rule plug_holes_ok [OF _ co3 g3(1) [symmetric]]) (use lay3 in \<open>simp_all add: that\<close>)
  have eqm: "H + cells_span (xs @ [(k + 12, True)]) = ?mem2" by simp
  have "smem_shrink m ?mem (of_nat (n - 12)) (of_nat k) s = Some s'"
    unfolding smem_shrink_def Let_def ptr f(1) ptr2 m2 by (rule s'(1) [unfolded eqm])
  then show ?thesis using that s'(2) sm_frame_trans [OF fr3 s'(3)] by simp
qed

subsection \<open>Changing the size of a block\<close>

lemma sm_bytes_frame [simp]:
  "sm_cells m (s\<lparr>sm_bytes := b\<rparr>) = sm_cells m s" "sm_regions m (s\<lparr>sm_bytes := b\<rparr>) = sm_regions m s" "sm_inv m (s\<lparr>sm_bytes := b\<rparr>) = sm_inv m s"
  by (simp_all add: sm_cells_def sm_regions_def sm_inv_def sm_rep_def sm_layout_def heap_object_def rt_object_is_systemobject_def Let_def)

lemma sm_memcpy_bytes:
  assumes "region_bytes dst n \<inter> region_bytes src n = {}"
  shows "i < n \<Longrightarrow> sm_bytes (sm_memcpy dst src n s) (dst + i) = sm_bytes s (src + i)"
    "x \<notin> region_bytes dst n \<Longrightarrow> sm_bytes (sm_memcpy dst src n s) x = sm_bytes s x"
proof -
  have "forward_safe dst src n" using assms by (auto simp: forward_safe_def region_bytes_def Int_def set_eq_iff not_le not_less)
  then have "sm_bytes (sm_memcpy dst src n s) = copied dst src n (sm_bytes s)" by (simp add: sm_memcpy_def rt_memcpy_copied)
  then show "i < n \<Longrightarrow> sm_bytes (sm_memcpy dst src n s) (dst + i) = sm_bytes s (src + i)"
    "x \<notin> region_bytes dst n \<Longrightarrow> sm_bytes (sm_memcpy dst src n s) x = sm_bytes s x"
    by (auto simp: copied_def fill_def region_bytes_def)
qed

lemma rt_smem_realloc_eq:
  assumes inv: "sm_inv m s" and held: "sm_regions m s a = Some n" and nz: "nz = RT_ALIGN newsize RT_ALIGN_SIZE"
  shows "rt_smem_realloc m (Some a) newsize s =
    (if nz > sm_mem_size_aligned (small_mems s m) then Some (None, s)
     else if nz = 0 then do { s \<leftarrow> rt_smem_free (Some a) s; Some (None, s) }
     else if unat nz = n then Some (Some a, s)
     else if unat nz + 24 < n then do { s \<leftarrow> smem_shrink m (a - 12) (of_nat n) nz s; Some (Some a, s) }
     else smem_move m a (of_nat n) nz s)"
proof (cases "nz > sm_mem_size_aligned (small_mems s m)")
  case True
  then show ?thesis using heap_object_type [OF sm_invD(1) [OF inv]] nz by (simp add: rt_smem_realloc_def)
next
  case False
  let ?H = "sm_heap_ptr (small_mems s m)"
  obtain xs ys where cs: "sm_cells m s = xs @ (n + 12, True) # ys" and a: "a = ?H + cells_span xs + 12"
    by (rule region_cell [OF inv held], rule that)
  have lay: "sm_layout m (xs @ (n + 12, True) # ys) s" using sm_invD(3) [OF inv] unfolding cs .
  note L = sm_layoutD [OF lay]
  note C = cell_at [OF lay refl]
  have "4 dvd cells_span xs" using L(14) by (intro cells_span_dvd) simp
  then have b: "a mod 4 = 0" "?H \<le> a" "a < sm_heap_end (small_mems s m)" "12 \<le> a" "a - unat SIZEOF_STRUCT_MEM = ?H + cells_span xs"
    using L(4,7,14) unfolding a by (simp_all add: cell_ok_def)
  have size_eq: "smi_next (sm_items s (?H + cells_span xs)) - heap_offset m (?H + cells_span xs) s - SIZEOF_STRUCT_MEM = of_nat n"
    using C(1) by (simp add: cell_item_def)
  have w: "unat (of_nat n :: u32) = n" by (rule unat_small) (use L(5) in simp)
  have "unat nz \<le> unat (sm_mem_size_aligned (small_mems s m))" using False by (simp add: word_less_nat_alt)
  then have "unat nz + 24 < 2 ^ 32" using L(5,6,15) by simp
  then have w2: "unat (nz + SIZEOF_STRUCT_MEM + 12) = unat nz + 24" by (simp add: unat_word_ariths)
  have same: "of_nat n = nz \<longleftrightarrow> unat nz = n" unfolding word_unat_eq_iff w by auto
  have less: "nz + SIZEOF_STRUCT_MEM + 12 < of_nat n \<longleftrightarrow> unat nz + 24 < n" unfolding word_less_nat_alt w w2 ..
  show ?thesis
    using False b(1-4) heap_object_type [OF sm_invD(1) [OF inv]]
    unfolding rt_smem_realloc_def Let_def nz [symmetric] option.case b(5) size_eq same less by (simp add: b(5) [simplified])
qed

lemma realloc_shrink_ok:
  assumes inv: "sm_inv m s" and held: "sm_regions m s a = Some n" and k: "4 dvd k" "4 \<le> k" "k + 24 < n"
  obtains s' where "smem_shrink m (a - 12) (of_nat n) (of_nat k) s = Some s'" "sm_inv m s'" "sm_regions m s' = (sm_regions m s)(a \<mapsto> k)"
    "sm_bytes s' = sm_bytes s"
proof -
  let ?H = "sm_heap_ptr (small_mems s m)"
  obtain xs ys where cs: "sm_cells m s = xs @ (n + 12, True) # ys" and a: "a = ?H + cells_span xs + 12"
    by (rule region_cell [OF inv held], rule that)
  let ?cs = "xs @ (k + 12, True) # (n + 12 - (k + 12), False) # ys"
  have k': "k + 36 < n + 12" using k(3) by simp
  obtain s' where s': "smem_shrink m (?H + cells_span xs) (of_nat (n + 12 - 12)) (of_nat k) s = Some s'" "sm_rep m (coalesce ?cs) s'" "sm_frame m s s'"
    by (rule smem_shrink_ok [OF sm_invD(2) [OF inv, unfolded cs] k(1,2) k' refl], rule that)
  have i: "sm_inv m s'" "sm_cells m s' = coalesce ?cs" using sm_inv_frame [OF inv s'(3,2)] by simp_all
  have ok: "\<forall>c\<in>set (xs @ (n + 12, True) # ys). cell_ok c" using sm_invD(5) [OF inv] unfolding cs .
  then have ok1: "\<forall>c\<in>set xs \<union> set ys. cell_ok c" by simp
  moreover have "4 dvd n + 12" using ok by (simp add: cell_ok_def)
  then have "4 dvd n - k" using k(1,3) by presburger
  ultimately have ok': "\<forall>c\<in>set ?cs. cell_ok c" using k by (auto simp: cell_ok_def [of "(_, _)"])
  have "cell_regions ?H (coalesce ?cs) = (cell_regions ?H (xs @ (n + 12, True) # ys))(a \<mapsto> k)"
    unfolding coalesce_regions [OF ok'] cell_regions_append [OF ok] cell_regions_append [OF ok'] using k(3) by (simp add: a ac_simps)
  then have "sm_regions m s' = (sm_regions m s)(a \<mapsto> k)" by (simp add: sm_regions_def i(2) cs sm_frameD(6) [OF s'(3)])
  moreover have "a - 12 = ?H + cells_span xs" by (simp add: a)
  ultimately show ?thesis using that s'(1) i(1) sm_frameD(4) [OF s'(3)] by simp
qed

lemma align_bound: "RT_ALIGN (x :: u32) RT_ALIGN_SIZE \<le> 0xfffffffc"
proof -
  let ?y = "unat (RT_ALIGN x RT_ALIGN_SIZE)"
  have "?y < 2 ^ LENGTH(32)" by (rule unsigned_less)
  then have "?y < 4294967296" by simp
  then have "?y \<le> 4294967292" using align_dvd [of x] by presburger
  then show ?thesis by (simp add: word_le_nat_alt)
qed

lemma realloc_move_ok:
  assumes inv: "sm_inv m s" and held: "sm_regions m s a = Some n" and nz: "unat nz \<le> request_bytes nz"
  shows "\<exists>r s'. smem_move m a (of_nat n) nz s = Some (r, s') \<and> sm_inv m s' \<and>
    (case r of
       None \<Rightarrow> sm_regions m s' = sm_regions m s \<and> sm_bytes s' = sm_bytes s
     | Some b \<Rightarrow> sm_regions m s b = None \<and>
         (\<exists>l\<ge>unat nz. sm_regions m s' = (sm_regions m s)(a := None, b \<mapsto> l) \<and> (\<forall>x. x \<notin> region_bytes b l \<longrightarrow> sm_bytes s' x = sm_bytes s x)) \<and>
         (\<forall>i<min n (unat nz). sm_bytes s' (b + i) = sm_bytes s (a + i)))"
proof -
  obtain r s1 where s1: "rt_smem_alloc m nz s = Some (r, s1)" "sm_inv m s1" "sm_frame m s s1"
    "case r of None \<Rightarrow> sm_regions m s1 = sm_regions m s
     | Some b \<Rightarrow> sm_regions m s b = None \<and> (\<exists>l\<ge>request_bytes nz. sm_regions m s1 = (sm_regions m s)(b \<mapsto> l))"
    using sm_request_ok [OF inv, of nz] by blast
  obtain xs ys where cs: "sm_cells m s = xs @ (n + 12, True) # ys" by (rule region_cell [OF inv held], rule that)
  have "unat (of_nat n :: u32) = n" by (rule unat_small) (use sm_layoutD(5) [OF sm_invD(3) [OF inv]] cs in simp)
  then have mini: "unat (if of_nat n < nz then of_nat n else nz) = min n (unat nz)" by (simp add: word_less_nat_alt)
  have bytes: "sm_bytes s1 = sm_bytes s" by (rule sm_frameD(4) [OF s1(3)])
  show ?thesis
  proof (cases r)
    case None
    then show ?thesis using s1 bytes by (simp add: smem_move_def)
  next
    case (Some b)
    let ?c = "min n (unat nz)" and ?s2 = "sm_memcpy b a (min n (unat nz)) s1"
    obtain l where l: "sm_regions m s b = None" "request_bytes nz \<le> l" "sm_regions m s1 = (sm_regions m s)(b \<mapsto> l)" using s1(4) Some by auto
    have ab: "a \<noteq> b" using held l(1) by auto
    have "sm_inv m ?s2" "sm_regions m ?s2 = (sm_regions m s)(b \<mapsto> l)" "sm_regions m ?s2 a = Some n"
      using s1(2) l(3) held ab by (simp_all add: sm_memcpy_def)
    note two = this
    obtain s3 where s3: "rt_smem_free (Some a) ?s2 = Some s3" "sm_inv m s3" "sm_regions m s3 = (sm_regions m ?s2)(a := None)" "sm_frame m ?s2 s3"
      by (rule sm_release_ok [OF two(1,3)], rule that)
    have b3: "sm_bytes s3 = sm_bytes ?s2" by (rule sm_frameD(4) [OF s3(4)])
    have sub: "region_bytes b ?c \<subseteq> region_bytes b l" "region_bytes a ?c \<subseteq> region_bytes a n" using nz l(2) by (auto simp: region_bytes_def)
    have "region_bytes b l \<inter> region_bytes a n = {}"
      by (rule regions_disjointD [OF smem.disjoint [OF s1(2)]]) (use held ab l(3) in auto)
    then have apart: "region_bytes b ?c \<inter> region_bytes a ?c = {}" using sub by blast
    have "\<forall>x. x \<notin> region_bytes b l \<longrightarrow> sm_bytes s3 x = sm_bytes s x" using sub(1) sm_memcpy_bytes(2) [OF apart, of _ s1] bytes b3 by auto
    moreover have "sm_regions m s3 = (sm_regions m s)(a := None, b \<mapsto> l)" unfolding s3(3) two(2) using ab by (simp add: fun_upd_twist)
    moreover have "\<forall>i<?c. sm_bytes s3 (b + i) = sm_bytes s (a + i)" using sm_memcpy_bytes(1) [OF apart, of _ s1] bytes b3 by simp
    moreover have "unat nz \<le> l" using nz l(2) by simp
    moreover have "smem_move m a (of_nat n) nz s = Some (Some b, s3)" unfolding smem_move_def mini using s1(1) s3(1) Some by simp
    ultimately show ?thesis using s3(2) l(1) by (intro exI [of _ "Some b"] exI [of _ s3]) auto
  qed
qed

text \<open>
  C13. Changing the size of an allocated block. \<^verbatim>\<open>rt_smem_realloc\<close> returns for every new size (one that rounding up does not wrap
  around). Size 0 frees the block. NULL for another size means that there is no room: the block and all bytes are as before.
  Otherwise the result is a block of at least the new size, either the old block or memory that was not allocated, which replaces
  the old block; it begins with the bytes of the old block up to the smaller of the two sizes, other blocks stay
  allocated, and no byte outside the result changes.
\<close>

theorem rt_smem_realloc_correct:
  assumes inv: "sm_inv m s" and held: "sm_regions m s a = Some n" and nw: "newsize \<le> 0xfffffffc"
  shows "\<exists>r s'. rt_smem_realloc m (Some a) newsize s = Some (r, s') \<and> sm_inv m s' \<and>
    (case r of
       None \<Rightarrow> sm_bytes s' = sm_bytes s \<and> sm_regions m s' = (if newsize = 0 then (sm_regions m s)(a := None) else sm_regions m s)
     | Some b \<Rightarrow> newsize \<noteq> 0 \<and> (b = a \<or> sm_regions m s b = None) \<and>
         (\<exists>l\<ge>unat newsize. sm_regions m s' = (sm_regions m s)(a := None, b \<mapsto> l) \<and> (\<forall>x. x \<notin> region_bytes b l \<longrightarrow> sm_bytes s' x = sm_bytes s x)) \<and>
         (\<forall>i<min n (unat newsize). sm_bytes s' (b + i) = sm_bytes s (a + i)))"
proof -
  define nz where "nz = RT_ALIGN newsize RT_ALIGN_SIZE"
  have k: "unat newsize \<le> unat nz" "4 dvd unat nz" "newsize = 0 \<longleftrightarrow> nz = 0"
  proof -
    have eq: "unat nz = 4 * ((unat newsize + 3) div 4)" unfolding nz_def by (rule unat_align [OF nw])
    show "unat newsize \<le> unat nz" "4 dvd unat nz" using eq by simp_all
    have "unat newsize = 0 \<longleftrightarrow> unat nz = 0" using eq by auto
    then show "newsize = 0 \<longleftrightarrow> nz = 0" by (simp add: unat_eq_zero)
  qed
  have upd: "(sm_regions m s)(a := None, a \<mapsto> l) = (sm_regions m s)(a \<mapsto> l)" "(sm_regions m s)(a \<mapsto> n) = sm_regions m s" for l
    using held by (simp_all add: fun_upd_idem)
  note eq = rt_smem_realloc_eq [OF inv held nz_def]
  consider "nz > sm_mem_size_aligned (small_mems s m)" | "\<not> nz > sm_mem_size_aligned (small_mems s m)" "nz = 0"
    | "\<not> nz > sm_mem_size_aligned (small_mems s m)" "nz \<noteq> 0" "unat nz = n"
    | "\<not> nz > sm_mem_size_aligned (small_mems s m)" "nz \<noteq> 0" "unat nz + 24 < n"
    | "\<not> nz > sm_mem_size_aligned (small_mems s m)" "nz \<noteq> 0" "unat nz \<noteq> n" "\<not> unat nz + 24 < n" by blast
  then show ?thesis
  proof cases
    case 1
    then show ?thesis using eq inv k(3) by auto
  next
    case 2
    obtain s' where s': "rt_smem_free (Some a) s = Some s'" "sm_inv m s'" "sm_regions m s' = (sm_regions m s)(a := None)" "sm_frame m s s'"
      by (rule sm_release_ok [OF inv held], rule that)
    then show ?thesis using eq 2 k(3) sm_frameD(4) [OF s'(4)] by simp
  next
    case 3
    then show ?thesis using eq inv k upd by (intro exI [of _ "Some a"] exI [of _ s]) auto
  next
    case 4
    have four: "4 \<le> unat nz" using 4(2) k(2) by (metis dvd_imp_le neq0_conv unat_eq_zero)
    obtain s' where s': "smem_shrink m (a - 12) (of_nat n) (of_nat (unat nz)) s = Some s'" "sm_inv m s'"
      "sm_regions m s' = (sm_regions m s)(a \<mapsto> unat nz)" "sm_bytes s' = sm_bytes s"
      by (rule realloc_shrink_ok [OF inv held k(2) four 4(3)], rule that)
    then show ?thesis using eq 4 k upd by (intro exI [of _ "Some a"] exI [of _ s']) auto
  next
    case 5
    have "unat nz \<le> request_bytes nz" using nz_def nw align_bound [of newsize] by (intro request_bytes_ok(3)) simp
    then obtain r s' where s': "smem_move m a (of_nat n) nz s = Some (r, s')" "sm_inv m s'"
      "case r of
         None \<Rightarrow> sm_regions m s' = sm_regions m s \<and> sm_bytes s' = sm_bytes s
       | Some b \<Rightarrow> sm_regions m s b = None \<and>
           (\<exists>l\<ge>unat nz. sm_regions m s' = (sm_regions m s)(a := None, b \<mapsto> l) \<and> (\<forall>x. x \<notin> region_bytes b l \<longrightarrow> sm_bytes s' x = sm_bytes s x)) \<and>
           (\<forall>i<min n (unat nz). sm_bytes s' (b + i) = sm_bytes s (a + i))"
      using realloc_move_ok [OF inv held] by blast
    then show ?thesis using eq 5 k by (intro exI [of _ r] exI [of _ s']) (cases r; auto intro: order_trans)
  qed
qed

theorem rt_smem_realloc_correct_witness:
  "\<exists>r s'. rt_smem_realloc 4096 (Some 4188) 20 demo_heap = Some (r, s') \<and> sm_inv 4096 s' \<and>
    (case r of
       None \<Rightarrow> sm_bytes s' = sm_bytes demo_heap \<and> sm_regions 4096 s' = sm_regions 4096 demo_heap
     | Some b \<Rightarrow> (\<exists>l\<ge>20. sm_regions 4096 s' = [4164 \<mapsto> 12, b \<mapsto> l]) \<and> sm_bytes s' (b + 19) = sm_bytes demo_heap (4188 + 19))"
proof -
  have r: "sm_regions 4096 demo_heap 4188 = Some 52" "(sm_regions 4096 demo_heap)(4188 := None) = [4164 \<mapsto> 12]"
    by (simp_all add: demo_heap_regions)
  have n: "(20 :: u32) \<le> 0xfffffffc" "unat (20 :: u32) = 20" "(20 :: u32) \<noteq> 0" by simp_all
  show ?thesis
    using rt_smem_realloc_correct [OF demo_heap_inv(1) r(1) n(1)] unfolding r(2) n(2)
    by (elim exE conjE) (intro exI conjI, assumption, assumption, auto split: option.splits)
qed

subsection \<open>Setting up a heap\<close>

lemma kinv_clear_heap:
  assumes "kinv s" "\<not> live s (OMemory m)"
  shows "kinv (clear_struct (OMemory m) s)" "live (clear_struct (OMemory m) s) = live s"
proof -
  have "kinv (upd_obj (OMemory m) (\<lambda>_. zero_obj) s)"
    by (rule kinv_objs_cong [OF assms(1), where x = "OMemory m"])
      (use assms kinvD(3,4) [OF assms(1)] waiters_none [OF assms(1) no_waiters [OF assms]] in \<open>auto simp: upd_obj_def obj_ok_def live_def zero_obj_def\<close>)
  then show "kinv (clear_struct (OMemory m) s)" "live (clear_struct (OMemory m) s) = live s" by (simp_all add: clear_struct_def Let_def)
qed

text \<open>
  Setting up a heap on the memory from \<open>begin_addr\<close> with \<open>sz\<close> bytes. When the memory, after rounding its ends to multiples of 4, holds the structure of the heap,
  two headers and twelve bytes, \<^verbatim>\<open>rt_smem_init\<close> returns the heap at the first aligned address; it has its invariant, is one free cell,
  nothing in it is allocated, and it ends where the memory ends.
\<close>

theorem rt_smem_init_correct:
  fixes begin_addr sz :: u32
  defines "m \<equiv> 4 * ((unat begin_addr + 3) div 4)" and "e \<equiv> 4 * ((unat begin_addr + unat sz) div 4)"
  assumes inv: "kinv s" and fresh: "\<not> live s (OMemory m)" and name: "readable RT_NAME_MAX name"
    and mem: "0 < begin_addr" "unat begin_addr + unat sz < 2 ^ 32" "m + 92 \<le> e"
  shows "\<exists>s'. rt_smem_init name begin_addr sz s = Some (Some m, s') \<and> sm_inv m s' \<and> sm_cells m s' = [(e - m - 68, False)] \<and>
    sm_regions m s' = Map.empty \<and> sm_heap_end (small_mems s' m) + 12 = e \<and> unat (sm_total (small_mems s' m)) = e - m - 80"
proof -
  let ?m = "RT_ALIGN begin_addr RT_ALIGN_SIZE" and ?e = "RT_ALIGN_DOWN (begin_addr + sz) RT_ALIGN_SIZE" and ?x = "OMemory m"
  have "begin_addr \<le> 0xfffffffc" using mem(2,3) unfolding m_def e_def by (simp add: word_le_nat_alt)
  then have um: "unat ?m = m" unfolding m_def by (rule unat_align)
  have "unat (begin_addr + sz) = unat begin_addr + unat sz" using mem(2) by (simp add: unat_word_ariths)
  then have ue: "unat ?e = e" unfolding e_def unat_align_down by simp
  have e: "e < 2 ^ 32" using mem(2) unfolding e_def by simp
  have m: "0 < m" "4 dvd m" "4 dvd e" using mem(1) unfolding m_def e_def by (simp_all add: word_less_nat_alt)
  have us: "unat (?m + 56) = m + 56" using um e mem(3) by (simp add: unat_word_ariths)
  have "?m + 56 \<le> 0xfffffffc" using us e mem(3) by (simp add: word_le_nat_alt)
  then have "unat (RT_ALIGN (?m + 56) RT_ALIGN_SIZE) = 4 * ((m + 56 + 3) div 4)" using unat_align us by simp
  then have ub: "unat (RT_ALIGN (?m + 56) RT_ALIGN_SIZE) = m + 56" using m(2) by presburger
  have d: "24 \<le> e - (m + 56)" "m + 56 \<le> e" "e - (m + 56) - 24 = e - m - 80" "m + 56 + (e - m - 68) = e - 12" "e - m - 68 = e - m - 80 + 12"
    using mem(3) by linarith+
  define z where "z = ?e - RT_ALIGN (?m + 56) RT_ALIGN_SIZE - 2 * SIZEOF_STRUCT_MEM"
  have usz: "unat z = e - m - 80" unfolding z_def using ub ue d by (simp add: unat_sub_if')
  have cond: "?e > 2 * SIZEOF_STRUCT_MEM" "?e - 2 * SIZEOF_STRUCT_MEM \<ge> ?m + 56"
    using ue us mem(3) by (simp_all add: word_less_nat_alt word_le_nat_alt unat_sub_if')
  let ?s0 = "clear_struct ?x s"
  note k0 = kinv_clear_heap [OF inv fresh]
  have fresh0: "\<not> live ?s0 ?x" using fresh k0(2) by simp
  obtain s1 where s1: "rt_object_init ?x (class_of ?x) name ?s0 = Some s1" "kinv s1" "live s1 ?x" "is_static s1 ?x"
    by (rule ipc_init_ok [OF k0(1) _ fresh0 name], simp, rule that)
  have h1: "small_mems s1 m = zero_small_mem"
    using object_init_frame(3) [OF k0(1) fresh0 name s1(1)] by (simp add: clear_struct_def Let_def)
  define h where "h = \<lparr>sm_address = m + 56, sm_total = z, sm_used = 0, sm_max = 0, sm_heap_ptr = m + 56, sm_heap_end = e - 12,
      sm_lfree = m + 56, sm_mem_size_aligned = z\<rparr>"
  let ?i = "(sm_items s1)(m + 56 := \<lparr>smi_pool_ptr = MEM_FREED m, smi_next = z + 12, smi_prev = 0\<rparr>,
      e - 12 := \<lparr>smi_pool_ptr = MEM_USED m, smi_next = z + 12, smi_prev = z + 12\<rparr>)"
  define s' where "s' = s1\<lparr>sm_items := ?i, small_mems := (small_mems s1)(m := h)\<rparr>"
  have e12: "m + 56 + unat (z + 12) = e - 12"
  proof -
    have "unat (z + 12) = unat z + 12" using usz e by (subst unat_word_ariths) simp
    then show ?thesis using usz d(4,5) by simp
  qed
  have ne: "e - 12 \<noteq> m + 56" "m + 56 \<noteq> e - 12" using mem(3) by linarith+
  have init: "rt_smem_init name begin_addr sz s = Some (Some m, s')"
  proof -
    have obj: "rt_object_init (OMemory m) RT_Object_Class_Memory name ?s0 = Some s1" using s1(1) by (simp add: class_of_def)
    show ?thesis
      unfolding rt_smem_init_def Let_def um ub if_P [OF conjI [OF cond]] obj Option.bind.simps upd_sm_def upd_item_def heap_item_def s'_def h_def z_def [symmetric]
      by (rule arg_cong [where f = Some], simp add: h1 zero_small_mem_def e12 ne) 
  qed
  have z12: "z + 12 = of_nat (e - m - 68)" unfolding d(5) using usz by (metis of_nat_add of_nat_numeral of_nat_unat ucast_id)
  have "4 dvd e - m - 68" using m(2,3) mem(3) by presburger
  then have ok: "cell_ok (e - m - 68, False)" using mem(3) by (simp add: cell_ok_def)
  have f: "sm_heap_ptr (small_mems s' m) = m + 56" "sm_heap_end (small_mems s' m) = e - 12" "sm_mem_size_aligned (small_mems s' m) = z"
    "sm_lfree (small_mems s' m) = m + 56" "sm_used (small_mems s' m) = 0" "sm_max (small_mems s' m) = 0" "sm_total (small_mems s' m) = z"
    by (simp_all add: s'_def h_def)
  have it: "sm_items s' (m + 56) = cell_item m False (e - m - 68) 0" "smi_pool_ptr (sm_items s' (e - 12)) = MEM_USED m"
    "smi_next (sm_items s' (e - 12)) = of_nat (e - m - 68)"
    using ne by (simp_all add: s'_def cell_item_def z12)
  have lay: "sm_layout m [(e - m - 68, False)] s'"
    unfolding sm_layout_def Let_def f using it ok m e usz d mem(3) by simp
  have k: "heap_object m s'" using s1(2-4) by (simp add: heap_object_def s'_def rt_object_is_systemobject_def is_static_def)
  have "12 \<le> z" using usz mem(3) by (simp add: word_le_nat_alt)
  then have "sm_inv m s'" "sm_cells m s' = [(e - m - 68, False)]"
    using sm_invI [OF k, of "[(e - m - 68, False)]"] lay by (simp_all add: sm_rep_def coalesced_def f)
  then show ?thesis using init usz f mem(3) by (simp add: sm_regions_def)
qed

theorem rt_smem_init_correct_witness:
  "\<exists>s'. rt_smem_init [104, 0] 8190 203 (demo 3) = Some (Some 8192, s') \<and> sm_inv 8192 s' \<and> sm_cells 8192 s' = [(132, False)] \<and>
    sm_regions 8192 s' = Map.empty \<and> sm_heap_end (small_mems s' 8192) + 12 = 8392"
proof -
  have pre: "kinv (demo 3)" "\<not> live (demo 3) (OMemory 8192)" "readable RT_NAME_MAX [104, 0]"
    by (simp_all add: demo_kinv demo_live_iff demo_live_def readable_def)
  show ?thesis using rt_smem_init_correct [of "demo 3" 8190 "[104, 0]" 203] pre by auto
qed

text \<open>Memory that is too small is refused.\<close>

lemma rt_smem_init_too_small:
  fixes begin_addr sz :: u32
  defines "m \<equiv> 4 * ((unat begin_addr + 3) div 4)" and "e \<equiv> 4 * ((unat begin_addr + unat sz) div 4)"
  assumes mem: "begin_addr \<le> 0xffffffc0" "unat begin_addr + unat sz < 2 ^ 32" "e < m + 80"
  shows "rt_smem_init name begin_addr sz s = Some (None, s)"
proof -
  let ?m = "RT_ALIGN begin_addr RT_ALIGN_SIZE" and ?e = "RT_ALIGN_DOWN (begin_addr + sz) RT_ALIGN_SIZE"
  have um: "unat ?m = m" unfolding m_def using mem(1) by (intro unat_align) (simp add: word_le_nat_alt)
  have "m + 56 < 2 ^ 32" using mem(1) unfolding m_def by (simp add: word_le_nat_alt)
  then have us: "unat (?m + 56) = m + 56" using um by (simp add: unat_word_ariths)
  have "unat (begin_addr + sz) = unat begin_addr + unat sz" using mem(2) by (simp add: unat_word_ariths)
  then have ue: "unat ?e = e" unfolding e_def unat_align_down by simp
  have "\<not> (?e > 2 * SIZEOF_STRUCT_MEM \<and> ?e - 2 * SIZEOF_STRUCT_MEM \<ge> ?m + 56)"
    using ue us mem(3) by (auto simp: word_less_nat_alt word_le_nat_alt unat_sub_if')
  then show ?thesis unfolding rt_smem_init_def Let_def by (simp only: if_False)
qed

subsection \<open>The system heap\<close>

lemma sm_memset0_bytes:
  "i < n \<Longrightarrow> sm_bytes (sm_memset0 dst n s) (dst + i) = 0" "x \<notin> region_bytes dst n \<Longrightarrow> sm_bytes (sm_memset0 dst n s) x = sm_bytes s x"
  by (auto simp: sm_memset0_def rt_memset_fill fill_def region_bytes_def)

text \<open>
  \<^verbatim>\<open>rt_calloc\<close> on the system heap, when the product of its arguments does not overflow: it returns NULL and changes nothing that is allocated, or
  a new block, disjoint from everything that was allocated, with room for all objects, whose bytes are zero; no byte outside the block
  changes.
\<close>

theorem rt_calloc_correct:
  assumes inv: "sm_inv m s" and hp: "system_heap s = Some m" and prod: "unat count * unat sz \<le> 0xfffffffc"
  shows "\<exists>r s'. rt_calloc count sz s = Some (r, s') \<and> sm_inv m s' \<and> system_heap s' = Some m \<and> regions_disjoint (sm_regions m s') \<and>
    (case r of
       None \<Rightarrow> sm_regions m s' = sm_regions m s \<and> sm_bytes s' = sm_bytes s
     | Some b \<Rightarrow> sm_regions m s b = None \<and>
         (\<exists>l\<ge>unat count * unat sz. sm_regions m s' = (sm_regions m s)(b \<mapsto> l) \<and> (\<forall>x. x \<notin> region_bytes b l \<longrightarrow> sm_bytes s' x = sm_bytes s x)) \<and>
         (\<forall>i<unat count * unat sz. sm_bytes s' (b + i) = 0))"
proof -
  have n: "unat (count * sz) = unat count * unat sz" using prod by (simp add: unat_word_ariths)
  then have "count * sz \<le> 0xfffffffc" using prod by (simp add: word_le_nat_alt)
  then have enough: "unat count * unat sz \<le> request_bytes (count * sz)" using request_bytes_ok(3) [of "count * sz"] n by simp
  obtain r s1 where s1: "rt_smem_alloc m (count * sz) s = Some (r, s1)" "sm_inv m s1" "sm_frame m s s1"
    "case r of None \<Rightarrow> sm_regions m s1 = sm_regions m s
     | Some b \<Rightarrow> sm_regions m s b = None \<and> (\<exists>l\<ge>request_bytes (count * sz). sm_regions m s1 = (sm_regions m s)(b \<mapsto> l))"
    using sm_request_ok [OF inv, of "count * sz"] by blast
  have fr: "sm_bytes s1 = sm_bytes s" "system_heap s1 = Some m" using sm_frameD(4,5) [OF s1(3)] hp by simp_all
  have dis: "regions_disjoint (sm_regions m s1)" by (rule smem.disjoint [OF s1(2)])
  show ?thesis
  proof (cases r)
    case None
    then show ?thesis using s1 fr dis hp by (simp add: rt_calloc_def rt_malloc_def)
  next
    case (Some b)
    let ?s' = "sm_memset0 b (unat (count * sz)) s1"
    obtain l where l: "sm_regions m s b = None" "request_bytes (count * sz) \<le> l" "sm_regions m s1 = (sm_regions m s)(b \<mapsto> l)" using s1(4) Some by auto
    have same: "sm_inv m ?s'" "system_heap ?s' = Some m" "sm_regions m ?s' = (sm_regions m s)(b \<mapsto> l)" "regions_disjoint (sm_regions m ?s')"
      using s1(2) fr(2) l(3) dis by (simp_all add: sm_memset0_def)
    have "region_bytes b (unat (count * sz)) \<subseteq> region_bytes b l" using enough l(2) n by (auto simp: region_bytes_def)
    then have "\<forall>x. x \<notin> region_bytes b l \<longrightarrow> sm_bytes ?s' x = sm_bytes s x" using sm_memset0_bytes(2) [of _ b "unat (count * sz)" s1] fr(1) by auto
    moreover have "\<forall>i<unat count * unat sz. sm_bytes ?s' (b + i) = 0" using sm_memset0_bytes(1) n by simp
    moreover have "rt_calloc count sz s = Some (Some b, ?s')" using s1(1) hp Some by (simp add: rt_calloc_def rt_malloc_def)
    moreover have "unat count * unat sz \<le> l" using enough l(2) by simp
    ultimately show ?thesis using same l(1) by (intro exI [of _ "Some b"] exI [of _ ?s']) auto
  qed
qed

theorem rt_calloc_correct_witness:
  "\<exists>r s'. rt_calloc 3 4 demo_heap = Some (r, s') \<and> sm_inv 4096 s' \<and>
    (case r of None \<Rightarrow> sm_regions 4096 s' = sm_regions 4096 demo_heap
     | Some b \<Rightarrow> b \<noteq> 4164 \<and> b \<noteq> 4188 \<and> sm_bytes s' (b + 11) = 0)"
proof -
  have n: "unat (3 :: u32) * unat (4 :: u32) \<le> 0xfffffffc" "unat (3 :: u32) * unat (4 :: u32) = 12" by simp_all
  have h: "system_heap demo_heap = Some 4096" by (simp add: demo_heap_def)
  have "sm_regions 4096 demo_heap b = None \<Longrightarrow> b \<noteq> 4164 \<and> b \<noteq> 4188" for b by (auto simp: demo_heap_regions split: if_splits)
  with rt_calloc_correct [OF demo_heap_inv(1) h n(1)] show ?thesis
    unfolding n(2) by (elim exE conjE) (intro exI conjI, assumption, assumption, auto split: option.splits)
qed

lemma mem_strlen_eq:
  "f (p + k) = 0 \<Longrightarrow> (\<And>i. i < k \<Longrightarrow> f (p + i) \<noteq> 0) \<Longrightarrow> mem_strlen p n f = Some (n + k)"
proof (induction k arbitrary: p n)
  case (Suc k)
  have "mem_strlen (p + 1) (n + 1) f = Some (n + 1 + k)" by (rule Suc(1)) (use Suc(2) Suc(3) [of "Suc i" for i] in auto)
  then show ?case using Suc(3) [of 0] by (subst mem_strlen.simps) simp
qed (simp add: mem_strlen.simps)

text \<open>
  \<^verbatim>\<open>rt_strdup\<close> of a string of \<open>k\<close> characters in an allocated block returns NULL and changes nothing that is allocated, or a
  new block that holds the same string with its zero.
\<close>

lemma rt_strdup_correct:
  assumes inv: "sm_inv m s" and hp: "system_heap s = Some m" and held: "sm_regions m s a = Some n" "a \<le> p" "p + k < a + n"
    and str: "sm_bytes s (p + k) = 0" "\<And>i. i < k \<Longrightarrow> sm_bytes s (p + i) \<noteq> 0"
  shows "\<exists>r s'. rt_strdup p s = Some (r, s') \<and> sm_inv m s' \<and> system_heap s' = Some m \<and>
    (case r of
       None \<Rightarrow> sm_regions m s' = sm_regions m s \<and> sm_bytes s' = sm_bytes s
     | Some b \<Rightarrow> sm_regions m s b = None \<and>
         (\<exists>l>k. sm_regions m s' = (sm_regions m s)(b \<mapsto> l) \<and> (\<forall>x. x \<notin> region_bytes b l \<longrightarrow> sm_bytes s' x = sm_bytes s x)) \<and>
         (\<forall>i\<le>k. sm_bytes s' (b + i) = sm_bytes s (p + i)))"
proof -
  let ?len = "of_nat k + 1 :: u32"
  obtain xs ys where cs: "sm_cells m s = xs @ (n + 12, True) # ys" by (rule region_cell [OF inv held(1)], rule that)
  have small: "k + 5 < 2 ^ 32" using sm_layoutD(5) [OF sm_invD(3) [OF inv]] cs held(2,3) by simp
  have "?len = of_nat (k + 1)" by simp
  then have len: "unat ?len = k + 1" using unat_small [of "k + 1"] small by (simp add: add.commute)
  have "?len \<le> 0xfffffffc" using len small by (simp add: word_le_nat_alt)
  then have enough: "k < request_bytes ?len" using request_bytes_ok(3) [of ?len] len by simp
  obtain r s1 where s1: "rt_smem_alloc m ?len s = Some (r, s1)" "sm_inv m s1" "sm_frame m s s1"
    "case r of None \<Rightarrow> sm_regions m s1 = sm_regions m s
     | Some b \<Rightarrow> sm_regions m s b = None \<and> (\<exists>l\<ge>request_bytes ?len. sm_regions m s1 = (sm_regions m s)(b \<mapsto> l))"
    using sm_request_ok [OF inv, of ?len] by blast
  have fr: "sm_bytes s1 = sm_bytes s" "system_heap s1 = Some m" using sm_frameD(4,5) [OF s1(3)] hp by simp_all
  have strlen: "mem_strlen p 0 (sm_bytes s) = Some k" using mem_strlen_eq [of "sm_bytes s" p k 0] str by simp
  show ?thesis
  proof (cases r)
    case None
    then show ?thesis using s1 fr hp strlen by (simp add: rt_strdup_def rt_malloc_def)
  next
    case (Some b)
    let ?s' = "sm_memcpy b p (unat ?len) s1"
    obtain l where l: "sm_regions m s b = None" "request_bytes ?len \<le> l" "sm_regions m s1 = (sm_regions m s)(b \<mapsto> l)" using s1(4) Some by auto
    have "region_bytes b l \<inter> region_bytes a n = {}"
      by (rule regions_disjointD [OF smem.disjoint [OF s1(2)]]) (use held(1) l in auto)
    moreover have sub: "region_bytes b (unat ?len) \<subseteq> region_bytes b l" "region_bytes p (unat ?len) \<subseteq> region_bytes a n"
      using enough l(2) len held(2,3) by (auto simp: region_bytes_def)
    ultimately have apart: "region_bytes b (unat ?len) \<inter> region_bytes p (unat ?len) = {}" by blast
    have "\<forall>x. x \<notin> region_bytes b l \<longrightarrow> sm_bytes ?s' x = sm_bytes s x" using sub(1) sm_memcpy_bytes(2) [OF apart, of _ s1] fr(1) by auto
    moreover have "\<forall>i\<le>k. sm_bytes ?s' (b + i) = sm_bytes s (p + i)" using sm_memcpy_bytes(1) [OF apart, of _ s1] len fr(1) by simp
    moreover have "sm_inv m ?s'" "system_heap ?s' = Some m" "sm_regions m ?s' = (sm_regions m s)(b \<mapsto> l)"
      using s1(2) fr(2) l(3) by (simp_all add: sm_memcpy_def)
    moreover have "rt_strdup p s = Some (Some b, ?s')" using s1(1) hp Some strlen by (simp add: rt_strdup_def rt_malloc_def)
    moreover have "k < l" using enough l(2) by simp
    ultimately show ?thesis using l(1) by (intro exI [of _ "Some b"] exI [of _ ?s']) auto
  qed
qed

lemma rt_memory_info_eq:
  "sm_inv m s \<Longrightarrow> system_heap s = Some m \<Longrightarrow>
   rt_memory_info s = Some (sm_total (small_mems s m), of_nat (used_bytes (sm_cells m s)), sm_max (small_mems s m))"
  using sm_layoutD(12) [OF sm_invD(3)] by (simp add: rt_memory_info_def)

subsection \<open>Aligned blocks\<close>

lemma load_store_word: "load_word a (store_word a w s) = w"
  by (simp add: load_word_def store_word_def load_store_long)

lemma load_word_cong: "(\<And>x. a \<le> x \<Longrightarrow> x < a + 4 \<Longrightarrow> sm_bytes s' x = sm_bytes s x) \<Longrightarrow> load_word a s' = load_word a s"
  by (simp add: load_word_def load_long_def)

lemma unat_and_not_mask: "unat ((x :: u32) AND NOT (mask j)) = 2 ^ j * (unat x div 2 ^ j)"
proof -
  have "x AND NOT (mask j) = push_bit j (drop_bit j x)" by (rule bit_word_eqI) (auto simp: bit_simps not_less)
  moreover have "unat (push_bit j (drop_bit j x)) = take_bit 32 (push_bit j (drop_bit j (unat x)))"
  proof -
    have "unat x < 2 ^ LENGTH(32)" by (rule unsigned_less)
    then have "take_bit 32 (unat x) = unat x" by (simp add: take_bit_nat_eq_self)
    then show ?thesis by (simp add: unsigned_push_bit_eq unsigned_drop_bit_eq)
  qed
  moreover have "push_bit j (drop_bit j (unat x)) = 2 ^ j * (unat x div 2 ^ j)" by (simp add: push_bit_eq_mult drop_bit_eq_div)
  moreover have "2 ^ j * (unat x div 2 ^ j) < 2 ^ LENGTH(32)"
    by (rule le_less_trans [OF times_div_less_eq_dividend unsigned_less])
  ultimately show ?thesis by (simp add: take_bit_nat_eq_self)
qed

lemma align_ptr_ok:
  fixes p al :: u32
  assumes b: "4 dvd b" "b + 2 ^ j < 2 ^ 32" and j: "2 \<le> j" and p: "p = of_nat b" and al: "al = 2 ^ j"
  defines "q \<equiv> if p AND (al - 1) = 0 then p + al else (p + (al - 1)) AND NOT (al - 1)"
  shows "2 ^ j dvd unat q" "b + 4 \<le> unat q" "unat q \<le> b + 2 ^ j"
proof -
  have m: "al - 1 = mask j" by (simp add: al mask_eq_exp_minus_1)
  have ub: "unat p = b" unfolding p using b(2) by (intro unat_small) simp
  have "unat (of_nat (2 ^ j) :: u32) = 2 ^ j" by (rule unat_small) (use b(2) in simp)
  then have ual: "unat al = 2 ^ j" by (simp add: al)
  then have "al \<noteq> 0" by auto
  then have ual: "unat al = 2 ^ j" "unat (al - 1) = 2 ^ j - 1" using ual by (simp_all add: unat_minus_one)
  have t: "p AND (al - 1) = 0 \<longleftrightarrow> 2 ^ j dvd b"
  proof -
    have "p AND (al - 1) = take_bit j p" unfolding m by (rule take_bit_eq_mask [symmetric])
    moreover have "unat (take_bit j p) = take_bit j (unat p)" by (rule unsigned_take_bit_eq)
    ultimately have "unat (p AND (al - 1)) = b mod 2 ^ j" unfolding ub by (simp only: take_bit_eq_mod)
    then show ?thesis by (metis dvd_eq_mod_eq_0 unat_eq_zero)
  qed
  have four: "4 dvd (2 ^ j :: nat)" using le_imp_power_dvd [OF j, of "2 :: nat"] by simp
  show "2 ^ j dvd unat q" "b + 4 \<le> unat q" "unat q \<le> b + 2 ^ j"
  proof (atomize (full), cases "2 ^ j dvd b")
    case True
    have "unat (p + al) = b + 2 ^ j" using b(2) ub ual(1) by (simp add: unat_word_ariths)
    then show "2 ^ j dvd unat q \<and> b + 4 \<le> unat q \<and> unat q \<le> b + 2 ^ j"
      using True t four by (auto simp: q_def dest: dvd_imp_le)
  next
    case False
    have "unat (p + (al - 1)) = b + (2 ^ j - 1)" using b(2) ub ual(2) by (simp add: unat_word_ariths)
    then have uq: "unat q = 2 ^ j * ((b + (2 ^ j - 1)) div 2 ^ j)" using False t unat_and_not_mask [of "p + (al - 1)" j] m by (simp add: q_def)
    let ?n = "2 ^ j :: nat"
    have pos: "0 < ?n" by simp
    have "?n * ((b + (?n - 1)) div ?n) \<le> b + (?n - 1)" by (rule times_div_less_eq_dividend)
    moreover have "b + (?n - 1) < ?n * ((b + (?n - 1)) div ?n) + ?n" using dividend_less_times_div [OF pos, of "b + (?n - 1)"] by simp
    ultimately have le: "unat q \<le> b + (?n - 1)" "b \<le> unat q" unfolding uq using pos by linarith+
    have dq: "2 ^ j dvd unat q" unfolding uq by simp
    then have "unat q \<noteq> b" "4 dvd unat q" using False dvd_trans [OF four dq] by auto
    then have "b + 4 \<le> unat q" using b(1) le(2) by presburger
    then show "2 ^ j dvd unat q \<and> b + 4 \<le> unat q \<and> unat q \<le> b + 2 ^ j" using dq le(1) by simp
  qed
qed

text \<open>
  C32. Aligned blocks: for an alignment that is a power of two from 4 on, \<^verbatim>\<open>rt_malloc_align\<close> returns NULL and changes nothing that is allocated, or an aligned
  address \<open>p\<close> such that the \<open>sz\<close> bytes from \<open>p\<close> on and the word in front of them lie in one newly allocated block.
  Whatever the client then writes into its \<open>sz\<close> bytes, \<^verbatim>\<open>rt_free_align\<close> of \<open>p\<close> gives exactly this block back.
\<close>

theorem rt_malloc_align_correct:
  assumes inv: "sm_inv m s" and hp: "system_heap s = Some m" and j: "2 \<le> j" and size_ok: "unat sz + 2 ^ j \<le> 0xfffffff0"
  shows "\<exists>r s'. rt_malloc_align sz (2 ^ j) s = Some (r, s') \<and> sm_inv m s' \<and>
    (case r of
       None \<Rightarrow> sm_regions m s' = sm_regions m s \<and> sm_bytes s' = sm_bytes s
     | Some p \<Rightarrow> 2 ^ j dvd p \<and>
         (\<exists>b l. sm_regions m s b = None \<and> sm_regions m s' = (sm_regions m s)(b \<mapsto> l) \<and> b + 4 \<le> p \<and> p + unat sz \<le> b + l) \<and>
         (\<forall>B. (\<forall>x. x \<notin> region_bytes p (unat sz) \<longrightarrow> B x = sm_bytes s' x) \<longrightarrow>
            (\<exists>s''. rt_free_align p (s'\<lparr>sm_bytes := B\<rparr>) = Some s'' \<and> sm_inv m s'' \<and> sm_regions m s'' = sm_regions m s)))"
proof -
  let ?al = "2 ^ j :: u32"
  have "unat (of_nat (2 ^ j) :: u32) = 2 ^ j" by (rule unat_small) (use size_ok in simp)
  then have ual: "unat ?al = 2 ^ j" by simp
  have four: "4 dvd (2 ^ j :: nat)" using le_imp_power_dvd [OF j, of "2 :: nat"] by simp
  have A: "(x + 3) AND NOT 3 = RT_ALIGN x RT_ALIGN_SIZE" for x :: u32 by (simp add: RT_ALIGN_def add.commute)
  have "unat (RT_ALIGN ?al RT_ALIGN_SIZE) = 4 * ((2 ^ j + 3) div 4)"
    using unat_align [of ?al] size_ok ual by (simp add: word_le_nat_alt)
  also have "\<dots> = 2 ^ j" using four by presburger
  finally have al: "RT_ALIGN ?al RT_ALIGN_SIZE = ?al" unfolding word_unat_eq_iff ual .
  let ?n = "RT_ALIGN sz RT_ALIGN_SIZE + ?al"
  have usz: "unat (RT_ALIGN sz RT_ALIGN_SIZE) = 4 * ((unat sz + 3) div 4)" using size_ok by (intro unat_align) (simp add: word_le_nat_alt)
  then have un: "unat ?n = 4 * ((unat sz + 3) div 4) + 2 ^ j" using size_ok ual by (simp add: unat_word_ariths)
  then have "?n \<le> 0xfffffffc" using size_ok by (simp add: word_le_nat_alt)
  then have enough: "unat ?n \<le> request_bytes ?n" by (rule request_bytes_ok(3))
  obtain r s1 where s1: "rt_smem_alloc m ?n s = Some (r, s1)" "sm_inv m s1" "sm_frame m s s1"
    "case r of None \<Rightarrow> sm_regions m s1 = sm_regions m s
     | Some b \<Rightarrow> sm_regions m s b = None \<and> (\<exists>l\<ge>request_bytes ?n. sm_regions m s1 = (sm_regions m s)(b \<mapsto> l))"
    using sm_request_ok [OF inv, of ?n] by blast
  show ?thesis
  proof (cases r)
    case None
    then have "rt_malloc_align sz ?al s = Some (None, s1)" using s1(1) hp unfolding rt_malloc_align_def A al Let_def by (simp add: rt_malloc_def)
    then show ?thesis using None s1 sm_frameD(4) [OF s1(3)] by simp
  next
    case (Some b)
    obtain l where l: "sm_regions m s b = None" "request_bytes ?n \<le> l" "sm_regions m s1 = (sm_regions m s)(b \<mapsto> l)" using s1(4) Some by auto
    have held: "sm_regions m s1 b = Some l" using l(3) by simp
    obtain xs ys where cs: "sm_cells m s1 = xs @ (l + 12, True) # ys" and b: "b = sm_heap_ptr (small_mems s1 m) + cells_span xs + 12"
      by (rule region_cell [OF s1(2) held], rule that)
    note L = sm_layoutD [OF sm_invD(3) [OF s1(2)], unfolded cs]
    have "4 dvd cells_span xs" using L(14) by (intro cells_span_dvd) simp
    then have b4: "4 dvd b" unfolding b using L(4) by presburger
    have bl: "b + l < 2 ^ 32" unfolding b using L(5) by simp
    have jl: "4 * ((unat sz + 3) div 4) + 2 ^ j \<le> l" using enough l(2) un by linarith
    then have bj: "b + 2 ^ j < 2 ^ 32" using bl by linarith
    define p where "p = (of_nat b :: u32)"
    define q where "q = (if p AND (?al - 1) = 0 then p + ?al else (p + (?al - 1)) AND NOT (?al - 1))"
    note Q = align_ptr_ok [OF b4 bj j p_def refl, folded q_def]
    have up: "unat p = b" unfolding p_def by (rule unat_small) (use bl in simp)
    have p0: "p \<noteq> 0" using up b by auto
    have q4: "unat (q - 4) = unat q - 4" using Q(2) by (subst unat_sub) (simp_all add: word_le_nat_alt)
    let ?s' = "store_word (unat q - 4) p s1"
    have run: "rt_malloc_align sz ?al s = Some (Some (unat q), ?s')"
      using s1(1) hp Some q4 q_def [unfolded p_def, symmetric] unfolding rt_malloc_align_def A al Let_def
      by (simp add: rt_malloc_def p_def split del: if_split)
    have s': "sm_inv m ?s'" "sm_regions m ?s' = (sm_regions m s)(b \<mapsto> l)" using s1(2) l(3) by (simp_all add: store_word_def)
    have in_block: "unat q + unat sz \<le> b + l" using Q(3) jl by linarith
    have gives: "\<exists>s''. rt_free_align (unat q) (?s'\<lparr>sm_bytes := B\<rparr>) = Some s'' \<and> sm_inv m s'' \<and> sm_regions m s'' = sm_regions m s"
      if B: "\<forall>x. x \<notin> region_bytes (unat q) (unat sz) \<longrightarrow> B x = sm_bytes ?s' x" for B
    proof -
      let ?t = "?s'\<lparr>sm_bytes := B\<rparr>"
      have "load_word (unat q - 4) ?t = load_word (unat q - 4) ?s'" using B Q(2) by (intro load_word_cong) (simp add: region_bytes_def)
      then have word: "load_word (unat q - 4) ?t = p" by (simp add: load_store_word)
      have t: "sm_inv m ?t" "sm_regions m ?t b = Some l" using s' by simp_all
      obtain s'' where f: "rt_smem_free (Some b) ?t = Some s''" "sm_inv m s''" "sm_regions m s'' = (sm_regions m ?t)(b := None)"
        by (rule sm_release_ok [OF t], rule that)
      have "sm_regions m s'' = sm_regions m s" using f(3) s'(2) l(1) by (simp add: fun_upd_idem)
      then show ?thesis using f(1,2) word p0 up by (simp add: rt_free_align_def rt_free_def)
    qed
    show ?thesis using run s' Q(1,2) in_block l(1) gives by (intro exI [of _ "Some (unat q)"] exI [of _ ?s']) auto
  qed
qed

theorem rt_malloc_align_correct_witness:
  "\<exists>r s'. rt_malloc_align 8 8 demo_heap = Some (r, s') \<and> sm_inv 4096 s' \<and>
    (case r of
       None \<Rightarrow> sm_regions 4096 s' = sm_regions 4096 demo_heap
     | Some p \<Rightarrow> 8 dvd p \<and> (\<exists>s''. rt_free_align p s' = Some s'' \<and> sm_inv 4096 s'' \<and> sm_regions 4096 s'' = sm_regions 4096 demo_heap))"
proof -
  have h: "system_heap demo_heap = Some 4096" by (simp add: demo_heap_def)
  have n: "(2 :: nat) \<le> 3" "unat (8 :: u32) + 2 ^ 3 \<le> 0xfffffff0" "(2 :: u32) ^ 3 = 8" "(2 :: nat) ^ 3 = 8" by simp_all
  have same: "t\<lparr>sm_bytes := sm_bytes t\<rparr> = t" for t :: kernel by simp
  show ?thesis
    using rt_malloc_align_correct [OF demo_heap_inv(1) h n(1,2)] unfolding n(3,4)
    by (elim exE conjE) (intro exI conjI, assumption, assumption,
        auto split: option.splits dest!: spec [where x = "sm_bytes _"] simp: same)
qed

end
