(* ===== verification/RT_MemHeap.thy ===== *)
theory RT_MemHeap
  imports RT_Sem RT_SmallMem
begin

section \<open>Memory heaps: \<^verbatim>\<open>src/memheap.c\<close>\<close>

text \<open>
  The second allocator of the kernel. A heap is cut into items that form a ring in the order of their addresses; an item at the end is always used.
  The free items are also linked in a second ring that starts at the header in the heap object; a request takes the first free item of that
  ring that is long enough, and freed items are merged with free neighbours and put at its front. The heap is protected by a semaphore, unless it is marked as locked
  from outside. Item headers have 24 bytes.

  Operations on the rings work on the heap object and the item headers alone; the calls of the kernel wrap them in
  taking and releasing the semaphore. A call that has to wait for it returns \<open>MhPending\<close> and is continued by its second part. The variant
  \<^verbatim>\<open>RT_MEMHEAP_BSET_MODE\<close>, trace names and shell commands are outside the configuration.
\<close>

abbreviation (input) RT_MEMHEAP_MAGIC :: u32 where "RT_MEMHEAP_MAGIC \<equiv> 0x1ea01ea0"
abbreviation (input) RT_MEMHEAP_MASK :: u32 where "RT_MEMHEAP_MASK \<equiv> 0xFFFFFFFE"
abbreviation (input) RT_MEMHEAP_USED :: u32 where "RT_MEMHEAP_USED \<equiv> 1"
abbreviation (input) RT_MEMHEAP_MINIALLOC :: u32 where "RT_MEMHEAP_MINIALLOC \<equiv> 12"
abbreviation (input) RT_MEMHEAP_SIZE :: u32 where "RT_MEMHEAP_SIZE \<equiv> 24"

type_synonym mh_state = "rt_memheap \<times> (nat \<Rightarrow> rt_memheap_item)"

subsection \<open>Items\<close>

definition upd_mhi :: "nat \<Rightarrow> (rt_memheap_item \<Rightarrow> rt_memheap_item) \<Rightarrow> (nat \<Rightarrow> rt_memheap_item) \<Rightarrow> nat \<Rightarrow> rt_memheap_item" where
  "upd_mhi p f I = I(p := f (I p))"

definition RT_MEMHEAP_IS_USED :: "(nat \<Rightarrow> rt_memheap_item) \<Rightarrow> nat \<Rightarrow> bool" where
  "RT_MEMHEAP_IS_USED I p \<longleftrightarrow> mhi_magic (I p) AND RT_MEMHEAP_USED \<noteq> 0"

definition MEMITEM_SIZE :: "(nat \<Rightarrow> rt_memheap_item) \<Rightarrow> nat \<Rightarrow> u32" where
  "MEMITEM_SIZE I p = of_nat (mhi_next (I p)) - of_nat p - RT_MEMHEAP_SIZE"

text \<open>Address of the embedded \<^verbatim>\<open>free_header\<close>.\<close>

definition free_header :: "nat \<Rightarrow> nat" where
  "free_header m = m + 44"

text \<open>A new free item between an item and its successor.\<close>

definition mh_link_after :: "nat \<Rightarrow> nat \<Rightarrow> nat \<Rightarrow> (nat \<Rightarrow> rt_memheap_item) \<Rightarrow> nat \<Rightarrow> rt_memheap_item" where
  "mh_link_after m header_ptr new_ptr I =
     (let I = upd_mhi new_ptr (\<lambda>i. i\<lparr>mhi_magic := RT_MEMHEAP_MAGIC, mhi_pool_ptr := m\<rparr>) I;
          I = upd_mhi new_ptr (\<lambda>i. i\<lparr>mhi_prev := header_ptr\<rparr>) I;
          I = upd_mhi new_ptr (\<lambda>i. i\<lparr>mhi_next := mhi_next (I header_ptr)\<rparr>) I;
          I = upd_mhi (mhi_next (I header_ptr)) (\<lambda>i. i\<lparr>mhi_prev := new_ptr\<rparr>) I
      in upd_mhi header_ptr (\<lambda>i. i\<lparr>mhi_next := new_ptr\<rparr>) I)"

text \<open>Taking an item out of the ring of free items, and out of the ring of all items.\<close>

definition mh_unlink_free :: "nat \<Rightarrow> (nat \<Rightarrow> rt_memheap_item) \<Rightarrow> nat \<Rightarrow> rt_memheap_item" where
  "mh_unlink_free p I =
     (let I = upd_mhi (mhi_next_free (I p)) (\<lambda>i. i\<lparr>mhi_prev_free := mhi_prev_free (I p)\<rparr>) I
      in upd_mhi (mhi_prev_free (I p)) (\<lambda>i. i\<lparr>mhi_next_free := mhi_next_free (I p)\<rparr>) I)"

definition mh_unlink :: "nat \<Rightarrow> (nat \<Rightarrow> rt_memheap_item) \<Rightarrow> nat \<Rightarrow> rt_memheap_item" where
  "mh_unlink p I =
     (let I = upd_mhi (mhi_next (I p)) (\<lambda>i. i\<lparr>mhi_prev := mhi_prev (I p)\<rparr>) I
      in upd_mhi (mhi_prev (I p)) (\<lambda>i. i\<lparr>mhi_next := mhi_next (I p)\<rparr>) I)"

definition remove_next_ptr :: "nat \<Rightarrow> (nat \<Rightarrow> rt_memheap_item) \<Rightarrow> nat \<Rightarrow> rt_memheap_item" where
  "remove_next_ptr next_ptr I = mh_unlink next_ptr (mh_unlink_free next_ptr I)"

text \<open>Putting an item at the front of the ring of free items.\<close>

definition mh_push_free :: "nat \<Rightarrow> nat \<Rightarrow> (nat \<Rightarrow> rt_memheap_item) \<Rightarrow> nat \<Rightarrow> rt_memheap_item" where
  "mh_push_free hdr p I =
     (let I = upd_mhi p (\<lambda>i. i\<lparr>mhi_next_free := mhi_next_free (I hdr)\<rparr>) I;
          I = upd_mhi p (\<lambda>i. i\<lparr>mhi_prev_free := hdr\<rparr>) I;
          I = upd_mhi (mhi_next_free (I hdr)) (\<lambda>i. i\<lparr>mhi_prev_free := p\<rparr>) I
      in upd_mhi hdr (\<lambda>i. i\<lparr>mhi_next_free := p\<rparr>) I)"

definition mh_insert_free :: "nat \<Rightarrow> nat \<Rightarrow> (nat \<Rightarrow> rt_memheap_item) \<Rightarrow> nat \<Rightarrow> rt_memheap_item" where
  "mh_insert_free n p I =
     (let I = upd_mhi p (\<lambda>i. i\<lparr>mhi_next_free := n\<rparr>) I;
          I = upd_mhi p (\<lambda>i. i\<lparr>mhi_prev_free := mhi_prev_free (I n)\<rparr>) I;
          I = upd_mhi (mhi_prev_free (I n)) (\<lambda>i. i\<lparr>mhi_next_free := p\<rparr>) I
      in upd_mhi n (\<lambda>i. i\<lparr>mhi_prev_free := p\<rparr>) I)"

text \<open>\<^verbatim>\<open>available_size\<close> and the maximum of the used size.\<close>

definition mh_take_size :: "u32 \<Rightarrow> rt_memheap \<Rightarrow> rt_memheap" where
  "mh_take_size n h =
     (let h = h\<lparr>mh_available_size := mh_available_size h - n\<rparr>
      in if mh_pool_size h - mh_available_size h > mh_max_used_size h
         then h\<lparr>mh_max_used_size := mh_pool_size h - mh_available_size h\<rparr> else h)"

subsection \<open>The operations with the lock held\<close>

partial_function (option) mh_search :: "nat \<Rightarrow> (nat \<Rightarrow> rt_memheap_item) \<Rightarrow> u32 \<Rightarrow> nat \<Rightarrow> u32 \<Rightarrow> (nat \<times> u32) option" where
  "mh_search free_list I sz header_ptr free_size =
     (if header_ptr \<noteq> free_list \<and> free_size < sz then
        let free_size = MEMITEM_SIZE I header_ptr
        in mh_search free_list I sz (if free_size < sz then mhi_next_free (I header_ptr) else header_ptr) free_size
      else Some (header_ptr, free_size))"

definition mh_alloc :: "nat \<Rightarrow> u32 \<Rightarrow> mh_state \<Rightarrow> (nat option \<times> mh_state) option" where
  "mh_alloc m sz = (\<lambda>(h, I). do {
     (header_ptr, free_size) \<leftarrow> mh_search (mh_free_list h) I sz (mhi_next_free (I (mh_free_list h))) 0;
     if free_size \<ge> sz then do {
       let (h, I) =
         (if free_size \<ge> sz + RT_MEMHEAP_SIZE + RT_MEMHEAP_MINIALLOC then
            let new_ptr = header_ptr + unat (sz + RT_MEMHEAP_SIZE);
                I = mh_link_after m header_ptr new_ptr I;
                I = mh_unlink_free header_ptr I;
                I = upd_mhi header_ptr (\<lambda>i. i\<lparr>mhi_next_free := 0, mhi_prev_free := 0\<rparr>) I;
                I = mh_push_free (mh_free_list h) new_ptr I
            in (mh_take_size (sz + RT_MEMHEAP_SIZE) h, I)
          else
            let h = mh_take_size free_size h;
                I = mh_unlink_free header_ptr I;
                I = upd_mhi header_ptr (\<lambda>i. i\<lparr>mhi_next_free := 0, mhi_prev_free := 0\<rparr>) I
            in (h, I));
       let I = upd_mhi header_ptr (\<lambda>i. i\<lparr>mhi_magic := RT_MEMHEAP_MAGIC OR RT_MEMHEAP_USED\<rparr>) I;
       Some (Some (header_ptr + unat RT_MEMHEAP_SIZE), h, I)
     }
     else Some (None, h, I)
   })"

text \<open>Giving an item back: merging it with a free predecessor, then with a free successor. The flag tells whether it has to enter the free ring.\<close>

definition mh_merge_prev :: "nat \<Rightarrow> mh_state \<Rightarrow> bool \<times> nat \<times> mh_state" where
  "mh_merge_prev header_ptr = (\<lambda>(h, I).
     if \<not> RT_MEMHEAP_IS_USED I (mhi_prev (I header_ptr)) then
       let h = h\<lparr>mh_available_size := mh_available_size h + RT_MEMHEAP_SIZE\<rparr>;
           I = upd_mhi (mhi_prev (I header_ptr)) (\<lambda>i. i\<lparr>mhi_next := mhi_next (I header_ptr)\<rparr>) I;
           I = upd_mhi (mhi_next (I header_ptr)) (\<lambda>i. i\<lparr>mhi_prev := mhi_prev (I header_ptr)\<rparr>) I
       in (False, mhi_prev (I header_ptr), h, I)
     else (True, header_ptr, h, I))"

definition mh_merge_next :: "nat \<Rightarrow> mh_state \<Rightarrow> mh_state" where
  "mh_merge_next header_ptr = (\<lambda>(h, I).
     if \<not> RT_MEMHEAP_IS_USED I (mhi_next (I header_ptr)) then
       let h = h\<lparr>mh_available_size := mh_available_size h + RT_MEMHEAP_SIZE\<rparr>;
           new_ptr = mhi_next (I header_ptr);
           I = upd_mhi (mhi_next (I new_ptr)) (\<lambda>i. i\<lparr>mhi_prev := header_ptr\<rparr>) I;
           I = upd_mhi header_ptr (\<lambda>i. i\<lparr>mhi_next := mhi_next (I new_ptr)\<rparr>) I
       in (h, mh_unlink_free new_ptr I)
     else (h, I))"

definition mh_free :: "nat \<Rightarrow> mh_state \<Rightarrow> mh_state" where
  "mh_free header_ptr = (\<lambda>(h, I).
     let I = upd_mhi header_ptr (\<lambda>i. i\<lparr>mhi_magic := RT_MEMHEAP_MAGIC\<rparr>) I;
         h = h\<lparr>mh_available_size := mh_available_size h + MEMITEM_SIZE I header_ptr\<rparr>;
         (insert_header, header_ptr, hs) = mh_merge_prev header_ptr (h, I);
         (h, I) = mh_merge_next header_ptr hs
     in if insert_header then (h, mh_insert_free (mhi_next_free (I (mh_free_list h))) header_ptr I) else (h, I))"

text \<open>\<^verbatim>\<open>rt_memheap_realloc\<close>: growing into a free successor, and cutting off the end.\<close>

definition mh_grow :: "nat \<Rightarrow> nat \<Rightarrow> u32 \<Rightarrow> u32 \<Rightarrow> mh_state \<Rightarrow> (bool \<times> mh_state) option" where
  "mh_grow m header_ptr oldsize newsize = (\<lambda>(h, I). do {
     let next_ptr = mhi_next (I header_ptr);
     RT_ASSERT (next_ptr > header_ptr);
     if \<not> RT_MEMHEAP_IS_USED I next_ptr \<and> MEMITEM_SIZE I next_ptr + oldsize > newsize + RT_MEMHEAP_MINIALLOC then
       let h = mh_take_size (newsize - oldsize) h;
           I = remove_next_ptr next_ptr I;
           next_ptr = unat (of_nat header_ptr + RT_MEMHEAP_SIZE + newsize);
           I = mh_link_after m header_ptr next_ptr I;
           I = mh_push_free (mh_free_list h) next_ptr I
       in Some (True, h, I)
     else Some (False, h, I)
   })"

definition mh_shrink :: "nat \<Rightarrow> nat \<Rightarrow> u32 \<Rightarrow> mh_state \<Rightarrow> mh_state" where
  "mh_shrink m header_ptr newsize = (\<lambda>(h, I).
     let new_ptr = header_ptr + unat (newsize + RT_MEMHEAP_SIZE);
         I = mh_link_after m header_ptr new_ptr I;
         (h, I) =
           (if \<not> RT_MEMHEAP_IS_USED I (mhi_next (I new_ptr)) then
              let free_ptr = mhi_next (I new_ptr);
                  h = h\<lparr>mh_available_size := mh_available_size h - MEMITEM_SIZE I free_ptr\<rparr>;
                  I = upd_mhi (mhi_next (I free_ptr)) (\<lambda>i. i\<lparr>mhi_prev := new_ptr\<rparr>) I;
                  I = upd_mhi new_ptr (\<lambda>i. i\<lparr>mhi_next := mhi_next (I free_ptr)\<rparr>) I
              in (h, mh_unlink_free free_ptr I)
            else (h, I));
         I = mh_push_free (mh_free_list h) new_ptr I
     in (h\<lparr>mh_available_size := mh_available_size h + MEMITEM_SIZE I new_ptr\<rparr>, I))"

subsection \<open>The calls\<close>

definition get_mh :: "nat \<Rightarrow> kernel \<Rightarrow> mh_state" where
  "get_mh m s = (memheaps s m, mh_items s)"

definition put_mh :: "nat \<Rightarrow> mh_state \<Rightarrow> kernel \<Rightarrow> kernel" where
  "put_mh m = (\<lambda>(h, I) s. s\<lparr>memheaps := (memheaps s)(m := h), mh_items := I\<rparr>)"

text \<open>The state of the semaphore of a heap: its embedded structure is named by the heap.\<close>

definition mh_take_lock :: "nat \<Rightarrow> kernel \<Rightarrow> (tid call \<times> kernel) option" where
  "mh_take_lock m s = (if mh_locked (memheaps s m) then Some (Return RT_EOK, s) else rt_sem_take (mh_lock (memheaps s m)) (- 1) s)"

definition mh_release_lock :: "nat \<Rightarrow> kernel \<Rightarrow> kernel option" where
  "mh_release_lock m s =
     (if mh_locked (memheaps s m) then Some s else do { (_, s) \<leftarrow> rt_sem_release (mh_lock (memheaps s m)) s; Some s })"

text \<open>The header of the free ring, one free item and the used item at the end.\<close>

definition mh_init_items :: "nat \<Rightarrow> nat \<Rightarrow> nat \<Rightarrow> nat \<Rightarrow> (nat \<Rightarrow> rt_memheap_item) \<Rightarrow> nat \<Rightarrow> rt_memheap_item" where
  "mh_init_items m hdr start_addr tail I =
     (let I = I(hdr := \<lparr>mhi_magic = RT_MEMHEAP_MAGIC, mhi_pool_ptr = m, mhi_next = 0, mhi_prev = 0, mhi_next_free = hdr, mhi_prev_free = hdr\<rparr>);
          I = I(start_addr := \<lparr>mhi_magic = RT_MEMHEAP_MAGIC, mhi_pool_ptr = m, mhi_next = tail, mhi_prev = tail,
                 mhi_next_free = start_addr, mhi_prev_free = start_addr\<rparr>);
          I = mh_push_free hdr start_addr I
      in I(tail := \<lparr>mhi_magic = RT_MEMHEAP_MAGIC OR RT_MEMHEAP_USED, mhi_pool_ptr = m, mhi_next = start_addr, mhi_prev = start_addr,
                 mhi_next_free = 0, mhi_prev_free = 0\<rparr>))"

definition rt_memheap_init :: "nat \<Rightarrow> nat \<Rightarrow> u8 list \<Rightarrow> nat \<Rightarrow> u32 \<Rightarrow> kernel \<Rightarrow> (rt_err \<times> kernel) option" where
  "rt_memheap_init m lock name start_addr sz s = do {
     s \<leftarrow> rt_object_init (OMemHeap m) RT_Object_Class_MemHeap name s;
     let pool_size = RT_ALIGN_DOWN sz RT_ALIGN_SIZE;
     let available_size = pool_size - (2 * RT_MEMHEAP_SIZE);
     let hdr = free_header m;
     let h = \<lparr>mh_start_addr = start_addr, mh_pool_size = pool_size, mh_available_size = available_size,
                mh_max_used_size = pool_size - available_size, mh_block_list = start_addr, mh_free_list = hdr, mh_lock = lock, mh_locked = False\<rparr>;
     let I = mh_init_items m hdr start_addr (start_addr + unat (available_size + RT_MEMHEAP_SIZE)) (mh_items s);
     let s = put_mh m (h, I) s;
     (_, s) \<leftarrow> rt_sem_init lock name 1 RT_IPC_FLAG_PRIO s;
     Some (RT_EOK, s)
   }"

definition rt_memheap_detach :: "nat \<Rightarrow> kernel \<Rightarrow> (rt_err \<times> kernel) option" where
  "rt_memheap_detach m s = do {
     RT_ASSERT (rt_object_get_type (OMemHeap m) s = RT_Object_Class_MemHeap);
     RT_ASSERT (rt_object_is_systemobject (OMemHeap m) s);
     (_, s) \<leftarrow> rt_sem_detach (mh_lock (memheaps s m)) s;
     Some (RT_EOK, rt_object_detach (OMemHeap m) s)
   }"

datatype 'a mh_call = MhReturn 'a | MhPending tid

text \<open>A request, from the point where the lock is held on.\<close>

definition memheap_alloc_taken :: "nat \<Rightarrow> u32 \<Rightarrow> rt_err \<Rightarrow> kernel \<Rightarrow> (nat option \<times> kernel) option" where
  "memheap_alloc_taken m sz result s =
     (if result \<noteq> RT_EOK then Some (None, rt_set_errno result s)
      else do {
        (p, hs) \<leftarrow> mh_alloc m sz (get_mh m s);
        s \<leftarrow> mh_release_lock m (put_mh m hs s);
        Some (p, s)
      })"

definition request_size :: "u32 \<Rightarrow> u32" where
  "request_size sz = (let sz = RT_ALIGN sz RT_ALIGN_SIZE in if sz < RT_MEMHEAP_MINIALLOC then RT_MEMHEAP_MINIALLOC else sz)"

definition rt_memheap_alloc :: "nat \<Rightarrow> u32 \<Rightarrow> kernel \<Rightarrow> (nat option mh_call \<times> kernel) option" where
  "rt_memheap_alloc m sz s = do {
     RT_ASSERT (rt_object_get_type (OMemHeap m) s = RT_Object_Class_MemHeap);
     let sz = request_size sz;
     if sz < mh_available_size (memheaps s m) then do {
       (r, s) \<leftarrow> mh_take_lock m s;
       (case r of
          Pending t \<Rightarrow> Some (MhPending t, s)
        | Return result \<Rightarrow> do { (p, s) \<leftarrow> memheap_alloc_taken m sz result s; Some (MhReturn p, s) })
     }
     else Some (MhReturn None, s)
   }"

definition rt_memheap_alloc_resume :: "nat \<Rightarrow> u32 \<Rightarrow> tid \<Rightarrow> kernel \<Rightarrow> (nat option \<times> kernel) option" where
  "rt_memheap_alloc_resume m sz thread s = memheap_alloc_taken m (request_size sz) (rt_sem_take_resume thread s) s"

definition memheap_free_taken :: "nat \<Rightarrow> nat \<Rightarrow> rt_err \<Rightarrow> kernel \<Rightarrow> kernel option" where
  "memheap_free_taken m header_ptr result s =
     (if result \<noteq> RT_EOK then Some (rt_set_errno result s)
      else mh_release_lock m (put_mh m (mh_free header_ptr (get_mh m s)) s))"

definition rt_memheap_free :: "nat option \<Rightarrow> kernel \<Rightarrow> (unit mh_call \<times> kernel) option" where
  "rt_memheap_free p s =
     (case p of
        None \<Rightarrow> Some (MhReturn (), s)
      | Some ptr \<Rightarrow> do {
          let header_ptr = ptr - unat RT_MEMHEAP_SIZE;
          let I = mh_items s;
          RT_ASSERT (mhi_magic (I header_ptr) = RT_MEMHEAP_MAGIC OR RT_MEMHEAP_USED);
          RT_ASSERT (mhi_magic (I (mhi_next (I header_ptr))) AND RT_MEMHEAP_MASK = RT_MEMHEAP_MAGIC);
          let heap = mhi_pool_ptr (I header_ptr);
          RT_ASSERT (heap \<noteq> 0);
          RT_ASSERT (rt_object_get_type (OMemHeap heap) s = RT_Object_Class_MemHeap);
          (r, s) \<leftarrow> mh_take_lock heap s;
          (case r of
             Pending t \<Rightarrow> Some (MhPending t, s)
           | Return result \<Rightarrow> do { s \<leftarrow> memheap_free_taken heap header_ptr result s; Some (MhReturn (), s) })
        })"

definition rt_memheap_free_resume :: "nat \<Rightarrow> tid \<Rightarrow> kernel \<Rightarrow> kernel option" where
  "rt_memheap_free_resume ptr thread s =
     memheap_free_taken (mhi_pool_ptr (mh_items s (ptr - unat RT_MEMHEAP_SIZE))) (ptr - unat RT_MEMHEAP_SIZE) (rt_sem_take_resume thread s) s"

text \<open>
  \<^verbatim>\<open>rt_memheap_realloc\<close> takes the lock up to three times: to grow or shrink in place, to get a new block and to free the old one. Its result tells
  where it waits, together with the old size or the new block; \<open>rt_memheap_realloc_resume\<close> is the rest of the call from there on.
\<close>

datatype mh_realloc = RReturn "nat option" | RGrow tid u32 | RAlloc tid u32 | RFree tid nat | RRelease tid | RShrink tid

definition realloc_free_old :: "nat \<Rightarrow> nat \<Rightarrow> kernel \<Rightarrow> (mh_realloc \<times> kernel) option" where
  "realloc_free_old ptr new_ptr s = do {
     (r, s) \<leftarrow> rt_memheap_free (Some ptr) s;
     Some (case r of MhPending t \<Rightarrow> RFree t new_ptr | MhReturn _ \<Rightarrow> RReturn (Some new_ptr), s)
   }"

definition realloc_copy :: "nat \<Rightarrow> u32 \<Rightarrow> u32 \<Rightarrow> nat option \<Rightarrow> kernel \<Rightarrow> (mh_realloc \<times> kernel) option" where
  "realloc_copy ptr oldsize newsize p s =
     (case p of
        None \<Rightarrow> Some (RReturn None, s)
      | Some new_ptr \<Rightarrow>
          let s = s\<lparr>sm_bytes := rt_memcpy new_ptr ptr (unat (if oldsize < newsize then oldsize else newsize)) (sm_bytes s)\<rparr>
          in realloc_free_old ptr new_ptr s)"

definition realloc_move :: "nat \<Rightarrow> nat \<Rightarrow> u32 \<Rightarrow> u32 \<Rightarrow> kernel \<Rightarrow> (mh_realloc \<times> kernel) option" where
  "realloc_move m ptr oldsize newsize s = do {
     (r, s) \<leftarrow> rt_memheap_alloc m newsize s;
     (case r of
        MhPending t \<Rightarrow> Some (RAlloc t oldsize, s)
      | MhReturn p \<Rightarrow> realloc_copy ptr oldsize newsize p s)
   }"

definition realloc_grow :: "nat \<Rightarrow> nat \<Rightarrow> u32 \<Rightarrow> u32 \<Rightarrow> rt_err \<Rightarrow> kernel \<Rightarrow> (mh_realloc \<times> kernel) option" where
  "realloc_grow m ptr oldsize newsize result s =
     (if result \<noteq> RT_EOK then Some (RReturn None, rt_set_errno result s)
      else do {
        (grown, hs) \<leftarrow> mh_grow m (ptr - unat RT_MEMHEAP_SIZE) oldsize newsize (get_mh m s);
        s \<leftarrow> mh_release_lock m (put_mh m hs s);
        if grown then Some (RReturn (Some ptr), s) else realloc_move m ptr oldsize newsize s
      })"

definition realloc_shrink :: "nat \<Rightarrow> nat \<Rightarrow> u32 \<Rightarrow> rt_err \<Rightarrow> kernel \<Rightarrow> (mh_realloc \<times> kernel) option" where
  "realloc_shrink m ptr newsize result s =
     (if result \<noteq> RT_EOK then Some (RReturn None, rt_set_errno result s)
      else do {
        s \<leftarrow> mh_release_lock m (put_mh m (mh_shrink m (ptr - unat RT_MEMHEAP_SIZE) newsize (get_mh m s)) s);
        Some (RReturn (Some ptr), s)
      })"

definition rt_memheap_realloc :: "nat \<Rightarrow> nat option \<Rightarrow> u32 \<Rightarrow> kernel \<Rightarrow> (mh_realloc \<times> kernel) option" where
  "rt_memheap_realloc m p newsize s = do {
     RT_ASSERT (rt_object_get_type (OMemHeap m) s = RT_Object_Class_MemHeap);
     if newsize = 0 then do {
       (r, s) \<leftarrow> rt_memheap_free p s;
       Some (case r of MhPending t \<Rightarrow> RRelease t | MhReturn _ \<Rightarrow> RReturn None, s)
     }
     else do {
       let newsize = request_size newsize;
       (case p of
          None \<Rightarrow> do {
            (r, s) \<leftarrow> rt_memheap_alloc m newsize s;
            Some (case r of MhPending t \<Rightarrow> RAlloc t 0 | MhReturn q \<Rightarrow> RReturn q, s)
          }
        | Some ptr \<Rightarrow> do {
            let oldsize = MEMITEM_SIZE (mh_items s) (ptr - unat RT_MEMHEAP_SIZE);
            if newsize > oldsize then do {
              (r, s) \<leftarrow> mh_take_lock m s;
              (case r of Pending t \<Rightarrow> Some (RGrow t oldsize, s) | Return result \<Rightarrow> realloc_grow m ptr oldsize newsize result s)
            }
            else if newsize + RT_MEMHEAP_SIZE + RT_MEMHEAP_MINIALLOC \<ge> oldsize then Some (RReturn (Some ptr), s)
            else do {
              (r, s) \<leftarrow> mh_take_lock m s;
              (case r of Pending t \<Rightarrow> Some (RShrink t, s) | Return result \<Rightarrow> realloc_shrink m ptr newsize result s)
            }
          })
     }
   }"

definition rt_memheap_realloc_resume :: "nat \<Rightarrow> nat option \<Rightarrow> u32 \<Rightarrow> mh_realloc \<Rightarrow> kernel \<Rightarrow> (mh_realloc \<times> kernel) option" where
  "rt_memheap_realloc_resume m p newsize w s =
     (let newsize = request_size newsize in
      case (w, p) of
        (RGrow t oldsize, Some ptr) \<Rightarrow> realloc_grow m ptr oldsize newsize (rt_sem_take_resume t s) s
      | (RShrink t, Some ptr) \<Rightarrow> realloc_shrink m ptr newsize (rt_sem_take_resume t s) s
      | (RAlloc t oldsize, Some ptr) \<Rightarrow> do {
          (q, s) \<leftarrow> rt_memheap_alloc_resume m newsize t s;
          realloc_copy ptr oldsize newsize q s
        }
      | (RAlloc t _, None) \<Rightarrow> do { (q, s) \<leftarrow> rt_memheap_alloc_resume m newsize t s; Some (RReturn q, s) }
      | (RFree t new_ptr, Some ptr) \<Rightarrow> do { s \<leftarrow> rt_memheap_free_resume ptr t s; Some (RReturn (Some new_ptr), s) }
      | (RRelease t, Some ptr) \<Rightarrow> do { s \<leftarrow> rt_memheap_free_resume ptr t s; Some (RReturn None, s) }
      | _ \<Rightarrow> None)"

definition memheap_info_taken :: "nat \<Rightarrow> rt_err \<Rightarrow> kernel \<Rightarrow> ((u32 \<times> u32 \<times> u32) option \<times> kernel) option" where
  "memheap_info_taken m result s =
     (if result \<noteq> RT_EOK then Some (None, rt_set_errno result s)
      else do {
        let h = memheaps s m;
        s \<leftarrow> mh_release_lock m s;
        Some (Some (mh_pool_size h, mh_pool_size h - mh_available_size h, mh_max_used_size h), s)
      })"

definition rt_memheap_info :: "nat \<Rightarrow> kernel \<Rightarrow> ((u32 \<times> u32 \<times> u32) option mh_call \<times> kernel) option" where
  "rt_memheap_info m s = do {
     (r, s) \<leftarrow> mh_take_lock m s;
     (case r of
        Pending t \<Rightarrow> Some (MhPending t, s)
      | Return result \<Rightarrow> do { (v, s) \<leftarrow> memheap_info_taken m result s; Some (MhReturn v, s) })
   }"

subsection \<open>Rings of addresses\<close>

definition cyc :: "'p list_heap \<Rightarrow> 'p list \<Rightarrow> bool" where
  "cyc H xs \<longleftrightarrow> xs \<noteq> [] \<and> distinct xs \<and> path H (xs @ [hd xs])"

lemma cyc_next: "cyc H (us @ a # vs) \<Longrightarrow> nxt H a = hd (vs @ us @ [a])"
  using path_append [of H us a "vs @ [hd (us @ [a])]"] by (cases vs; cases us) (auto simp: cyc_def)

lemma cyc_adjacent: "cyc H (us @ a # b # vs) \<Longrightarrow> nxt H a = b \<and> prv H b = a"
  using path_append [of H us a "b # vs @ [hd (us @ [a])]"] by (cases us) (auto simp: cyc_def)

lemma cyc_ends: "cyc H xs \<Longrightarrow> nxt H (last xs) = hd xs \<and> prv H (hd xs) = last xs"
  using path_append [of H "butlast xs" "last xs" "[hd xs]"] append_butlast_last_id [of xs]
  by (metis append.assoc append_Cons append_Nil cyc_def path.simps(1))

lemma ring_distinct: "xs \<noteq> [] \<Longrightarrow> distinct xs \<Longrightarrow> distinct (butlast (xs @ [hd xs])) \<and> distinct (tl (xs @ [hd xs]))"
  by (cases xs) auto

text \<open>A ring with a new member behind \<open>a\<close>, and without a member, for every heap that has the right pointers there and the old ones elsewhere.\<close>

lemma cyc_insert:
  assumes c: "cyc H (us @ a # vs)" and new: "n \<notin> set (us @ a # vs)" and b: "b = nxt H a"
    and K: "nxt K a = n" "nxt K n = b" "prv K b = n" "prv K n = a"
      "\<And>x. x \<in> set (us @ a # vs) \<Longrightarrow> x \<noteq> a \<Longrightarrow> nxt K x = nxt H x" "\<And>x. x \<in> set (us @ a # vs) \<Longrightarrow> x \<noteq> b \<Longrightarrow> prv K x = prv H x"
  shows "cyc K (us @ a # n # vs)"
proof -
  let ?h = "hd (us @ a # vs)"
  obtain ys where ys: "vs @ [?h] = b # ys" using cyc_next [OF c] b by (cases vs; cases us) auto
  have p: "path H (us @ a # b # ys)" using c ys by (simp add: cyc_def)
  have set_eq: "set (us @ a # b # ys) = set (us @ a # vs)" using arg_cong [OF ys, of set] by (cases us) auto
  have L: "us @ a # b # ys = (us @ a # vs) @ [?h]" using ys by simp
  have src: "distinct (butlast (us @ a # b # ys))" and tgt: "distinct (tl (us @ a # b # ys))"
    unfolding L using ring_distinct [of "us @ a # vs"] c unfolding cyc_def by blast+
  have "path (link_between a n b H) (us @ a # n # b # ys)" by (rule path_link_between [OF p src tgt]) (use new set_eq in simp)
  moreover have "path K (us @ a # n # b # ys) = path (link_between a n b H) (us @ a # n # b # ys)"
  proof (rule path_cong)
    fix x assume "x \<in> set (butlast (us @ a # n # b # ys))"
    then have "x = n \<or> x \<in> set (us @ a # b # ys)" by (auto dest: in_set_butlastD)
    then show "nxt K x = nxt (link_between a n b H) x" using K new set_eq by (auto simp: link_between_def)
  next
    fix x assume "x \<in> set (tl (us @ a # n # b # ys))"
    then have "x = n \<or> x \<in> set (us @ a # b # ys)" by (cases us) auto
    then show "prv K x = prv (link_between a n b H) x" using K new set_eq by (auto simp: link_between_def)
  qed
  ultimately have "path K (us @ a # n # vs @ [?h])" using ys by simp
  moreover have "hd (us @ a # n # vs) = ?h" by (cases us) auto
  ultimately show ?thesis using c new by (auto simp: cyc_def)
qed

lemma cyc_delete:
  assumes c: "cyc H (us @ n # vs)" and us: "us \<noteq> []" and ab: "a = prv H n" "b = nxt H n"
    and K: "nxt K a = b" "prv K b = a"
      "\<And>x. x \<in> set (us @ vs) \<Longrightarrow> x \<noteq> a \<Longrightarrow> nxt K x = nxt H x" "\<And>x. x \<in> set (us @ vs) \<Longrightarrow> x \<noteq> b \<Longrightarrow> prv K x = prv H x"
  shows "cyc K (us @ vs)"
proof -
  let ?h = "hd us"
  obtain xs where xs: "us = xs @ [a]" 
    using cyc_adjacent [of H "butlast us" "last us" n vs] c us ab(1) append_butlast_last_id [OF us]
    by (intro that [of "butlast us"]) (metis append.assoc append_Cons append_Nil)
  obtain ys where ys: "vs @ [?h] = b # ys" using cyc_next [OF c] us ab(2) by (cases vs; cases us) auto
  have p: "path H (xs @ a # n # b # ys)" using c ys xs by (cases xs) (auto simp: cyc_def)
  have L: "xs @ a # n # b # ys = (us @ n # vs) @ [?h]" using ys xs by simp
  have src: "distinct (butlast (xs @ a # n # b # ys))" and tgt: "distinct (tl (xs @ a # n # b # ys))"
    unfolding L using ring_distinct [of "us @ n # vs"] c us unfolding cyc_def by auto
  let ?H = "H\<lparr>nxt := (nxt H)(a := b, n := n), prv := (prv H)(b := a, n := n)\<rparr>"
  have n: "n \<notin> set (us @ vs)" using c by (simp add: cyc_def)
  have set_eq: "set (xs @ a # b # ys) = set (us @ vs)" using arg_cong [OF ys, of set] unfolding xs by (cases xs) auto
  have "path ?H (xs @ a # b # ys)" by (rule path_unlink [OF p src tgt])
  moreover have "path K (xs @ a # b # ys) = path ?H (xs @ a # b # ys)"
  proof (rule path_cong)
    fix x assume "x \<in> set (butlast (xs @ a # b # ys))"
    then have "x \<in> set (us @ vs)" unfolding set_eq [symmetric] by (rule in_set_butlastD)
    moreover from this have "x \<noteq> n" using n by blast
    ultimately show "nxt K x = nxt ?H x" using K(1) K(3) [of x] by (cases "x = a") simp_all
  next
    fix x assume "x \<in> set (tl (xs @ a # b # ys))"
    then have "x \<in> set (us @ vs)" unfolding set_eq [symmetric] by (rule list.set_sel(2) [rotated]) simp
    moreover from this have "x \<noteq> n" using n by blast
    ultimately show "prv K x = prv ?H x" using K(2) K(4) [of x] by (cases "x = b") simp_all
  qed
  ultimately have "path K (us @ vs @ [?h])" using ys xs by simp
  then show ?thesis using c us by (auto simp: cyc_def)
qed


subsection \<open>The two rings of a heap\<close>

text \<open>The links between all items in the order of addresses, and those between free items.\<close>

definition phys :: "(nat \<Rightarrow> rt_memheap_item) \<Rightarrow> nat list_heap" where
  "phys I = \<lparr>nxt = \<lambda>x. mhi_next (I x), prv = \<lambda>x. mhi_prev (I x)\<rparr>"

definition frees :: "(nat \<Rightarrow> rt_memheap_item) \<Rightarrow> nat list_heap" where
  "frees I = \<lparr>nxt = \<lambda>x. mhi_next_free (I x), prv = \<lambda>x. mhi_prev_free (I x)\<rparr>"

lemma phys_simps [simp]: "nxt (phys I) x = mhi_next (I x)" "prv (phys I) x = mhi_prev (I x)"
  by (simp_all add: phys_def)

lemma frees_simps [simp]: "nxt (frees I) x = mhi_next_free (I x)" "prv (frees I) x = mhi_prev_free (I x)"
  by (simp_all add: frees_def)

lemmas mh_links = mh_link_after_def mh_unlink_free_def mh_unlink_def mh_push_free_def mh_insert_free_def upd_mhi_def Let_def

text \<open>What the pieces leave alone.\<close>

lemma link_after_keeps [simp]:
  "mhi_next_free (mh_link_after m q p I x) = mhi_next_free (I x)" "mhi_prev_free (mh_link_after m q p I x) = mhi_prev_free (I x)"
  "frees (mh_link_after m q p I) = frees I"
  "mhi_magic (mh_link_after m q p I x) = (if x = p then RT_MEMHEAP_MAGIC else mhi_magic (I x))"
  "mhi_pool_ptr (mh_link_after m q p I x) = (if x = p then m else mhi_pool_ptr (I x))"
  by (auto simp: mh_links frees_def fun_eq_iff)

lemma unlink_free_keeps [simp]:
  "mhi_next (mh_unlink_free p I x) = mhi_next (I x)" "mhi_prev (mh_unlink_free p I x) = mhi_prev (I x)" "phys (mh_unlink_free p I) = phys I"
  "mhi_magic (mh_unlink_free p I x) = mhi_magic (I x)" "mhi_pool_ptr (mh_unlink_free p I x) = mhi_pool_ptr (I x)"
  by (auto simp: mh_links phys_def fun_eq_iff)

lemma unlink_keeps [simp]:
  "mhi_next_free (mh_unlink p I x) = mhi_next_free (I x)" "mhi_prev_free (mh_unlink p I x) = mhi_prev_free (I x)" "frees (mh_unlink p I) = frees I"
  "mhi_magic (mh_unlink p I x) = mhi_magic (I x)" "mhi_pool_ptr (mh_unlink p I x) = mhi_pool_ptr (I x)"
  by (auto simp: mh_links frees_def fun_eq_iff)

lemma push_free_keeps [simp]:
  "mhi_next (mh_push_free h p I x) = mhi_next (I x)" "mhi_prev (mh_push_free h p I x) = mhi_prev (I x)" "phys (mh_push_free h p I) = phys I"
  "mhi_magic (mh_push_free h p I x) = mhi_magic (I x)" "mhi_pool_ptr (mh_push_free h p I x) = mhi_pool_ptr (I x)"
  by (auto simp: mh_links phys_def fun_eq_iff)

lemma insert_free_keeps [simp]:
  "mhi_next (mh_insert_free h p I x) = mhi_next (I x)" "mhi_prev (mh_insert_free h p I x) = mhi_prev (I x)" "phys (mh_insert_free h p I) = phys I"
  "mhi_magic (mh_insert_free h p I x) = mhi_magic (I x)" "mhi_pool_ptr (mh_insert_free h p I x) = mhi_pool_ptr (I x)"
  by (auto simp: mh_links phys_def fun_eq_iff)

text \<open>What they do to the rings.\<close>

lemma link_after_ring:
  assumes c: "cyc (phys I) (us @ q # vs)" and new: "p \<notin> set (us @ q # vs)"
  shows "cyc (phys (mh_link_after m q p I)) (us @ q # p # vs)"
proof (rule cyc_insert [OF c new refl])
  have "mhi_next (I q) \<in> set (us @ q # vs)" using cyc_next [OF c] by (cases vs; cases us) auto
  then have ne: "p \<noteq> q" "mhi_next (I q) \<noteq> p" using new by auto
  show "nxt (phys (mh_link_after m q p I)) q = p" "nxt (phys (mh_link_after m q p I)) p = nxt (phys I) q"
    "prv (phys (mh_link_after m q p I)) (nxt (phys I) q) = p" "prv (phys (mh_link_after m q p I)) p = q"
    using ne by (auto simp: mh_links)
  fix x assume "x \<in> set (us @ q # vs)"
  then have "x \<noteq> p" using new by auto
  then show "x \<noteq> q \<Longrightarrow> nxt (phys (mh_link_after m q p I)) x = nxt (phys I) x"
    "x \<noteq> nxt (phys I) q \<Longrightarrow> prv (phys (mh_link_after m q p I)) x = prv (phys I) x"
    using ne by (auto simp: mh_links)
qed

lemma link_after_next:
  "p \<noteq> q \<Longrightarrow> mhi_next (mh_link_after m q p I x) = (if x = q then p else if x = p then mhi_next (I q) else mhi_next (I x))"
  by (auto simp: mh_links)

lemma unlink_free_ring:
  "cyc (frees I) (us @ p # vs) \<Longrightarrow> us \<noteq> [] \<Longrightarrow> cyc (frees (mh_unlink_free p I)) (us @ vs)"
  by (erule cyc_delete) (auto simp: mh_links)

lemma unlink_ring: "cyc (phys I) (us @ p # vs) \<Longrightarrow> us \<noteq> [] \<Longrightarrow> cyc (phys (mh_unlink p I)) (us @ vs)"
  by (erule cyc_delete) (auto simp: mh_links)

lemma unlink_next: "cyc (phys I) (us @ q # p # vs) \<Longrightarrow> mhi_next (mh_unlink p I x) = (if x = q then mhi_next (I p) else mhi_next (I x))"
  using cyc_adjacent [of "phys I" us q p vs] by (auto simp: mh_links)

lemma push_free_ring:
  assumes c: "cyc (frees I) (h # fs)" and new: "p \<notin> set (h # fs)"
  shows "cyc (frees (mh_push_free h p I)) (h # p # fs)"
proof -
  have "mhi_next_free (I h) \<in> set (h # fs)" using cyc_next [of "frees I" "[]" h fs] c by (cases fs) auto
  then have ne: "p \<noteq> h" "mhi_next_free (I h) \<noteq> p" using new by auto
  show ?thesis
    by (rule cyc_insert [where us = "[]", simplified, OF c _ refl]) (use new ne in \<open>auto simp: mh_links\<close>)
qed

lemma insert_free_ring:
  assumes c: "cyc (frees I) (h # fs)" and new: "p \<notin> set (h # fs)"
  shows "cyc (frees (mh_insert_free (mhi_next_free (I h)) p I)) (h # p # fs)"
proof -
  have m: "mhi_next_free (I h) \<in> set (h # fs)" using cyc_next [of "frees I" "[]" h fs] c by (cases fs) auto
  then have ne: "p \<noteq> h" "mhi_next_free (I h) \<noteq> p" using new by auto
  have pr: "mhi_prev_free (I (mhi_next_free (I h))) = h"
    using cyc_ends [OF c] cyc_adjacent [of "frees I" "[]" h "hd fs" "tl fs"] c by (cases fs) auto
  show ?thesis
    by (rule cyc_insert [where us = "[]", simplified, OF c _ refl]) (use new ne pr in \<open>auto simp: mh_links\<close>)
qed

text \<open>Merging with a neighbour in \<open>rt_memheap_free\<close> takes the second of two adjacent items out of the ring of all items.\<close>

lemma merge_left:
  assumes "cyc (phys I) (us @ q # p # vs)"
  shows "upd_mhi (mhi_next (upd_mhi q (\<lambda>i. i\<lparr>mhi_next := mhi_next (I p)\<rparr>) I p)) (\<lambda>i. i\<lparr>mhi_prev := q\<rparr>)
           (upd_mhi q (\<lambda>i. i\<lparr>mhi_next := mhi_next (I p)\<rparr>) I) = mh_unlink p I"
  using cyc_adjacent [OF assms] by (auto simp: mh_links fun_eq_iff)

lemma merge_right:
  assumes "cyc (phys I) (us @ q # p # vs)"
  shows "upd_mhi q (\<lambda>i. i\<lparr>mhi_next := mhi_next (upd_mhi (mhi_next (I p)) (\<lambda>i. i\<lparr>mhi_prev := q\<rparr>) I p)\<rparr>)
           (upd_mhi (mhi_next (I p)) (\<lambda>i. i\<lparr>mhi_prev := q\<rparr>) I) = mh_unlink p I"
  using cyc_adjacent [OF assms] by (auto simp: mh_links fun_eq_iff)

subsection \<open>The layout of a heap\<close>

text \<open>
  \<open>as\<close> are the items in the order of their addresses, with at least 12 bytes between two headers; \<open>fs\<close> are the free ones in the
  order of the ring that starts at the header \<open>hdr\<close>. The item at the end is used, and no two neighbours are free.
\<close>

definition mh_layout :: "nat \<Rightarrow> nat \<Rightarrow> (nat \<Rightarrow> rt_memheap_item) \<Rightarrow> nat list \<Rightarrow> nat list \<Rightarrow> bool" where
  "mh_layout m hdr I as fs \<longleftrightarrow>
     cyc (phys I) as \<and> cyc (frees I) (hdr # fs) \<and> hdr \<notin> {hd as..last as} \<and> sorted_wrt (\<lambda>x y. x + 36 \<le> y) as \<and> last as + 24 \<le> 2 ^ 32 \<and>
     set fs \<subseteq> set as \<and> last as \<notin> set fs \<and> successively (\<lambda>x y. x \<notin> set fs \<or> y \<notin> set fs) as \<and>
     (\<forall>x\<in>set as. mhi_pool_ptr (I x) = m \<and> mhi_magic (I x) = (if x \<in> set fs then RT_MEMHEAP_MAGIC else RT_MEMHEAP_MAGIC OR RT_MEMHEAP_USED))"

text \<open>The bytes of the free items, as the code counts them.\<close>

definition free_bytes :: "(nat \<Rightarrow> rt_memheap_item) \<Rightarrow> nat list \<Rightarrow> u32" where
  "free_bytes I fs = sum_list (map (MEMITEM_SIZE I) fs)"

lemma mh_layout_used: "mh_layout m hdr I as fs \<Longrightarrow> x \<in> set as \<Longrightarrow> RT_MEMHEAP_IS_USED I x \<longleftrightarrow> x \<notin> set fs"
  by (simp add: mh_layout_def RT_MEMHEAP_IS_USED_def)

lemma cyc_cong: "(\<And>x. x \<in> set xs \<Longrightarrow> nxt K x = nxt H x \<and> prv K x = prv H x) \<Longrightarrow> cyc K xs = cyc H xs"
  using path_cong [of "xs @ [hd xs]" K H] by (cases xs) (auto simp: cyc_def dest: in_set_butlastD)

lemma butlast_split:
  assumes x: "x \<in> set (butlast xs)"
  obtains us y vs where "xs = us @ x # y # vs"
proof -
  from x obtain us vs where "butlast xs = us @ x # vs" by (meson split_list)
  moreover have "xs = butlast xs @ [last xs]" using x by (cases xs rule: rev_cases) simp_all
  ultimately have "xs = us @ x # (vs @ [last xs])" by simp
  then show ?thesis using that by (cases "vs @ [last xs]") auto
qed

lemma sorted_hd: "sorted_wrt (\<lambda>x y :: nat. x + 36 \<le> y) xs \<Longrightarrow> x \<in> set xs \<Longrightarrow> hd xs \<le> x"
  by (cases xs) auto

lemma sorted_last: "sorted_wrt (\<lambda>x y :: nat. x + 36 \<le> y) xs \<Longrightarrow> x \<in> set xs \<Longrightarrow> x \<le> last xs"
  by (induction xs) (auto dest!: bspec [OF _ last_in_set])

lemma mh_item:
  assumes lay: "mh_layout m hdr I as fs" and eq: "as = us @ x # y # vs"
  shows "mhi_next (I x) = y" "mhi_prev (I y) = x" "x + 36 \<le> y" "y + 24 \<le> 2 ^ 32" "unat (MEMITEM_SIZE I x) = y - x - 24"
proof -
  show n: "mhi_next (I x) = y" "mhi_prev (I y) = x"
    using lay cyc_adjacent [of "phys I" us x y vs] unfolding mh_layout_def eq by simp_all
  show le: "x + 36 \<le> y" using lay by (simp add: mh_layout_def eq sorted_wrt_append)
  have "y \<le> last as" using lay by (intro sorted_last) (simp_all add: mh_layout_def eq)
  then show l: "y + 24 \<le> 2 ^ 32" using lay by (simp add: mh_layout_def)
  have "MEMITEM_SIZE I x = of_nat (y - x - 24)" using le by (simp add: MEMITEM_SIZE_def n of_nat_diff)
  then have "unat (MEMITEM_SIZE I x) = (y - x - 24) mod 2 ^ 32" by (simp only: unat_of_nat) simp
  also have "\<dots> = y - x - 24" using l by (intro mod_less) linarith
  finally show "unat (MEMITEM_SIZE I x) = y - x - 24" .
qed

lemma in_set_butlast_last: "x \<in> set xs \<Longrightarrow> x \<noteq> last xs \<Longrightarrow> x \<in> set (butlast xs)"
  by (induction xs) auto

lemma mh_free_split:
  assumes "mh_layout m hdr I as fs" "x \<in> set fs"
  obtains us y vs where "as = us @ x # y # vs"
proof -
  have "x \<in> set as" "x \<noteq> last as" using assms by (auto simp: mh_layout_def)
  then have b: "x \<in> set (butlast as)" using in_set_butlast_last [of x as] by simp
  show ?thesis by (rule butlast_split [OF b], rule that)
qed

text \<open>The search returns the first free item that is long enough.\<close>

lemma mh_search_ok:
  "cyc (frees I) (hdr # gs @ fs) \<Longrightarrow> k < sz \<Longrightarrow>
   \<exists>z. z < sz \<and> mh_search hdr I sz (hd (fs @ [hdr])) k =
     (case find (\<lambda>x. sz \<le> MEMITEM_SIZE I x) fs of None \<Rightarrow> Some (hdr, z) | Some x \<Rightarrow> Some (x, MEMITEM_SIZE I x))"
proof (induction fs arbitrary: gs k)
  case Nil
  then show ?case by (auto simp: mh_search.simps)
next
  case (Cons x fs)
  have ne: "x \<noteq> hdr" using Cons.prems(1) by (auto simp: cyc_def)
  show ?case
  proof (cases "sz \<le> MEMITEM_SIZE I x")
    case True
    then show ?thesis using ne Cons.prems(2) by (auto simp: mh_search.simps [of hdr I sz x] Let_def)
  next
    case False
    have "mhi_next_free (I x) = hd (fs @ [hdr])" using cyc_next [of "frees I" "hdr # gs" x fs] Cons.prems(1) by (cases fs) simp_all
    then have "mh_search hdr I sz x k = mh_search hdr I sz (hd (fs @ [hdr])) (MEMITEM_SIZE I x)"
      using Cons.prems(2) ne False not_le [of sz "MEMITEM_SIZE I x"] by (simp add: mh_search.simps [of hdr I sz x] Let_def)
    moreover have "find (\<lambda>x. sz \<le> MEMITEM_SIZE I x) (x # fs) = find (\<lambda>x. sz \<le> MEMITEM_SIZE I x) fs" using False by simp
    ultimately show ?thesis using Cons.IH [of "gs @ [x]" "MEMITEM_SIZE I x"] Cons.prems(1) False not_le [of sz "MEMITEM_SIZE I x"] by simp
  qed
qed

text \<open>The two last steps of taking a free item.\<close>

definition mh_clear :: "nat \<Rightarrow> (nat \<Rightarrow> rt_memheap_item) \<Rightarrow> nat \<Rightarrow> rt_memheap_item" where
  "mh_clear x I = upd_mhi x (\<lambda>i. i\<lparr>mhi_next_free := 0, mhi_prev_free := 0\<rparr>) I"

definition mh_mark :: "u32 \<Rightarrow> nat \<Rightarrow> (nat \<Rightarrow> rt_memheap_item) \<Rightarrow> nat \<Rightarrow> rt_memheap_item" where
  "mh_mark w x I = upd_mhi x (\<lambda>i. i\<lparr>mhi_magic := w\<rparr>) I"

lemma mark_keeps [simp]:
  "mhi_next (mh_clear x I z) = mhi_next (I z)" "mhi_prev (mh_clear x I z) = mhi_prev (I z)" "phys (mh_clear x I) = phys I"
  "mhi_magic (mh_clear x I z) = mhi_magic (I z)" "mhi_pool_ptr (mh_clear x I z) = mhi_pool_ptr (I z)"
  "mhi_next (mh_mark w x I z) = mhi_next (I z)" "mhi_prev (mh_mark w x I z) = mhi_prev (I z)" "phys (mh_mark w x I) = phys I"
  "frees (mh_mark w x I) = frees I" "mhi_next_free (mh_mark w x I z) = mhi_next_free (I z)" "mhi_prev_free (mh_mark w x I z) = mhi_prev_free (I z)"
  "mhi_magic (mh_mark w x I z) = (if z = x then w else mhi_magic (I z))"
  "mhi_pool_ptr (mh_mark w x I z) = mhi_pool_ptr (I z)"
  by (auto simp: mh_clear_def mh_mark_def upd_mhi_def phys_def frees_def fun_eq_iff)

lemma MEMITEM_SIZE_keeps [simp]:
  "MEMITEM_SIZE (mh_clear x I) = MEMITEM_SIZE I" "MEMITEM_SIZE (mh_mark w x I) = MEMITEM_SIZE I" "MEMITEM_SIZE (mh_unlink_free x I) = MEMITEM_SIZE I"
  "MEMITEM_SIZE (mh_push_free h x I) = MEMITEM_SIZE I" "MEMITEM_SIZE (mh_insert_free h x I) = MEMITEM_SIZE I"
  by (simp_all add: fun_eq_iff MEMITEM_SIZE_def)

lemma clear_ring: "x \<notin> set xs \<Longrightarrow> cyc (frees (mh_clear x I)) xs = cyc (frees I) xs"
  by (rule cyc_cong) (auto simp: mh_clear_def upd_mhi_def)

lemma no_pairs_mono:
  "successively (\<lambda>x y. x \<notin> A \<or> y \<notin> A) xs \<Longrightarrow> B \<inter> set xs \<subseteq> A \<Longrightarrow> successively (\<lambda>x y. x \<notin> B \<or> y \<notin> B) xs"
  by (induction xs rule: induct_list012) auto

lemma mh_layoutD:
  assumes "mh_layout m hdr I as fs"
  shows "cyc (phys I) as" "cyc (frees I) (hdr # fs)" "hdr \<notin> {hd as..last as}" "sorted_wrt (\<lambda>x y. x + 36 \<le> y) as" "last as + 24 \<le> 2 ^ 32"
    "set fs \<subseteq> set as" "last as \<notin> set fs" "successively (\<lambda>x y. x \<notin> set fs \<or> y \<notin> set fs) as"
    "\<And>x. x \<in> set as \<Longrightarrow> mhi_pool_ptr (I x) = m"
    "\<And>x. x \<in> set as \<Longrightarrow> mhi_magic (I x) = (if x \<in> set fs then RT_MEMHEAP_MAGIC else RT_MEMHEAP_MAGIC OR RT_MEMHEAP_USED)"
  using assms unfolding mh_layout_def by blast+

lemma mh_free_distinct: "mh_layout m hdr I as (fu @ x # fv) \<Longrightarrow> x \<notin> set (hdr # fu @ fv)"
  by (auto simp: mh_layout_def cyc_def)

text \<open>Taking a free item as a whole, and taking the front of one.\<close>

lemma take_whole:
  assumes lay: "mh_layout m hdr I as (fu @ x # fv)"
  defines "J \<equiv> mh_mark (RT_MEMHEAP_MAGIC OR RT_MEMHEAP_USED) x (mh_clear x (mh_unlink_free x I))"
  shows "mh_layout m hdr J as (fu @ fv)" "free_bytes J (fu @ fv) = free_bytes I (fu @ x # fv) - MEMITEM_SIZE I x"
proof -
  note d = mh_free_distinct [OF lay] and L = mh_layoutD [OF lay]
  have "cyc (frees J) (hdr # fu @ fv)"
    using unlink_free_ring [of I "hdr # fu" x fv] L(2) clear_ring [OF d] by (simp add: J_def)
  moreover have "successively (\<lambda>x y. x \<notin> set (fu @ fv) \<or> y \<notin> set (fu @ fv)) as"
    by (rule no_pairs_mono [OF L(8)]) auto
  moreover have "mhi_magic (J z) = (if z \<in> set (fu @ fv) then RT_MEMHEAP_MAGIC else RT_MEMHEAP_MAGIC OR RT_MEMHEAP_USED)" if "z \<in> set as" for z
    using L(10) [OF that] d by (auto simp: J_def)
  moreover have "phys J = phys I" "mhi_pool_ptr (J z) = mhi_pool_ptr (I z)" for z by (simp_all add: J_def)
  ultimately show "mh_layout m hdr J as (fu @ fv)" using L(1,3-7,9) unfolding mh_layout_def by auto
  show "free_bytes J (fu @ fv) = free_bytes I (fu @ x # fv) - MEMITEM_SIZE I x"
    by (simp add: free_bytes_def J_def)
qed

lemma sorted_between:
  assumes "sorted_wrt (\<lambda>x y :: nat. x + 36 \<le> y) (us @ x # y # vs)" "x + 36 \<le> n" "n + 36 \<le> y"
  shows "sorted_wrt (\<lambda>x y :: nat. x + 36 \<le> y) (us @ x # n # y # vs)" "n \<notin> set (us @ x # y # vs)"
  using assms by (fastforce simp: sorted_wrt_append)+

lemma free_bytes_cong: "(\<And>z. z \<in> set fs \<Longrightarrow> mhi_next (I z) = mhi_next (J z)) \<Longrightarrow> free_bytes I fs = free_bytes J fs"
  unfolding free_bytes_def by (rule arg_cong [of _ _ sum_list]) (auto simp: MEMITEM_SIZE_def)

lemma free_bytes_split: "free_bytes I (fu @ x # fv) = MEMITEM_SIZE I x + free_bytes I (fu @ fv)"
  by (simp add: free_bytes_def)

lemma take_split:
  assumes lay: "mh_layout m hdr I (us @ x # y # vs) (fu @ x # fv)" and k: "12 \<le> k" "x + 24 + k + 36 \<le> y"
  defines "n \<equiv> x + 24 + k"
  defines "J \<equiv> mh_mark (RT_MEMHEAP_MAGIC OR RT_MEMHEAP_USED) x (mh_push_free hdr n (mh_clear x (mh_unlink_free x (mh_link_after m x n I))))"
  shows "mh_layout m hdr J (us @ x # n # y # vs) (n # fu @ fv)"
    "free_bytes J (n # fu @ fv) = free_bytes I (fu @ x # fv) - (of_nat k + 24)"
    "mhi_next (J z) = (if z = x then n else if z = n then y else mhi_next (I z))"
proof -
  note d = mh_free_distinct [OF lay] and L = mh_layoutD [OF lay] and it = mh_item [OF lay refl]
  have srt: "sorted_wrt (\<lambda>x y. x + 36 \<le> y) (us @ x # n # y # vs)" and new: "n \<notin> set (us @ x # y # vs)"
    using sorted_between [OF L(4), of n] k by (simp_all add: n_def)
  have nf: "n \<notin> set (fu @ x # fv)" using new L(6) by blast
  show nx: "mhi_next (J z) = (if z = x then n else if z = n then y else mhi_next (I z))" for z
    using new it(1) by (simp add: J_def link_after_next)
  have yfree: "y \<notin> set (fu @ x # fv)" using L(8) by (simp add: successively_append_iff)
  have ends: "hd (us @ x # n # y # vs) = hd (us @ x # y # vs)" "last (us @ x # n # y # vs) = last (us @ x # y # vs)" by (cases us) simp_all
  have "hd (us @ x # n # y # vs) \<le> n" "n \<le> last (us @ x # n # y # vs)" using sorted_hd [OF srt] sorted_last [OF srt] by simp_all
  then have hn: "n \<noteq> hdr" using L(3) ends by auto
  have cp: "cyc (phys J) (us @ x # n # y # vs)" using link_after_ring [OF L(1) new, of m] by (simp add: J_def)
  have cf: "cyc (frees J) (hdr # n # fu @ fv)"
    using push_free_ring [of "mh_clear x (mh_unlink_free x (mh_link_after m x n I))" hdr "fu @ fv" n] nf hn clear_ring [OF d]
      unlink_free_ring [of "mh_link_after m x n I" "hdr # fu" x fv] L(2) by (simp add: J_def)
  have np: "successively (\<lambda>a b. a \<notin> set (n # fu @ fv) \<or> b \<notin> set (n # fu @ fv)) (us @ x # n # y # vs)"
  proof -
    have "successively (\<lambda>a b. a \<notin> set (n # fu @ fv) \<or> b \<notin> set (n # fu @ fv)) (us @ x # y # vs)"
      by (rule no_pairs_mono [OF L(8)]) (use new in auto)
    then show ?thesis using d yfree new by (auto simp: successively_append_iff)
  qed
  have mg: "mhi_magic (J z) = (if z \<in> set (n # fu @ fv) then RT_MEMHEAP_MAGIC else RT_MEMHEAP_MAGIC OR RT_MEMHEAP_USED)"
    if "z \<in> set (us @ x # n # y # vs)" for z
    using L(10) [of z] that d new by (auto simp: J_def)
  have pp: "mhi_pool_ptr (J z) = m" if "z \<in> set (us @ x # n # y # vs)" for z
    using L(9) [of z] that by (auto simp: J_def)
  have sub: "set (n # fu @ fv) \<subseteq> set (us @ x # n # y # vs)" "last (us @ x # y # vs) \<notin> set (n # fu @ fv)"
    using L(6,7) new last_in_set [of "us @ x # y # vs"] by auto
  show "mh_layout m hdr J (us @ x # n # y # vs) (n # fu @ fv)"
    unfolding mh_layout_def using cp cf srt np mg pp sub L(3,5) unfolding ends by blast
  show "free_bytes J (n # fu @ fv) = free_bytes I (fu @ x # fv) - (of_nat k + 24)"
  proof -
    have "free_bytes J (fu @ fv) = free_bytes I (fu @ fv)" using nf d by (intro free_bytes_cong) (auto simp: nx)
    moreover have "MEMITEM_SIZE J n + (of_nat k + 24) = MEMITEM_SIZE I x"
      using new by (simp add: MEMITEM_SIZE_def nx it(1) n_def)
    ultimately show ?thesis using free_bytes_split [of J "[]" n "fu @ fv"] free_bytes_split [of I fu x fv] by (simp add: algebra_simps)
  qed
qed

subsection \<open>Requests\<close>

text \<open>The regions a heap has handed out: the used items except the one at the end.\<close>

definition mh_used :: "(nat \<Rightarrow> rt_memheap_item) \<Rightarrow> nat list \<Rightarrow> regions" where
  "mh_used I as a = (if 24 \<le> a \<and> a - 24 \<in> set (butlast as) \<and> RT_MEMHEAP_IS_USED I (a - 24) then Some (mhi_next (I (a - 24)) - a) else None)"

definition mh_counts :: "rt_memheap \<Rightarrow> rt_memheap \<Rightarrow> bool" where
  "mh_counts h h' \<longleftrightarrow> h'\<lparr>mh_available_size := mh_available_size h, mh_max_used_size := mh_max_used_size h\<rparr> = h"

lemma mh_countsD:
  "mh_counts h h' \<Longrightarrow> mh_free_list h' = mh_free_list h \<and> mh_start_addr h' = mh_start_addr h \<and> mh_pool_size h' = mh_pool_size h \<and>
     mh_block_list h' = mh_block_list h \<and> mh_lock h' = mh_lock h \<and> mh_locked h' = mh_locked h"
  by (cases h; cases h') (simp add: mh_counts_def)

lemma mh_counts_take [simp]: "mh_counts h (mh_take_size n h)" "mh_available_size (mh_take_size n h) = mh_available_size h - n"
  "mh_free_list (mh_take_size n h) = mh_free_list h"
  by (simp_all add: mh_counts_def mh_take_size_def Let_def)

lemma find_split: "find P xs = Some x \<Longrightarrow> \<exists>us vs. xs = us @ x # vs \<and> P x"
  by (induction xs) (auto split: if_splits, metis append_Cons)

lemma mh_used_upd:
  assumes "\<And>z. z \<noteq> x \<Longrightarrow> (z \<in> set (butlast bs) \<and> RT_MEMHEAP_IS_USED J z) = (z \<in> set (butlast as) \<and> RT_MEMHEAP_IS_USED I z)"
    and "\<And>z. z \<noteq> x \<Longrightarrow> z \<in> set (butlast as) \<Longrightarrow> RT_MEMHEAP_IS_USED I z \<Longrightarrow> mhi_next (J z) = mhi_next (I z)"
  shows "mh_used J bs = (mh_used I as)(x + 24 := mh_used J bs (x + 24))"
proof
  fix a
  show "mh_used J bs a = ((mh_used I as)(x + 24 := mh_used J bs (x + 24))) a"
  proof (cases "24 \<le> a \<and> a \<noteq> x + 24")
    case True
    then have "a - 24 \<noteq> x" by auto
    then show ?thesis using assms(1) [of "a - 24"] assms(2) [of "a - 24"] True by (auto simp: mh_used_def)
  next
    case False
    then show ?thesis by (cases "a = x + 24") (simp_all add: mh_used_def)
  qed
qed

lemma mh_alloc_none:
  assumes lay: "mh_layout m (mh_free_list h) I as fs" and sz: "0 < sz" and f: "find (\<lambda>x. sz \<le> MEMITEM_SIZE I x) fs = None"
  shows "mh_alloc m sz (h, I) = Some (None, h, I)"
proof -
  have "mhi_next_free (I (mh_free_list h)) = hd (fs @ [mh_free_list h])"
    using cyc_next [of "frees I" "[]" "mh_free_list h" fs] mh_layoutD(2) [OF lay] by simp
  then show ?thesis using mh_search_ok [of I "mh_free_list h" "[]" fs 0 sz] mh_layoutD(2) [OF lay] sz f
    by (auto simp: mh_alloc_def)
qed

lemma mh_alloc_some:
  assumes lay: "mh_layout m (mh_free_list h) I as fs" and sz: "0 < sz" and f: "find (\<lambda>x. sz \<le> MEMITEM_SIZE I x) fs = Some x"
  shows "mh_alloc m sz (h, I) =
    (if sz + 36 \<le> MEMITEM_SIZE I x
     then Some (Some (x + 24), mh_take_size (sz + 24) h,
       mh_mark (RT_MEMHEAP_MAGIC OR RT_MEMHEAP_USED) x (mh_push_free (mh_free_list h) (x + unat (sz + 24))
         (mh_clear x (mh_unlink_free x (mh_link_after m x (x + unat (sz + 24)) I)))))
     else Some (Some (x + 24), mh_take_size (MEMITEM_SIZE I x) h,
       mh_mark (RT_MEMHEAP_MAGIC OR RT_MEMHEAP_USED) x (mh_clear x (mh_unlink_free x I))))"
proof -
  have "mhi_next_free (I (mh_free_list h)) = hd (fs @ [mh_free_list h])"
    using cyc_next [of "frees I" "[]" "mh_free_list h" fs] mh_layoutD(2) [OF lay] by simp
  moreover have "sz \<le> MEMITEM_SIZE I x" using find_split [OF f] by blast
  ultimately show ?thesis using mh_search_ok [of I "mh_free_list h" "[]" fs 0 sz] mh_layoutD(2) [OF lay] sz f
    by (auto simp: mh_alloc_def Let_def mh_clear_def mh_mark_def add.assoc)
qed

lemma mh_alloc_ok:
  assumes lay: "mh_layout m (mh_free_list h) I as fs" and av: "mh_available_size h = free_bytes I fs" and sz: "12 \<le> sz"
  obtains (none) "mh_alloc m sz (h, I) = Some (None, h, I)" "find (\<lambda>x. sz \<le> MEMITEM_SIZE I x) fs = None"
  | (some) x h' J bs gs n where "mh_alloc m sz (h, I) = Some (Some (x + 24), h', J)" "find (\<lambda>x. sz \<le> MEMITEM_SIZE I x) fs = Some x"
      "mh_layout m (mh_free_list h') J bs gs" "mh_available_size h' = free_bytes J gs" "mh_counts h h'" "hd bs = hd as" "last bs = last as"
      "mh_used I as (x + 24) = None" "mh_used J bs = (mh_used I as)(x + 24 \<mapsto> n)" "unat sz \<le> n" "n < unat sz + 36"
proof (cases "find (\<lambda>x. sz \<le> MEMITEM_SIZE I x) fs")
  case None
  moreover have "0 < sz" using sz by (simp add: word_le_nat_alt word_less_nat_alt)
  ultimately show ?thesis using mh_alloc_none [OF lay] none by blast
next
  case (Some x)
  obtain fu fv where fs: "fs = fu @ x # fv" and le: "sz \<le> MEMITEM_SIZE I x" using find_split [OF Some] by blast
  obtain us y vs where as: "as = us @ x # y # vs" by (rule mh_free_split [OF lay, of x]) (simp add: fs)
  note lay' = lay [unfolded fs as] and it = mh_item [OF lay as] and d = mh_free_distinct [OF lay [unfolded fs]]
  have szn: "12 \<le> unat sz" "unat sz \<le> y - x - 24" using sz le it(5) by (simp_all add: word_le_nat_alt)
  then have u: "unat (sz + 24) = unat sz + 24" "unat (sz + 36) = unat sz + 36" using it(4) by (simp_all add: unat_word_ariths)
  have z: "0 < sz" using sz by (simp add: word_le_nat_alt word_less_nat_alt)
  have unused: "mh_used I as (x + 24) = None" using mh_layout_used [OF lay, of x] by (simp add: mh_used_def fs as)
  show ?thesis
  proof (cases "sz + 36 \<le> MEMITEM_SIZE I x")
    case True
    let ?n = "x + 24 + unat sz"
    let ?J = "mh_mark (RT_MEMHEAP_MAGIC OR RT_MEMHEAP_USED) x (mh_push_free (mh_free_list h) ?n (mh_clear x (mh_unlink_free x (mh_link_after m x ?n I))))"
    have k: "x + 24 + unat sz + 36 \<le> y" using True it(3,5) u by (simp add: word_le_nat_alt)
    note sp = take_split [OF lay' szn(1) k]
    have run: "mh_alloc m sz (h, I) = Some (Some (x + 24), mh_take_size (sz + 24) h, ?J)"
      using mh_alloc_some [OF lay z Some] True u by (simp add: add_ac)
    have new: "?n \<notin> set as" using sorted_between(2) [of us x y vs ?n] mh_layoutD(4) [OF lay] szn(1) k by (simp add: as)
    have regs: "mh_used ?J (us @ x # ?n # y # vs) = (mh_used I as)(x + 24 \<mapsto> unat sz)"
    proof -
      have "mh_used ?J (us @ x # ?n # y # vs) (x + 24) = Some (unat sz)"
        using mh_layout_used [OF sp(1), of x] d szn(1) by (simp add: mh_used_def butlast_append link_after_next)
      moreover have "RT_MEMHEAP_IS_USED ?J ?n = False" using mh_layout_used [OF sp(1), of ?n] by simp
      then have "(z \<in> set (butlast (us @ x # ?n # y # vs)) \<and> RT_MEMHEAP_IS_USED ?J z) = (z \<in> set (butlast as) \<and> RT_MEMHEAP_IS_USED I z)"
        if "z \<noteq> x" for z
        using that new by (cases "z = ?n") (auto simp: as butlast_append RT_MEMHEAP_IS_USED_def dest: in_set_butlastD)
      moreover have "mhi_next (?J z) = mhi_next (I z)" if "z \<noteq> x" "z \<in> set (butlast as)" for z
        using that new in_set_butlastD [OF that(2)] by (auto simp: link_after_next)
      ultimately show ?thesis using mh_used_upd [of x "us @ x # ?n # y # vs" ?J as I] by auto
    qed
    show ?thesis
      by (rule some [where gs = "?n # fu @ fv", OF run Some _ _ _ _ _ unused regs]) (use sp(1,2) av in \<open>simp_all add: fs as hd_append\<close>)
  next
    case False
    let ?J = "mh_mark (RT_MEMHEAP_MAGIC OR RT_MEMHEAP_USED) x (mh_clear x (mh_unlink_free x I))"
    note wh = take_whole [OF lay [unfolded fs]]
    have run: "mh_alloc m sz (h, I) = Some (Some (x + 24), mh_take_size (MEMITEM_SIZE I x) h, ?J)"
      using mh_alloc_some [OF lay z Some] False by simp
    have regs: "mh_used ?J as = (mh_used I as)(x + 24 \<mapsto> y - (x + 24))"
      using mh_used_upd [of x as ?J as I] it(1) by (simp add: mh_used_def as butlast_append RT_MEMHEAP_IS_USED_def)
    have "y - (x + 24) < unat sz + 36" using False it(3,5) u by (simp add: word_le_nat_alt)
    then show ?thesis
      by (intro some [where gs = "fu @ fv", OF run Some _ _ _ _ _ unused regs]) (use wh szn av in \<open>simp_all add: fs\<close>)
  qed
qed

subsection \<open>Giving an item back\<close>

text \<open>
  Between the steps, the items marked as free and those in the free ring differ: \<open>A\<close> are the marked ones.
\<close>

definition mh_lay :: "nat \<Rightarrow> nat \<Rightarrow> (nat \<Rightarrow> rt_memheap_item) \<Rightarrow> nat list \<Rightarrow> nat list \<Rightarrow> nat set \<Rightarrow> bool" where
  "mh_lay m hdr I as fs A \<longleftrightarrow>
     cyc (phys I) as \<and> cyc (frees I) (hdr # fs) \<and> hdr \<notin> {hd as..last as} \<and> sorted_wrt (\<lambda>x y. x + 36 \<le> y) as \<and> last as + 24 \<le> 2 ^ 32 \<and>
     last as \<notin> A \<and>
     (\<forall>x\<in>set as. mhi_pool_ptr (I x) = m \<and> mhi_magic (I x) = (if x \<in> A then RT_MEMHEAP_MAGIC else RT_MEMHEAP_MAGIC OR RT_MEMHEAP_USED))"

definition no_pairs :: "nat set \<Rightarrow> nat list \<Rightarrow> bool" where
  "no_pairs A xs = successively (\<lambda>x y. x \<notin> A \<or> y \<notin> A) xs"

lemma no_pairs_append:
  "no_pairs A (xs @ ys) \<longleftrightarrow> no_pairs A xs \<and> no_pairs A ys \<and> (xs = [] \<or> ys = [] \<or> last xs \<notin> A \<or> hd ys \<notin> A)"
  by (auto simp: no_pairs_def successively_append_iff)

lemma no_pairs_simps [simp]: "no_pairs A []" "no_pairs A [x]" "no_pairs A (x # y # xs) \<longleftrightarrow> (x \<notin> A \<or> y \<notin> A) \<and> no_pairs A (y # xs)"
  by (auto simp: no_pairs_def)

lemma no_pairs_sub: "no_pairs A xs \<Longrightarrow> B \<inter> set xs \<subseteq> A \<Longrightarrow> no_pairs B xs"
  unfolding no_pairs_def by (rule no_pairs_mono)

lemma mh_layout_lay: "mh_layout m hdr I as fs \<longleftrightarrow> mh_lay m hdr I as fs (set fs) \<and> set fs \<subseteq> set as \<and> no_pairs (set fs) as"
  unfolding mh_layout_def mh_lay_def no_pairs_def by blast

lemma mh_layD:
  assumes "mh_lay m hdr I as fs A"
  shows "cyc (phys I) as" "cyc (frees I) (hdr # fs)" "hdr \<notin> {hd as..last as}" "sorted_wrt (\<lambda>x y. x + 36 \<le> y) as" "last as + 24 \<le> 2 ^ 32"
    "last as \<notin> A" "\<And>x. x \<in> set as \<Longrightarrow> mhi_pool_ptr (I x) = m"
    "\<And>x. x \<in> set as \<Longrightarrow> mhi_magic (I x) = (if x \<in> A then RT_MEMHEAP_MAGIC else RT_MEMHEAP_MAGIC OR RT_MEMHEAP_USED)"
  using assms unfolding mh_lay_def by blast+

lemma lay_used: "mh_lay m hdr I as fs A \<Longrightarrow> x \<in> set as \<Longrightarrow> RT_MEMHEAP_IS_USED I x \<longleftrightarrow> x \<notin> A"
  by (simp add: mh_lay_def RT_MEMHEAP_IS_USED_def)

lemma lay_hdr: "mh_lay m hdr I as fs A \<Longrightarrow> x \<in> set as \<Longrightarrow> x \<noteq> hdr"
  using sorted_hd [of as x] sorted_last [of as x] by (auto simp: mh_lay_def)

lemma lay_mark:
  assumes "mh_lay m hdr I as fs A" "x \<noteq> last as"
  shows "mh_lay m hdr (mh_mark RT_MEMHEAP_MAGIC x I) as fs (insert x A)"
  using mh_layD [OF assms(1)] assms(2) unfolding mh_lay_def by auto

lemma lay_unlink:
  assumes "mh_lay m hdr I (us @ p # y # vs) fs A" "vs \<noteq> []"
  shows "mh_lay m hdr (mh_unlink y I) (us @ p # vs) fs (A - {y})"
proof -
  note L = mh_layD [OF assms(1)]
  have "cyc (phys (mh_unlink y I)) (us @ p # vs)" using unlink_ring [of I "us @ [p]" y vs] L(1) by simp
  moreover have "hd (us @ p # vs) = hd (us @ p # y # vs)" "last (us @ p # vs) = last (us @ p # y # vs)" using assms(2) by (cases us; simp)+
  moreover have "y \<notin> set (us @ p # vs)" using L(1) by (auto simp: cyc_def)
  ultimately show ?thesis using L(2-8) unfolding mh_lay_def by (auto simp: sorted_wrt_append)
qed

lemma lay_unlink_free: "mh_lay m hdr I as (fu @ y # fv) A \<Longrightarrow> mh_lay m hdr (mh_unlink_free y I) as (fu @ fv) A"
  using unlink_free_ring [of I "hdr # fu" y fv] unfolding mh_lay_def by simp

lemma lay_insert:
  "mh_lay m hdr I as fs A \<Longrightarrow> x \<in> set as \<Longrightarrow> x \<notin> set fs \<Longrightarrow> mh_lay m hdr (mh_insert_free (mhi_next_free (I hdr)) x I) as (x # fs) A"
  using insert_free_ring [of I hdr fs x] lay_hdr [of m hdr I as fs A x] unfolding mh_lay_def by simp

lemma lay_push:
  "mh_lay m hdr I as fs A \<Longrightarrow> x \<in> set as \<Longrightarrow> x \<notin> set fs \<Longrightarrow> mh_lay m hdr (mh_push_free hdr x I) as (x # fs) A"
  using push_free_ring [of I hdr fs x] lay_hdr [of m hdr I as fs A x] unfolding mh_lay_def by simp

lemma lay_link:
  assumes lay: "mh_lay m hdr I (us @ x # y # vs) fs A" and n: "x + 36 \<le> n" "n + 36 \<le> y"
  shows "mh_lay m hdr (mh_link_after m x n I) (us @ x # n # y # vs) fs (insert n A)"
proof -
  note L = mh_layD [OF lay]
  note b = sorted_between [OF L(4) n]
  have "cyc (phys (mh_link_after m x n I)) (us @ x # n # y # vs)" by (rule link_after_ring [OF L(1) b(2)])
  moreover have "hd (us @ x # n # y # vs) = hd (us @ x # y # vs)" "last (us @ x # n # y # vs) = last (us @ x # y # vs)" by (cases us; simp)+
  moreover have "last (us @ x # y # vs) \<noteq> n" using b(2) last_in_set [of "us @ x # y # vs"] by auto
  ultimately show ?thesis using L(2,3,5-8) b unfolding mh_lay_def by auto
qed

lemma lay_item:
  assumes lay: "mh_lay m hdr I (us @ x # y # vs) fs A"
  shows "mhi_next (I x) = y" "mhi_prev (I y) = x" "x + 36 \<le> y" "y + 24 \<le> 2 ^ 32"
proof -
  note L = mh_layD [OF lay]
  show "mhi_next (I x) = y" "mhi_prev (I y) = x" using cyc_adjacent [OF L(1)] by simp_all
  show "x + 36 \<le> y" using L(4) by (simp add: sorted_wrt_append)
  show "y + 24 \<le> 2 ^ 32" using sorted_last [OF L(4), of y] L(5) by simp
qed

lemma free_bytes_sum: "distinct fs \<Longrightarrow> free_bytes I fs = sum (MEMITEM_SIZE I) (set fs)"
  by (simp add: free_bytes_def sum_list_distinct_conv_sum_set)

lemma item_merge:
  assumes "mhi_next (I p) = y" "mhi_next (I y) = z" "mhi_next (J p) = z"
    and "\<And>u. u \<in> A \<Longrightarrow> u \<noteq> p \<Longrightarrow> u \<noteq> y \<Longrightarrow> mhi_next (J u) = mhi_next (I u)" "finite A" "p \<in> A" "y \<in> A" "p \<noteq> y"
  shows "sum (MEMITEM_SIZE J) (A - {y}) = sum (MEMITEM_SIZE I) A + 24"
proof -
  have "sum (MEMITEM_SIZE I) A = MEMITEM_SIZE I y + (MEMITEM_SIZE I p + sum (MEMITEM_SIZE I) (A - {y} - {p}))"
    using assms(5-8) sum.remove [of A y "MEMITEM_SIZE I"] sum.remove [of "A - {y}" p "MEMITEM_SIZE I"] by simp
  moreover have "sum (MEMITEM_SIZE J) (A - {y}) = MEMITEM_SIZE J p + sum (MEMITEM_SIZE J) (A - {y} - {p})"
    using assms(5-8) by (intro sum.remove) auto
  moreover have "sum (MEMITEM_SIZE J) (A - {y} - {p}) = sum (MEMITEM_SIZE I) (A - {y} - {p})"
    using assms(4) by (intro sum.cong) (auto simp: MEMITEM_SIZE_def)
  moreover have "MEMITEM_SIZE J p = MEMITEM_SIZE I y + MEMITEM_SIZE I p + 24" using assms(1-3) by (simp add: MEMITEM_SIZE_def)
  ultimately show ?thesis by (simp add: algebra_simps)
qed

text \<open>Merging the successor of a free item: its region is not one of the used ones, so those stay.\<close>

lemma merge_item:
  assumes lay: "mh_lay m hdr I (us @ p # y # vs) fs A" and A: "p \<in> A" "y \<in> A" "finite A"
  obtains z ws where "vs = z # ws" "mh_lay m hdr (mh_unlink y I) (us @ p # vs) fs (A - {y})"
    "sum (MEMITEM_SIZE (mh_unlink y I)) (A - {y}) = sum (MEMITEM_SIZE I) A + 24"
    "mh_used (mh_unlink y I) (us @ p # vs) = mh_used I (us @ p # y # vs)" "hd (us @ p # vs) = hd (us @ p # y # vs)"
    "last (us @ p # vs) = last (us @ p # y # vs)"
proof -
  note L = mh_layD [OF lay]
  obtain z ws where vs: "vs = z # ws" using L(6) A(2) by (cases vs) auto
  have lay': "mh_lay m hdr (mh_unlink y I) (us @ p # vs) fs (A - {y})" by (rule lay_unlink [OF lay]) (simp add: vs)
  have ne: "p \<noteq> y" "y \<notin> set (us @ p # vs)" using L(1) by (auto simp: cyc_def)
  have nx: "mhi_next (mh_unlink y I u) = (if u = p then z else mhi_next (I u))" for u
    using unlink_next [OF L(1)] lay_item(1) [of m hdr I "us @ [p]" y z ws fs A] lay vs by simp
  have "sum (MEMITEM_SIZE (mh_unlink y I)) (A - {y}) = sum (MEMITEM_SIZE I) A + 24"
    using lay_item(1) [OF lay] lay_item(1) [of m hdr I "us @ [p]" y z ws fs A] lay vs A ne by (intro item_merge [where p = p and z = z]) (auto simp: nx)
  moreover have "mh_used (mh_unlink y I) (us @ p # vs) = mh_used I (us @ p # y # vs)"
  proof
    fix a
    have "a - 24 \<in> set (butlast (us @ p # vs)) \<longleftrightarrow> a - 24 \<in> set (butlast (us @ p # y # vs)) \<and> a - 24 \<noteq> y"
      using ne(2) by (auto simp: vs butlast_append dest: in_set_butlastD)
    moreover have "\<not> RT_MEMHEAP_IS_USED I y" "\<not> RT_MEMHEAP_IS_USED I p" using lay_used [OF lay] A by auto
    ultimately show "mh_used (mh_unlink y I) (us @ p # vs) a = mh_used I (us @ p # y # vs) a"
      by (auto simp: mh_used_def RT_MEMHEAP_IS_USED_def nx)
  qed
  moreover have "hd (us @ p # vs) = hd (us @ p # y # vs)" "last (us @ p # vs) = last (us @ p # y # vs)" using vs by (cases us; simp)+
  ultimately show ?thesis by (intro that [OF vs lay'])
qed

lemma merge_prev_ok:
  assumes lay: "mh_lay m hdr I (us @ x # y # vs) fs (insert x (set fs))" and x: "x \<notin> set fs" and np: "no_pairs (set fs) (us @ x # y # vs)"
    and sub: "set fs \<subseteq> set (us @ x # y # vs)"
    and av: "mh_available_size h = sum (MEMITEM_SIZE I) (insert x (set fs))"
  obtains p h' J us' where "mh_merge_prev x (h, I) = (p \<notin> set fs, p, h', J)" "mh_lay m hdr J (us' @ p # y # vs) fs (insert p (set fs))"
    "mh_available_size h' = sum (MEMITEM_SIZE J) (insert p (set fs))" "mh_counts h h'"
    "hd (us' @ p # y # vs) = hd (us @ x # y # vs)" "last (us' @ p # y # vs) = last (us @ x # y # vs)"
    "no_pairs (insert p (set fs)) (us' @ [p])" "no_pairs (set fs) (y # vs)" "p \<notin> set (y # vs)"
    "mh_used J (us' @ p # y # vs) = mh_used I (us @ x # y # vs)" "set fs \<subseteq> set (us' @ p # y # vs)"
proof -
  note L = mh_layD [OF lay]
  have npv: "no_pairs (set fs) (y # vs)" using np by (simp add: no_pairs_append)
  show ?thesis
  proof (cases "RT_MEMHEAP_IS_USED I (mhi_prev (I x))")
    case True
    have "no_pairs (insert x (set fs)) (us @ [x])"
    proof (cases us rule: rev_cases)
      case (snoc ws q)
      have q: "mhi_prev (I x) = q" using lay_item(2) [of m hdr I ws q x "y # vs" fs "insert x (set fs)"] lay snoc by simp
      have "q \<notin> insert x (set fs)" using lay_used [OF lay, of q] True q snoc by simp
      moreover have "no_pairs (insert x (set fs)) us"
      proof -
        have "x \<notin> set us" using L(1) by (auto simp: cyc_def)
        moreover have us: "no_pairs (set fs) us" using np by (simp add: no_pairs_append)
        ultimately show ?thesis using no_pairs_sub [OF us, of "insert x (set fs)"] by auto
      qed
      ultimately show ?thesis using snoc by (simp add: no_pairs_append)
    qed (simp add: no_pairs_def)
    moreover have "x \<notin> set (y # vs)" using L(1) by (auto simp: cyc_def)
    moreover have "mh_merge_prev x (h, I) = (x \<notin> set fs, x, h, I)" using True x by (simp add: mh_merge_prev_def)
    ultimately show ?thesis using that [of x h I us] lay av npv sub by (simp add: mh_counts_def)
  next
    case False
    obtain ws q where us: "us = ws @ [q]" and q: "mhi_prev (I x) = q"
    proof (cases us rule: rev_cases)
      case Nil
      then have "mhi_prev (I x) = last (us @ x # y # vs)" using cyc_ends [OF L(1)] by simp
      then show ?thesis using False lay_used [OF lay, of "last (us @ x # y # vs)"] L(6) Nil last_in_set [of "us @ x # y # vs"] by simp
    next
      case (snoc ws q)
      then show ?thesis using that lay_item(2) [of m hdr I ws q x "y # vs" fs "insert x (set fs)"] lay by simp
    qed
    have c: "cyc (phys I) (ws @ q # x # y # vs)" using L(1) us by simp
    have qx: "q \<noteq> x" "q \<notin> set (y # vs)" using c by (auto simp: cyc_def)
    have qf: "q \<in> set fs" using lay_used [OF lay, of q] False q qx us by simp
    have lay1: "mh_lay m hdr I (ws @ q # x # y # vs) fs (insert x (set fs))" using lay us by simp
    obtain mg: "mh_lay m hdr (mh_unlink x I) (ws @ q # y # vs) fs (insert x (set fs) - {x})"
      "sum (MEMITEM_SIZE (mh_unlink x I)) (insert x (set fs) - {x}) = sum (MEMITEM_SIZE I) (insert x (set fs)) + 24"
      "mh_used (mh_unlink x I) (ws @ q # y # vs) = mh_used I (ws @ q # x # y # vs)" "hd (ws @ q # y # vs) = hd (ws @ q # x # y # vs)"
      by (rule merge_item [OF lay1]) (use qf in auto)
    have A: "insert x (set fs) - {x} = insert q (set fs)" using x qf by auto
    let ?h = "h\<lparr>mh_available_size := mh_available_size h + 24\<rparr>"
    have prv: "mhi_prev (mh_unlink x I x) = q" using q cyc_adjacent [OF c] cyc_next [of "phys I" "ws @ [q]" x "y # vs"] c qx(1) by (auto simp: mh_links)
    have "mh_merge_prev x (h, I) = (False, q, ?h, mh_unlink x I)" 
      using False q qx lay_item(1) [OF lay] cyc_adjacent [of "phys I" "ws @ [q]" x y vs] c
      by (auto simp: mh_merge_prev_def mh_links fun_eq_iff cyc_def)
    moreover have "no_pairs (insert q (set fs)) (ws @ [q])"
      using np qf by (simp add: us insert_absorb no_pairs_append)
    moreover have "set fs \<subseteq> set (ws @ q # y # vs)" using sub x by (auto simp: us)
    ultimately show ?thesis using that [of q ?h "mh_unlink x I" ws] mg npv av qf qx us by (simp add: A mh_counts_def)
  qed
qed

lemma mh_used_keeps [simp]: "mh_used (mh_unlink_free x I) as = mh_used I as" "mh_used (mh_insert_free k x I) as = mh_used I as"
  "mh_used (mh_push_free k x I) as = mh_used I as"
  by (simp_all add: mh_used_def RT_MEMHEAP_IS_USED_def fun_eq_iff)

lemma merge_next_ok:
  assumes lay: "mh_lay m hdr I (us @ p # y # vs) fs (insert p (set fs))" and sub: "set fs \<subseteq> set (us @ p # y # vs)"
    and np: "no_pairs (insert p (set fs)) (us @ [p])" "no_pairs (set fs) (y # vs)" and p: "p \<notin> set (y # vs)"
    and av: "mh_available_size h = sum (MEMITEM_SIZE I) (insert p (set fs))"
  obtains h' J vs' fs' where "mh_merge_next p (h, I) = (h', J)" "mh_lay m hdr J (us @ p # vs') fs' (insert p (set fs'))"
    "set fs' \<subseteq> set (us @ p # vs')" "no_pairs (insert p (set fs')) (us @ p # vs')"
    "mh_available_size h' = sum (MEMITEM_SIZE J) (insert p (set fs'))" "mh_counts h h'" "p \<in> set fs' \<longleftrightarrow> p \<in> set fs"
    "hd (us @ p # vs') = hd (us @ p # y # vs)" "last (us @ p # vs') = last (us @ p # y # vs)"
    "mh_used J (us @ p # vs') = mh_used I (us @ p # y # vs)"
proof -
  note L = mh_layD [OF lay] and nx = lay_item(1) [OF lay]
  have y: "RT_MEMHEAP_IS_USED I y \<longleftrightarrow> y \<notin> set fs" using lay_used [OF lay, of y] p by auto
  show ?thesis
  proof (cases "y \<in> set fs")
    case False
    have "no_pairs (insert p (set fs)) (y # vs)" using p by (intro no_pairs_sub [OF np(2)]) auto
    then have "no_pairs (insert p (set fs)) (us @ p # y # vs)" using np(1) False p no_pairs_append [of _ "us @ [p]" "y # vs"] by simp
    moreover have "mh_merge_next p (h, I) = (h, I)" using False y nx by (simp add: mh_merge_next_def)
    ultimately show ?thesis using that [of h I "y # vs" fs] lay sub av by (simp add: mh_counts_def)
  next
    case True
    then obtain fu fv where fs: "fs = fu @ y # fv" by (meson split_list)
    have d: "y \<notin> set (fu @ fv)" using L(2) by (auto simp: cyc_def fs)
    have py: "p \<noteq> y" using p by auto
    have A: "insert p (set fs) - {y} = insert p (set (fu @ fv))" using d py by (auto simp: fs)
    obtain z ws where mg: "vs = z # ws" "mh_lay m hdr (mh_unlink y I) (us @ p # vs) fs (insert p (set fs) - {y})"
      "sum (MEMITEM_SIZE (mh_unlink y I)) (insert p (set fs) - {y}) = sum (MEMITEM_SIZE I) (insert p (set fs)) + 24"
      "mh_used (mh_unlink y I) (us @ p # vs) = mh_used I (us @ p # y # vs)" "hd (us @ p # vs) = hd (us @ p # y # vs)"
      "last (us @ p # vs) = last (us @ p # y # vs)"
      by (rule merge_item [OF lay]) (use True in auto)
    let ?h = "h\<lparr>mh_available_size := mh_available_size h + 24\<rparr>" and ?J = "mh_unlink_free y (mh_unlink y I)"
    have run: "mh_merge_next p (h, I) = (?h, ?J)" using True y nx merge_right [OF L(1)] by (simp add: mh_merge_next_def Let_def)
    have lay': "mh_lay m hdr ?J (us @ p # vs) (fu @ fv) (insert p (set (fu @ fv)))" using lay_unlink_free [OF mg(2) [unfolded fs]] A by (simp add: fs)
    have sub': "set (fu @ fv) \<subseteq> set (us @ p # vs)" using sub d by (auto simp: fs)
    have zf: "z \<notin> set fs" using np(2) True mg(1) by simp
    have vn: "no_pairs (set fs) vs" using np(2) mg(1) by simp
    have "no_pairs (insert p (set (fu @ fv))) vs" by (rule no_pairs_sub [OF vn]) (use p in \<open>auto simp: fs\<close>)
    moreover have "no_pairs (insert p (set (fu @ fv))) (us @ [p])" by (rule no_pairs_sub [OF np(1)]) (auto simp: fs)
    ultimately have "no_pairs (insert p (set (fu @ fv))) (us @ p # vs)"
      using zf p mg(1) no_pairs_append [of "insert p (set (fu @ fv))" "us @ [p]" vs] by (auto simp: fs)
    then show ?thesis using that [OF run lay' sub'] mg(3-6) av py A by (simp add: fs mh_counts_def)
  qed
qed

lemma mh_free_ok:
  assumes lay: "mh_layout m (mh_free_list h) I as fs" and av: "mh_available_size h = free_bytes I fs"
    and x: "x \<in> set (butlast as)" "x \<notin> set fs"
  obtains h' J bs gs where "mh_free x (h, I) = (h', J)" "mh_layout m (mh_free_list h') J bs gs" "mh_available_size h' = free_bytes J gs"
    "mh_counts h h'" "hd bs = hd as" "last bs = last as" "mh_used J bs = (mh_used I as)(x + 24 := None)"
proof -
  obtain us y vs where as: "as = us @ x # y # vs" by (rule butlast_split [OF x(1)], rule that)
  let ?I = "mh_mark RT_MEMHEAP_MAGIC x I" and ?hdr = "mh_free_list h"
  let ?h = "h\<lparr>mh_available_size := mh_available_size h + MEMITEM_SIZE ?I x\<rparr>"
  have L: "mh_lay m ?hdr I as fs (set fs)" "set fs \<subseteq> set as" "no_pairs (set fs) as" using lay unfolding mh_layout_lay by blast+
  have d: "distinct as" "distinct fs" using mh_layD(1,2) [OF L(1)] by (auto simp: cyc_def)
  have "x \<noteq> last as" using d(1) unfolding as by auto
  then have lay1: "mh_lay m ?hdr ?I (us @ x # y # vs) fs (insert x (set fs))" using lay_mark [OF L(1)] as by simp
  have np: "no_pairs (set fs) (us @ x # y # vs)" and sub: "set fs \<subseteq> set (us @ x # y # vs)" using L(2,3) as by simp_all
  have av1: "mh_available_size ?h = sum (MEMITEM_SIZE ?I) (insert x (set fs))" using av x(2) free_bytes_sum [OF d(2), of I] by simp
  have u1: "mh_used ?I (us @ x # y # vs) = (mh_used I as)(x + 24 := None)"
    using mh_used_upd [of x as ?I as I] by (simp add: as mh_used_def RT_MEMHEAP_IS_USED_def)
  obtain p h1 I1 us1 where s1: "mh_merge_prev x (?h, ?I) = (p \<notin> set fs, p, h1, I1)" "mh_lay m ?hdr I1 (us1 @ p # y # vs) fs (insert p (set fs))"
    "mh_available_size h1 = sum (MEMITEM_SIZE I1) (insert p (set fs))" "mh_counts ?h h1"
    "hd (us1 @ p # y # vs) = hd (us @ x # y # vs)" "last (us1 @ p # y # vs) = last (us @ x # y # vs)"
    "no_pairs (insert p (set fs)) (us1 @ [p])" "no_pairs (set fs) (y # vs)" "p \<notin> set (y # vs)"
    "mh_used I1 (us1 @ p # y # vs) = mh_used ?I (us @ x # y # vs)" "set fs \<subseteq> set (us1 @ p # y # vs)"
    by (rule merge_prev_ok [OF lay1 x(2) np sub av1], rule that)
  obtain h2 I2 vs2 fs2 where s2: "mh_merge_next p (h1, I1) = (h2, I2)" "mh_lay m ?hdr I2 (us1 @ p # vs2) fs2 (insert p (set fs2))"
    "set fs2 \<subseteq> set (us1 @ p # vs2)" "no_pairs (insert p (set fs2)) (us1 @ p # vs2)"
    "mh_available_size h2 = sum (MEMITEM_SIZE I2) (insert p (set fs2))" "mh_counts h1 h2" "p \<in> set fs2 \<longleftrightarrow> p \<in> set fs"
    "hd (us1 @ p # vs2) = hd (us1 @ p # y # vs)" "last (us1 @ p # vs2) = last (us1 @ p # y # vs)"
    "mh_used I2 (us1 @ p # vs2) = mh_used I1 (us1 @ p # y # vs)"
    by (rule merge_next_ok [OF s1(2,11,7-9,3)], rule that)
  have ct: "mh_counts h h2" using s1(4) s2(6) by (cases h; cases h1; cases h2) (simp add: mh_counts_def)
  note fl = conjunct1 [OF mh_countsD [OF ct]]
  let ?J = "mh_insert_free (mhi_next_free (I2 (mh_free_list h2))) p I2"
  have run: "mh_free x (h, I) = (h2, if p \<in> set fs then I2 else ?J)"
    using s1(1) s2(1) by (simp add: mh_free_def Let_def mh_mark_def)
  show ?thesis
  proof (cases "p \<in> set fs")
    case True
    then have i: "insert p (set fs2) = set fs2" using s2(7) by auto
    have "mh_layout m (mh_free_list h2) I2 (us1 @ p # vs2) fs2" using s2(2-4) unfolding mh_layout_lay i fl by blast
    moreover have "distinct fs2" using mh_layD(2) [OF s2(2)] by (simp add: cyc_def)
    ultimately show ?thesis using that [of h2 I2 "us1 @ p # vs2" fs2] run True s2(5,8-10) s1(5,6,10) ct u1 by (simp add: i free_bytes_sum as)
  next
    case False
    then have pf: "p \<notin> set fs2" using s2(7) by simp
    have "mh_lay m ?hdr ?J (us1 @ p # vs2) (p # fs2) (insert p (set fs2))" using lay_insert [OF s2(2), of p] pf by (simp add: fl)
    then have "mh_layout m (mh_free_list h2) ?J (us1 @ p # vs2) (p # fs2)" using s2(3,4) unfolding mh_layout_lay by (simp add: fl)
    moreover have "distinct (p # fs2)" using mh_layD(2) [OF s2(2)] pf by (simp add: cyc_def)
    ultimately show ?thesis using that [of h2 ?J "us1 @ p # vs2" "p # fs2"] run False s2(5,8-10) s1(5,6,10) ct u1
      by (simp add: free_bytes_sum as del: distinct.simps)
  qed
qed

subsection \<open>Changing the size of an item in place\<close>

lemma mh_used_set:
  assumes lay: "mh_lay m hdr I as fs A" "mh_lay m hdr J bs gs B" and x: "x \<in> set (butlast bs)" "x \<notin> B"
    and mem: "\<And>z. z \<noteq> x \<Longrightarrow> z \<in> set (butlast bs) \<and> z \<notin> B \<longleftrightarrow> z \<in> set (butlast as) \<and> z \<notin> A"
    and nx: "\<And>z. z \<noteq> x \<Longrightarrow> z \<in> set (butlast as) \<Longrightarrow> z \<notin> A \<Longrightarrow> mhi_next (J z) = mhi_next (I z)"
  shows "mh_used J bs = (mh_used I as)(x + 24 \<mapsto> mhi_next (J x) - (x + 24))"
proof -
  have u: "z \<in> set (butlast bs) \<and> RT_MEMHEAP_IS_USED J z \<longleftrightarrow> z \<in> set (butlast bs) \<and> z \<notin> B"
    "z \<in> set (butlast as) \<and> RT_MEMHEAP_IS_USED I z \<longleftrightarrow> z \<in> set (butlast as) \<and> z \<notin> A" for z
    using lay_used [OF lay(1), of z] lay_used [OF lay(2), of z] by (auto dest: in_set_butlastD)
  have "mh_used J bs (x + 24) = Some (mhi_next (J x) - (x + 24))" using u(1) [of x] x by (simp add: mh_used_def)
  moreover have "mh_used J bs = (mh_used I as)(x + 24 := mh_used J bs (x + 24))"
    by (rule mh_used_upd) (use u mem nx in metis)+
  ultimately show ?thesis by simp
qed

text \<open>Cutting an item in two; the second part is marked as free but not yet in the free ring.\<close>

lemma cut_item:
  assumes lay: "mh_layout m hdr I (us @ x # y # vs) fs" and x: "x \<notin> set fs" and n: "x + 36 \<le> n" "n + 36 \<le> y"
  defines "J \<equiv> mh_link_after m x n I"
  shows "mh_lay m hdr J (us @ x # n # y # vs) fs (insert n (set fs))" "n \<notin> set (us @ x # y # vs)" "n \<notin> set fs" "n \<noteq> x"
    "mhi_next (J z) = (if z = x then n else if z = n then y else mhi_next (I z))"
    "mh_used J (us @ x # n # y # vs) = (mh_used I (us @ x # y # vs))(x + 24 \<mapsto> n - (x + 24))"
    "no_pairs (insert n (set fs)) (us @ x # y # vs)"
    "set gs \<subseteq> set fs \<Longrightarrow> (\<And>z. z \<noteq> n \<Longrightarrow> mhi_next (K z) = mhi_next (J z)) \<Longrightarrow> free_bytes K gs = free_bytes I gs"
proof -
  have L: "mh_lay m hdr I (us @ x # y # vs) fs (set fs)" "set fs \<subseteq> set (us @ x # y # vs)" "no_pairs (set fs) (us @ x # y # vs)"
    using lay unfolding mh_layout_lay by blast+
  show lay1: "mh_lay m hdr J (us @ x # n # y # vs) fs (insert n (set fs))" unfolding J_def by (rule lay_link [OF L(1) n])
  show new: "n \<notin> set (us @ x # y # vs)" by (rule sorted_between(2) [OF mh_layD(4) [OF L(1)] n])
  show nf: "n \<notin> set fs" and ne: "n \<noteq> x" using new L(2) by auto
  show nx: "mhi_next (J z) = (if z = x then n else if z = n then y else mhi_next (I z))" for z
    using mh_item(1) [OF lay refl] ne by (simp add: J_def link_after_next)
  have "mh_used J (us @ x # n # y # vs) = (mh_used I (us @ x # y # vs))(x + 24 \<mapsto> mhi_next (J x) - (x + 24))"
    by (rule mh_used_set [OF L(1) lay1]) (use x ne new in \<open>auto simp: butlast_append nx dest: in_set_butlastD split: if_splits\<close>)
  then show "mh_used J (us @ x # n # y # vs) = (mh_used I (us @ x # y # vs))(x + 24 \<mapsto> n - (x + 24))" using nx [of x] by simp
  show "no_pairs (insert n (set fs)) (us @ x # y # vs)" by (rule no_pairs_sub [OF L(3)]) (use new in auto)
  assume K: "set gs \<subseteq> set fs" "\<And>z. z \<noteq> n \<Longrightarrow> mhi_next (K z) = mhi_next (J z)"
  show "free_bytes K gs = free_bytes I gs"
  proof (rule free_bytes_cong)
    fix z assume "z \<in> set gs"
    then have "z \<noteq> n" "z \<noteq> x" using K(1) x nf by auto
    then show "mhi_next (K z) = mhi_next (I z)" using K(2) [of z] nx [of z] by simp
  qed
qed

lemma mh_shrink_ok:
  assumes lay: "mh_layout m (mh_free_list h) I as fs" and av: "mh_available_size h = free_bytes I fs"
    and x: "x \<in> set (butlast as)" "x \<notin> set fs" and k: "12 \<le> k" "unat k + 36 < unat (MEMITEM_SIZE I x)"
  obtains h' J bs gs where "mh_shrink m x k (h, I) = (h', J)" "mh_layout m (mh_free_list h') J bs gs" "mh_available_size h' = free_bytes J gs"
    "mh_counts h h'" "hd bs = hd as" "last bs = last as" "mh_used J bs = (mh_used I as)(x + 24 \<mapsto> unat k)"
proof -
  obtain us y vs where as: "as = us @ x # y # vs" by (rule butlast_split [OF x(1)], rule that)
  let ?hdr = "mh_free_list h"
  define n where "n = x + unat (k + 24)"
  let ?I = "mh_link_after m x n I"
  note it = mh_item [OF lay as]
  have L: "set fs \<subseteq> set (us @ x # y # vs)" "no_pairs (set fs) (us @ x # y # vs)" using lay unfolding mh_layout_lay as by blast+
  have kn: "12 \<le> unat k" "unat k + 36 < y - x - 24" using k it(5) by (simp_all add: word_le_nat_alt)
  have nn: "n = x + 24 + unat k" using kn it(4) by (simp add: n_def unat_word_ariths)
  have b: "x + 36 \<le> n" "n + 36 \<le> y" using kn by (simp_all add: nn)
  note cut = cut_item [OF lay [unfolded as] x(2) b]
  note lay1 = cut(1) and new = cut(2) and nf = cut(3) and n = cut(4) and nx = cut(5) and np1 = cut(7) and fb = cut(8)
  have used1: "mh_used ?I (us @ x # n # y # vs) = (mh_used I (us @ x # y # vs))(x + 24 \<mapsto> unat k)" using cut(6) nn by simp
  have dist: "distinct (us @ x # n # y # vs)" "distinct fs" using mh_layD(1,2) [OF lay1] by (simp_all add: cyc_def)
  have used_y: "RT_MEMHEAP_IS_USED ?I y \<longleftrightarrow> y \<notin> set fs" using lay_used [OF lay1, of y] dist(1) by auto
  show ?thesis
  proof (cases "y \<in> set fs")
    case False
    let ?h = "h\<lparr>mh_available_size := mh_available_size h + MEMITEM_SIZE ?I n\<rparr>" and ?J = "mh_push_free ?hdr n ?I"
    have run: "mh_shrink m x k (h, I) = (?h, ?J)" using False used_y nx [of n] n by (simp add: mh_shrink_def Let_def n_def [symmetric])
    have "mh_lay m ?hdr ?J (us @ x # n # y # vs) (n # fs) (set (n # fs))" using lay_push [OF lay1, of n] nf by simp
    moreover have "no_pairs (set (n # fs)) (us @ x # n # y # vs)" using np1 x(2) n False new by (auto simp: no_pairs_append)
    ultimately have "mh_layout m (mh_free_list ?h) ?J (us @ x # n # y # vs) (n # fs)" using L(1) unfolding mh_layout_lay by auto
    moreover have "mh_available_size ?h = free_bytes ?J (n # fs)" using free_bytes_split [of ?J "[]" n fs] fb [of fs ?J] av by simp
    ultimately show ?thesis using used1 by (intro that [OF run]) (simp_all add: mh_counts_def as hd_append)
  next
    case True
    then obtain fu fv where fs: "fs = fu @ y # fv" by (meson split_list)
    have d: "y \<notin> set (fu @ fv)" "n \<noteq> y" using dist by (auto simp: fs)
    have lay2: "mh_lay m ?hdr ?I ((us @ [x]) @ n # y # vs) fs (insert n (set fs))" using lay1 by simp
    obtain z ws where mg: "vs = z # ws" "mh_lay m ?hdr (mh_unlink y ?I) ((us @ [x]) @ n # vs) fs (insert n (set fs) - {y})"
      "mh_used (mh_unlink y ?I) ((us @ [x]) @ n # vs) = mh_used ?I ((us @ [x]) @ n # y # vs)"
      by (rule merge_item [OF lay2]) (use True in auto)
    have A: "insert n (set fs) - {y} = insert n (set (fu @ fv))" using d by (auto simp: fs)
    let ?J = "mh_push_free ?hdr n (mh_unlink_free y (mh_unlink y ?I))"
    let ?h = "h\<lparr>mh_available_size := mh_available_size h - MEMITEM_SIZE ?I y + MEMITEM_SIZE ?J n\<rparr>"
    have run: "mh_shrink m x k (h, I) = (?h, ?J)"
      using True used_y nx [of n] n merge_right [OF mh_layD(1) [OF lay2]] by (simp add: mh_shrink_def Let_def n_def [symmetric])
    have "mh_lay m ?hdr (mh_unlink_free y (mh_unlink y ?I)) (us @ x # n # vs) (fu @ fv) (insert n (set (fu @ fv)))"
      using lay_unlink_free [of m ?hdr "mh_unlink y ?I" "us @ x # n # vs" fu y fv] mg(2) A fs by simp
    then have "mh_lay m ?hdr ?J (us @ x # n # vs) (n # fu @ fv) (set (n # fu @ fv))"
      using lay_push [of m ?hdr _ "us @ x # n # vs" "fu @ fv" "insert n (set (fu @ fv))" n] nf by (simp add: fs)
    moreover have "no_pairs (set (n # fu @ fv)) (us @ x # n # vs)"
    proof -
      have "no_pairs (set (n # fu @ fv)) (us @ x # y # vs)" by (rule no_pairs_sub [OF np1]) (auto simp: fs)
      moreover have "z \<notin> set fs" "z \<noteq> n" using L(2) True new by (auto simp: no_pairs_append mg(1))
      ultimately show ?thesis using x(2) n by (auto simp: no_pairs_append mg(1) fs)
    qed
    ultimately have lay3: "mh_layout m (mh_free_list ?h) ?J (us @ x # n # vs) (n # fu @ fv)"
      using L(1) d(1) unfolding mh_layout_lay by (auto simp: fs)
    have "free_bytes ?J (fu @ fv) = free_bytes I (fu @ fv)"
      by (rule fb) (use unlink_next [OF mh_layD(1) [OF lay2]] in \<open>auto simp: fs\<close>)
    moreover have "MEMITEM_SIZE ?I y = MEMITEM_SIZE I y" using True x(2) d(2) nx [of y] by (auto simp: MEMITEM_SIZE_def)
    ultimately have "mh_available_size ?h = free_bytes ?J (n # fu @ fv)"
      using free_bytes_split [of ?J "[]" n "fu @ fv"] free_bytes_split [of I fu y fv] av fs by simp
    then show ?thesis using used1 mg(3) by (intro that [OF run lay3]) (simp_all add: mh_counts_def as hd_append mg(1))
  qed
qed

lemma grow_step:
  assumes lay: "mh_layout m hdr I (us @ x # y # z # ws) (fu @ y # fv)" and x: "x \<notin> set (fu @ y # fv)" and n: "x + 36 \<le> n" "n + 36 \<le> z"
  defines "J \<equiv> mh_push_free hdr n (mh_link_after m x n (remove_next_ptr y I))"
  shows "mh_layout m hdr J (us @ x # n # z # ws) (n # fu @ fv)"
    "free_bytes J (n # fu @ fv) = free_bytes I (fu @ y # fv) - (of_nat n - of_nat y)"
    "mh_used J (us @ x # n # z # ws) = (mh_used I (us @ x # y # z # ws))(x + 24 \<mapsto> n - (x + 24))"
proof -
  let ?I = "mh_unlink y (mh_unlink_free y I)" and ?fs = "fu @ y # fv"
  let ?K = "mh_link_after m x n ?I"
  have L: "mh_lay m hdr I (us @ x # y # z # ws) ?fs (set ?fs)" "set ?fs \<subseteq> set (us @ x # y # z # ws)" "no_pairs (set ?fs) (us @ x # y # z # ws)"
    using lay unfolding mh_layout_lay by blast+
  note D = mh_layD [OF L(1)]
  have dist: "distinct (us @ x # y # z # ws)" "distinct ?fs" using D(1,2) by (simp_all add: cyc_def)
  have A: "set ?fs - {y} = set (fu @ fv)" using dist(2) by auto
  have lay1: "mh_lay m hdr ?I (us @ x # z # ws) (fu @ fv) (set (fu @ fv))"
    using lay_unlink [OF lay_unlink_free [OF L(1)]] A by simp
  have new: "n \<notin> set (us @ x # z # ws)" by (rule sorted_between(2) [OF mh_layD(4) [OF lay1] n])
  have nf: "n \<notin> set (fu @ fv)" using new L(2) dist by auto
  have lay2: "mh_lay m hdr ?K (us @ x # n # z # ws) (fu @ fv) (insert n (set (fu @ fv)))" by (rule lay_link [OF lay1 n])
  then have lay3: "mh_lay m hdr J (us @ x # n # z # ws) (n # fu @ fv) (set (n # fu @ fv))"
    using lay_push [OF lay2, of n] nf by (simp add: J_def remove_next_ptr_def)
  have zf: "z \<notin> set ?fs" using L(3) by (simp add: no_pairs_append)
  have "no_pairs (set (n # fu @ fv)) (us @ x # n # z # ws)"
  proof -
    have np: "no_pairs (set ?fs) (us @ [x])" "no_pairs (set ?fs) (z # ws)" using L(3) by (simp_all add: no_pairs_append)
    have "no_pairs (set (n # fu @ fv)) (us @ [x])" by (rule no_pairs_sub [OF np(1)]) (use new in auto)
    moreover have "no_pairs (set (n # fu @ fv)) (z # ws)" by (rule no_pairs_sub [OF np(2)]) (use new in auto)
    ultimately show ?thesis using x zf new by (auto simp: no_pairs_append)
  qed
  then show "mh_layout m hdr J (us @ x # n # z # ws) (n # fu @ fv)" using lay3 L(2) dist unfolding mh_layout_lay by auto
  have ux: "mhi_next (?I u) = (if u = x then z else mhi_next (I u))" for u
    using unlink_next [of "mh_unlink_free y I" us x y "z # ws"] D(1) cyc_adjacent [of "phys I" "us @ [x]" y z ws] by simp
  then have nx: "mhi_next (J u) = (if u = x then n else if u = n then z else mhi_next (I u))" for u
    using n(1) by (simp add: J_def remove_next_ptr_def link_after_next)
  have "free_bytes J (fu @ fv) = free_bytes I (fu @ fv)" by (rule free_bytes_cong) (use nf x in \<open>auto simp: nx\<close>)
  moreover have "MEMITEM_SIZE J n = MEMITEM_SIZE I y - (of_nat n - of_nat y)"
    using n(1) nx [of n] cyc_adjacent [of "phys I" "us @ [x]" y z ws] D(1) by (simp add: MEMITEM_SIZE_def)
  ultimately show "free_bytes J (n # fu @ fv) = free_bytes I ?fs - (of_nat n - of_nat y)"
    using free_bytes_split [of J "[]" n "fu @ fv"] free_bytes_split [of I fu y fv] by simp
  have nb: "n \<in> set (butlast (us @ x # y # z # ws)) \<Longrightarrow> n \<in> set ?fs" using new by (auto simp: butlast_append dest: in_set_butlastD split: if_splits)
  have "mh_used J (us @ x # n # z # ws) = (mh_used I (us @ x # y # z # ws))(x + 24 \<mapsto> mhi_next (J x) - (x + 24))"
    by (rule mh_used_set [OF L(1) lay3])
      (use x n(1) new nb dist in \<open>auto simp: butlast_append nx dest: in_set_butlastD split: if_splits\<close>)
  then show "mh_used J (us @ x # n # z # ws) = (mh_used I (us @ x # y # z # ws))(x + 24 \<mapsto> n - (x + 24))" using nx [of x] by simp
qed

lemma mh_grow_ok:
  assumes lay: "mh_layout m (mh_free_list h) I as fs" and av: "mh_available_size h = free_bytes I fs"
    and x: "x \<in> set (butlast as)" "x \<notin> set fs" and k: "MEMITEM_SIZE I x < k" "unat k + 12 < 2 ^ 32"
  obtains (grown) h' J bs gs where "mh_grow m x (MEMITEM_SIZE I x) k (h, I) = Some (True, h', J)" "mh_layout m (mh_free_list h') J bs gs"
      "mh_available_size h' = free_bytes J gs" "mh_counts h h'" "hd bs = hd as" "last bs = last as" "mh_used J bs = (mh_used I as)(x + 24 \<mapsto> unat k)"
  | (kept) "mh_grow m x (MEMITEM_SIZE I x) k (h, I) = Some (False, h, I)"
      "mhi_next (I x) \<notin> set fs \<or> unat (MEMITEM_SIZE I (mhi_next (I x))) + unat (MEMITEM_SIZE I x) \<le> unat k + 12"
proof -
  obtain us y vs where as: "as = us @ x # y # vs" by (rule butlast_split [OF x(1)], rule that)
  let ?hdr = "mh_free_list h"
  note it = mh_item [OF lay as]
  have L: "mh_lay m ?hdr I (us @ x # y # vs) fs (set fs)" "set fs \<subseteq> set (us @ x # y # vs)" "no_pairs (set fs) (us @ x # y # vs)"
    using lay unfolding mh_layout_lay as by blast+
  have used_y: "RT_MEMHEAP_IS_USED I y \<longleftrightarrow> y \<notin> set fs" using lay_used [OF L(1), of y] by auto
  have k12: "unat (k + 12) = unat k + 12" using k(2) by (simp add: unat_word_ariths)
  show ?thesis
  proof (cases "y \<in> set fs")
    case False
    then show ?thesis using used_y it(1,3) by (intro kept) (simp_all add: mh_grow_def Let_def)
  next
    case True
    obtain us' z ws where as': "as = us' @ y # z # ws" by (rule mh_free_split [OF lay True], rule that)
    have d: "distinct as" using mh_layD(1) [OF L(1)] by (simp add: cyc_def as)
    have "us @ [x] = us'" "vs = z # ws"
      using append_Cons_eq_iff [of y "us @ [x]" vs us' "z # ws"] d as as' by auto
    then have vs: "vs = z # ws" by simp
    note it2 = mh_item [OF lay as']
    have sum: "unat (MEMITEM_SIZE I y + MEMITEM_SIZE I x) = unat (MEMITEM_SIZE I y) + unat (MEMITEM_SIZE I x)"
      using it(3,5) it2(3-5) by (simp add: unat_word_ariths)
    show ?thesis
    proof (cases "unat k + 12 < unat (MEMITEM_SIZE I y) + unat (MEMITEM_SIZE I x)")
      case False
      then show ?thesis using used_y it(1,3) k12 sum by (intro kept) (simp_all add: mh_grow_def Let_def word_less_nat_alt)
    next
      case room: True
      define n where "n = unat (of_nat x + 24 + k)"
      obtain fu fv where fs: "fs = fu @ y # fv" using True by (meson split_list)
      have nn: "n = x + 24 + unat k" using room it(3,5) it2(3-5) k by (simp add: n_def unat_word_ariths unat_of_nat word_less_nat_alt)
      have n: "x + 36 \<le> n" "n + 36 \<le> z" using room k(1) it(3,5) it2(3,5) by (simp_all add: nn word_less_nat_alt)
      let ?J = "mh_push_free ?hdr n (mh_link_after m x n (remove_next_ptr y I))" and ?h = "mh_take_size (k - MEMITEM_SIZE I x) h"
      have run: "mh_grow m x (MEMITEM_SIZE I x) k (h, I) = Some (True, ?h, ?J)"
        using True used_y it(1,3) k12 sum room by (simp add: mh_grow_def Let_def word_less_nat_alt n_def)
      have lay': "mh_layout m ?hdr I (us @ x # y # z # ws) (fu @ y # fv)" using lay as vs fs by simp
      have "x \<notin> set (fu @ y # fv)" using x(2) fs by simp
      note gr = grow_step [OF lay' this n]
      have "k - MEMITEM_SIZE I x = of_nat n - of_nat y" by (simp add: nn MEMITEM_SIZE_def it(1))
      then have "mh_available_size ?h = free_bytes ?J (n # fu @ fv)" using gr(2) av fs by simp
      then show ?thesis using gr(1,3) by (intro grown [OF run]) (simp_all add: as vs hd_append nn)
    qed
  qed
qed

end
