(* ===== verification/RT_MemHeapCalls.thy ===== *)
theory RT_MemHeapCalls
  imports RT_MemHeap
begin

section \<open>The contract of memory heaps\<close>

text \<open>
  What the calls of \<^verbatim>\<open>src/memheap.c\<close> promise when the lock of the heap is free or the heap is locked from outside: the invariant of a heap, requests,
  frees and changes of the size of a block, and the interpretation of the allocator contract.
\<close>

subsection \<open>The invariant\<close>

text \<open>The items of a ring, read from the state.\<close>

partial_function (option) walk :: "(nat \<Rightarrow> nat) \<Rightarrow> nat \<Rightarrow> nat \<Rightarrow> nat list option" where
  "walk f p stop = (if p = stop then Some [p] else do { xs \<leftarrow> walk f (f p) stop; Some (p # xs) })"

definition mh_item_list :: "nat \<Rightarrow> kernel \<Rightarrow> nat list" where
  "mh_item_list m s =
     (let p = mh_block_list (memheaps s m) in case walk (\<lambda>x. mhi_next (mh_items s x)) p (mhi_prev (mh_items s p)) of None \<Rightarrow> [] | Some xs \<Rightarrow> xs)"

definition mh_free_items :: "nat \<Rightarrow> kernel \<Rightarrow> nat list" where
  "mh_free_items m s =
     (let p = mh_free_list (memheaps s m) in case walk (\<lambda>x. mhi_next_free (mh_items s x)) p (mhi_prev_free (mh_items s p)) of None \<Rightarrow> [] | Some xs \<Rightarrow> tl xs)"

definition mh_regions :: "nat \<Rightarrow> kernel \<Rightarrow> regions" where
  "mh_regions m s = mh_used (mh_items s) (mh_item_list m s)"

text \<open>The lock can be taken at once: the semaphore has its token and nobody waits for it.\<close>

definition mh_lock_ready :: "nat \<Rightarrow> kernel \<Rightarrow> bool" where
  "mh_lock_ready m s \<longleftrightarrow> mh_locked (memheaps s m) \<or>
     (let l = mh_lock (memheaps s m) in live s (OSem l) \<and> sem_value (sems s l) = 1 \<and> ring (thread_rings s) (Suspended (OSem l)) = [])"

definition mh_rep :: "nat \<Rightarrow> nat list \<Rightarrow> nat list \<Rightarrow> kernel \<Rightarrow> bool" where
  "mh_rep m as fs s \<longleftrightarrow>
     (let h = memheaps s m in
      mh_layout m (mh_free_list h) (mh_items s) as fs \<and> mh_available_size h = free_bytes (mh_items s) fs \<and>
      mh_block_list h = mh_start_addr h \<and> hd as = mh_start_addr h \<and> hd as < last as \<and> last as + 24 = mh_start_addr h + unat (mh_pool_size h))"

definition mh_inv :: "nat \<Rightarrow> kernel \<Rightarrow> bool" where
  "mh_inv m s \<longleftrightarrow> kinv s \<and> live s (OMemHeap m) \<and> m \<noteq> 0 \<and> mh_lock_ready m s \<and> mh_rep m (mh_item_list m s) (mh_free_items m s) s"

lemma walk_path:
  "path H xs \<Longrightarrow> distinct xs \<Longrightarrow> xs \<noteq> [] \<Longrightarrow> walk (nxt H) (hd xs) (last xs) = Some xs"
proof (induction xs)
  case (Cons x xs)
  show ?case
  proof (cases xs)
    case Nil
    then show ?thesis by (simp add: walk.simps)
  next
    case (Cons y ys)
    then have "x \<noteq> last xs" using Cons.prems(2) by (metis distinct.simps(2) last_in_set list.discI)
    then show ?thesis using Cons.IH Cons.prems Cons by (simp add: walk.simps [of _ x])
  qed
qed simp

lemma walk_cyc: "cyc H xs \<Longrightarrow> walk (nxt H) (hd xs) (prv H (hd xs)) = Some xs"
  using walk_path [of H xs] path_append [of H "butlast xs" "last xs" "[hd xs]"] cyc_ends [of H xs]
  by (metis append.assoc append_Cons append_Nil append_butlast_last_id cyc_def)

lemma phys_nxt: "nxt (phys I) = (\<lambda>x. mhi_next (I x))" "nxt (frees I) = (\<lambda>x. mhi_next_free (I x))"
  by (simp_all add: fun_eq_iff)

lemma mh_rep_lists: "mh_rep m as fs s \<Longrightarrow> mh_item_list m s = as" "mh_rep m as fs s \<Longrightarrow> mh_free_items m s = fs"
  using walk_cyc [of "phys (mh_items s)" as] walk_cyc [of "frees (mh_items s)" "mh_free_list (memheaps s m) # fs"]
  by (simp_all add: mh_rep_def mh_item_list_def mh_free_items_def Let_def mh_layout_def phys_nxt)

lemma mh_regions_rep: "mh_rep m as fs s \<Longrightarrow> mh_regions m s = mh_used (mh_items s) as"
  by (simp add: mh_regions_def mh_rep_lists)

lemma mh_invD:
  assumes "mh_inv m s"
  defines "h \<equiv> memheaps s m" and "I \<equiv> mh_items s" and "as \<equiv> mh_item_list m s" and "fs \<equiv> mh_free_items m s"
  shows "kinv s" "live s (OMemHeap m)" "m \<noteq> 0" "mh_lock_ready m s" "mh_rep m as fs s" "mh_layout m (mh_free_list h) I as fs"
    "mh_available_size h = free_bytes I fs" "mh_regions m s = mh_used I as"
  using assms(1) by (simp_all add: mh_inv_def h_def I_def as_def fs_def mh_rep_def Let_def mh_regions_def)

lemma mh_invI: "kinv s \<Longrightarrow> live s (OMemHeap m) \<Longrightarrow> m \<noteq> 0 \<Longrightarrow> mh_lock_ready m s \<Longrightarrow> mh_rep m as fs s \<Longrightarrow> mh_inv m s"
  by (simp add: mh_inv_def mh_rep_lists)

lemma put_mh_simps [simp]:
  "memheaps (put_mh m hs s) = (memheaps s)(m := fst hs)" "mh_items (put_mh m hs s) = snd hs" "kinv (put_mh m hs s) = kinv s"
  "live (put_mh m hs s) = live s" "sems (put_mh m hs s) = sems s" "thread_rings (put_mh m hs s) = thread_rings s"
  "sm_bytes (put_mh m hs s) = sm_bytes s" "objs (put_mh m hs s) = objs s" "put_mh m (get_mh m s) s = s"
  by (cases hs; simp add: put_mh_def get_mh_def)+

lemma put_mh_same: "put_mh m (memheaps s m, mh_items s) s = s"
  using put_mh_simps(9) [of m s] unfolding get_mh_def .

text \<open>An operation with the lock held keeps the invariant when it keeps the layout, the counters and the ends of the heap.\<close>

lemma mh_inv_put:
  assumes inv: "mh_inv m s" and ct: "mh_counts (memheaps s m) h" and lay: "mh_layout m (mh_free_list h) J bs gs"
    and av: "mh_available_size h = free_bytes J gs" and e: "hd bs = hd (mh_item_list m s)" "last bs = last (mh_item_list m s)"
  shows "mh_inv m (put_mh m (h, J) s)" "mh_regions m (put_mh m (h, J) s) = mh_used J bs"
proof -
  note D = mh_countsD [OF ct] and V = mh_invD(1-5) [OF inv]
  have rep: "mh_rep m bs gs (put_mh m (h, J) s)" using V(5) lay av e D by (simp add: mh_rep_def Let_def)
  show "mh_inv m (put_mh m (h, J) s)" using V(1-4) D by (intro mh_invI [OF _ _ _ _ rep]) (simp_all add: mh_lock_ready_def Let_def)
  show "mh_regions m (put_mh m (h, J) s) = mh_used J bs" using mh_regions_rep [OF rep] by simp
qed

subsection \<open>The lock\<close>

definition mh_taken :: "nat \<Rightarrow> kernel \<Rightarrow> kernel" where
  "mh_taken m s = (if mh_locked (memheaps s m) then s else upd_sem (mh_lock (memheaps s m)) (\<lambda>x. x\<lparr>sem_value := 0\<rparr>) s)"

lemma mh_lock_run:
  assumes inv: "kinv s" and rdy: "mh_lock_ready m s"
  shows "mh_take_lock m s = Some (Return RT_EOK, mh_taken m s)" "get_mh m (mh_taken m s) = get_mh m s"
    "mh_counts (memheaps s m) (fst hs) \<Longrightarrow> mh_release_lock m (put_mh m hs (mh_taken m s)) = Some (put_mh m hs s)"
proof -
  let ?l = "mh_lock (memheaps s m)"
  show "mh_take_lock m s = Some (Return RT_EOK, mh_taken m s)"
    using rdy sem_type [OF inv, of ?l] by (auto simp: mh_lock_ready_def Let_def mh_take_lock_def mh_taken_def rt_sem_take_def upd_sem_def)
  show "get_mh m (mh_taken m s) = get_mh m s" by (simp add: get_mh_def mh_taken_def upd_sem_def)
  assume ct: "mh_counts (memheaps s m) (fst hs)"
  show "mh_release_lock m (put_mh m hs (mh_taken m s)) = Some (put_mh m hs s)"
  proof (cases "mh_locked (memheaps s m)")
    case True
    then show ?thesis using mh_countsD [OF ct] by (simp add: mh_release_lock_def mh_taken_def)
  next
    case False
    let ?s = "put_mh m hs (mh_taken m s)"
    have r: "live s (OSem ?l)" "sem_value (sems s ?l) = 1" "ring (thread_rings s) (Suspended (OSem ?l)) = []"
      using rdy False by (simp_all add: mh_lock_ready_def Let_def)
    have "rt_object_get_type (OSem ?l) ?s = RT_Object_Class_Semaphore" using sem_type [of ?s ?l] inv r(1) by (simp add: mh_taken_def)
    moreover have "sems s ?l = \<lparr>sem_value = 1\<rparr>" using r(2) by (cases "sems s ?l") simp
    then have "upd_sem ?l (\<lambda>x. x\<lparr>sem_value := sem_value x + 1\<rparr>) ?s = put_mh m hs s"
      using False by (cases s; cases hs) (simp add: mh_taken_def upd_sem_def put_mh_def fun_upd_idem)
    ultimately show ?thesis using False r mh_countsD [OF ct] by (simp add: mh_release_lock_def rt_sem_release_def) (simp add: mh_taken_def)
  qed
qed

lemma mh_type: "mh_inv m s \<Longrightarrow> rt_object_get_type (OMemHeap m) s = RT_Object_Class_MemHeap"
  using rt_object_get_type_live [of s "OMemHeap m"] mh_invD(1,2) [of m s] by (simp add: class_of_def)

subsection \<open>Requests and frees\<close>

lemma request_size_bytes: "unat (request_size q) = request_bytes q" "12 \<le> request_size q"
proof -
  show "unat (request_size q) = request_bytes q" by (simp add: request_size_def request_bytes_def Let_def word_less_nat_alt max_def)
  then show "12 \<le> request_size q" using request_bytes_ok(2) [of q] by (simp add: word_le_nat_alt)
qed

text \<open>The item a request gets: the first of the free ring that is long enough, provided more bytes are available than requested.\<close>

definition mh_fit :: "nat \<Rightarrow> u32 \<Rightarrow> kernel \<Rightarrow> nat option" where
  "mh_fit m q s =
     (if request_size q < mh_available_size (memheaps s m)
      then find (\<lambda>x. request_size q \<le> MEMITEM_SIZE (mh_items s) x) (mh_free_items m s) else None)"

definition mh_step :: "nat \<Rightarrow> kernel \<Rightarrow> kernel \<Rightarrow> bool" where
  "mh_step m s s' \<longleftrightarrow> (\<exists>hs. s' = put_mh m hs s)"

lemma mh_step_refl [simp]: "mh_step m s s"
  unfolding mh_step_def by (intro exI [of _ "get_mh m s"]) simp

lemma mh_alloc_step:
  assumes inv: "mh_inv m s"
  obtains (none) "rt_memheap_alloc m q s = Some (MhReturn None, s)" "mh_fit m q s = None"
  | (some) x s' n where "rt_memheap_alloc m q s = Some (MhReturn (Some (x + 24)), s')" "mh_fit m q s = Some x" "mh_inv m s'" "mh_step m s s'"
      "mh_regions m s (x + 24) = None" "mh_regions m s' = (mh_regions m s)(x + 24 \<mapsto> n)" "request_bytes q \<le> n" "n < request_bytes q + 36"
proof -
  note V = mh_invD [OF inv]
  note lk = mh_lock_run [OF V(1,4)]
  let ?h = "memheaps s m" and ?I = "mh_items s" and ?k = "request_size q"
  have get: "get_mh m (mh_taken m s) = (?h, ?I)" using lk(2) by (simp add: get_mh_def)
  show ?thesis
  proof (cases "?k < mh_available_size ?h")
    case False
    then show ?thesis using mh_type [OF inv] by (intro none) (simp_all add: rt_memheap_alloc_def mh_fit_def Let_def)
  next
    case True
    have run: "rt_memheap_alloc m q s = Some (MhReturn p, put_mh m hs s)"
      if "mh_alloc m ?k (?h, ?I) = Some (p, hs)" "mh_counts ?h (fst hs)" for p hs
      using that True mh_type [OF inv] lk(1) lk(3) [OF that(2)] get by (simp add: rt_memheap_alloc_def memheap_alloc_taken_def Let_def)
    show ?thesis
    proof (rule mh_alloc_ok [OF V(6,7) request_size_bytes(2) [of q]], goal_cases)
      case 1
      have "put_mh m (?h, ?I) s = s" by (rule put_mh_same)
      moreover have "mh_counts ?h ?h" by (simp add: mh_counts_def)
      ultimately show ?case using run [OF 1(1)] 1(2) True by (intro none) (simp_all add: mh_fit_def)
    next
      case (2 x h' J bs gs n)
      note P = mh_inv_put [OF inv 2(5,3,4,6,7)]
      show ?case
        by (rule some [of x "put_mh m (h', J) s" n])
          (use 2 P run [of "Some (x + 24)" "(h', J)"] True V(8) in \<open>auto simp: mh_fit_def mh_step_def request_size_bytes\<close>)
    qed
  qed
qed

lemma mh_region_item:
  assumes "mh_inv m s" "mh_regions m s a = Some n"
  shows "24 \<le> a" "a - 24 \<in> set (butlast (mh_item_list m s))" "a - 24 \<notin> set (mh_free_items m s)" "n = mhi_next (mh_items s (a - 24)) - a"
  using assms(2) mh_invD(8) [OF assms(1)] mh_layout_used [OF mh_invD(6) [OF assms(1)], of "a - 24"]
  by (auto simp: mh_used_def dest: in_set_butlastD split: if_splits)

lemma mh_magic_mask: "(0x1ea01ea0 :: u32) AND 0xFFFFFFFE = 0x1ea01ea0" "(0x1ea01ea1 :: u32) AND 0xFFFFFFFE = 0x1ea01ea0"
  by simp_all

lemma mh_free_step:
  assumes inv: "mh_inv m s" and reg: "mh_regions m s a = Some n"
  obtains s' where "rt_memheap_free (Some a) s = Some (MhReturn (), s')" "mh_inv m s'" "mh_step m s s'"
    "mh_regions m s' = (mh_regions m s)(a := None)"
proof -
  note V = mh_invD [OF inv] and R = mh_region_item [OF inv reg]
  note lk = mh_lock_run [OF V(1,4)]
  let ?h = "memheaps s m" and ?I = "mh_items s" and ?x = "a - 24" and ?as = "mh_item_list m s" and ?fs = "mh_free_items m s"
  obtain us y vs where as: "?as = us @ ?x # y # vs" by (rule butlast_split [OF R(2)], rule that)
  have x: "?x \<in> set ?as" "y \<in> set ?as" by (simp_all add: as)
  note L = mh_layoutD(9,10) [OF V(6)] and nx = mh_item(1) [OF V(6) as]
  have mg: "mhi_magic (?I ?x) = RT_MEMHEAP_MAGIC OR RT_MEMHEAP_USED" "mhi_pool_ptr (?I ?x) = m"
    "mhi_magic (?I y) AND RT_MEMHEAP_MASK = RT_MEMHEAP_MAGIC"
    using L(1,2) [OF x(1)] L(2) [OF x(2)] R(3) by simp_all
  obtain h' J bs gs where f: "mh_free ?x (?h, ?I) = (h', J)" "mh_layout m (mh_free_list h') J bs gs" "mh_available_size h' = free_bytes J gs"
    "mh_counts ?h h'" "hd bs = hd ?as" "last bs = last ?as" "mh_used J bs = (mh_used ?I ?as)(?x + 24 := None)"
    by (rule mh_free_ok [OF V(6,7) R(2,3)], rule that)
  note P = mh_inv_put [OF inv f(4,2,3,5,6)]
  have "rt_memheap_free (Some a) s = Some (MhReturn (), put_mh m (h', J) s)"
    using mg nx V(3) mh_type [OF inv] lk(1,2) lk(3) [of "(h', J)"] f(1,4) by (simp add: rt_memheap_free_def Let_def memheap_free_taken_def get_mh_def)
  then show ?thesis using P f(7) V(8) R(1) by (intro that) (auto simp: mh_step_def)
qed

subsection \<open>Memory heaps as an allocator\<close>

lemma mh_used_disjoint:
  assumes lay: "mh_layout m hdr I as fs"
  shows "regions_disjoint (mh_used I as)"
proof -
  have below: "mhi_next (I x) \<le> y" if xy: "x \<in> set (butlast as)" "y \<in> set as" "x < y" for x y
  proof -
    obtain us z vs where as: "as = us @ x # z # vs" by (rule butlast_split [OF xy(1)], rule that)
    have "y \<in> set (z # vs)" using xy(2,3) mh_layoutD(4) [OF lay] by (auto simp: as sorted_wrt_append)
    then show ?thesis using mh_item(1) [OF lay as] mh_layoutD(4) [OF lay] by (auto simp: as sorted_wrt_append)
  qed
  have "region_bytes a n \<inter> region_bytes b k = {}" if r: "mh_used I as a = Some n" "mh_used I as b = Some k" "a < b" for a b n k
  proof -
    have i: "24 \<le> a" "a - 24 \<in> set (butlast as)" "b - 24 \<in> set as" "n = mhi_next (I (a - 24)) - a"
      using r by (auto simp: mh_used_def dest: in_set_butlastD split: if_splits)
    then have "mhi_next (I (a - 24)) \<le> b - 24" using r(3) by (intro below) simp_all
    then have "a + n \<le> b" using i(1,4) r(3) by linarith
    then show ?thesis by (simp add: region_bytes_def)
  qed
  then show ?thesis unfolding regions_disjoint_def by (metis Int_commute nat_neq_iff)
qed

text \<open>The calls of a client, when they return at once.\<close>

definition mh_request :: "nat \<Rightarrow> u32 \<Rightarrow> kernel \<Rightarrow> (nat option \<times> kernel) option" where
  "mh_request m q s = do { (r, s) \<leftarrow> rt_memheap_alloc m q s; (case r of MhReturn p \<Rightarrow> Some (p, s) | MhPending t \<Rightarrow> None) }"

definition mh_release :: "nat \<Rightarrow> kernel \<Rightarrow> kernel option" where
  "mh_release a s = do { (r, s) \<leftarrow> rt_memheap_free (Some a) s; (case r of MhReturn _ \<Rightarrow> Some s | MhPending t \<Rightarrow> None) }"

interpretation memheap: allocator "mh_inv m" "mh_regions m" sm_enough "mh_request m" mh_release for m
proof
  show "regions_disjoint (mh_regions m s)" if "mh_inv m s" for s
    using mh_used_disjoint [OF mh_invD(6) [OF that]] mh_invD(8) [OF that] by simp
  show "\<exists>r s'. mh_request m q s = Some (r, s') \<and> mh_inv m s' \<and> sm_enough s' = sm_enough s \<and>
      (case r of None \<Rightarrow> mh_regions m s' = mh_regions m s
       | Some a \<Rightarrow> mh_regions m s a = None \<and> (\<exists>n\<ge>sm_enough s q. mh_regions m s' = (mh_regions m s)(a \<mapsto> n)))"
    if inv: "mh_inv m s" for s q
  proof (rule mh_alloc_step [OF inv, of q], goal_cases)
    case 1
    then show ?case using inv by (simp add: mh_request_def)
  next
    case (2 x s' n)
    have "sm_enough s q \<le> n" using request_bytes_ok(3) [of q] 2(7) by (auto simp: sm_enough_def)
    then show ?case using 2 by (auto simp: mh_request_def sm_enough_def fun_eq_iff)
  qed
  show "\<exists>s'. mh_release a s = Some s' \<and> mh_inv m s' \<and> sm_enough s' = sm_enough s \<and> mh_regions m s' = (mh_regions m s)(a := None)"
    if "mh_inv m s" "mh_regions m s a = Some n" for s a n
    by (rule mh_free_step [OF that]) (simp add: mh_release_def sm_enough_def fun_eq_iff)
qed

subsection \<open>Changing the size of a block\<close>

text \<open>
  The outcome of \<^verbatim>\<open>rt_memheap_realloc\<close> on a block at \<open>a\<close> with \<open>old\<close> bytes: without a result nothing has changed; with a result,
  the block is at \<open>b\<close> with at least the new size, its first bytes are those of the old block, and no byte outside of it has changed.
\<close>

definition resized :: "nat \<Rightarrow> nat \<Rightarrow> nat \<Rightarrow> nat \<Rightarrow> kernel \<Rightarrow> nat option \<Rightarrow> kernel \<Rightarrow> bool" where
  "resized m a old new s r s' \<longleftrightarrow> mh_inv m s' \<and>
     (case r of
        None \<Rightarrow> s' = s
      | Some b \<Rightarrow> \<exists>n\<ge>new. mh_regions m s' = (mh_regions m s)(a := None, b \<mapsto> n) \<and> (b = a \<or> mh_regions m s b = None) \<and>
          (\<forall>i<min old new. sm_bytes s' (b + i) = sm_bytes s (a + i)) \<and> (\<forall>y. y \<notin> region_bytes b n \<longrightarrow> sm_bytes s' y = sm_bytes s y))"

lemma mh_bytes_irrelevant [simp]: "mh_inv m (s\<lparr>sm_bytes := f\<rparr>) = mh_inv m s" "mh_regions m (s\<lparr>sm_bytes := f\<rparr>) = mh_regions m s"
  by (simp_all add: mh_inv_def mh_regions_def mh_item_list_def mh_free_items_def mh_rep_def mh_lock_ready_def)

lemma mh_region_size:
  assumes inv: "mh_inv m s" and reg: "mh_regions m s a = Some old"
  shows "unat (MEMITEM_SIZE (mh_items s) (a - 24)) = old" "old + 48 \<le> 2 ^ 32"
proof -
  note V = mh_invD [OF inv] and R = mh_region_item [OF inv reg]
  obtain us y vs where as: "mh_item_list m s = us @ (a - 24) # y # vs" by (rule butlast_split [OF R(2)], rule that)
  show "unat (MEMITEM_SIZE (mh_items s) (a - 24)) = old" "old + 48 \<le> 2 ^ 32" using mh_item(1,3-5) [OF V(6) as] R(1,4) by simp_all
qed

text \<open>The move to a new block.\<close>

lemma realloc_move_step:
  assumes inv: "mh_inv m s" and reg: "mh_regions m s a = Some old" and k: "k \<le> 0xfffffffc" "new \<le> unat k" and o: "unat oldsize = old"
  shows "\<exists>r s'. realloc_move m a oldsize k s = Some (RReturn r, s') \<and> resized m a old new s r s'"
proof (rule mh_alloc_step [OF inv, of k], goal_cases)
  case 1
  then show ?case using inv by (simp add: realloc_move_def realloc_copy_def resized_def)
next
  case (2 x s1 n)
  let ?b = "x + 24" and ?c = "unat (if oldsize < k then oldsize else k)"
  let ?s = "s1\<lparr>sm_bytes := rt_memcpy ?b a ?c (sm_bytes s1)\<rparr>"
  have n: "unat k \<le> n" "12 \<le> n" using request_bytes_ok(3) [OF k(1)] request_bytes_ok(2) [of k] 2(7) by simp_all
  have ab: "a \<noteq> ?b" using reg 2(5) by auto
  have reg1: "mh_regions m ?s a = Some old" using reg 2(6) ab by simp
  have c: "?c = min old (unat k)" using o by (simp add: word_less_nat_alt min_def)
  have "region_bytes a old \<inter> region_bytes ?b n = {}"
    using regions_disjointD [OF memheap.disjoint [OF 2(3)], of a old ?b n] reg1 2(6) ab by simp
  then have "?b + n \<le> a \<or> a + old \<le> ?b \<or> old = 0" using n(2) by (auto simp: region_bytes_def)
  then have "forward_safe ?b a ?c" by (auto simp: forward_safe_def c)
  then have bytes: "sm_bytes ?s = copied ?b a ?c (sm_bytes s)" using rt_memcpy_copied 2(4) by (auto simp: mh_step_def)
  obtain s2 where s2: "rt_memheap_free (Some a) ?s = Some (MhReturn (), s2)" "mh_inv m s2" "mh_step m ?s s2"
    "mh_regions m s2 = (mh_regions m ?s)(a := None)"
    by (rule mh_free_step [OF _ reg1]) (use 2(3) in \<open>auto intro: that\<close>)
  have run: "realloc_move m a oldsize k s = Some (RReturn (Some ?b), s2)"
    using 2(1) s2(1) by (simp add: realloc_move_def realloc_copy_def realloc_free_old_def Let_def)
  have "sm_bytes s2 = copied ?b a ?c (sm_bytes s)" using s2(3) bytes by (auto simp: mh_step_def)
  then have "(\<forall>i<min old new. sm_bytes s2 (?b + i) = sm_bytes s (a + i)) \<and> (\<forall>y. y \<notin> region_bytes ?b n \<longrightarrow> sm_bytes s2 y = sm_bytes s y)"
    using n(1) k(2) by (auto simp: copied_def fill_def c region_bytes_def)
  moreover have "mh_regions m s2 = (mh_regions m s)(a := None, ?b \<mapsto> n)" using s2(4) 2(6) ab by (simp add: fun_upd_twist)
  ultimately have "resized m a old new s (Some ?b) s2" using s2(2) 2(5) n(1) k(2) by (auto simp: resized_def intro!: exI [of _ n])
  then show ?case using run by blast
qed

lemma resized_in_place:
  assumes "mh_inv m s'" "mh_step m s s'" "mh_regions m s' = (mh_regions m s)(a \<mapsto> n)" "new \<le> n"
  shows "resized m a old new s (Some a) s'"
  using assms by (auto simp: resized_def mh_step_def intro!: exI [of _ n])

lemma realloc_bound:
  assumes "q \<le> 0xfffffff0"
  shows "unat q \<le> unat (request_size q)" "unat (request_size q) + 12 < 2 ^ 32" "request_size q \<le> 0xfffffffc"
proof -
  have q: "q \<le> 0xfffffffc" "unat q \<le> 4294967280" using assms by (simp_all add: word_le_nat_alt)
  have "(unat q + 3) div 4 \<le> 4294967283 div 4" using q(2) by (intro div_le_mono) simp
  then have "4 * ((unat q + 3) div 4) \<le> 4294967280" by simp
  then show "unat (request_size q) + 12 < 2 ^ 32" by (simp add: request_size_bytes(1) request_bytes_def unat_align [OF q(1)])
  then show "request_size q \<le> 0xfffffffc" by (simp add: word_le_nat_alt)
  show "unat q \<le> unat (request_size q)" using request_bytes_ok(3) [OF q(1)] by (simp add: request_size_bytes(1))
qed

text \<open>Growing: into the free successor, or by a move.\<close>

lemma realloc_grow_step:
  assumes inv: "mh_inv m s" and reg: "mh_regions m s a = Some old" and new: "new \<le> unat k"
    and k: "old < unat k" "unat k + 12 < 2 ^ 32" "k \<le> 0xfffffffc"
  defines "oldsize \<equiv> MEMITEM_SIZE (mh_items s) (a - 24)"
  shows "\<exists>r s'. realloc_grow m a oldsize k RT_EOK (mh_taken m s) = Some (RReturn r, s') \<and> resized m a old new s r s'"
proof -
  note V = mh_invD [OF inv] and R = mh_region_item [OF inv reg]
  note lk = mh_lock_run [OF V(1,4)]
  let ?h = "memheaps s m" and ?I = "mh_items s" and ?x = "a - 24"
  have get: "get_mh m (mh_taken m s) = (?h, ?I)" using lk(2) by (simp add: get_mh_def)
  have o: "unat oldsize = old" using mh_region_size(1) [OF inv reg] by (simp add: oldsize_def)
  have less: "MEMITEM_SIZE ?I ?x < k" using o k(1) by (simp add: oldsize_def word_less_nat_alt)
  show ?thesis
  proof (rule mh_grow_ok [OF V(6,7) R(2,3) less k(2)], goal_cases)
    case (1 h' J bs gs)
    note P = mh_inv_put [OF inv 1(4,2,3,5,6)]
    have "realloc_grow m a oldsize k RT_EOK (mh_taken m s) = Some (RReturn (Some a), put_mh m (h', J) s)"
      using 1(1,4) get lk(3) [of "(h', J)"] by (simp add: realloc_grow_def oldsize_def)
    moreover have "resized m a old new s (Some a) (put_mh m (h', J) s)"
      by (rule resized_in_place [where n = "unat k"]) (use P 1(7) R(1) V(8) new in \<open>auto simp: mh_step_def\<close>)
    ultimately show ?case by blast
  next
    case 2
    have "put_mh m (?h, ?I) s = s" by (rule put_mh_same)
    then have "realloc_grow m a oldsize k RT_EOK (mh_taken m s) = realloc_move m a oldsize k s"
      using 2(1) get lk(3) [of "(?h, ?I)"] by (simp add: realloc_grow_def oldsize_def mh_counts_def)
    then show ?case using realloc_move_step [OF inv reg k(3) new o] by simp
  qed
qed

lemma realloc_shrink_step:
  assumes inv: "mh_inv m s" and reg: "mh_regions m s a = Some old" and new: "new \<le> unat k" and k: "12 \<le> k" "unat k + 36 < old"
  shows "\<exists>s'. realloc_shrink m a k RT_EOK (mh_taken m s) = Some (RReturn (Some a), s') \<and> resized m a old new s (Some a) s'"
proof -
  note V = mh_invD [OF inv] and R = mh_region_item [OF inv reg]
  note lk = mh_lock_run [OF V(1,4)]
  let ?h = "memheaps s m" and ?I = "mh_items s" and ?x = "a - 24"
  have "unat k + 36 < unat (MEMITEM_SIZE ?I ?x)" using mh_region_size(1) [OF inv reg] k(2) by simp
  from mh_shrink_ok [OF V(6,7) R(2,3) k(1) this] obtain h' J bs gs where f: "mh_shrink m ?x k (?h, ?I) = (h', J)" "mh_layout m (mh_free_list h') J bs gs"
    "mh_available_size h' = free_bytes J gs" "mh_counts ?h h'" "hd bs = hd (mh_item_list m s)" "last bs = last (mh_item_list m s)"
    "mh_used J bs = (mh_used ?I (mh_item_list m s))(?x + 24 \<mapsto> unat k)" .
  note P = mh_inv_put [OF inv f(4,2,3,5,6)]
  have "realloc_shrink m a k RT_EOK (mh_taken m s) = Some (RReturn (Some a), put_mh m (h', J) s)"
    using f(1,4) lk(2) lk(3) [of "(h', J)"] by (simp add: realloc_shrink_def get_mh_def)
  moreover have "resized m a old new s (Some a) (put_mh m (h', J) s)"
    by (rule resized_in_place [where n = "unat k"]) (use P f(7) R(1) V(8) new in \<open>auto simp: mh_step_def\<close>)
  ultimately show ?thesis by blast
qed

lemma realloc_step:
  assumes inv: "mh_inv m s" and reg: "mh_regions m s a = Some old" and q: "q \<noteq> 0" "q \<le> 0xfffffff0"
  shows "\<exists>r s'. rt_memheap_realloc m (Some a) q s = Some (RReturn r, s') \<and> resized m a old (unat q) s r s'"
proof -
  note lk = mh_lock_run [OF mh_invD(1,4) [OF inv]] and B = realloc_bound [OF q(2)]
  let ?k = "request_size q" and ?o = "MEMITEM_SIZE (mh_items s) (a - 24)"
  have o: "unat ?o = old" by (rule mh_region_size(1) [OF inv reg])
  consider (grow) "old < unat ?k" | (keep) "unat ?k \<le> old" "old \<le> unat ?k + 36" | (shrink) "unat ?k + 36 < old" by linarith
  then show ?thesis
  proof cases
    case grow
    then have "rt_memheap_realloc m (Some a) q s = realloc_grow m a ?o ?k RT_EOK (mh_taken m s)"
      using q(1) mh_type [OF inv] o lk(1) by (simp add: rt_memheap_realloc_def Let_def word_less_nat_alt)
    then show ?thesis using realloc_grow_step [OF inv reg B(1) grow B(2,3)] by simp
  next
    case keep
    then have "?o \<le> ?k + 24 + 12 \<and> \<not> ?o < ?k"
      using o mh_region_size(2) [OF inv reg] by (simp add: word_le_nat_alt word_less_nat_alt unat_word_ariths)
    then have "rt_memheap_realloc m (Some a) q s = Some (RReturn (Some a), s)"
      using q(1) mh_type [OF inv] by (simp add: rt_memheap_realloc_def Let_def)
    moreover have "resized m a old (unat q) s (Some a) s"
      by (rule resized_in_place [where n = old]) (use inv reg keep(1) B(1) in \<open>auto simp: fun_upd_idem\<close>)
    ultimately show ?thesis by blast
  next
    case shrink
    have "unat ?o < 2 ^ 32" using unsigned_less [of ?o] by simp
    then have "unat (?k + 36) = unat ?k + 36" using shrink o by (simp add: unat_word_ariths)
    then have "rt_memheap_realloc m (Some a) q s = realloc_shrink m a ?k RT_EOK (mh_taken m s)"
      using q(1) mh_type [OF inv] o lk(1) shrink by (simp add: rt_memheap_realloc_def Let_def word_less_nat_alt word_le_nat_alt add.assoc)
    then show ?thesis using realloc_shrink_step [OF inv reg B(1) request_size_bytes(2) shrink] by auto
  qed
qed

subsection \<open>Initialisation\<close>

lemma object_init_frame_mh:
  assumes "kinv s" "\<not> live s x" "readable RT_NAME_MAX name" "rt_object_init x (class_of x) name s = Some s'"
  shows "memheaps s' = memheaps s" "mh_items s' = mh_items s"
proof -
  obtain s1 nm where s1: "rt_object_init x (class_of x) name s = Some (linked_object x (class_of x OR RT_Object_Class_Static) nm s1)"
    "core_step s s1"
    by (rule rt_object_init_ok [OF assms(1-3)], rule that)
  then have eq: "s' = linked_object x (class_of x OR RT_Object_Class_Static) nm s1" using assms(4) by simp
  show "memheaps s' = memheaps s" "mh_items s' = mh_items s"
    using core_step_fields(18,19) [OF s1(2)] by (simp_all add: eq linked_object_def)
qed

lemma sem_init_frame:
  assumes inv: "kinv s" and fresh: "\<not> live s (OSem i)" and name: "readable RT_NAME_MAX name"
  obtains s' where "rt_sem_init i name 1 RT_IPC_FLAG_PRIO s = Some (RT_EOK, s')" "kinv s'" "\<And>y. live s' y \<longleftrightarrow> y = OSem i \<or> live s y"
    "sem_value (sems s' i) = 1" "ring (thread_rings s') (Suspended (OSem i)) = []" "memheaps s' = memheaps s" "mh_items s' = mh_items s"
proof -
  obtain s1 where s1: "rt_object_init (OSem i) (class_of (OSem i)) name s = Some s1" "kinv s1"
    "\<And>l. wait_list (OSem i) l \<Longrightarrow> ipc_object_init l s1 = Some s1"
    "\<And>l. wait_list (OSem i) l \<Longrightarrow> ring (thread_rings s1) l = []" "\<And>y. live s1 y \<longleftrightarrow> y = OSem i \<or> live s y"
    by (rule ipc_init_ok [OF inv _ fresh name], simp, rule that)
  note fr = object_init_frame_mh [OF inv fresh name s1(1)]
  let ?s = "upd_obj (OSem i) (\<lambda>b. b\<lparr>ob_flag := RT_IPC_FLAG_PRIO\<rparr>) (upd_sem i (\<lambda>m. m\<lparr>sem_value := 1\<rparr>) s1)"
  have "rt_sem_init i name 1 RT_IPC_FLAG_PRIO s = Some (RT_EOK, ?s)"
    using s1(1) s1(3) [of "Suspended (OSem i)"] by (simp add: rt_sem_init_def class_of_def)
  moreover have "kinv ?s" by (rule kinv_set_flag) (use s1(2) in simp_all)
  ultimately show thesis using that [of ?s] s1(4) [of "Suspended (OSem i)"] s1(5) fr by (simp add: upd_obj_def upd_sem_def live_def)
qed

text \<open>The first layout: one free item, and the used one at the end.\<close>

lemma init_layout:
  assumes t: "start + 36 \<le> tail" "tail + 24 \<le> 2 ^ 32" and hdr: "hdr \<notin> {start..tail}"
  shows "mh_layout m hdr (mh_init_items m hdr start tail I) [start, tail] [start]"
    "free_bytes (mh_init_items m hdr start tail I) [start] = of_nat tail - of_nat start - 24"
proof -
  have ne: "hdr \<noteq> start" "hdr \<noteq> tail" "start \<noteq> tail" using t hdr by auto
  show "mh_layout m hdr (mh_init_items m hdr start tail I) [start, tail] [start]"
    unfolding mh_layout_def using ne t hdr by (simp add: mh_init_items_def cyc_def mh_links)
  show "free_bytes (mh_init_items m hdr start tail I) [start] = of_nat tail - of_nat start - 24"
    using ne by (simp add: mh_init_items_def free_bytes_def MEMITEM_SIZE_def mh_links)
qed

lemma rt_memheap_init_ok:
  assumes inv: "kinv s" and fresh: "\<not> live s (OMemHeap m)" "\<not> live s (OSem lock)" and name: "readable RT_NAME_MAX name" and m: "m \<noteq> 0"
    and P: "P = 4 * (unat sz div 4)" "60 \<le> P" "start + P \<le> 2 ^ 32" and hdr: "m + 44 \<notin> {start..<start + P}"
  obtains s' where "rt_memheap_init m lock name start sz s = Some (RT_EOK, s')" "mh_inv m s'" "mh_regions m s' = Map.empty"
    "mh_item_list m s' = [start, start + P - 24]" "mh_free_items m s' = [start]" "unat (mh_available_size (memheaps s' m)) = P - 48"
proof -
  obtain s1 where s1: "rt_object_init (OMemHeap m) (class_of (OMemHeap m)) name s = Some s1" "kinv s1"
    "\<And>y. live s1 y \<longleftrightarrow> y = OMemHeap m \<or> live s y"
    by (rule ipc_init_ok [OF inv _ fresh(1) name], simp, rule that)
  define p where "p = RT_ALIGN_DOWN sz RT_ALIGN_SIZE"
  have p: "unat p = P" by (simp add: p_def P(1) unat_align_down)
  let ?tail = "start + unat (p - 48 + 24)" and ?hdr = "free_header m"
  have av: "unat (p - 48) = P - 48" "unat (p - 48 + 24) = P - 24" using p P(2,3) by (simp_all add: unat_sub word_le_nat_alt)
  have tail: "?tail = start + P - 24" using P(2) av by simp
  let ?J = "mh_init_items m ?hdr start ?tail (mh_items s)"
  let ?h = "\<lparr>mh_start_addr = start, mh_pool_size = p, mh_available_size = p - 48, mh_max_used_size = p - (p - 48), mh_block_list = start,
      mh_free_list = ?hdr, mh_lock = lock, mh_locked = False\<rparr>"
  note lay = init_layout [of start ?tail ?hdr m "mh_items s"]
  have L: "mh_layout m ?hdr ?J [start, ?tail] [start]" "free_bytes ?J [start] = of_nat ?tail - of_nat start - 24"
    by (rule lay; use P(2,3) hdr tail in \<open>auto simp: free_header_def\<close>)+
  let ?s = "put_mh m (?h, ?J) s1"
  have k: "kinv ?s" "\<not> live ?s (OSem lock)" using s1(2,3) fresh(2) by simp_all
  obtain s' where s': "rt_sem_init lock name 1 RT_IPC_FLAG_PRIO ?s = Some (RT_EOK, s')" "kinv s'" "\<And>y. live s' y \<longleftrightarrow> y = OSem lock \<or> live ?s y"
    "sem_value (sems s' lock) = 1" "ring (thread_rings s') (Suspended (OSem lock)) = []" "memheaps s' = memheaps ?s" "mh_items s' = mh_items ?s"
    by (rule sem_init_frame [OF k name], rule that)
  note fr = object_init_frame_mh [OF inv fresh(1) name s1(1)]
  have run: "rt_memheap_init m lock name start sz s = Some (RT_EOK, s')"
    using s1(1) s'(1) fr by (simp add: rt_memheap_init_def class_of_def Let_def p_def)
  have rep: "mh_rep m [start, ?tail] [start] s'"
    using L p P(2) s'(6,7) tail av by (simp add: mh_rep_def Let_def)
  have "mh_lock_ready m s'" using s'(3-6) by (simp add: mh_lock_ready_def Let_def)
  then have i: "mh_inv m s'" using s'(2,3) s1(3) m by (intro mh_invI [OF _ _ _ _ rep]) simp_all
  have "mh_regions m s' = Map.empty"
    using mh_regions_rep [OF rep] mh_layout_used [OF L(1), of start] s'(7) by (simp add: mh_used_def fun_eq_iff)
  then show ?thesis using that [OF run i] mh_rep_lists [OF rep] s'(6) av tail by simp
qed

text \<open>A heap in which nothing is allocated is one free item again.\<close>

lemma mh_empty:
  assumes inv: "mh_inv m s" and none: "mh_regions m s = Map.empty"
  defines "h \<equiv> memheaps s m"
  shows "mh_item_list m s = [mh_start_addr h, mh_start_addr h + unat (mh_pool_size h) - 24] \<and> mh_free_items m s = [mh_start_addr h] \<and>
    unat (mh_available_size h) + 48 = unat (mh_pool_size h)"
proof -
  let ?as = "mh_item_list m s" and ?fs = "mh_free_items m s" and ?I = "mh_items s"
  note V = mh_invD [OF inv]
  have e: "hd ?as = mh_start_addr h" "hd ?as < last ?as" "last ?as + 24 = mh_start_addr h + unat (mh_pool_size h)"
    using V(5) by (simp_all add: mh_rep_def Let_def h_def)
  have sub: "x \<in> set ?fs" if "x \<in> set (butlast ?as)" for x
  proof (rule ccontr)
    assume "x \<notin> set ?fs"
    then have "mh_used ?I ?as (x + 24) \<noteq> None" using mh_layout_used [OF V(6), of x] that by (simp add: mh_used_def in_set_butlastD)
    then show False using none V(8) by simp
  qed
  obtain a b rest where as: "?as = a # b # rest" using e(2) mh_layoutD(1) [OF V(6)] by (cases ?as; cases "tl ?as") (auto simp: cyc_def)
  have "rest = []" using sub [of a] sub [of b] mh_layoutD(8) [OF V(6)] by (cases rest) (auto simp: as)
  then have as2: "?as = [a, b]" by (simp add: as)
  have "set ?fs \<subseteq> {a}" "distinct ?fs" "a \<in> set ?fs"
    using mh_layoutD(2,6,7) [OF V(6)] sub [of a] by (auto simp: as2 cyc_def)
  then have fs: "?fs = [a]" by (cases ?fs; cases "tl ?fs") auto
  have "mh_available_size h = MEMITEM_SIZE ?I a" using V(7) by (simp add: h_def fs free_bytes_def)
  then have "unat (mh_available_size h) = b - a - 24" using mh_item(5) [OF V(6), of "[]" a b "[]"] as2 by simp
  then show ?thesis using e mh_item(3) [OF V(6), of "[]" a b "[]"] by (simp add: as2 fs) arith
qed

subsection \<open>An example\<close>

text \<open>A heap of 1024 bytes with a used item, a free one of 76 bytes, another used one and the end.\<close>

definition demo_item :: "u32 \<Rightarrow> nat \<Rightarrow> nat \<Rightarrow> nat \<Rightarrow> nat \<Rightarrow> rt_memheap_item" where
  "demo_item w n p nf pf = \<lparr>mhi_magic = w, mhi_pool_ptr = 8192, mhi_next = n, mhi_prev = p, mhi_next_free = nf, mhi_prev_free = pf\<rparr>"

definition demo_mh :: kernel where
  "demo_mh = (demo 3)
     \<lparr>memheaps := (\<lambda>_. \<lparr>mh_start_addr = 12288, mh_pool_size = 1024, mh_available_size = 76, mh_max_used_size = 948, mh_block_list = 12288,
        mh_free_list = 8236, mh_lock = 1, mh_locked = False\<rparr>),
      mh_items := (\<lambda>_. zero_mh_item)
        (8236 := demo_item 0x1ea01ea0 0 0 12388 12388, 12288 := demo_item 0x1ea01ea1 12388 13288 0 0,
         12388 := demo_item 0x1ea01ea0 12488 12288 8236 8236, 12488 := demo_item 0x1ea01ea1 13288 12388 0 0,
         13288 := demo_item 0x1ea01ea1 12288 12488 0 0),
      sems := (\<lambda>_. \<lparr>sem_value = 1\<rparr>)\<rparr>"

lemma demo_mh_rep: "mh_rep 8192 [12288, 12388, 12488, 13288] [12388] demo_mh"
  unfolding mh_rep_def mh_layout_def Let_def
  by (simp add: demo_mh_def demo_item_def cyc_def free_bytes_def MEMITEM_SIZE_def)

lemma demo_mh_inv: "mh_inv 8192 demo_mh"
proof (rule mh_invI [OF _ _ _ _ demo_mh_rep])
  show "kinv demo_mh" using demo_kinv(1) by (simp add: demo_mh_def)
  show "live demo_mh (OMemHeap 8192)" by (simp add: demo_mh_def demo_live_iff demo_live_def)
  show "mh_lock_ready 8192 demo_mh" by (simp add: demo_mh_def mh_lock_ready_def Let_def demo_live_iff demo_live_def)
qed simp

lemma demo_mh_regions: "mh_regions 8192 demo_mh = [12312 \<mapsto> 76, 12512 \<mapsto> 776]"
  unfolding mh_regions_rep [OF demo_mh_rep]
  by (auto simp: mh_used_def demo_mh_def demo_item_def RT_MEMHEAP_IS_USED_def fun_eq_iff)

subsection \<open>Properties\<close>

text \<open>
  C16. \<^verbatim>\<open>rt_memheap_alloc\<close> is first fit in the order of the free ring. On every heap with its invariant and for every size the
  call returns at once (the search ends, no assertion fails) the address behind the header of the first free item that is long enough, if fewer
  bytes are requested than are available, and NULL otherwise; a failed call changes nothing. A successful one adds exactly one region that was not allocated before,
  has at least the requested bytes, rounded up, and less than 36 bytes more; all other regions stay. Rings, counters and the lock are in order afterwards, and
  nothing in the kernel changes but this heap.
\<close>

theorem rt_memheap_alloc_correct:
  assumes "mh_inv m s"
  shows "\<exists>s'. rt_memheap_alloc m q s = Some (MhReturn (map_option (\<lambda>x. x + 24) (mh_fit m q s)), s') \<and> mh_inv m s' \<and> mh_step m s s' \<and>
    (case mh_fit m q s of
       None \<Rightarrow> s' = s
     | Some x \<Rightarrow> mh_regions m s (x + 24) = None \<and>
         (\<exists>n. request_bytes q \<le> n \<and> n < request_bytes q + 36 \<and> mh_regions m s' = (mh_regions m s)(x + 24 \<mapsto> n)))"
  by (rule mh_alloc_step [OF assms, of q]) (use assms in auto)

theorem rt_memheap_alloc_correct_witness:
  "\<exists>s'. rt_memheap_alloc 8192 30 demo_mh = Some (MhReturn (Some 12412), s') \<and> mh_inv 8192 s' \<and> mh_step 8192 demo_mh s' \<and>
    (\<exists>n. 32 \<le> n \<and> n < 68 \<and> mh_regions 8192 s' = [12312 \<mapsto> 76, 12512 \<mapsto> 776, 12412 \<mapsto> n])"
proof -
  have k: "request_size 30 = 32" "request_bytes 30 = 32" by (simp_all add: request_size_def request_bytes_def RT_ALIGN_def Let_def)
  have "MEMITEM_SIZE (mh_items demo_mh) 12388 = 76" "mh_available_size (memheaps demo_mh 8192) = 76"
    by (simp_all add: demo_mh_def demo_item_def MEMITEM_SIZE_def)
  then have "mh_fit 8192 30 demo_mh = Some 12388" by (simp add: mh_fit_def k mh_rep_lists(2) [OF demo_mh_rep])
  then show ?thesis using rt_memheap_alloc_correct [OF demo_mh_inv, of 30] by (auto simp: k demo_mh_regions)
qed

text \<open>
  C15. \<^verbatim>\<open>rt_memheap_realloc\<close> on a block of the heap, for every new size up to \<open>0xfffffff0\<close>: the call returns at once. Without a result nothing at
  all has changed. With a result, the block has at least the new size, in its old place or in one that was not allocated, every other block is
  still allocated with its size, the bytes of the old block up to the smaller of the two sizes are kept, and no byte outside of the
  resulting block has changed. This covers growing into a free neighbour, cutting off the end, leaving the block as it is and
  moving it.
\<close>

theorem rt_memheap_realloc_correct:
  assumes "mh_inv m s" "mh_regions m s a = Some old" "q \<noteq> 0" "q \<le> 0xfffffff0"
  shows "\<exists>r s'. rt_memheap_realloc m (Some a) q s = Some (RReturn r, s') \<and> mh_inv m s' \<and>
     (case r of
        None \<Rightarrow> s' = s
      | Some b \<Rightarrow> \<exists>n\<ge>unat q. mh_regions m s' = (mh_regions m s)(a := None, b \<mapsto> n) \<and> (b = a \<or> mh_regions m s b = None) \<and>
          (\<forall>i<min old (unat q). sm_bytes s' (b + i) = sm_bytes s (a + i)) \<and> (\<forall>y. y \<notin> region_bytes b n \<longrightarrow> sm_bytes s' y = sm_bytes s y))"
  using realloc_step [OF assms] unfolding resized_def .

theorem rt_memheap_realloc_correct_witness:
  "\<exists>r s'. rt_memheap_realloc 8192 (Some 12312) 100 demo_mh = Some (RReturn r, s') \<and> mh_inv 8192 s' \<and>
     (r = None \<or> mh_regions 8192 s' 12512 = Some 776)"
proof -
  have "mh_regions 8192 demo_mh 12312 = Some 76" by (simp add: demo_mh_regions)
  from rt_memheap_realloc_correct [OF demo_mh_inv this, of 100, folded resized_def]
  obtain r s' where s': "rt_memheap_realloc 8192 (Some 12312) 100 demo_mh = Some (RReturn r, s')" "resized 8192 12312 76 (unat (100 :: u32)) demo_mh r s'"
    by auto
  then show ?thesis by (cases r) (auto simp: resized_def demo_mh_regions)
qed

text \<open>
  C14. Memory safety of a memory heap, for a whole program of a client: every sequence of requests of any sizes and of frees of blocks it holds
  runs to its end without waiting, keeps the invariants of the kernel and of the heap (both rings, marks, counters, no two free neighbours), and leaves the client
  with blocks that are pairwise disjoint, are allocated and are not among those others hold; what others hold stays allocated with its size. When nobody holds a
  block any more, the heap is one free item again and its counter says so.
\<close>

theorem mh_client_safe:
  assumes "mh_inv m s"
  shows "\<exists>held s'. client_run (mh_request m) mh_release ps ([], s) = Some (held, s') \<and> mh_inv m s' \<and> distinct held \<and>
    dom (mh_regions m s') = set held \<union> dom (mh_regions m s) \<and> set held \<inter> dom (mh_regions m s) = {} \<and> regions_disjoint (mh_regions m s') \<and>
    (\<forall>a\<in>dom (mh_regions m s). mh_regions m s' a = mh_regions m s a) \<and>
    (held = [] \<and> mh_regions m s = Map.empty \<longrightarrow>
       mh_free_items m s' = [mh_start_addr (memheaps s' m)] \<and> unat (mh_available_size (memheaps s' m)) + 48 = unat (mh_pool_size (memheaps s' m)))"
proof -
  obtain held s' where *: "client_run (mh_request m) mh_release ps ([], s) = Some (held, s')" "mh_inv m s'" "distinct held"
    "set held \<union> dom (mh_regions m s) = dom (mh_regions m s')" "set held \<inter> dom (mh_regions m s) = {}" "regions_disjoint (mh_regions m s')"
    "\<forall>a\<in>dom (mh_regions m s). mh_regions m s' a = mh_regions m s a"
    using memheap.client_run_ok [of m s "[]" "dom (mh_regions m s)" ps] assms by auto
  have "mh_regions m s' = Map.empty" if "held = []" "mh_regions m s = Map.empty" using *(4) that dom_eq_empty_conv by auto
  then show ?thesis using * mh_empty [OF *(2)] by (intro exI [of _ held] exI [of _ s']) simp
qed

theorem mh_client_safe_witness:
  "\<exists>held s'. client_run (mh_request 8192) mh_release [Request 8, Request 100, Request 3, Release 1] ([], demo_mh) = Some (held, s') \<and>
    mh_inv 8192 s' \<and> distinct held \<and> dom (mh_regions 8192 s') = set held \<union> {12312, 12512} \<and> set held \<inter> {12312, 12512} = {} \<and>
    regions_disjoint (mh_regions 8192 s') \<and> mh_regions 8192 s' 12512 = Some 776"
proof -
  have d: "dom (mh_regions 8192 demo_mh) = {12312, 12512}" "mh_regions 8192 demo_mh 12512 = Some 776" by (auto simp: demo_mh_regions)
  show ?thesis using mh_client_safe [OF demo_mh_inv, of "[Request 8, Request 100, Request 3, Release 1]"] unfolding d(1)
    by (elim exE conjE) (intro exI conjI, assumption+, simp add: d(2))
qed

text \<open>
  \<^verbatim>\<open>rt_memheap_init\<close> makes a heap with its invariant and nothing allocated, when the object and the semaphore are new, the memory has room for one block
  between two headers, and the heap object lies outside of it.
\<close>

theorem rt_memheap_init_correct:
  assumes "kinv s" "\<not> live s (OMemHeap m)" "\<not> live s (OSem lock)" "readable RT_NAME_MAX name" "m \<noteq> 0" "60 \<le> 4 * (unat sz div 4)"
    "start + 4 * (unat sz div 4) \<le> 2 ^ 32" "m + 44 \<notin> {start..<start + 4 * (unat sz div 4)}"
  shows "\<exists>s'. rt_memheap_init m lock name start sz s = Some (RT_EOK, s') \<and> mh_inv m s' \<and> mh_regions m s' = Map.empty \<and>
    unat (mh_available_size (memheaps s' m)) = 4 * (unat sz div 4) - 48"
  by (rule rt_memheap_init_ok [OF assms(1-5) refl assms(6-8)]) blast

text \<open>\<^verbatim>\<open>rt_memheap_info\<close> reports the size of the heap and the exact number of bytes that are not in free items.\<close>

theorem rt_memheap_info_correct:
  assumes "mh_inv m s"
  shows "rt_memheap_info m s = Some (MhReturn (Some (mh_pool_size (memheaps s m),
      mh_pool_size (memheaps s m) - free_bytes (mh_items s) (mh_free_items m s), mh_max_used_size (memheaps s m))), s)"
proof -
  note V = mh_invD [OF assms]
  note lk = mh_lock_run [OF V(1,4)]
  have "put_mh m (get_mh m s) (mh_taken m s) = mh_taken m s" using put_mh_simps(9) [of m "mh_taken m s"] lk(2) by simp
  then have "mh_release_lock m (mh_taken m s) = Some s" using lk(3) [of "get_mh m s"] by (simp add: put_mh_same get_mh_def mh_counts_def)
  moreover have "memheaps (mh_taken m s) m = memheaps s m" using lk(2) by (simp add: get_mh_def)
  ultimately show ?thesis using lk(1) V(7) by (simp add: rt_memheap_info_def memheap_info_taken_def Let_def)
qed

text \<open>
  When the lock is taken, a request waits for it like every taker of a semaphore; until then the heap is not touched.
\<close>

theorem rt_memheap_alloc_waits:
  assumes inv: "kinv s" "live s (OMemHeap m)" and l: "l = mh_lock (memheaps s m)" "\<not> mh_locked (memheaps s m)" "live s (OSem l)" "ipc_flag_ok s (OSem l)"
    and cur: "rt_current_thread s = Some t" "status s t = RT_THREAD_RUNNING" "rt_scheduler_lock_nest s = 0" "rt_interrupt_nest s = 0"
    and q: "sem_value (sems s l) = 0" "request_size q < mh_available_size (memheaps s m)"
  shows "\<exists>s'. rt_memheap_alloc m q s = Some (MhPending t, s') \<and> get_mh m s' = get_mh m s \<and>
    blocked (Suspended (OSem l)) (ob_flag (objs s (OSem l))) t (- 1) s s'"
proof -
  obtain s' where s': "rt_sem_take l (- 1) s = Some (Pending t, s')" "blocked (Suspended (OSem l)) (ob_flag (objs s (OSem l))) t (- 1) s s'"
    using rt_sem_take_blocks [OF inv(1) l(3,4) cur, of "- 1"] q(1) by auto
  have "rt_object_get_type (OMemHeap m) s = RT_Object_Class_MemHeap"
    using rt_object_get_type_live [of s "OMemHeap m"] inv by (simp add: class_of_def)
  then have "rt_memheap_alloc m q s = Some (MhPending t, s')" using s'(1) q(2) l(1,2) by (simp add: rt_memheap_alloc_def mh_take_lock_def Let_def)
  then show ?thesis using s'(2) blockedD(2) [OF s'(2)] core_step_fields(18,19) by (auto simp: get_mh_def)
qed

text \<open>
  The test for room in a free successor adds 12 to the new size, which wraps around for the three sizes above \<open>0xfffffff0\<close>: the block then counts as grown
  although no heap can hold it, and the next header is written at a wrapped address.
\<close>

theorem mh_grow_wraps:
  "\<exists>hs. mh_grow 8192 12288 76 0xfffffff4 (get_mh 8192 demo_mh) = Some (True, hs)"
proof -
  have "mhi_next (mh_items demo_mh 12288) = 12388" "\<not> RT_MEMHEAP_IS_USED (mh_items demo_mh) 12388" "MEMITEM_SIZE (mh_items demo_mh) 12388 = 76"
    by (simp_all add: demo_mh_def demo_item_def RT_MEMHEAP_IS_USED_def MEMITEM_SIZE_def)
  then show ?thesis by (simp add: mh_grow_def get_mh_def Let_def)
qed

text \<open>Rounding up also wraps around: a request of more than \<open>0xfffffffc\<close> bytes is served like one of a single byte.\<close>

theorem rt_memheap_alloc_huge: "0xfffffffc < sz \<Longrightarrow> rt_memheap_alloc m sz s = rt_memheap_alloc m 1 s"
  by (simp add: rt_memheap_alloc_def request_size_def align_wraps) (simp add: RT_ALIGN_def)

end
