(* ===== verification/RT_RingBuffer.thy ===== *)
theory RT_RingBuffer
  imports RT_Buffer
begin

section \<open>Ring buffers: \<^verbatim>\<open>components/drivers/ipc/ringbuffer.c\<close>\<close>

text \<open>
  The byte queue between device drivers and threads. Read and write index are 15-bit fields, each with a mirror bit
  that flips when the index wraps around: equal indices with equal mirrors mean an empty buffer, with different
  mirrors a full one. The arithmetic is done as in C: bit fields and 16-bit numbers are
  promoted to \<^verbatim>\<open>int\<close> (here \<open>int\<close>), lengths are \<^verbatim>\<open>rt_size_t\<close>, and assignments truncate to the width of the target.
  Copies that leave the pool or the buffer of the caller have no result.

  The operations are shown to implement a queue of bytes with a fixed room.
\<close>

subsection \<open>Operations\<close>

record rt_ringbuffer =
  rb_buffer_ptr :: nat
  rb_pool :: "u8 list"
  rb_read_mirror :: bool
  rb_read_index :: "15 word"
  rb_write_mirror :: bool
  rb_write_index :: "15 word"
  rb_buffer_size :: u16

datatype rt_ringbuffer_state = RT_RINGBUFFER_EMPTY | RT_RINGBUFFER_FULL | RT_RINGBUFFER_HALFFULL

definition rt_ringbuffer_status :: "rt_ringbuffer \<Rightarrow> rt_ringbuffer_state" where
  "rt_ringbuffer_status rb =
     (if rb_read_index rb = rb_write_index rb then
        if rb_read_mirror rb = rb_write_mirror rb then RT_RINGBUFFER_EMPTY else RT_RINGBUFFER_FULL
      else RT_RINGBUFFER_HALFFULL)"

text \<open>\<^verbatim>\<open>buffer_size\<close> is a signed 16-bit number.\<close>

definition rb_isize :: "rt_ringbuffer \<Rightarrow> int" where
  "rb_isize rb = sint (rb_buffer_size rb)"

definition rt_ringbuffer_init :: "rt_ringbuffer \<Rightarrow> nat \<Rightarrow> u8 list \<Rightarrow> u16 \<Rightarrow> rt_ringbuffer option" where
  "rt_ringbuffer_init rb pool bytes sz = do {
     RT_ASSERT (sint sz > 0);
     let rb = rb\<lparr>rb_read_mirror := False, rb_read_index := 0\<rparr>;
     let rb = rb\<lparr>rb_write_mirror := False, rb_write_index := 0\<rparr>;
     Some (rb\<lparr>rb_buffer_ptr := pool, rb_pool := bytes, rb_buffer_size := RT_ALIGN_DOWN sz 4\<rparr>)
   }"

definition rt_ringbuffer_data_len :: "rt_ringbuffer \<Rightarrow> u32" where
  "rt_ringbuffer_data_len rb =
     (case rt_ringbuffer_status rb of
        RT_RINGBUFFER_EMPTY \<Rightarrow> 0
      | RT_RINGBUFFER_FULL \<Rightarrow> of_int (rb_isize rb)
      | RT_RINGBUFFER_HALFFULL \<Rightarrow>
          let wi = (ucast (rb_write_index rb) :: u32); ri = (ucast (rb_read_index rb) :: u32)
          in if wi > ri then wi - ri else of_int (rb_isize rb) - (ri - wi))"

definition rt_ringbuffer_space_len :: "rt_ringbuffer \<Rightarrow> u32" where
  "rt_ringbuffer_space_len rb = of_int (rb_isize rb) - rt_ringbuffer_data_len rb"

definition rt_ringbuffer_get_size :: "rt_ringbuffer \<Rightarrow> u16" where
  "rt_ringbuffer_get_size rb = rb_buffer_size rb"

text \<open>\<^verbatim>\<open>rt_memcpy(&rb->buffer_ptr[off], ptr, n)\<close> and a copy out of the pool.\<close>

definition rb_copy_in :: "int \<Rightarrow> u8 list \<Rightarrow> int \<Rightarrow> rt_ringbuffer \<Rightarrow> rt_ringbuffer option" where
  "rb_copy_in off ptr n rb = do {
     RT_ASSERT (0 \<le> off \<and> 0 \<le> n \<and> nat n \<le> length ptr \<and> nat off + nat n \<le> length (rb_pool rb));
     Some (rb\<lparr>rb_pool := take (nat off) (rb_pool rb) @ take (nat n) ptr @ drop (nat off + nat n) (rb_pool rb)\<rparr>)
   }"

definition rb_copy_out :: "int \<Rightarrow> int \<Rightarrow> rt_ringbuffer \<Rightarrow> u8 list option" where
  "rb_copy_out off n rb = do {
     RT_ASSERT (0 \<le> off \<and> 0 \<le> n \<and> nat off + nat n \<le> length (rb_pool rb));
     Some (take (nat n) (drop (nat off) (rb_pool rb)))
   }"

definition rt_ringbuffer_put :: "u8 list \<Rightarrow> u16 \<Rightarrow> rt_ringbuffer \<Rightarrow> (u32 \<times> rt_ringbuffer) option" where
  "rt_ringbuffer_put ptr len rb = do {
     let sz = (ucast (rt_ringbuffer_space_len rb) :: u16);
     if sz = 0 then Some (0, rb)
     else do {
       let len = (if sz < len then sz else len);
       let wi = uint (rb_write_index rb);
       if rb_isize rb - wi > uint len then do {
         rb \<leftarrow> rb_copy_in wi ptr (uint len) rb;
         Some (ucast len, rb\<lparr>rb_write_index := of_int (wi + uint len)\<rparr>)
       } else do {
         let first = rb_isize rb - wi;
         rb \<leftarrow> rb_copy_in wi ptr first rb;
         rb \<leftarrow> rb_copy_in 0 (drop (nat first) ptr) (uint len - first) rb;
         let rb = rb\<lparr>rb_write_mirror := \<not> rb_write_mirror rb\<rparr>;
         Some (ucast len, rb\<lparr>rb_write_index := of_int (uint len - first)\<rparr>)
       }
     }
   }"

definition rt_ringbuffer_put_force :: "u8 list \<Rightarrow> u16 \<Rightarrow> rt_ringbuffer \<Rightarrow> (u32 \<times> rt_ringbuffer) option" where
  "rt_ringbuffer_put_force ptr len rb = do {
     let space_length = (ucast (rt_ringbuffer_space_len rb) :: u16);
     let (ptr, len) = (if uint len > rb_isize rb then (drop (nat (uint len - rb_isize rb)) ptr, of_int (rb_isize rb)) else (ptr, len));
     let wi = uint (rb_write_index rb);
     if rb_isize rb - wi > uint len then do {
       rb \<leftarrow> rb_copy_in wi ptr (uint len) rb;
       let rb = rb\<lparr>rb_write_index := of_int (wi + uint len)\<rparr>;
       let rb = (if len > space_length then rb\<lparr>rb_read_index := rb_write_index rb\<rparr> else rb);
       Some (ucast len, rb)
     } else do {
       let first = rb_isize rb - wi;
       rb \<leftarrow> rb_copy_in wi ptr first rb;
       rb \<leftarrow> rb_copy_in 0 (drop (nat first) ptr) (uint len - first) rb;
       let rb = rb\<lparr>rb_write_mirror := \<not> rb_write_mirror rb\<rparr>;
       let rb = rb\<lparr>rb_write_index := of_int (uint len - first)\<rparr>;
       let rb = (if len > space_length then
                   let rb = (if rb_write_index rb \<le> rb_read_index rb then rb\<lparr>rb_read_mirror := \<not> rb_read_mirror rb\<rparr> else rb)
                   in rb\<lparr>rb_read_index := rb_write_index rb\<rparr>
                 else rb);
       Some (ucast len, rb)
     }
   }"

text \<open>The result has the bytes that are copied to the buffer of the caller.\<close>

definition rt_ringbuffer_get :: "u16 \<Rightarrow> rt_ringbuffer \<Rightarrow> (u32 \<times> u8 list \<times> rt_ringbuffer) option" where
  "rt_ringbuffer_get len rb = do {
     let sz = rt_ringbuffer_data_len rb;
     if sz = 0 then Some (0, [], rb)
     else do {
       let len = (if sz < ucast len then ucast sz else len);
       let ri = uint (rb_read_index rb);
       if rb_isize rb - ri > uint len then do {
         bytes \<leftarrow> rb_copy_out ri (uint len) rb;
         Some (ucast len, bytes, rb\<lparr>rb_read_index := of_int (ri + uint len)\<rparr>)
       } else do {
         let first = rb_isize rb - ri;
         bytes \<leftarrow> rb_copy_out ri first rb;
         bytes' \<leftarrow> rb_copy_out 0 (uint len - first) rb;
         let rb = rb\<lparr>rb_read_mirror := \<not> rb_read_mirror rb\<rparr>;
         Some (ucast len, bytes @ bytes', rb\<lparr>rb_read_index := of_int (uint len - first)\<rparr>)
       }
     }
   }"

text \<open>The pointer that \<open>rt_ringbuffer_peak\<close> returns is an index into the pool.\<close>

definition rt_ringbuffer_peak :: "rt_ringbuffer \<Rightarrow> u32 \<times> nat option \<times> rt_ringbuffer" where
  "rt_ringbuffer_peak rb =
     (let sz = rt_ringbuffer_data_len rb in
      if sz = 0 then (0, None, rb)
      else
        let ptr = unat (rb_read_index rb) in
        if (of_int (rb_isize rb - uint (rb_read_index rb)) :: u32) > sz then
          (sz, Some ptr, rb\<lparr>rb_read_index := of_int (uint (rb_read_index rb) + uint sz)\<rparr>)
        else
          (of_int (rb_isize rb - uint (rb_read_index rb)), Some ptr,
           rb\<lparr>rb_read_mirror := \<not> rb_read_mirror rb, rb_read_index := 0\<rparr>))"

definition rt_ringbuffer_putchar :: "u8 \<Rightarrow> rt_ringbuffer \<Rightarrow> (u32 \<times> rt_ringbuffer) option" where
  "rt_ringbuffer_putchar ch rb =
     (if rt_ringbuffer_space_len rb = 0 then Some (0, rb)
      else do {
        rb \<leftarrow> rb_copy_in (uint (rb_write_index rb)) [ch] 1 rb;
        Some (1, if uint (rb_write_index rb) = rb_isize rb - 1
          then rb\<lparr>rb_write_mirror := \<not> rb_write_mirror rb, rb_write_index := 0\<rparr>
          else rb\<lparr>rb_write_index := rb_write_index rb + 1\<rparr>)
      })"

definition rt_ringbuffer_putchar_force :: "u8 \<Rightarrow> rt_ringbuffer \<Rightarrow> (u32 \<times> rt_ringbuffer) option" where
  "rt_ringbuffer_putchar_force ch rb = do {
     let old_state = rt_ringbuffer_status rb;
     rb \<leftarrow> rb_copy_in (uint (rb_write_index rb)) [ch] 1 rb;
     if uint (rb_write_index rb) = rb_isize rb - 1 then do {
       let rb = rb\<lparr>rb_write_mirror := \<not> rb_write_mirror rb, rb_write_index := 0\<rparr>;
       Some (1, if old_state = RT_RINGBUFFER_FULL
         then rb\<lparr>rb_read_mirror := \<not> rb_read_mirror rb, rb_read_index := rb_write_index rb\<rparr> else rb)
     } else do {
       let rb = rb\<lparr>rb_write_index := rb_write_index rb + 1\<rparr>;
       Some (1, if old_state = RT_RINGBUFFER_FULL then rb\<lparr>rb_read_index := rb_write_index rb\<rparr> else rb)
     }
   }"

definition rt_ringbuffer_getchar :: "rt_ringbuffer \<Rightarrow> (u32 \<times> u8 list \<times> rt_ringbuffer) option" where
  "rt_ringbuffer_getchar rb =
     (if rt_ringbuffer_data_len rb = 0 then Some (0, [], rb)
      else do {
        ch \<leftarrow> rb_copy_out (uint (rb_read_index rb)) 1 rb;
        Some (1, ch, if uint (rb_read_index rb) = rb_isize rb - 1
          then rb\<lparr>rb_read_mirror := \<not> rb_read_mirror rb, rb_read_index := 0\<rparr>
          else rb\<lparr>rb_read_index := rb_read_index rb + 1\<rparr>)
      })"

definition rt_ringbuffer_reset :: "rt_ringbuffer \<Rightarrow> rt_ringbuffer" where
  "rt_ringbuffer_reset rb = rb\<lparr>rb_read_mirror := False, rb_read_index := 0, rb_write_mirror := False, rb_write_index := 0\<rparr>"

text \<open>
  Creating a ring buffer: \<open>rb_mem\<close> and \<open>pool_mem\<close> are the results of the two calls of \<^verbatim>\<open>rt_malloc\<close>, the second with the
  arbitrary content of the block; \<open>blk\<close> is the set of blocks that are allocated.
\<close>

definition rt_ringbuffer_create ::
  "(nat \<times> rt_ringbuffer) option \<Rightarrow> (nat \<times> u8 list) option \<Rightarrow> u16 \<Rightarrow> nat set \<Rightarrow> ((nat \<times> rt_ringbuffer) option \<times> nat set) option" where
  "rt_ringbuffer_create rb_mem pool_mem sz blk = do {
     RT_ASSERT (sz > 0);
     let sz = RT_ALIGN_DOWN sz 4;
     (case rb_mem of
        None \<Rightarrow> Some (None, blk)
      | Some (a, rb) \<Rightarrow>
          (case pool_mem of
             None \<Rightarrow> Some (None, insert a blk - {a})
           | Some (pool, bytes) \<Rightarrow> do {
               rb \<leftarrow> rt_ringbuffer_init rb pool bytes sz;
               Some (Some (a, rb), insert pool (insert a blk))
             }))
   }"

definition rt_ringbuffer_destroy :: "nat \<Rightarrow> rt_ringbuffer \<Rightarrow> nat set \<Rightarrow> nat set option" where
  "rt_ringbuffer_destroy a rb blk = do {
     RT_ASSERT (rb_buffer_ptr rb \<in> blk);
     let blk = blk - {rb_buffer_ptr rb};
     RT_ASSERT (a \<in> blk);
     Some (blk - {a})
   }"

subsection \<open>Reading and writing a cyclic array\<close>

definition cyc :: "'a list \<Rightarrow> nat \<Rightarrow> nat \<Rightarrow> nat \<Rightarrow> 'a list" where
  "cyc p N r n = map (\<lambda>k. p ! ((r + k) mod N)) [0..<n]"

text \<open>\<open>xs\<close> was written into the first \<open>N\<close> places from place \<open>w\<close> on, wrapping around; \<open>d\<close> is the distance from \<open>w\<close>.\<close>

definition cyc_written :: "'a list \<Rightarrow> nat \<Rightarrow> nat \<Rightarrow> 'a list \<Rightarrow> 'a list \<Rightarrow> bool" where
  "cyc_written p N w xs p' \<longleftrightarrow> length p' = length p \<and>
     (\<forall>i<N. p' ! i = (let d = (i + N - w) mod N in if d < length xs then xs ! d else p ! i))"

lemma length_cyc [simp]: "length (cyc p N r n) = n"
  by (simp add: cyc_def)

lemma nth_cyc: "k < n \<Longrightarrow> cyc p N r n ! k = p ! ((r + k) mod N)"
  by (simp add: cyc_def)

lemma mod_distance:
  fixes a b N :: nat
  assumes "0 < N" "b \<le> a + N"
  shows "(a mod N + N - b mod N) mod N = (a + N - b) mod N"
proof -
  have le: "b mod N \<le> a mod N + N" using mod_less_divisor [OF assms(1), of b] by linarith
  have "int ((a mod N + N - b mod N) mod N) = (int a mod int N + int N - int b mod int N) mod int N"
    using le by (simp add: of_nat_diff zmod_int)
  also have "\<dots> = (int a mod int N - int b mod int N + int N) mod int N" by (simp add: algebra_simps)
  also have "\<dots> = (int a - int b) mod int N" by (simp only: mod_add_self2 mod_diff_eq)
  also have "\<dots> = (int a - int b + int N) mod int N" by simp
  also have "\<dots> = (int a + int N - int b) mod int N" by (simp add: algebra_simps)
  also have "\<dots> = int ((a + N - b) mod N)" using assms(2) by (simp add: of_nat_diff zmod_int)
  finally show ?thesis by simp
qed

lemma mod_wrap:
  fixes i w N :: nat
  assumes "w \<le> i" "i < N"
  shows "(i + N - w) mod N = i - w"
proof -
  have "i + N - w = (i - w) + N" using assms(1) by linarith
  then have "(i + N - w) mod N = ((i - w) + N) mod N" by (rule arg_cong)
  also have "\<dots> = (i - w) mod N" by (rule mod_add_self2)
  also have "\<dots> = i - w" by (rule mod_less) (use assms in linarith)
  finally show ?thesis .
qed

lemma cyc_shift: "cyc p N (r mod N) n = cyc p N r n"
  by (simp add: cyc_def mod_simps)

lemma drop_cyc: "drop k (cyc p N r n) = cyc p N (r + k) (n - k)"
  by (rule nth_equalityI) (simp_all add: cyc_def add.assoc less_diff_conv)

lemma take_cyc: "k \<le> n \<Longrightarrow> take k (cyc p N r n) = cyc p N r k"
  by (rule nth_equalityI) (simp_all add: cyc_def)

text \<open>
  Writing \<open>m\<close> elements behind the \<open>n\<close> elements of a queue: what does not fit any more pushes out the oldest ones.
\<close>

lemma cyc_written_append:
  assumes wr: "cyc_written p N ((r + n) mod N) xs p'" and N: "0 < N" and le: "length xs \<le> N" "n \<le> N"
  defines "ov \<equiv> n + length xs - N"
  shows "cyc p' N (r + ov) (n + length xs - ov) = drop ov (cyc p N r n @ xs)"
proof (rule nth_equalityI)
  show "length (cyc p' N (r + ov) (n + length xs - ov)) = length (drop ov (cyc p N r n @ xs))" by simp
  fix j assume "j < length (cyc p' N (r + ov) (n + length xs - ov))"
  then have j: "ov + j < n + length xs" by simp
  let ?k = "ov + j"
  let ?d = "((r + ?k) mod N + N - (r + n) mod N) mod N"
  have d: "?d = (?k + N - n) mod N"
    using mod_distance [OF N, of "r + n" "r + ?k"] le(2) by (simp add: add.assoc)
  have "(r + ?k) mod N < N" using N by simp
  then have at: "p' ! ((r + ?k) mod N) = (if ?d < length xs then xs ! ?d else p ! ((r + ?k) mod N))"
    using wr unfolding cyc_written_def by (simp add: Let_def)
  have "p' ! ((r + ?k) mod N) = (cyc p N r n @ xs) ! ?k"
  proof (cases "?k < n")
    case True
    have "\<not> ?d < length xs"
    proof
      assume lt: "?d < length xs"
      then have "0 < length xs" by (rule le_less_trans [OF le0])
      then have "?k + N - n < N" using True by (simp add: ov_def)
      then have "?d = ?k + N - n" using d by simp
      then show False using lt True le by (simp add: ov_def)
    qed
    then show ?thesis using at True by (simp add: nth_append cyc_def)
  next
    case False
    then have "?k + N - n = (?k - n) + N" by simp
    then have "?d = ((?k - n) + N) mod N" using d by (simp only:)
    moreover have "?k - n < N" using j False le(1) by linarith
    ultimately have "?d = ?k - n" by simp
    moreover have "?k - n < length xs" using j False by simp
    ultimately show ?thesis using at False by (simp add: nth_append)
  qed
  then show "cyc p' N (r + ov) (n + length xs - ov) ! j = drop ov (cyc p N r n @ xs) ! j"
    using j by (simp add: nth_cyc add.assoc less_diff_conv add.commute [of j] del: drop_append)
qed

text \<open>Overwriting a part of a list.\<close>

definition splice :: "nat \<Rightarrow> 'a list \<Rightarrow> 'a list \<Rightarrow> 'a list" where
  "splice off xs p = take off p @ xs @ drop (off + length xs) p"

lemma length_splice [simp]: "off + length xs \<le> length p \<Longrightarrow> length (splice off xs p) = length p"
  by (simp add: splice_def)

lemma nth_splice:
  assumes "off + length xs \<le> length p" "i < length p"
  shows "splice off xs p ! i = (if off \<le> i \<and> i < off + length xs then xs ! (i - off) else p ! i)"
proof -
  consider "i < off" | "off \<le> i" "i < off + length xs" | "off + length xs \<le> i" by linarith
  then show ?thesis
  proof cases
    case 3
    then have "\<not> i - off < length xs" by linarith
    then have "splice off xs p ! i = drop (off + length xs) p ! (i - off - length xs)"
      using 3 assms by (simp add: splice_def nth_append)
    moreover have "off + length xs + (i - off - length xs) = i" using 3 by simp
    ultimately show ?thesis using 3 assms by simp
  next
    case 2
    then have "i - off < length xs" by linarith
    then show ?thesis using 2 assms by (simp add: splice_def nth_append)
  qed (use assms in \<open>simp add: splice_def nth_append\<close>)
qed

lemma cyc_written_flat:
  assumes "w + length xs \<le> N" "N \<le> length p"
  shows "cyc_written p N w xs (splice w xs p)"
proof -
  have "splice w xs p ! i = (let d = (i + N - w) mod N in if d < length xs then xs ! d else p ! i)" if i: "i < N" for i
  proof (cases "i < w")
    case True
    then have "(i + N - w) mod N = i + N - w" using i by simp
    moreover have "\<not> i + N - w < length xs" using True assms by linarith
    ultimately show ?thesis using True nth_splice [OF _ less_le_trans [OF i assms(2)], of w xs] assms by (simp add: Let_def)
  next
    case False
    then have d: "(i + N - w) mod N = i - w" using mod_wrap [of w i N] i by simp
    have "i < length p" "w + length xs \<le> length p" "w \<le> i \<and> i < w + length xs \<longleftrightarrow> i - w < length xs"
      using False assms i by auto
    then show ?thesis unfolding d Let_def nth_splice [OF \<open>w + length xs \<le> length p\<close> \<open>i < length p\<close>] by (simp only:)
  qed
  then show ?thesis using assms by (simp add: cyc_written_def)
qed

lemma cyc_written_wrap:
  assumes "w < N" "N \<le> w + length xs" "length xs \<le> N" "N \<le> length p"
  shows "cyc_written p N w xs (splice 0 (drop (N - w) xs) (splice w (take (N - w) xs) p))"
proof -
  let ?q = "splice w (take (N - w) xs) p"
  have tk: "length (take (N - w) xs) = N - w" using assms by simp
  have lq: "length ?q = length p" using assms tk by simp
  have "splice 0 (drop (N - w) xs) ?q ! i = (let d = (i + N - w) mod N in if d < length xs then xs ! d else p ! i)"
    if i: "i < N" for i
  proof (cases "i < w")
    case True
    then have d: "(i + N - w) mod N = N - w + i" using assms i by simp
    show ?thesis
    proof (cases "i < length xs - (N - w)")
      case True
      then have "N - w + i < length xs" by linarith
      then show ?thesis unfolding d Let_def using True nth_splice [of 0 "drop (N - w) xs" ?q i] assms i lq by simp
    next
      case False
      then have "\<not> N - w + i < length xs" by linarith
      then show ?thesis unfolding d Let_def
        using False \<open>i < w\<close> nth_splice [of w "take (N - w) xs" p i] nth_splice [of 0 "drop (N - w) xs" ?q i] assms i lq tk by simp
    qed
  next
    case False
    then have d: "(i + N - w) mod N = i - w" using mod_wrap [of w i N] i by simp
    have lt: "i - w < N - w" "i - w < length xs" "\<not> i < length xs - (N - w)" using i False assms by linarith+
    have "splice 0 (drop (N - w) xs) ?q ! i = ?q ! i" using lt(3) nth_splice [of 0 "drop (N - w) xs" ?q i] assms i lq by simp
    also have "\<dots> = xs ! (i - w)"
      using nth_splice [of w "take (N - w) xs" p i] False lt(1) assms(1,4) i unfolding tk by simp
    finally show ?thesis unfolding d Let_def using lt(2) by (simp only: if_True)
  qed
  moreover have "length (splice 0 (drop (N - w) xs) ?q) = length p" using lq assms by simp
  ultimately show ?thesis by (simp add: cyc_written_def)
qed

subsection \<open>The invariant and the content\<close>

definition rb_N :: "rt_ringbuffer \<Rightarrow> nat" where
  "rb_N rb = nat (rb_isize rb)"

definition rb_used :: "rt_ringbuffer \<Rightarrow> nat" where
  "rb_used rb =
     (if rb_read_mirror rb = rb_write_mirror rb then unat (rb_write_index rb) - unat (rb_read_index rb)
      else unat (rb_write_index rb) + rb_N rb - unat (rb_read_index rb))"

definition rb_ok :: "rt_ringbuffer \<Rightarrow> bool" where
  "rb_ok rb \<longleftrightarrow> 0 < rb_isize rb \<and> rb_N rb \<le> length (rb_pool rb) \<and> unat (rb_read_index rb) < rb_N rb \<and>
     unat (rb_write_index rb) < rb_N rb \<and>
     (if rb_read_mirror rb = rb_write_mirror rb then unat (rb_read_index rb) \<le> unat (rb_write_index rb)
      else unat (rb_write_index rb) \<le> unat (rb_read_index rb))"

definition rb_contents :: "rt_ringbuffer \<Rightarrow> u8 list" where
  "rb_contents rb = cyc (rb_pool rb) (rb_N rb) (unat (rb_read_index rb)) (rb_used rb)"

lemma length_rb_contents [simp]: "length (rb_contents rb) = rb_used rb"
  by (simp add: rb_contents_def)

lemma rb_okD:
  assumes "rb_ok rb"
  shows "rb_isize rb = int (rb_N rb)" "0 < rb_N rb" "rb_N rb < 32768" "rb_N rb \<le> length (rb_pool rb)"
    "unat (rb_read_index rb) < rb_N rb" "unat (rb_write_index rb) < rb_N rb" "rb_used rb \<le> rb_N rb"
    "uint (rb_read_index rb) = int (unat (rb_read_index rb))" "uint (rb_write_index rb) = int (unat (rb_write_index rb))"
    "(unat (rb_read_index rb) + rb_used rb) mod rb_N rb = unat (rb_write_index rb)"
proof -
  have sz: "rb_isize rb < 2 ^ 15" using sint_lt [of "rb_buffer_size rb"] by (simp add: rb_isize_def)
  show "rb_isize rb = int (rb_N rb)" "0 < rb_N rb" using assms by (simp_all add: rb_ok_def rb_N_def)
  show "rb_N rb < 32768" using sz by (simp add: rb_N_def)
  show ix: "unat (rb_read_index rb) < rb_N rb" "unat (rb_write_index rb) < rb_N rb" "rb_N rb \<le> length (rb_pool rb)"
    using assms by (simp_all add: rb_ok_def)
  show "rb_used rb \<le> rb_N rb" using assms ix by (auto simp: rb_ok_def rb_used_def)
  show "(unat (rb_read_index rb) + rb_used rb) mod rb_N rb = unat (rb_write_index rb)"
    using assms ix by (auto simp: rb_ok_def rb_used_def)
qed simp_all

lemma data_len_eq:
  assumes "rb_ok rb"
  shows "unat (rt_ringbuffer_data_len rb) = rb_used rb"
proof -
  note d = rb_okD [OF assms]
  have N: "(of_int (rb_isize rb) :: u32) = of_nat (rb_N rb)" using d(1) by simp
  have lt: "unat (rb_read_index rb) < 32768" "unat (rb_write_index rb) < 32768" using d by linarith+
  have r: "unat (ucast (rb_read_index rb) :: u32) = unat (rb_read_index rb)" "unat (ucast (rb_write_index rb) :: u32) = unat (rb_write_index rb)"
    using lt by (simp_all add: unsigned_ucast_eq take_bit_nat_eq_self_iff)
  show ?thesis
    using assms lt d(1-3) unfolding rt_ringbuffer_data_len_def rt_ringbuffer_status_def rb_used_def rb_ok_def N Let_def
    by (auto simp: word_less_nat_alt unat_sub_if' r unat_of_nat word_unat_eq_iff [of "rb_read_index rb" "rb_write_index rb"] split: if_splits)
qed

lemma space_len_eq:
  assumes "rb_ok rb"
  shows "unat (rt_ringbuffer_space_len rb) = rb_N rb - rb_used rb"
    "unat (ucast (rt_ringbuffer_space_len rb) :: u16) = rb_N rb - rb_used rb"
proof -
  note d = rb_okD [OF assms]
  have N: "(of_int (rb_isize rb) :: u32) = of_nat (rb_N rb)" using d(1) by simp
  have "unat (of_nat (rb_N rb) :: u32) = rb_N rb" using d(3) by (simp add: unat_of_nat)
  then show eq: "unat (rt_ringbuffer_space_len rb) = rb_N rb - rb_used rb"
    using d(7) data_len_eq [OF assms] unfolding rt_ringbuffer_space_len_def N by (simp add: unat_sub_if')
  show "unat (ucast (rt_ringbuffer_space_len rb) :: u16) = rb_N rb - rb_used rb"
    using d(3) eq by (simp add: unsigned_ucast_eq take_bit_nat_eq_self_iff)
qed

lemma unat_index:
  assumes "k < 32768"
  shows "unat (of_int (int k) :: 15 word) = k"
  using assms by (simp add: unat_of_nat)

subsection \<open>Writing\<close>

text \<open>The write index was advanced behind the bytes \<open>xs\<close>.\<close>

definition rb_advanced :: "u8 list \<Rightarrow> rt_ringbuffer \<Rightarrow> rt_ringbuffer \<Rightarrow> bool" where
  "rb_advanced xs rb rb' \<longleftrightarrow>
     cyc_written (rb_pool rb) (rb_N rb) (unat (rb_write_index rb)) xs (rb_pool rb') \<and>
     rb_buffer_size rb' = rb_buffer_size rb \<and> rb_buffer_ptr rb' = rb_buffer_ptr rb \<and>
     rb_read_index rb' = rb_read_index rb \<and> rb_read_mirror rb' = rb_read_mirror rb \<and>
     (if unat (rb_write_index rb) + length xs < rb_N rb
      then unat (rb_write_index rb') = unat (rb_write_index rb) + length xs \<and> rb_write_mirror rb' = rb_write_mirror rb
      else unat (rb_write_index rb') = unat (rb_write_index rb) + length xs - rb_N rb \<and> rb_write_mirror rb' \<noteq> rb_write_mirror rb)"

lemma rb_N_eq: "rb_buffer_size rb' = rb_buffer_size rb \<Longrightarrow> rb_N rb' = rb_N rb" "rb_buffer_size rb' = rb_buffer_size rb \<Longrightarrow> rb_isize rb' = rb_isize rb"
  by (simp_all add: rb_N_def rb_isize_def)

lemma rb_copy_in_eq:
  assumes "n \<le> length ptr" "off + n \<le> length (rb_pool rb)"
  shows "rb_copy_in (int off) ptr (int n) rb = Some (rb\<lparr>rb_pool := splice off (take n ptr) (rb_pool rb)\<rparr>)"
  using assms by (simp add: rb_copy_in_def splice_def min_absorb2)

lemma rb_write_flat:
  assumes ok: "rb_ok rb" and n: "unat (rb_write_index rb) + n < rb_N rb" "n \<le> length ptr"
  obtains rb1 where "rb_copy_in (uint (rb_write_index rb)) ptr (int n) rb = Some rb1"
    "rb1 = rb\<lparr>rb_pool := rb_pool rb1\<rparr>"
    "rb_advanced (take n ptr) rb (rb1\<lparr>rb_write_index := of_int (uint (rb_write_index rb) + int n)\<rparr>)"
proof -
  note d = rb_okD [OF ok]
  let ?rb1 = "rb\<lparr>rb_pool := splice (unat (rb_write_index rb)) (take n ptr) (rb_pool rb)\<rparr>"
  have "rb_copy_in (uint (rb_write_index rb)) ptr (int n) rb = Some ?rb1"
    unfolding d(9) by (rule rb_copy_in_eq) (use n d(4) in linarith)+
  moreover have "unat (of_int (uint (rb_write_index rb) + int n) :: 15 word) = unat (rb_write_index rb) + n"
  proof -
    have "uint (rb_write_index rb) + int n = int (unat (rb_write_index rb) + n)" by simp
    then show ?thesis using unat_index [of "unat (rb_write_index rb) + n"] n(1) d(3) by (simp only:)
  qed
  moreover have "cyc_written (rb_pool rb) (rb_N rb) (unat (rb_write_index rb)) (take n ptr) (rb_pool ?rb1)"
    using cyc_written_flat [of "unat (rb_write_index rb)" "take n ptr" "rb_N rb" "rb_pool rb"] n d(4) by simp
  ultimately show thesis using that [of ?rb1] n by (simp add: rb_advanced_def)
qed

lemma rb_write_wrap:
  assumes ok: "rb_ok rb" and n: "rb_N rb \<le> unat (rb_write_index rb) + n" "n \<le> rb_N rb" "n \<le> length ptr"
  defines "first \<equiv> rb_isize rb - uint (rb_write_index rb)"
  obtains rb1 rb2 where "rb_copy_in (uint (rb_write_index rb)) ptr first rb = Some rb1"
    "rb_copy_in 0 (drop (nat first) ptr) (int n - first) rb1 = Some rb2" "rb2 = rb\<lparr>rb_pool := rb_pool rb2\<rparr>"
    "rb_advanced (take n ptr) rb (rb2\<lparr>rb_write_mirror := \<not> rb_write_mirror rb, rb_write_index := of_int (int n - first)\<rparr>)"
proof -
  note d = rb_okD [OF ok]
  let ?w = "unat (rb_write_index rb)" and ?f = "rb_N rb - unat (rb_write_index rb)"
  have first: "first = int ?f" unfolding first_def d(1) d(9) using d(6) by (simp only: of_nat_diff less_imp_le)
  then have nf: "nat first = ?f" by (simp only: nat_int)
  have f: "?f \<le> n" "?w + ?f = rb_N rb" "n - ?f \<le> ?w" using n d(6) by linarith+
  have rest: "int n - first = int (n - ?f)" using f(1) unfolding first by (simp only: of_nat_diff)
  let ?rb1 = "rb\<lparr>rb_pool := splice ?w (take ?f ptr) (rb_pool rb)\<rparr>"
  let ?rb2 = "rb\<lparr>rb_pool := splice 0 (take (n - ?f) (drop ?f ptr)) (rb_pool ?rb1)\<rparr>"
  have 1: "rb_copy_in (uint (rb_write_index rb)) ptr first rb = Some ?rb1"
    unfolding d(9) first by (rule rb_copy_in_eq) (use n f d(4) in linarith)+
  have len1: "length (rb_pool ?rb1) = length (rb_pool rb)" using n f d(4) by simp
  have 2: "rb_copy_in 0 (drop (nat first) ptr) (int n - first) ?rb1 = Some ?rb2"
    using rb_copy_in_eq [of "n - ?f" "drop ?f ptr" 0 ?rb1] len1 n f d(4,6) unfolding rest nf by simp
  have tk: "take (n - ?f) (drop ?f ptr) = drop ?f (take n ptr)" "take ?f ptr = take ?f (take n ptr)"
    using f by (simp_all add: drop_take)
  have 3: "cyc_written (rb_pool rb) (rb_N rb) ?w (take n ptr) (rb_pool ?rb2)"
    using cyc_written_wrap [of ?w "rb_N rb" "take n ptr" "rb_pool rb"] n d(4,6) unfolding tk by simp
  have 4: "unat (of_int (int n - first) :: 15 word) = ?w + n - rb_N rb"
    using f n d(3,6) unat_index [of "n - ?f"] unfolding rest by simp
  show thesis by (rule that [OF 1 2]) (use 3 4 n in \<open>simp_all add: rb_advanced_def\<close>)
qed

text \<open>When everything fits, the bytes are appended.\<close>

lemma advanced_append:
  assumes ok: "rb_ok rb" and adv: "rb_advanced xs rb rb'" and fits: "rb_used rb + length xs \<le> rb_N rb"
  shows "rb_ok rb'" "rb_contents rb' = rb_contents rb @ xs" "rb_N rb' = rb_N rb"
proof -
  note d = rb_okD [OF ok]
  have wr: "cyc_written (rb_pool rb) (rb_N rb) ((unat (rb_read_index rb) + rb_used rb) mod rb_N rb) xs (rb_pool rb')"
    and sz: "rb_buffer_size rb' = rb_buffer_size rb" and ri: "rb_read_index rb' = rb_read_index rb" "rb_read_mirror rb' = rb_read_mirror rb"
    using adv d(10) by (simp_all add: rb_advanced_def)
  note N = rb_N_eq [OF sz]
  have len: "length (rb_pool rb') = length (rb_pool rb)" using wr by (simp add: cyc_written_def)
  have used: "rb_used rb' = rb_used rb + length xs"
    using adv fits d(2,5,6) ok unfolding rb_advanced_def rb_used_def N rb_ok_def by (auto split: if_splits)
  show "rb_ok rb'"
    using adv fits d(2-6) ok len unfolding rb_advanced_def rb_used_def N rb_ok_def by (auto split: if_splits)
  have "cyc (rb_pool rb') (rb_N rb) (unat (rb_read_index rb)) (rb_used rb + length xs) = rb_contents rb @ xs"
    using cyc_written_append [OF wr d(2) _ d(7)] fits unfolding rb_contents_def by simp
  then show "rb_contents rb' = rb_contents rb @ xs" by (simp add: rb_contents_def used N ri)
  show "rb_N rb' = rb_N rb" by (rule N(1))
qed

text \<open>When it does not fit, moving the read index to the write index leaves the newest bytes.\<close>

lemma advanced_overflow:
  assumes ok: "rb_ok rb" and adv: "rb_advanced xs rb rb'" and ov: "rb_N rb < rb_used rb + length xs" and le: "length xs \<le> rb_N rb"
    and rb2: "rb2 = rb'\<lparr>rb_read_index := rb_write_index rb', rb_read_mirror := \<not> rb_write_mirror rb'\<rparr>"
  shows "rb_ok rb2" "rb_contents rb2 = drop (rb_used rb + length xs - rb_N rb) (rb_contents rb @ xs)" "rb_N rb2 = rb_N rb"
proof -
  note d = rb_okD [OF ok]
  let ?o = "rb_used rb + length xs - rb_N rb"
  have wr: "cyc_written (rb_pool rb) (rb_N rb) ((unat (rb_read_index rb) + rb_used rb) mod rb_N rb) xs (rb_pool rb')"
    and sz: "rb_buffer_size rb2 = rb_buffer_size rb"
    using adv d(10) by (simp_all add: rb_advanced_def rb2)
  note N = rb_N_eq [OF sz]
  have len: "length (rb_pool rb2) = length (rb_pool rb)" using wr by (simp add: cyc_written_def rb2)
  have W: "unat (rb_write_index rb') = (unat (rb_write_index rb) + length xs) mod rb_N rb" "unat (rb_write_index rb') < rb_N rb"
    using adv d(6) le by (auto simp: rb_advanced_def mod_if split: if_splits)
  then show "rb_ok rb2" using d(1-4) len by (simp add: rb_ok_def N) (simp add: rb2)
  have used: "rb_used rb2 = rb_N rb" by (simp add: rb_used_def N) (simp add: rb2)
  have "unat (rb_write_index rb') = (unat (rb_read_index rb) + rb_used rb + length xs) mod rb_N rb"
    using W(1) d(10) by (metis mod_add_left_eq)
  also have "\<dots> = (unat (rb_read_index rb) + ?o + rb_N rb) mod rb_N rb" using ov by (simp add: add.assoc)
  also have "\<dots> = (unat (rb_read_index rb) + ?o) mod rb_N rb" by simp
  finally have r: "unat (rb_read_index rb2) = (unat (rb_read_index rb) + ?o) mod rb_N rb" by (simp add: rb2)
  have "rb_contents rb2 = cyc (rb_pool rb') (rb_N rb) (unat (rb_read_index rb) + ?o) (rb_N rb)"
    unfolding rb_contents_def used N r cyc_shift by (simp add: rb2)
  also have "\<dots> = drop ?o (rb_contents rb @ xs)"
    using cyc_written_append [OF wr d(2) le d(7)] ov unfolding rb_contents_def by simp
  finally show "rb_contents rb2 = drop ?o (rb_contents rb @ xs)" .
  show "rb_N rb2 = rb_N rb" by (rule N(1))
qed

text \<open>The test for the branch without wrap-around.\<close>

lemma flat_iff:
  assumes "rb_ok rb"
  shows "rb_isize rb - uint (rb_write_index rb) > uint (len :: u16) \<longleftrightarrow> unat (rb_write_index rb) + unat len < rb_N rb"
    "rb_isize rb - uint (rb_read_index rb) > uint len \<longleftrightarrow> unat (rb_read_index rb) + unat len < rb_N rb"
  unfolding rb_okD(1) [OF assms] uint_nat by linarith+

lemma rt_ringbuffer_put_ok:
  assumes ok: "rb_ok rb" and len: "unat len \<le> length ptr"
  defines "n \<equiv> min (rb_N rb - rb_used rb) (unat len)"
  shows "\<exists>rb'. rt_ringbuffer_put ptr len rb = Some (of_nat n, rb') \<and> rb_ok rb' \<and> rb_N rb' = rb_N rb \<and>
    rb_contents rb' = rb_contents rb @ take n ptr"
proof (cases "rb_N rb = rb_used rb")
  case True
  then have "(ucast (rt_ringbuffer_space_len rb) :: u16) = 0" using space_len_eq(2) [OF ok] by (simp add: unat_eq_zero)
  then show ?thesis using True ok by (simp add: rt_ringbuffer_put_def n_def)
next
  case False
  note d = rb_okD [OF ok]
  let ?sz = "ucast (rt_ringbuffer_space_len rb) :: u16"
  let ?len = "if ?sz < len then ?sz else len"
  have usz: "unat ?sz = rb_N rb - rb_used rb" by (rule space_len_eq(2) [OF ok])
  have sz: "?sz \<noteq> 0" using usz False d(7) by (auto simp: unat_eq_zero)
  have un: "unat ?len = n" using usz unfolding n_def by (auto simp: word_less_nat_alt)
  have ulen: "unat ?len = n" "uint ?len = int n" unfolding uint_nat un by (rule refl)+
  have ulen': "(ucast ?len :: u32) = of_nat n" unfolding un [symmetric] by (rule of_nat_unat [symmetric])
  have n: "n \<le> length ptr" "rb_used rb + n \<le> rb_N rb" "n \<le> rb_N rb" using len d(7) by (auto simp: n_def)
  show ?thesis
  proof (cases "unat (rb_write_index rb) + n < rb_N rb")
    case True
    obtain rb1 where rb1: "rb_copy_in (uint (rb_write_index rb)) ptr (int n) rb = Some rb1"
      "rb_advanced (take n ptr) rb (rb1\<lparr>rb_write_index := of_int (uint (rb_write_index rb) + int n)\<rparr>)"
      by (rule rb_write_flat [OF ok True n(1)], rule that)
    have "rt_ringbuffer_put ptr len rb = Some (of_nat n, rb1\<lparr>rb_write_index := of_int (uint (rb_write_index rb) + int n)\<rparr>)"
      using flat_iff(1) [OF ok, of ?len] True sz rb1(1) unfolding rt_ringbuffer_put_def ulen ulen' Let_def by simp
    then show ?thesis using advanced_append [OF ok rb1(2)] n by simp
  next
    case False
    then have wrap: "rb_N rb \<le> unat (rb_write_index rb) + n" by simp
    let ?first = "rb_isize rb - uint (rb_write_index rb)"
    obtain rb1 rb2 where rb2: "rb_copy_in (uint (rb_write_index rb)) ptr ?first rb = Some rb1"
      "rb_copy_in 0 (drop (nat ?first) ptr) (int n - ?first) rb1 = Some rb2" "rb2 = rb\<lparr>rb_pool := rb_pool rb2\<rparr>"
      "rb_advanced (take n ptr) rb (rb2\<lparr>rb_write_mirror := \<not> rb_write_mirror rb, rb_write_index := of_int (int n - ?first)\<rparr>)"
      by (rule rb_write_wrap [OF ok wrap n(3,1)], rule that)
    have m: "rb_write_mirror rb2 = rb_write_mirror rb" by (subst rb2(3)) simp
    have "rt_ringbuffer_put ptr len rb =
        Some (of_nat n, rb2\<lparr>rb_write_mirror := \<not> rb_write_mirror rb, rb_write_index := of_int (int n - ?first)\<rparr>)"
      using flat_iff(1) [OF ok, of ?len] False sz rb2(1,2) m unfolding rt_ringbuffer_put_def ulen ulen' Let_def by simp
    then show ?thesis using advanced_append [OF ok rb2(4)] n by simp
  qed
qed

text \<open>The part of a message that \<open>rt_ringbuffer_put_force\<close> writes: at most its last \<open>N\<close> bytes.\<close>

lemma force_args:
  assumes ok: "rb_ok rb" and len: "unat len \<le> length ptr"
  defines "n \<equiv> min (unat len) (rb_N rb)" and "data \<equiv> drop (unat len - rb_N rb) (take (unat len) ptr)"
  obtains ptr' len' where
    "(if uint len > rb_isize rb then (drop (nat (uint len - rb_isize rb)) ptr, of_int (rb_isize rb)) else (ptr, len :: u16)) = (ptr', len')"
    "unat len' = n" "n \<le> length ptr'" "take n ptr' = data" "length data = n"
proof -
  note d = rb_okD [OF ok]
  have cmp: "uint len > rb_isize rb \<longleftrightarrow> rb_N rb < unat len" unfolding d(1) uint_nat by linarith
  show thesis
  proof (cases "rb_N rb < unat len")
    case True
    have 1: "nat (uint len - rb_isize rb) = unat len - rb_N rb" unfolding d(1) uint_nat by linarith
    have 2: "unat (of_int (rb_isize rb) :: u16) = rb_N rb" using d(3) unfolding d(1) by (simp add: unat_of_nat)
    have n: "n = rb_N rb" using True by (simp add: n_def)
    have "unat len - (unat len - rb_N rb) = rb_N rb" using True by simp
    then have tk: "take (rb_N rb) (drop (unat len - rb_N rb) ptr) = data" unfolding data_def drop_take by (simp only:)
    show thesis
    proof (rule that)
      show "(if uint len > rb_isize rb then (drop (nat (uint len - rb_isize rb)) ptr, of_int (rb_isize rb)) else (ptr, len)) =
          (drop (unat len - rb_N rb) ptr, of_int (rb_isize rb))"
        unfolding cmp 1 by (simp only: True if_True)
      show "unat (of_int (rb_isize rb) :: u16) = n" unfolding n by (rule 2)
      show "n \<le> length (drop (unat len - rb_N rb) ptr)" using len True unfolding n length_drop by linarith
      show "take n (drop (unat len - rb_N rb) ptr) = data" unfolding n by (rule tk)
      show "length data = n" using len True unfolding n data_def length_drop length_take by linarith
    qed
  next
    case False
    then have n: "n = unat len" "data = take (unat len) ptr" by (simp_all add: n_def data_def)
    show thesis by (rule that [of ptr len]) (use False len in \<open>simp_all add: cmp n\<close>)
  qed
qed

lemma rt_ringbuffer_put_force_ok:
  assumes ok: "rb_ok rb" and len: "unat len \<le> length ptr"
  defines "n \<equiv> min (unat len) (rb_N rb)" and "data \<equiv> drop (unat len - rb_N rb) (take (unat len) ptr)"
  shows "\<exists>rb'. rt_ringbuffer_put_force ptr len rb = Some (of_nat n, rb') \<and> rb_ok rb' \<and> rb_N rb' = rb_N rb \<and>
    rb_contents rb' = drop (rb_used rb + n - rb_N rb) (rb_contents rb @ data)"
proof -
  note d = rb_okD [OF ok]
  obtain ptr' len' where a:
    "(if uint len > rb_isize rb then (drop (nat (uint len - rb_isize rb)) ptr, of_int (rb_isize rb)) else (ptr, len)) = (ptr', len')"
    "unat len' = n" "n \<le> length ptr'" "take n ptr' = data" "length data = n"
    by (rule force_args [OF ok len]) (auto simp: n_def data_def)
  have ulen: "uint len' = int n" unfolding uint_nat a(2) by (rule refl)
  have ulen': "(ucast len' :: u32) = of_nat n" unfolding a(2) [symmetric] by (rule of_nat_unat [symmetric])
  have nN: "n \<le> rb_N rb" by (simp add: n_def)
  let ?sl = "ucast (rt_ringbuffer_space_len rb) :: u16"
  have over: "len' > ?sl \<longleftrightarrow> rb_N rb < rb_used rb + n"
    using space_len_eq(2) [OF ok] d(7) a(2) by (auto simp: word_less_nat_alt)
  show ?thesis
  proof (cases "unat (rb_write_index rb) + n < rb_N rb")
    case True
    obtain rb1 where rb1: "rb_copy_in (uint (rb_write_index rb)) ptr' (int n) rb = Some rb1"
      "rb_advanced (take n ptr') rb (rb1\<lparr>rb_write_index := of_int (uint (rb_write_index rb) + int n)\<rparr>)"
      by (rule rb_write_flat [OF ok True a(3)], rule that)
    let ?rb' = "rb1\<lparr>rb_write_index := of_int (uint (rb_write_index rb) + int n)\<rparr>"
    note adv = rb1(2) [unfolded a(4)]
    have eq: "rt_ringbuffer_put_force ptr len rb =
        Some (of_nat n, if len' > ?sl then ?rb'\<lparr>rb_read_index := rb_write_index ?rb'\<rparr> else ?rb')"
      using flat_iff(1) [OF ok, of len'] True rb1(1) a(2)
      unfolding rt_ringbuffer_put_force_def Let_def a(1) prod.case ulen ulen' by simp
    show ?thesis
    proof (cases "rb_N rb < rb_used rb + n")
      case False
      then show ?thesis using eq over advanced_append [OF ok adv] a(5) by simp
    next
      case ov: True
      have "rb_read_mirror rb \<noteq> rb_write_mirror rb"
      proof
        assume "rb_read_mirror rb = rb_write_mirror rb"
        then have "rb_used rb \<le> unat (rb_write_index rb)" by (simp add: rb_used_def)
        then show False using ov True by linarith
      qed
      then have "rb_read_mirror ?rb' = (\<not> rb_write_mirror ?rb')" using adv True a(5) by (simp add: rb_advanced_def)
      then have "?rb'\<lparr>rb_read_index := rb_write_index ?rb'\<rparr> =
          ?rb'\<lparr>rb_read_index := rb_write_index ?rb', rb_read_mirror := \<not> rb_write_mirror ?rb'\<rparr>" by (cases rb1) simp
      then show ?thesis using eq ov over advanced_overflow [OF ok adv _ _ refl] a(5) nN by simp
    qed
  next
    case False
    then have wrap: "rb_N rb \<le> unat (rb_write_index rb) + n" by simp
    let ?first = "rb_isize rb - uint (rb_write_index rb)"
    obtain rb1 rb2 where rb2: "rb_copy_in (uint (rb_write_index rb)) ptr' ?first rb = Some rb1"
      "rb_copy_in 0 (drop (nat ?first) ptr') (int n - ?first) rb1 = Some rb2" "rb2 = rb\<lparr>rb_pool := rb_pool rb2\<rparr>"
      "rb_advanced (take n ptr') rb (rb2\<lparr>rb_write_mirror := \<not> rb_write_mirror rb, rb_write_index := of_int (int n - ?first)\<rparr>)"
      by (rule rb_write_wrap [OF ok wrap nN a(3)], rule that)
    let ?rb' = "rb2\<lparr>rb_write_mirror := \<not> rb_write_mirror rb, rb_write_index := of_int (int n - ?first)\<rparr>"
    note adv = rb2(4) [unfolded a(4)]
    have m: "rb_write_mirror rb2 = rb_write_mirror rb" "rb_read_index rb2 = rb_read_index rb" "rb_read_mirror rb2 = rb_read_mirror rb"
      by (subst rb2(3), simp)+
    have eq: "rt_ringbuffer_put_force ptr len rb =
        Some (of_nat n, if len' > ?sl then
          (if rb_write_index ?rb' \<le> rb_read_index rb then ?rb'\<lparr>rb_read_mirror := \<not> rb_read_mirror rb, rb_read_index := rb_write_index ?rb'\<rparr>
           else ?rb'\<lparr>rb_read_index := rb_write_index ?rb'\<rparr>) else ?rb')"
      using flat_iff(1) [OF ok, of len'] False rb2(1,2) m a(2)
      unfolding rt_ringbuffer_put_force_def Let_def a(1) prod.case ulen ulen' by simp
    show ?thesis
    proof (cases "rb_N rb < rb_used rb + n")
      case False
      then show ?thesis using eq over advanced_append [OF ok adv] a(5) by simp
    next
      case ov: True
      have W: "unat (rb_write_index ?rb') = unat (rb_write_index rb) + n - rb_N rb" using adv False a(5) by (simp add: rb_advanced_def)
      have flip: "rb_write_index ?rb' \<le> rb_read_index rb \<longleftrightarrow> rb_read_mirror rb \<noteq> rb_write_mirror rb"
      proof (cases "rb_read_mirror rb = rb_write_mirror rb")
        case True
        then have "rb_used rb = unat (rb_write_index rb) - unat (rb_read_index rb)" "unat (rb_read_index rb) \<le> unat (rb_write_index rb)"
          using ok by (simp_all add: rb_used_def rb_ok_def)
        then have "\<not> unat (rb_write_index rb) + n - rb_N rb \<le> unat (rb_read_index rb)" using ov by linarith
        then show ?thesis using True unfolding word_le_nat_alt W by simp
      next
        case False
        then have "unat (rb_write_index rb) \<le> unat (rb_read_index rb)" using ok by (simp add: rb_ok_def)
        then have "unat (rb_write_index rb) + n - rb_N rb \<le> unat (rb_read_index rb)" using nN by linarith
        then show ?thesis using False unfolding word_le_nat_alt W by simp
      qed
      have "(if rb_write_index ?rb' \<le> rb_read_index rb then ?rb'\<lparr>rb_read_mirror := \<not> rb_read_mirror rb, rb_read_index := rb_write_index ?rb'\<rparr>
           else ?rb'\<lparr>rb_read_index := rb_write_index ?rb'\<rparr>) =
          ?rb'\<lparr>rb_read_index := rb_write_index ?rb', rb_read_mirror := \<not> rb_write_mirror ?rb'\<rparr>"
        using m unfolding flip by (cases rb2) auto
      then show ?thesis using eq ov over advanced_overflow [OF ok adv _ _ refl] a(5) nN by simp
    qed
  qed
qed

text \<open>Writing one byte.\<close>

lemma write_char:
  assumes ok: "rb_ok rb"
  obtains rb1 rb' where "rb_copy_in (uint (rb_write_index rb)) [ch] 1 rb = Some rb1" "rb_advanced [ch] rb rb'"
    "rb' = (if uint (rb_write_index rb1) = rb_isize rb1 - 1
          then rb1\<lparr>rb_write_mirror := \<not> rb_write_mirror rb1, rb_write_index := 0\<rparr>
          else rb1\<lparr>rb_write_index := rb_write_index rb1 + 1\<rparr>)"
    "rb1 = rb\<lparr>rb_pool := rb_pool rb1\<rparr>"
proof -
  note d = rb_okD [OF ok]
  let ?w = "unat (rb_write_index rb)"
  let ?rb1 = "rb\<lparr>rb_pool := splice ?w [ch] (rb_pool rb)\<rparr>"
  have 1: "rb_copy_in (uint (rb_write_index rb)) [ch] 1 rb = Some ?rb1"
    using rb_copy_in_eq [of 1 "[ch]" ?w rb] d(4,6) unfolding d(9) by simp
  have wr: "cyc_written (rb_pool rb) (rb_N rb) ?w [ch] (rb_pool ?rb1)"
    using cyc_written_flat [of ?w "[ch]" "rb_N rb" "rb_pool rb"] d(4,6) by simp
  have last: "uint (rb_write_index rb) = rb_isize rb - 1 \<longleftrightarrow> ?w + 1 = rb_N rb" unfolding d(1) uint_nat by linarith
  have sz: "rb_isize ?rb1 = rb_isize rb" by (simp add: rb_isize_def)
  show thesis
  proof (cases "?w + 1 = rb_N rb")
    case True
    show thesis
      by (rule that [OF 1, of "?rb1\<lparr>rb_write_mirror := \<not> rb_write_mirror rb, rb_write_index := 0\<rparr>"])
        (use wr True last sz in \<open>simp_all add: rb_advanced_def\<close>)
  next
    case False
    have "unat (rb_write_index rb + 1) = ?w + 1" using d(3,6) by (simp add: unat_word_ariths)
    moreover have "?w + length [ch] < rb_N rb" using False d(6) by simp
    ultimately have "rb_advanced [ch] rb (?rb1\<lparr>rb_write_index := rb_write_index rb + 1\<rparr>)"
      using wr unfolding rb_advanced_def by simp
    moreover have "uint (rb_write_index ?rb1) \<noteq> rb_isize ?rb1 - 1" using last False sz by simp
    ultimately show thesis using that [OF 1] by simp
  qed
qed

lemma rt_ringbuffer_putchar_ok:
  assumes ok: "rb_ok rb"
  shows "\<exists>rb'. rt_ringbuffer_putchar ch rb = Some (if rb_used rb < rb_N rb then 1 else 0, rb') \<and> rb_ok rb' \<and> rb_N rb' = rb_N rb \<and>
    rb_contents rb' = (if rb_used rb < rb_N rb then rb_contents rb @ [ch] else rb_contents rb)"
proof (cases "rb_used rb < rb_N rb")
  case False
  then have "rt_ringbuffer_space_len rb = 0" using space_len_eq(1) [OF ok] by (simp add: unat_eq_zero)
  then show ?thesis using False ok by (simp add: rt_ringbuffer_putchar_def)
next
  case True
  note d = rb_okD [OF ok]
  obtain rb1 rb' where rb1: "rb_copy_in (uint (rb_write_index rb)) [ch] 1 rb = Some rb1" "rb_advanced [ch] rb rb'"
    "rb' = (if uint (rb_write_index rb1) = rb_isize rb1 - 1
          then rb1\<lparr>rb_write_mirror := \<not> rb_write_mirror rb1, rb_write_index := 0\<rparr>
          else rb1\<lparr>rb_write_index := rb_write_index rb1 + 1\<rparr>)"
    using write_char [OF ok] by blast
  have "rt_ringbuffer_space_len rb \<noteq> 0" using space_len_eq(1) [OF ok] True by auto
  then have "rt_ringbuffer_putchar ch rb = Some (1, rb')" using rb1(1,3) by (simp add: rt_ringbuffer_putchar_def)
  then show ?thesis using True advanced_append [OF ok rb1(2)] by simp
qed

lemma rt_ringbuffer_putchar_force_ok:
  assumes ok: "rb_ok rb"
  shows "\<exists>rb'. rt_ringbuffer_putchar_force ch rb = Some (1, rb') \<and> rb_ok rb' \<and> rb_N rb' = rb_N rb \<and>
    rb_contents rb' = drop (rb_used rb + 1 - rb_N rb) (rb_contents rb @ [ch])"
proof -
  note d = rb_okD [OF ok]
  obtain rb1 rb' where rb1: "rb_copy_in (uint (rb_write_index rb)) [ch] 1 rb = Some rb1" "rb_advanced [ch] rb rb'"
    "rb' = (if uint (rb_write_index rb1) = rb_isize rb1 - 1
          then rb1\<lparr>rb_write_mirror := \<not> rb_write_mirror rb1, rb_write_index := 0\<rparr>
          else rb1\<lparr>rb_write_index := rb_write_index rb1 + 1\<rparr>)" "rb1 = rb\<lparr>rb_pool := rb_pool rb1\<rparr>"
    using write_char [OF ok] by blast
  have full: "rt_ringbuffer_status rb = RT_RINGBUFFER_FULL \<longleftrightarrow> rb_used rb = rb_N rb"
    using ok d(2,5,6) by (auto simp: rt_ringbuffer_status_def rb_used_def rb_ok_def word_unat_eq_iff)
  have m: "rb_read_mirror rb1 = rb_read_mirror rb" "rb_write_mirror rb1 = rb_write_mirror rb" by (subst rb1(4), simp)+
  show ?thesis
  proof (cases "rb_used rb = rb_N rb")
    case False
    then have "rt_ringbuffer_putchar_force ch rb = Some (1, rb')"
      using rb1(1,3) full by (simp add: rt_ringbuffer_putchar_force_def)
    then show ?thesis using False d(7) advanced_append [OF ok rb1(2)] by simp
  next
    case True
    have mm: "rb_read_mirror rb \<noteq> rb_write_mirror rb"
    proof
      assume "rb_read_mirror rb = rb_write_mirror rb"
      then have "rb_used rb \<le> unat (rb_write_index rb)" by (simp add: rb_used_def)
      then show False using True d(6) by linarith
    qed
    have "rt_ringbuffer_putchar_force ch rb =
        Some (1, rb'\<lparr>rb_read_index := rb_write_index rb', rb_read_mirror := \<not> rb_write_mirror rb'\<rparr>)"
      using rb1(1) full True m mm unfolding rt_ringbuffer_putchar_force_def rb1(3) by (cases rb1) auto
    then show ?thesis using True d(2) advanced_overflow [OF ok rb1(2) _ _ refl] by simp
  qed
qed

subsection \<open>Reading\<close>

lemma read_advance:
  assumes ok: "rb_ok rb" and n: "n \<le> rb_used rb"
    and rb': "rb' = rb\<lparr>rb_read_index := r, rb_read_mirror := m\<rparr>"
    and r: "if unat (rb_read_index rb) + n < rb_N rb then unat r = unat (rb_read_index rb) + n \<and> m = rb_read_mirror rb
      else unat r = unat (rb_read_index rb) + n - rb_N rb \<and> m \<noteq> rb_read_mirror rb"
  shows "rb_ok rb'" "rb_contents rb' = drop n (rb_contents rb)" "rb_N rb' = rb_N rb"
proof -
  note d = rb_okD [OF ok]
  have N: "rb_N rb' = rb_N rb" "rb_isize rb' = rb_isize rb" by (simp_all add: rb_N_def rb_isize_def rb')
  have nN: "n \<le> rb_N rb" using n d(7) by linarith
  have R: "unat r = (unat (rb_read_index rb) + n) mod rb_N rb" using r d(5) nN by (auto simp: mod_if split: if_splits)
  have used: "rb_used rb' = rb_used rb - n" and ok': "rb_ok rb'"
    using n r ok d(2,5,6) nN unfolding rb_used_def rb_ok_def N by (auto simp: rb' split: if_splits)
  show "rb_ok rb'" by (rule ok')
  show "rb_N rb' = rb_N rb" by (rule N(1))
  have "rb_contents rb' = cyc (rb_pool rb) (rb_N rb) ((unat (rb_read_index rb) + n) mod rb_N rb) (rb_used rb - n)"
    unfolding rb_contents_def used N by (simp add: rb' R)
  then show "rb_contents rb' = drop n (rb_contents rb)" unfolding cyc_shift rb_contents_def drop_cyc .
qed

lemma cyc_flat: "r + n \<le> N \<Longrightarrow> N \<le> length p \<Longrightarrow> cyc p N r n = take n (drop r p)"
  by (rule nth_equalityI) (auto simp: nth_cyc mod_if)

lemma cyc_wrap:
  assumes "r < N" "N \<le> r + n" "n \<le> N" "N \<le> length p"
  shows "cyc p N r n = take (N - r) (drop r p) @ take (n - (N - r)) p"
proof -
  have "cyc p N r n = take (N - r) (cyc p N r n) @ drop (N - r) (cyc p N r n)" by simp
  also have "take (N - r) (cyc p N r n) = cyc p N r (N - r)" using assms by (intro take_cyc) simp
  also have "\<dots> = take (N - r) (drop r p)" using assms by (intro cyc_flat) simp_all
  also have "drop (N - r) (cyc p N r n) = cyc p N (r + (N - r)) (n - (N - r))" by (rule drop_cyc)
  also have "\<dots> = cyc p N ((r + (N - r)) mod N) (n - (N - r))" by (rule cyc_shift [symmetric])
  also have "\<dots> = cyc p N 0 (n - (N - r))" using assms(1) by simp
  also have "\<dots> = take (n - (N - r)) p" using assms cyc_flat [of 0 "n - (N - r)" N p] by simp
  finally show ?thesis .
qed

lemma rb_copy_out_eq: "off + n \<le> length (rb_pool rb) \<Longrightarrow> rb_copy_out (int off) (int n) rb = Some (take n (drop off (rb_pool rb)))"
  by (simp add: rb_copy_out_def)

lemma rt_ringbuffer_get_ok:
  fixes rb :: rt_ringbuffer and len :: u16
  assumes ok: "rb_ok rb"
  defines "n \<equiv> min (rb_used rb) (unat len)"
  shows "\<exists>rb'. rt_ringbuffer_get len rb = Some (of_nat n, take n (rb_contents rb), rb') \<and> rb_ok rb' \<and> rb_N rb' = rb_N rb \<and>
    rb_contents rb' = drop n (rb_contents rb)"
proof (cases "rb_used rb = 0")
  case True
  then have "rt_ringbuffer_data_len rb = 0" using data_len_eq [OF ok] by (simp add: unat_eq_zero)
  then show ?thesis using True ok by (simp add: rt_ringbuffer_get_def n_def)
next
  case False
  note d = rb_okD [OF ok]
  let ?sz = "rt_ringbuffer_data_len rb" and ?r = "unat (rb_read_index rb)"
  let ?len = "if ?sz < ucast len then ucast ?sz else len"
  have usz: "unat ?sz = rb_used rb" by (rule data_len_eq [OF ok])
  have sz: "?sz \<noteq> 0" using usz False by auto
  have "unat (ucast ?sz :: u16) = rb_used rb" using usz d(3,7) by (simp add: unsigned_ucast_eq take_bit_nat_eq_self_iff)
  moreover have "unat (ucast len :: u32) = unat len"
  proof -
    have "unat len < 2 ^ LENGTH(16)" by (rule unsigned_less)
    then show ?thesis by (simp add: unsigned_ucast_eq take_bit_nat_eq_self_iff)
  qed
  ultimately have un: "unat ?len = n" using usz unfolding n_def by (auto simp: word_less_nat_alt)
  have ulen: "uint ?len = int n" unfolding uint_nat un by (rule refl)
  have ulen': "(ucast ?len :: u32) = of_nat n" unfolding un [symmetric] by (rule of_nat_unat [symmetric])
  have n: "n \<le> rb_used rb" "n \<le> rb_N rb" using d(7) by (auto simp: n_def)
  have tk: "take n (rb_contents rb) = cyc (rb_pool rb) (rb_N rb) ?r n" unfolding rb_contents_def by (rule take_cyc [OF n(1)])
  show ?thesis
  proof (cases "?r + n < rb_N rb")
    case True
    let ?rb' = "rb\<lparr>rb_read_index := of_int (uint (rb_read_index rb) + int n)\<rparr>"
    have "rb_copy_out (uint (rb_read_index rb)) (int n) rb = Some (take n (rb_contents rb))"
      using rb_copy_out_eq [of ?r n rb] True d(4) cyc_flat [of ?r n "rb_N rb" "rb_pool rb"] unfolding d(8) tk by simp
    then have eq: "rt_ringbuffer_get len rb = Some (of_nat n, take n (rb_contents rb), ?rb')"
      using flat_iff(2) [OF ok, of ?len] True sz unfolding rt_ringbuffer_get_def Let_def ulen ulen' un by simp
    have "uint (rb_read_index rb) + int n = int (?r + n)" by simp
    then have "unat (of_int (uint (rb_read_index rb) + int n) :: 15 word) = ?r + n"
      using unat_index [of "?r + n"] True d(3) by (simp only:)
    then show ?thesis
      using read_advance [OF ok n(1), where rb' = ?rb' and r = "of_int (uint (rb_read_index rb) + int n)" and m = "rb_read_mirror rb"] eq True by simp
  next
    case False
    let ?f = "rb_N rb - ?r" and ?first = "rb_isize rb - uint (rb_read_index rb)"
    have first: "?first = int ?f" unfolding d(1) d(8) using d(5) by (simp only: of_nat_diff less_imp_le)
    have f: "?f \<le> n" "?r + ?f = rb_N rb" using False d(5) by linarith+
    have rest: "int n - ?first = int (n - ?f)" using f(1) unfolding first by (simp only: of_nat_diff)
    have c1: "rb_copy_out (uint (rb_read_index rb)) ?first rb = Some (take ?f (drop ?r (rb_pool rb)))"
      unfolding first unfolding d(8) by (rule rb_copy_out_eq) (use f d(4) in linarith)
    have c2: "rb_copy_out 0 (int n - ?first) rb = Some (take (n - ?f) (rb_pool rb))"
      using rb_copy_out_eq [of 0 "n - ?f" rb] n(2) d(4) unfolding rest by simp
    have wrap: "take n (rb_contents rb) = take ?f (drop ?r (rb_pool rb)) @ take (n - ?f) (rb_pool rb)"
      unfolding tk by (rule cyc_wrap) (use False d n in linarith)+
    let ?rb' = "rb\<lparr>rb_read_mirror := \<not> rb_read_mirror rb, rb_read_index := of_int (int n - ?first)\<rparr>"
    have eq: "rt_ringbuffer_get len rb = Some (of_nat n, take n (rb_contents rb), ?rb')"
      using flat_iff(2) [OF ok, of ?len] False sz c1 c2 wrap unfolding rt_ringbuffer_get_def Let_def ulen ulen' un by simp
    have "unat (of_int (int n - ?first) :: 15 word) = ?r + n - rb_N rb"
      using unat_index [of "n - ?f"] n(2) d(3,5) f unfolding rest by simp
    then show ?thesis
      using read_advance [OF ok n(1), where rb' = ?rb' and r = "of_int (int n - ?first)" and m = "\<not> rb_read_mirror rb"] eq False by simp
  qed
qed

lemma rt_ringbuffer_getchar_ok:
  assumes ok: "rb_ok rb"
  defines "n \<equiv> min (rb_used rb) 1"
  shows "\<exists>rb'. rt_ringbuffer_getchar rb = Some (of_nat n, take n (rb_contents rb), rb') \<and> rb_ok rb' \<and> rb_N rb' = rb_N rb \<and>
    rb_contents rb' = drop n (rb_contents rb)"
proof (cases "rb_used rb = 0")
  case True
  then have "rt_ringbuffer_data_len rb = 0" using data_len_eq [OF ok] by (simp add: unat_eq_zero)
  then show ?thesis using True ok by (simp add: rt_ringbuffer_getchar_def n_def)
next
  case False
  note d = rb_okD [OF ok]
  let ?r = "unat (rb_read_index rb)"
  have n: "n = 1" "1 \<le> rb_used rb" using False by (simp_all add: n_def)
  have sz: "rt_ringbuffer_data_len rb \<noteq> 0" using data_len_eq [OF ok] False by auto
  have "take 1 (rb_contents rb) = take 1 (drop ?r (rb_pool rb))"
    unfolding rb_contents_def take_cyc [OF n(2)] by (rule cyc_flat) (use d in linarith)+
  then have c: "rb_copy_out (uint (rb_read_index rb)) 1 rb = Some (take 1 (rb_contents rb))"
    using rb_copy_out_eq [of ?r 1 rb] d(4,5) unfolding d(8) by simp
  have last: "uint (rb_read_index rb) = rb_isize rb - 1 \<longleftrightarrow> ?r + 1 = rb_N rb" unfolding d(1) uint_nat by linarith
  show ?thesis
  proof (cases "?r + 1 = rb_N rb")
    case True
    then show ?thesis
      using read_advance [OF ok n(2), where rb' = "rb\<lparr>rb_read_mirror := \<not> rb_read_mirror rb, rb_read_index := 0\<rparr>" and r = 0
          and m = "\<not> rb_read_mirror rb"]
        sz c last n(1) by (simp add: rt_ringbuffer_getchar_def)
  next
    case False
    have "unat (rb_read_index rb + 1) = ?r + 1" using d(3,5) by (simp add: unat_word_ariths)
    moreover have "?r + 1 < rb_N rb" using False d(5) by linarith
    ultimately show ?thesis
      using read_advance [OF ok n(2), where rb' = "rb\<lparr>rb_read_index := rb_read_index rb + 1\<rparr>" and r = "rb_read_index rb + 1"
          and m = "rb_read_mirror rb"]
        sz c last n(1) False by (simp add: rt_ringbuffer_getchar_def)
  qed
qed

subsection \<open>The contract of a byte queue\<close>

datatype rb_op = Put "u8 list" | PutForce "u8 list" | PutChar u8 | PutCharForce u8 | Get u16 | GetChar | Reset

text \<open>
  The abstract state is the room of the queue and its bytes, oldest first. The result of an operation is the returned
  number and the bytes given to the caller.
\<close>

fun rb_spec :: "rb_op \<Rightarrow> nat \<times> u8 list \<Rightarrow> (u32 \<times> u8 list) \<times> (nat \<times> u8 list)" where
  "rb_spec (Put d) (N, q) = (let n = min (N - length q) (length d) in ((of_nat n, []), (N, q @ take n d)))"
| "rb_spec (PutForce d) (N, q) = (let d = drop (length d - N) d in ((of_nat (length d), []), (N, drop (length q + length d - N) (q @ d))))"
| "rb_spec (PutChar c) (N, q) = (if length q < N then ((1, []), (N, q @ [c])) else ((0, []), (N, q)))"
| "rb_spec (PutCharForce c) (N, q) = ((1, []), (N, drop (length q + 1 - N) (q @ [c])))"
| "rb_spec (Get len) (N, q) = (let n = min (length q) (unat len) in ((of_nat n, take n q), (N, drop n q)))"
| "rb_spec GetChar (N, q) = (let n = min (length q) 1 in ((of_nat n, take n q), (N, drop n q)))"
| "rb_spec Reset (N, q) = ((0, []), (N, []))"

fun rb_step :: "rb_op \<Rightarrow> rt_ringbuffer \<Rightarrow> ((u32 \<times> u8 list) \<times> rt_ringbuffer) option" where
  "rb_step (Put d) rb = map_option (\<lambda>(n, rb). ((n, []), rb)) (rt_ringbuffer_put d (of_nat (length d)) rb)"
| "rb_step (PutForce d) rb = map_option (\<lambda>(n, rb). ((n, []), rb)) (rt_ringbuffer_put_force d (of_nat (length d)) rb)"
| "rb_step (PutChar c) rb = map_option (\<lambda>(n, rb). ((n, []), rb)) (rt_ringbuffer_putchar c rb)"
| "rb_step (PutCharForce c) rb = map_option (\<lambda>(n, rb). ((n, []), rb)) (rt_ringbuffer_putchar_force c rb)"
| "rb_step (Get len) rb = map_option (\<lambda>(n, bs, rb). ((n, bs), rb)) (rt_ringbuffer_get len rb)"
| "rb_step GetChar rb = map_option (\<lambda>(n, bs, rb). ((n, bs), rb)) (rt_ringbuffer_getchar rb)"
| "rb_step Reset rb = Some ((0, []), rt_ringbuffer_reset rb)"

text \<open>The length of the data fits the 16-bit parameter.\<close>

fun rb_fits :: "rb_op \<Rightarrow> bool" where
  "rb_fits (Put d) \<longleftrightarrow> length d < 65536"
| "rb_fits (PutForce d) \<longleftrightarrow> length d < 65536"
| "rb_fits _ \<longleftrightarrow> True"

definition rb_abs :: "rt_ringbuffer \<Rightarrow> nat \<times> u8 list" where
  "rb_abs rb = (rb_N rb, rb_contents rb)"

fun spec_run :: "('o \<Rightarrow> 'a \<Rightarrow> 'r \<times> 'a) \<Rightarrow> 'o list \<Rightarrow> 'a \<Rightarrow> 'r list \<times> 'a" where
  "spec_run spec [] a = ([], a)"
| "spec_run spec (p # ps) a = (let (r, a) = spec p a; (rs, a) = spec_run spec ps a in (r # rs, a))"

locale op_refinement =
  fixes inv :: "'s \<Rightarrow> bool" and abs :: "'s \<Rightarrow> 'a" and fits :: "'o \<Rightarrow> bool"
    and step :: "'o \<Rightarrow> 's \<Rightarrow> ('r \<times> 's) option" and spec :: "'o \<Rightarrow> 'a \<Rightarrow> 'r \<times> 'a"
  assumes step_ok: "inv s \<Longrightarrow> fits p \<Longrightarrow>
    \<exists>s'. step p s = Some (fst (spec p (abs s)), s') \<and> inv s' \<and> abs s' = snd (spec p (abs s))"
begin

lemma run_ok:
  "inv s \<Longrightarrow> \<forall>p\<in>set ps. fits p \<Longrightarrow>
   \<exists>s'. run_ops step ps s = Some (fst (spec_run spec ps (abs s)), s') \<and> inv s' \<and> abs s' = snd (spec_run spec ps (abs s))"
proof (induction ps arbitrary: s)
  case (Cons p ps)
  obtain s1 where s1: "step p s = Some (fst (spec p (abs s)), s1)" "inv s1" "abs s1 = snd (spec p (abs s))"
    using step_ok [OF Cons.prems(1), of p] Cons.prems(2) by auto
  obtain s' where "run_ops step ps s1 = Some (fst (spec_run spec ps (abs s1)), s')" "inv s'" "abs s' = snd (spec_run spec ps (abs s1))"
    using Cons.IH [OF s1(2)] Cons.prems(2) by auto
  then show ?case using s1 by (simp add: split_beta)
qed simp

end

lemma rb_reset_ok: "rb_ok rb \<Longrightarrow> rb_ok (rt_ringbuffer_reset rb) \<and> rb_abs (rt_ringbuffer_reset rb) = (rb_N rb, [])"
  using rb_okD(2) [of rb]
  by (simp add: rb_ok_def rb_abs_def rb_contents_def rb_used_def rb_N_def rb_isize_def rt_ringbuffer_reset_def cyc_def)

lemma rb_step_ok:
  assumes ok: "rb_ok rb" and fits: "rb_fits p"
  shows "\<exists>rb'. rb_step p rb = Some (fst (rb_spec p (rb_abs rb)), rb') \<and> rb_ok rb' \<and> rb_abs rb' = snd (rb_spec p (rb_abs rb))"
proof -
  have len: "unat (of_nat (length d) :: u16) = length d" if "length d < 65536" for d :: "u8 list"
    using that by (simp add: unat_of_nat)
  show ?thesis
  proof (cases p)
    case (Put d)
    then show ?thesis using rt_ringbuffer_put_ok [OF ok, of "of_nat (length d)" d] fits len [of d] by (auto simp: rb_abs_def Let_def)
  next
    case (PutForce d)
    moreover have "length d - (length d - rb_N rb) = min (length d) (rb_N rb)" by simp
    ultimately show ?thesis
      using rt_ringbuffer_put_force_ok [OF ok, of "of_nat (length d)" d] fits len [of d] by (auto simp: rb_abs_def Let_def)
  next
    case (PutChar c)
    then show ?thesis using rt_ringbuffer_putchar_ok [OF ok, of c] by (auto simp: rb_abs_def)
  next
    case (PutCharForce c)
    then show ?thesis using rt_ringbuffer_putchar_force_ok [OF ok, of c] by (auto simp: rb_abs_def)
  next
    case (Get l)
    then show ?thesis using rt_ringbuffer_get_ok [OF ok, of l] by (auto simp: rb_abs_def Let_def)
  next
    case GetChar
    then show ?thesis using rt_ringbuffer_getchar_ok [OF ok] by (auto simp: rb_abs_def Let_def)
  next
    case Reset
    then show ?thesis using rb_reset_ok [OF ok] by (simp add: rb_abs_def)
  qed
qed

interpretation rb: op_refinement rb_ok rb_abs rb_fits rb_step rb_spec
  by unfold_locales (rule rb_step_ok)

lemma rt_ringbuffer_init_ok:
  assumes "4 \<le> sz" "sz < 0x8000" "unat sz \<le> length bytes"
  obtains rb' where "rt_ringbuffer_init rb pool bytes sz = Some rb'" "rb_ok rb'" "rb_abs rb' = (4 * (unat sz div 4), [])"
proof -
  let ?rb' = "rb\<lparr>rb_read_mirror := False, rb_read_index := 0, rb_write_mirror := False, rb_write_index := 0,
      rb_buffer_ptr := pool, rb_pool := bytes, rb_buffer_size := RT_ALIGN_DOWN sz 4\<rparr>"
  have sint: "sint w = int (unat w)" if "unat w < 32768" for w :: u16
  proof -
    have "int (unat w) < 32768" using that by linarith
    then have "uint w < 2 ^ 15" unfolding uint_nat by simp
    moreover have "- (2 ^ 15) \<le> uint w" by (rule order_trans [of _ 0]) simp_all
    ultimately have "signed_take_bit 15 (uint w) = uint w" by (intro signed_take_bit_int_eq_self)
    then show ?thesis by (simp add: sint_uint)
  qed
  have sz: "unat sz < 32768" "4 \<le> unat sz" using assms(1,2) by (simp_all add: word_less_nat_alt word_le_nat_alt)
  have N: "unat (RT_ALIGN_DOWN sz 4) = 4 * (unat sz div 4)" by (rule unat_align_down)
  then have le: "unat (RT_ALIGN_DOWN sz 4) \<le> unat sz" by simp
  have "0 < unat sz div 4" using sz(2) by (simp add: div_greater_zero_iff)
  have isz: "rb_isize ?rb' = int (4 * (unat sz div 4))"
    using sint [of "RT_ALIGN_DOWN sz 4"] le sz(1) N by (simp add: rb_isize_def)
  then have rN: "rb_N ?rb' = 4 * (unat sz div 4)" by (simp add: rb_N_def)
  have "rb_ok ?rb'" using isz rN le assms(3) \<open>0 < unat sz div 4\<close> N unfolding rb_ok_def by simp
  moreover have "rb_abs ?rb' = (4 * (unat sz div 4), [])" using rN by (simp add: rb_abs_def rb_contents_def rb_used_def cyc_def)
  moreover have "0 < sint sz" unfolding sint [OF sz(1)] using sz(2) by linarith
  then have "rt_ringbuffer_init rb pool bytes sz = Some ?rb'" by (simp add: rt_ringbuffer_init_def)
  ultimately show thesis using that [of ?rb'] by blast
qed

text \<open>
  C18. A ring buffer is a queue of bytes. For a new buffer over a pool of \<open>sz\<close> bytes, every sequence of operations returns
  exactly what the specification of a byte queue with room for \<open>sz\<close> bytes (rounded down to a multiple of 4)
  returns, and leaves the bytes the specification leaves: \<open>put\<close> stores what fits, the \<open>force\<close> variants drop the oldest bytes,
  reading is first in, first out, and no byte is read or written outside the pool, whatever the wrap-around of the indices.
\<close>

theorem rb_refines_queue:
  assumes "4 \<le> sz" "sz < 0x8000" "unat sz \<le> length bytes" "\<forall>p\<in>set ps. rb_fits p"
  shows "\<exists>rb0 rb'. rt_ringbuffer_init rb pool bytes sz = Some rb0 \<and>
    run_ops rb_step ps rb0 = Some (fst (spec_run rb_spec ps (4 * (unat sz div 4), [])), rb') \<and> rb_ok rb' \<and>
    rb_abs rb' = snd (spec_run rb_spec ps (4 * (unat sz div 4), []))"
proof -
  obtain rb0 where rb0: "rt_ringbuffer_init rb pool bytes sz = Some rb0" "rb_ok rb0" "rb_abs rb0 = (4 * (unat sz div 4), [])"
    by (rule rt_ringbuffer_init_ok [OF assms(1-3)])
  then show ?thesis using rb.run_ok [OF rb0(2) assms(4)] by auto
qed

definition demo_rb :: rt_ringbuffer where
  "demo_rb = \<lparr>rb_buffer_ptr = 0, rb_pool = [], rb_read_mirror = True, rb_read_index = 5, rb_write_mirror = False, rb_write_index = 3,
     rb_buffer_size = 0\<rparr>"

theorem rb_refines_queue_witness:
  "\<exists>rb0 rb'. rt_ringbuffer_init demo_rb 1000 [0, 0, 0, 0, 0] 5 = Some rb0 \<and>
    run_ops rb_step [Put [1, 2, 3], Get 2, PutForce [4, 5, 6, 7], GetChar] rb0 = Some ([(3, []), (2, [1, 2]), (4, []), (1, [4])], rb') \<and>
    rb_ok rb' \<and> rb_abs rb' = (4, [5, 6, 7])"
proof -
  let ?ps = "[Put [1, 2, 3], Get 2, PutForce [4, 5, 6, 7], GetChar]"
  have run: "spec_run rb_spec ?ps (4 * (unat (5 :: u16) div 4), []) = ([(3, []), (2, [1, 2]), (4, []), (1, [4])], (4, [5, 6, 7]))"
    by code_simp
  have pre: "(4 :: u16) \<le> 5" "(5 :: u16) < 0x8000" "unat (5 :: u16) \<le> length [0, 0, 0, 0, 0 :: u8]" "\<forall>p\<in>set ?ps. rb_fits p"
    by simp_all
  show ?thesis using rb_refines_queue [OF pre, of demo_rb 1000] unfolding run by simp
qed

text \<open>
  \<open>rt_ringbuffer_peak\<close> does not only look. On a buffer with data it returns the place of the oldest byte and the number
  \<open>n\<close> of bytes up to the newest byte or the end of the pool; these are the \<open>n\<close> oldest bytes, and the
  buffer has lost them. On an empty buffer it returns the null pointer and changes nothing.
\<close>

theorem rt_ringbuffer_peak_consumes:
  assumes "rb_ok rb" "rb_contents rb \<noteq> []"
  shows "\<exists>n i rb'. rt_ringbuffer_peak rb = (of_nat n, Some i, rb') \<and> 0 < n \<and> n \<le> length (rb_contents rb) \<and> i + n \<le> length (rb_pool rb) \<and>
    take n (drop i (rb_pool rb)) = take n (rb_contents rb) \<and> rb_ok rb' \<and> rb_contents rb' = drop n (rb_contents rb)"
proof -
  note d = rb_okD [OF assms(1)]
  let ?r = "unat (rb_read_index rb)" and ?sz = "rt_ringbuffer_data_len rb"
  have usz: "unat ?sz = rb_used rb" by (rule data_len_eq [OF assms(1)])
  have pos: "0 < rb_used rb" using assms(2) by (metis length_greater_0_conv length_rb_contents)
  have sz: "?sz \<noteq> 0" using usz pos by auto
  let ?f = "rb_N rb - ?r"
  have first: "rb_isize rb - uint (rb_read_index rb) = int ?f" unfolding d(1) d(8) using d(5) by (simp only: of_nat_diff less_imp_le)
  have uf: "unat (of_int (rb_isize rb - uint (rb_read_index rb)) :: u32) = ?f"
    using d(3) unfolding first by (simp add: unat_of_nat)
  have f: "0 < ?f" "?r + ?f = rb_N rb" using d(5) by linarith+
  show ?thesis
  proof (cases "rb_used rb < ?f")
    case True
    let ?rb' = "rb\<lparr>rb_read_index := of_int (uint (rb_read_index rb) + uint ?sz)\<rparr>"
    have "uint (rb_read_index rb) + uint ?sz = int (?r + rb_used rb)" unfolding uint_nat usz by simp
    then have ur: "unat (of_int (uint (rb_read_index rb) + uint ?sz) :: 15 word) = ?r + rb_used rb"
      using unat_index [of "?r + rb_used rb"] True d(3) by simp
    have lt: "(of_int (rb_isize rb - uint (rb_read_index rb)) :: u32) > ?sz" unfolding word_less_nat_alt uf usz by (rule True)
    have "?sz = of_nat (rb_used rb)" unfolding usz [symmetric] by simp
    then have eq: "rt_ringbuffer_peak rb = (of_nat (rb_used rb), Some ?r, ?rb')" using sz lt by (simp add: rt_ringbuffer_peak_def Let_def)
    have c: "take (rb_used rb) (drop ?r (rb_pool rb)) = take (rb_used rb) (rb_contents rb)"
      using cyc_flat [of ?r "rb_used rb" "rb_N rb" "rb_pool rb"] True d(4) unfolding rb_contents_def by simp
    have adv: "rb_ok ?rb'" "rb_contents ?rb' = drop (rb_used rb) (rb_contents rb)"
      using read_advance [OF assms(1) le_refl, where rb' = ?rb' and r = "of_int (uint (rb_read_index rb) + uint ?sz)" and m = "rb_read_mirror rb"]
        ur True by simp_all
    show ?thesis
      by (intro exI [of _ "rb_used rb"] exI [of _ ?r] exI [of _ ?rb']) (use eq c adv pos True d(4) in simp)
  next
    case False
    let ?rb' = "rb\<lparr>rb_read_mirror := \<not> rb_read_mirror rb, rb_read_index := 0\<rparr>"
    have le: "?f \<le> rb_used rb" using False by simp
    have "\<not> (of_int (rb_isize rb - uint (rb_read_index rb)) :: u32) > ?sz" unfolding word_less_nat_alt uf usz by (rule False)
    then have eq: "rt_ringbuffer_peak rb = (of_nat ?f, Some ?r, ?rb')"
      using sz unfolding rt_ringbuffer_peak_def Let_def first by simp
    have c: "take ?f (drop ?r (rb_pool rb)) = take ?f (rb_contents rb)"
      using cyc_flat [of ?r ?f "rb_N rb" "rb_pool rb"] f(2) d(4) unfolding rb_contents_def take_cyc [OF le] by simp
    have adv: "rb_ok ?rb'" "rb_contents ?rb' = drop ?f (rb_contents rb)"
      using read_advance [OF assms(1) le, where rb' = ?rb' and r = 0 and m = "\<not> rb_read_mirror rb"] f(2) by simp_all
    have "?f \<le> length (rb_contents rb)" "?r + ?f \<le> length (rb_pool rb)" using le f(2) d(4) by simp_all
    then show ?thesis using eq c adv f(1) by blast
  qed
qed

theorem rt_ringbuffer_peak_consumes_witness:
  "\<exists>n i rb'. rt_ringbuffer_peak (demo_rb\<lparr>rb_buffer_size := 4, rb_pool := [6, 7, 4, 5], rb_read_index := 2, rb_write_index := 1\<rparr>) =
      (of_nat n, Some i, rb') \<and> 0 < n \<and> rb_ok rb' \<and> rb_contents rb' = drop n [4, 5, 6]"
proof -
  let ?rb = "demo_rb\<lparr>rb_buffer_size := 4, rb_pool := [6, 7, 4, 5], rb_read_index := 2, rb_write_index := 1\<rparr>"
  have "rb_ok ?rb" "rb_contents ?rb = [4, 5, 6]"
    by code_simp+
  then show ?thesis using rt_ringbuffer_peak_consumes [of ?rb] by auto
qed

end
