(* ===== verification/RT_Printf.thy ===== *)
theory RT_Printf
  imports RT_Memory
begin

section \<open>Formatted output: \<^verbatim>\<open>rt_vsnprintf\<close> of \<^verbatim>\<open>src/kservice.c\<close>\<close>

text \<open>
  The formatter of the kernel with \<^verbatim>\<open>RT_PRINTF_PRECISION\<close> and \<^verbatim>\<open>RT_PRINTF_SPECIAL\<close>, without \<^verbatim>\<open>RT_PRINTF_LONGLONG\<close>, so that a
  \<^verbatim>\<open>long\<close> has 32 bits. The format is the list of the bytes that may be read from the pointer on, the output goes to a
  memory of bytes. The variable arguments are a list of values; an argument that is missing, of the wrong kind or a string that is not terminated has no
  result (\<open>None\<close>), and neither have field widths and precisions of two to the 30 or more, for which the \<^verbatim>\<open>int\<close> arithmetic
  of the code can overflow. The negation of the smallest \<^verbatim>\<open>long\<close> wraps around, as it does on the machines of the kernel. Pointers are
  natural numbers: the output position does not pass the end of the address space.
\<close>

datatype vararg = Int_arg u32 | Str_arg "u8 list option"

record out =
  out_str :: nat
  out_mem :: bytes

text \<open>The flags of a conversion.\<close>

abbreviation (input) ZEROPAD :: u8 where "ZEROPAD \<equiv> 1"
abbreviation (input) SIGN :: u8 where "SIGN \<equiv> 2"
abbreviation (input) PLUS :: u8 where "PLUS \<equiv> 4"
abbreviation (input) SPACE :: u8 where "SPACE \<equiv> 8"
abbreviation (input) LEFT :: u8 where "LEFT \<equiv> 16"
abbreviation (input) SPECIAL :: u8 where "SPECIAL \<equiv> 32"
abbreviation (input) LARGE :: u8 where "LARGE \<equiv> 64"

text \<open>Characters.\<close>

abbreviation (input) CH_space :: u8 where "CH_space \<equiv> 32"
abbreviation (input) CH_hash :: u8 where "CH_hash \<equiv> 35"
abbreviation (input) CH_percent :: u8 where "CH_percent \<equiv> 37"
abbreviation (input) CH_star :: u8 where "CH_star \<equiv> 42"
abbreviation (input) CH_plus :: u8 where "CH_plus \<equiv> 43"
abbreviation (input) CH_minus :: u8 where "CH_minus \<equiv> 45"
abbreviation (input) CH_dot :: u8 where "CH_dot \<equiv> 46"
abbreviation (input) CH_0 :: u8 where "CH_0 \<equiv> 48"
abbreviation (input) CH_X :: u8 where "CH_X \<equiv> 88"
abbreviation (input) CH_c :: u8 where "CH_c \<equiv> 99"
abbreviation (input) CH_d :: u8 where "CH_d \<equiv> 100"
abbreviation (input) CH_h :: u8 where "CH_h \<equiv> 104"
abbreviation (input) CH_i :: u8 where "CH_i \<equiv> 105"
abbreviation (input) CH_l :: u8 where "CH_l \<equiv> 108"
abbreviation (input) CH_o :: u8 where "CH_o \<equiv> 111"
abbreviation (input) CH_p :: u8 where "CH_p \<equiv> 112"
abbreviation (input) CH_s :: u8 where "CH_s \<equiv> 115"
abbreviation (input) CH_u :: u8 where "CH_u \<equiv> 117"
abbreviation (input) CH_x :: u8 where "CH_x \<equiv> 120"

subsection \<open>Writing\<close>

text \<open>\<^verbatim>\<open>if (str < end) *str = c; ++ str;\<close>\<close>

definition put :: "nat \<Rightarrow> u8 \<Rightarrow> out \<Rightarrow> out" where
  "put lim c out = out\<lparr>out_str := out_str out + 1, out_mem := (if out_str out < lim then (out_mem out)(out_str out := c) else out_mem out)\<rparr>"

text \<open>
  The loops that pad: \<^verbatim>\<open>while (l < k--)\<close>, of which \<^verbatim>\<open>while (size-- > 0)\<close> is the case of 0, and \<^verbatim>\<open>while (--k > 0)\<close>. The
  variable is used after the loop.
\<close>

function put_while :: "nat \<Rightarrow> u8 \<Rightarrow> int \<Rightarrow> int \<Rightarrow> out \<Rightarrow> int \<times> out" where
  "put_while lim c l k out = (if l < k then put_while lim c l (k - 1) (put lim c out) else (k - 1, out))"
  by pat_completeness auto
termination by (relation "measure (\<lambda>(lim, c, l, k, out). nat (k - l))") auto

function put_while_pre :: "nat \<Rightarrow> u8 \<Rightarrow> int \<Rightarrow> out \<Rightarrow> int \<times> out" where
  "put_while_pre lim c k out = (if k - 1 > 0 then put_while_pre lim c (k - 1) (put lim c out) else (k - 1, out))"
  by pat_completeness auto
termination by (relation "measure (\<lambda>(lim, c, k, out). nat k)") auto

declare put_while.simps [simp del] put_while_pre.simps [simp del]

subsection \<open>Numbers\<close>

definition is_digit :: "u8 \<Rightarrow> bool" where
  "is_digit c \<longleftrightarrow> c - CH_0 < 10"

definition divide_digit :: "u32 \<Rightarrow> u8 \<Rightarrow> nat \<times> u32" where
  "divide_digit n base = (if base = 10 then (unat (n mod 10), n div 10) else (unat (n mod 16), n div 16))"

fun skip_atoi :: "int \<Rightarrow> u8 list \<Rightarrow> (int \<times> u8 list) option" where
  "skip_atoi i [] = None"
| "skip_atoi i (c # s) =
     (if is_digit c then
        let i = i * 10 + uint c - 48
        in if i < 2 ^ 30 then skip_atoi i s else None
      else Some (i, c # s))"

definition small_digits :: "u8 list" where
  "small_digits = [48, 49, 50, 51, 52, 53, 54, 55, 56, 57, 97, 98, 99, 100, 101, 102]"

definition large_digits :: "u8 list" where
  "large_digits = [48, 49, 50, 51, 52, 53, 54, 55, 56, 57, 65, 66, 67, 68, 69, 70]"

text \<open>
  The loop that stores the digits in \<^verbatim>\<open>tmp[16]\<close>, the lowest digit first. A store behind the array has no result.
\<close>

function tmp_digits :: "u8 list \<Rightarrow> u8 \<Rightarrow> u32 \<Rightarrow> u8 list \<Rightarrow> u8 list option" where
  "tmp_digits digits base num tmp =
     (if num \<noteq> 0 then
        let (res, num) = divide_digit num base
        in if length tmp < 16 then tmp_digits digits base num (tmp @ [digits ! res]) else None
      else Some tmp)"
  by pat_completeness auto
termination by (relation "measure (\<lambda>(digits, base, num, tmp). 16 - length tmp)") auto

declare tmp_digits.simps [simp del]

text \<open>\<^verbatim>\<open>while (i-- > 0 && (precision_bak != 0))\<close>\<close>

fun put_tmp :: "nat \<Rightarrow> u8 list \<Rightarrow> nat \<Rightarrow> int \<Rightarrow> out \<Rightarrow> out" where
  "put_tmp lim tmp 0 precision_bak out = out"
| "put_tmp lim tmp (Suc i) precision_bak out =
     (if precision_bak \<noteq> 0 then put_tmp lim tmp i precision_bak (put lim (tmp ! i) out) else out)"

text \<open>
  \<^verbatim>\<open>print_number\<close> in two parts: the sign and the digits, and the output of the field. \<open>type\<close> in the second part has no
  \<^verbatim>\<open>ZEROPAD\<close> beside \<^verbatim>\<open>LEFT\<close>.
\<close>

definition number_sign :: "u8 \<Rightarrow> u32 \<Rightarrow> u8 \<times> u32" where
  "number_sign type num =
     (if type AND SIGN \<noteq> 0 then
        if sint num < 0 then (CH_minus, - num)
        else if type AND PLUS \<noteq> 0 then (CH_plus, num)
        else if type AND SPACE \<noteq> 0 then (CH_space, num)
        else (0, num)
      else (0, num))"

definition print_field :: "nat \<Rightarrow> u8 list \<Rightarrow> u8 \<Rightarrow> u8 \<Rightarrow> int \<Rightarrow> int \<Rightarrow> u8 \<Rightarrow> out \<Rightarrow> out" where
  "print_field lim tmp sign base sz precision_bak type out =
     (let c = (if type AND ZEROPAD \<noteq> 0 then CH_0 else CH_space);
          i = length tmp;
          precision = (if int i > precision_bak then int i else precision_bak);
          sz = sz - precision;
          (sz, out) =
            (if type AND (ZEROPAD OR LEFT) = 0 then
               let sz = (if sign \<noteq> 0 \<and> sz > 0 then sz - 1 else sz)
               in put_while lim CH_space 0 sz out
             else (sz, out));
          (sz, out) = (if sign \<noteq> 0 then (sz - 1, put lim sign out) else (sz, out));
          out =
            (if type AND SPECIAL \<noteq> 0 then
               if base = 8 then put lim CH_0 out
               else if base = 16 then put lim (if type AND LARGE \<noteq> 0 then CH_X else CH_x) (put lim CH_0 out)
               else out
             else out);
          (sz, out) = (if type AND LEFT = 0 then put_while lim c 0 sz out else (sz, out));
          out = snd (put_while lim CH_0 (int i) precision out);
          out = put_tmp lim tmp i precision_bak out
      in snd (put_while lim CH_space 0 sz out))"

definition print_number :: "nat \<Rightarrow> u32 \<Rightarrow> u8 \<Rightarrow> int \<Rightarrow> int \<Rightarrow> u8 \<Rightarrow> out \<Rightarrow> out option" where
  "print_number lim num base s precision type out = do {
     let digits = (if type AND LARGE \<noteq> 0 then large_digits else small_digits);
     let type = (if type AND LEFT \<noteq> 0 then type AND NOT ZEROPAD else type);
     let (sign, num) = number_sign type num;
     let sz =
       (if type AND SPECIAL \<noteq> 0 then
          if base = 16 then s - 2 else if base = 8 then s - 1 else s
        else s);
     tmp \<leftarrow> (if num = 0 then Some [CH_0] else tmp_digits digits base num []);
     Some (print_field lim tmp sign base sz precision type out)
   }"

subsection \<open>Conversions\<close>

text \<open>
  The parts of a conversion in the order of the code. Each function starts at the character that the pointer \<^verbatim>\<open>fmt\<close> is on and returns the rest.
\<close>

fun parse_flags :: "u8 \<Rightarrow> u8 list \<Rightarrow> (u8 \<times> u8 list) option" where
  "parse_flags flags [] = None"
| "parse_flags flags (c # fmt) =
     (if c = CH_minus then parse_flags (flags OR LEFT) fmt
      else if c = CH_plus then parse_flags (flags OR PLUS) fmt
      else if c = CH_space then parse_flags (flags OR SPACE) fmt
      else if c = CH_hash then parse_flags (flags OR SPECIAL) fmt
      else if c = CH_0 then parse_flags (flags OR ZEROPAD) fmt
      else Some (flags, c # fmt))"

fun va_int :: "vararg list \<Rightarrow> (u32 \<times> vararg list) option" where
  "va_int (Int_arg w # args) = Some (w, args)"
| "va_int args = None"

fun va_str :: "vararg list \<Rightarrow> (u8 list option \<times> vararg list) option" where
  "va_str (Str_arg s # args) = Some (s, args)"
| "va_str args = None"

fun parse_width :: "u8 \<Rightarrow> u8 list \<Rightarrow> vararg list \<Rightarrow> (int \<times> u8 \<times> u8 list \<times> vararg list) option" where
  "parse_width flags [] args = None"
| "parse_width flags (c # fmt) args =
     (if is_digit c then do { (field_width, fmt) \<leftarrow> skip_atoi 0 (c # fmt); Some (field_width, flags, fmt, args) }
      else if c = CH_star then do {
        (w, args) \<leftarrow> va_int args;
        let field_width = sint w;
        if \<bar>field_width\<bar> < 2 ^ 30 then
          if field_width < 0 then Some (- field_width, flags OR LEFT, fmt, args) else Some (field_width, flags, fmt, args)
        else None
      }
      else Some (-1, flags, c # fmt, args))"

fun precision_digits :: "u8 list \<Rightarrow> vararg list \<Rightarrow> (int \<times> u8 list \<times> vararg list) option" where
  "precision_digits [] args = None"
| "precision_digits (c # fmt) args =
     (if is_digit c then do { (precision, fmt) \<leftarrow> skip_atoi 0 (c # fmt); Some (precision, fmt, args) }
      else if c = CH_star then do {
        (w, args) \<leftarrow> va_int args;
        if sint w < 2 ^ 30 then Some (sint w, fmt, args) else None
      }
      else Some (-1, c # fmt, args))"

fun parse_precision :: "u8 list \<Rightarrow> vararg list \<Rightarrow> (int \<times> u8 list \<times> vararg list) option" where
  "parse_precision [] args = None"
| "parse_precision (c # fmt) args =
     (if c = CH_dot then do {
        (precision, fmt, args) \<leftarrow> precision_digits fmt args;
        Some (if precision < 0 then 0 else precision, fmt, args)
      }
      else Some (-1, c # fmt, args))"

fun parse_qualifier :: "u8 list \<Rightarrow> (u8 \<times> u8 list) option" where
  "parse_qualifier [] = None"
| "parse_qualifier (c # fmt) = (if c = CH_h \<or> c = CH_l then Some (c, fmt) else Some (0, c # fmt))"

record directive =
  d_flags :: u8
  d_width :: int
  d_precision :: int
  d_qualifier :: u8

definition parse_directive :: "u8 list \<Rightarrow> vararg list \<Rightarrow> (directive \<times> u8 list \<times> vararg list) option" where
  "parse_directive fmt args = do {
     (flags, fmt) \<leftarrow> parse_flags 0 fmt;
     (field_width, flags, fmt, args) \<leftarrow> parse_width flags fmt args;
     (precision, fmt, args) \<leftarrow> parse_precision fmt args;
     (qualifier, fmt) \<leftarrow> parse_qualifier fmt;
     Some (\<lparr>d_flags = flags, d_width = field_width, d_precision = precision, d_qualifier = qualifier\<rparr>, fmt, args)
   }"

definition print_char :: "nat \<Rightarrow> directive \<Rightarrow> u8 \<Rightarrow> out \<Rightarrow> out" where
  "print_char lim d c out =
     (let (field_width, out) =
            (if d_flags d AND LEFT = 0 then put_while_pre lim CH_space (d_width d) out else (d_width d, out));
          out = put lim c out
      in snd (put_while_pre lim CH_space field_width out))"

fun field_strlen :: "u8 list \<Rightarrow> int \<Rightarrow> int \<Rightarrow> int option" where
  "field_strlen [] len field_width = (if len \<noteq> field_width then None else Some len)"
| "field_strlen (c # s) len field_width =
     (if len \<noteq> field_width \<and> c \<noteq> 0 then field_strlen s (len + 1) field_width else Some len)"

fun put_string :: "nat \<Rightarrow> u8 list \<Rightarrow> nat \<Rightarrow> out \<Rightarrow> out option" where
  "put_string lim s 0 out = Some out"
| "put_string lim [] (Suc n) out = None"
| "put_string lim (c # s) (Suc n) out = put_string lim s n (put lim c out)"

definition null_string :: "u8 list" where
  "null_string = [40, 78, 85, 76, 76, 41, 0]"

definition print_string :: "nat \<Rightarrow> directive \<Rightarrow> u8 list option \<Rightarrow> out \<Rightarrow> out option" where
  "print_string lim d s out = do {
     let s = (case s of None \<Rightarrow> null_string | Some s \<Rightarrow> s);
     len \<leftarrow> field_strlen s 0 (d_width d);
     let len = (if d_precision d > 0 \<and> len > d_precision d then d_precision d else len);
     let (field_width, out) =
       (if d_flags d AND LEFT = 0 then put_while lim CH_space len (d_width d) out else (d_width d, out));
     out \<leftarrow> put_string lim s (nat len) out;
     Some (snd (put_while lim CH_space len field_width out))
   }"

definition fetch_number :: "u8 \<Rightarrow> u8 \<Rightarrow> vararg list \<Rightarrow> (u32 \<times> vararg list) option" where
  "fetch_number qualifier flags args = do {
     (w, args) \<leftarrow> va_int args;
     if qualifier = CH_h then
       let num = (ucast w :: u16)
       in Some (if flags AND SIGN \<noteq> 0 then scast num else ucast num, args)
     else Some (w, args)
   }"

text \<open>The \<^verbatim>\<open>switch\<close> over the conversion character \<open>c\<close>; the result is the rest of the format, the arguments and the output.\<close>

fun print_directive :: "nat \<Rightarrow> directive \<Rightarrow> u8 list \<Rightarrow> vararg list \<Rightarrow> out \<Rightarrow> (u8 list \<times> vararg list \<times> out) option" where
  "print_directive lim d [] args out = None"
| "print_directive lim d (c # fmt) args out =
     (if c = CH_c then do {
        (w, args) \<leftarrow> va_int args;
        Some (fmt, args, print_char lim d (ucast w) out)
      }
      else if c = CH_s then do {
        (s, args) \<leftarrow> va_str args;
        out \<leftarrow> print_string lim d s out;
        Some (fmt, args, out)
      }
      else if c = CH_p then do {
        let (field_width, flags) = (if d_width d = -1 then (8, d_flags d OR ZEROPAD) else (d_width d, d_flags d));
        (w, args) \<leftarrow> va_int args;
        out \<leftarrow> print_number lim w 16 field_width (d_precision d) flags out;
        Some (fmt, args, out)
      }
      else if c = CH_percent then Some (fmt, args, put lim CH_percent out)
      else if c = CH_o \<or> c = CH_X \<or> c = CH_x \<or> c = CH_d \<or> c = CH_i \<or> c = CH_u then do {
        let base = (if c = CH_o then 8 else if c = CH_X \<or> c = CH_x then 16 else 10);
        let flags = (if c = CH_X then d_flags d OR LARGE else if c = CH_d \<or> c = CH_i then d_flags d OR SIGN else d_flags d);
        (num, args) \<leftarrow> fetch_number (d_qualifier d) flags args;
        out \<leftarrow> print_number lim num base (d_width d) (d_precision d) flags out;
        Some (fmt, args, out)
      }
      else if c \<noteq> 0 then Some (fmt, args, put lim c (put lim CH_percent out))
      else Some (c # fmt, args, put lim CH_percent out))"

text \<open>Every part moves the pointer towards the end of the format.\<close>

named_theorems parse_length \<open>the rest of a format is not longer than the format\<close>

lemma skip_atoi_length [parse_length]: "skip_atoi i s = Some (j, s') \<Longrightarrow> length s' \<le> length s"
  by (induction i s rule: skip_atoi.induct) (auto simp: Let_def split: if_splits)

lemma parse_flags_length [parse_length]: "parse_flags flags fmt = Some (flags', fmt') \<Longrightarrow> length fmt' \<le> length fmt"
  by (induction flags fmt rule: parse_flags.induct) (auto split: if_splits)

lemma parse_width_length [parse_length]: "parse_width flags fmt args = Some (w, flags', fmt', args') \<Longrightarrow> length fmt' \<le> length fmt"
  by (induction flags fmt args rule: parse_width.induct)
    (auto simp: bind_eq_Some_conv Let_def split: if_splits dest: skip_atoi_length)

lemma precision_digits_length: "precision_digits fmt args = Some (p, fmt', args') \<Longrightarrow> length fmt' \<le> length fmt"
  by (induction fmt args rule: precision_digits.induct) (auto simp: bind_eq_Some_conv split: if_splits dest: skip_atoi_length)

lemma parse_precision_length [parse_length]: "parse_precision fmt args = Some (p, fmt', args') \<Longrightarrow> length fmt' \<le> length fmt"
  by (induction fmt args rule: parse_precision.induct) (auto simp: bind_eq_Some_conv split: if_splits dest: precision_digits_length)

lemma parse_qualifier_length [parse_length]: "parse_qualifier fmt = Some (q, fmt') \<Longrightarrow> length fmt' \<le> length fmt"
  by (induction fmt rule: parse_qualifier.induct) (auto split: if_splits)

lemma parse_directive_length: "parse_directive fmt args = Some (d, fmt', args') \<Longrightarrow> length fmt' \<le> length fmt"
  unfolding parse_directive_def by (auto simp: bind_eq_Some_conv dest!: parse_length)

lemma print_directive_length: "print_directive lim d fmt args out = Some (fmt', args', out') \<Longrightarrow> length fmt' \<le> length fmt"
  by (cases fmt) (auto simp: bind_eq_Some_conv Let_def split: if_splits prod.splits)

function vsnprintf_loop :: "nat \<Rightarrow> u8 list \<Rightarrow> vararg list \<Rightarrow> out \<Rightarrow> out option" where
  "vsnprintf_loop lim [] args out = None"
| "vsnprintf_loop lim (c # fmt) args out =
     (if c = 0 then Some out
      else if c \<noteq> CH_percent then vsnprintf_loop lim fmt args (put lim c out)
      else (case parse_directive fmt args of
              None \<Rightarrow> None
            | Some (d, fmt1, args1) \<Rightarrow>
                (case print_directive lim d fmt1 args1 out of
                   None \<Rightarrow> None
                 | Some (fmt2, args2, out) \<Rightarrow> vsnprintf_loop lim fmt2 args2 out)))"
  by pat_completeness auto
termination
  by (relation "measure (\<lambda>(lim, fmt, args, out). length fmt)") (auto dest!: parse_directive_length print_directive_length)

definition rt_vsnprintf :: "nat \<Rightarrow> u32 \<Rightarrow> u8 list \<Rightarrow> vararg list \<Rightarrow> bytes \<Rightarrow> (nat \<times> bytes) option" where
  "rt_vsnprintf buf sz fmt args f = do {
     let lim = (buf + unat sz) mod 2 ^ 32;
     let (lim, sz) = (if lim < buf then (2 ^ 32 - 1, of_nat (2 ^ 32 - 1 - buf)) else (lim, sz));
     out \<leftarrow> vsnprintf_loop lim fmt args \<lparr>out_str = buf, out_mem = f\<rparr>;
     let f =
       (if sz > 0 then
          if out_str out < lim then (out_mem out)(out_str out := 0) else (out_mem out)(lim - 1 := 0)
        else out_mem out);
     Some (out_str out - buf, f)
   }"

definition rt_snprintf :: "nat \<Rightarrow> u32 \<Rightarrow> u8 list \<Rightarrow> vararg list \<Rightarrow> bytes \<Rightarrow> (nat \<times> bytes) option" where
  "rt_snprintf buf sz fmt args f = rt_vsnprintf buf sz fmt args f"

definition rt_vsprintf :: "nat \<Rightarrow> u8 list \<Rightarrow> vararg list \<Rightarrow> bytes \<Rightarrow> (nat \<times> bytes) option" where
  "rt_vsprintf buf format arg_ptr f = rt_vsnprintf buf (- 1) format arg_ptr f"

definition rt_sprintf :: "nat \<Rightarrow> u8 list \<Rightarrow> vararg list \<Rightarrow> bytes \<Rightarrow> (nat \<times> bytes) option" where
  "rt_sprintf buf format args f = rt_vsprintf buf format args f"

text \<open>
  \<^verbatim>\<open>rt_kprintf\<close> with a buffer of \<open>N\<close> bytes (\<^verbatim>\<open>RT_CONSOLEBUF_SIZE\<close>) at \<open>rt_log_buf\<close>. The result has the bytes that the console
  gets: a console device is written \<^verbatim>\<open>length\<close> bytes, \<^verbatim>\<open>rt_hw_console_output\<close> of the board gets the string in the buffer.
\<close>

definition rt_kprintf :: "nat \<Rightarrow> u32 \<Rightarrow> bool \<Rightarrow> u8 list \<Rightarrow> vararg list \<Rightarrow> bytes \<Rightarrow> (u32 \<times> u8 list \<times> bytes) option" where
  "rt_kprintf rt_log_buf N console_device fmt args f = do {
     (n, f) \<leftarrow> rt_vsnprintf rt_log_buf (N - 1) fmt args f;
     let len = of_nat n;
     let len = (if len > N - 1 then N - 1 else len);
     let written = (if console_device then map f [rt_log_buf..<rt_log_buf + unat len] else zstr (map f [rt_log_buf..<rt_log_buf + unat N]));
     Some (len, written, f)
   }"

subsection \<open>The characters of the output\<close>

text \<open>
  The specification: what a format prints, as a list of characters without buffer and limit. A number has the digits of its numeral.
\<close>

fun numeral_digits :: "nat \<Rightarrow> nat \<Rightarrow> nat list" where
  "numeral_digits b n = (if n < b \<or> b < 2 then [n] else numeral_digits b (n div b) @ [n mod b])"

declare numeral_digits.simps [simp del]

definition has :: "u8 \<Rightarrow> u8 \<Rightarrow> bool" where
  "has flags k \<longleftrightarrow> flags AND k \<noteq> 0"

definition spaces :: "int \<Rightarrow> u8 list" where
  "spaces n = replicate (nat n) CH_space"

definition zeros :: "int \<Rightarrow> u8 list" where
  "zeros n = replicate (nat n) CH_0"

definition sign_chars :: "u8 \<Rightarrow> u32 \<Rightarrow> u8 list" where
  "sign_chars flags num =
     (if \<not> has flags SIGN then []
      else if sint num < 0 then [CH_minus]
      else if has flags PLUS then [CH_plus]
      else if has flags SPACE then [CH_space]
      else [])"

definition prefix_chars :: "u8 \<Rightarrow> u8 \<Rightarrow> u8 list" where
  "prefix_chars flags base =
     (if \<not> has flags SPECIAL then []
      else if base = 8 then [CH_0]
      else if base = 16 then [CH_0, if has flags LARGE then CH_X else CH_x]
      else [])"

definition digit_chars :: "u8 \<Rightarrow> u8 \<Rightarrow> u32 \<Rightarrow> u8 list" where
  "digit_chars flags base num =
     map (\<lambda>d. (if has flags LARGE then large_digits else small_digits) ! d)
       (numeral_digits (if base = 10 then 10 else 16) (if has flags SIGN then nat \<bar>sint num\<bar> else unat num))"

definition number_chars :: "u32 \<Rightarrow> u8 \<Rightarrow> int \<Rightarrow> int \<Rightarrow> u8 \<Rightarrow> u8 list" where
  "number_chars num base width precision flags =
     (let sign = sign_chars flags num;
          pre = prefix_chars flags base;
          ds = digit_chars flags base num;
          pad = width - int (length pre) - int (length sign) - max precision (int (length ds))
      in (if has flags LEFT \<or> has flags ZEROPAD then [] else spaces pad) @ sign @ pre
         @ (if \<not> has flags LEFT \<and> has flags ZEROPAD then zeros pad else [])
         @ zeros (precision - int (length ds)) @ (if precision = 0 then [] else ds)
         @ (if has flags LEFT then spaces pad else []))"

definition char_chars :: "directive \<Rightarrow> u8 \<Rightarrow> u8 list" where
  "char_chars d c = (if has (d_flags d) LEFT then c # spaces (d_width d - 1) else spaces (d_width d - 1) @ [c])"

definition string_chars :: "directive \<Rightarrow> u8 list option \<Rightarrow> u8 list option" where
  "string_chars d s =
     (let s = (case s of None \<Rightarrow> null_string | Some s \<Rightarrow> s);
          t = (if d_width d < 0 then zstr s else cstr (nat (d_width d)) s);
          t = (if d_precision d > 0 then take (nat (d_precision d)) t else t);
          pad = spaces (d_width d - int (length t))
      in if 0 \<in> set s \<or> 0 \<le> d_width d \<and> nat (d_width d) \<le> length s
         then Some (if has (d_flags d) LEFT then t @ pad else pad @ t) else None)"

fun directive_chars :: "directive \<Rightarrow> u8 list \<Rightarrow> vararg list \<Rightarrow> (u8 list \<times> vararg list \<times> u8 list) option" where
  "directive_chars d [] args = None"
| "directive_chars d (c # fmt) args =
     (if c = CH_c then do { (w, args) \<leftarrow> va_int args; Some (fmt, args, char_chars d (ucast w)) }
      else if c = CH_s then do { (s, args) \<leftarrow> va_str args; cs \<leftarrow> string_chars d s; Some (fmt, args, cs) }
      else if c = CH_p then do {
        (w, args) \<leftarrow> va_int args;
        Some (fmt, args, if d_width d = -1 then number_chars w 16 8 (d_precision d) (d_flags d OR ZEROPAD)
                         else number_chars w 16 (d_width d) (d_precision d) (d_flags d))
      }
      else if c = CH_percent then Some (fmt, args, [CH_percent])
      else if c = CH_o \<or> c = CH_X \<or> c = CH_x \<or> c = CH_d \<or> c = CH_i \<or> c = CH_u then do {
        let base = (if c = CH_o then 8 else if c = CH_X \<or> c = CH_x then 16 else 10);
        let flags = (if c = CH_X then d_flags d OR LARGE else if c = CH_d \<or> c = CH_i then d_flags d OR SIGN else d_flags d);
        (num, args) \<leftarrow> fetch_number (d_qualifier d) flags args;
        Some (fmt, args, number_chars num base (d_width d) (d_precision d) flags)
      }
      else if c \<noteq> 0 then Some (fmt, args, [CH_percent, c])
      else Some (c # fmt, args, [CH_percent]))"

lemma directive_chars_length: "directive_chars d fmt args = Some (fmt', args', cs) \<Longrightarrow> length fmt' \<le> length fmt"
  by (cases fmt) (auto simp: bind_eq_Some_conv Let_def split: if_splits)

function format_chars :: "u8 list \<Rightarrow> vararg list \<Rightarrow> u8 list option" where
  "format_chars [] args = None"
| "format_chars (c # fmt) args =
     (if c = 0 then Some []
      else if c \<noteq> CH_percent then map_option ((#) c) (format_chars fmt args)
      else (case parse_directive fmt args of
              None \<Rightarrow> None
            | Some (d, fmt1, args1) \<Rightarrow>
                (case directive_chars d fmt1 args1 of
                   None \<Rightarrow> None
                 | Some (fmt2, args2, cs) \<Rightarrow> map_option ((@) cs) (format_chars fmt2 args2))))"
  by pat_completeness auto
termination
  by (relation "measure (\<lambda>(fmt, args). length fmt)") (auto dest!: parse_directive_length directive_chars_length)

subsection \<open>The loops\<close>

definition puts :: "nat \<Rightarrow> u8 list \<Rightarrow> out \<Rightarrow> out" where
  "puts lim cs out = fold (put lim) cs out"

lemma puts_simps [simp]: "puts lim [] out = out" "puts lim (c # cs) out = puts lim cs (put lim c out)"
  by (simp_all add: puts_def)

lemma puts_append [simp]: "puts lim (xs @ ys) out = puts lim ys (puts lim xs out)"
  by (simp add: puts_def)

lemma put_while_eq: "put_while lim c l k out = (min k l - 1, puts lim (replicate (nat (k - l)) c) out)"
proof (induction lim c l k out rule: put_while.induct)
  case (1 lim c l k out)
  have "nat (k - l) = Suc (nat (k - 1 - l))" if "l < k" using that by simp
  then show ?case using 1 by (subst put_while.simps) auto
qed

lemma put_while_pre_eq: "put_while_pre lim c k out = (min k 1 - 1, puts lim (replicate (nat (k - 1)) c) out)"
proof (induction lim c k out rule: put_while_pre.induct)
  case (1 lim c k out)
  have "nat (k - 1) = Suc (nat (k - 1 - 1))" if "1 < k" using that by simp
  then show ?case using 1 by (subst put_while_pre.simps) auto
qed

lemma put_tmp_eq: "i \<le> length tmp \<Longrightarrow> put_tmp lim tmp i p out = (if p = 0 then out else puts lim (rev (take i tmp)) out)"
  by (induction lim tmp i p out rule: put_tmp.induct) (auto simp: take_Suc_conv_app_nth)

lemma length_numeral_digits: "n < b ^ k \<Longrightarrow> 0 < k \<Longrightarrow> 1 < b \<Longrightarrow> length (numeral_digits b n) \<le> k"
proof (induction b n arbitrary: k rule: numeral_digits.induct)
  case (1 b n)
  show ?case
  proof (cases "n < b")
    case True
    then show ?thesis using 1(3) by (simp add: numeral_digits.simps [of b n])
  next
    case False
    then have "k \<noteq> 1" using 1(2) by auto
    then obtain j where j: "k = Suc j" "0 < j" using 1(3) by (cases k) auto
    then have "n div b < b ^ j" using 1(2) by (simp add: less_mult_imp_div_less ac_simps)
    then show ?thesis using 1(1) [OF _ _ j(2)] 1(4) False j(1) by (simp add: numeral_digits.simps [of b n])
  qed
qed

lemma numeral_digits_bound: "1 < b \<Longrightarrow> d \<in> set (numeral_digits b n) \<Longrightarrow> d < b"
proof (induction b n rule: numeral_digits.induct)
  case (1 b n)
  then show ?case by (cases "n < b") (auto simp: numeral_digits.simps [of b n])
qed

lemma numeral_digits_value: "1 < b \<Longrightarrow> foldl (\<lambda>a d. a * b + d) 0 (numeral_digits b n) = n"
proof (induction b n rule: numeral_digits.induct)
  case (1 b n)
  then show ?case by (cases "n < b") (auto simp: numeral_digits.simps [of b n])
qed

text \<open>The digits of a 32-bit number fit into the array: ten decimal or eight hexadecimal ones.\<close>

abbreviation radix :: "u8 \<Rightarrow> nat" where
  "radix base \<equiv> if base = 10 then 10 else 16"

lemma length_digits: "length (numeral_digits (radix base) (unat (num :: u32))) \<le> 10"
proof -
  have "unat num < 2 ^ LENGTH(32)" by (rule unsigned_less)
  then have "unat num < radix base ^ 10" by simp
  then show ?thesis by (rule length_numeral_digits) simp_all
qed

lemma unat_quotient: "unat (of_nat (unat (num :: u32) div k) :: u32) = unat num div k"
proof -
  have "unat num div k < 2 ^ LENGTH(32)" by (rule le_less_trans [OF div_le_dividend unsigned_less])
  then show ?thesis by (simp add: unat_of_nat take_bit_nat_eq_self)
qed

lemma divide_digit_eq: "divide_digit num base = (unat num mod radix base, of_nat (unat num div radix base))"
  by (simp add: divide_digit_def unat_mod unat_div word_unat_eq_iff [where 'a = 32] unat_quotient)

lemma tmp_digits_eq:
  assumes "num \<noteq> 0" "length tmp + length (numeral_digits (radix base) (unat num)) \<le> 16"
  shows "tmp_digits digits base num tmp = Some (tmp @ map ((!) digits) (rev (numeral_digits (radix base) (unat num))))"
  using assms
proof (induction digits base num tmp rule: tmp_digits.induct)
  case (1 digits base num tmp)
  let ?b = "radix base" and ?q = "of_nat (unat num div radix base) :: u32"
  have q: "unat ?q = unat num div ?b" by (rule unat_quotient)
  have step: "tmp_digits digits base num tmp = tmp_digits digits base ?q (tmp @ [digits ! (unat num mod ?b)])"
    using 1(2,3) by (subst tmp_digits.simps) (auto simp: divide_digit_eq numeral_digits.simps [of ?b "unat num"] split: if_splits)
  show ?case
  proof (cases "unat num < ?b")
    case True
    then have "?q = 0" using q by (simp add: word_unat_eq_iff)
    then show ?thesis unfolding step using True by (simp add: tmp_digits.simps numeral_digits.simps [of ?b "unat num"])
  next
    case False
    then have "?q \<noteq> 0" using q by (auto simp: word_unat_eq_iff)
    moreover have d: "numeral_digits ?b (unat num) = numeral_digits ?b (unat num div ?b) @ [unat num mod ?b]"
      using False by (simp add: numeral_digits.simps [of ?b "unat num"])
    ultimately show ?thesis unfolding step d
      using 1(1) [OF 1(2), of "(unat num mod ?b, ?q)" "unat num mod ?b" ?q] 1(3) q by (simp add: divide_digit_eq d)
  qed
qed

lemma sint_cases: "sint (x :: u32) = (if uint x < 2147483648 then uint x else uint x - 4294967296)"
proof -
  have s: "sint x = (uint x + 2147483648) mod 4294967296 - 2147483648" by (simp add: sint_uint signed_take_bit_eq_take_bit_shift take_bit_eq_mod)
  have b: "0 \<le> uint x" "uint x < 4294967296" using uint_lt2p [of x] by simp_all
  show ?thesis
  proof (cases "uint x < 2147483648")
    case False
    then have "(uint x + 2147483648) mod 4294967296 = uint x - 2147483648"
      using b by (intro int_mod_pos_eq [where q = 1]) simp_all
    then show ?thesis using s False by simp
  qed (use s b in simp)
qed

lemma unat_abs: "sint (num :: u32) < 0 \<Longrightarrow> unat (- num) = nat \<bar>sint num\<bar>" "\<not> sint num < 0 \<Longrightarrow> unat num = nat \<bar>sint num\<bar>"
proof -
  have b: "0 \<le> uint num" "uint num < 4294967296" using uint_lt2p [of num] by simp_all
  have m: "uint (- num) = 4294967296 - uint num" if "0 < uint num"
    using int_mod_pos_eq [of "- uint num" 4294967296 "- 1" "4294967296 - uint num"] that b by (simp add: uint_word_ariths)
  have "uint (- num) = \<bar>sint num\<bar>" if neg: "sint num < 0"
  proof -
    have "\<not> uint num < 2147483648" using neg b sint_cases [of num] by auto
    then have "sint num = uint num - 4294967296" "uint (- num) = 4294967296 - uint num" using m sint_cases [of num] by simp_all
    then show ?thesis using neg by linarith
  qed
  then show "sint num < 0 \<Longrightarrow> unat (- num) = nat \<bar>sint num\<bar>" by (simp only: unat_eq_nat_uint)
  have "uint num = \<bar>sint num\<bar>" if "\<not> sint num < 0"
  proof (cases "uint num < 2147483648")
    case True
    then show ?thesis using b(1) sint_cases [of num] by simp
  next
    case False
    then show ?thesis using b(2) that sint_cases [of num] by simp
  qed
  then show "\<not> sint num < 0 \<Longrightarrow> unat num = nat \<bar>sint num\<bar>" unfolding unat_eq_nat_uint by presburger
qed

text \<open>The flags as bits.\<close>

lemma more_flag_bits [simp]:
  "w AND 8 = 0 \<longleftrightarrow> \<not> bit (w :: u8) 3" "w AND 16 = 0 \<longleftrightarrow> \<not> bit w 4" "w AND 32 = 0 \<longleftrightarrow> \<not> bit w 5" "w AND 64 = 0 \<longleftrightarrow> \<not> bit w 6"
  using and_exp_zero_iff [of w 3] and_exp_zero_iff [of w 4] and_exp_zero_iff [of w 5] and_exp_zero_iff [of w 6] by simp_all

lemma has_bits [simp]:
  "has w 1 \<longleftrightarrow> bit w 0" "has w 2 \<longleftrightarrow> bit w 1" "has w 4 \<longleftrightarrow> bit w 2" "has w 8 \<longleftrightarrow> bit w 3" "has w 16 \<longleftrightarrow> bit w 4" "has w 32 \<longleftrightarrow> bit w 5" "has w 64 \<longleftrightarrow> bit w 6"
  by (simp_all add: has_def)

lemma pad_flags: "w AND (1 OR 16) = 0 \<longleftrightarrow> \<not> bit (w :: u8) 0 \<and> \<not> bit w 4"
proof -
  have "w AND (1 OR 16) = (w AND 1) OR (w AND 16)" by (rule bit.conj_disj_distrib)
  then show ?thesis by (simp add: or_eq_0_iff)
qed

lemma no_zeropad: "bit (w AND NOT (1 :: u8)) n \<longleftrightarrow> bit w n \<and> n \<noteq> 0"
  by (auto simp: bit_simps dest: bit_imp_le_length)

text \<open>The digits that the code stores, lowest first.\<close>

lemma stored_digits:
  "(if num = 0 then Some [48] else tmp_digits digits base num []) = Some (map ((!) digits) (rev (numeral_digits (radix base) (unat num))))"
  if "digits ! 0 = 48"
  using tmp_digits_eq [of num "[]" base digits] length_digits [of base num] that by (auto simp: numeral_digits.simps [of _ 0])

text \<open>The field, for flags without \<^verbatim>\<open>ZEROPAD\<close> beside \<^verbatim>\<open>LEFT\<close>.\<close>

definition field_chars :: "u8 list \<Rightarrow> u8 list \<Rightarrow> u8 list \<Rightarrow> int \<Rightarrow> int \<Rightarrow> bool \<Rightarrow> bool \<Rightarrow> u8 list" where
  "field_chars ds sign pre sz precision left zero =
     (let pad = sz - int (length sign) - max precision (int (length ds))
      in (if left \<or> zero then [] else spaces pad) @ sign @ pre @ (if \<not> left \<and> zero then zeros pad else [])
         @ zeros (precision - int (length ds)) @ (if precision = 0 then [] else ds) @ (if left then spaces pad else []))"

lemma print_field_eq:
  assumes "bit type 4 \<Longrightarrow> \<not> bit type 0"
  shows "print_field lim (rev ds) sign base sz p type out =
    puts lim (field_chars ds (if sign = 0 then [] else [sign]) (prefix_chars type base) sz p (bit type 4) (bit type 0)) out"
proof -
  have tmp: "put_tmp lim (rev ds) (length ds) p out = puts lim (if p = 0 then [] else ds) out" for out
    using put_tmp_eq [of "length ds" "rev ds" lim p out] by simp
  have pre: "(if bit type 5 then
      if base = 8 then put lim CH_0 out
      else if base = 16 then put lim (if bit type 6 then CH_X else CH_x) (put lim CH_0 out)
      else out else out) = puts lim (prefix_chars type base) out" for out
    by (simp add: prefix_chars_def)
  have mx: "(if int (length ds) > p then int (length ds) else p) = max p (int (length ds))" by simp
  have nz: "nat (max p (int (length ds)) - int (length ds)) = nat (p - int (length ds))" by simp
  have neg: "nat (min a 0 - 1 - b) = 0" "nat (min a 0 - 1) = 0" if "0 \<le> b" for a b using that by (simp_all add: min_def)
  note defs = print_field_def field_chars_def Let_def length_rev mx pad_flags flag_bits more_flag_bits not_not pre tmp put_while_eq prod.case fst_conv snd_conv nz
    spaces_def zeros_def
  consider "bit type 4" "\<not> bit type 0" | "\<not> bit type 4" "bit type 0" | "\<not> bit type 4" "\<not> bit type 0" using assms by blast
  then show ?thesis
  proof cases
    case 1
    then show ?thesis by (cases "sign = 0") (simp_all only: defs, simp_all add: algebra_simps)
  next
    case 2
    then show ?thesis by (cases "sign = 0") (simp_all only: defs, simp_all add: algebra_simps neg)
  next
    case 3
    then show ?thesis by (cases "sign = 0") (simp_all only: defs, simp_all add: algebra_simps neg)
  qed
qed

lemma print_number_eq:
  "print_number lim num base s precision type out = Some (puts lim (number_chars num base s precision type) out)"
proof -
  define digits where "digits = (if bit type 6 then large_digits else small_digits)"
  define type' where "type' = (if bit type 4 then type AND NOT 1 else type)"
  obtain sign num' where sn: "number_sign type' num = (sign, num')" by fastforce
  have bits: "bit type' n = bit type n" if "0 < n" for n using that no_zeropad [of type n] by (simp add: type'_def)
  have zero: "bit type' 0 \<longleftrightarrow> \<not> bit type 4 \<and> bit type 0" using no_zeropad [of type 0] by (simp add: type'_def)
  have d0: "digits ! 0 = 48" by (simp add: digits_def small_digits_def large_digits_def)
  have num': "unat num' = (if bit type 1 then nat \<bar>sint num\<bar> else unat num)"
    using sn unat_abs [of num] by (auto simp: number_sign_def bits split: if_splits)
  have ds: "digit_chars type base num = map ((!) digits) (numeral_digits (radix base) (unat num'))"
    unfolding num' digit_chars_def digits_def by simp
  have stored: "(if num' = 0 then Some [48] else tmp_digits digits base num' []) = Some (rev (digit_chars type base num))"
    unfolding ds stored_digits [OF d0] by (simp add: rev_map)
  have sign: "sign_chars type num = (if sign = 0 then [] else [sign])"
    using sn by (auto simp: sign_chars_def number_sign_def bits split: if_splits)
  have pre: "prefix_chars type' base = prefix_chars type base" by (simp add: prefix_chars_def bits)
  have sz: "(if bit type 5 then if base = 16 then s - 2 else if base = 8 then s - 1 else s else s) = s - int (length (prefix_chars type base))"
    by (simp add: prefix_chars_def)
  have "print_number lim num base s precision type out =
    Some (print_field lim (rev (digit_chars type base num)) sign base (s - int (length (prefix_chars type base))) precision type' out)"
    unfolding print_number_def Let_def more_flag_bits not_not digits_def [symmetric] type'_def [symmetric] bits [of 5, simplified] sn prod.case stored sz
    by simp
  also have "\<dots> = Some (puts lim (number_chars num base s precision type) out)"
    by (subst print_field_eq) (simp_all add: zero bits pre number_chars_def field_chars_def Let_def sign)
  finally show ?thesis .
qed

lemma print_char_eq: "print_char lim d c out = puts lim (char_chars d c) out"
  by (simp add: print_char_def char_chars_def put_while_pre_eq spaces_def min_def)

lemma field_strlen_eq:
  "field_strlen s len w =
    (if 0 \<in> set s \<or> len \<le> w \<and> nat (w - len) \<le> length s
     then Some (len + int (length (if w < len then zstr s else cstr (nat (w - len)) s))) else None)"
proof (induction s len w rule: field_strlen.induct)
  case (1 len w)
  then show ?case by (auto simp: zstr_def)
next
  case (2 c s len w)
  have "nat (w - len) = Suc (nat (w - (len + 1)))" if "len < w" using that by simp
  then show ?case using 2 by (cases "w < len"; cases "w = len") (auto simp: zstr_def)
qed

lemma put_string_eq: "n \<le> length s \<Longrightarrow> put_string lim s n out = Some (puts lim (take n s) out)"
  by (induction lim s n out rule: put_string.induct) auto

lemma take_zstr: "take (length (zstr s)) s = zstr s"
  by (simp add: zstr_def flip: takeWhile_eq_take)

lemma take_cstr: "take (length (cstr n s)) s = cstr n s"
proof (induction s arbitrary: n)
  case (Cons c s)
  then show ?case by (cases n) auto
qed simp

lemma print_string_eq: "print_string lim d s out = map_option (\<lambda>cs. puts lim cs out) (string_chars d s)"
proof -
  define S where "S = (case s of None \<Rightarrow> null_string | Some s \<Rightarrow> s)"
  define t0 where "t0 = (if d_width d < 0 then zstr S else cstr (nat (d_width d)) S)"
  define t where "t = (if d_precision d > 0 then take (nat (d_precision d)) t0 else t0)"
  let ?ok = "0 \<in> set S \<or> 0 \<le> d_width d \<and> nat (d_width d) \<le> length S"
  have len: "field_strlen S 0 (d_width d) = (if ?ok then Some (int (length t0)) else None)"
    using field_strlen_eq [of S 0 "d_width d"] by (simp add: t0_def)
  have t0: "take (length t0) S = t0" by (simp add: t0_def take_zstr take_cstr)
  have len_t: "(if d_precision d > 0 \<and> int (length t0) > d_precision d then d_precision d else int (length t0)) = int (length t)"
    by (auto simp: t_def min_def)
  have le: "length t \<le> length t0" "take (length t) t0 = t" by (simp_all add: t_def min_def)
  then have "take (length t) (take (length t0) S) = t" by (simp only: t0)
  then have t: "take (length t) S = t" using le(1) by (simp add: min_absorb1)
  have "length (take (length t) S) \<le> length S" by simp
  then have t_le: "length t \<le> length S" unfolding t .
  have put: "put_string lim S (length t) out = Some (puts lim t out)" for out using put_string_eq [OF t_le] t by simp
  have neg: "nat (min a b - 1 - b) = 0" for a b :: int by (simp add: min_def)
  have spec: "string_chars d s = (if ?ok then Some (if bit (d_flags d) 4 then t @ spaces (d_width d - int (length t)) else spaces (d_width d - int (length t)) @ t) else None)"
    unfolding string_chars_def Let_def S_def [symmetric] t0_def [symmetric] t_def [symmetric] by simp
  show ?thesis
    unfolding print_string_def spec Let_def S_def [symmetric] len
    by (cases "bit (d_flags d) 4") (simp_all add: len_t put_while_eq put neg spaces_def)
qed

lemma print_directive_eq:
  "print_directive lim d fmt args out = map_option (\<lambda>(fmt, args, cs). (fmt, args, puts lim cs out)) (directive_chars d fmt args)"
proof (cases fmt)
  case (Cons c fmt')
  show ?thesis
    unfolding Cons print_directive.simps directive_chars.simps if_distrib [where f = "map_option _"]
  proof (intro if_cong refl, goal_cases)
    case 1
    then show ?case by (cases "va_int args") (auto simp: print_char_eq)
  next
    case 2
    then show ?case by (cases "va_str args") (auto simp: print_string_eq map_option_case bind_eq_None_conv bind_eq_Some_conv split: option.splits)
  next
    case 3
    then show ?case by (cases "va_int args") (auto simp: print_number_eq)
  next
    case 5
    then show ?case by (simp add: print_number_eq Let_def option.case_eq_if Option.bind_eq_None_conv split: Option.bind_splits)
  qed simp_all
qed simp

lemma vsnprintf_loop_eq: "vsnprintf_loop lim fmt args out = map_option (\<lambda>cs. puts lim cs out) (format_chars fmt args)"
proof (induction fmt args arbitrary: out rule: format_chars.induct)
  case (2 c fmt args)
  then show ?case
    by (auto simp: print_directive_eq option.map_comp comp_def split: option.splits prod.splits)
qed simp

subsection \<open>The buffer\<close>

definition write_bytes :: "nat \<Rightarrow> u8 list \<Rightarrow> bytes \<Rightarrow> bytes" where
  "write_bytes a bs f = fill a (length bs) ((!) bs) f"

lemma puts_str [simp]: "out_str (puts lim cs out) = out_str out + length cs"
  by (induction cs arbitrary: out) (simp_all add: put_def)

lemma puts_mem: "out_mem (puts lim cs out) = write_bytes (out_str out) (take (lim - out_str out) cs) (out_mem out)"
proof (induction cs arbitrary: out)
  case Nil
  then show ?case by (auto simp: write_bytes_def)
next
  case (Cons c cs)
  show ?case
  proof
    fix x
    show "out_mem (puts lim (c # cs) out) x = write_bytes (out_str out) (take (lim - out_str out) (c # cs)) (out_mem out) x"
      using Cons [of "put lim c out"]
      by (auto simp: write_bytes_def fill_def put_def nth_Cons' take_Cons' Suc_le_eq)
  qed
qed

lemma write_bytes_snoc: "(write_bytes a bs f)(a + length bs := c) = write_bytes a (bs @ [c]) f"
  by (auto simp: write_bytes_def fill_def fun_eq_iff nth_append)

lemma write_bytes_cut:
  assumes "0 < n" "n \<le> length bs"
  shows "(write_bytes a (take n bs) f)(a + n - 1 := c) = write_bytes a (take (n - 1) bs @ [c]) f"
proof -
  obtain m where "n = Suc m" using assms(1) by (cases n) auto
  then show ?thesis using assms(2) by (auto simp: write_bytes_def fill_def fun_eq_iff nth_append)
qed

lemma vsnprintf_mem:
  assumes "buf < lim"
  shows "(let out = puts lim cs \<lparr>out_str = buf, out_mem = f\<rparr>
    in if out_str out < lim then (out_mem out)(out_str out := 0) else (out_mem out)(lim - 1 := 0)) =
      write_bytes buf (take (lim - buf - 1) cs @ [0]) f"
proof (cases "buf + length cs < lim")
  case True
  then show ?thesis using write_bytes_snoc [of buf cs f 0] unfolding Let_def puts_mem by simp
next
  case False
  then have "lim - buf \<le> length cs" "0 < lim - buf" "buf + (lim - buf) - 1 = lim - 1" using assms by simp_all
  then show ?thesis using False write_bytes_cut [of "lim - buf" cs buf f 0] unfolding Let_def puts_mem by simp
qed

lemma rt_vsnprintf_eq:
  assumes "buf + unat sz < 2 ^ 32"
  shows "rt_vsnprintf buf sz fmt args f =
    map_option (\<lambda>cs. (length cs, if sz = 0 then f else write_bytes buf (take (unat sz - 1) cs @ [0]) f)) (format_chars fmt args)"
proof -
  have lim: "(buf + unat sz) mod 2 ^ 32 = buf + unat sz" "\<not> buf + unat sz < buf" using assms by simp_all
  have "(if 0 < sz then let out = puts (buf + unat sz) cs \<lparr>out_str = buf, out_mem = f\<rparr>
      in if out_str out < buf + unat sz then (out_mem out)(out_str out := 0) else (out_mem out)(buf + unat sz - 1 := 0)
      else out_mem (puts (buf + unat sz) cs \<lparr>out_str = buf, out_mem = f\<rparr>)) =
    (if sz = 0 then f else write_bytes buf (take (unat sz - 1) cs @ [0]) f)" for cs
  proof (cases "sz = 0")
    case True
    then show ?thesis by (simp add: puts_mem write_bytes_def)
  next
    case False
    then have "0 < sz" "buf < buf + unat sz" by (simp_all add: word_neq_0_conv unat_gt_0)
    then show ?thesis using False vsnprintf_mem [of buf "buf + unat sz" cs f] by simp
  qed
  then show ?thesis
    unfolding rt_vsnprintf_def lim Let_def by (cases "format_chars fmt args") (simp_all only: vsnprintf_loop_eq lim, simp_all)
qed

lemma write_bytes_read: "map (write_bytes a bs f) [a..<a + length bs] = bs"
  by (rule nth_equalityI) (auto simp: write_bytes_def fill_def)




text \<open>\<^verbatim>\<open>rt_sprintf\<close> has no limit but the end of the address space.\<close>

lemma rt_sprintf_eq:
  assumes "0 < buf" "format_chars fmt args = Some cs" "buf + length cs < 2 ^ 32 - 1"
  shows "rt_sprintf buf fmt args f = Some (length cs, write_bytes buf (cs @ [0]) f)"
proof -
  have m: "unat (- 1 :: u32) = 2 ^ 32 - 1" by (simp add: unsigned_minus_1_eq_mask mask_eq_exp_minus_1)
  have "(buf + (2 ^ 32 - 1)) mod 2 ^ 32 = (buf - 1 + 2 ^ 32) mod 2 ^ 32" using assms(1) by (simp add: add.commute)
  also have "\<dots> = buf - 1" unfolding mod_add_self2 using assms(3) by (intro mod_less) simp
  finally have lim: "(buf + unat (- 1 :: u32)) mod 2 ^ 32 = buf - 1" unfolding m .
  have lt: "buf - 1 < buf" "buf < 2 ^ 32 - 1" using assms by simp_all
  have "unat (of_nat k :: u32) = k" if "k < 2 ^ 32" for k using that by (simp add: unat_of_nat take_bit_nat_eq_self)
  then have "unat (of_nat (2 ^ 32 - 1 - buf) :: u32) = 2 ^ 32 - 1 - buf" by simp
  then have sz: "(of_nat (2 ^ 32 - 1 - buf) :: u32) > 0" using lt(2) by (simp add: word_less_nat_alt)
  have t: "take (2 ^ 32 - 1 - buf - 1) cs = cs" using assms(3) by simp
  show ?thesis
    unfolding rt_sprintf_def rt_vsprintf_def rt_vsnprintf_def lim Let_def
    by (simp only: vsnprintf_loop_eq assms(2) option.map bind.bind_lunit lt(1) if_True prod.case sz vsnprintf_mem [OF lt(2), of cs f, unfolded t Let_def])
      (simp only: puts_str out.simps diff_add_inverse)
qed

subsection \<open>Numbers are read back\<close>

lemma digit_char:
  assumes "d < 10"
  shows "is_digit (small_digits ! d) \<and> uint (small_digits ! d) = 48 + int d"
proof -
  have "\<forall>d\<in>set [0..<10]. is_digit (small_digits ! d) \<and> uint (small_digits ! d) = 48 + int d" by code_simp
  then show ?thesis using assms by simp
qed

lemma horner_mono: "int (foldl (\<lambda>a d. a * 10 + d) i ds) \<ge> int i"
proof (induction ds arbitrary: i)
  case (Cons d ds)
  then show ?case using Cons [of "i * 10 + d"] by (simp add: order_trans [rotated])
qed simp

lemma skip_atoi_digits:
  assumes "\<forall>d\<in>set ds. d < 10" "int (foldl (\<lambda>a d. a * 10 + d) i ds) < 2 ^ 30" "\<not> is_digit c"
  shows "skip_atoi (int i) (map ((!) small_digits) ds @ c # s) = Some (int (foldl (\<lambda>a d. a * 10 + d) i ds), c # s)"
  using assms
proof (induction ds arbitrary: i)
  case (Cons d ds)
  have "int (i * 10 + d) < 2 ^ 30" using horner_mono [of "i * 10 + d" ds] Cons(3) by simp
  moreover have "skip_atoi (int (i * 10 + d)) (map ((!) small_digits) ds @ c # s) = Some (int (foldl (\<lambda>a d. a * 10 + d) (i * 10 + d) ds), c # s)"
    by (rule Cons(1)) (use Cons(2-4) in auto)
  moreover have "int i * 10 + uint (small_digits ! d) - 48 = int (i * 10 + d)" using digit_char [of d] Cons(2) by simp
  ultimately show ?case using digit_char [of d] Cons(2) by (simp only: skip_atoi.simps list.map append_Cons Let_def foldl.simps) simp
qed simp

lemma unsigned_chars: "format_chars [37, 117, 0] [Int_arg num] = Some (map ((!) small_digits) (numeral_digits 10 (unat num)))"
  by (simp add: parse_directive_def is_digit_def fetch_number_def number_chars_def sign_chars_def prefix_chars_def digit_chars_def spaces_def zeros_def has_def)

text \<open>
  C38. Numbers are read back. \<^verbatim>\<open>rt_snprintf\<close> with the format \<^verbatim>\<open>%u\<close> writes at most ten characters, all digits of the number; \<^verbatim>\<open>skip_atoi\<close>, which the
  formatter uses for its own widths, reads the number back from the buffer and stops at the terminating zero.
\<close>

theorem number_roundtrip:
  assumes "num < 2 ^ 30" "buf + 11 < 2 ^ 32"
  shows "\<exists>n f'. rt_snprintf buf 11 [37, 117, 0] [Int_arg num] f = Some (n, f') \<and> n \<le> 10 \<and>
    skip_atoi 0 (map f' [buf..<buf + n + 1]) = Some (uint num, [0])"
proof -
  let ?ds = "numeral_digits 10 (unat num)" and ?cs = "map ((!) small_digits) (numeral_digits 10 (unat num))"
  have n: "length ?ds \<le> 10" using length_digits [of 10 num] by simp
  then have t: "take (unat (11 :: u32) - 1) ?cs = ?cs" by simp
  have b: "buf + unat (11 :: u32) < 2 ^ 32" using assms(2) by simp
  have v: "foldl (\<lambda>a d. a * 10 + d) 0 ?ds = unat num" by (rule numeral_digits_value) simp
  have "unat num < 2 ^ 30" using assms(1) by (simp add: word_less_nat_alt)
  then have "int (unat num) < int (2 ^ 30)" by (simp only: of_nat_less_iff)
  then have lt: "int (foldl (\<lambda>a d. a * 10 + d) 0 ?ds) < 2 ^ 30" unfolding v by simp
  have bnd: "\<forall>d\<in>set ?ds. d < 10" using numeral_digits_bound [of 10 _ "unat num"] by simp
  have nd: "\<not> is_digit 0" by (simp add: is_digit_def)
  have "skip_atoi 0 (?cs @ 0 # []) = Some (int (foldl (\<lambda>a d. a * 10 + d) 0 ?ds), [0])"
    using skip_atoi_digits [OF bnd lt nd, of "[]"] unfolding semiring_1_class.of_nat_0 .
  moreover have "rt_snprintf buf 11 [37, 117, 0] [Int_arg num] f = Some (length ?cs, write_bytes buf (?cs @ [0]) f)"
    unfolding rt_snprintf_def rt_vsnprintf_eq [OF b] unsigned_chars option.map t by simp
  moreover have "map (write_bytes buf (?cs @ [0]) f) [buf..<buf + length ?cs + 1] = ?cs @ 0 # []"
    using write_bytes_read [of buf "?cs @ [0]" f] by (simp only: length_append add.assoc list.size(3,4) add_0_left One_nat_def)
  moreover have "int (unat num) = uint num" by simp
  ultimately show ?thesis using n
    by (intro exI [of _ "length ?cs"] exI [of _ "write_bytes buf (?cs @ [0]) f"]) (simp only: v length_map simp_thms)
qed

theorem number_roundtrip_witness:
  "\<exists>n f'. rt_snprintf 64 11 [37, 117, 0] [Int_arg 4711] (\<lambda>_. 0) = Some (n, f') \<and> n \<le> 10 \<and> skip_atoi 0 (map f' [64..<64 + n + 1]) = Some (4711, [0])"
  using number_roundtrip [of 4711 64 "\<lambda>_. 0"] by simp

text \<open>
  Where the formatter departs from the C standard: \<^verbatim>\<open>%o\<close> prints hexadecimal digits (27 is \<^verbatim>\<open>1b\<close>), \<^verbatim>\<open>%.0d\<close> prints nothing for 5,
  and \<^verbatim>\<open>%2s\<close> cuts a string of three characters.
\<close>

lemma format_departures:
  "format_chars [37, 111, 0] [Int_arg 27] = Some [49, 98]"
  "format_chars [37, 46, 48, 100, 0] [Int_arg 5] = Some []"
  "format_chars [37, 50, 115, 0] [Str_arg (Some [97, 98, 99, 0])] = Some [97, 98]"
  by code_simp+

subsection \<open>The console\<close>

lemma write_bytes_prefix: "k \<le> length bs \<Longrightarrow> map (write_bytes a bs f) [a..<a + k] = take k bs"
  by (rule nth_equalityI) (auto simp: write_bytes_def fill_def)

lemma zstr_terminated: "0 \<notin> set cs \<Longrightarrow> zstr (cs @ 0 # r) = cs"
  by (induction cs) (auto simp: zstr_def)

lemma zstr_written:
  assumes "0 \<notin> set cs" "length cs < n"
  shows "zstr (map (write_bytes a (cs @ [0]) f) [a..<a + n]) = cs"
proof -
  let ?g = "write_bytes a (cs @ [0]) f" and ?k = "length cs + 1"
  have "[a..<a + n] = [a..<a + ?k] @ [a + ?k..<a + n]" using upt_add_eq_append [of a "a + ?k" "n - ?k"] assms(2) by simp
  then have "map ?g [a..<a + n] = (cs @ [0]) @ map ?g [a + ?k..<a + n]" using write_bytes_prefix [of ?k "cs @ [0]" a f] by simp
  then show ?thesis using zstr_terminated [OF assms(1)] by simp
qed

text \<open>
  C39. \<^verbatim>\<open>rt_kprintf\<close> with a buffer of \<open>N\<close> bytes. Output shorter than \<open>N - 1\<close> reaches the console unchanged. Longer output is cut: the console output
  function of the board gets the first \<open>N - 2\<close> characters, but a console device gets the terminating zero as well.
\<close>

theorem rt_kprintf_output:
  assumes "2 \<le> N" "buf + unat N < 2 ^ 32" "format_chars fmt args = Some cs" "length cs < 2 ^ 32" "0 \<notin> set cs"
  shows "\<exists>f'. rt_kprintf buf N dev fmt args f = Some (of_nat (min (length cs) (unat N - 1)),
      if length cs < unat N - 1 then cs else if dev then take (unat N - 2) cs @ [0] else take (unat N - 2) cs, f')"
proof -
  let ?n = "unat N - 1" and ?t = "take (unat N - 2) cs" and ?len = "of_nat (length cs) :: u32"
  have N: "2 \<le> unat N" "unat (N - 1) = ?n" "N - 1 \<noteq> 0" using assms(1) by (auto simp: word_le_nat_alt unat_minus_one word_unat_eq_iff unat_sub_if')
  have len: "unat ?len = length cs" using assms(4) by (simp add: unat_of_nat take_bit_nat_eq_self)
  define g where "g = write_bytes buf (?t @ [0]) f"
  have v: "rt_vsnprintf buf (N - 1) fmt args f = Some (length cs, g)"
    using rt_vsnprintf_eq [of buf "N - 1" fmt args f] assms(2,3) N by (simp add: g_def numeral_2_eq_2)
  have cut: "unat (if N - 1 < ?len then N - 1 else ?len) = min (length cs) ?n" using len N(2) by (simp add: word_less_nat_alt)
  then have ret: "(if N - 1 < ?len then N - 1 else ?len) = of_nat (min (length cs) ?n)" by (simp only: flip: cut) simp
  obtain M where M: "unat N = M + 2" using le_Suc_ex [OF N(1)] by auto
  have dev: "map g [buf..<buf + min (length cs) ?n] = (if length cs < ?n then cs else ?t @ [0])"
  proof (cases "length cs < M + 1")
    case True
    then show ?thesis using write_bytes_prefix [of "length cs" "cs @ [0]" buf f] by (simp add: g_def M)
  next
    case False
    then show ?thesis using write_bytes_prefix [of "M + 1" "take M cs @ [0]" buf f] by (simp add: g_def M)
  qed
  have "0 \<notin> set ?t" "length ?t < unat N" using assms(5) N(1) by (auto dest: in_set_takeD)
  then have hw: "zstr (map g [buf..<buf + unat N]) = ?t" unfolding g_def by (rule zstr_written)
  show ?thesis unfolding rt_kprintf_def v Let_def bind.bind_lunit prod.case cut unfolding ret hw dev by (cases dev) simp_all
qed

theorem rt_kprintf_output_witness:
  "\<exists>f'. rt_kprintf 64 4 True [97, 98, 37, 99, 0] [Int_arg 99] (\<lambda>_. 0) = Some (3, [97, 98, 0], f')"
proof -
  have "format_chars [97, 98, 37, 99, 0] [Int_arg 99] = Some [97, 98, 99]" by code_simp
  then show ?thesis using rt_kprintf_output [of 4 64 "[97, 98, 37, 99, 0]" "[Int_arg 99]" "[97, 98, 99]" True "\<lambda>_. 0"] by simp
qed

end
