(* ===== verification/RT_Device.thy ===== *)
theory RT_Device
  imports RT_Heap
begin

section \<open>Devices: \<^verbatim>\<open>src/device.c\<close>\<close>

text \<open>
  The device framework: registration in the object container, the reference count of open calls, and the dispatch to
  the functions of a driver. A driver is not part of the kernel: its functions are a parameter (\<open>device_ops\<close>), and what the kernel relies on is the
  locale \<open>device_driver\<close>. The locale is interpreted on the driver for pins, \<^verbatim>\<open>components/drivers/misc/pin.c\<close>. The theory also holds the choice of the
  console device of \<^verbatim>\<open>src/kservice.c\<close>.
\<close>

subsection \<open>Operations\<close>

abbreviation (input) RT_EBUSY :: rt_err where "RT_EBUSY \<equiv> 7"
abbreviation (input) RT_DEVICE_FLAG_RDWR :: u16 where "RT_DEVICE_FLAG_RDWR \<equiv> 0x003"
abbreviation (input) RT_DEVICE_FLAG_STANDALONE :: u16 where "RT_DEVICE_FLAG_STANDALONE \<equiv> 0x008"
abbreviation (input) RT_DEVICE_FLAG_ACTIVATED :: u16 where "RT_DEVICE_FLAG_ACTIVATED \<equiv> 0x010"
abbreviation (input) RT_DEVICE_FLAG_STREAM :: u16 where "RT_DEVICE_FLAG_STREAM \<equiv> 0x040"
abbreviation (input) RT_DEVICE_OFLAG_CLOSE :: u16 where "RT_DEVICE_OFLAG_CLOSE \<equiv> 0x000"
abbreviation (input) RT_DEVICE_OFLAG_RDWR :: u16 where "RT_DEVICE_OFLAG_RDWR \<equiv> 0x003"
abbreviation (input) RT_DEVICE_OFLAG_OPEN :: u16 where "RT_DEVICE_OFLAG_OPEN \<equiv> 0x008"
abbreviation (input) RT_DEVICE_OFLAG_MASK :: u16 where "RT_DEVICE_OFLAG_MASK \<equiv> 0xf0f"

text \<open>The functions of a driver; \<open>None\<close> is a null pointer. A buffer is the list of its bytes, or \<open>None\<close> for a null pointer.\<close>

record device_ops =
  op_init :: "(nat \<Rightarrow> kernel \<Rightarrow> (rt_err \<times> kernel) option) option"
  op_open :: "(nat \<Rightarrow> u16 \<Rightarrow> kernel \<Rightarrow> (rt_err \<times> kernel) option) option"
  op_close :: "(nat \<Rightarrow> kernel \<Rightarrow> (rt_err \<times> kernel) option) option"
  op_read :: "(nat \<Rightarrow> int \<Rightarrow> u8 list option \<Rightarrow> u32 \<Rightarrow> kernel \<Rightarrow> (u32 \<times> u8 list option \<times> kernel) option) option"
  op_write :: "(nat \<Rightarrow> int \<Rightarrow> u8 list option \<Rightarrow> u32 \<Rightarrow> kernel \<Rightarrow> (u32 \<times> kernel) option) option"
  op_control :: "(nat \<Rightarrow> int \<Rightarrow> u8 list option \<Rightarrow> kernel \<Rightarrow> (rt_err \<times> kernel) option) option"

definition upd_dev :: "nat \<Rightarrow> (rt_device \<Rightarrow> rt_device) \<Rightarrow> kernel \<Rightarrow> kernel" where
  "upd_dev dev f s = s\<lparr>devices := (devices s)(dev := f (devices s dev))\<rparr>"

definition rt_device_find :: "u8 list \<Rightarrow> kernel \<Rightarrow> (nat option \<times> kernel) option" where
  "rt_device_find name s = do {
     (r, s) \<leftarrow> rt_object_find (Some name) RT_Object_Class_Device s;
     Some (case r of Some (ODevice d) \<Rightarrow> Some d | _ \<Rightarrow> None, s)
   }"

definition rt_device_register :: "nat option \<Rightarrow> u8 list \<Rightarrow> u16 \<Rightarrow> kernel \<Rightarrow> (rt_err \<times> kernel) option" where
  "rt_device_register d name flags s =
     (case d of
        None \<Rightarrow> Some (- RT_ERROR, s)
      | Some dev \<Rightarrow> do {
          (found, s) \<leftarrow> rt_device_find name s;
          if found \<noteq> None then Some (- RT_ERROR, s)
          else do {
            s \<leftarrow> rt_object_init (ODevice dev) RT_Object_Class_Device name s;
            Some (RT_EOK, upd_dev dev (\<lambda>d. d\<lparr>dev_flag := flags, dev_open_flag := 0, dev_ref_count := 0\<rparr>) s)
          }
        })"

definition rt_device_unregister :: "nat \<Rightarrow> kernel \<Rightarrow> (rt_err \<times> kernel) option" where
  "rt_device_unregister dev s = do {
     RT_ASSERT (rt_object_get_type (ODevice dev) s = RT_Object_Class_Device);
     RT_ASSERT (rt_object_is_systemobject (ODevice dev) s);
     Some (RT_EOK, rt_object_detach (ODevice dev) s)
   }"

text \<open>A \<^verbatim>\<open>struct rt_device\<close> has 68 bytes in this configuration.\<close>

definition rt_device_create :: "int \<Rightarrow> u32 \<Rightarrow> kernel \<Rightarrow> (nat option \<times> kernel) option" where
  "rt_device_create type attach_size s = do {
     let sz = RT_ALIGN 68 RT_ALIGN_SIZE;
     let attach_size = RT_ALIGN attach_size RT_ALIGN_SIZE;
     (device, s) \<leftarrow> rt_malloc (sz + attach_size) s;
     (case device of
        None \<Rightarrow> Some (None, s)
      | Some d \<Rightarrow> Some (device, upd_dev d (\<lambda>x. x\<lparr>dev_type := type\<rparr>) (clear_struct (ODevice d) s)))
   }"

definition rt_device_destroy :: "nat \<Rightarrow> kernel \<Rightarrow> kernel option" where
  "rt_device_destroy dev s = do {
     RT_ASSERT (rt_object_get_type (ODevice dev) s = RT_Object_Class_Device);
     RT_ASSERT (\<not> rt_object_is_systemobject (ODevice dev) s);
     rt_free (Some dev) (rt_object_detach (ODevice dev) s)
   }"

definition rt_device_init :: "device_ops \<Rightarrow> nat \<Rightarrow> kernel \<Rightarrow> (rt_err \<times> kernel) option" where
  "rt_device_init ops dev s =
     (case op_init ops of
        None \<Rightarrow> Some (RT_EOK, s)
      | Some f \<Rightarrow>
          if dev_flag (devices s dev) AND RT_DEVICE_FLAG_ACTIVATED = 0 then do {
            (result, s) \<leftarrow> f dev s;
            if result \<noteq> RT_EOK then Some (result, s)
            else Some (result, upd_dev dev (\<lambda>d. d\<lparr>dev_flag := dev_flag d OR RT_DEVICE_FLAG_ACTIVATED\<rparr>) s)
          }
          else Some (RT_EOK, s))"

text \<open>The first part of \<^verbatim>\<open>rt_device_open\<close>: a device that is not activated is initialised.\<close>

definition device_activate :: "device_ops \<Rightarrow> nat \<Rightarrow> kernel \<Rightarrow> (rt_err \<times> kernel) option" where
  "device_activate ops dev s =
     (if dev_flag (devices s dev) AND RT_DEVICE_FLAG_ACTIVATED = 0 then do {
        (result, s) \<leftarrow> (case op_init ops of None \<Rightarrow> Some (RT_EOK, s) | Some f \<Rightarrow> f dev s);
        if result \<noteq> RT_EOK then Some (result, s)
        else Some (RT_EOK, upd_dev dev (\<lambda>d. d\<lparr>dev_flag := dev_flag d OR RT_DEVICE_FLAG_ACTIVATED\<rparr>) s)
      }
      else Some (RT_EOK, s))"

definition rt_device_open :: "device_ops \<Rightarrow> nat \<Rightarrow> u16 \<Rightarrow> kernel \<Rightarrow> (rt_err \<times> kernel) option" where
  "rt_device_open ops dev oflag s = do {
     RT_ASSERT (rt_object_get_type (ODevice dev) s = RT_Object_Class_Device);
     (result, s) \<leftarrow> device_activate ops dev s;
     if result \<noteq> RT_EOK then Some (result, s)
     else if dev_flag (devices s dev) AND RT_DEVICE_FLAG_STANDALONE \<noteq> 0 \<and> dev_open_flag (devices s dev) AND RT_DEVICE_OFLAG_OPEN \<noteq> 0
     then Some (- RT_EBUSY, s)
     else do {
       (result, s) \<leftarrow>
         (case op_open ops of
            Some f \<Rightarrow> f dev oflag s
          | None \<Rightarrow> Some (RT_EOK, upd_dev dev (\<lambda>d. d\<lparr>dev_open_flag := oflag AND RT_DEVICE_OFLAG_MASK\<rparr>) s));
       if result = RT_EOK \<or> result = - RT_ENOSYS then do {
         let s = upd_dev dev (\<lambda>d. d\<lparr>dev_open_flag := dev_open_flag d OR RT_DEVICE_OFLAG_OPEN, dev_ref_count := dev_ref_count d + 1\<rparr>) s;
         RT_ASSERT (dev_ref_count (devices s dev) \<noteq> 0);
         Some (result, s)
       }
       else Some (result, s)
     }
   }"

definition rt_device_close :: "device_ops \<Rightarrow> nat \<Rightarrow> kernel \<Rightarrow> (rt_err \<times> kernel) option" where
  "rt_device_close ops dev s = do {
     RT_ASSERT (rt_object_get_type (ODevice dev) s = RT_Object_Class_Device);
     if dev_ref_count (devices s dev) = 0 then Some (- RT_ERROR, s)
     else do {
       let s = upd_dev dev (\<lambda>d. d\<lparr>dev_ref_count := dev_ref_count d - 1\<rparr>) s;
       if dev_ref_count (devices s dev) \<noteq> 0 then Some (RT_EOK, s)
       else do {
         (result, s) \<leftarrow> (case op_close ops of None \<Rightarrow> Some (RT_EOK, s) | Some f \<Rightarrow> f dev s);
         if result = RT_EOK \<or> result = - RT_ENOSYS
         then Some (result, upd_dev dev (\<lambda>d. d\<lparr>dev_open_flag := RT_DEVICE_OFLAG_CLOSE\<rparr>) s)
         else Some (result, s)
       }
     }
   }"

definition rt_device_read :: "device_ops \<Rightarrow> nat \<Rightarrow> int \<Rightarrow> u8 list option \<Rightarrow> u32 \<Rightarrow> kernel \<Rightarrow> (u32 \<times> u8 list option \<times> kernel) option" where
  "rt_device_read ops dev pos buffer sz s = do {
     RT_ASSERT (rt_object_get_type (ODevice dev) s = RT_Object_Class_Device);
     if dev_ref_count (devices s dev) = 0 then Some (0, buffer, rt_set_errno (- RT_ERROR) s)
     else case op_read ops of
       Some f \<Rightarrow> f dev pos buffer sz s
     | None \<Rightarrow> Some (0, buffer, rt_set_errno (- RT_ENOSYS) s)
   }"

definition rt_device_write :: "device_ops \<Rightarrow> nat \<Rightarrow> int \<Rightarrow> u8 list option \<Rightarrow> u32 \<Rightarrow> kernel \<Rightarrow> (u32 \<times> kernel) option" where
  "rt_device_write ops dev pos buffer sz s = do {
     RT_ASSERT (rt_object_get_type (ODevice dev) s = RT_Object_Class_Device);
     if dev_ref_count (devices s dev) = 0 then Some (0, rt_set_errno (- RT_ERROR) s)
     else case op_write ops of
       Some f \<Rightarrow> f dev pos buffer sz s
     | None \<Rightarrow> Some (0, rt_set_errno (- RT_ENOSYS) s)
   }"

definition rt_device_control :: "device_ops \<Rightarrow> nat \<Rightarrow> int \<Rightarrow> u8 list option \<Rightarrow> kernel \<Rightarrow> (rt_err \<times> kernel) option" where
  "rt_device_control ops dev cmd arg s = do {
     RT_ASSERT (rt_object_get_type (ODevice dev) s = RT_Object_Class_Device);
     (case op_control ops of
        Some f \<Rightarrow> f dev cmd arg s
      | None \<Rightarrow> Some (- RT_ENOSYS, s))
   }"

definition rt_device_set_rx_indicate :: "nat \<Rightarrow> nat option \<Rightarrow> kernel \<Rightarrow> (rt_err \<times> kernel) option" where
  "rt_device_set_rx_indicate dev rx_ind s = do {
     RT_ASSERT (rt_object_get_type (ODevice dev) s = RT_Object_Class_Device);
     Some (RT_EOK, upd_dev dev (\<lambda>d. d\<lparr>dev_rx_indicate := rx_ind\<rparr>) s)
   }"

definition rt_device_set_tx_complete :: "nat \<Rightarrow> nat option \<Rightarrow> kernel \<Rightarrow> (rt_err \<times> kernel) option" where
  "rt_device_set_tx_complete dev tx_done s = do {
     RT_ASSERT (rt_object_get_type (ODevice dev) s = RT_Object_Class_Device);
     Some (RT_EOK, upd_dev dev (\<lambda>d. d\<lparr>dev_tx_complete := tx_done\<rparr>) s)
   }"

text \<open>The static variable \<^verbatim>\<open>_console_device\<close> of \<^verbatim>\<open>kservice.c\<close> is the argument \<open>console\<close>; every device has its own driver.\<close>

definition rt_console_set_device ::
  "(nat \<Rightarrow> device_ops) \<Rightarrow> u8 list \<Rightarrow> nat option \<Rightarrow> kernel \<Rightarrow> (nat option \<times> nat option \<times> kernel) option" where
  "rt_console_set_device ops name console s = do {
     let old_device = console;
     (new_device, s) \<leftarrow> rt_device_find name s;
     if new_device = old_device then Some (None, console, s)
     else case new_device of
       None \<Rightarrow> Some (old_device, console, s)
     | Some new \<Rightarrow> do {
         s \<leftarrow> (case console of
             None \<Rightarrow> Some s
           | Some c \<Rightarrow> do { (_, s) \<leftarrow> rt_device_close (ops c) c s; Some s });
         (_, s) \<leftarrow> rt_device_open (ops new) new (RT_DEVICE_OFLAG_RDWR OR RT_DEVICE_FLAG_STREAM) s;
         Some (old_device, Some new, s)
       }
   }"

subsection \<open>The driver for pins\<close>

text \<open>The functions of the board behind \<^verbatim>\<open>components/drivers/misc/pin.c\<close>.\<close>

record pin_ops =
  hw_pin_mode :: "nat \<Rightarrow> u16 \<Rightarrow> u16 \<Rightarrow> kernel \<Rightarrow> kernel"
  hw_pin_write :: "nat \<Rightarrow> u16 \<Rightarrow> u16 \<Rightarrow> kernel \<Rightarrow> kernel"
  hw_pin_read :: "nat \<Rightarrow> u16 \<Rightarrow> kernel \<Rightarrow> int"

text \<open>The two 16-bit fields of \<^verbatim>\<open>struct rt_device_pin_status\<close> and \<^verbatim>\<open>struct rt_device_pin_mode\<close>.\<close>

definition field16 :: "u8 list \<Rightarrow> nat \<Rightarrow> u16" where
  "field16 b k = ucast (b ! k) OR push_bit 8 (ucast (b ! (k + 1)))"

definition pin_read :: "pin_ops \<Rightarrow> nat \<Rightarrow> int \<Rightarrow> u8 list option \<Rightarrow> u32 \<Rightarrow> kernel \<Rightarrow> (u32 \<times> u8 list option \<times> kernel) option" where
  "pin_read hw dev pos buffer sz s =
     (case buffer of
        None \<Rightarrow> Some (0, buffer, s)
      | Some b \<Rightarrow>
          if sz \<noteq> 4 then Some (0, buffer, s)
          else do {
            RT_ASSERT (4 \<le> length b);
            let v = (of_int (hw_pin_read hw dev (field16 b 0) s) :: u16);
            Some (sz, Some (b[2 := ucast v, 3 := ucast (drop_bit 8 v)]), s)
          })"

definition pin_write :: "pin_ops \<Rightarrow> nat \<Rightarrow> int \<Rightarrow> u8 list option \<Rightarrow> u32 \<Rightarrow> kernel \<Rightarrow> (u32 \<times> kernel) option" where
  "pin_write hw dev pos buffer sz s =
     (case buffer of
        None \<Rightarrow> Some (0, s)
      | Some b \<Rightarrow>
          if sz \<noteq> 4 then Some (0, s)
          else do {
            RT_ASSERT (4 \<le> length b);
            Some (sz, hw_pin_write hw dev (field16 b 0) (field16 b 2) s)
          })"

definition pin_control :: "pin_ops \<Rightarrow> nat \<Rightarrow> int \<Rightarrow> u8 list option \<Rightarrow> kernel \<Rightarrow> (rt_err \<times> kernel) option" where
  "pin_control hw dev cmd args s =
     (case args of
        None \<Rightarrow> Some (- RT_ERROR, s)
      | Some b \<Rightarrow> do {
          RT_ASSERT (4 \<le> length b);
          Some (0, hw_pin_mode hw dev (field16 b 0) (field16 b 2) s)
        })"

definition pin_device :: "pin_ops \<Rightarrow> device_ops" where
  "pin_device hw = \<lparr>op_init = None, op_open = None, op_close = None, op_read = Some (pin_read hw), op_write = Some (pin_write hw),
     op_control = Some (pin_control hw)\<rparr>"

definition rt_device_pin_register :: "nat \<Rightarrow> u8 list \<Rightarrow> kernel \<Rightarrow> (int \<times> kernel) option" where
  "rt_device_pin_register hw_pin name s = do {
     let s = upd_dev hw_pin (\<lambda>d. d\<lparr>dev_type := 19, dev_rx_indicate := None, dev_tx_complete := None\<rparr>) s;
     (_, s) \<leftarrow> rt_device_register (Some hw_pin) name RT_DEVICE_FLAG_RDWR s;
     Some (0, s)
   }"

subsection \<open>What the kernel relies on\<close>

lemma upd_dev_fields [simp]:
  "kinv (upd_dev d f s) = kinv s" "live (upd_dev d f s) = live s" "objs (upd_dev d f s) = objs s" "heap (upd_dev d f s) = heap s"
  "devices (upd_dev d f s) e = (if e = d then f (devices s d) else devices s e)"
  "rt_object_get_type x (upd_dev d f s) = rt_object_get_type x s"
  by (simp_all add: upd_dev_def rt_object_get_type_def)

lemma device_type: "kinv s \<Longrightarrow> rt_object_get_type (ODevice d) s = RT_Object_Class_Device \<longleftrightarrow> live s (ODevice d)"
  using rt_object_get_type_live [of s "ODevice d"] by (simp add: class_of_def)

text \<open>A function of a driver keeps the invariant, the registration, and what \<^verbatim>\<open>device.c\<close> counts. The open flags are its own.\<close>

definition driver_keeps :: "nat \<Rightarrow> kernel \<Rightarrow> kernel \<Rightarrow> bool" where
  "driver_keeps d s s' \<longleftrightarrow> kinv s' \<and> live s' (ODevice d) \<and> dev_flag (devices s' d) = dev_flag (devices s d) \<and>
     dev_ref_count (devices s' d) = dev_ref_count (devices s d)"

locale device_driver =
  fixes ops :: device_ops and d :: nat
  assumes init_ok: "op_init ops = Some f \<Longrightarrow> kinv s \<Longrightarrow> live s (ODevice d) \<Longrightarrow> \<exists>s'. f d s = Some (RT_EOK, s') \<and> driver_keeps d s s'
      \<and> dev_open_flag (devices s' d) = dev_open_flag (devices s d)"
    and open_ok: "op_open ops = Some g \<Longrightarrow> kinv s \<Longrightarrow> live s (ODevice d) \<Longrightarrow> \<exists>s'. g d oflag s = Some (RT_EOK, s') \<and> driver_keeps d s s'"
    and close_ok: "op_close ops = Some f \<Longrightarrow> kinv s \<Longrightarrow> live s (ODevice d) \<Longrightarrow> \<exists>s'. f d s = Some (RT_EOK, s') \<and> driver_keeps d s s'"

text \<open>The count of users and the open flag agree.\<close>

definition dev_inv :: "nat \<Rightarrow> kernel \<Rightarrow> bool" where
  "dev_inv d s \<longleftrightarrow> kinv s \<and> live s (ODevice d) \<and> (bit (dev_open_flag (devices s d)) 3 \<longleftrightarrow> dev_ref_count (devices s d) \<noteq> 0)"

definition standalone :: "nat \<Rightarrow> kernel \<Rightarrow> bool" where
  "standalone d s \<longleftrightarrow> bit (dev_flag (devices s d)) 3"

lemma dev_flag_bits:
  "w AND 8 = 0 \<longleftrightarrow> \<not> bit (w :: u16) 3" "w AND 16 = 0 \<longleftrightarrow> \<not> bit w 4" "bit (w OR 8) 3" "bit (w OR 16) 3 = bit w 3"
  using and_exp_zero_iff [of w 3] and_exp_zero_iff [of w 4] by (simp_all add: bit_simps)

text \<open>The specification: a counter of users. A standalone device has at most one.\<close>

datatype dev_call = Dev_open u16 | Dev_close

fun users_step :: "bool \<Rightarrow> dev_call \<Rightarrow> nat \<Rightarrow> rt_err \<times> nat" where
  "users_step alone (Dev_open oflag) n = (if alone \<and> 0 < n then (- RT_EBUSY, n) else (RT_EOK, n + 1))"
| "users_step alone Dev_close n = (if n = 0 then (- RT_ERROR, 0) else (RT_EOK, n - 1))"

fun users_run :: "bool \<Rightarrow> dev_call list \<Rightarrow> nat \<Rightarrow> rt_err list \<times> nat" where
  "users_run alone [] n = ([], n)"
| "users_run alone (c # cs) n = (let (r, n) = users_step alone c n; (rs, n) = users_run alone cs n in (r # rs, n))"

fun dev_step :: "device_ops \<Rightarrow> nat \<Rightarrow> dev_call \<Rightarrow> kernel \<Rightarrow> (rt_err \<times> kernel) option" where
  "dev_step ops d (Dev_open oflag) s = rt_device_open ops d oflag s"
| "dev_step ops d Dev_close s = rt_device_close ops d s"

fun dev_run :: "device_ops \<Rightarrow> nat \<Rightarrow> dev_call list \<Rightarrow> kernel \<Rightarrow> (rt_err list \<times> kernel) option" where
  "dev_run ops d [] s = Some ([], s)"
| "dev_run ops d (c # cs) s = do {
     (r, s) \<leftarrow> dev_step ops d c s;
     (rs, s) \<leftarrow> dev_run ops d cs s;
     Some (r # rs, s)
   }"

abbreviation users :: "nat \<Rightarrow> kernel \<Rightarrow> nat" where
  "users d s \<equiv> unat (dev_ref_count (devices s d))"

context device_driver
begin

lemma activate_ok:
  assumes "kinv s" "live s (ODevice d)"
  shows "\<exists>s'. device_activate ops d s = Some (RT_EOK, s') \<and> kinv s' \<and> live s' (ODevice d) \<and>
    bit (dev_flag (devices s' d)) 3 = bit (dev_flag (devices s d)) 3 \<and> dev_ref_count (devices s' d) = dev_ref_count (devices s d) \<and>
    dev_open_flag (devices s' d) = dev_open_flag (devices s d)"
proof (cases "op_init ops")
  case None
  then show ?thesis using assms by (auto simp: device_activate_def dev_flag_bits)
next
  case (Some f)
  then show ?thesis using init_ok [OF Some assms] assms by (auto simp: device_activate_def driver_keeps_def dev_flag_bits)
qed

lemma open_step:
  assumes inv: "dev_inv d s" and few: "users d s < 255"
  shows "\<exists>s'. rt_device_open ops d oflag s = Some (fst (users_step (standalone d s) (Dev_open oflag) (users d s)), s') \<and> dev_inv d s' \<and>
    users d s' = snd (users_step (standalone d s) (Dev_open oflag) (users d s)) \<and> standalone d s' = standalone d s"
proof -
  obtain s1 where s1: "device_activate ops d s = Some (RT_EOK, s1)" "kinv s1" "live s1 (ODevice d)"
    "bit (dev_flag (devices s1 d)) 3 = bit (dev_flag (devices s d)) 3" "dev_ref_count (devices s1 d) = dev_ref_count (devices s d)"
    "dev_open_flag (devices s1 d) = dev_open_flag (devices s d)"
    using activate_ok inv unfolding dev_inv_def by blast
  have ty: "rt_object_get_type (ODevice d) s = RT_Object_Class_Device" using inv by (simp add: dev_inv_def device_type)
  have inc: "unat (dev_ref_count (devices s d) + 1) = users d s + 1" "dev_ref_count (devices s d) + 1 \<noteq> 0"
    using unat_inc8 [of "dev_ref_count (devices s d)"] few by (auto simp: word_less_nat_alt)
  have pos: "0 < users d s \<longleftrightarrow> bit (dev_open_flag (devices s d)) 3" using inv by (simp add: dev_inv_def unat_gt_0)
  show ?thesis
  proof (cases "standalone d s \<and> 0 < users d s")
    case True
    then show ?thesis using inv s1 ty pos by (auto simp: rt_device_open_def dev_inv_def standalone_def dev_flag_bits)
  next
    case False
    then have free: "\<not> (bit (dev_flag (devices s1 d)) 3 \<and> bit (dev_open_flag (devices s1 d)) 3)" using s1(4,6) pos by (simp add: standalone_def)
    obtain s2 where s2: "(case op_open ops of Some f \<Rightarrow> f d oflag s1
        | None \<Rightarrow> Some (RT_EOK, upd_dev d (\<lambda>x. x\<lparr>dev_open_flag := oflag AND RT_DEVICE_OFLAG_MASK\<rparr>) s1)) = Some (RT_EOK, s2)"
      "driver_keeps d s1 s2"
    proof (cases "op_open ops")
      case None
      then show ?thesis using s1(2,3) by (intro that [of "upd_dev d (\<lambda>x. x\<lparr>dev_open_flag := oflag AND RT_DEVICE_OFLAG_MASK\<rparr>) s1"]) (auto simp: driver_keeps_def)
    next
      case (Some g)
      then show ?thesis using open_ok [OF Some s1(2,3), of oflag] that by auto
    qed
    then show ?thesis using False free s1 inc ty by (auto simp: rt_device_open_def dev_inv_def standalone_def dev_flag_bits driver_keeps_def Let_def)
  qed
qed

lemma close_step:
  assumes inv: "dev_inv d s"
  shows "\<exists>s'. rt_device_close ops d s = Some (fst (users_step (standalone d s) Dev_close (users d s)), s') \<and> dev_inv d s' \<and>
    users d s' = snd (users_step (standalone d s) Dev_close (users d s)) \<and> standalone d s' = standalone d s"
proof -
  have ty: "rt_object_get_type (ODevice d) s = RT_Object_Class_Device" using inv by (simp add: dev_inv_def device_type)
  let ?c = "dev_ref_count (devices s d)"
  show ?thesis
  proof (cases "?c = 0")
    case True
    then show ?thesis using inv ty by (simp add: rt_device_close_def)
  next
    case False
    let ?s1 = "upd_dev d (\<lambda>x. x\<lparr>dev_ref_count := dev_ref_count x - 1\<rparr>) s"
    have dec: "unat (?c - 1) = users d s - 1" "0 < users d s" using False by (simp_all add: unat_dec unat_gt_0)
    have k: "kinv ?s1" "live ?s1 (ODevice d)" using inv by (simp_all add: dev_inv_def)
    obtain s2 where s2: "(case op_close ops of None \<Rightarrow> Some (RT_EOK, ?s1) | Some f \<Rightarrow> f d ?s1) = Some (RT_EOK, s2)" "driver_keeps d ?s1 s2"
    proof (cases "op_close ops")
      case None
      then show ?thesis using k by (intro that) (auto simp: driver_keeps_def)
    next
      case (Some f)
      then show ?thesis using close_ok [OF Some k] that by auto
    qed
    show ?thesis
    proof (cases "?c - 1 = 0")
      case True
      then show ?thesis using False s2 ty dec k by (auto simp: rt_device_close_def dev_inv_def standalone_def driver_keeps_def Let_def)
    next
      case no: False
      then show ?thesis using False ty dec inv by (auto simp: rt_device_close_def dev_inv_def standalone_def Let_def)
    qed
  qed
qed

lemma run_ok:
  "dev_inv d s \<Longrightarrow> users d s + length cs \<le> 255 \<Longrightarrow>
   \<exists>s'. dev_run ops d cs s = Some (fst (users_run (standalone d s) cs (users d s)), s') \<and> dev_inv d s' \<and>
     users d s' = snd (users_run (standalone d s) cs (users d s))"
proof (induction cs arbitrary: s)
  case (Cons c cs)
  obtain s1 where s1: "dev_step ops d c s = Some (fst (users_step (standalone d s) c (users d s)), s1)" "dev_inv d s1"
    "users d s1 = snd (users_step (standalone d s) c (users d s))" "standalone d s1 = standalone d s"
    using open_step [OF Cons.prems(1)] close_step [OF Cons.prems(1)] Cons.prems(2) by (cases c) fastforce+
  have "users d s1 \<le> users d s + 1" unfolding s1(3) by (cases c) auto
  then have "users d s1 + length cs \<le> 255" using Cons.prems(2) by simp
  from Cons.IH [OF s1(2) this] obtain s' where "dev_run ops d cs s1 = Some (fst (users_run (standalone d s1) cs (users d s1)), s')"
    "dev_inv d s'" "users d s' = snd (users_run (standalone d s1) cs (users d s1))" by blast
  then show ?case using s1 by (simp add: split_beta)
qed simp

end

interpretation pin: device_driver "pin_device hw" d for hw d
  by unfold_locales (simp_all add: pin_device_def)

text \<open>Pins of a board that always read 0, and a state with a device that is closed, with the given flags.\<close>

definition quiet_pins :: pin_ops where
  "quiet_pins = \<lparr>hw_pin_mode = (\<lambda>_ _ _ s. s), hw_pin_write = (\<lambda>_ _ _ s. s), hw_pin_read = (\<lambda>_ _ _. 0)\<rparr>"

definition demo_dev :: "u16 \<Rightarrow> kernel" where
  "demo_dev flags = upd_dev 7 (\<lambda>_. zero_device\<lparr>dev_flag := flags\<rparr>) (linked_object (ODevice 7) (class_of (ODevice 7) OR 0x80) (replicate 8 0) (demo 3))"

lemma demo_dev_inv: "dev_inv 7 (demo_dev flags)"
proof -
  have "kinv (linked_object (ODevice 7) (class_of (ODevice 7) OR 0x80) (replicate 8 0) (demo 3))"
    by (rule kinv_linked_object) (simp_all add: demo_kinv demo_live_iff demo_live_def)
  moreover have "live (linked_object (ODevice 7) (class_of (ODevice 7) OR 0x80) (replicate 8 0) (demo 3)) (ODevice 7)"
    by (simp add: live_def linked_object_def)
  ultimately show ?thesis by (simp add: dev_inv_def demo_dev_def zero_device_def)
qed

text \<open>
  C22. Opening and closing a device. With a driver that keeps its contract, every sequence of \<^verbatim>\<open>rt_device_open\<close> and \<^verbatim>\<open>rt_device_close\<close>
  calls returns the results of a counter of users: a standalone device refuses a second user with \<^verbatim>\<open>-RT_EBUSY\<close>, closing a device that nobody uses fails
  with \<^verbatim>\<open>-RT_ERROR\<close>, the reference count is the number of users, and the open flag is set exactly while there are users. Without users,
  reading and writing are refused with the error number \<^verbatim>\<open>-RT_ERROR\<close> and the driver is not called.
\<close>

theorem device_users_correct:
  assumes "device_driver ops d" "dev_inv d s" "users d s + length cs \<le> 255"
  shows "\<exists>s'. dev_run ops d cs s = Some (fst (users_run (standalone d s) cs (users d s)), s') \<and> kinv s' \<and>
    users d s' = snd (users_run (standalone d s) cs (users d s)) \<and>
    (dev_open_flag (devices s' d) AND RT_DEVICE_OFLAG_OPEN \<noteq> 0 \<longleftrightarrow> 0 < users d s') \<and>
    (users d s' = 0 \<longrightarrow> rt_device_read ops d pos buffer sz s' = Some (0, buffer, rt_set_errno (- RT_ERROR) s') \<and>
       rt_device_write ops d pos buffer sz s' = Some (0, rt_set_errno (- RT_ERROR) s'))"
proof -
  obtain s' where s': "dev_run ops d cs s = Some (fst (users_run (standalone d s) cs (users d s)), s')" "dev_inv d s'"
    "users d s' = snd (users_run (standalone d s) cs (users d s))"
    using device_driver.run_ok [OF assms] by blast
  have "rt_object_get_type (ODevice d) s' = RT_Object_Class_Device" using s'(2) by (simp add: dev_inv_def device_type)
  then have "users d s' = 0 \<longrightarrow> rt_device_read ops d pos buffer sz s' = Some (0, buffer, rt_set_errno (- RT_ERROR) s') \<and>
      rt_device_write ops d pos buffer sz s' = Some (0, rt_set_errno (- RT_ERROR) s')"
    by (simp add: rt_device_read_def rt_device_write_def unat_eq_0)
  moreover have "dev_open_flag (devices s' d) AND RT_DEVICE_OFLAG_OPEN \<noteq> 0 \<longleftrightarrow> 0 < users d s'"
    using s'(2) by (simp add: dev_inv_def dev_flag_bits unat_gt_0)
  ultimately show ?thesis using s' by (intro exI [of _ s']) (simp add: dev_inv_def)
qed

theorem device_users_correct_witness:
  "\<exists>s'. dev_run (pin_device quiet_pins) 7 [Dev_open 3, Dev_open 3, Dev_close, Dev_close, Dev_close] (demo_dev 8) = Some ([0, -7, 0, -1, -1], s') \<and>
    kinv s' \<and> rt_device_write (pin_device quiet_pins) 7 0 None 4 s' = Some (0, rt_set_errno (- 1) s')"
proof -
  let ?cs = "[Dev_open 3, Dev_open 3, Dev_close, Dev_close, Dev_close]"
  have d: "users 7 (demo_dev 8) = 0" "standalone 7 (demo_dev 8)" by (simp_all add: demo_dev_def zero_device_def standalone_def)
  have r: "users_run True ?cs 0 = ([0, -7, 0, -1, -1], 0)" by simp
  show ?thesis
    using device_users_correct [OF pin.device_driver_axioms [of quiet_pins 7] demo_dev_inv, of 8 ?cs 0 None 4]
    unfolding d eqTrueI [OF d(2)] r by (auto simp del: dev_run.simps)
qed

subsection \<open>Registration\<close>

lemma device_find_ok:
  assumes "kinv s" "rt_interrupt_nest s = 0" "readable RT_NAME_MAX name"
  obtains r s' where "rt_device_find name s = Some (r, s')" "kinv s'" "live s' = live s" "core_step s s'"
    "r = None \<longleftrightarrow> (\<forall>d. live s (ODevice d) \<longrightarrow> cstr RT_NAME_MAX (ob_name (objs s (ODevice d))) \<noteq> cstr RT_NAME_MAX name)"
proof -
  let ?P = "\<lambda>y. cstr RT_NAME_MAX (ob_name (objs s y)) = cstr RT_NAME_MAX name" and ?xs = "ring (object_rings s) RT_Object_Class_Device"
  obtain s' where s': "rt_object_find (Some name) (class_of (ODevice 0)) s = Some (List.find ?P (ring (object_rings s) (class_of (ODevice 0))), s')"
    "s' = s \<or> schedules s s'"
    by (rule rt_object_find_ok [OF assms], rule that)
  have k: "kinv s'" "core_step s s'" using s'(2) assms(1) schedulesD [of s s'] by auto
  have mem: "y \<in> set ?xs \<longleftrightarrow> (\<exists>d. y = ODevice d \<and> live s (ODevice d))" for y
    using kinvD(4) [OF assms(1), of y] rings_ok_home [OF kinvD(3) [OF assms(1)], of y RT_Object_Class_Device]
    by (cases y) (auto simp: live_def obj_ok_def class_of_def split: option.splits)
  define r where "r = (case List.find ?P ?xs of Some (ODevice d) \<Rightarrow> Some d | _ \<Rightarrow> None)"
  have f: "rt_device_find name s = Some (r, s')" using s'(1) by (simp add: rt_device_find_def class_of_def r_def)
  have "r = None \<longleftrightarrow> List.find ?P ?xs = None"
  proof (cases "List.find ?P ?xs")
    case (Some y)
    then have "y \<in> set ?xs" by (auto simp: find_Some_iff)
    then show ?thesis using Some mem by (auto simp: r_def)
  qed (simp add: r_def)
  then have "r = None \<longleftrightarrow> (\<forall>d. live s (ODevice d) \<longrightarrow> \<not> ?P (ODevice d))" using mem by (auto simp: find_None_iff)
  then show thesis using that [OF f k(1) core_step_live [OF k(2)] k(2)] by simp
qed

text \<open>
  C34. Registering a device whose name is taken fails with \<^verbatim>\<open>-RT_ERROR\<close> and registers nothing. Otherwise the device is registered, closed and without users.
  \<^verbatim>\<open>rt_device_destroy\<close> then always fails: it demands that the object is not static, but registration is what makes it static, and
  a device that is not registered fails the check of its type.
\<close>

theorem rt_device_register_correct:
  assumes "kinv s" "rt_interrupt_nest s = 0" "\<not> live s (ODevice d)" "readable RT_NAME_MAX name"
  shows "\<exists>r s'. rt_device_register (Some d) name flags s = Some (r, s') \<and> kinv s' \<and>
    (if \<exists>e. live s (ODevice e) \<and> cstr RT_NAME_MAX (ob_name (objs s (ODevice e))) = cstr RT_NAME_MAX name
     then r = - RT_ERROR \<and> live s' = live s
     else r = RT_EOK \<and> live s' = (live s)(ODevice d := True) \<and> dev_inv d s' \<and> users d s' = 0 \<and> dev_flag (devices s' d) = flags) \<and>
    rt_device_destroy d s' = None"
proof -
  obtain r s1 where s1: "rt_device_find name s = Some (r, s1)" "kinv s1" "live s1 = live s" "core_step s s1"
    "r = None \<longleftrightarrow> (\<forall>e. live s (ODevice e) \<longrightarrow> cstr RT_NAME_MAX (ob_name (objs s (ODevice e))) \<noteq> cstr RT_NAME_MAX name)"
    by (rule device_find_ok [OF assms(1,2,4)], rule that)
  show ?thesis
  proof (cases "r = None")
    case False
    have "rt_device_destroy d s1 = None" using device_type [OF s1(2), of d] s1(3) assms(3) by (simp add: rt_device_destroy_def RT_ASSERT_def)
    then show ?thesis using False s1 by (auto simp: rt_device_register_def)
  next
    case True
    have dead: "\<not> live s1 (ODevice d)" using s1(3) assms(3) by simp
    obtain s2 where s2: "rt_object_init (ODevice d) (class_of (ODevice d)) name s1 = Some s2" "kinv s2" "live s2 (ODevice d)"
      "\<And>y. live s2 y \<longleftrightarrow> y = ODevice d \<or> live s1 y" "is_static s2 (ODevice d)"
      by (rule ipc_init_ok [OF s1(2) is_ipc_simps(9) dead assms(4)], rule that)
    let ?s = "upd_dev d (\<lambda>x. x\<lparr>dev_flag := flags, dev_open_flag := 0, dev_ref_count := 0\<rparr>) s2"
    have "live ?s = (live s)(ODevice d := True)" using s2(4) s1(3) by (auto simp: fun_eq_iff)
    moreover have "rt_device_destroy d ?s = None"
      using s2(5) by (simp add: rt_device_destroy_def RT_ASSERT_def rt_object_is_systemobject_def is_static_def)
    ultimately show ?thesis using True s1 s2 by (auto simp: rt_device_register_def class_of_def dev_inv_def)
  qed
qed

theorem rt_device_register_correct_witness:
  "\<exists>r s'. rt_device_register (Some 9) [112, 0] 3 (demo 3) = Some (r, s') \<and> kinv s' \<and> r = RT_EOK \<and> dev_inv 9 s' \<and> rt_device_destroy 9 s' = None"
proof -
  have none: "\<not> live (demo 3) (ODevice e)" for e by (simp add: demo_live_iff demo_live_def)
  then show ?thesis using rt_device_register_correct [of "demo 3" 9 "[112, 0]" 3] by (simp add: demo_kinv readable_def) blast
qed

lemma rt_device_unregister_ok:
  assumes "kinv s" "live s (ODevice d)" "is_static s (ODevice d)" "ring (thread_rings s) (Suspended (ODevice d)) = []"
  shows "\<exists>s'. rt_device_unregister d s = Some (RT_EOK, s') \<and> kinv s' \<and> \<not> live s' (ODevice d)"
proof -
  have "kinv (rt_object_detach (ODevice d) s)"
    by (rule ipc_detach_ok [OF assms(1)]) (use assms(4) in \<open>auto simp: wait_list_def\<close>)
  moreover have "\<not> live (rt_object_detach (ODevice d) s) (ODevice d)" by simp
  ultimately show ?thesis using assms device_type [OF assms(1), of d]
    by (simp add: rt_device_unregister_def rt_object_is_systemobject_def is_static_def)
qed

end
