(* ===== verification/Spec2Isabelle.thy ===== *)
theory Spec2Isabelle
  imports RT_SemSteps RT_Mutex RT_Event RT_Mailbox RT_MqSteps RT_MemPool RT_Heap RT_MemHeapCalls RT_RingBuffer RT_Printf RT_Device
begin

text \<open>
  \<^bold>\<open>The RT-Thread kernel.\<close> A model of the kernel of RT-Thread 4.1.0 (\<^verbatim>\<open>src/rt-thread/src\<close>) in the configuration of a
  uniprocessor 32-bit system with 32 priorities, a timer skip list of one level, soft timers, names of eight
  characters, 100 ticks per second, context checks of \<^verbatim>\<open>rtdebug.h\<close> enabled and no hooks, signals or modules.

  \<^bold>\<open>State.\<close> \<open>kernel\<close> (theory \<open>RT_Kernel\<close>) has one store per kind of object and the static variables of the
  source files. An embedded list node is linked in one of three families of rings (threads, timers,
  objects); \<open>RT_List\<close> shows that the pointer code of \<^verbatim>\<open>rtservice.h\<close> implements the ring operations.
  Operations are functions into \<open>option\<close>: \<open>None\<close> is a failed assertion or an access the C code must not make. A
  blocking call is split at \<open>rt_schedule\<close>: its first part returns \<open>Return\<close> or \<open>Pending\<close>, the second part
  (\<open>..._resume\<close>) runs when the thread is current again. Each critical section is one atomic operation.

  \<^bold>\<open>Theories.\<close>
  \<^item> \<open>RT_Prelude\<close>: words, assertions, the calculus of partial operations. \<open>RT_List\<close>: lists. \<open>RT_KService\<close>: the string
    functions of the object container and the two bit searches of \<^verbatim>\<open>kservice.c\<close>. \<open>RT_Memory\<close>: its memory functions and the other string functions.
    \<open>RT_Printf\<close>: its formatted output.
  \<^item> \<open>RT_Kernel\<close>, \<open>RT_Invariant\<close>, \<open>RT_Demo\<close>: the state, the kernel invariant \<open>kinv\<close>, an example state.
  \<^item> \<open>RT_Scheduler\<close> (\<^verbatim>\<open>scheduler.c\<close>, \<^verbatim>\<open>irq.c\<close>), \<open>RT_Object\<close> (\<^verbatim>\<open>object.c\<close>), \<open>RT_Timer\<close> (\<^verbatim>\<open>timer.c\<close>), \<open>RT_Thread\<close>
    (\<^verbatim>\<open>thread.c\<close>), \<open>RT_Clock\<close> (\<^verbatim>\<open>clock.c\<close> and the check loops of \<^verbatim>\<open>timer.c\<close>), \<open>RT_Idle\<close> (\<^verbatim>\<open>idle.c\<close>).
  \<^item> \<open>RT_Ipc\<close>: the waiting lists of \<^verbatim>\<open>ipc.c\<close> and the sequence by which a call blocks; \<open>RT_Sem\<close>, \<open>RT_Mutex\<close>, \<open>RT_Event\<close>,
    \<open>RT_Mailbox\<close>, \<open>RT_MsgQueue\<close>: its objects. \<open>RT_Buffer\<close>: the contract of a bounded message buffer.
  \<^item> \<open>RT_Alloc\<close>: the error number and the contract of an allocator; \<open>RT_MemPool\<close> (\<^verbatim>\<open>mempool.c\<close>). \<open>RT_Cells\<close>: the specification of a first-fit
    heap; \<open>RT_SmallMem\<close> (\<^verbatim>\<open>mem.c\<close>) and \<open>RT_Heap\<close> (resizing and initialisation of \<^verbatim>\<open>mem.c\<close>, \<^verbatim>\<open>rt_malloc\<close> and its relatives of \<^verbatim>\<open>kservice.c\<close>).
    \<open>RT_MemHeap\<close>: the model of \<^verbatim>\<open>memheap.c\<close> and its two rings of items; \<open>RT_MemHeapCalls\<close>: the contract of its calls.
  \<^item> \<open>RT_Device\<close>: the device framework \<^verbatim>\<open>device.c\<close>, the pin driver, the choice of the console device.
  \<^item> \<open>RT_RingBuffer\<close>: the byte ring buffer \<^verbatim>\<open>components/drivers/ipc/ringbuffer.c\<close>.
  \<^item> \<open>RT_SemSteps\<close>, \<open>RT_MqSteps\<close>: step relations that interleave the operations of many threads on one semaphore, and the
    critical sections of many threads on one message queue.

  \<^bold>\<open>Interfaces.\<close> Each is a locale with its laws, interpreted on the definitions of the model:
  \<open>linked_rings\<close> (a family of lists; the abstract rings and the pointer heap provide it), \<open>timeout_callbacks\<close> and
  \<open>cleanup_functions\<close> (what the kernel asks of functions of the application), \<open>device_driver\<close> (what it asks of a driver), \<open>wake_source\<close> (an operation that
  serves the first waiting thread; waiting lists and semaphores provide it), \<open>bounded_queue\<close> (mailboxes and message queues),
  \<open>allocator\<close> (memory pools, the heap and memory heaps), \<open>op_refinement\<close> (the ring buffer and its queue of bytes).

  \<^bold>\<open>What is shown.\<close> The kernel invariant \<open>kinv\<close> ties the lists, the status of every thread, the priority bit map, the
  timers and the object container together; the lemmas named \<open>..._ok\<close> show that the operations keep it. On top
  of them the theorems state, for every branch and error code, what each operation does: the scheduler runs a thread of
  the highest priority and rotates equal ones; the clock interrupt fires exactly the due timers and ends; timers stay
  ordered across the wrap-around of the tick; threads are created, put to sleep, ended and reclaimed; semaphores,
  mutexes, event sets, mailboxes and message queues grant, block, hand over and fail as documented. Refinements
  relate pointer lists to sequences, event sending to a specification of one pass over the waiting threads, and both
  kinds of message buffer to a bounded queue. The three allocators hand out disjoint blocks and take them back for every program of a client; the
  heap is shown to be the first-fit heap of its specification, merging included; memory heaps are first fit in the order of their free ring, keep both of
  their rings and never leave two free neighbours; the ring buffer is a bounded queue of bytes. The memory functions equal copying and
  setting all bytes at once; formatted output equals a specification of the characters of a format, cut to the buffer.
  The step relations show conservation of semaphore tokens and the
  integrity of messages under every interleaving.

  \<^bold>\<open>Loops.\<close> Loops over lists are structural recursions; loops that need not end for all states are
  partial functions into \<open>option\<close>, and their termination under stated conditions is a theorem. There is no fuel.

  \<^bold>\<open>Memory.\<close> What the kernel itself allocates (stacks, objects, pools of messages) is a parameter of the operation that
  allocates it and recorded in the ghost set \<open>heap\<close>. The heap, memory heaps and the memory pools are modelled with their headers
  at word addresses; the headers and the bytes of the application are separate maps, which the theorems about disjoint blocks justify.

  \<^bold>\<open>Not modelled.\<close> The allocator \<^verbatim>\<open>slab.c\<close> and the use of a memory heap as system heap (the configuration uses \<^verbatim>\<open>mem.c\<close>), signals, SMP, start-up code, the assembly ports and everything outside
  the kernel directory.
\<close>

end
